(* ===== verification/Prelude.thy ===== *)
theory Prelude imports Main "HOL-Library.Word" begin

text \<open>
  Shared vocabulary of the development.

  \<^item> Faults: what a C++ operation of the library can do instead of returning: a failed
    \<open>ASSERT\<close> (\<open>src/common/assert.hpp\<close>: the debug build calls \<open>lpfAssertionFailure\<close>, which
    aborts), an access outside a vector (undefined behaviour), the exceptions
    \<open>std::bad_alloc\<close> and \<open>std::length_error\<close>, and the library's own exceptions with
    their text.  \<open>OutOfFuel\<close> is no fault of the program: it is what a model of a loop without a
    bound of its own returns when the bound it was given is used up.
    \<open>Unrepresentable\<close> is the conversion of a \<open>double\<close> to an integer type that it does not fit in, which has no defined result.
    An operation returns \<open>fault + 'a\<close>, the fault on the left.
  \<^item> Vectors: \<open>std::vector\<close> as a list with checked reads and writes.
  \<^item> \<open>size_t\<close>: \<open>nat\<close> with the wrap-around at \<open>2 ^ 64\<close> written out where the code can wrap.
  \<^item> The collections \<open>bindE_simps\<close> and \<open>vec_simps\<close>.
\<close>

named_theorems bindE_simps \<open>rules that run the error monad\<close>
named_theorems vec_simps \<open>rules for checked vector accesses\<close>

section \<open>Faults\<close>

datatype fault =
    AssertionFailed
  | OutOfBounds
  | BadAlloc
  | LengthError
  | ErrorThrown string
  | NullDereference
  | DivisionByZero
  | OutOfFuel
  | Unrepresentable

text \<open>What a \<open>catch (...)\<close> intercepts.\<close>

definition is_exception :: "fault \<Rightarrow> bool" where
  "is_exception e = (case e of BadAlloc \<Rightarrow> True | LengthError \<Rightarrow> True | ErrorThrown _ \<Rightarrow> True | _ \<Rightarrow> False)"

lemma is_exception_simps [simp]:
  "is_exception BadAlloc" "is_exception LengthError" "is_exception (ErrorThrown what)"
  "\<not> is_exception AssertionFailed" "\<not> is_exception OutOfBounds"
  "\<not> is_exception NullDereference" "\<not> is_exception DivisionByZero" "\<not> is_exception OutOfFuel"
  "\<not> is_exception Unrepresentable"
  by (simp_all add: is_exception_def)

definition bindE :: "'e + 'a \<Rightarrow> ('a \<Rightarrow> 'e + 'b) \<Rightarrow> 'e + 'b" where
  "bindE m f = (case m of Inl e \<Rightarrow> Inl e | Inr x \<Rightarrow> f x)"

definition ASSERT :: "bool \<Rightarrow> fault + unit" where
  "ASSERT c = (if c then Inr () else Inl AssertionFailed)"

lemma bindE_Inl [simp, bindE_simps]: "bindE (Inl e) f = Inl e"
  by (simp add: bindE_def)

lemma bindE_Inr [simp, bindE_simps]: "bindE (Inr x) f = f x"
  by (simp add: bindE_def)

lemma bindE_eq_Inr [bindE_simps]: "bindE m f = Inr y \<longleftrightarrow> (\<exists>x. m = Inr x \<and> f x = Inr y)"
  by (cases m) simp_all

lemma bindE_Inr_E:
  assumes "bindE m f = Inr y"
  obtains x where "m = Inr x" and "f x = Inr y"
  using assms by (auto simp: bindE_simps)

lemma bindE_cong: "m = m' \<Longrightarrow> (\<And>x. m' = Inr x \<Longrightarrow> f x = f' x) \<Longrightarrow> bindE m f = bindE m' f'"
  by (cases m') simp_all

lemma ASSERT_True [simp, bindE_simps]: "ASSERT True = Inr ()"
  by (simp add: ASSERT_def)

lemma ASSERT_ok [simp]: "c \<Longrightarrow> ASSERT c = Inr ()"
  by (simp add: ASSERT_def)

lemma ASSERT_fail [simp]: "\<not> c \<Longrightarrow> ASSERT c = Inl AssertionFailed"
  by (simp add: ASSERT_def)

lemma ASSERT_eq_Inr [simp]: "ASSERT c = Inr u \<longleftrightarrow> c"
  by (simp add: ASSERT_def)

section \<open>Vectors\<close>

text \<open>\<open>v[i]\<close>, \<open>v[i] = x\<close>, \<open>v.resize(n, d)\<close>, and \<open>swap(v[i], v[j])\<close>.\<close>

definition vec_at :: "'a list \<Rightarrow> nat \<Rightarrow> fault + 'a" where
  "vec_at xs i = (if i < length xs then Inr (xs ! i) else Inl OutOfBounds)"

definition vec_set :: "'a list \<Rightarrow> nat \<Rightarrow> 'a \<Rightarrow> fault + 'a list" where
  "vec_set xs i x = (if i < length xs then Inr (xs[i := x]) else Inl OutOfBounds)"

definition vec_resize :: "nat \<Rightarrow> 'a \<Rightarrow> 'a list \<Rightarrow> 'a list" where
  "vec_resize n d xs = take n xs @ replicate (n - length xs) d"

definition vec_swap :: "'a list \<Rightarrow> nat \<Rightarrow> nat \<Rightarrow> fault + 'a list" where
  "vec_swap xs i j =
     (if i < length xs \<and> j < length xs then Inr (xs[i := xs ! j, j := xs ! i]) else Inl OutOfBounds)"

lemma vec_at_ok [simp, vec_simps]: "i < length xs \<Longrightarrow> vec_at xs i = Inr (xs ! i)"
  by (simp add: vec_at_def)

lemma vec_set_ok [simp, vec_simps]: "i < length xs \<Longrightarrow> vec_set xs i x = Inr (xs[i := x])"
  by (simp add: vec_set_def)

lemma vec_at_eq_Inr [vec_simps]: "vec_at xs i = Inr x \<longleftrightarrow> i < length xs \<and> x = xs ! i"
  by (auto simp: vec_at_def)

lemma vec_set_eq_Inr [vec_simps]: "vec_set xs i x = Inr ys \<longleftrightarrow> i < length xs \<and> ys = xs[i := x]"
  by (auto simp: vec_set_def)

lemma vec_swap_ok [simp, vec_simps]:
  "i < length xs \<Longrightarrow> j < length xs \<Longrightarrow> vec_swap xs i j = Inr (xs[i := xs ! j, j := xs ! i])"
  by (simp add: vec_swap_def)

lemma length_vec_resize [simp, vec_simps]: "length (vec_resize n d xs) = n"
  by (simp add: vec_resize_def)

lemma nth_vec_resize [vec_simps]:
  "i < n \<Longrightarrow> vec_resize n d xs ! i = (if i < length xs then xs ! i else d)"
  by (auto simp: vec_resize_def nth_append)

lemma vec_resize_same [simp]: "vec_resize (length xs) d xs = xs"
  by (simp add: vec_resize_def)

section \<open>\<open>size_t\<close>\<close>

text \<open>The 64 bit unsigned arithmetic of the LP64 targets the library builds for.\<close>

definition SIZE_MAX :: nat where
  "SIZE_MAX = 18446744073709551615"

definition add64 :: "nat \<Rightarrow> nat \<Rightarrow> nat" where
  "add64 a b = (a + b) mod 18446744073709551616"

definition sub64 :: "nat \<Rightarrow> nat \<Rightarrow> nat" where
  "sub64 a b = (a + 18446744073709551616 - b) mod 18446744073709551616"

definition mul64 :: "nat \<Rightarrow> nat \<Rightarrow> nat" where
  "mul64 a b = (a * b) mod 18446744073709551616"

lemma add64_plain: "a + b \<le> SIZE_MAX \<Longrightarrow> add64 a b = a + b"
  by (simp add: add64_def SIZE_MAX_def)

lemma mul64_plain: "a * b \<le> SIZE_MAX \<Longrightarrow> mul64 a b = a * b"
  by (simp add: mul64_def SIZE_MAX_def)

lemma sub64_plain: "b \<le> a \<Longrightarrow> a \<le> SIZE_MAX \<Longrightarrow> sub64 a b = a - b"
  by (simp add: sub64_def SIZE_MAX_def mod_if)

lemma sub64_wrap: "a < b \<Longrightarrow> b \<le> SIZE_MAX \<Longrightarrow> sub64 a b = SIZE_MAX + 1 - (b - a)"
  by (simp add: sub64_def SIZE_MAX_def)

lemma add64_le [simp]: "add64 a b \<le> SIZE_MAX"
  by (simp add: add64_def SIZE_MAX_def less_Suc_eq_le [symmetric])

lemma sub64_le [simp]: "sub64 a b \<le> SIZE_MAX"
  by (simp add: sub64_def SIZE_MAX_def less_Suc_eq_le [symmetric])

section \<open>Lists\<close>

lemma card_less_length_ex: "card S < n \<Longrightarrow> finite S \<Longrightarrow> \<exists>i<n. i \<notin> S"
  by (metis card_lessThan card_mono lessThan_iff linorder_not_le subsetI)

lemma distinct_set_less_length:
  "distinct xs \<Longrightarrow> set xs \<subseteq> {..<n} \<Longrightarrow> length xs \<le> n"
  using card_mono [of "{..<n}" "set xs"] by (simp add: distinct_card)

lemma distinct_missing_length:
  assumes "distinct xs" and "set xs \<subseteq> {..<n}" and "k < n" and "k \<notin> set xs"
  shows "length xs < n"
proof -
  have "set xs \<subseteq> {..<n} - {k}" using assms by blast
  then have "card (set xs) \<le> card ({..<n} - {k})" by (rule card_mono [rotated]) simp
  then show ?thesis using assms by (simp add: distinct_card)
qed

lemma last_notin_butlast: "distinct xs \<Longrightarrow> xs \<noteq> [] \<Longrightarrow> last xs \<notin> set (butlast xs)"
  by (metis append_butlast_last_id distinct_butlast not_distinct_conv_prefix)

lemma set_butlast_distinct: "distinct xs \<Longrightarrow> xs \<noteq> [] \<Longrightarrow> set (butlast xs) = set xs - {last xs}"
proof -
  assume d: "distinct xs" and ne: "xs \<noteq> []"
  have "set xs = set (butlast xs) \<union> {last xs}"
    using ne by (metis append_butlast_last_id list.simps(15) list.set(1) set_append)
  then show ?thesis using last_notin_butlast [OF d ne] by blast
qed

lemma fold_invariant_nat:
  assumes "P s" and "\<And>i s. i \<in> set is \<Longrightarrow> P s \<Longrightarrow> P (f i s)"
  shows "P (fold f is s)"
  using assms by (induction "is" arbitrary: s) simp_all

end
