(* ===== verification/Interaction.thy ===== *)
theory Interaction imports Prelude begin

text \<open>
  How the code that talks to the outside is modelled.  The operations of the engine call the
  Infiniband verbs, the tasking runtime (ALPI) and MPI; what these do is not under \<open>src/\<close>.
  An operation is a \<open>prog\<close>: either it is finished (\<open>Ret\<close>), or it makes an external call and
  goes on with whatever the call answers (\<open>Vis\<close>).  \<open>runs p tr a\<close> says that \<open>p\<close> can make the
  calls of the trace \<open>tr\<close>, get the answers recorded there, and return \<open>a\<close>.  A program is a
  well-founded tree, so it returns whatever the answers are (\<open>runs_total\<close>).

  An \<open>act\<close> is a member function: it reads and changes the state of its object, makes external
  calls, and returns or throws.  As in C++, a throw keeps the changes made before it.  The rules of
  the collection \<open>act_simps\<close> run an \<open>act\<close> against a trace.
\<close>

named_theorems act_simps \<open>rules that run an act against a trace\<close>

datatype ('q, 'r, 'a) prog = Ret 'a | Vis 'q "'r \<Rightarrow> ('q, 'r, 'a) prog"

primrec bindT :: "('q, 'r, 'a) prog \<Rightarrow> ('a \<Rightarrow> ('q, 'r, 'b) prog) \<Rightarrow> ('q, 'r, 'b) prog" where
  "bindT (Ret x) f = f x"
| "bindT (Vis q k) f = Vis q (\<lambda>r. bindT (k r) f)"

primrec runs :: "('q, 'r, 'a) prog \<Rightarrow> ('q \<times> 'r) list \<Rightarrow> 'a \<Rightarrow> bool" where
  "runs (Ret x) tr a \<longleftrightarrow> tr = [] \<and> a = x"
| "runs (Vis q k) tr a \<longleftrightarrow> (case tr of [] \<Rightarrow> False | e # tr' \<Rightarrow> fst e = q \<and> runs (k (snd e)) tr' a)"

lemma runs_Vis: "runs (Vis q k) tr a \<longleftrightarrow> (\<exists>r tr'. tr = (q, r) # tr' \<and> runs (k r) tr' a)"
  by (auto split: list.splits)

lemma runs_bindT:
  "runs (bindT p f) tr b \<longleftrightarrow> (\<exists>t1 t2 a. tr = t1 @ t2 \<and> runs p t1 a \<and> runs (f a) t2 b)"
proof (induction p arbitrary: tr)
  case (Ret x)
  then show ?case by simp
next
  case (Vis q k)
  have ih: "runs (bindT (k r) f) tr' b \<longleftrightarrow>
      (\<exists>t1 t2 a. tr' = t1 @ t2 \<and> runs (k r) t1 a \<and> runs (f a) t2 b)" for r tr'
    by (rule Vis.IH) simp
  show ?case
    by (simp only: bindT.simps runs_Vis ih) (metis append_Cons)
qed

lemma bindT_assoc: "bindT (bindT p g) h = bindT p (\<lambda>x. bindT (g x) h)"
  by (induction p) auto

lemma runs_total: "\<exists>tr a. runs p tr a \<and> (\<forall>e \<in> set tr. snd e = h (fst e))"
proof (induction p)
  case (Ret x)
  then show ?case by (intro exI [of _ "[]"]) simp
next
  case (Vis q k)
  then obtain tr a where "runs (k (h q)) tr a" "\<forall>e \<in> set tr. snd e = h (fst e)" by blast
  then show ?case by (intro exI [of _ "(q, h q) # tr"] exI [of _ a]) simp
qed

lemma runs_det: "runs p tr a \<Longrightarrow> runs p tr b \<Longrightarrow> a = b"
  by (induction p arbitrary: tr) (auto split: list.splits)

section \<open>Acts\<close>

type_synonym ('q, 'r, 's, 'a) act = "'s \<Rightarrow> ('q, 'r, (fault + 'a) \<times> 's) prog"

definition retA :: "'a \<Rightarrow> ('q, 'r, 's, 'a) act" where
  "retA x = (\<lambda>s. Ret (Inr x, s))"

definition throwA :: "fault \<Rightarrow> ('q, 'r, 's, 'a) act" where
  "throwA e = (\<lambda>s. Ret (Inl e, s))"

definition bindA :: "('q, 'r, 's, 'a) act \<Rightarrow> ('a \<Rightarrow> ('q, 'r, 's, 'b) act) \<Rightarrow> ('q, 'r, 's, 'b) act" where
  "bindA m f = (\<lambda>s. bindT (m s) (\<lambda>(r, s'). case r of Inl e \<Rightarrow> Ret (Inl e, s') | Inr x \<Rightarrow> f x s'))"

definition thenA :: "('q, 'r, 's, 'a) act \<Rightarrow> ('q, 'r, 's, 'b) act \<Rightarrow> ('q, 'r, 's, 'b) act" where
  "thenA m n = bindA m (\<lambda>_. n)"

definition callA :: "'q \<Rightarrow> ('q, 'r, 's, 'r) act" where
  "callA q = (\<lambda>s. Vis q (\<lambda>r. Ret (Inr r, s)))"

definition getA :: "('q, 'r, 's, 's) act" where
  "getA = (\<lambda>s. Ret (Inr s, s))"

definition modA :: "('s \<Rightarrow> 's) \<Rightarrow> ('q, 'r, 's, unit) act" where
  "modA f = (\<lambda>s. Ret (Inr (), f s))"

definition liftA :: "('s \<Rightarrow> fault + 'a) \<Rightarrow> ('q, 'r, 's, 'a) act" where
  "liftA f = (\<lambda>s. Ret (f s, s))"

definition assertA :: "bool \<Rightarrow> ('q, 'r, 's, unit) act" where
  "assertA b = (if b then retA () else throwA AssertionFailed)"

text \<open>A member of the state that has operations of its own, and one that reports a failure.\<close>

definition stateA :: "('s \<Rightarrow> fault + 'a \<times> 's) \<Rightarrow> ('q, 'r, 's, 'a) act" where
  "stateA f = (\<lambda>s. case f s of Inl e \<Rightarrow> Ret (Inl e, s) | Inr (x, s') \<Rightarrow> Ret (Inr x, s'))"

definition outcomeA :: "('s \<Rightarrow> 's \<times> fault option) \<Rightarrow> ('q, 'r, 's, unit) act" where
  "outcomeA f = (\<lambda>s. Ret (case snd (f s) of None \<Rightarrow> Inr () | Some e \<Rightarrow> Inl e, fst (f s)))"

text \<open>\<open>try { m } catch (...) { h }\<close>\<close>

definition catchA :: "('q, 'r, 's, 'a) act \<Rightarrow> (fault \<Rightarrow> ('q, 'r, 's, 'a) act) \<Rightarrow> ('q, 'r, 's, 'a) act" where
  "catchA m h = (\<lambda>s. bindT (m s) (\<lambda>(r, s'). case r of
     Inl e \<Rightarrow> if is_exception e then h e s' else Ret (Inl e, s')
   | Inr x \<Rightarrow> Ret (Inr x, s')))"

text \<open>A call of an operation of a member object.\<close>

definition zoomA :: "('t \<Rightarrow> 's) \<Rightarrow> ('s \<Rightarrow> 't \<Rightarrow> 't) \<Rightarrow> ('q, 'r, 's, 'a) act \<Rightarrow> ('q, 'r, 't, 'a) act" where
  "zoomA part put_back m = (\<lambda>t. bindT (m (part t)) (\<lambda>(r, s'). Ret (r, put_back s' t)))"

primrec forA :: "'i list \<Rightarrow> ('i \<Rightarrow> ('q, 'r, 's, unit) act) \<Rightarrow> ('q, 'r, 's, unit) act" where
  "forA [] f = retA ()"
| "forA (i # is) f = bindA (f i) (\<lambda>_. forA is f)"

section \<open>Running acts\<close>

definition acts :: "('q, 'r, 's, 'a) act \<Rightarrow> 's \<Rightarrow> ('q \<times> 'r) list \<Rightarrow> fault + 'a \<Rightarrow> 's \<Rightarrow> bool" where
  "acts m s tr r s' \<longleftrightarrow> runs (m s) tr (r, s')"

lemmas act_defs = acts_def retA_def throwA_def bindA_def thenA_def callA_def getA_def modA_def liftA_def
  assertA_def stateA_def outcomeA_def catchA_def zoomA_def

lemma acts_retA [act_simps]: "acts (retA x) s tr r s' \<longleftrightarrow> tr = [] \<and> r = Inr x \<and> s' = s"
  by (auto simp: acts_def retA_def)

lemma acts_throwA [act_simps]: "acts (throwA e) s tr r s' \<longleftrightarrow> tr = [] \<and> r = Inl e \<and> s' = s"
  by (auto simp: acts_def throwA_def)

lemma acts_getA [act_simps]: "acts getA s tr r s' \<longleftrightarrow> tr = [] \<and> r = Inr s \<and> s' = s"
  by (auto simp: acts_def getA_def)

lemma acts_modA [act_simps]: "acts (modA f) s tr r s' \<longleftrightarrow> tr = [] \<and> r = Inr () \<and> s' = f s"
  by (auto simp: acts_def modA_def)

lemma acts_liftA [act_simps]: "acts (liftA f) s tr r s' \<longleftrightarrow> tr = [] \<and> r = f s \<and> s' = s"
  by (auto simp: acts_def liftA_def)

lemma acts_callA [act_simps]:
  "acts (callA q) s tr r s' \<longleftrightarrow> (\<exists>rep. tr = [(q, rep)] \<and> r = Inr rep \<and> s' = s)"
  by (auto simp: acts_def callA_def split: list.splits)

lemma acts_assertA [act_simps]:
  "acts (assertA b) s tr r s' \<longleftrightarrow> tr = [] \<and> r = (if b then Inr () else Inl AssertionFailed) \<and> s' = s"
  by (simp add: assertA_def act_simps)

lemma acts_bindA:
  "acts (bindA m f) s tr r s' \<longleftrightarrow>
     (\<exists>e. r = Inl e \<and> acts m s tr (Inl e) s') \<or>
     (\<exists>x s1 t1 t2. tr = t1 @ t2 \<and> acts m s t1 (Inr x) s1 \<and> acts (f x) s1 t2 r s')"
  (is "?l \<longleftrightarrow> ?r")
proof
  assume ?l
  then obtain t1 t2 y s1 where t: "tr = t1 @ t2" "runs (m s) t1 (y, s1)"
      "runs (case y of Inl e \<Rightarrow> Ret (Inl e, s1) | Inr x \<Rightarrow> f x s1) t2 (r, s')"
    by (auto simp: acts_def bindA_def runs_bindT)
  then show ?r by (cases y) (auto simp: acts_def)
next
  assume ?r
  then show ?l
  proof (elim disjE exE conjE)
    fix e assume "r = Inl e" "acts m s tr (Inl e) s'"
    then show ?l unfolding acts_def bindA_def runs_bindT
      by (intro exI [of _ tr] exI [of _ "[]"] exI [of _ "(Inl e, s')"]) simp
  next
    fix x s1 t1 t2 assume "tr = t1 @ t2" "acts m s t1 (Inr x) s1" "acts (f x) s1 t2 r s'"
    then show ?l unfolding acts_def bindA_def runs_bindT
      by (intro exI [of _ t1] exI [of _ t2] exI [of _ "(Inr x, s1)"]) simp
  qed
qed

lemma acts_thenA: "acts (thenA m n) s tr r s' \<longleftrightarrow> acts (bindA m (\<lambda>_. n)) s tr r s'"
  by (simp add: thenA_def)

lemma acts_stateA [act_simps]:
  "acts (stateA f) s tr r s' \<longleftrightarrow>
     tr = [] \<and> (case f s of Inl e \<Rightarrow> r = Inl e \<and> s' = s | Inr (x, s1) \<Rightarrow> r = Inr x \<and> s' = s1)"
  by (cases "f s") (auto simp: acts_def stateA_def split: prod.splits)

lemma acts_outcomeA [act_simps]:
  "acts (outcomeA f) s tr r s' \<longleftrightarrow>
     tr = [] \<and> r = (case snd (f s) of None \<Rightarrow> Inr () | Some e \<Rightarrow> Inl e) \<and> s' = fst (f s)"
  by (auto simp: acts_def outcomeA_def)

lemma acts_catchA:
  "acts (catchA m h) s tr r s' \<longleftrightarrow>
     (\<exists>x. r = Inr x \<and> acts m s tr (Inr x) s') \<or>
     (\<exists>e. r = Inl e \<and> \<not> is_exception e \<and> acts m s tr (Inl e) s') \<or>
     (\<exists>e s1 t1 t2. is_exception e \<and> tr = t1 @ t2 \<and> acts m s t1 (Inl e) s1 \<and> acts (h e) s1 t2 r s')"
  (is "?l \<longleftrightarrow> ?r")
proof
  assume ?l
  then obtain t1 t2 y s1 where t: "tr = t1 @ t2" "runs (m s) t1 (y, s1)"
      "runs (case y of Inl e \<Rightarrow> if is_exception e then h e s1 else Ret (Inl e, s1)
         | Inr x \<Rightarrow> Ret (Inr x, s1)) t2 (r, s')"
    by (auto simp: acts_def catchA_def runs_bindT)
  then show ?r by (cases y) (auto simp: acts_def split: if_splits)
next
  assume ?r
  then show ?l
  proof (elim disjE exE conjE)
    fix x assume "r = Inr x" "acts m s tr (Inr x) s'"
    then show ?l unfolding acts_def catchA_def runs_bindT
      by (intro exI [of _ tr] exI [of _ "[]"] exI [of _ "(Inr x, s')"]) simp
  next
    fix e assume "r = Inl e" "\<not> is_exception e" "acts m s tr (Inl e) s'"
    then show ?l unfolding acts_def catchA_def runs_bindT
      by (intro exI [of _ tr] exI [of _ "[]"] exI [of _ "(Inl e, s')"]) simp
  next
    fix e s1 t1 t2 assume "is_exception e" "tr = t1 @ t2" "acts m s t1 (Inl e) s1" "acts (h e) s1 t2 r s'"
    then show ?l unfolding acts_def catchA_def runs_bindT
      by (intro exI [of _ t1] exI [of _ t2] exI [of _ "(Inl e, s1)"]) simp
  qed
qed

lemma acts_zoomA [act_simps]:
  "acts (zoomA part put_back m) t tr r t' \<longleftrightarrow> (\<exists>s'. acts m (part t) tr r s' \<and> t' = put_back s' t)"
proof -
  have "acts (zoomA part put_back m) t tr r t' \<longleftrightarrow>
      (\<exists>t1 t2 y s1. tr = t1 @ t2 \<and> runs (m (part t)) t1 (y, s1) \<and> t2 = [] \<and> (r, t') = (y, put_back s1 t))"
    unfolding acts_def zoomA_def runs_bindT by auto
  then show ?thesis by (auto simp: acts_def)
qed

text \<open>Running the first step of a sequence when that step is deterministic.\<close>

lemma acts_bind_retA [act_simps]: "acts (bindA (retA x) f) s tr r s' \<longleftrightarrow> acts (f x) s tr r s'"
  by (auto simp: acts_bindA act_simps)

lemma acts_bind_throwA [act_simps]:
  "acts (bindA (throwA e) f) s tr r s' \<longleftrightarrow> tr = [] \<and> r = Inl e \<and> s' = s"
  by (auto simp: acts_bindA act_simps)

lemma acts_bind_getA [act_simps]: "acts (bindA getA f) s tr r s' \<longleftrightarrow> acts (f s) s tr r s'"
  by (auto simp: acts_bindA act_simps)

lemma acts_bind_modA [act_simps]: "acts (bindA (modA g) f) s tr r s' \<longleftrightarrow> acts (f ()) (g s) tr r s'"
  by (auto simp: acts_bindA act_simps)

lemma acts_bind_liftA [act_simps]:
  "acts (bindA (liftA g) f) s tr r s' \<longleftrightarrow>
     (case g s of Inl e \<Rightarrow> tr = [] \<and> r = Inl e \<and> s' = s | Inr x \<Rightarrow> acts (f x) s tr r s')"
  by (cases "g s") (auto simp: acts_bindA act_simps)

lemma acts_bind_stateA [act_simps]:
  "acts (bindA (stateA g) f) s tr r s' \<longleftrightarrow>
     (case g s of Inl e \<Rightarrow> tr = [] \<and> r = Inl e \<and> s' = s | Inr (x, s1) \<Rightarrow> acts (f x) s1 tr r s')"
  by (cases "g s") (auto simp: acts_bindA act_simps)

lemma acts_bind_outcomeA [act_simps]:
  "acts (bindA (outcomeA g) f) s tr r s' \<longleftrightarrow>
     (case snd (g s) of Some e \<Rightarrow> tr = [] \<and> r = Inl e \<and> s' = fst (g s)
      | None \<Rightarrow> acts (f ()) (fst (g s)) tr r s')"
  by (cases "snd (g s)") (auto simp: acts_bindA act_simps)

lemma acts_bind_assertA [act_simps]:
  "acts (bindA (assertA b) f) s tr r s' \<longleftrightarrow>
     (if b then acts (f ()) s tr r s' else tr = [] \<and> r = Inl AssertionFailed \<and> s' = s)"
  by (auto simp: acts_bindA act_simps)

lemma acts_bind_callA [act_simps]:
  "acts (bindA (callA q) f) s tr r s' \<longleftrightarrow>
     (\<exists>rep tr'. tr = (q, rep) # tr' \<and> acts (f rep) s tr' r s')"
  by (auto simp: acts_bindA act_simps)

text \<open>The laws of the monad, for use inside the continuation of a call.\<close>

lemma bindA_assoc: "bindA (bindA m g) f = bindA m (\<lambda>x. bindA (g x) f)"
  unfolding bindA_def
proof (rule ext)
  fix s
  show "bindT (bindT (m s) (\<lambda>(r, s'). case r of Inl e \<Rightarrow> Ret (Inl e, s') | Inr x \<Rightarrow> g x s'))
          (\<lambda>(r, s'). case r of Inl e \<Rightarrow> Ret (Inl e, s') | Inr x \<Rightarrow> f x s')
      = bindT (m s) (\<lambda>(r, s'). case r of Inl e \<Rightarrow> Ret (Inl e, s')
          | Inr x \<Rightarrow> bindT (g x s') (\<lambda>(r, s'). case r of Inl e \<Rightarrow> Ret (Inl e, s') | Inr x \<Rightarrow> f x s'))"
    unfolding bindT_assoc by (rule arg_cong [of _ _ "bindT (m s)"]) (auto simp: fun_eq_iff split: sum.splits)
qed

lemma bindA_retA: "bindA (retA x) f = f x"
  by (simp add: bindA_def retA_def)

lemma bindT_unit: "bindT p Ret = p"
  by (induction p) simp_all

lemma case_Ret: "(\<lambda>(r, s'). case r of Inl e \<Rightarrow> Ret (Inl e, s') | Inr x \<Rightarrow> Ret (Inr x, s')) = Ret"
  by (auto simp: fun_eq_iff split: sum.splits)

lemma bindA_unit: "bindA m retA = m"
  unfolding bindA_def retA_def case_Ret bindT_unit ..

lemmas monad_laws = bindA_assoc bindA_retA

lemma acts_bind_bindA [act_simps]:
  "acts (bindA (bindA m g) f) s tr r s' \<longleftrightarrow> acts (bindA m (\<lambda>x. bindA (g x) f)) s tr r s'"
  by (simp add: bindA_assoc)

lemma acts_if [act_simps]:
  "acts (if b then m else n) s tr r s' \<longleftrightarrow> (if b then acts m s tr r s' else acts n s tr r s')"
  by simp

lemma acts_bind_if [act_simps]:
  "acts (bindA (if b then m else n) f) s tr r s' \<longleftrightarrow>
     (if b then acts (bindA m f) s tr r s' else acts (bindA n f) s tr r s')"
  by simp

text \<open>A first step that makes no call and cannot fail.\<close>

lemma acts_bind_sure:
  assumes "acts (bindA m f) s tr r s'"
    and "\<And>t r1 s1. acts m s t r1 s1 \<Longrightarrow> t = [] \<and> (\<exists>x. r1 = Inr x \<and> P x s1)"
  obtains x s1 where "P x s1" and "acts (f x) s1 tr r s'"
  using assms(1) unfolding acts_bindA by (metis assms(2) append_Nil Inl_Inr_False sum.inject(2))

text \<open>A first step that cannot fail.\<close>

lemma acts_bind_returns:
  assumes "acts (bindA m f) s tr r s'"
    and "\<And>t r1 s1. acts m s t r1 s1 \<Longrightarrow> \<exists>x. r1 = Inr x \<and> P t x s1"
  obtains t1 t2 x s1 where "tr = t1 @ t2" and "P t1 x s1" and "acts (f x) s1 t2 r s'"
  using assms(1) unfolding acts_bindA by (metis assms(2) Inl_Inr_False sum.inject(2))

text \<open>The same inside a \<open>try\<close> block, in the runs whose calls are answered as in \<open>G\<close>.\<close>

lemma acts_catch_bind_returns:
  assumes "acts (catchA (bindA m f) h) s tr r s'" and "set tr \<subseteq> G"
    and "\<And>t r1 s1. acts m s t r1 s1 \<Longrightarrow> set t \<subseteq> G \<Longrightarrow> \<exists>x. r1 = Inr x"
  obtains t1 t2 x s1 where "tr = t1 @ t2" and "acts m s t1 (Inr x) s1" and "acts (catchA (f x) h) s1 t2 r s'"
proof -
  have b: "\<exists>t1 t2 x s2. t = t1 @ t2 \<and> acts m s t1 (Inr x) s2 \<and> acts (f x) s2 t2 r1 s1"
    if "acts (bindA m f) s t r1 s1" "set t \<subseteq> G" for t r1 s1
    using that assms(3) unfolding acts_bindA by (metis Inl_Inr_False Un_subset_iff set_append)
  from assms(1) consider (ok) x where "r = Inr x" "acts (bindA m f) s tr (Inr x) s'"
    | (out) e where "r = Inl e" "\<not> is_exception e" "acts (bindA m f) s tr (Inl e) s'"
    | (caught) e s1 t1 t2 where "is_exception e" "tr = t1 @ t2" "acts (bindA m f) s t1 (Inl e) s1" "acts (h e) s1 t2 r s'"
    unfolding acts_catchA by blast
  then show thesis
  proof cases
    case ok
    from b [OF this(2) assms(2)] ok(1) show ?thesis using that unfolding acts_catchA by blast
  next
    case out
    from b [OF this(3) assms(2)] out(1,2) show ?thesis using that unfolding acts_catchA by blast
  next
    case caught
    have "set t1 \<subseteq> G" using assms(2) caught(2) by simp
    from b [OF caught(3) this] obtain u1 u2 x s2 where u: "t1 = u1 @ u2" "acts m s u1 (Inr x) s2" "acts (f x) s2 u2 (Inl e) s1"
      by blast
    then have "acts (catchA (f x) h) s2 (u2 @ t2) r s'" using caught(1,4) unfolding acts_catchA by blast
    then show ?thesis using that u(1,2) caught(2) by simp
  qed
qed

text \<open>What the first step does, whatever comes after it.\<close>

lemma acts_bind_first:
  assumes "acts (bindA m f) s tr r s'"
  obtains t1 t2 r1 s1 where "tr = t1 @ t2" and "acts m s t1 r1 s1"
  using assms unfolding acts_bindA by (metis append_Nil2)

lemma acts_total: "\<exists>tr r s'. acts m s tr r s' \<and> (\<forall>e \<in> set tr. snd e = h (fst e))"
  using runs_total [of "m s" h] by (fastforce simp: acts_def)

lemma acts_det: "acts m s tr r s' \<Longrightarrow> acts m s tr r1 s1 \<Longrightarrow> r1 = r \<and> s1 = s'"
  unfolding acts_def by (drule (1) runs_det) simp

text \<open>A loop whose body keeps an invariant.\<close>

lemma acts_forA_inv:
  assumes "acts (forA is f) s tr r s'" and "P s"
    and "\<And>i s t r s'. i \<in> set is \<Longrightarrow> P s \<Longrightarrow> acts (f i) s t r s' \<Longrightarrow> P s'"
  shows "P s'"
  using assms
proof (induction "is" arbitrary: s tr)
  case Nil
  then show ?case by (simp add: act_simps)
next
  case (Cons i "is")
  from Cons.prems(1) consider (thrown) e where "acts (f i) s tr (Inl e) s'"
    | (later) s1 t1 t2 where "acts (f i) s t1 (Inr ()) s1" "acts (forA is f) s1 t2 r s'"
    by (auto simp: acts_bindA)
  then show ?case
  proof cases
    case thrown
    then show ?thesis using Cons.prems by (meson list.set_intros(1))
  next
    case later
    then have "P s1" using Cons.prems by (meson list.set_intros(1))
    then show ?thesis using Cons.IH [OF later(2)] Cons.prems(3) by (meson list.set_intros(2))
  qed
qed

section \<open>What an act keeps\<close>

text \<open>A predicate on the state that an act keeps on every run, a throwing one included.\<close>

named_theorems keeps_rules \<open>introduction rules for what an act keeps\<close>

definition keeps :: "('s \<Rightarrow> bool) \<Rightarrow> ('q, 'r, 's, 'a) act \<Rightarrow> bool" where
  "keeps P m \<longleftrightarrow> (\<forall>s tr r s'. P s \<longrightarrow> acts m s tr r s' \<longrightarrow> P s')"

lemma keepsD: "keeps P m \<Longrightarrow> acts m s tr r s' \<Longrightarrow> P s \<Longrightarrow> P s'"
  unfolding keeps_def by blast

lemma keeps_bindA [keeps_rules]: "keeps P m \<Longrightarrow> (\<And>x. keeps P (f x)) \<Longrightarrow> keeps P (bindA m f)"
  unfolding keeps_def acts_bindA by metis

lemma keeps_getA_bind [keeps_rules]: "(\<And>s. keeps P (f s)) \<Longrightarrow> keeps P (bindA getA f)"
  unfolding keeps_def by (simp add: act_simps)

lemma keeps_simple [keeps_rules]:
  "keeps P (retA x)" "keeps P (throwA e)" "keeps P (callA q)" "keeps P getA" "keeps P (liftA g)"
  "keeps P (assertA b)"
  by (auto simp: keeps_def act_simps)

lemma keeps_modA [keeps_rules]: "(\<And>s. P s \<Longrightarrow> P (f s)) \<Longrightarrow> keeps P (modA f)"
  by (simp add: keeps_def act_simps)

lemma keeps_stateA [keeps_rules]: "(\<And>s x s'. P s \<Longrightarrow> f s = Inr (x, s') \<Longrightarrow> P s') \<Longrightarrow> keeps P (stateA f)"
  by (fastforce simp: keeps_def act_simps split: sum.splits prod.splits)

lemma keeps_if [keeps_rules]: "(b \<Longrightarrow> keeps P m) \<Longrightarrow> (\<not> b \<Longrightarrow> keeps P n) \<Longrightarrow> keeps P (if b then m else n)"
  by simp

lemma keeps_catchA [keeps_rules]: "keeps P m \<Longrightarrow> (\<And>e. keeps P (h e)) \<Longrightarrow> keeps P (catchA m h)"
  unfolding keeps_def acts_catchA by metis

lemma keeps_forA [keeps_rules]: "(\<And>i. keeps P (f i)) \<Longrightarrow> keeps P (forA is f)"
  by (induction "is") (auto intro: keeps_rules)

section \<open>The calls an act makes\<close>

named_theorems calls_rules \<open>introduction rules for the calls an act makes\<close>

definition calls :: "('q \<Rightarrow> bool) \<Rightarrow> ('q, 'r, 's, 'a) act \<Rightarrow> bool" where
  "calls P m \<longleftrightarrow> (\<forall>s tr r s'. acts m s tr r s' \<longrightarrow> (\<forall>e \<in> set tr. P (fst e)))"

lemma callsD: "calls P m \<Longrightarrow> acts m s tr r s' \<Longrightarrow> e \<in> set tr \<Longrightarrow> P (fst e)"
  unfolding calls_def by blast

lemma calls_bindA [calls_rules]: "calls P m \<Longrightarrow> (\<And>x. calls P (f x)) \<Longrightarrow> calls P (bindA m f)"
  unfolding calls_def acts_bindA by (metis Un_iff set_append)

lemma calls_simple [calls_rules]:
  "calls P (retA x)" "calls P (throwA e)" "calls P getA" "calls P (liftA g)" "calls P (assertA b)"
  "calls P (modA h)" "calls P (stateA k)" "calls P (outcomeA l)"
  by (auto simp: calls_def act_simps)

lemma calls_callA [calls_rules]: "P q \<Longrightarrow> calls P (callA q)"
  by (auto simp: calls_def act_simps)

lemma calls_if [calls_rules]: "(b \<Longrightarrow> calls P m) \<Longrightarrow> (\<not> b \<Longrightarrow> calls P n) \<Longrightarrow> calls P (if b then m else n)"
  by simp

lemma calls_catchA [calls_rules]: "calls P m \<Longrightarrow> (\<And>e. calls P (h e)) \<Longrightarrow> calls P (catchA m h)"
  unfolding calls_def acts_catchA by (metis Un_iff set_append)

lemma calls_zoomA [calls_rules]: "calls P m \<Longrightarrow> calls P (zoomA part put_back m)"
  unfolding calls_def acts_zoomA by blast

lemma calls_forA [calls_rules]: "(\<And>i. calls P (f i)) \<Longrightarrow> calls P (forA is f)"
  by (induction "is") (auto intro: calls_rules)

section \<open>Faults an act can end with\<close>

named_theorems faults_rules \<open>rules for the faults of an act\<close>

definition faults :: "(fault \<Rightarrow> bool) \<Rightarrow> ('q, 'r, 's, 'a) act \<Rightarrow> bool" where
  "faults P m \<longleftrightarrow> (\<forall>s tr e s'. acts m s tr (Inl e) s' \<longrightarrow> P e)"

lemma faults_bindA [faults_rules]: "faults P m \<Longrightarrow> (\<And>x. faults P (f x)) \<Longrightarrow> faults P (bindA m f)"
  unfolding faults_def acts_bindA by blast

lemma faults_first:
  assumes "faults P m" and "\<not> P e" and "acts (bindA m f) s tr (Inl e) s'"
  obtains x s1 t1 t2 where "tr = t1 @ t2" and "acts m s t1 (Inr x) s1" and "acts (f x) s1 t2 (Inl e) s'"
proof -
  have "\<not> acts m s tr (Inl e) s'" using assms(1,2) unfolding faults_def by blast
  then show ?thesis using assms(3) that unfolding acts_bindA by auto
qed

lemma faults_if [faults_rules]: "(b \<Longrightarrow> faults P m) \<Longrightarrow> (\<not> b \<Longrightarrow> faults P n) \<Longrightarrow> faults P (if b then m else n)"
  by simp

lemma faults_simple [faults_rules]:
  "faults P (retA x)" "faults P getA" "faults P (modA g)" "faults P (callA q)"
  "P AssertionFailed \<Longrightarrow> faults P (assertA b)" "P e \<Longrightarrow> faults P (throwA e)" "(\<And>s e. f s = Inl e \<Longrightarrow> P e) \<Longrightarrow> faults P (liftA f)"
  by (auto simp: faults_def act_simps split: if_splits)

lemma faults_stateA [faults_rules]: "(\<And>s e. f s = Inl e \<Longrightarrow> P e) \<Longrightarrow> faults P (stateA f)"
  unfolding faults_def acts_stateA by (auto split: sum.splits) (metis sum.exhaust surj_pair)

lemma faults_case [faults_rules]: "(\<And>a b. faults P (f a b)) \<Longrightarrow> faults P (case x of (a, b) \<Rightarrow> f a b)"
  by (cases x) simp

lemma faults_forA [faults_rules]: "(\<And>i. faults P (f i)) \<Longrightarrow> faults P (forA is f)"
  by (induction "is") (auto intro!: faults_rules)

end
