(* ===== verification/External.thy ===== *)
theory External imports Interaction begin

text \<open>
  The calls that the engine makes to the Infiniband verbs (\<open>ibv_*\<close>), to the tasking runtime
  (\<open>alpi_*\<close>), to its communicator (\<open>Communication\<close>), to the allocator (\<open>AllocVectors\<close>), to
  the dynamic linker (\<open>dl*\<close>) and to MPI for new communicators (\<open>Comm*\<close>), and the answers it uses of them.  Nothing
  is said about what a call does: an answer is whatever the other side returned, and a
  statement about a run has the documented behaviour it needs as a hypothesis on the trace.
  The documented behaviour of the collective calls is \<open>collectives_ok\<close>: where every process takes
  part with the same kind of call, the answers are the ones the documentation in
  \<open>src/MPI/communication.hpp\<close> promises.
\<close>

section \<open>Data of the interfaces\<close>

text \<open>A task handle, an address, a key or a queue pair number is a number.\<close>

type_synonym task = nat
type_synonym addr = nat

record ibv_mr =
  mr_lkey :: nat
  mr_rkey :: nat

datatype wr_opcode =
  RDMA_WRITE | RDMA_WRITE_WITH_IMM | RDMA_READ | ATOMIC_FETCH_AND_ADD | ATOMIC_CMP_AND_SWP

record sge =
  sge_addr :: addr
  sge_length :: nat
  sge_lkey :: nat

text \<open>
  A send work request, with the gather entry its \<open>sg_list\<close> points to and the fields the code
  sets; the link \<open>next\<close> is the place in the list that is posted.
\<close>

record send_wr =
  wr_id :: nat
  opcode :: wr_opcode
  signaled :: bool
  num_sge :: nat
  wr_sge :: sge
  imm_data :: "32 word"
  remote_addr :: addr
  rkey :: nat
  compare_add :: nat
  swap_value :: nat

record wc =
  wc_success :: bool
  wc_wr_id :: nat
  wc_imm_data :: "32 word"

datatype qp_state = QPS_RESET | QPS_INIT | QPS_RTR | QPS_RTS

record qp_attr =
  qp_state :: qp_state
  dest_qp_num :: nat
  dlid :: nat
  dgid :: "nat list"
  is_global :: bool

record mem_registration =
  reg_addr :: addr
  reg_size :: nat
  reg_lkey :: nat
  reg_rkey :: nat

text \<open>What the engine passes to \<open>allgather\<close>.\<close>

datatype item = LidItem nat | GidItem "nat list" | RegItem mem_registration

section \<open>Calls and answers\<close>

datatype request = SyncRequestHandle | BlockRequestHandle

datatype call =
    TaskSelf | EventsIncrease task nat | EventsDecrease task nat
  | TaskBlock task | TaskUnblock task | WaitforNs nat
  | TaskSpawn
  | GetDeviceList | OpenDevice nat | QueryDevice | QueryPort int
  | AllocPd | CreateCqLocal nat | CreateCqRemote nat | CreateSrq
  | ResizeCqLocal nat | ResizeCqRemote nat
  | CreateQp nat | QueryGid int | ModifyQp nat qp_attr
  | PostSend nat "send_wr list" | PostSrqRecv
  | PollCqLocal nat | PollCqRemote nat
  | RegMr addr nat | RegDummy nat
  | AllocVectors nat
  | Barrier | Ibarrier request | TestRequest request | GetRequest request | FreeRequest request
  | IallreduceSum "int list" request
  | AllreduceSum int | AllreduceOr bool | AllreduceAnd bool | AllreduceMax nat
  | Allgather item | AllToAll "nat list"
  | Broadcast nat "nat list"
  | DlAddr addr | DlOpen "nat list" | DlSym "nat option" "nat list"
  | CommSplit int int | CommDup

datatype reply =
    Done
  | Err int
  | Flag bool
  | Num int
  | Name string
  | Names "string list option"
  | Handle "nat option"
  | Mr "ibv_mr option"
  | Poll "wc list option"
  | Nums "nat list"
  | Items "item list"
  | DeviceAttr "(nat \<times> int \<times> int \<times> int) option"
  | PortAttr "(nat \<times> nat) option"
  | Gid "nat list option"
  | SymbolInfo "(nat list \<times> nat list) option"
  | Group nat nat nat

text \<open>Reading an answer.\<close>

definition the_flag :: "reply \<Rightarrow> bool" where
  "the_flag r = (case r of Flag b \<Rightarrow> b | _ \<Rightarrow> False)"

definition the_num :: "reply \<Rightarrow> int" where
  "the_num r = (case r of Num i \<Rightarrow> i | _ \<Rightarrow> 0)"

definition the_err :: "reply \<Rightarrow> int" where
  "the_err r = (case r of Err i \<Rightarrow> i | _ \<Rightarrow> 0)"

definition the_handle :: "reply \<Rightarrow> nat option" where
  "the_handle r = (case r of Handle h \<Rightarrow> h | _ \<Rightarrow> None)"

definition the_task :: "reply \<Rightarrow> task" where
  "the_task r = (case r of Handle (Some h) \<Rightarrow> h | _ \<Rightarrow> 0)"

definition the_mr :: "reply \<Rightarrow> ibv_mr option" where
  "the_mr r = (case r of Mr m \<Rightarrow> m | _ \<Rightarrow> None)"

definition the_poll :: "reply \<Rightarrow> wc list option" where
  "the_poll r = (case r of Poll p \<Rightarrow> p | _ \<Rightarrow> None)"

definition the_nums :: "reply \<Rightarrow> nat list" where
  "the_nums r = (case r of Nums ns \<Rightarrow> ns | _ \<Rightarrow> [])"

definition the_items :: "reply \<Rightarrow> item list" where
  "the_items r = (case r of Items xs \<Rightarrow> xs | _ \<Rightarrow> [])"

definition the_name :: "reply \<Rightarrow> string" where
  "the_name r = (case r of Name s \<Rightarrow> s | _ \<Rightarrow> [])"

definition the_names :: "reply \<Rightarrow> string list option" where
  "the_names r = (case r of Names s \<Rightarrow> s | _ \<Rightarrow> None)"

definition the_device_attr :: "reply \<Rightarrow> (nat \<times> int \<times> int \<times> int) option" where
  "the_device_attr r = (case r of DeviceAttr a \<Rightarrow> a | _ \<Rightarrow> None)"

definition the_port_attr :: "reply \<Rightarrow> (nat \<times> nat) option" where
  "the_port_attr r = (case r of PortAttr a \<Rightarrow> a | _ \<Rightarrow> None)"

definition the_gid :: "reply \<Rightarrow> nat list option" where
  "the_gid r = (case r of Gid g \<Rightarrow> g | _ \<Rightarrow> None)"

definition the_symbol_info :: "reply \<Rightarrow> (nat list \<times> nat list) option" where
  "the_symbol_info r = (case r of SymbolInfo i \<Rightarrow> i | _ \<Rightarrow> None)"

lemmas reply_defs = the_flag_def the_num_def the_err_def the_handle_def the_task_def the_mr_def
  the_poll_def the_nums_def the_items_def the_name_def the_names_def the_device_attr_def
  the_port_attr_def the_gid_def the_symbol_info_def

lemma reply_simps [simp]:
  "the_flag (Flag b) = b" "the_num (Num i) = i" "the_err (Err e) = e" "the_err Done = 0"
  "the_handle (Handle h) = h" "the_task (Handle (Some t)) = t" "the_mr (Mr m) = m"
  "the_poll (Poll p) = p" "the_nums (Nums ns) = ns" "the_items (Items xs) = xs"
  "the_name (Name s) = s" "the_names (Names l) = l" "the_device_attr (DeviceAttr a) = a"
  "the_port_attr (PortAttr pa) = pa" "the_gid (Gid g) = g" "the_symbol_info (SymbolInfo si) = si"
  by (simp_all add: reply_defs)

type_synonym event = "call \<times> reply"
type_synonym ('s, 'a) ext = "(call, reply, 's, 'a) act"

section \<open>Collective calls\<close>

datatype coll_kind = KBarrier | KSum | KOr | KAnd | KMax | KGather | KAllToAll | KBroadcast | KSplit | KDup

fun kind_of :: "call \<Rightarrow> coll_kind option" where
  "kind_of Barrier = Some KBarrier"
| "kind_of (AllreduceSum _) = Some KSum"
| "kind_of (AllreduceOr _) = Some KOr"
| "kind_of (AllreduceAnd _) = Some KAnd"
| "kind_of (AllreduceMax _) = Some KMax"
| "kind_of (Allgather _) = Some KGather"
| "kind_of (AllToAll _) = Some KAllToAll"
| "kind_of (Broadcast _ _) = Some KBroadcast"
| "kind_of (CommSplit _ _) = Some KSplit"
| "kind_of CommDup = Some KDup"
| "kind_of _ = None"

definition collectives :: "event list \<Rightarrow> event list" where
  "collectives tr = filter (\<lambda>e. kind_of (fst e) \<noteq> None) tr"

lemma collectives_simps [simp]:
  "collectives [] = []"
  "collectives (e # tr) = (if kind_of (fst e) = None then collectives tr else e # collectives tr)"
  "collectives (t1 @ t2) = collectives t1 @ collectives t2"
  by (simp_all add: collectives_def)

definition coll_kinds :: "event list \<Rightarrow> coll_kind list" where
  "coll_kinds tr = List.map_filter (\<lambda>e. kind_of (fst e)) tr"

lemma coll_kinds_simps [simp]:
  "coll_kinds [] = []"
  "coll_kinds (e # tr) = (case kind_of (fst e) of None \<Rightarrow> coll_kinds tr | Some k \<Rightarrow> k # coll_kinds tr)"
  "coll_kinds (t1 @ t2) = coll_kinds t1 @ coll_kinds t2"
  by (simp_all add: coll_kinds_def List.map_filter_def split: option.splits)

text \<open>
  The documented answers of one round of a collective: the list has, for every process in order,
  its call and its answer.
\<close>

definition or_args :: "event list \<Rightarrow> bool" where
  "or_args es = list_ex (\<lambda>e. case fst e of AllreduceOr b \<Rightarrow> b | _ \<Rightarrow> False) es"

definition and_args :: "event list \<Rightarrow> bool" where
  "and_args es = list_all (\<lambda>e. case fst e of AllreduceAnd b \<Rightarrow> b | _ \<Rightarrow> False) es"

definition sum_args :: "event list \<Rightarrow> int" where
  "sum_args es = sum_list (List.map (\<lambda>e. case fst e of AllreduceSum i \<Rightarrow> i | _ \<Rightarrow> 0) es)"

definition max_args :: "event list \<Rightarrow> nat" where
  "max_args es = foldr max (List.map (\<lambda>e. case fst e of AllreduceMax i \<Rightarrow> i | _ \<Rightarrow> 0) es) 0"

definition gather_args :: "event list \<Rightarrow> item list" where
  "gather_args es = List.map (\<lambda>e. case fst e of Allgather x \<Rightarrow> x | _ \<Rightarrow> LidItem 0) es"

definition column_args :: "nat \<Rightarrow> event list \<Rightarrow> nat list" where
  "column_args i es = List.map (\<lambda>e. case fst e of AllToAll xs \<Rightarrow> xs ! i | _ \<Rightarrow> 0) es"

definition root_args :: "nat \<Rightarrow> event list \<Rightarrow> nat list" where
  "root_args root es = (case fst (es ! root) of Broadcast _ xs \<Rightarrow> xs | _ \<Rightarrow> [])"

text \<open>A broadcast is made with the same root and a buffer of the same size everywhere.\<close>

definition same_broadcast :: "nat \<Rightarrow> nat \<Rightarrow> event list \<Rightarrow> bool" where
  "same_broadcast root n es \<longleftrightarrow>
     root < length es \<and> list_all (\<lambda>e. case fst e of Broadcast r xs \<Rightarrow> r = root \<and> length xs = n | _ \<Rightarrow> False) es"

definition round_ok :: "event list \<Rightarrow> bool" where
  "round_ok es \<longleftrightarrow>
     (\<forall>i \<in> {..<length es}. case fst (es ! i) of
        AllreduceOr _ \<Rightarrow> snd (es ! i) = Flag (or_args es)
      | AllreduceAnd _ \<Rightarrow> snd (es ! i) = Flag (and_args es)
      | AllreduceSum _ \<Rightarrow> snd (es ! i) = Num (sum_args es)
      | AllreduceMax _ \<Rightarrow> snd (es ! i) = Num (int (max_args es))
      | Allgather _ \<Rightarrow> snd (es ! i) = Items (gather_args es)
      | AllToAll _ \<Rightarrow> snd (es ! i) = Nums (column_args i es)
      | Broadcast root xs \<Rightarrow> same_broadcast root (length xs) es \<longrightarrow> snd (es ! i) = Nums (root_args root es)
      | _ \<Rightarrow> True)"

text \<open>
  \<open>trs ! i\<close> is the trace of process \<open>i\<close>.  A round is matched when every process takes part in it
  with the same kind of call; the library promises nothing about the others.  The traces
  are matched when all processes make the same sequence of kinds of calls: otherwise one of
  them waits for ever, or takes part in a call with the data of another.
\<close>

definition round_matched :: "event list list \<Rightarrow> nat \<Rightarrow> bool" where
  "round_matched trs k \<longleftrightarrow>
     (\<forall>tr \<in> set trs. k < length (collectives tr) \<and>
        kind_of (fst (collectives tr ! k)) = kind_of (fst (collectives (hd trs) ! k)))"

definition collectives_ok :: "event list list \<Rightarrow> bool" where
  "collectives_ok trs \<longleftrightarrow>
     (\<forall>k \<in> {..<length (collectives (hd trs))}.
        round_matched trs k \<longrightarrow> round_ok (List.map (\<lambda>tr. collectives tr ! k) trs))"

definition matched :: "event list list \<Rightarrow> bool" where
  "matched trs \<longleftrightarrow> (\<forall>tr \<in> set trs. coll_kinds tr = coll_kinds (hd trs))"

lemma round_matchedI:
  assumes "\<And>j. j < length trs \<Longrightarrow> k < length (collectives (trs ! j))"
    and "\<And>j. j < length trs \<Longrightarrow> kind_of (fst (collectives (trs ! j) ! k)) = Some c"
  shows "round_matched trs k"
proof (cases trs)
  case Nil
  then show ?thesis by (simp add: round_matched_def)
next
  case (Cons t ts)
  have "kind_of (fst (collectives (hd trs) ! k)) = Some c" using assms(2) [of 0] Cons by simp
  then show ?thesis using assms by (auto simp: round_matched_def in_set_conv_nth)
qed

lemma matchedI: "(\<And>j. j < length trs \<Longrightarrow> coll_kinds (trs ! j) = ks) \<Longrightarrow> matched trs"
proof -
  assume k: "\<And>j. j < length trs \<Longrightarrow> coll_kinds (trs ! j) = ks"
  have "coll_kinds tr = ks" if "tr \<in> set trs" for tr
    using that k by (metis in_set_conv_nth)
  moreover have "trs \<noteq> [] \<Longrightarrow> hd trs \<in> set trs" by simp
  ultimately show ?thesis unfolding matched_def by (metis empty_iff empty_set)
qed

lemma collectives_round:
  assumes "collectives_ok trs" and "i < length trs" and "round_matched trs k"
  shows "round_ok (List.map (\<lambda>tr. collectives tr ! k) trs)"
proof -
  have "hd trs \<in> set trs" using assms(2) by (cases trs) auto
  then have "k < length (collectives (hd trs))" using assms(3) by (simp add: round_matched_def)
  then show ?thesis using assms(1,3) by (simp add: collectives_ok_def)
qed

lemma case_or_iff: "(case c of AllreduceOr b \<Rightarrow> b | _ \<Rightarrow> False) \<longleftrightarrow> c = AllreduceOr True"
  by (cases c) auto

lemma or_args_iff: "or_args es \<longleftrightarrow> (\<exists>e \<in> set es. fst e = AllreduceOr True)"
  by (simp add: or_args_def list_ex_iff case_or_iff)

text \<open>The answer that process \<open>i\<close> gets in its \<open>k\<close>-th collective call.\<close>

lemma round_or:
  assumes "collectives_ok trs" and "i < length trs" and "round_matched trs k"
    and "collectives (trs ! i) ! k = (AllreduceOr b, r)"
  shows "r = Flag (\<exists>j<length trs. fst (collectives (trs ! j) ! k) = AllreduceOr True)"
proof -
  let ?es = "List.map (\<lambda>tr. collectives tr ! k) trs"
  have "r = Flag (or_args ?es)"
    using collectives_round [OF assms(1-3)] assms(2,4) by (force simp: round_ok_def)
  moreover have "or_args ?es = (\<exists>j<length trs. fst (collectives (trs ! j) ! k) = AllreduceOr True)"
    by (simp add: or_args_iff) (metis in_set_conv_nth)
  ultimately show ?thesis by simp
qed

lemma round_sum:
  assumes "collectives_ok trs" and "i < length trs" and "round_matched trs k"
    and "collectives (trs ! i) ! k = (AllreduceSum x, r)"
  shows "r = Num (\<Sum>j<length trs. case fst (collectives (trs ! j) ! k) of AllreduceSum y \<Rightarrow> y | _ \<Rightarrow> 0)"
proof -
  have "r = Num (sum_args (List.map (\<lambda>tr. collectives tr ! k) trs))"
    using collectives_round [OF assms(1-3)] assms(2,4) by (force simp: round_ok_def)
  then show ?thesis by (simp add: sum_args_def sum_list_sum_nth lessThan_atLeast0)
qed

lemma round_max:
  assumes "collectives_ok trs" and "i < length trs" and "round_matched trs k"
    and "collectives (trs ! i) ! k = (AllreduceMax x, r)"
  shows "r = Num (int (foldr max (List.map (\<lambda>tr. case fst (collectives tr ! k) of AllreduceMax y \<Rightarrow> y | _ \<Rightarrow> 0) trs) 0))"
proof -
  have "r = Num (int (max_args (List.map (\<lambda>tr. collectives tr ! k) trs)))"
    using collectives_round [OF assms(1-3)] assms(2,4) by (force simp: round_ok_def)
  then show ?thesis by (simp add: max_args_def o_def)
qed

lemma round_gather:
  assumes "collectives_ok trs" and "i < length trs" and "round_matched trs k"
    and "collectives (trs ! i) ! k = (Allgather x, r)"
  shows "r = Items (List.map (\<lambda>tr. case fst (collectives tr ! k) of Allgather y \<Rightarrow> y | _ \<Rightarrow> LidItem 0) trs)"
proof -
  have "r = Items (gather_args (List.map (\<lambda>tr. collectives tr ! k) trs))"
    using collectives_round [OF assms(1-3)] assms(2,4) by (force simp: round_ok_def)
  then show ?thesis by (simp add: gather_args_def o_def)
qed

lemma round_allToAll:
  assumes "collectives_ok trs" and "i < length trs" and "round_matched trs k"
    and "collectives (trs ! i) ! k = (AllToAll xs, r)"
  shows "r = Nums (List.map (\<lambda>tr. case fst (collectives tr ! k) of AllToAll ys \<Rightarrow> ys ! i | _ \<Rightarrow> 0) trs)"
proof -
  have "r = Nums (column_args i (List.map (\<lambda>tr. collectives tr ! k) trs))"
    using collectives_round [OF assms(1-3)] assms(2,4) by (force simp: round_ok_def)
  then show ?thesis by (simp add: column_args_def o_def)
qed

lemma round_broadcast:
  assumes "collectives_ok trs" and "root < length trs" and "round_matched trs k"
    and "\<And>j. j < length trs \<Longrightarrow> \<exists>xs. fst (collectives (trs ! j) ! k) = Broadcast root xs \<and> length xs = n"
    and "fst (collectives (trs ! root) ! k) = Broadcast root ys" and "i < length trs"
  shows "snd (collectives (trs ! i) ! k) = Nums ys"
proof -
  let ?es = "List.map (\<lambda>tr. collectives tr ! k) trs"
  have "same_broadcast root n ?es"
    using assms(2,4) by (fastforce simp: same_broadcast_def list_all_length)
  moreover have "root_args root ?es = ys" using assms(2,5) by (simp add: root_args_def)
  moreover obtain xs where "fst (collectives (trs ! i) ! k) = Broadcast root xs" "length xs = n" using assms(4,6) by blast
  ultimately show ?thesis
    using collectives_round [OF assms(1,2,3)] assms(6) by (force simp: round_ok_def)
qed

end
