(* ===== verification/Memreg.thy ===== *)
theory Memreg imports Prelude begin

text \<open>
  The slot allocators of \<open>src/common/memreg.hpp\<close>: \<open>MemoryRegister<Record>\<close>, which hands out
  slot numbers from a stack of recycled slots, and \<open>CombinedMemoryRegister<Record>\<close>, which
  interleaves a local and a global register by parity.  \<open>m_free_capacity\<close> is the capacity of
  the vector \<open>m_free\<close>, which the assertions of the code read.  The allocator is a parameter:
  \<open>ok k\<close> says whether the \<open>k\<close>-th allocation of a call succeeds.

  The interface the clients rely on is the locale \<open>slot_register\<close>; both classes
  interpret it.
\<close>

section \<open>MemoryRegister\<close>

type_synonym slot = nat

record 'r memreg =
  m_slots :: "'r list"
  m_free :: "slot list"
  m_free_capacity :: nat
  m_minNewSlotNr :: slot

definition invalidSlot :: slot where
  "invalidSlot = SIZE_MAX"

text \<open>\<open>vector<size_t>::max_size()\<close> and an upper bound of \<open>vector<Record>::max_size()\<close>.\<close>

definition free_max_size :: nat where
  "free_max_size = 1152921504606846975"

definition memreg_empty :: "'r memreg" where
  "memreg_empty = \<lparr>m_slots = [], m_free = [], m_free_capacity = 0, m_minNewSlotNr = 0\<rparr>"

text \<open>The copy constructor copies the three fields and reserves the capacity of the original.\<close>

definition memreg_copy :: "'r memreg \<Rightarrow> 'r memreg" where
  "memreg_copy r =
     \<lparr>m_slots = m_slots r, m_free = m_free r,
      m_free_capacity = max (length (m_free r)) (m_free_capacity r),
      m_minNewSlotNr = m_minNewSlotNr r\<rparr>"

definition memreg_swap :: "'r memreg \<Rightarrow> 'r memreg \<Rightarrow> 'r memreg \<times> 'r memreg" where
  "memreg_swap this oth =
     (\<lparr>m_slots = m_slots oth, m_free = m_free oth,
       m_free_capacity = m_free_capacity oth, m_minNewSlotNr = m_minNewSlotNr oth\<rparr>,
      \<lparr>m_slots = m_slots this, m_free = m_free this,
       m_free_capacity = m_free_capacity this, m_minNewSlotNr = m_minNewSlotNr this\<rparr>)"

text \<open>\<open>operator=\<close>: copy, then swap with the copy.\<close>

definition memreg_assign :: "'r memreg \<Rightarrow> 'r memreg \<Rightarrow> 'r memreg" where
  "memreg_assign this oth = fst (memreg_swap this (memreg_copy oth))"

definition memreg_destroy :: "'r memreg \<Rightarrow> 'r memreg" where
  "memreg_destroy r = r\<lparr>m_slots := [], m_free := [], m_minNewSlotNr := 0\<rparr>"

definition memreg_add :: "'r memreg \<Rightarrow> 'r \<Rightarrow> fault + slot \<times> 'r memreg" where
  "memreg_add r record =
     bindE
       (if m_free r = []
        then Inr (m_minNewSlotNr r, r\<lparr>m_minNewSlotNr := add64 (m_minNewSlotNr r) 1\<rparr>)
        else bindE (ASSERT (length (m_free r) \<le> m_free_capacity r)) (\<lambda>_.
             let slot = last (m_free r); free' = butlast (m_free r) in
             bindE (ASSERT (length free' < m_free_capacity r)) (\<lambda>_.
             Inr (slot, r\<lparr>m_free := free'\<rparr>))))
       (\<lambda>(slot, r').
         bindE (ASSERT (slot < length (m_slots r'))) (\<lambda>_.
         Inr (slot, r'\<lparr>m_slots := (m_slots r')[slot := record]\<rparr>)))"

definition memreg_remove :: "'r memreg \<Rightarrow> slot \<Rightarrow> fault + 'r memreg" where
  "memreg_remove r slot =
     bindE (ASSERT (slot < length (m_slots r))) (\<lambda>_.
     bindE (ASSERT (length (m_free r) < m_free_capacity r)) (\<lambda>_.
     let r' = (if slot = sub64 (m_minNewSlotNr r) 1
               then r\<lparr>m_minNewSlotNr := sub64 (m_minNewSlotNr r) 1\<rparr>
               else r\<lparr>m_free := m_free r @ [slot]\<rparr>) in
     bindE (ASSERT (length (m_free r') \<le> m_free_capacity r')) (\<lambda>_. Inr r')))"

definition memreg_lookup :: "'r memreg \<Rightarrow> slot \<Rightarrow> fault + 'r" where
  "memreg_lookup r slot =
     bindE (ASSERT (slot < length (m_slots r))) (\<lambda>_. vec_at (m_slots r) slot)"

text \<open>\<open>update(slot)\<close> returns a reference; the model takes the function the caller applies to it.\<close>

definition memreg_update :: "'r memreg \<Rightarrow> slot \<Rightarrow> ('r \<Rightarrow> 'r) \<Rightarrow> fault + 'r memreg" where
  "memreg_update r slot f =
     bindE (ASSERT (slot < length (m_slots r))) (\<lambda>_.
     Inr (r\<lparr>m_slots := (m_slots r)[slot := f (m_slots r ! slot)]\<rparr>))"

definition memreg_capacity :: "'r memreg \<Rightarrow> nat" where
  "memreg_capacity r = length (m_slots r)"

text \<open>
  \<open>reserve\<close>.  A growing call reserves the free list and then resizes the slots; each may
  throw.  A shrinking call truncates and then tries to replace both vectors by
  fresh copies, swallowing an allocation failure.  The result is the state the
  object is left in and the exception, if any.  \<open>mx\<close> is \<open>m_slots.max_size()\<close> and \<open>dflt0\<close> the
  default constructed record, which \<open>resize(n)\<close> would append.
\<close>

definition memreg_reserve ::
  "(nat \<Rightarrow> bool) \<Rightarrow> nat \<Rightarrow> 'r \<Rightarrow> 'r memreg \<Rightarrow> nat \<Rightarrow> 'r \<Rightarrow> 'r memreg \<times> fault option" where
  "memreg_reserve ok mx dflt0 r newSize defaultRecord =
     (if length (m_slots r) < newSize then
        if newSize > free_max_size \<or> newSize > mx then (r, Some BadAlloc)
        else if \<not> ok 0 then (r, Some BadAlloc)
        else let r1 = r\<lparr>m_free_capacity := max (m_free_capacity r) newSize\<rparr> in
             if \<not> ok 1 then (r1, Some BadAlloc)
             else (r1\<lparr>m_slots := vec_resize newSize defaultRecord (m_slots r1)\<rparr>, None)
      else
        let newSize' = max newSize (m_minNewSlotNr r);
            r1 = r\<lparr>m_slots := vec_resize newSize' dflt0 (m_slots r)\<rparr>;
            r2 = (if ok 0 then r1\<lparr>m_slots := m_slots r1\<rparr> else r1);
            r3 = (if ok 1
                  then r2\<lparr>m_free := m_free r2, m_free_capacity := max (length (m_free r2)) newSize'\<rparr>
                  else r2)
        in (r3, None))"

subsection \<open>Invariant\<close>

text \<open>The slots that are dealt out.\<close>

definition memreg_live :: "'r memreg \<Rightarrow> slot set" where
  "memreg_live r = {..<m_minNewSlotNr r} - set (m_free r)"

definition memreg_inv :: "'r memreg \<Rightarrow> bool" where
  "memreg_inv r \<longleftrightarrow>
     m_minNewSlotNr r \<le> length (m_slots r) \<and>
     length (m_slots r) \<le> m_free_capacity r \<and>
     length (m_slots r) \<le> free_max_size \<and>
     distinct (m_free r) \<and>
     set (m_free r) \<subseteq> {..<m_minNewSlotNr r}"

definition memreg_room :: "'r memreg \<Rightarrow> bool" where
  "memreg_room r \<longleftrightarrow> card (memreg_live r) < memreg_capacity r"

lemma memreg_inv_empty: "memreg_inv memreg_empty"
  by (simp add: memreg_inv_def memreg_empty_def)

lemma memreg_inv_copy: "memreg_inv r \<Longrightarrow> memreg_inv (memreg_copy r)"
  by (auto simp: memreg_inv_def memreg_copy_def)

lemma memreg_inv_destroy: "memreg_inv r \<Longrightarrow> memreg_inv (memreg_destroy r)"
  by (simp add: memreg_inv_def memreg_destroy_def)

lemma memreg_assign_eq: "memreg_inv r \<Longrightarrow> memreg_assign this r = memreg_copy r"
  by (simp add: memreg_assign_def memreg_swap_def memreg_copy_def)

lemma memreg_bounds:
  assumes "memreg_inv r"
  shows "m_minNewSlotNr r \<le> free_max_size" "length (m_free r) \<le> m_minNewSlotNr r"
    "length (m_slots r) < SIZE_MAX" "m_minNewSlotNr r < SIZE_MAX"
  using assms distinct_set_less_length [of "m_free r" "m_minNewSlotNr r"]
  by (auto simp: memreg_inv_def free_max_size_def SIZE_MAX_def)

lemma memreg_live_less: "memreg_inv r \<Longrightarrow> s \<in> memreg_live r \<Longrightarrow> s < length (m_slots r)"
  by (auto simp: memreg_inv_def memreg_live_def)

lemma memreg_live_finite [simp]: "finite (memreg_live r)"
  by (simp add: memreg_live_def)

lemma memreg_live_empty [simp]: "memreg_live memreg_empty = {}"
  by (simp add: memreg_live_def memreg_empty_def)

lemma memreg_card_live: "memreg_inv r \<Longrightarrow> card (memreg_live r) = m_minNewSlotNr r - length (m_free r)"
  by (simp add: memreg_live_def memreg_inv_def card_Diff_subset distinct_card)

subsection \<open>The operations under the invariant\<close>

text \<open>The slot that \<open>add\<close> picks depends on the free list and the counter alone.\<close>

definition memreg_next :: "'r memreg \<Rightarrow> slot" where
  "memreg_next r = (if m_free r = [] then m_minNewSlotNr r else last (m_free r))"

lemma memreg_next_less:
  assumes inv: "memreg_inv r" and room: "memreg_room r"
  shows "memreg_next r < length (m_slots r)"
proof (cases "m_free r = []")
  case True
  then show ?thesis using room inv
    by (simp add: memreg_room_def memreg_card_live memreg_capacity_def memreg_next_def)
next
  case False
  have "m_minNewSlotNr r \<le> length (m_slots r)" "set (m_free r) \<subseteq> {..<m_minNewSlotNr r}"
    using inv by (auto simp: memreg_inv_def)
  moreover have "last (m_free r) < m_minNewSlotNr r" using False calculation(2) last_in_set by blast
  ultimately show ?thesis using False by (simp add: memreg_next_def)
qed

lemma memreg_add_ok:
  assumes inv: "memreg_inv r" and room: "memreg_room r"
  shows "memreg_add r rec =
     Inr (memreg_next r,
          r\<lparr>m_slots := (m_slots r)[memreg_next r := rec],
            m_free := butlast (m_free r),
            m_minNewSlotNr := m_minNewSlotNr r + (if m_free r = [] then 1 else 0)\<rparr>)"
proof -
  note b = memreg_bounds [OF inv] and lt = memreg_next_less [OF inv room]
  have cap: "length (m_free r) \<le> m_free_capacity r"
    using b inv unfolding memreg_inv_def by linarith
  show ?thesis
  proof (cases "m_free r = []")
    case True
    then show ?thesis using lt b
      by (simp add: memreg_add_def memreg_next_def add64_plain)
  next
    case False
    then have "length (butlast (m_free r)) < m_free_capacity r"
      using cap by (cases "m_free r") auto
    then show ?thesis using False lt cap
      by (simp add: memreg_add_def memreg_next_def Let_def)
  qed
qed

lemma memreg_next_fresh: "memreg_inv r \<Longrightarrow> memreg_next r \<notin> memreg_live r"
  by (simp add: memreg_next_def memreg_live_def)

text \<open>The state \<open>add\<close> leaves, by the way it found its slot.\<close>

lemma memreg_add_state:
  assumes inv: "memreg_inv r"
    and r': "r' = r\<lparr>m_slots := (m_slots r)[memreg_next r := rec], m_free := butlast (m_free r),
        m_minNewSlotNr := m_minNewSlotNr r + (if m_free r = [] then 1 else 0)\<rparr>"
    and lt: "memreg_next r < length (m_slots r)"
  shows "memreg_inv r' \<and> memreg_live r' = insert (memreg_next r) (memreg_live r)"
proof (cases "m_free r = []")
  case True
  then show ?thesis using inv lt
    by (auto simp: r' memreg_inv_def memreg_live_def memreg_next_def)
next
  case False
  have d: "distinct (m_free r)" and sub: "set (m_free r) \<subseteq> {..<m_minNewSlotNr r}"
    using inv by (auto simp: memreg_inv_def)
  note sb = set_butlast_distinct [OF d False]
  have l: "last (m_free r) \<in> set (m_free r)" using False by simp
  have ll: "last (m_free r) < m_minNewSlotNr r" using sub l by blast
  have "memreg_live r' = insert (last (m_free r)) (memreg_live r)"
    using False ll by (auto simp: r' memreg_live_def sb)
  moreover have "memreg_inv r'"
    using inv False sub by (auto simp: r' memreg_inv_def sb distinct_butlast)
  ultimately show ?thesis using False by (simp add: memreg_next_def)
qed

lemma memreg_add_inv_live:
  assumes inv: "memreg_inv r" and room: "memreg_room r" and add: "memreg_add r rec = Inr (slot, r')"
  shows "memreg_inv r'" and "memreg_live r' = insert slot (memreg_live r)"
    and "slot \<notin> memreg_live r" and "slot = memreg_next r"
    and "m_slots r' = (m_slots r)[slot := rec]"
    and "slot < length (m_slots r)"
proof -
  note lt = memreg_next_less [OF inv room]
  have s: "slot = memreg_next r"
    and r': "r' = r\<lparr>m_slots := (m_slots r)[memreg_next r := rec], m_free := butlast (m_free r),
        m_minNewSlotNr := m_minNewSlotNr r + (if m_free r = [] then 1 else 0)\<rparr>"
    using add unfolding memreg_add_ok [OF inv room] by auto
  note st = memreg_add_state [OF inv r' lt]
  show "slot = memreg_next r" by (rule s)
  show "slot \<notin> memreg_live r" using memreg_next_fresh [OF inv] s by simp
  show "m_slots r' = (m_slots r)[slot := rec]" using r' s by simp
  show "slot < length (m_slots r)" using lt s by simp
  show "memreg_inv r'" using st by simp
  show "memreg_live r' = insert slot (memreg_live r)" using st s by simp
qed

lemma memreg_remove_ok:
  assumes inv: "memreg_inv r" and live: "slot \<in> memreg_live r"
  shows "memreg_remove r slot =
    Inr (if slot = m_minNewSlotNr r - 1 then r\<lparr>m_minNewSlotNr := m_minNewSlotNr r - 1\<rparr>
         else r\<lparr>m_free := m_free r @ [slot]\<rparr>)"
proof -
  note b = memreg_bounds [OF inv]
  have i: "m_minNewSlotNr r \<le> length (m_slots r)" "length (m_slots r) \<le> m_free_capacity r"
    using inv by (auto simp: memreg_inv_def)
  have l: "slot < m_minNewSlotNr r" "slot \<notin> set (m_free r)"
    using live by (auto simp: memreg_live_def)
  have "length (m_free r) < m_minNewSlotNr r"
    using inv l by (intro distinct_missing_length [of _ _ slot]) (auto simp: memreg_inv_def)
  moreover have "sub64 (m_minNewSlotNr r) 1 = m_minNewSlotNr r - 1"
    using l b by (intro sub64_plain) auto
  ultimately show ?thesis using i l by (simp add: memreg_remove_def Let_def)
qed

lemma memreg_remove_inv_live:
  assumes inv: "memreg_inv r" and live: "slot \<in> memreg_live r" and rm: "memreg_remove r slot = Inr r'"
  shows "memreg_inv r'" and "memreg_live r' = memreg_live r - {slot}" and "m_slots r' = m_slots r"
proof -
  from rm have r': "r' = (if slot = m_minNewSlotNr r - 1 then r\<lparr>m_minNewSlotNr := m_minNewSlotNr r - 1\<rparr>
         else r\<lparr>m_free := m_free r @ [slot]\<rparr>)"
    using memreg_remove_ok [OF inv live] by simp
  have l: "slot < m_minNewSlotNr r" "slot \<notin> set (m_free r)"
    using live by (auto simp: memreg_live_def)
  show "m_slots r' = m_slots r" by (simp add: r')
  have "set (m_free r) \<subseteq> {..<m_minNewSlotNr r - 1}" if "slot = m_minNewSlotNr r - 1"
  proof
    fix x assume "x \<in> set (m_free r)"
    moreover have "x < m_minNewSlotNr r" using inv calculation by (auto simp: memreg_inv_def)
    ultimately show "x \<in> {..<m_minNewSlotNr r - 1}" using l that
      by (cases "x = slot") auto
  qed
  then show "memreg_inv r'" using inv l by (auto simp: r' memreg_inv_def)
  show "memreg_live r' = memreg_live r - {slot}" using l by (auto simp: r' memreg_live_def)
qed

lemma memreg_update_ok:
  "slot < length (m_slots r) \<Longrightarrow>
   memreg_update r slot f = Inr (r\<lparr>m_slots := (m_slots r)[slot := f (m_slots r ! slot)]\<rparr>)"
  by (simp add: memreg_update_def)

lemma memreg_lookup_ok: "slot < length (m_slots r) \<Longrightarrow> memreg_lookup r slot = Inr (m_slots r ! slot)"
  by (simp add: memreg_lookup_def)

lemma memreg_update_inv:
  "memreg_inv r \<Longrightarrow> memreg_update r slot f = Inr r' \<Longrightarrow> memreg_inv r' \<and> memreg_live r' = memreg_live r"
  by (auto simp: memreg_update_def memreg_inv_def memreg_live_def bindE_simps)

text \<open>\<open>reserve\<close>: the three outcomes.\<close>

lemma memreg_reserve_cases:
  assumes "memreg_reserve ok mx d0 r n d = (r', e)"
  obtains (failed) c where "memreg_capacity r < n" "r' = r\<lparr>m_free_capacity := max (m_free_capacity r) c\<rparr>"
        "e = Some BadAlloc"
    | (grown) "memreg_capacity r < n" "n \<le> free_max_size" "e = None"
        "r' = r\<lparr>m_free_capacity := max (m_free_capacity r) n, m_slots := vec_resize n d (m_slots r)\<rparr>"
    | (shrunk) c where "n \<le> memreg_capacity r" "e = None" "c = m_free_capacity r \<or> c \<ge> max n (m_minNewSlotNr r)"
        "r' = r\<lparr>m_slots := vec_resize (max n (m_minNewSlotNr r)) d0 (m_slots r), m_free_capacity := c\<rparr>"
proof (cases "length (m_slots r) < n")
  case True
  note lt = this
  show thesis
  proof (cases "n > free_max_size \<or> n > mx \<or> \<not> ok 0 \<or> \<not> ok 1")
    case True
    then have "e = Some BadAlloc"
      and "r' = r\<lparr>m_free_capacity := max (m_free_capacity r) 0\<rparr> \<or>
           r' = r\<lparr>m_free_capacity := max (m_free_capacity r) n\<rparr>"
      using assms lt by (auto simp: memreg_reserve_def Let_def split: if_splits)
    then show thesis using failed [of 0] failed [of n] lt by (auto simp: memreg_capacity_def)
  next
    case False
    then have "e = None" "n \<le> free_max_size"
      "r' = r\<lparr>m_free_capacity := max (m_free_capacity r) n, m_slots := vec_resize n d (m_slots r)\<rparr>"
      using assms lt by (auto simp: memreg_reserve_def Let_def)
    then show thesis using grown lt by (auto simp: memreg_capacity_def)
  qed
next
  case False
  then have "e = None"
    "r' = r\<lparr>m_slots := vec_resize (max n (m_minNewSlotNr r)) d0 (m_slots r),
       m_free_capacity := (if ok 1 then max (length (m_free r)) (max n (m_minNewSlotNr r)) else m_free_capacity r)\<rparr>"
    using assms by (simp_all add: memreg_reserve_def Let_def split: if_splits)
  then show thesis using False
    by (intro shrunk [of "if ok 1 then max (length (m_free r)) (max n (m_minNewSlotNr r)) else m_free_capacity r"])
       (auto simp: memreg_capacity_def)
qed

lemma memreg_reserve_frame:
  assumes "memreg_reserve ok mx d0 r n d = (r', e)"
  shows "m_free r' = m_free r \<and> m_minNewSlotNr r' = m_minNewSlotNr r \<and> memreg_live r' = memreg_live r"
  using assms by (cases rule: memreg_reserve_cases) (simp_all add: memreg_live_def)

lemma memreg_reserve_inv:
  assumes "memreg_inv r" and "memreg_reserve ok mx d0 r n d = (r', e)"
  shows "memreg_inv r'"
  using assms(2)
proof (cases rule: memreg_reserve_cases)
  case (failed c)
  then show ?thesis using assms(1) by (auto simp: memreg_inv_def)
next
  case grown
  then show ?thesis using assms(1) by (auto simp: memreg_inv_def memreg_capacity_def)
next
  case (shrunk c)
  then show ?thesis using assms(1) by (auto simp: memreg_inv_def memreg_capacity_def)
qed

lemma memreg_reserve_slots:
  assumes inv: "memreg_inv r" and res: "memreg_reserve ok mx d0 r n d = (r', e)"
  shows "(e = None \<longrightarrow> n \<le> memreg_capacity r') \<and>
         (e \<noteq> None \<longrightarrow> e = Some BadAlloc \<and> m_slots r' = m_slots r) \<and>
         (\<forall>s \<in> memreg_live r. m_slots r' ! s = m_slots r ! s)"
  using res
proof (cases rule: memreg_reserve_cases)
  case (failed c)
  then show ?thesis by simp
next
  case grown
  have "s < n" if "s \<in> memreg_live r" for s
    using memreg_live_less [OF inv that] grown(1) by (simp add: memreg_capacity_def)
  with grown show ?thesis using memreg_live_less [OF inv]
    by (simp add: memreg_capacity_def nth_vec_resize)
next
  case (shrunk c)
  have "s < max n (m_minNewSlotNr r)" if "s \<in> memreg_live r" for s
    using that by (auto simp: memreg_live_def)
  with shrunk show ?thesis using memreg_live_less [OF inv]
    by (simp add: memreg_capacity_def nth_vec_resize)
qed


section \<open>CombinedMemoryRegister\<close>

record 'r combined =
  m_local :: "'r memreg"
  m_global :: "'r memreg"

definition combined_empty :: "'r combined" where
  "combined_empty = \<lparr>m_local = memreg_empty, m_global = memreg_empty\<rparr>"

definition combined_destroy :: "'r combined \<Rightarrow> 'r combined" where
  "combined_destroy c = \<lparr>m_local = memreg_destroy (m_local c), m_global = memreg_destroy (m_global c)\<rparr>"

definition isLocalSlot :: "slot \<Rightarrow> bool" where
  "isLocalSlot slot \<longleftrightarrow> slot mod 2 = 1"

definition fromGlobal :: "slot \<Rightarrow> slot" where
  "fromGlobal slot = slot div 2"

definition fromLocal :: "slot \<Rightarrow> slot" where
  "fromLocal slot = sub64 slot 1 div 2"

definition toGlobal :: "slot \<Rightarrow> slot" where
  "toGlobal slot = mul64 2 slot"

definition toLocal :: "slot \<Rightarrow> slot" where
  "toLocal slot = add64 (mul64 2 slot) 1"

definition addLocalReg :: "'r combined \<Rightarrow> 'r \<Rightarrow> fault + slot \<times> 'r combined" where
  "addLocalReg c record =
     bindE (memreg_add (m_local c) record) (\<lambda>(slot, l). Inr (toLocal slot, c\<lparr>m_local := l\<rparr>))"

definition addGlobalReg :: "'r combined \<Rightarrow> 'r \<Rightarrow> fault + slot \<times> 'r combined" where
  "addGlobalReg c record =
     bindE (memreg_add (m_global c) record) (\<lambda>(slot, g). Inr (toGlobal slot, c\<lparr>m_global := g\<rparr>))"

definition removeReg :: "'r combined \<Rightarrow> slot \<Rightarrow> fault + 'r combined" where
  "removeReg c slot =
     (if isLocalSlot slot
      then bindE (memreg_remove (m_local c) (fromLocal slot)) (\<lambda>l. Inr (c\<lparr>m_local := l\<rparr>))
      else bindE (memreg_remove (m_global c) (fromGlobal slot)) (\<lambda>g. Inr (c\<lparr>m_global := g\<rparr>)))"

definition combined_lookup :: "'r combined \<Rightarrow> slot \<Rightarrow> fault + 'r" where
  "combined_lookup c slot =
     (if isLocalSlot slot then memreg_lookup (m_local c) (fromLocal slot)
      else memreg_lookup (m_global c) (fromGlobal slot))"

definition combined_update :: "'r combined \<Rightarrow> slot \<Rightarrow> ('r \<Rightarrow> 'r) \<Rightarrow> fault + 'r combined" where
  "combined_update c slot f =
     (if isLocalSlot slot
      then bindE (memreg_update (m_local c) (fromLocal slot) f) (\<lambda>l. Inr (c\<lparr>m_local := l\<rparr>))
      else bindE (memreg_update (m_global c) (fromGlobal slot) f) (\<lambda>g. Inr (c\<lparr>m_global := g\<rparr>)))"

text \<open>\<open>reserve\<close>: the global register first; an exception there skips the local one.\<close>

definition combined_reserve ::
  "(nat \<Rightarrow> bool) \<Rightarrow> nat \<Rightarrow> 'r \<Rightarrow> 'r combined \<Rightarrow> nat \<Rightarrow> 'r \<Rightarrow> 'r combined \<times> fault option" where
  "combined_reserve ok mx dflt0 c sz defaultRecord =
     (case memreg_reserve ok mx dflt0 (m_global c) sz defaultRecord of
        (g, Some e) \<Rightarrow> (c\<lparr>m_global := g\<rparr>, Some e)
      | (g, None) \<Rightarrow>
          (case memreg_reserve (\<lambda>k. ok (k + 2)) mx dflt0 (m_local c) sz defaultRecord of
             (l, e) \<Rightarrow> (c\<lparr>m_global := g, m_local := l\<rparr>, e)))"

definition combined_capacity :: "'r combined \<Rightarrow> nat" where
  "combined_capacity c = min (memreg_capacity (m_global c)) (memreg_capacity (m_local c))"

definition combined_range :: "'r combined \<Rightarrow> nat" where
  "combined_range c =
     max (mul64 2 (memreg_capacity (m_global c))) (add64 (mul64 2 (memreg_capacity (m_local c))) 1)"

definition combined_inv :: "'r combined \<Rightarrow> bool" where
  "combined_inv c \<longleftrightarrow> memreg_inv (m_local c) \<and> memreg_inv (m_global c)"

definition combined_live :: "'r combined \<Rightarrow> slot set" where
  "combined_live c = (\<lambda>s. 2 * s + 1) ` memreg_live (m_local c) \<union> (\<lambda>s. 2 * s) ` memreg_live (m_global c)"

subsection \<open>The parity code\<close>

lemma toGlobal_plain: "s \<le> free_max_size \<Longrightarrow> toGlobal s = 2 * s"
  by (simp add: toGlobal_def mul64_def free_max_size_def)

lemma toLocal_plain: "s \<le> free_max_size \<Longrightarrow> toLocal s = 2 * s + 1"
  by (simp add: toLocal_def mul64_def add64_def free_max_size_def)

lemma fromLocal_odd: "s \<le> free_max_size \<Longrightarrow> fromLocal (2 * s + 1) = s"
  by (simp add: fromLocal_def sub64_def free_max_size_def mod_if)

lemma fromGlobal_even [simp]: "fromGlobal (2 * s) = s"
  by (simp add: fromGlobal_def)

lemma isLocalSlot_odd [simp]: "isLocalSlot (Suc (2 * s))" "\<not> isLocalSlot (2 * s)"
  by (simp_all add: isLocalSlot_def)

lemma parity_code:
  assumes "s \<le> free_max_size"
  shows "isLocalSlot (toLocal s)" "\<not> isLocalSlot (toGlobal s)"
    "fromLocal (toLocal s) = s" "fromGlobal (toGlobal s) = s"
  using assms by (simp_all add: toLocal_plain toGlobal_plain fromLocal_odd [simplified])

section \<open>The interface of a slot register\<close>

text \<open>
  What the users of a register rely on: \<open>memorytable.cpp\<close> and \<open>ibverbs.cpp\<close> address memory
  through slots, so a slot must be fresh when it is dealt out, keep its record until it is removed,
  and be independent of all the others.
\<close>

locale slot_register =
  fixes add :: "'m \<Rightarrow> 'r \<Rightarrow> fault + slot \<times> 'm"
    and remove :: "'m \<Rightarrow> slot \<Rightarrow> fault + 'm"
    and lookup :: "'m \<Rightarrow> slot \<Rightarrow> fault + 'r"
    and update :: "'m \<Rightarrow> slot \<Rightarrow> ('r \<Rightarrow> 'r) \<Rightarrow> fault + 'm"
    and live :: "'m \<Rightarrow> slot set"
    and inv :: "'m \<Rightarrow> bool"
    and room :: "'m \<Rightarrow> bool"
  assumes add_total: "inv m \<Longrightarrow> room m \<Longrightarrow> \<exists>s m'. add m r = Inr (s, m')"
    and add_spec: "inv m \<Longrightarrow> room m \<Longrightarrow> add m r = Inr (s, m') \<Longrightarrow>
      inv m' \<and> live m' = insert s (live m) \<and> s \<notin> live m \<and> lookup m' s = Inr r \<and>
      (\<forall>t \<in> live m. lookup m' t = lookup m t)"
    and remove_total: "inv m \<Longrightarrow> s \<in> live m \<Longrightarrow> \<exists>m'. remove m s = Inr m'"
    and remove_spec: "inv m \<Longrightarrow> s \<in> live m \<Longrightarrow> remove m s = Inr m' \<Longrightarrow>
      inv m' \<and> live m' = live m - {s} \<and> (\<forall>t \<in> live m'. lookup m' t = lookup m t)"
    and lookup_total: "inv m \<Longrightarrow> s \<in> live m \<Longrightarrow> \<exists>r. lookup m s = Inr r"
    and update_spec: "inv m \<Longrightarrow> s \<in> live m \<Longrightarrow> lookup m s = Inr r \<Longrightarrow>
      \<exists>m'. update m s f = Inr m' \<and> inv m' \<and> live m' = live m \<and> lookup m' s = Inr (f r) \<and>
      (\<forall>t \<in> live m - {s}. lookup m' t = lookup m t)"
begin

lemma add_obtain:
  assumes "inv m" and "room m"
  obtains s m' where "add m r = Inr (s, m')" "inv m'" "live m' = insert s (live m)" "s \<notin> live m"
    "lookup m' s = Inr r" "\<forall>t \<in> live m. lookup m' t = lookup m t"
  using add_total [OF assms] add_spec [OF assms] by metis

lemma add_then_remove:
  assumes "inv m" and "room m"
  shows "\<exists>s m1 m2. add m r = Inr (s, m1) \<and> remove m1 s = Inr m2 \<and> inv m2 \<and>
      live m2 = live m \<and> (\<forall>t \<in> live m. lookup m2 t = lookup m t)"
proof -
  obtain s m1 where a: "add m r = Inr (s, m1)" "inv m1" "live m1 = insert s (live m)" "s \<notin> live m"
    "\<forall>t \<in> live m. lookup m1 t = lookup m t"
    using add_obtain [OF assms] by metis
  obtain m2 where r: "remove m1 s = Inr m2" using remove_total [of m1 s] a by auto
  show ?thesis using a r remove_spec [OF a(2) _ r] by auto
qed

lemma add_add_distinct:
  assumes "inv m" and "room m" and "add m r = Inr (s, m1)" and "room m1" and "add m1 r' = Inr (s', m2)"
  shows "s \<noteq> s' \<and> lookup m2 s = Inr r \<and> lookup m2 s' = Inr r'"
  using add_spec [OF assms(1,2,3)] add_spec [OF _ assms(4,5)] by auto

end

interpretation memreg: slot_register memreg_add memreg_remove memreg_lookup memreg_update
  memreg_live memreg_inv memreg_room
proof unfold_locales
  fix m :: "'r memreg" and r s m'
  assume i: "memreg_inv m" and ro: "memreg_room m"
  show "\<exists>s m'. memreg_add m r = Inr (s, m')" using memreg_add_ok [OF i ro] by blast
next
  fix m :: "'r memreg" and r s m'
  assume i: "memreg_inv m" and ro: "memreg_room m" and a: "memreg_add m r = Inr (s, m')"
  note f = memreg_add_inv_live [OF i ro a]
  have "memreg_lookup m' t = memreg_lookup m t" if "t \<in> memreg_live m" for t
    using memreg_live_less [OF i that] that f by (cases "t = s") (auto simp: memreg_lookup_def)
  moreover have "memreg_lookup m' s = Inr r" using f by (simp add: memreg_lookup_def)
  ultimately show "memreg_inv m' \<and> memreg_live m' = insert s (memreg_live m) \<and> s \<notin> memreg_live m \<and>
      memreg_lookup m' s = Inr r \<and> (\<forall>t \<in> memreg_live m. memreg_lookup m' t = memreg_lookup m t)"
    using f by simp
next
  fix m :: "'r memreg" and s
  assume "memreg_inv m" "s \<in> memreg_live m"
  then show "\<exists>m'. memreg_remove m s = Inr m'" using memreg_remove_ok by blast
next
  fix m :: "'r memreg" and s m'
  assume a: "memreg_inv m" "s \<in> memreg_live m" "memreg_remove m s = Inr m'"
  show "memreg_inv m' \<and> memreg_live m' = memreg_live m - {s} \<and>
      (\<forall>t \<in> memreg_live m'. memreg_lookup m' t = memreg_lookup m t)"
    using memreg_remove_inv_live [OF a] by (simp add: memreg_lookup_def)
next
  fix m :: "'r memreg" and s
  assume "memreg_inv m" "s \<in> memreg_live m"
  then show "\<exists>r. memreg_lookup m s = Inr r" using memreg_live_less memreg_lookup_ok by blast
next
  fix m :: "'r memreg" and s r f
  assume a: "memreg_inv m" "s \<in> memreg_live m" "memreg_lookup m s = Inr r"
  note l = memreg_live_less [OF a(1,2)]
  note u = memreg_update_ok [OF l, of f]
  show "\<exists>m'. memreg_update m s f = Inr m' \<and> memreg_inv m' \<and> memreg_live m' = memreg_live m \<and>
      memreg_lookup m' s = Inr (f r) \<and> (\<forall>t \<in> memreg_live m - {s}. memreg_lookup m' t = memreg_lookup m t)"
    using u memreg_update_inv [OF a(1) u] l a(3) memreg_live_less [OF a(1)]
    by (simp add: memreg_lookup_def)
qed

text \<open>The combined register satisfies the interface twice, once for each kind of slot.\<close>

definition room_local :: "'r combined \<Rightarrow> bool" where
  "room_local c \<longleftrightarrow> memreg_room (m_local c)"

definition room_global :: "'r combined \<Rightarrow> bool" where
  "room_global c \<longleftrightarrow> memreg_room (m_global c)"

lemma odd_even_images [simp]:
  "Suc (2 * s) \<in> (\<lambda>s. Suc (2 * s)) ` A \<longleftrightarrow> s \<in> A" "2 * s \<in> (\<lambda>s. 2 * s) ` A \<longleftrightarrow> s \<in> A"
  "Suc (2 * s) \<notin> (\<lambda>s. 2 * s) ` A" "2 * s \<notin> (\<lambda>s. Suc (2 * s)) ` A" for s :: nat
  by (auto simp: image_iff, presburger+)

lemma odd_neq_even [simp]: "Suc (2 * u) \<noteq> 2 * v" "2 * v \<noteq> Suc (2 * u)" for u v :: nat
  by presburger+

lemma memreg_slot_bound: "memreg_inv m \<Longrightarrow> s \<in> memreg_live m \<Longrightarrow> s \<le> free_max_size"
  using memreg_bounds(1) [of m] by (auto simp: memreg_live_def)

lemma combined_lookup_local:
  "s \<le> free_max_size \<Longrightarrow> combined_lookup c (Suc (2 * s)) = memreg_lookup (m_local c) s"
  by (simp add: combined_lookup_def fromLocal_odd [simplified])

lemma combined_lookup_global: "combined_lookup c (2 * s) = memreg_lookup (m_global c) s"
  by (simp add: combined_lookup_def)

lemma combined_live_cases:
  assumes "t \<in> combined_live c"
  obtains s where "s \<in> memreg_live (m_local c)" "t = Suc (2 * s)"
  | s where "s \<in> memreg_live (m_global c)" "t = 2 * s"
  using assms by (auto simp: combined_live_def)

lemma combined_lookup_total:
  assumes i: "combined_inv c" and l: "s \<in> combined_live c"
  shows "\<exists>r. combined_lookup c s = Inr r"
  using l
proof (cases rule: combined_live_cases)
  case (1 u)
  then show ?thesis using i memreg_slot_bound [of "m_local c" u] memreg.lookup_total [of "m_local c" u]
    by (simp add: combined_inv_def combined_lookup_local)
next
  case (2 u)
  then show ?thesis using i memreg.lookup_total [of "m_global c" u]
    by (simp add: combined_inv_def combined_lookup_global)
qed

lemma addLocalReg_spec:
  assumes i: "combined_inv m" and ro: "room_local m"
  shows "\<exists>s m'. addLocalReg m r = Inr (s, m')"
    and "addLocalReg m r = Inr (s, m') \<Longrightarrow>
      combined_inv m' \<and> combined_live m' = insert s (combined_live m) \<and> s \<notin> combined_live m \<and>
      combined_lookup m' s = Inr r \<and> (\<forall>t \<in> combined_live m. combined_lookup m' t = combined_lookup m t)"
proof -
  have il: "memreg_inv (m_local m)" and ig: "memreg_inv (m_global m)" using i by (simp_all add: combined_inv_def)
  have rl: "memreg_room (m_local m)" using ro by (simp add: room_local_def)
  obtain u l where a: "memreg_add (m_local m) r = Inr (u, l)" "memreg_inv l"
    "memreg_live l = insert u (memreg_live (m_local m))" "u \<notin> memreg_live (m_local m)"
    "memreg_lookup l u = Inr r" "\<forall>t \<in> memreg_live (m_local m). memreg_lookup l t = memreg_lookup (m_local m) t"
    using memreg.add_obtain [OF il rl, of r] by metis
  have ub: "u \<le> free_max_size" using memreg_slot_bound [OF a(2), of u] a(3) by simp
  have eq: "addLocalReg m r = Inr (Suc (2 * u), m\<lparr>m_local := l\<rparr>)"
    using a(1) by (simp add: addLocalReg_def toLocal_plain [OF ub])
  show "\<exists>s m'. addLocalReg m r = Inr (s, m')" using eq by blast
  assume "addLocalReg m r = Inr (s, m')"
  then have s: "s = Suc (2 * u)" and m': "m' = m\<lparr>m_local := l\<rparr>" using eq by simp_all
  have "combined_lookup m' t = combined_lookup m t" if "t \<in> combined_live m" for t
    using that
  proof (cases rule: combined_live_cases)
    case (1 v)
    then show ?thesis using a(6) memreg_slot_bound [OF il 1(1)] by (simp add: m' combined_lookup_local)
  next
    case (2 v)
    then show ?thesis by (simp add: m' combined_lookup_global)
  qed
  then show "combined_inv m' \<and> combined_live m' = insert s (combined_live m) \<and> s \<notin> combined_live m \<and>
      combined_lookup m' s = Inr r \<and> (\<forall>t \<in> combined_live m. combined_lookup m' t = combined_lookup m t)"
    using a ig by (simp add: m' s combined_inv_def combined_live_def combined_lookup_local [OF ub])
qed

lemma addGlobalReg_spec:
  assumes i: "combined_inv m" and ro: "room_global m"
  shows "\<exists>s m'. addGlobalReg m r = Inr (s, m')"
    and "addGlobalReg m r = Inr (s, m') \<Longrightarrow>
      combined_inv m' \<and> combined_live m' = insert s (combined_live m) \<and> s \<notin> combined_live m \<and>
      combined_lookup m' s = Inr r \<and> (\<forall>t \<in> combined_live m. combined_lookup m' t = combined_lookup m t)"
proof -
  have il: "memreg_inv (m_local m)" and ig: "memreg_inv (m_global m)" using i by (simp_all add: combined_inv_def)
  have rg: "memreg_room (m_global m)" using ro by (simp add: room_global_def)
  obtain u l where a: "memreg_add (m_global m) r = Inr (u, l)" "memreg_inv l"
    "memreg_live l = insert u (memreg_live (m_global m))" "u \<notin> memreg_live (m_global m)"
    "memreg_lookup l u = Inr r" "\<forall>t \<in> memreg_live (m_global m). memreg_lookup l t = memreg_lookup (m_global m) t"
    using memreg.add_obtain [OF ig rg, of r] by metis
  have ub: "u \<le> free_max_size" using memreg_slot_bound [OF a(2), of u] a(3) by simp
  have eq: "addGlobalReg m r = Inr (2 * u, m\<lparr>m_global := l\<rparr>)"
    using a(1) by (simp add: addGlobalReg_def toGlobal_plain [OF ub])
  show "\<exists>s m'. addGlobalReg m r = Inr (s, m')" using eq by blast
  assume "addGlobalReg m r = Inr (s, m')"
  then have s: "s = 2 * u" and m': "m' = m\<lparr>m_global := l\<rparr>" using eq by simp_all
  have "combined_lookup m' t = combined_lookup m t" if "t \<in> combined_live m" for t
    using that
  proof (cases rule: combined_live_cases)
    case (1 v)
    then show ?thesis using memreg_slot_bound [OF il 1(1)] by (simp add: m' combined_lookup_local)
  next
    case (2 v)
    then show ?thesis using a(6) by (simp add: m' combined_lookup_global)
  qed
  then show "combined_inv m' \<and> combined_live m' = insert s (combined_live m) \<and> s \<notin> combined_live m \<and>
      combined_lookup m' s = Inr r \<and> (\<forall>t \<in> combined_live m. combined_lookup m' t = combined_lookup m t)"
    using a il by (simp add: m' s combined_inv_def combined_live_def combined_lookup_global)
qed

lemma removeReg_spec:
  assumes i: "combined_inv m" and l: "s \<in> combined_live m"
  shows "\<exists>m'. removeReg m s = Inr m' \<and> combined_inv m' \<and> combined_live m' = combined_live m - {s} \<and>
      (\<forall>t \<in> combined_live m'. combined_lookup m' t = combined_lookup m t)"
  using l
proof (cases rule: combined_live_cases)
  case (1 u)
  have il: "memreg_inv (m_local m)" and ig: "memreg_inv (m_global m)" using i by (simp_all add: combined_inv_def)
  obtain l where r: "memreg_remove (m_local m) u = Inr l" using memreg.remove_total [OF il 1(1)] by blast
  note f = memreg.remove_spec [OF il 1(1) r]
  note ub = memreg_slot_bound [OF il 1(1)]
  have eq: "removeReg m s = Inr (m\<lparr>m_local := l\<rparr>)"
    using 1 r by (simp add: removeReg_def fromLocal_odd [OF ub, simplified])
  have live: "combined_live (m\<lparr>m_local := l\<rparr>) = combined_live m - {s}"
    using f 1 by (auto simp: combined_live_def)
  have "combined_lookup (m\<lparr>m_local := l\<rparr>) t = combined_lookup m t" if "t \<in> combined_live (m\<lparr>m_local := l\<rparr>)" for t
    using that
  proof (cases rule: combined_live_cases)
    case (1 v)
    then show ?thesis using f memreg_slot_bound [of l v] by (simp add: combined_lookup_local)
  next
    case (2 v)
    then show ?thesis by (simp add: combined_lookup_global)
  qed
  then show ?thesis using eq live f ig by (simp add: combined_inv_def)
next
  case (2 u)
  have il: "memreg_inv (m_local m)" and ig: "memreg_inv (m_global m)" using i by (simp_all add: combined_inv_def)
  obtain g where r: "memreg_remove (m_global m) u = Inr g" using memreg.remove_total [OF ig 2(1)] by blast
  note f = memreg.remove_spec [OF ig 2(1) r]
  have eq: "removeReg m s = Inr (m\<lparr>m_global := g\<rparr>)" using 2 r by (simp add: removeReg_def)
  have live: "combined_live (m\<lparr>m_global := g\<rparr>) = combined_live m - {s}"
    using f 2 by (auto simp: combined_live_def)
  have "combined_lookup (m\<lparr>m_global := g\<rparr>) t = combined_lookup m t" if "t \<in> combined_live (m\<lparr>m_global := g\<rparr>)" for t
    using that
  proof (cases rule: combined_live_cases)
    case (1 v)
    then show ?thesis using memreg_slot_bound [OF il, of v] by (simp add: combined_lookup_local)
  next
    case (2 v)
    then show ?thesis using f by (simp add: combined_lookup_global)
  qed
  then show ?thesis using eq live f il by (simp add: combined_inv_def)
qed

lemma combined_update_spec:
  assumes i: "combined_inv m" and l: "s \<in> combined_live m" and r: "combined_lookup m s = Inr r"
  shows "\<exists>m'. combined_update m s f = Inr m' \<and> combined_inv m' \<and> combined_live m' = combined_live m \<and>
      combined_lookup m' s = Inr (f r) \<and> (\<forall>t \<in> combined_live m - {s}. combined_lookup m' t = combined_lookup m t)"
  using l
proof (cases rule: combined_live_cases)
  case (1 u)
  have il: "memreg_inv (m_local m)" and ig: "memreg_inv (m_global m)" using i by (simp_all add: combined_inv_def)
  note ub = memreg_slot_bound [OF il 1(1)]
  have rl: "memreg_lookup (m_local m) u = Inr r" using r 1(2) combined_lookup_local [OF ub, of m] by simp
  obtain l where u: "memreg_update (m_local m) u f = Inr l" "memreg_inv l" "memreg_live l = memreg_live (m_local m)"
    "memreg_lookup l u = Inr (f r)" "\<forall>t \<in> memreg_live (m_local m) - {u}. memreg_lookup l t = memreg_lookup (m_local m) t"
    using memreg.update_spec [OF il 1(1) rl, of f] by metis
  have eq: "combined_update m s f = Inr (m\<lparr>m_local := l\<rparr>)"
    using 1 u(1) by (simp add: combined_update_def fromLocal_odd [OF ub, simplified])
  have "combined_lookup (m\<lparr>m_local := l\<rparr>) t = combined_lookup m t" if "t \<in> combined_live m - {s}" for t
    using that 1 u(5) memreg_slot_bound [OF il]
    by (auto simp: combined_live_def combined_lookup_local combined_lookup_global)
  then show ?thesis using eq u ig 1 by (simp add: combined_inv_def combined_live_def combined_lookup_local [OF ub])
next
  case (2 u)
  have il: "memreg_inv (m_local m)" and ig: "memreg_inv (m_global m)" using i by (simp_all add: combined_inv_def)
  have rg: "memreg_lookup (m_global m) u = Inr r" using r 2(2) combined_lookup_global [of m] by simp
  obtain g where u: "memreg_update (m_global m) u f = Inr g" "memreg_inv g" "memreg_live g = memreg_live (m_global m)"
    "memreg_lookup g u = Inr (f r)" "\<forall>t \<in> memreg_live (m_global m) - {u}. memreg_lookup g t = memreg_lookup (m_global m) t"
    using memreg.update_spec [OF ig 2(1) rg, of f] by metis
  have eq: "combined_update m s f = Inr (m\<lparr>m_global := g\<rparr>)" using 2 u(1) by (simp add: combined_update_def)
  have "combined_lookup (m\<lparr>m_global := g\<rparr>) t = combined_lookup m t" if "t \<in> combined_live m - {s}" for t
    using that 2 u(5) memreg_slot_bound [OF il]
    by (auto simp: combined_live_def combined_lookup_local combined_lookup_global)
  then show ?thesis using eq u il 2 by (simp add: combined_inv_def combined_live_def combined_lookup_global)
qed

lemma removeReg_laws:
  "combined_inv m \<Longrightarrow> s \<in> combined_live m \<Longrightarrow> \<exists>m'. removeReg m s = Inr m'"
  "combined_inv m \<Longrightarrow> s \<in> combined_live m \<Longrightarrow> removeReg m s = Inr m' \<Longrightarrow>
    combined_inv m' \<and> combined_live m' = combined_live m - {s} \<and>
    (\<forall>t \<in> combined_live m'. combined_lookup m' t = combined_lookup m t)"
  using removeReg_spec [of m s] by auto

interpretation local_reg: slot_register addLocalReg removeReg combined_lookup combined_update
  combined_live combined_inv room_local
  by (unfold_locales; (rule addLocalReg_spec removeReg_laws combined_lookup_total combined_update_spec; assumption))

interpretation global_reg: slot_register addGlobalReg removeReg combined_lookup combined_update
  combined_live combined_inv room_global
  by (unfold_locales; (rule addGlobalReg_spec removeReg_laws combined_lookup_total combined_update_spec; assumption))

lemma combined_inv_empty: "combined_inv combined_empty"
  by (simp add: combined_inv_def combined_empty_def memreg_inv_empty)

lemma combined_reserve_inv:
  assumes "combined_inv c" and "combined_reserve ok mx d0 c n d = (c', e)"
  shows "combined_inv c' \<and> combined_live c' = combined_live c"
  using assms
  by (auto simp: combined_reserve_def combined_inv_def combined_live_def
      split: prod.splits option.splits dest: memreg_reserve_inv memreg_reserve_frame)

lemma addLocalReg_frame:
  "addLocalReg c r = Inr (s, c') \<Longrightarrow> m_global c' = m_global c"
  by (auto simp: addLocalReg_def bindE_simps)

lemma addLocalReg_parity:
  assumes "combined_inv c" and "room_local c" and "addLocalReg c r = Inr (s, c')"
  shows "isLocalSlot s"
proof -
  have i: "memreg_inv (m_local c)" "memreg_room (m_local c)"
    using assms by (simp_all add: combined_inv_def room_local_def)
  obtain u l where a: "memreg_add (m_local c) r = Inr (u, l)" and s: "s = toLocal u"
    using assms(3) by (auto simp: addLocalReg_def bindE_simps)
  have "u \<in> memreg_live l" and "memreg_inv l"
    using memreg.add_spec [OF i a] by simp_all
  then show ?thesis using memreg_slot_bound parity_code(1) s by blast
qed

lemma addGlobalReg_parity:
  assumes "combined_inv c" and "room_global c" and "addGlobalReg c r = Inr (s, c')"
  shows "\<not> isLocalSlot s"
proof -
  have i: "memreg_inv (m_global c)" "memreg_room (m_global c)"
    using assms by (simp_all add: combined_inv_def room_global_def)
  obtain u g where a: "memreg_add (m_global c) r = Inr (u, g)" and s: "s = toGlobal u"
    using assms(3) by (auto simp: addGlobalReg_def bindE_simps)
  have "u \<in> memreg_live g" and "memreg_inv g"
    using memreg.add_spec [OF i a] by simp_all
  then show ?thesis using memreg_slot_bound parity_code(2) s by blast
qed

lemma combined_reserve_spec:
  assumes "combined_inv c" and "combined_reserve ok mx d0 c n d = (c', e)"
  shows "combined_inv c' \<and> combined_live c' = combined_live c \<and>
    (\<forall>s \<in> combined_live c. combined_lookup c' s = combined_lookup c s) \<and>
    (e = None \<longrightarrow> n \<le> combined_capacity c') \<and>
    (e \<noteq> None \<longrightarrow> e = Some BadAlloc \<and> combined_capacity c' \<ge> min n (combined_capacity c))"
proof -
  obtain g e1 where g: "memreg_reserve ok mx d0 (m_global c) n d = (g, e1)" by fastforce
  obtain l e2 where l: "memreg_reserve (\<lambda>k. ok (k + 2)) mx d0 (m_local c) n d = (l, e2)" by fastforce
  have i: "memreg_inv (m_local c)" "memreg_inv (m_global c)" using assms(1) by (simp_all add: combined_inv_def)
  note gs = memreg_reserve_slots [OF i(2) g] and ls = memreg_reserve_slots [OF i(1) l]
  have c': "c' = (if e1 = None then c\<lparr>m_global := g, m_local := l\<rparr> else c\<lparr>m_global := g\<rparr>)"
    and e: "e = (if e1 = None then e2 else e1)"
    using assms(2) g l by (auto simp: combined_reserve_def split: option.splits)
  have same: "memreg_lookup g s = memreg_lookup (m_global c) s" if "s \<in> memreg_live (m_global c)" for s
    using that gs memreg_live_less [OF i(2) that] memreg_live_less [of g s] memreg_reserve_inv [OF i(2) g]
      memreg_reserve_frame [OF g] by (simp add: memreg_lookup_def)
  have same': "memreg_lookup l s = memreg_lookup (m_local c) s" if "s \<in> memreg_live (m_local c)" for s
    using that ls memreg_live_less [OF i(1) that] memreg_live_less [of l s] memreg_reserve_inv [OF i(1) l]
      memreg_reserve_frame [OF l] by (simp add: memreg_lookup_def)
  have "combined_lookup c' s = combined_lookup c s" if "s \<in> combined_live c" for s
    using that
    by (cases rule: combined_live_cases)
       (auto simp: c' combined_lookup_global combined_lookup_local memreg_slot_bound [OF i(1)] same same')
  moreover have "e = None \<longrightarrow> n \<le> combined_capacity c'"
    using gs ls by (auto simp: c' e combined_capacity_def)
  moreover have "e \<noteq> None \<longrightarrow> e = Some BadAlloc \<and> combined_capacity c' \<ge> min n (combined_capacity c)"
    using gs ls by (auto simp: c' e combined_capacity_def memreg_capacity_def)
  ultimately show ?thesis using combined_reserve_inv [OF assms] by blast
qed

lemma combined_reserve_minNew:
  "combined_reserve ok mx d0 c n d = (c', e) \<Longrightarrow> m_minNewSlotNr (m_global c') = m_minNewSlotNr (m_global c)"
  by (auto simp: combined_reserve_def split: prod.splits option.splits dest: memreg_reserve_frame)

text \<open>No operation but \<open>reserve\<close> changes the capacity, and a register with fewer slots in use than its capacity has room.\<close>

lemma memreg_capacity_kept:
  "memreg_add r x = Inr (i, r') \<Longrightarrow> memreg_capacity r' = memreg_capacity r"
  "memreg_remove r i = Inr r' \<Longrightarrow> memreg_capacity r' = memreg_capacity r"
  "memreg_update r i f = Inr r' \<Longrightarrow> memreg_capacity r' = memreg_capacity r"
  by (auto simp: memreg_add_def memreg_remove_def memreg_update_def memreg_capacity_def bindE_simps Let_def
      split: if_splits)

lemma combined_capacity_kept:
  "addLocalReg c x = Inr (i, c') \<Longrightarrow> combined_capacity c' = combined_capacity c"
  "addGlobalReg c x = Inr (i, c') \<Longrightarrow> combined_capacity c' = combined_capacity c"
  "removeReg c i = Inr c' \<Longrightarrow> combined_capacity c' = combined_capacity c"
  "combined_update c i f = Inr c' \<Longrightarrow> combined_capacity c' = combined_capacity c"
  by (auto simp: addLocalReg_def addGlobalReg_def removeReg_def combined_update_def combined_capacity_def
      bindE_simps memreg_capacity_kept split: if_splits)

text \<open>The slots of one kind.\<close>

definition kind_slots :: "bool \<Rightarrow> slot set \<Rightarrow> slot set" where
  "kind_slots loc A = {i \<in> A. isLocalSlot i = loc}"

lemma card_kind_live:
  "card (kind_slots True (combined_live c)) = card (memreg_live (m_local c))"
  "card (kind_slots False (combined_live c)) = card (memreg_live (m_global c))"
proof -
  have "kind_slots True (combined_live c) = (\<lambda>s. 2 * s + 1) ` memreg_live (m_local c)"
    "kind_slots False (combined_live c) = (\<lambda>s. 2 * s) ` memreg_live (m_global c)"
    by (auto simp: kind_slots_def combined_live_def)
  then show "card (kind_slots True (combined_live c)) = card (memreg_live (m_local c))"
    "card (kind_slots False (combined_live c)) = card (memreg_live (m_global c))"
    by (simp_all add: card_image inj_on_def)
qed

lemma combined_room:
  assumes "card (kind_slots loc (combined_live c)) < n" and "n \<le> combined_capacity c"
  shows "if loc then room_local c else room_global c"
  using assms card_kind_live [of c]
  by (cases loc) (simp_all add: room_local_def room_global_def memreg_room_def combined_capacity_def)

section \<open>Slots are globally consistent\<close>

text \<open>
  A history of one register: the calls of one process.  A \<open>reserve\<close> that throws leaves the register
  usable (the callers catch the exception and go on), so the history continues after it.
\<close>

datatype 'r memreg_op =
    AddOp 'r
  | RemoveOp slot
  | ReserveOp "nat \<Rightarrow> bool" nat 'r nat 'r

fun memreg_run :: "'r memreg \<Rightarrow> 'r memreg_op list \<Rightarrow> fault + slot list \<times> 'r memreg" where
  "memreg_run r [] = Inr ([], r)"
| "memreg_run r (AddOp x # ops) =
     bindE (memreg_add r x) (\<lambda>(s, r'). bindE (memreg_run r' ops) (\<lambda>(ss, r''). Inr (s # ss, r'')))"
| "memreg_run r (RemoveOp s # ops) = bindE (memreg_remove r s) (\<lambda>r'. memreg_run r' ops)"
| "memreg_run r (ReserveOp ok mx d0 n d # ops) = memreg_run (fst (memreg_reserve ok mx d0 r n d)) ops"

text \<open>The order of \<open>add\<close> and \<open>remove\<close> in a history, without the records and the reservations.\<close>

fun call_order :: "'r memreg_op list \<Rightarrow> slot option list" where
  "call_order [] = []"
| "call_order (AddOp x # ops) = None # call_order ops"
| "call_order (RemoveOp s # ops) = Some s # call_order ops"
| "call_order (ReserveOp ok mx d0 n d # ops) = call_order ops"

text \<open>The numbering as a function of that order, the free stack and the counter alone.\<close>

fun numbering :: "slot list \<Rightarrow> slot \<Rightarrow> slot option list \<Rightarrow> slot list" where
  "numbering free new [] = []"
| "numbering free new (None # cs) =
     (if free = [] then new # numbering free (add64 new 1) cs
      else last free # numbering (butlast free) new cs)"
| "numbering free new (Some s # cs) =
     (if s = sub64 new 1 then numbering free (sub64 new 1) cs else numbering (free @ [s]) new cs)"

lemma memreg_add_numbering:
  "memreg_add r x = Inr (s, r') \<Longrightarrow>
     (if m_free r = [] then s = m_minNewSlotNr r \<and> m_free r' = [] \<and> m_minNewSlotNr r' = add64 (m_minNewSlotNr r) 1
      else s = last (m_free r) \<and> m_free r' = butlast (m_free r) \<and> m_minNewSlotNr r' = m_minNewSlotNr r)"
  by (auto simp: memreg_add_def bindE_simps Let_def split: if_splits)

lemma memreg_remove_numbering:
  "memreg_remove r s = Inr r' \<Longrightarrow>
     (if s = sub64 (m_minNewSlotNr r) 1 then m_free r' = m_free r \<and> m_minNewSlotNr r' = sub64 (m_minNewSlotNr r) 1
      else m_free r' = m_free r @ [s] \<and> m_minNewSlotNr r' = m_minNewSlotNr r)"
  by (auto simp: memreg_remove_def bindE_simps Let_def split: if_splits)

lemma memreg_run_numbering:
  "memreg_run r ops = Inr (ss, r') \<Longrightarrow> ss = numbering (m_free r) (m_minNewSlotNr r) (call_order ops)"
proof (induction r ops arbitrary: ss rule: memreg_run.induct)
  case (2 r x ops)
  from "2.prems" obtain s r1 ss1 where a: "memreg_add r x = Inr (s, r1)"
    and rn: "memreg_run r1 ops = Inr (ss1, r')" and ss: "ss = s # ss1"
    by (auto simp: bindE_simps)
  from "2.IH" [OF rn] have "ss1 = numbering (m_free r1) (m_minNewSlotNr r1) (call_order ops)" by simp
  then show ?case using memreg_add_numbering [OF a] ss by (auto split: if_splits)
next
  case (3 r s ops)
  from "3.prems" obtain r1 where a: "memreg_remove r s = Inr r1" and rn: "memreg_run r1 ops = Inr (ss, r')"
    by (auto simp: bindE_simps)
  from "3.IH" [OF rn] show ?case using memreg_remove_numbering [OF a] by (auto split: if_splits)
next
  case (4 r ok mx d0 n d ops)
  then show ?case using memreg_reserve_frame [of ok mx d0 r n d] by (cases "memreg_reserve ok mx d0 r n d") auto
qed simp

section \<open>Properties\<close>

text \<open>A small register for the witnesses: two local and two global slots, none in use.\<close>

definition demo_register :: "nat combined" where
  "demo_register =
     \<lparr>m_local = \<lparr>m_slots = [0, 0], m_free = [], m_free_capacity = 2, m_minNewSlotNr = 0\<rparr>,
      m_global = \<lparr>m_slots = [0, 0], m_free = [], m_free_capacity = 2, m_minNewSlotNr = 0\<rparr>\<rparr>"

lemma demo_register_ok:
  "combined_inv demo_register" "room_local demo_register" "room_global demo_register"
  by (simp_all add: demo_register_def combined_inv_def memreg_inv_def room_local_def room_global_def
      memreg_room_def memreg_live_def memreg_capacity_def free_max_size_def)

lemma demo_register_live: "combined_live demo_register = {}"
  by (simp add: demo_register_def combined_live_def memreg_live_def)

text \<open>
  C33: With reserved room, registering one local and one global area trips no assertion, returns
  an odd and an even slot that were not in use, makes exactly these two live, stores the two
  records, and leaves the record of every other slot alone.
\<close>

theorem combined_add_correct:
  assumes "combined_inv c" and "room_local c" and "room_global c"
  shows "\<exists>s c1 t c2. addLocalReg c r = Inr (s, c1) \<and> addGlobalReg c1 q = Inr (t, c2) \<and>
    isLocalSlot s \<and> \<not> isLocalSlot t \<and> s \<notin> combined_live c \<and> t \<notin> combined_live c \<and>
    combined_inv c2 \<and> combined_live c2 = insert t (insert s (combined_live c)) \<and>
    combined_lookup c2 s = Inr r \<and> combined_lookup c2 t = Inr q \<and>
    (\<forall>u \<in> combined_live c. combined_lookup c2 u = combined_lookup c u)"
proof -
  obtain s c1 where a: "addLocalReg c r = Inr (s, c1)" "combined_inv c1"
    "combined_live c1 = insert s (combined_live c)" "s \<notin> combined_live c"
    "combined_lookup c1 s = Inr r" "\<forall>u \<in> combined_live c. combined_lookup c1 u = combined_lookup c u"
    using local_reg.add_obtain [OF assms(1,2), of r] by metis
  have ro: "room_global c1" using assms(3) addLocalReg_frame [OF a(1)] by (simp add: room_global_def)
  obtain t c2 where b: "addGlobalReg c1 q = Inr (t, c2)" "combined_inv c2"
    "combined_live c2 = insert t (combined_live c1)" "t \<notin> combined_live c1"
    "combined_lookup c2 t = Inr q" "\<forall>u \<in> combined_live c1. combined_lookup c2 u = combined_lookup c1 u"
    using global_reg.add_obtain [OF a(2) ro, of q] by metis
  show ?thesis
    using a b addLocalReg_parity [OF assms(1,2) a(1)] addGlobalReg_parity [OF a(2) ro b(1)] by auto
qed

theorem combined_add_correct_witness:
  "\<exists>s c1 t c2. addLocalReg demo_register 5 = Inr (s, c1) \<and> addGlobalReg c1 6 = Inr (t, c2) \<and>
     combined_lookup c2 s = Inr 5 \<and> combined_lookup c2 t = Inr 6 \<and> combined_live c2 = {t, s}"
  using combined_add_correct [OF demo_register_ok, of 5 6] demo_register_live by auto

text \<open>
  Removing a live slot trips no assertion, makes exactly that slot free, and keeps the records
  of all the others; an update of a live slot changes its record and no other.
\<close>

theorem combined_remove_update_correct:
  assumes "combined_inv c" and "s \<in> combined_live c"
  shows "\<exists>c1 r c2. removeReg c s = Inr c1 \<and> combined_inv c1 \<and> combined_live c1 = combined_live c - {s} \<and>
    (\<forall>t \<in> combined_live c - {s}. combined_lookup c1 t = combined_lookup c t) \<and>
    combined_lookup c s = Inr r \<and> combined_update c s f = Inr c2 \<and> combined_inv c2 \<and>
    combined_live c2 = combined_live c \<and> combined_lookup c2 s = Inr (f r) \<and>
    (\<forall>t \<in> combined_live c - {s}. combined_lookup c2 t = combined_lookup c t)"
proof -
  obtain c1 where a: "removeReg c s = Inr c1" "combined_inv c1" "combined_live c1 = combined_live c - {s}"
    "\<forall>t \<in> combined_live c1. combined_lookup c1 t = combined_lookup c t"
    using removeReg_spec [OF assms] by metis
  obtain r where r: "combined_lookup c s = Inr r" using local_reg.lookup_total [OF assms] by blast
  show ?thesis using a r local_reg.update_spec [OF assms r, of f] by auto
qed

theorem combined_remove_update_correct_witness:
  "\<exists>s c1 c2. addLocalReg demo_register 5 = Inr (s, c1) \<and> removeReg c1 s = Inr c2 \<and> combined_live c2 = {}"
proof -
  obtain s c1 where a: "addLocalReg demo_register 5 = Inr (s, c1)" "combined_inv c1" "combined_live c1 = {s}"
    using local_reg.add_obtain [OF demo_register_ok(1,2), of 5] demo_register_live by metis
  have "s \<in> combined_live c1" using a(3) by simp
  from combined_remove_update_correct [OF a(2) this, of id] show ?thesis using a by auto
qed

text \<open>
  C34: Slots are globally consistent: two processes that start from registers with the same free
  list and counter, and make the same sequence of \<open>add\<close> and \<open>remove\<close>, are dealt
  the same slots, whatever records they store and whatever calls to \<open>reserve\<close>, successful or
  failed, they mix in between.
\<close>

theorem memreg_slots_consistent:
  assumes "m_free r1 = m_free r2" and "m_minNewSlotNr r1 = m_minNewSlotNr r2"
    and "call_order ops1 = call_order ops2"
    and "memreg_run r1 ops1 = Inr (ss1, r1')" and "memreg_run r2 ops2 = Inr (ss2, r2')"
  shows "ss1 = ss2"
  using memreg_run_numbering [OF assms(4)] memreg_run_numbering [OF assms(5)] assms(1-3) by simp

theorem memreg_slots_consistent_witness:
  "\<exists>r1' r2'. memreg_run \<lparr>m_slots = [0, 0], m_free = [], m_free_capacity = 2, m_minNewSlotNr = 0\<rparr>
      [AddOp (7::nat), AddOp 8, RemoveOp 0, AddOp 9] = Inr ([0, 1, 0], r1') \<and>
   memreg_run \<lparr>m_slots = [], m_free = [], m_free_capacity = 0, m_minNewSlotNr = 0\<rparr>
      [ReserveOp (\<lambda>_. True) 100 0 2 0, AddOp (1::nat), AddOp 2, ReserveOp (\<lambda>_. False) 100 0 9 0, RemoveOp 0, AddOp 3]
     = Inr ([0, 1, 0], r2')"
proof -
  let ?r1 = "\<lparr>m_slots = [0, 0], m_free = [], m_free_capacity = 2, m_minNewSlotNr = 0\<rparr> :: nat memreg"
  let ?r2 = "\<lparr>m_slots = [], m_free = [], m_free_capacity = 0, m_minNewSlotNr = 0\<rparr> :: nat memreg"
  let ?o1 = "[AddOp (7::nat), AddOp 8, RemoveOp 0, AddOp 9]"
  let ?o2 = "[ReserveOp (\<lambda>_. True) 100 0 2 0, AddOp (1::nat), AddOp 2, ReserveOp (\<lambda>_. False) 100 0 9 0, RemoveOp 0, AddOp 3]"
  have a: "memreg_run ?r1 ?o1 = Inr ([0, 1, 0],
      \<lparr>m_slots = [9, 8], m_free = [], m_free_capacity = 2, m_minNewSlotNr = 2\<rparr>)" (is "_ = Inr (_, ?a)")
    by (simp add: memreg_add_def memreg_remove_def add64_def sub64_def)
  have g: "memreg_reserve (\<lambda>_. True) 100 0 ?r2 2 0 =
      (\<lparr>m_slots = [0, 0], m_free = [], m_free_capacity = 2, m_minNewSlotNr = 0\<rparr>, None)"
    by (simp add: memreg_reserve_def free_max_size_def vec_resize_def numeral_2_eq_2)
  have f: "memreg_reserve (\<lambda>_. False) 100 0 r 9 0 = (r, Some BadAlloc)" if "length (m_slots r) = 2"
    for r :: "nat memreg"
    using that by (simp add: memreg_reserve_def)
  have b: "memreg_run ?r2 ?o2 = Inr ([0, 1, 0],
      \<lparr>m_slots = [3, 2], m_free = [], m_free_capacity = 2, m_minNewSlotNr = 2\<rparr>)" (is "_ = Inr (?ss, ?b)")
    by (simp add: g f memreg_add_def memreg_remove_def add64_def sub64_def)
  have "[0, 1, 0] = ?ss" by (rule memreg_slots_consistent [OF _ _ _ a b]) simp_all
  then show ?thesis using a b by blast
qed

text \<open>
  \<open>CombinedMemoryRegister::reserve\<close> keeps the invariant, the live slots and their records
  on every outcome; when it returns there is room for the requested number of slots
  of either kind, and when it throws, the exception is \<open>bad_alloc\<close> and the capacity has not
  shrunk below the old one.
\<close>

theorem combined_reserve_safe:
  assumes "combined_inv c" and "combined_reserve ok mx d0 c n d = (c', e)"
  shows "combined_inv c' \<and> combined_live c' = combined_live c \<and>
    (\<forall>s \<in> combined_live c. combined_lookup c' s = combined_lookup c s) \<and>
    (e = None \<longrightarrow> n \<le> combined_capacity c') \<and>
    (e \<noteq> None \<longrightarrow> e = Some BadAlloc \<and> combined_capacity c' \<ge> min n (combined_capacity c))"
  by (rule combined_reserve_spec [OF assms])

theorem combined_reserve_safe_witness:
  "combined_inv (fst (combined_reserve (\<lambda>k. k = 0) 100 0 demo_register 9 0)) \<and>
   snd (combined_reserve (\<lambda>k. k = 0) 100 0 demo_register 9 0) = Some BadAlloc"
proof -
  have e: "snd (combined_reserve (\<lambda>k. k = 0) 100 0 demo_register 9 0) = Some BadAlloc"
    by (simp add: combined_reserve_def memreg_reserve_def demo_register_def free_max_size_def)
  show ?thesis
    using combined_reserve_safe [OF demo_register_ok(1) prod.collapse [symmetric]] e by blast
qed

end
