(* ===== verification/Config.thy ===== *)
theory Config imports Prelude begin

text \<open>
  The configuration of \<open>src/common/config.cpp\<close>: every getter reads an environment
  variable, parses it with a string stream, and falls back to a default or throws \<open>ReadError\<close>.
  The environment is the function \<open>env\<close>.  Extraction of integers from a stream follows
  \<open>std::num_get\<close>: white space is skipped, a sign and decimal digits are consumed, whatever follows is left
  in the stream, a value out of range sets the fail bit, and a minus sign in front of a number
  of unsigned type wraps around.  The text of a floating point number is parsed by a parameter.
\<close>

type_synonym environment = "string \<Rightarrow> string option"

section \<open>Extraction from a string stream\<close>

definition is_space_char :: "char \<Rightarrow> bool" where
  "is_space_char c \<longleftrightarrow> of_char c = (32 :: nat) \<or> 9 \<le> (of_char c :: nat) \<and> (of_char c :: nat) \<le> 13"

definition is_digit_char :: "char \<Rightarrow> bool" where
  "is_digit_char c \<longleftrightarrow> 48 \<le> (of_char c :: nat) \<and> (of_char c :: nat) \<le> 57"

definition digits_to_nat :: "string \<Rightarrow> nat" where
  "digits_to_nat ds = foldl (\<lambda>a c. 10 * a + (of_char c - 48)) 0 ds"

text \<open>The sign, the digits and the rest; \<open>None\<close> when there is no digit.\<close>

definition scan_number :: "string \<Rightarrow> (bool \<times> nat \<times> string) option" where
  "scan_number cs =
     (let cs1 = dropWhile is_space_char cs;
          neg = (cs1 \<noteq> [] \<and> hd cs1 = CHR ''-'');
          cs2 = (if cs1 \<noteq> [] \<and> (hd cs1 = CHR ''-'' \<or> hd cs1 = CHR ''+'') then tl cs1 else cs1);
          ds = takeWhile is_digit_char cs2
      in if ds = [] then None else Some (neg, digits_to_nat ds, dropWhile is_digit_char cs2))"

definition extract_int :: "string \<Rightarrow> (int \<times> string) option" where
  "extract_int cs =
     (case scan_number cs of
        None \<Rightarrow> None
      | Some (neg, n, r) \<Rightarrow>
          let v = (if neg then - int n else int n) in
          if - (2 ^ 31) \<le> v \<and> v < 2 ^ 31 then Some (v, r) else None)"

definition extract_unsigned :: "nat \<Rightarrow> string \<Rightarrow> (nat \<times> string) option" where
  "extract_unsigned w cs =
     (case scan_number cs of
        None \<Rightarrow> None
      | Some (neg, n, r) \<Rightarrow>
          if n < 2 ^ w then Some (if neg then (2 ^ w - n) mod 2 ^ w else n, r) else None)"

section \<open>Config\<close>

definition ReadError :: "string \<Rightarrow> fault" where
  "ReadError message = ErrorThrown (''Cannot read configuration: '' @ message)"

datatype SpinMode = SPIN_FAST | SPIN_PAUSE | SPIN_YIELD | SPIN_COND

definition getSpinMode :: "environment \<Rightarrow> fault + SpinMode" where
  "getSpinMode env =
     (let spinMode = (case env ''LPF_SPIN_MODE'' of None \<Rightarrow> ''FAST'' | Some s \<Rightarrow> s) in
      if spinMode = ''FAST'' then Inr SPIN_FAST
      else if spinMode = ''PAUSE'' then Inr SPIN_PAUSE
      else if spinMode = ''YIELD'' then Inr SPIN_YIELD
      else if spinMode = ''COND'' then Inr SPIN_COND
      else Inl (ReadError ''LPF_SPIN_MODE environment variable may only be FAST, PAUSE, YIELD, or COND''))"

text \<open>\<open>sysconf\<close> is a parameter, narrowed to the 32 bits of \<open>lpf_pid_t\<close>.\<close>

definition getSysProcs :: "int \<Rightarrow> nat" where
  "getSysProcs nprocessors_onln = nat (nprocessors_onln mod 2 ^ 32)"

text \<open>\<open>sysinfo\<close> (Linux): the return code and the two fields that are read.\<close>

definition getLocalRamSize :: "int \<times> nat \<times> nat \<Rightarrow> fault + nat" where
  "getLocalRamSize info =
     (case info of (rc, totalram, mem_unit) \<Rightarrow>
        if rc \<noteq> 0 then Inl (ReadError ''Linux system call to 'sysinfo' returned -1'')
        else if totalram > SIZE_MAX div mem_unit then Inl (ReadError ''Too much memory to handle'')
        else Inr (mul64 totalram mem_unit))"

definition getMaxProcs :: "environment \<Rightarrow> fault + nat" where
  "getMaxProcs env =
     (case env ''LPF_MAX_PROCS'' of
        Some s \<Rightarrow>
          if length s > 0 then
            (case extract_unsigned 32 s of
               None \<Rightarrow> Inl (ReadError ''LPF_MAX_PROCS environment variable was malformed'')
             | Some (p, _) \<Rightarrow> Inr p)
          else Inr 0
      | None \<Rightarrow> Inr 0)"

definition getPinBitmap :: "environment \<Rightarrow> string" where
  "getPinBitmap env = (case env ''LPF_PROC_PINNING'' of Some s \<Rightarrow> s | None \<Rightarrow> '''')"

text \<open>\<open>parse\<close> is the extraction of a \<open>double\<close>, \<open>one\<close> the value \<open>1.0\<close>.\<close>

definition getMaxSecondsForProbe :: "(string \<Rightarrow> 'd option) \<Rightarrow> 'd \<Rightarrow> environment \<Rightarrow> fault + 'd" where
  "getMaxSecondsForProbe parse one env =
     (case env ''LPF_MAX_SECONDS_FOR_PROBE'' of
        Some s \<Rightarrow>
          (case parse s of
             None \<Rightarrow> Inl (ReadError ''LPF_MAX_SECONDS_FOR_PROBE environment variable was malformed. It must be a floating point number'')
           | Some d \<Rightarrow> Inr d)
      | None \<Rightarrow> Inr one)"

definition getLogLevel :: "environment \<Rightarrow> fault + int" where
  "getLogLevel env =
     (case env ''LPF_LOG_LEVEL'' of
        Some s \<Rightarrow>
          (case extract_int s of
             None \<Rightarrow> Inl (ReadError ''LPF_LOG_LEVEL must be unset or set to an integer'')
           | Some (level, _) \<Rightarrow> Inr level)
      | None \<Rightarrow> Inr 0)"

definition getBSPlibSafetyMode :: "environment \<Rightarrow> fault + int" where
  "getBSPlibSafetyMode env =
     (case env ''LPF_BSPLIB_SAFETY_MODE'' of
        Some s \<Rightarrow>
          (case extract_int s of
             None \<Rightarrow> Inl (ReadError ''LPF_BSPLIB_SAFETY_MODE must be 1 or 0'')
           | Some (safemode, _) \<Rightarrow> Inr safemode)
      | None \<Rightarrow> Inr 1)"

definition getBSPlibMaxHpRegs :: "environment \<Rightarrow> fault + nat" where
  "getBSPlibMaxHpRegs env =
     (case env ''LPF_BSPLIB_MAX_HP_REGS'' of
        Some s \<Rightarrow>
          (case extract_unsigned 64 s of
             None \<Rightarrow> Inl (ReadError ''LPF_BSPLIB_MAX_HP_REGS must be an unsigned integer or not defined at all'')
           | Some (maxHpRegs, _) \<Rightarrow> Inr maxHpRegs)
      | None \<Rightarrow> Inr SIZE_MAX)"

definition getEngine :: "environment \<Rightarrow> string" where
  "getEngine env = (case env ''LPF_ENGINE'' of Some s \<Rightarrow> s | None \<Rightarrow> '''')"

datatype A2AMode = A2A_DENSE | A2A_SPARSE | A2A_HOEFLER

definition getA2AMode :: "environment \<Rightarrow> fault + A2AMode" where
  "getA2AMode env =
     (let a2aMode = (case env ''LPF_A2A_MODE'' of None \<Rightarrow> ''SPARSE'' | Some s \<Rightarrow> s) in
      if a2aMode = ''SPARSE'' then Inr A2A_SPARSE
      else if a2aMode = ''DENSE'' then Inr A2A_DENSE
      else if a2aMode = ''HOEFLER'' then Inr A2A_HOEFLER
      else Inl (ReadError ''LPF_A2A_MODE environment variable may only be DENSE, SPARSE, or HOEFLER''))"

record TinyMsgSize =
  sizeForSharedMem :: nat
  sizeForMPI :: nat

definition getTinyMsgSize :: "environment \<Rightarrow> fault + TinyMsgSize" where
  "getTinyMsgSize env =
     (case env ''LPF_TINY_MSG_SIZE'' of
        Some s \<Rightarrow>
          (let err = ReadError ''LPF_TINY_MSG_SIZE must be a sequence of two unsigned integers or not defined at all'' in
           case extract_unsigned 64 s of
             None \<Rightarrow> Inl err
           | Some (a, r) \<Rightarrow>
               (case extract_unsigned 64 r of
                  None \<Rightarrow> Inl err
                | Some (b, _) \<Rightarrow> Inr \<lparr>sizeForSharedMem = a, sizeForMPI = b\<rparr>))
      | None \<Rightarrow> Inr \<lparr>sizeForSharedMem = 16, sizeForMPI = 128\<rparr>)"

text \<open>The loop of \<open>log2\<close>, with \<open>y\<close> the number of shifts so far, less one.\<close>

fun log2_loop :: "nat \<Rightarrow> int \<Rightarrow> int" where
  "log2_loop x y = (if x = 0 then y else log2_loop (x div 2) (y + 1))"

declare log2_loop.simps [simp del]

definition log2 :: "nat \<Rightarrow> int" where
  "log2 x = log2_loop x (- 1)"

definition getMpiMsgSortGrainSizePower :: "environment \<Rightarrow> fault + int" where
  "getMpiMsgSortGrainSizePower env =
     (case env ''LPF_WRITE_CONFLICT_BLOCK_SIZE'' of
        Some s \<Rightarrow>
          (let err = ReadError ''LPF_WRITE_CONFLICT_BLOCK_SIZE must be an unsigned integer equal to a power of two or not defined at all'' in
           case extract_unsigned 64 s of
             None \<Rightarrow> Inl err
           | Some (blockSize, _) \<Rightarrow>
               if log2 blockSize < 0 \<or> 2 ^ nat (log2 blockSize) \<noteq> blockSize then Inl err
               else Inr (log2 blockSize))
      | None \<Rightarrow> Inr (log2 1024))"

definition getMaxMPIMsgSize :: "environment \<Rightarrow> fault + nat" where
  "getMaxMPIMsgSize env =
     (case env ''LPF_MPI_MAX_MSG_SIZE'' of
        Some s \<Rightarrow>
          (let err = ReadError ''LPF_MPI_MAX_MSG_SIZE must be a positive integer of at least one'' in
           case extract_int s of
             None \<Rightarrow> Inl err
           | Some (maxMsgSize, _) \<Rightarrow> if maxMsgSize < 1 then Inl err else Inr (nat maxMsgSize))
      | None \<Rightarrow> Inr 2147483647)"

definition getIBDeviceName :: "environment \<Rightarrow> string" where
  "getIBDeviceName env = (case env ''LPF_INFINIBAND_DEVICE_NAME'' of Some s \<Rightarrow> s | None \<Rightarrow> '''')"

definition getIBPort :: "environment \<Rightarrow> fault + int" where
  "getIBPort env =
     (case env ''LPF_INFINIBAND_PORT'' of
        Some s \<Rightarrow>
          (let err = ReadError ''LPF_INFINIBAND_PORT must be a positive integer'' in
           case extract_int s of
             None \<Rightarrow> Inl err
           | Some (port, _) \<Rightarrow> if port < 1 then Inl err else Inr port)
      | None \<Rightarrow> Inr 1)"

definition getIBGidIndex :: "environment \<Rightarrow> fault + int" where
  "getIBGidIndex env =
     (case env ''LPF_INFINIBAND_GID_INDEX'' of
        Some s \<Rightarrow>
          (case extract_int s of
             None \<Rightarrow> Inl (ReadError ''LPF_INFINIBAND_GID_INDEX must be an integer'')
           | Some (idx, _) \<Rightarrow> Inr idx)
      | None \<Rightarrow> Inr (- 1))"

definition getIBMTU :: "environment \<Rightarrow> fault + nat" where
  "getIBMTU env =
     (case env ''LPF_INFINIBAND_MTU_SIZE'' of
        Some s \<Rightarrow>
          (case extract_unsigned 32 s of
             None \<Rightarrow> Inl (ReadError ''LPF_INFINIBAND_MTU_SIZE must be 256, 512, 1024, 2048, or 4096'')
           | Some (mtu, _) \<Rightarrow> Inr mtu)
      | None \<Rightarrow> Inr 4096)"

section \<open>Lemmas\<close>

lemma log2_loop_spec:
  "0 < x \<Longrightarrow> \<exists>k. log2_loop x y = y + 1 + int k \<and> 2 ^ k \<le> x \<and> x < 2 ^ (k + 1)"
proof (induction x y rule: log2_loop.induct)
  case (1 x y)
  show ?case
  proof (cases "x div 2 = 0")
    case True
    then have "x = 1" using "1.prems" by simp
    then show ?thesis by (intro exI [of _ 0]) (simp add: log2_loop.simps)
  next
    case False
    then obtain k where k: "log2_loop (x div 2) (y + 1) = y + 1 + 1 + int k" "2 ^ k \<le> x div 2" "x div 2 < 2 ^ (k + 1)"
      using 1 by auto
    have "log2_loop x y = y + 1 + int (k + 1)" using k(1) "1.prems" by (simp add: log2_loop.simps [of x y])
    moreover have "2 ^ (k + 1) \<le> x" "x < 2 ^ (k + 1 + 1)" using k(2,3) by simp_all
    ultimately show ?thesis by blast
  qed
qed

lemma log2_spec:
  assumes "0 < x"
  obtains k where "log2 x = int k" and "2 ^ k \<le> x" and "x < 2 ^ (k + 1)"
  using log2_loop_spec [OF assms, of "- 1"] by (auto simp: log2_def)

lemma log2_0: "log2 0 = - 1"
  by (simp add: log2_def log2_loop.simps)

lemma log2_power: "log2 (2 ^ k) = int k"
proof -
  obtain j where j: "log2 (2 ^ k) = int j" "2 ^ j \<le> (2 :: nat) ^ k" "(2 :: nat) ^ k < 2 ^ (j + 1)"
    using log2_spec [of "2 ^ k"] by auto
  have "j \<le> k" using j(2) by simp
  moreover have "k < j + 1" using j(3) power_strict_increasing_iff [of "2 :: nat" k "j + 1"] by simp
  ultimately show ?thesis using j(1) by simp
qed

lemma scan_number_digits:
  assumes "ds \<noteq> []" and "\<forall>c \<in> set ds. is_digit_char c" and "r = [] \<or> \<not> is_digit_char (hd r)"
  shows "scan_number (ds @ r) = Some (False, digits_to_nat ds, r)"
    and "scan_number (CHR ''-'' # ds @ r) = Some (True, digits_to_nat ds, r)"
proof -
  obtain c cs where ds: "ds = c # cs" using assms(1) by (cases ds) auto
  have c: "is_digit_char c" using assms(2) ds by simp
  then have ne: "\<not> is_space_char c" "c \<noteq> CHR ''-''" "c \<noteq> CHR ''+''"
    by (auto simp: is_digit_char_def is_space_char_def)
  have tw: "takeWhile is_digit_char (ds @ r) = ds" "dropWhile is_digit_char (ds @ r) = r"
    using assms(2,3) by (cases r; auto simp: takeWhile_append dropWhile_append takeWhile_eq_all_conv)+
  have sp: "\<not> is_space_char (CHR ''-'')" by (simp add: is_space_char_def)
  show "scan_number (ds @ r) = Some (False, digits_to_nat ds, r)"
    using ne tw assms(1) unfolding ds by (simp add: scan_number_def Let_def)
  show "scan_number (CHR ''-'' # ds @ r) = Some (True, digits_to_nat ds, r)"
    using sp tw assms(1) unfolding ds by (simp add: scan_number_def Let_def)
qed

section \<open>Properties\<close>

text \<open>
  The grain of message sorting is a power of two: unset, it is 1024 bytes (power 10); set to
  a number, the getter returns \<open>k\<close> exactly when the number is \<open>2 ^ k\<close>, and throws for every other
  number and for text that is no number.
\<close>

theorem grain_power_correct:
  "case env ''LPF_WRITE_CONFLICT_BLOCK_SIZE'' of
     None \<Rightarrow> getMpiMsgSortGrainSizePower env = Inr 10
   | Some s \<Rightarrow>
       (case extract_unsigned 64 s of
          None \<Rightarrow> isl (getMpiMsgSortGrainSizePower env)
        | Some (b, r) \<Rightarrow>
            if \<exists>k. b = 2 ^ k then \<exists>k. b = 2 ^ k \<and> getMpiMsgSortGrainSizePower env = Inr (int k)
            else isl (getMpiMsgSortGrainSizePower env))"
proof -
  have ten: "log2 1024 = 10" using log2_power [of 10] by simp
  have out: "log2 b < 0 \<or> 2 ^ nat (log2 b) \<noteq> b" if "\<forall>k. b \<noteq> 2 ^ k" for b
    using that by metis
  show ?thesis
    using ten out log2_power
    by (auto simp: getMpiMsgSortGrainSizePower_def Let_def split: option.splits)
qed

text \<open>
  Settings are checked less than their messages say: \<open>LPF_BSPLIB_SAFETY_MODE\<close> ("must be 1 or
  0") and \<open>LPF_INFINIBAND_MTU_SIZE\<close> ("must be 256, 512, 1024, 2048, or 4096") take any
  number that fits, text after the number is ignored, and \<open>LPF_MAX_PROCS\<close> turns a negative number into a
  huge one.
\<close>

theorem settings_unchecked:
  assumes "ds \<noteq> []" and "\<forall>c \<in> set ds. is_digit_char c" and "r = [] \<or> \<not> is_digit_char (hd r)"
    and "n = digits_to_nat ds" and "0 < n" and "n < 2 ^ 31"
  shows "getBSPlibSafetyMode [''LPF_BSPLIB_SAFETY_MODE'' \<mapsto> ds @ r] = Inr (int n) \<and>
    getIBMTU [''LPF_INFINIBAND_MTU_SIZE'' \<mapsto> ds @ r] = Inr n \<and>
    getMaxProcs [''LPF_MAX_PROCS'' \<mapsto> CHR ''-'' # ds @ r] = Inr (2 ^ 32 - n)"
  using assms(4-6) scan_number_digits [OF assms(1-3)]
  by (simp add: getBSPlibSafetyMode_def getIBMTU_def getMaxProcs_def extract_int_def extract_unsigned_def)

theorem settings_unchecked_witness:
  "getMaxProcs [''LPF_MAX_PROCS'' \<mapsto> ''-1''] = Inr 4294967295 \<and>
   getIBMTU [''LPF_INFINIBAND_MTU_SIZE'' \<mapsto> ''7 bytes''] = Inr 7"
  using settings_unchecked [of "''1''" "[]" 1] settings_unchecked [of "''7''" "'' bytes''" 7]
  by (simp add: is_digit_char_def digits_to_nat_def)

end
