(* ===== verification/Ibverbs.thy ===== *)
theory Ibverbs imports External Memreg Config begin

text \<open>
  The object of \<open>src/MPI/ibverbs.cpp\<close>, class \<open>IBVerbs\<close>: its state, its construction, the queue pairs
  and the registration of memory.  The transfers are in \<open>Ibverbs_Rma\<close> and the progress engine and
  \<open>sync\<close> in \<open>Ibverbs_Progress\<close>.  Handles of verbs objects are numbers; \<open>None\<close> is a null pointer.
\<close>

section \<open>State\<close>

record mem_slot =
  slot_mr :: "ibv_mr option"
  glob :: "mem_registration list"

record sync_request =
  isActive :: bool
  withBarrier :: bool
  sr_remoteMsgs :: int
  sr_task :: "task option"
  secondPhase :: bool

datatype ibv_mtu = IBV_MTU_256 | IBV_MTU_512 | IBV_MTU_1024 | IBV_MTU_2048 | IBV_MTU_4096

text \<open>Of \<open>m_deviceAttr\<close> only \<open>max_mr\<close> is used after the construction.\<close>

record ibverbs =
  syncRequest :: sync_request
  pollingFrequency :: nat
  m_pid :: nat
  m_nprocs :: nat
  m_devName :: string
  m_ibPort :: int
  m_gidIdx :: int
  m_lid :: nat
  m_mtu :: ibv_mtu
  m_max_mr :: int
  m_maxRegSize :: nat
  m_maxMsgSize :: nat
  m_minNrMsgs :: nat
  m_maxSrs :: nat
  m_cqLocal :: "nat option"
  m_cqRemote :: "nat option"
  m_srq :: "nat option"
  m_stagedQps :: "nat option list"
  m_connectedQps :: "nat option list"
  m_numMsgs :: int
  m_numMsgsSync :: "int list"
  m_stopProgress :: bool
  m_postCount :: nat
  m_cqSize :: nat
  m_sync_cached :: bool
  m_sync_cached_value :: int
  m_sync_counter :: "32 word"
  m_recvCounts :: "int list"
  m_blockRequest :: bool
  m_blockTask :: "task option"
  m_memreg :: "mem_slot combined"
  m_dummyMemReg :: "ibv_mr option"

type_synonym 'a verbs = "(ibverbs, 'a) ext"

definition Exception :: "string \<Rightarrow> fault" where
  "Exception what = ErrorThrown what"

lemma is_exception_Exception [simp]: "is_exception (Exception what)"
  by (simp add: Exception_def)

section \<open>Construction\<close>

definition getMTU :: "nat \<Rightarrow> fault + ibv_mtu" where
  "getMTU sz =
     (if sz = 256 then Inr IBV_MTU_256
      else if sz = 512 then Inr IBV_MTU_512
      else if sz = 1024 then Inr IBV_MTU_1024
      else if sz = 2048 then Inr IBV_MTU_2048
      else if sz = 4096 then Inr IBV_MTU_4096
      else Inl (Exception ''Illegal MTU size''))"

text \<open>\<open>atoi\<close>: no digits give 0.  \<open>pollingFrequency\<close> is a \<open>uint32_t\<close>.\<close>

definition atoi :: "string \<Rightarrow> int" where
  "atoi s = (case scan_number s of None \<Rightarrow> 0 | Some (neg, n, _) \<Rightarrow> if neg then - int n else int n)"

definition getEnvPollingFrequency :: "environment \<Rightarrow> nat" where
  "getEnvPollingFrequency env =
     (case env ''TALPF_POLLING_FREQUENCY'' of Some s \<Rightarrow> nat (atoi s mod 2 ^ 32) | None \<Rightarrow> 500)"

text \<open>The member initialisers; what the constructor sets later has the value of its initialiser.\<close>

definition ibverbs_init :: "nat \<Rightarrow> nat \<Rightarrow> int \<Rightarrow> int \<Rightarrow> ibv_mtu \<Rightarrow> ibverbs" where
  "ibverbs_init pid nprocs ibPort gidIdx mtu =
     \<lparr>syncRequest = \<lparr>isActive = False, withBarrier = False, sr_remoteMsgs = 0, sr_task = None,
        secondPhase = False\<rparr>,
      pollingFrequency = 0, m_pid = pid, m_nprocs = nprocs, m_devName = [], m_ibPort = ibPort,
      m_gidIdx = gidIdx, m_lid = 0, m_mtu = mtu, m_max_mr = 0, m_maxRegSize = 0, m_maxMsgSize = 0,
      m_minNrMsgs = 0, m_maxSrs = 0, m_cqLocal = None, m_cqRemote = None, m_srq = None,
      m_stagedQps = replicate nprocs None, m_connectedQps = replicate nprocs None,
      m_numMsgs = 0, m_numMsgsSync = [], m_stopProgress = False, m_postCount = 0, m_cqSize = 1,
      m_sync_cached = False, m_sync_cached_value = 0, m_sync_counter = 0, m_recvCounts = [],
      m_blockRequest = False, m_blockTask = None, m_memreg = combined_empty, m_dummyMemReg = None\<rparr>"

text \<open>The loop over the device list: the first device, or the first one with the wanted name.\<close>

fun find_device :: "string \<Rightarrow> string list \<Rightarrow> nat \<Rightarrow> (nat \<times> string) option" where
  "find_device wantDevName [] i = None"
| "find_device wantDevName (name # names) i =
     (if wantDevName = [] \<or> name = wantDevName then Some (i, name)
      else find_device wantDevName names (i + 1))"

text \<open>The conversion of an \<open>int\<close> to \<open>size_t\<close>.\<close>

definition size_of_int :: "int \<Rightarrow> nat" where
  "size_of_int i = nat (i mod 2 ^ 64)"

definition throw_if :: "bool \<Rightarrow> fault \<Rightarrow> ('s, unit) ext" where
  "throw_if b e = (if b then throwA e else retA ())"

lemma acts_throw_if [act_simps]:
  "acts (throw_if b e) s tr r s' \<longleftrightarrow> tr = [] \<and> r = (if b then Inl e else Inr ()) \<and> s' = s"
  by (simp add: throw_if_def act_simps)

lemma acts_bind_throw_if [act_simps]:
  "acts (bindA (throw_if b e) f) s tr r s' \<longleftrightarrow>
     (if b then tr = [] \<and> r = Inl e \<and> s' = s else acts (f ()) s tr r s')"
  by (simp add: throw_if_def act_simps)

definition open_device :: "string \<Rightarrow> unit verbs" where
  "open_device wantDevName =
     bindA (callA GetDeviceList) (\<lambda>l.
     bindA (throw_if (the_names l = None) (Exception ''failed to get IB devices list'')) (\<lambda>_.
     bindA (throw_if (the (the_names l) = []) (Exception ''No Infiniband devices available'')) (\<lambda>_.
     case find_device wantDevName (the (the_names l)) 0 of
       None \<Rightarrow> throwA (Exception ''Infiniband device not found'')
     | Some (i, name) \<Rightarrow>
         bindA (modA (\<lambda>s. s\<lparr>m_devName := name\<rparr>)) (\<lambda>_.
         bindA (callA (OpenDevice i)) (\<lambda>d.
         throw_if (the_handle d = None) (Exception ''Cannot open IB device''))))))"

text \<open>Reading the capabilities of the device and the port.\<close>

definition query_limits :: "fault + nat \<Rightarrow> unit verbs" where
  "query_limits sysRam =
     bindA (callA QueryDevice) (\<lambda>a.
     case the_device_attr a of
       None \<Rightarrow> throwA (Exception ''Cannot query device'')
     | Some (max_mr_size, max_qp_wr, max_cqe, max_mr) \<Rightarrow>
         bindA (modA (\<lambda>s. s\<lparr>m_maxRegSize := max_mr_size, m_max_mr := max_mr,
           m_maxSrs := min (size_of_int max_qp_wr) (size_of_int max_cqe)\<rparr>)) (\<lambda>_.
         bindA getA (\<lambda>s.
         bindA (throw_if (max_cqe < int (m_nprocs s))
           (Exception ''Completion queue has insufficient completion queue capabilities'')) (\<lambda>_.
         bindA (callA (QueryPort (m_ibPort s))) (\<lambda>p.
         case the_port_attr p of
           None \<Rightarrow> throwA (Exception ''Cannot query IB port'')
         | Some (max_msg_sz, portlid) \<Rightarrow>
             bindA (modA (\<lambda>s. s\<lparr>m_maxMsgSize := max_msg_sz\<rparr>)) (\<lambda>_.
             bindA (liftA (\<lambda>s. sysRam)) (\<lambda>ram.
             bindA (throw_if (max_msg_sz = 0) DivisionByZero) (\<lambda>_.
             modA (\<lambda>s. s\<lparr>m_minNrMsgs := ram div max_msg_sz, m_lid := portlid\<rparr>)))))))))"

definition ibverbs_setup :: "environment \<Rightarrow> fault + nat \<Rightarrow> unit verbs" where
  "ibverbs_setup env sysRam =
     bindA (open_device (getIBDeviceName env)) (\<lambda>_.
     bindA (query_limits sysRam) (\<lambda>_.
     bindA (callA AllocPd) (\<lambda>pd.
     bindA (throw_if (the_handle pd = None) (Exception ''Could not allocate protection domain'')) (\<lambda>_.
     bindA getA (\<lambda>s.
     bindA (callA (CreateCqLocal (m_cqSize s))) (\<lambda>cl.
     bindA (modA (\<lambda>s. s\<lparr>m_cqLocal := the_handle cl\<rparr>)) (\<lambda>_.
     bindA (throw_if (the_handle cl = None) (Exception ''Could not allocate completion queue'')) (\<lambda>_.
     bindA (callA (CreateCqRemote (mul64 (m_cqSize s) (m_nprocs s)))) (\<lambda>cr.
     bindA (modA (\<lambda>s. s\<lparr>m_cqRemote := the_handle cr\<rparr>)) (\<lambda>_.
     bindA (throw_if (the_handle cr = None) (Exception ''Could not allocate completion queue'')) (\<lambda>_.
     bindA (callA CreateSrq) (\<lambda>q.
     bindA (modA (\<lambda>s. s\<lparr>m_srq := the_handle q, m_numMsgs := 0,
       m_numMsgsSync := replicate (m_nprocs s) 0,
       syncRequest := (syncRequest s)\<lparr>isActive := False, withBarrier := False, sr_task := None,
         secondPhase := False\<rparr>\<rparr>)) (\<lambda>_.
     bindA (callA (GetRequest SyncRequestHandle)) (\<lambda>_.
     bindA (modA (\<lambda>s. s\<lparr>pollingFrequency := getEnvPollingFrequency env\<rparr>)) (\<lambda>_.
     bindA (callA TaskSpawn) (\<lambda>_.
     bindA (callA (RegDummy 8)) (\<lambda>d.
     modA (\<lambda>s. s\<lparr>m_dummyMemReg := the_mr d, m_recvCounts := replicate 1024 0\<rparr>))))))))))))))))))"

text \<open>
  The constructor: the initialisers read the configuration and may throw before there is an
  object; then the body runs.
\<close>

definition ibverbs_new ::
  "environment \<Rightarrow> fault + nat \<Rightarrow> nat \<Rightarrow> nat \<Rightarrow> (call, reply, (fault + unit) \<times> ibverbs option) prog" where
  "ibverbs_new env sysRam pid nprocs =
     (case bindE (getIBPort env) (\<lambda>port. bindE (getIBGidIndex env) (\<lambda>gid.
           bindE (getIBMTU env) (\<lambda>m. bindE (getMTU m) (\<lambda>mtu. Inr (port, gid, mtu))))) of
        Inl e \<Rightarrow> Ret (Inl e, None)
      | Inr (port, gid, mtu) \<Rightarrow>
          bindT (ibverbs_setup env sysRam (ibverbs_init pid nprocs port gid mtu))
            (\<lambda>(r, s). Ret (r, Some s)))"

section \<open>Queue pairs\<close>

definition qp_cap :: "nat \<Rightarrow> ibverbs \<Rightarrow> nat" where
  "qp_cap maxMsgs s = min (add64 maxMsgs (m_minNrMsgs s)) (m_maxSrs s div 4)"

definition stage_one :: "nat \<Rightarrow> nat \<Rightarrow> unit verbs" where
  "stage_one maxMsgs i =
     bindA getA (\<lambda>s.
     bindA (callA (CreateQp (qp_cap maxMsgs s))) (\<lambda>q.
     bindA (modA (\<lambda>s. s\<lparr>m_stagedQps := (m_stagedQps s)[i := the_handle q]\<rparr>)) (\<lambda>_.
     throw_if (the_handle q = None) BadAlloc)))"

definition stageQPs :: "nat \<Rightarrow> unit verbs" where
  "stageQPs maxMsgs = bindA getA (\<lambda>s. forA [0..<m_nprocs s] (stage_one maxMsgs))"

definition init_attr :: qp_attr where
  "init_attr = \<lparr>qp_state = QPS_INIT, dest_qp_num = 0, dlid = 0, dgid = [], is_global = False\<rparr>"

definition rtr_attr :: "ibverbs \<Rightarrow> nat \<Rightarrow> nat \<Rightarrow> nat list \<Rightarrow> qp_attr" where
  "rtr_attr s qpn lid gid =
     \<lparr>qp_state = QPS_RTR, dest_qp_num = qpn, dlid = lid,
      dgid = (if m_gidIdx s \<ge> 0 then gid else []), is_global = (m_gidIdx s \<ge> 0)\<rparr>"

definition rts_attr :: qp_attr where
  "rts_attr = \<lparr>qp_state = QPS_RTS, dest_qp_num = 0, dlid = 0, dgid = [], is_global = False\<rparr>"

definition modify_qp :: "nat \<Rightarrow> qp_attr \<Rightarrow> string \<Rightarrow> unit verbs" where
  "modify_qp q attr msg =
     bindA (callA (ModifyQp q attr)) (\<lambda>err. throw_if (the_err err \<noteq> 0) (Exception msg))"

text \<open>Dereferencing a queue pair.\<close>

definition staged_qp :: "nat \<Rightarrow> nat verbs" where
  "staged_qp i =
     liftA (\<lambda>s. case m_stagedQps s ! i of None \<Rightarrow> Inl NullDereference | Some q \<Rightarrow> Inr q)"

definition connect_one :: "nat list \<Rightarrow> nat list \<Rightarrow> nat list list \<Rightarrow> nat \<Rightarrow> unit verbs" where
  "connect_one remoteQpNums lids gids i =
     bindA (staged_qp i) (\<lambda>q.
     bindA (modify_qp q init_attr ''Failed to bring QP's state to Init'') (\<lambda>_.
     bindA getA (\<lambda>s.
     bindA (throw_if (m_dummyMemReg s = None) NullDereference) (\<lambda>_.
     bindA (modify_qp q (rtr_attr s (remoteQpNums ! i) (lids ! i) (gids ! i))
       ''Failed to bring QP's state to RTR'') (\<lambda>_.
     modify_qp q rts_attr ''Failed to bring QP's state to RTS'')))))"

text \<open>The first \<open>try\<close> block: the own GID and the numbers of the staged queue pairs.\<close>

fun qp_numbers :: "nat option list \<Rightarrow> fault + nat list" where
  "qp_numbers [] = Inr []"
| "qp_numbers (None # qs) = Inl NullDereference"
| "qp_numbers (Some q # qs) = bindE (qp_numbers qs) (\<lambda>ns. Inr (q # ns))"

definition local_qp_info :: "(nat list \<times> nat list) verbs" where
  "local_qp_info =
     bindA getA (\<lambda>s.
     bindA (if m_gidIdx s \<ge> 0
            then bindA (callA (QueryGid (m_gidIdx s))) (\<lambda>g.
                 case the_gid g of None \<Rightarrow> throwA (Exception ''Could not get gid for IB port'')
                 | Some gid \<Rightarrow> retA gid)
            else retA (replicate 16 0)) (\<lambda>myGid.
     bindA (callA (AllocVectors (m_nprocs s))) (\<lambda>ok.
     bindA (throw_if (\<not> the_flag ok) BadAlloc) (\<lambda>_.
     bindA (liftA (\<lambda>s. qp_numbers (m_stagedQps s))) (\<lambda>nums. retA (myGid, nums))))))"

definition fail_everywhere :: "fault \<Rightarrow> ('s, 'a) ext" where
  "fail_everywhere e = bindA (callA (AllreduceOr True)) (\<lambda>_. throwA e)"

definition lid_of :: "item \<Rightarrow> nat" where
  "lid_of x = (case x of LidItem l \<Rightarrow> l | _ \<Rightarrow> 0)"

definition gid_of :: "item \<Rightarrow> nat list" where
  "gid_of x = (case x of GidItem g \<Rightarrow> g | _ \<Rightarrow> [])"

text \<open>\<open>reconnectQPs\<close> from the second \<open>try\<close> block on, from the exchange on, and as a whole.\<close>

definition connect_staged :: "nat \<Rightarrow> nat list \<Rightarrow> nat list \<Rightarrow> nat list list \<Rightarrow> unit verbs" where
  "connect_staged n remoteQpNums lids gids =
     bindA (catchA (forA [0..<n] (connect_one remoteQpNums lids gids)) fail_everywhere) (\<lambda>_.
     bindA (callA (AllreduceOr False)) (\<lambda>f.
     bindA (throw_if (the_flag f)
       (Exception ''Another peer failed to set-up Infiniband queue pairs'')) (\<lambda>_.
     bindA (modA (\<lambda>s. s\<lparr>m_connectedQps := m_stagedQps s,
       m_stagedQps := replicate (m_nprocs s) None\<rparr>)) (\<lambda>_.
     bindA (callA Barrier) (\<lambda>_. retA ())))))"

definition exchange_and_connect :: "nat \<Rightarrow> nat \<Rightarrow> nat list \<times> nat list \<Rightarrow> unit verbs" where
  "exchange_and_connect n lid info =
     bindA (callA (AllreduceOr False)) (\<lambda>f.
     bindA (throw_if (the_flag f)
       (Exception ''Peer failed to allocate memory or query device while setting-up QP'')) (\<lambda>_.
     bindA (callA (AllToAll (snd info))) (\<lambda>remote.
     bindA (callA (Allgather (LidItem lid))) (\<lambda>lids.
     bindA (callA (Allgather (GidItem (fst info)))) (\<lambda>gids.
     connect_staged n (the_nums remote) (List.map lid_of (the_items lids))
       (List.map gid_of (the_items gids)))))))"

definition reconnectQPs :: "unit verbs" where
  "reconnectQPs =
     bindA getA (\<lambda>s.
     bindA (assertA (m_stagedQps s \<noteq> [] \<and> m_stagedQps s ! 0 \<noteq> None)) (\<lambda>_.
     bindA (callA Barrier) (\<lambda>_.
     bindA (catchA local_qp_info fail_everywhere) (exchange_and_connect (m_nprocs s) (m_lid s)))))"

section \<open>Capacity\<close>

definition INT_MAX :: nat where
  "INT_MAX = 2147483647"

definition null_registration :: mem_registration where
  "null_registration = \<lparr>reg_addr = 0, reg_size = 0, reg_lkey = 0, reg_rkey = 0\<rparr>"

definition empty_slot :: mem_slot where
  "empty_slot = \<lparr>slot_mr = None, glob = []\<rparr>"

definition resizeMemreg :: "(nat \<Rightarrow> bool) \<Rightarrow> nat \<Rightarrow> nat \<Rightarrow> unit verbs" where
  "resizeMemreg ok mx sz =
     bindA (throw_if (sz > INT_MAX) (Exception ''Could not increase memory register'')) (\<lambda>_.
     bindA getA (\<lambda>s.
     bindA (throw_if (int sz > m_max_mr s) BadAlloc) (\<lambda>_.
     outcomeA (\<lambda>s.
       let dflt = empty_slot\<lparr>glob := replicate (m_nprocs s) null_registration\<rparr> in
       case combined_reserve ok mx empty_slot (m_memreg s) sz dflt of
         (c, e) \<Rightarrow> (s\<lparr>m_memreg := c\<rparr>, e)))))"

definition post_recv :: "nat \<Rightarrow> unit verbs" where
  "post_recv i =
     bindA (callA PostSrqRecv) (\<lambda>_. modA (\<lambda>s. s\<lparr>m_postCount := m_postCount s + 1\<rparr>))"

definition resizeMesgq :: "nat \<Rightarrow> unit verbs" where
  "resizeMesgq sz =
     bindA (modA (\<lambda>s. s\<lparr>m_cqSize := min sz (m_maxSrs s div 4)\<rparr>)) (\<lambda>_.
     bindA getA (\<lambda>s.
     let remote_size = min (mul64 (m_cqSize s) (m_nprocs s)) (m_maxSrs s div 4) in
     bindA (if m_cqLocal s \<noteq> None
            then bindA (callA (ResizeCqLocal (m_cqSize s))) (\<lambda>_. retA ()) else retA ()) (\<lambda>_.
     bindA (if remote_size \<ge> m_postCount s \<and> m_cqRemote s \<noteq> None
            then bindA (callA (ResizeCqRemote remote_size)) (\<lambda>_. retA ()) else retA ()) (\<lambda>_.
     bindA (stageQPs (m_cqSize s)) (\<lambda>_.
     if remote_size \<ge> m_postCount s \<and> m_srq s \<noteq> None
     then forA [m_postCount s..<remote_size] post_recv else retA ())))))"

section \<open>Registration\<close>

definition reg_mr :: "addr \<Rightarrow> nat \<Rightarrow> unit verbs \<Rightarrow> ibv_mr option verbs" where
  "reg_mr a sz on_failure =
     (if sz > 0
      then bindA (callA (RegMr a sz)) (\<lambda>m.
           bindA (if the_mr m = None
                  then bindA on_failure (\<lambda>_. throwA (Exception ''Could not register memory area''))
                  else retA ()) (\<lambda>_. retA (the_mr m)))
      else retA None)"

definition registration :: "addr \<Rightarrow> nat \<Rightarrow> ibv_mr option \<Rightarrow> mem_registration" where
  "registration a sz m =
     \<lparr>reg_addr = a, reg_size = sz,
      reg_lkey = (case m of Some h \<Rightarrow> if sz = 0 then 0 else mr_lkey h | None \<Rightarrow> 0),
      reg_rkey = (case m of Some h \<Rightarrow> if sz = 0 then 0 else mr_rkey h | None \<Rightarrow> 0)\<rparr>"

definition add_slot :: "(mem_slot combined \<Rightarrow> mem_slot \<Rightarrow> fault + slot \<times> mem_slot combined) \<Rightarrow> mem_slot \<Rightarrow> slot verbs" where
  "add_slot add slot =
     stateA (\<lambda>s. bindE (add (m_memreg s) slot) (\<lambda>(i, m). Inr (i, s\<lparr>m_memreg := m\<rparr>)))"

definition update_slot :: "slot \<Rightarrow> (mem_slot \<Rightarrow> mem_slot) \<Rightarrow> unit verbs" where
  "update_slot i f =
     stateA (\<lambda>s. bindE (combined_update (m_memreg s) i f) (\<lambda>m. Inr ((), s\<lparr>m_memreg := m\<rparr>)))"

definition resize_glob :: "nat \<Rightarrow> mem_slot \<Rightarrow> mem_slot" where
  "resize_glob n slot = slot\<lparr>glob := vec_resize n null_registration (glob slot)\<rparr>"

definition regLocal :: "addr \<Rightarrow> nat \<Rightarrow> slot verbs" where
  "regLocal a sz =
     bindA getA (\<lambda>s.
     bindA (assertA (sz \<le> m_maxRegSize s)) (\<lambda>_.
     bindA (reg_mr a sz (retA ())) (\<lambda>m.
     bindA (add_slot addLocalReg (empty_slot\<lparr>slot_mr := m\<rparr>)) (\<lambda>i.
     bindA (update_slot i (resize_glob (m_nprocs s))) (\<lambda>_.
     bindA (update_slot i (\<lambda>slot. slot\<lparr>glob := (glob slot)[m_pid s := registration a sz m]\<rparr>)) (\<lambda>_.
     retA i))))))"

definition reg_of :: "item \<Rightarrow> mem_registration" where
  "reg_of x = (case x of RegItem r \<Rightarrow> r | _ \<Rightarrow> null_registration)"

definition regGlobal :: "addr \<Rightarrow> nat \<Rightarrow> slot verbs" where
  "regGlobal a sz =
     bindA getA (\<lambda>s.
     bindA (assertA (sz \<le> m_maxRegSize s)) (\<lambda>_.
     bindA (reg_mr a sz (bindA (callA (AllreduceAnd True)) (\<lambda>_. retA ()))) (\<lambda>m.
     bindA (callA (AllreduceOr False)) (\<lambda>f.
     bindA (throw_if (the_flag f) (Exception ''Another process could not register memory area'')) (\<lambda>_.
     bindA (add_slot addGlobalReg (empty_slot\<lparr>slot_mr := m\<rparr>)) (\<lambda>i.
     bindA (update_slot i (resize_glob (m_nprocs s))) (\<lambda>_.
     bindA (callA (Allgather (RegItem (registration a sz m)))) (\<lambda>all.
     bindA (update_slot i (\<lambda>slot. slot\<lparr>glob := List.map reg_of (the_items all)\<rparr>)) (\<lambda>_.
     retA i)))))))))"

definition dereg :: "slot \<Rightarrow> unit verbs" where
  "dereg i = stateA (\<lambda>s. bindE (removeReg (m_memreg s) i) (\<lambda>m. Inr ((), s\<lparr>m_memreg := m\<rparr>)))"

section \<open>Connecting the queue pairs\<close>

text \<open>An object whose queue pairs are all staged.\<close>

definition qps_staged :: "ibverbs \<Rightarrow> bool" where
  "qps_staged s \<longleftrightarrow>
     length (m_stagedQps s) = m_nprocs s \<and> 0 < m_nprocs s \<and> list_all (\<lambda>q. q \<noteq> None) (m_stagedQps s) \<and>
     m_dummyMemReg s \<noteq> None"

text \<open>A step that makes no collective call, changes nothing, and fails only by an exception.\<close>

definition quiet :: "event list \<Rightarrow> fault + 'a \<Rightarrow> bool" where
  "quiet tr r \<longleftrightarrow> collectives tr = [] \<and> (\<forall>e. r = Inl e \<longrightarrow> is_exception e)"

lemma qp_numbers_all: "list_all (\<lambda>q. q \<noteq> None) qs \<Longrightarrow> qp_numbers qs = Inr (List.map the qs)"
  by (induction qs rule: qp_numbers.induct) auto

lemma local_qp_info_run:
  assumes "acts local_qp_info s tr r s'" and "qps_staged s"
  shows "s' = s \<and> quiet tr r \<and> (\<forall>x. r = Inr x \<longrightarrow> snd x = List.map the (m_stagedQps s))"
  using assms
  by (auto simp: local_qp_info_def act_simps quiet_def qps_staged_def qp_numbers_all
      split: if_splits option.splits)

lemma modify_qp_run:
  "acts (modify_qp q attr msg) s tr r s' \<longleftrightarrow>
     (\<exists>rep. tr = [(ModifyQp q attr, rep)] \<and> s' = s \<and>
        r = (if the_err rep \<noteq> 0 then Inl (Exception msg) else Inr ()))"
  by (auto simp: modify_qp_def act_simps)

definition connect_calls :: "ibverbs \<Rightarrow> nat list \<Rightarrow> nat list \<Rightarrow> nat list list \<Rightarrow> nat \<Rightarrow> call list" where
  "connect_calls s remoteQpNums lids gids i =
     [ModifyQp (the (m_stagedQps s ! i)) init_attr,
      ModifyQp (the (m_stagedQps s ! i)) (rtr_attr s (remoteQpNums ! i) (lids ! i) (gids ! i)),
      ModifyQp (the (m_stagedQps s ! i)) rts_attr]"

lemma connect_one_run:
  assumes "acts (connect_one nums lids gids i) s tr r s'" and "qps_staged s" and "i < m_nprocs s"
  shows "s' = s \<and> quiet tr r \<and> (r = Inr () \<longrightarrow> List.map fst tr = connect_calls s nums lids gids i)"
proof -
  obtain q where q: "m_stagedQps s ! i = Some q"
    using assms(2,3) by (auto simp: qps_staged_def list_all_length)
  show ?thesis using assms(1,2)
    by (auto simp: connect_one_def staged_qp_def q act_simps acts_bindA modify_qp_run quiet_def
        qps_staged_def connect_calls_def split: if_splits)
qed

lemma connect_all_run:
  assumes "acts (forA is (connect_one nums lids gids)) s tr r s'" and "qps_staged s"
    and "set is \<subseteq> {..<m_nprocs s}"
  shows "s' = s \<and> quiet tr r \<and>
    (r = Inr () \<longrightarrow> List.map fst tr = concat (List.map (connect_calls s nums lids gids) is))"
  using assms
proof (induction "is" arbitrary: tr)
  case Nil
  then show ?case by (simp add: act_simps quiet_def)
next
  case (Cons i "is")
  from Cons.prems(1) consider (thrown) e where "r = Inl e" "acts (connect_one nums lids gids i) s tr (Inl e) s'"
    | (later) s1 t1 t2 where "tr = t1 @ t2" "acts (connect_one nums lids gids i) s t1 (Inr ()) s1"
        "acts (forA is (connect_one nums lids gids)) s1 t2 r s'"
    by (auto simp: acts_bindA)
  then show ?case
  proof cases
    case thrown
    then show ?thesis using connect_one_run [OF thrown(2) Cons.prems(2)] Cons.prems(3) by (auto simp: quiet_def)
  next
    case later
    have "s1 = s" "quiet t1 (Inr ())" "List.map fst t1 = connect_calls s nums lids gids i"
      using connect_one_run [OF later(2) Cons.prems(2)] Cons.prems(3) by auto
    moreover from this have "s' = s \<and> quiet t2 r \<and>
        (r = Inr () \<longrightarrow> List.map fst t2 = concat (List.map (connect_calls s nums lids gids) is))"
      using Cons.IH [of t2] later(3) Cons.prems by auto
    ultimately show ?thesis using later(1) by (auto simp: quiet_def)
  qed
qed

lemma fail_everywhere_run:
  "acts (fail_everywhere e) s tr r s' \<longleftrightarrow> (\<exists>rep. tr = [(AllreduceOr True, rep)] \<and> r = Inl e \<and> s' = s)"
  by (auto simp: fail_everywhere_def act_simps)

text \<open>A block that runs quietly and tells the other processes about its exception.\<close>

lemma guarded_run:
  assumes "acts (catchA m fail_everywhere) s tr r s'"
    and "\<And>t r s1. acts m s t r s1 \<Longrightarrow> s1 = s \<and> quiet t r \<and> (\<forall>x. r = Inr x \<longrightarrow> P t x)"
  shows "s' = s \<and>
     ((\<exists>x. r = Inr x \<and> P tr x \<and> collectives tr = []) \<or>
      (\<exists>e rep. r = Inl e \<and> is_exception e \<and> collectives tr = [(AllreduceOr True, rep)]))"
  using assms(1) assms(2) by (fastforce simp: acts_catchA fail_everywhere_run quiet_def)

text \<open>
  The three ways a call of \<open>reconnectQPs\<close> can end, with the collective calls it made: a failure
  before the exchange, a failure after it, and success.
\<close>

definition ends_early :: "event list \<Rightarrow> bool \<Rightarrow> reply \<Rightarrow> bool" where
  "ends_early tr b rep \<longleftrightarrow>
     (\<exists>rep0. collectives tr = [(Barrier, rep0), (AllreduceOr b, rep)]) \<and> (b \<or> the_flag rep)"

definition exchanged :: "ibverbs \<Rightarrow> event list \<Rightarrow> reply list \<Rightarrow> event list \<Rightarrow> bool" where
  "exchanged s es reps rest \<longleftrightarrow>
     (\<exists>rep0 rep1 rA rL rG myGid.
        es = [(Barrier, rep0), (AllreduceOr False, rep1), (AllToAll (List.map the (m_stagedQps s)), rA),
          (Allgather (LidItem (m_lid s)), rL), (Allgather (GidItem myGid), rG)] @ rest \<and>
        \<not> the_flag rep1 \<and> reps = [rA, rL, rG])"

definition swapped :: "ibverbs \<Rightarrow> ibverbs" where
  "swapped s = s\<lparr>m_connectedQps := m_stagedQps s, m_stagedQps := replicate (m_nprocs s) None\<rparr>"

definition ends_late :: "ibverbs \<Rightarrow> event list \<Rightarrow> bool \<Rightarrow> reply \<Rightarrow> bool" where
  "ends_late s tr b rep \<longleftrightarrow>
     (\<exists>reps. exchanged s (collectives tr) reps [(AllreduceOr b, rep)]) \<and> (b \<or> the_flag rep)"

definition ends_well :: "ibverbs \<Rightarrow> event list \<Rightarrow> reply list \<Rightarrow> bool" where
  "ends_well s tr reps \<longleftrightarrow>
     (\<exists>rep rep'. exchanged s (collectives tr) reps [(AllreduceOr False, rep), (Barrier, rep')] \<and> \<not> the_flag rep) \<and>
     (\<exists>pre post. List.map fst tr = pre @
        concat (List.map (connect_calls s (the_nums (reps ! 0)) (List.map lid_of (the_items (reps ! 1)))
          (List.map gid_of (the_items (reps ! 2)))) [0..<m_nprocs s]) @ post)"

lemma connect_staged_run:
  assumes "acts (connect_staged (m_nprocs s) nums lids gids) s tr r s'" and st: "qps_staged s"
  shows "(\<exists>b rep e. collectives tr = [(AllreduceOr b, rep)] \<and> (b \<or> the_flag rep) \<and> r = Inl e \<and> s' = s) \<or>
    (\<exists>rep rep'. collectives tr = [(AllreduceOr False, rep), (Barrier, rep')] \<and> \<not> the_flag rep \<and>
       r = Inr () \<and> s' = swapped s \<and>
       (\<exists>post. List.map fst tr = concat (List.map (connect_calls s nums lids gids) [0..<m_nprocs s]) @ post))"
proof -
  let ?loop = "forA [0..<m_nprocs s] (connect_one nums lids gids)"
  let ?m = "catchA ?loop fail_everywhere"
  have loop: "s1 = s \<and> quiet t r1 \<and> (\<forall>x. r1 = Inr x \<longrightarrow>
      List.map fst t = concat (List.map (connect_calls s nums lids gids) [0..<m_nprocs s]))"
    if "acts ?loop s t r1 s1" for t r1 s1
    using connect_all_run [OF that st] by (auto simp: lessThan_atLeast0)
  note g = guarded_run [OF _ loop]
  from assms(1) [unfolded connect_staged_def acts_bindA [of ?m]] show ?thesis
  proof (elim disjE exE conjE)
    fix e assume "r = Inl e" "acts ?m s tr (Inl e) s'"
    then show ?thesis using g by fastforce
  next
    fix x s1 t1 t2
    assume t: "tr = t1 @ t2" "acts ?m s t1 (Inr x) s1" and f: "acts (bindA (callA (AllreduceOr False)) (\<lambda>f.
     bindA (throw_if (the_flag f) (Exception ''Another peer failed to set-up Infiniband queue pairs'')) (\<lambda>_.
     bindA (modA (\<lambda>s. s\<lparr>m_connectedQps := m_stagedQps s, m_stagedQps := replicate (m_nprocs s) None\<rparr>)) (\<lambda>_.
     bindA (callA Barrier) (\<lambda>_. retA ()))))) s1 t2 r s'"
    have "s1 = s" "collectives t1 = []"
      "List.map fst t1 = concat (List.map (connect_calls s nums lids gids) [0..<m_nprocs s])"
      using g [OF t(2)] by auto
    then show ?thesis using f t(1) by (auto simp: act_simps swapped_def split: if_splits)
  qed
qed

lemma reconnect_run:
  assumes "acts reconnectQPs s tr r s'" and st: "qps_staged s"
  shows "(\<exists>e b rep. r = Inl e \<and> s' = s \<and> ends_early tr b rep) \<or>
    (\<exists>e b rep. r = Inl e \<and> s' = s \<and> ends_late s tr b rep) \<or>
    (\<exists>reps. r = Inr () \<and> s' = swapped s \<and> ends_well s tr reps)"
proof -
  let ?info = "catchA local_qp_info fail_everywhere"
  have hd: "m_stagedQps s \<noteq> []" "m_stagedQps s ! 0 \<noteq> None"
    using st by (auto simp: qps_staged_def list_all_length)
  have info: "s1 = s \<and> quiet t r1 \<and> (\<forall>x. r1 = Inr x \<longrightarrow> snd x = List.map the (m_stagedQps s))"
    if "acts local_qp_info s t r1 s1" for t r1 s1
    using local_qp_info_run [OF that st] by auto
  note g = guarded_run [OF _ info]
  from assms(1) obtain rep0 tr1 where tr: "tr = (Barrier, rep0) # tr1"
    and b: "acts (bindA ?info (exchange_and_connect (m_nprocs s) (m_lid s))) s tr1 r s'"
    using hd by (simp add: reconnectQPs_def act_simps) blast
  from b [unfolded acts_bindA [of ?info]] show ?thesis
  proof (elim disjE exE conjE)
    fix e assume e: "r = Inl e" "acts ?info s tr1 (Inl e) s'"
    obtain rep where "s' = s" "collectives tr1 = [(AllreduceOr True, rep)]"
      using g [OF e(2)] by auto
    then show ?thesis using e(1) tr by (auto simp: ends_early_def)
  next
    fix x s1 t1 t2
    assume t: "tr1 = t1 @ t2" "acts ?info s t1 (Inr x) s1"
      and f: "acts (exchange_and_connect (m_nprocs s) (m_lid s) x) s1 t2 r s'"
    have x: "s1 = s" "collectives t1 = []" "snd x = List.map the (m_stagedQps s)"
      using g [OF t(2)] by auto
    from f x obtain rep1 t3 where t2: "t2 = (AllreduceOr False, rep1) # t3" and
      c: "if the_flag rep1 then t3 = [] \<and> (\<exists>e. r = Inl e) \<and> s' = s
          else \<exists>rA rL rG t4. t3 = (AllToAll (List.map the (m_stagedQps s)), rA) #
            (Allgather (LidItem (m_lid s)), rL) # (Allgather (GidItem (fst x)), rG) # t4 \<and>
            acts (connect_staged (m_nprocs s) (the_nums rA) (List.map lid_of (the_items rL))
              (List.map gid_of (the_items rG))) s t4 r s'"
      by (auto simp: exchange_and_connect_def act_simps split: if_splits)
    show ?thesis
    proof (cases "the_flag rep1")
      case True
      then show ?thesis using c t2 tr t(1) x by (auto simp: ends_early_def)
    next
      case False
      with c obtain rA rL rG t4 where t3: "t3 = (AllToAll (List.map the (m_stagedQps s)), rA) #
            (Allgather (LidItem (m_lid s)), rL) # (Allgather (GidItem (fst x)), rG) # t4"
        and d: "acts (connect_staged (m_nprocs s) (the_nums rA) (List.map lid_of (the_items rL))
              (List.map gid_of (the_items rG))) s t4 r s'" by auto
      have tr': "tr = ((Barrier, rep0) # t1 @ (AllreduceOr False, rep1) #
          (AllToAll (List.map the (m_stagedQps s)), rA) # (Allgather (LidItem (m_lid s)), rL) #
          (Allgather (GidItem (fst x)), rG) # []) @ t4"
        using tr t t2 t3 by simp
      have e: "exchanged s (collectives tr) [rA, rL, rG] (collectives t4)"
        using False x by (simp add: tr' exchanged_def)
      from connect_staged_run [OF d st] consider
          (late) b rep e' where "collectives t4 = [(AllreduceOr b, rep)]" "b \<or> the_flag rep" "r = Inl e'" "s' = s"
        | (well) rep rep' post where "collectives t4 = [(AllreduceOr False, rep), (Barrier, rep')]" "\<not> the_flag rep"
            "r = Inr ()" "s' = swapped s" "List.map fst t4 = concat (List.map (connect_calls s (the_nums rA)
              (List.map lid_of (the_items rL)) (List.map gid_of (the_items rG))) [0..<m_nprocs s]) @ post"
        by blast
      then show ?thesis
      proof cases
        case late
        then have "ends_late s tr b rep" using e unfolding ends_late_def by auto
        then show ?thesis using late by blast
      next
        case well
        have "\<exists>pre. List.map fst tr = pre @ concat (List.map (connect_calls s
            (the_nums rA) (List.map lid_of (the_items rL)) (List.map gid_of (the_items rG))) [0..<m_nprocs s]) @ post"
          unfolding tr' List.map_append well(5) by blast
        then have "ends_well s tr [rA, rL, rG]" using e well unfolding ends_well_def by auto
        then show ?thesis using well by blast
      qed
    qed
  qed
qed

text \<open>The two votes of \<open>reconnectQPs\<close>, read off the trace of one process.\<close>

lemma vote_early:
  assumes "ends_early tr b rep"
  shows "collectives tr ! 1 = (AllreduceOr b, rep)" "coll_kinds tr = [KBarrier, KOr]"
    "length (collectives tr) = 2" "b \<or> the_flag rep"
proof -
  obtain rep0 where c: "collectives tr = [(Barrier, rep0), (AllreduceOr b, rep)]"
    using assms by (auto simp: ends_early_def)
  have "coll_kinds tr = coll_kinds (collectives tr)"
    by (induction tr) (auto split: option.splits)
  then show "coll_kinds tr = [KBarrier, KOr]" by (simp add: c)
  show "collectives tr ! 1 = (AllreduceOr b, rep)" "length (collectives tr) = 2" "b \<or> the_flag rep"
    using assms by (simp_all add: c) (simp add: ends_early_def)
qed

lemma coll_kinds_collectives: "coll_kinds tr = coll_kinds (collectives tr)"
  by (induction tr) (auto split: option.splits)

lemma exchangedD:
  assumes "exchanged s (collectives tr) reps rest"
  shows "\<exists>rep1. collectives tr ! 1 = (AllreduceOr False, rep1) \<and> \<not> the_flag rep1"
    "collectives tr ! 2 = (AllToAll (List.map the (m_stagedQps s)), reps ! 0)"
    "collectives tr ! 3 = (Allgather (LidItem (m_lid s)), reps ! 1)"
    "\<exists>gid. collectives tr ! 4 = (Allgather (GidItem gid), reps ! 2)"
    "rest \<noteq> [] \<Longrightarrow> collectives tr ! 5 = hd rest"
    "coll_kinds tr = [KBarrier, KOr, KAllToAll, KGather, KGather] @ coll_kinds rest"
    "length (collectives tr) = 5 + length rest"
  using assms unfolding coll_kinds_collectives [of tr]
  by (auto simp: exchanged_def hd_conv_nth)

text \<open>A process stops at a vote when it voted for a failure or was told of one; all processes then stop.\<close>

definition stops :: "event list \<Rightarrow> nat \<Rightarrow> bool" where
  "stops tr k \<longleftrightarrow> fst (collectives tr ! k) = AllreduceOr True \<or> the_flag (snd (collectives tr ! k))"

lemma votes_agree:
  assumes ok: "collectives_ok trs" and i: "i < length trs" and j: "j < length trs"
    and votes: "\<And>l. l < length trs \<Longrightarrow>
      k < length (collectives (trs ! l)) \<and> (\<exists>b. fst (collectives (trs ! l) ! k) = AllreduceOr b)"
    and yes: "stops (trs ! i) k"
  shows "stops (trs ! j) k"
proof -
  have m: "round_matched trs k"
    by (rule round_matchedI [where c = KOr]) (use votes in fastforce)+
  let ?any = "\<exists>j<length trs. fst (collectives (trs ! j) ! k) = AllreduceOr True"
  have r: "snd (collectives (trs ! l) ! k) = Flag ?any" if l: "l < length trs" for l
  proof -
    obtain b where "fst (collectives (trs ! l) ! k) = AllreduceOr b" using votes [OF l] by blast
    then have "collectives (trs ! l) ! k = (AllreduceOr b, snd (collectives (trs ! l) ! k))"
      by (metis prod.collapse)
    then show ?thesis by (rule round_or [OF ok l m])
  qed
  have ?any using yes r [OF i] i unfolding stops_def by auto
  then show ?thesis using r [OF j] unfolding stops_def by simp
qed

lemma concat_segment:
  assumes "i < n"
  shows "\<exists>pre post. concat (List.map f [0..<n]) = pre @ f i @ post"
proof -
  have "[0..<n] = [0..<i] @ i # [Suc i..<n]"
    using upt_add_eq_append [of 0 i "n - i"] assms by (simp add: upt_conv_Cons)
  then show ?thesis by (metis (no_types) concat.simps(2) concat_append list.simps(9) map_append)
qed

text \<open>All processes end in the same way.\<close>

lemma reconnect_ends:
  assumes ok: "collectives_ok trs"
    and run: "\<forall>i<length trs. acts reconnectQPs (s i) (trs ! i) (r i) (s' i) \<and> qps_staged (s i)"
  shows "(\<forall>i<length trs. (\<exists>e. r i = Inl e) \<and> s' i = s i \<and> coll_kinds (trs ! i) = [KBarrier, KOr]) \<or>
    (\<forall>i<length trs. (\<exists>e. r i = Inl e) \<and> s' i = s i \<and>
       coll_kinds (trs ! i) = [KBarrier, KOr, KAllToAll, KGather, KGather, KOr]) \<or>
    (\<forall>i<length trs. r i = Inr () \<and> s' i = swapped (s i) \<and> (\<exists>reps. ends_well (s i) (trs ! i) reps))"
proof -
  let ?early = "\<lambda>i. (\<exists>e. r i = Inl e) \<and> s' i = s i \<and> (\<exists>b rep. ends_early (trs ! i) b rep)"
  let ?late = "\<lambda>i. (\<exists>e. r i = Inl e) \<and> s' i = s i \<and> (\<exists>b rep. ends_late (s i) (trs ! i) b rep)"
  let ?well = "\<lambda>i. r i = Inr () \<and> s' i = swapped (s i) \<and> (\<exists>reps. ends_well (s i) (trs ! i) reps)"
  have three: "?early i \<or> ?late i \<or> ?well i" if "i < length trs" for i
    using reconnect_run [of "s i" "trs ! i" "r i" "s' i"] run that by blast
  have early: "1 < length (collectives tr) \<and> (\<exists>b. fst (collectives tr ! 1) = AllreduceOr b) \<and> stops tr 1"
    if "ends_early tr b rep" for tr b rep
    using vote_early [OF that] by (auto simp: stops_def)
  have exch: "1 < length (collectives tr) \<and> (\<exists>b. fst (collectives tr ! 1) = AllreduceOr b) \<and> \<not> stops tr 1"
    if "exchanged st (collectives tr) reps rest" for st tr reps rest
    using exchangedD [OF that] by (auto simp: stops_def)
  have late: "5 < length (collectives tr) \<and> (\<exists>b. fst (collectives tr ! 5) = AllreduceOr b) \<and> stops tr 5"
    if "ends_late st tr b rep" for st tr b rep
    using that exchangedD(5,7) [of st tr _ "[(AllreduceOr b, rep)]"] by (auto simp: ends_late_def stops_def)
  have well: "5 < length (collectives tr) \<and> (\<exists>b. fst (collectives tr ! 5) = AllreduceOr b) \<and> \<not> stops tr 5"
    if "ends_well st tr reps" for st tr reps
    using that exchangedD(5,7) by (fastforce simp: ends_well_def stops_def)
  have v1: "1 < length (collectives (trs ! i)) \<and> (\<exists>b. fst (collectives (trs ! i) ! 1) = AllreduceOr b)"
    and e1: "stops (trs ! i) 1 \<longleftrightarrow> ?early i" if "i < length trs" for i
    using three [OF that] early exch unfolding ends_late_def ends_well_def by blast+
  show ?thesis
  proof (cases "\<exists>i<length trs. ?early i")
    case True
    then obtain i where i: "i < length trs" "stops (trs ! i) 1" using e1 by blast
    have "?early j" if j: "j < length trs" for j
      using votes_agree [OF ok i(1) j v1 i(2)] e1 [OF j] by blast
    then show ?thesis using vote_early(2) by blast
  next
    case False
    then have v5: "5 < length (collectives (trs ! i)) \<and> (\<exists>b. fst (collectives (trs ! i) ! 5) = AllreduceOr b)"
      and e5: "stops (trs ! i) 5 \<longleftrightarrow> ?late i" if "i < length trs" for i
      using that three [OF that] late well by blast+
    show ?thesis
    proof (cases "\<exists>i<length trs. ?late i")
      case True
      then obtain i where i: "i < length trs" "stops (trs ! i) 5" using e5 by blast
      have l: "?late j" if j: "j < length trs" for j
        using votes_agree [OF ok i(1) j v5 i(2)] e5 [OF j] by blast
      have "coll_kinds (trs ! j) = [KBarrier, KOr, KAllToAll, KGather, KGather, KOr]" if "j < length trs" for j
        using l [OF that] exchangedD(6) by (fastforce simp: ends_late_def)
      then show ?thesis using l by blast
    next
      case False
      then show ?thesis using three \<open>\<not> (\<exists>i<length trs. ?early i)\<close> by blast
    qed
  qed
qed

lemma ends_well_calls:
  assumes ok: "collectives_ok trs" and n: "length trs = n"
    and st: "\<And>i. i < n \<Longrightarrow> qps_staged (s i) \<and> m_nprocs (s i) = n"
    and ends: "\<And>i. i < n \<Longrightarrow> ends_well (s i) (trs ! i) (reps i)"
  shows "\<exists>g. \<forall>i<n. \<forall>j<n. \<exists>pre post. List.map fst (trs ! i) = pre @
    [ModifyQp (the (m_stagedQps (s i) ! j)) init_attr,
     ModifyQp (the (m_stagedQps (s i) ! j)) (rtr_attr (s i) (the (m_stagedQps (s j) ! i)) (m_lid (s j)) (g j)),
     ModifyQp (the (m_stagedQps (s i) ! j)) rts_attr] @ post"
proof -
  have ex: "\<exists>rest. exchanged (s i) (collectives (trs ! i)) (reps i) rest" if "i < n" for i
    using ends [OF that] by (auto simp: ends_well_def)
  have two: "collectives (trs ! i) ! 2 = (AllToAll (List.map the (m_stagedQps (s i))), reps i ! 0)"
    and three: "collectives (trs ! i) ! 3 = (Allgather (LidItem (m_lid (s i))), reps i ! 1)"
    and four: "\<exists>gid. collectives (trs ! i) ! 4 = (Allgather (GidItem gid), reps i ! 2)"
    and len: "4 < length (collectives (trs ! i))" if "i < n" for i
    using ex [OF that] exchangedD by fastforce+
  define g where "g i = gid_of (case fst (collectives (trs ! i) ! 4) of Allgather x \<Rightarrow> x | _ \<Rightarrow> LidItem 0)" for i
  have m2: "round_matched trs 2" by (rule round_matchedI [where c = KAllToAll]) (use two len n in fastforce)+
  have m3: "round_matched trs 3" by (rule round_matchedI [where c = KGather]) (use three len n in fastforce)+
  have m4: "round_matched trs 4" by (rule round_matchedI [where c = KGather]) (use four len n in fastforce)+
  have nums: "the_nums (reps i ! 0) ! j = the (m_stagedQps (s j) ! i)" if ij: "i < n" "j < n" for i j
  proof -
    have "length (m_stagedQps (s j)) = n" using st [OF ij(2)] by (simp add: qps_staged_def)
    then show ?thesis
      using round_allToAll [OF ok _ m2 two [OF ij(1)]] two [OF ij(2)] ij n by simp
  qed
  have lids: "lid_of (the_items (reps i ! 1) ! j) = m_lid (s j) \<and> j < length (the_items (reps i ! 1))"
    if ij: "i < n" "j < n" for i j
    using round_gather [OF ok _ m3 three [OF ij(1)]] three [OF ij(2)] ij n by (simp add: lid_of_def)
  have gids: "gid_of (the_items (reps i ! 2) ! j) = g j \<and> j < length (the_items (reps i ! 2))"
    if ij: "i < n" "j < n" for i j
  proof -
    obtain gid where "collectives (trs ! i) ! 4 = (Allgather (GidItem gid), reps i ! 2)"
      using four [OF ij(1)] by blast
    from round_gather [OF ok _ m4 this] show ?thesis using ij n by (simp add: g_def)
  qed
  have "\<exists>pre post. List.map fst (trs ! i) = pre @
    [ModifyQp (the (m_stagedQps (s i) ! j)) init_attr,
     ModifyQp (the (m_stagedQps (s i) ! j)) (rtr_attr (s i) (the (m_stagedQps (s j) ! i)) (m_lid (s j)) (g j)),
     ModifyQp (the (m_stagedQps (s i) ! j)) rts_attr] @ post" if ij: "i < n" "j < n" for i j
  proof -
    let ?c = "connect_calls (s i) (the_nums (reps i ! 0)) (List.map lid_of (the_items (reps i ! 1)))
        (List.map gid_of (the_items (reps i ! 2)))"
    obtain pre post where p: "List.map fst (trs ! i) = pre @ concat (List.map ?c [0..<n]) @ post"
      using ends [OF ij(1)] st [OF ij(1)] unfolding ends_well_def by auto
    obtain pre' post' where c: "concat (List.map ?c [0..<n]) = pre' @ ?c j @ post'"
      using concat_segment [OF ij(2)] by blast
    have "?c j = [ModifyQp (the (m_stagedQps (s i) ! j)) init_attr,
     ModifyQp (the (m_stagedQps (s i) ! j)) (rtr_attr (s i) (the (m_stagedQps (s j) ! i)) (m_lid (s j)) (g j)),
     ModifyQp (the (m_stagedQps (s i) ! j)) rts_attr]"
      using nums [OF ij] lids [OF ij] gids [OF ij] by (simp add: connect_calls_def)
    then have "List.map fst (trs ! i) = (pre @ pre') @
    [ModifyQp (the (m_stagedQps (s i) ! j)) init_attr,
     ModifyQp (the (m_stagedQps (s i) ! j)) (rtr_attr (s i) (the (m_stagedQps (s j) ! i)) (m_lid (s j)) (g j)),
     ModifyQp (the (m_stagedQps (s i) ! j)) rts_attr] @ (post' @ post)"
      unfolding p c by simp
    then show ?thesis by blast
  qed
  then show ?thesis by blast
qed

definition demo_verbs :: "nat \<Rightarrow> ibverbs" where
  "demo_verbs i = (ibverbs_init i 2 1 (-1) IBV_MTU_4096)\<lparr>m_stagedQps := [Some (10 * i + 1), Some (10 * i + 2)],
     m_lid := 5 + i, m_dummyMemReg := Some \<lparr>mr_lkey = 1, mr_rkey = 2\<rparr>\<rparr>"

definition demo_reconnect :: "nat \<Rightarrow> event list" where
  "demo_reconnect i =
     [(Barrier, Done), (AllocVectors 2, Flag True), (AllreduceOr False, Flag False),
      (AllToAll [10 * i + 1, 10 * i + 2], Nums [i + 1, i + 11]),
      (Allgather (LidItem (5 + i)), Items [LidItem 5, LidItem 6]),
      (Allgather (GidItem (replicate 16 0)), Items [GidItem (replicate 16 0), GidItem (replicate 16 0)]),
      (ModifyQp (10 * i + 1) init_attr, Err 0),
      (ModifyQp (10 * i + 1) (rtr_attr (demo_verbs i) (i + 1) 5 (replicate 16 0)), Err 0),
      (ModifyQp (10 * i + 1) rts_attr, Err 0),
      (ModifyQp (10 * i + 2) init_attr, Err 0),
      (ModifyQp (10 * i + 2) (rtr_attr (demo_verbs i) (i + 11) 6 (replicate 16 0)), Err 0),
      (ModifyQp (10 * i + 2) rts_attr, Err 0),
      (AllreduceOr False, Flag False), (Barrier, Done)]"

lemma demo_reconnect_acts:
  "acts reconnectQPs (demo_verbs i) (demo_reconnect i) (Inr ()) (swapped (demo_verbs i))"
  by (simp add: act_defs reconnectQPs_def local_qp_info_def exchange_and_connect_def connect_staged_def
      connect_one_def modify_qp_def throw_if_def staged_qp_def demo_verbs_def ibverbs_init_def demo_reconnect_def
      upt_rec lid_of_def gid_of_def swapped_def)

lemma demo_reconnect_ok: "collectives_ok [demo_reconnect 0, demo_reconnect 1]"
  unfolding collectives_ok_def
  by (simp add: demo_reconnect_def lessThan_Suc round_ok_def or_args_def gather_args_def column_args_def)

text \<open>
  C20: \<open>reconnectQPs\<close> is all or nothing.  When the processes of a communicator run it on staged
  queue pairs, they make matching collective calls whatever the device answers; and either
  all of them return with the staged queue pairs connected, the pair for process \<open>j\<close> on
  process \<open>i\<close> having been brought to INIT, to RTR with the number of the pair for \<open>i\<close> on \<open>j\<close> and
  the port of \<open>j\<close>, and to RTS, or all of them throw and keep the old queue pairs.
\<close>

theorem reconnect_all_or_nothing:
  assumes "collectives_ok trs" and "length trs = n"
    and "\<And>i. i < n \<Longrightarrow> acts reconnectQPs (s i) (trs ! i) (r i) (s' i)"
    and "\<And>i. i < n \<Longrightarrow> qps_staged (s i) \<and> m_nprocs (s i) = n"
  shows "matched trs \<and>
    ((\<forall>i<n. r i = Inr () \<and> m_connectedQps (s' i) = m_stagedQps (s i) \<and> list_all (\<lambda>q. q = None) (m_stagedQps (s' i))) \<and>
     (\<exists>g. \<forall>i<n. \<forall>j<n. \<exists>pre post. List.map fst (trs ! i) = pre @
        [ModifyQp (the (m_stagedQps (s i) ! j)) init_attr,
         ModifyQp (the (m_stagedQps (s i) ! j)) (rtr_attr (s i) (the (m_stagedQps (s j) ! i)) (m_lid (s j)) (g j)),
         ModifyQp (the (m_stagedQps (s i) ! j)) rts_attr] @ post) \<or>
     (\<forall>i<n. (\<exists>e. r i = Inl e) \<and> s' i = s i))"
proof -
  have run: "\<forall>i<length trs. acts reconnectQPs (s i) (trs ! i) (r i) (s' i) \<and> qps_staged (s i)"
    using assms by simp
  note ends = reconnect_ends [OF assms(1) run, unfolded assms(2)]
  have kinds: "coll_kinds tr = [KBarrier, KOr, KAllToAll, KGather, KGather, KOr, KBarrier]"
    if "ends_well st tr reps" for st tr reps
    using that exchangedD(6) by (fastforce simp: ends_well_def)
  from ends show ?thesis
  proof (elim disjE)
    assume w: "\<forall>i<n. r i = Inr () \<and> s' i = swapped (s i) \<and> (\<exists>reps. ends_well (s i) (trs ! i) reps)"
    then obtain reps where e: "\<And>i. i < n \<Longrightarrow> ends_well (s i) (trs ! i) (reps i)" by metis
    have "matched trs" by (rule matchedI) (use kinds e assms(2) in blast)
    moreover have "\<forall>i<n. r i = Inr () \<and> m_connectedQps (s' i) = m_stagedQps (s i) \<and>
        list_all (\<lambda>q. q = None) (m_stagedQps (s' i))"
      using w by (simp add: swapped_def list_all_iff)
    ultimately show ?thesis using ends_well_calls [OF assms(1,2,4) e] by blast
  qed (use matchedI [of trs] assms(2) in blast)+
qed

theorem reconnect_all_or_nothing_witness:
  "matched [demo_reconnect 0, demo_reconnect 1] \<and>
   (\<exists>pre post. List.map fst (demo_reconnect 0) = pre @
     [ModifyQp 2 init_attr, ModifyQp 2 (rtr_attr (demo_verbs 0) 11 6 (replicate 16 0)), ModifyQp 2 rts_attr] @ post)"
proof -
  have st: "qps_staged (demo_verbs i) \<and> m_nprocs (demo_verbs i) = 2" for i
    by (simp add: qps_staged_def demo_verbs_def ibverbs_init_def)
  have run: "acts reconnectQPs (demo_verbs i) ([demo_reconnect 0, demo_reconnect 1] ! i) (Inr ())
      (swapped (demo_verbs i))" if "i < 2" for i
    using that demo_reconnect_acts [of i] by (cases i) auto
  have m: "matched [demo_reconnect 0, demo_reconnect 1]"
    using reconnect_all_or_nothing [of "[demo_reconnect 0, demo_reconnect 1]" 2 demo_verbs "\<lambda>_. Inr ()"
        "\<lambda>i. swapped (demo_verbs i)", OF demo_reconnect_ok _ run st] by simp
  have "List.map fst (demo_reconnect 0) = List.map fst (take 9 (demo_reconnect 0)) @
     [ModifyQp 2 init_attr, ModifyQp 2 (rtr_attr (demo_verbs 0) 11 6 (replicate 16 0)), ModifyQp 2 rts_attr] @
     [AllreduceOr False, Barrier]"
    by (simp add: demo_reconnect_def)
  then show ?thesis using m by blast
qed

section \<open>Resizing the message queue\<close>

lemma stage_one_run:
  assumes "acts (stage_one m i) s tr r s'"
  shows "\<exists>q. s' = s\<lparr>m_stagedQps := (m_stagedQps s)[i := q]\<rparr> \<and>
    (r = Inl BadAlloc \<or> r = Inr () \<and> q \<noteq> None) \<and> List.map fst tr = [CreateQp (qp_cap m s)]"
  using assms by (auto simp: stage_one_def act_simps split: if_splits)

lemma qp_cap_staged [simp]: "qp_cap m (s\<lparr>m_stagedQps := qs\<rparr>) = qp_cap m s"
  by (simp add: qp_cap_def)

lemma stage_all_run:
  assumes "acts (forA is (stage_one m)) s tr r s'" and "set is \<subseteq> {..<length (m_stagedQps s)}" and "distinct is"
  shows "\<exists>qs. s' = s\<lparr>m_stagedQps := qs\<rparr> \<and> length qs = length (m_stagedQps s) \<and>
    (\<forall>e. r = Inl e \<longrightarrow> e = BadAlloc) \<and> List.map fst tr = replicate (length tr) (CreateQp (qp_cap m s)) \<and>
    (r = Inr () \<longrightarrow> (\<forall>i<length qs. if i \<in> set is then qs ! i \<noteq> None else qs ! i = m_stagedQps s ! i))"
  using assms
proof (induction "is" arbitrary: s tr)
  case Nil
  then show ?case by (intro exI [of _ "m_stagedQps s"]) (simp add: act_simps)
next
  case (Cons i "is")
  from Cons.prems(1) consider (thrown) e where "r = Inl e" "acts (stage_one m i) s tr (Inl e) s'"
    | (later) s1 t1 t2 where "tr = t1 @ t2" "acts (stage_one m i) s t1 (Inr ()) s1" "acts (forA is (stage_one m)) s1 t2 r s'"
    by (auto simp: acts_bindA)
  then show ?case
  proof cases
    case thrown
    obtain q where "s' = s\<lparr>m_stagedQps := (m_stagedQps s)[i := q]\<rparr>" "e = BadAlloc"
      and c: "List.map fst tr = [CreateQp (qp_cap m s)]"
      using stage_one_run [OF thrown(2)] by (metis Inl_Inr_False sum.inject(1))
    moreover have "length tr = 1" using arg_cong [OF c, of length] by simp
    ultimately show ?thesis using thrown(1) c by (intro exI [of _ "(m_stagedQps s)[i := q]"]) simp
  next
    case later
    obtain q where s1: "s1 = s\<lparr>m_stagedQps := (m_stagedQps s)[i := q]\<rparr>" and qn: "q \<noteq> None"
      and t1: "List.map fst t1 = [CreateQp (qp_cap m s)]"
      using stage_one_run [OF later(2)] by (metis Inl_Inr_False)
    have p: "set is \<subseteq> {..<length (m_stagedQps s1)}" "distinct is" using Cons.prems(2,3) by (simp_all add: s1)
    obtain qs where q: "s' = s1\<lparr>m_stagedQps := qs\<rparr>" "length qs = length (m_stagedQps s1)"
      "\<forall>e. r = Inl e \<longrightarrow> e = BadAlloc"
      "r = Inr () \<longrightarrow> (\<forall>j<length qs. if j \<in> set is then qs ! j \<noteq> None else qs ! j = m_stagedQps s1 ! j)"
      "List.map fst t2 = replicate (length t2) (CreateQp (qp_cap m s1))"
      using Cons.IH [OF later(3) p] by blast
    have "(\<forall>j<length qs. if j \<in> set (i # is) then qs ! j \<noteq> None else qs ! j = m_stagedQps s ! j)" if "r = Inr ()"
    proof (intro allI impI)
      fix j assume j: "j < length qs"
      have "if j \<in> set is then qs ! j \<noteq> None else qs ! j = (m_stagedQps s)[i := q] ! j"
        using q(4) that j by (simp add: s1)
      then show "if j \<in> set (i # is) then qs ! j \<noteq> None else qs ! j = m_stagedQps s ! j"
        using qn q(2) Cons.prems(2,3) by (cases "j = i") (simp_all add: s1)
    qed
    moreover have "s' = s\<lparr>m_stagedQps := qs\<rparr>" "length qs = length (m_stagedQps s)" using q(1,2) by (simp_all add: s1)
    moreover have "length t1 = 1" using arg_cong [OF t1, of length] by simp
    then have "List.map fst tr = replicate (length tr) (CreateQp (qp_cap m s))"
      using q(5) t1 later(1) by (simp add: s1)
    ultimately show ?thesis using q(3) by blast
  qed
qed

lemma post_recvs_run:
  assumes "acts (forA is post_recv) s tr r s'"
  shows "r = Inr () \<and> s' = s\<lparr>m_postCount := m_postCount s + length is\<rparr> \<and>
    List.map fst tr = replicate (length is) PostSrqRecv"
  using assms
  by (induction "is" arbitrary: s tr) (fastforce simp: act_simps post_recv_def)+

text \<open>The number of receives the call wants to have posted.\<close>

definition remote_target :: "nat \<Rightarrow> ibverbs \<Rightarrow> nat" where
  "remote_target sz s = min (mul64 (min sz (m_maxSrs s div 4)) (m_nprocs s)) (m_maxSrs s div 4)"

lemma stageQPs_run:
  assumes "acts (stageQPs c) s t r s'" and "length (m_stagedQps s) = m_nprocs s"
  shows "\<exists>qs. s' = s\<lparr>m_stagedQps := qs\<rparr> \<and> length qs = m_nprocs s \<and> (\<forall>e. r = Inl e \<longrightarrow> e = BadAlloc) \<and>
    (\<forall>e \<in> set t. fst e \<noteq> PostSrqRecv) \<and> (r = Inr () \<longrightarrow> list_all (\<lambda>q. q \<noteq> None) qs)"
proof -
  have a: "acts (forA [0..<m_nprocs s] (stage_one c)) s t r s'"
    using assms(1) unfolding stageQPs_def acts_bind_getA .
  have p: "set [0..<m_nprocs s] \<subseteq> {..<length (m_stagedQps s)}" using assms(2) by auto
  from stage_all_run [OF a p distinct_upt] obtain qs where q: "s' = s\<lparr>m_stagedQps := qs\<rparr>"
    "length qs = length (m_stagedQps s)" "\<forall>e. r = Inl e \<longrightarrow> e = BadAlloc"
    "List.map fst t = replicate (length t) (CreateQp (qp_cap c s))"
    "r = Inr () \<longrightarrow> (\<forall>i<length qs. if i \<in> set [0..<m_nprocs s] then qs ! i \<noteq> None else qs ! i = m_stagedQps s ! i)"
    by blast
  have "fst e = CreateQp (qp_cap c s)" if "e \<in> set t" for e
    using q(4) that by (metis image_eqI in_set_replicate list.set_map)
  moreover have "list_all (\<lambda>q. q \<noteq> None) qs" if "r = Inr ()"
    using q(2,5) that assms(2) by (simp add: list_all_length)
  ultimately have "(\<forall>e \<in> set t. fst e \<noteq> PostSrqRecv) \<and> (r = Inr () \<longrightarrow> list_all (\<lambda>q. q \<noteq> None) qs)" by auto
  then show ?thesis using q(1-3) assms(2) by auto
qed

lemma top_up_run:
  assumes "acts (if p \<le> n then forA [p..<n] post_recv else retA ()) s t r s'" and "m_postCount s = p"
  shows "r = Inr () \<and> s' = s\<lparr>m_postCount := max p n\<rparr> \<and> List.map fst t = replicate (n - p) PostSrqRecv"
proof (cases "p \<le> n")
  case True
  then have "acts (forA [p..<n] post_recv) s t r s'" using assms(1) by simp
  from post_recvs_run [OF this] show ?thesis using True assms(2) by simp
next
  case False
  moreover have "s\<lparr>m_postCount := p\<rparr> = s" by (simp add: assms(2) [symmetric])
  ultimately show ?thesis using assms(1) by (simp add: act_simps)
qed

text \<open>
  C26: \<open>resizeMesgq\<close> stages one queue pair per process with the capacity asked for, bounded by a quarter of
  what the device offers, and tops up the posted receives: afterwards at least
  \<open>min(size * nprocs, maxSrs / 4)\<close> are posted and none was withdrawn.  When it returns, the object satisfies the
  precondition of \<open>reconnectQPs\<close>; when it throws, the exception is \<open>bad_alloc\<close>, the connected
  queue pairs are untouched and no receive was posted.
\<close>

theorem resizeMesgq_correct:
  assumes "acts (resizeMesgq sz) s tr r s'" and "length (m_stagedQps s) = m_nprocs s" and "m_srq s \<noteq> None"
  shows "m_connectedQps s' = m_connectedQps s \<and> m_cqSize s' = min sz (m_maxSrs s div 4) \<and>
    (case r of
       Inr _ \<Rightarrow> list_all (\<lambda>q. q \<noteq> None) (m_stagedQps s') \<and> length (m_stagedQps s') = m_nprocs s \<and>
         m_postCount s' = max (m_postCount s) (remote_target sz s) \<and>
         length (filter (\<lambda>e. fst e = PostSrqRecv) tr) = remote_target sz s - m_postCount s
     | Inl e \<Rightarrow> e = BadAlloc \<and> m_postCount s' = m_postCount s \<and> (\<forall>e \<in> set tr. fst e \<noteq> PostSrqRecv))"
proof -
  define s0 where "s0 = s\<lparr>m_cqSize := min sz (m_maxSrs s div 4)\<rparr>"
  let ?post = "if m_postCount s \<le> remote_target sz s then forA [m_postCount s..<remote_target sz s] post_recv else retA ()"
  have rt: "min (mul64 (m_cqSize s0) (m_nprocs s0)) (m_maxSrs s0 div 4) = remote_target sz s"
    by (simp add: s0_def remote_target_def)
  have f: "m_postCount s0 = m_postCount s" "m_srq s0 = m_srq s" by (simp_all add: s0_def)
  have srq: "(m_postCount s \<le> remote_target sz s \<and> m_srq s \<noteq> None) = (m_postCount s \<le> remote_target sz s)"
    using assms(3) by simp
  obtain tr0 tr1 where tr: "tr = tr0 @ tr1" "\<forall>e \<in> set tr0. fst e \<noteq> PostSrqRecv"
    and k: "acts (bindA (stageQPs (m_cqSize s0)) (\<lambda>_. ?post)) s0 tr1 r s'"
  proof -
    have "acts (bindA (if m_cqLocal s0 \<noteq> None
            then bindA (callA (ResizeCqLocal (m_cqSize s0))) (\<lambda>_. retA ()) else retA ()) (\<lambda>_.
     bindA (if remote_target sz s \<ge> m_postCount s \<and> m_cqRemote s0 \<noteq> None
            then bindA (callA (ResizeCqRemote (remote_target sz s))) (\<lambda>_. retA ()) else retA ()) (\<lambda>_.
     bindA (stageQPs (m_cqSize s0)) (\<lambda>_. ?post)))) s0 tr r s'"
      using assms(1) unfolding resizeMesgq_def acts_bind_modA acts_bind_getA s0_def [symmetric] Let_def rt f srq .
    then show ?thesis
      using that [of "[]" tr] that [of "[hd tr]" "tl tr"] that [of "[hd tr, hd (tl tr)]" "tl (tl tr)"]
      by (auto simp: act_simps split: if_splits)
  qed
  have s0: "m_nprocs s0 = m_nprocs s" "m_stagedQps s0 = m_stagedQps s" "m_connectedQps s0 = m_connectedQps s"
    "m_cqSize s0 = min sz (m_maxSrs s div 4)" by (simp_all add: s0_def)
  note stage = stageQPs_run [of _ s0, unfolded s0(1,2), OF _ assms(2)]
  from k [unfolded acts_bindA [of "stageQPs (m_cqSize s0)"]] show ?thesis
  proof (elim disjE exE conjE)
    fix e assume e: "r = Inl e" "acts (stageQPs (m_cqSize s0)) s0 tr1 (Inl e) s'"
    from stage [OF e(2)] obtain qs where "s' = s0\<lparr>m_stagedQps := qs\<rparr>" "\<forall>e'. Inl e = (Inl e' :: fault + unit) \<longrightarrow> e' = BadAlloc"
      "\<forall>e \<in> set tr1. fst e \<noteq> PostSrqRecv" by blast
    then show ?thesis using e(1) tr by (simp add: s0 f ball_Un)
  next
    fix x s1 t1 t2
    assume c: "tr1 = t1 @ t2" "acts (stageQPs (m_cqSize s0)) s0 t1 (Inr x) s1" "acts ?post s1 t2 r s'"
    obtain qs where q: "s1 = s0\<lparr>m_stagedQps := qs\<rparr>" "length qs = m_nprocs s" "list_all (\<lambda>q. q \<noteq> None) qs"
      "\<forall>e \<in> set t1. fst e \<noteq> PostSrqRecv"
      using stage [OF c(2)] by (cases x) blast
    have f1: "filter (\<lambda>e. fst e = PostSrqRecv) t1 = []" "filter (\<lambda>e. fst e = PostSrqRecv) tr0 = []"
      using q(4) tr(2) by (simp_all add: filter_empty_conv)
    have s1: "m_postCount s1 = m_postCount s" "m_connectedQps s1 = m_connectedQps s"
      "m_cqSize s1 = min sz (m_maxSrs s div 4)" "m_stagedQps s1 = qs" by (simp_all add: q(1) s0 f)
    note run = top_up_run [OF c(3) s1(1)]
    have "filter (\<lambda>e. fst e = PostSrqRecv) t2 = t2"
      using run by (metis (mono_tags, lifting) filter_True image_eqI in_set_replicate list.set_map)
    then have "length (filter (\<lambda>e. fst e = PostSrqRecv) tr) = remote_target sz s - m_postCount s"
      using run f1 tr(1) c(1) by (metis append_Nil filter_append length_map length_replicate)
    then show ?thesis using run q(2,3) s1 by simp
  qed
qed

theorem resizeMesgq_correct_witness:
  "\<exists>s'. acts (resizeMesgq 1) ((demo_verbs 0)\<lparr>m_srq := Some 9, m_maxSrs := 40\<rparr>)
     [(CreateQp 1, Handle (Some 21)), (CreateQp 1, Handle (Some 22)), (PostSrqRecv, Err 0), (PostSrqRecv, Err 0)]
     (Inr ()) s' \<and> m_postCount s' = 2"
proof -
  let ?s = "(demo_verbs 0)\<lparr>m_srq := Some 9, m_maxSrs := 40\<rparr>"
  let ?tr = "[(CreateQp 1, Handle (Some 21)), (CreateQp 1, Handle (Some 22)), (PostSrqRecv, Err 0), (PostSrqRecv, Err 0)]"
  have "\<exists>s'. acts (resizeMesgq 1) ?s ?tr (Inr ()) s'"
    by (simp add: act_defs resizeMesgq_def stageQPs_def stage_one_def post_recv_def qp_cap_def throw_if_def
        demo_verbs_def ibverbs_init_def mul64_def add64_def upt_rec Let_def)
  then obtain s' where run: "acts (resizeMesgq 1) ?s ?tr (Inr ()) s'" by blast
  have "m_postCount s' = 2"
    using resizeMesgq_correct [OF run] by (simp add: demo_verbs_def ibverbs_init_def remote_target_def mul64_def)
  then show ?thesis using run by blast
qed

section \<open>Registering memory\<close>

text \<open>The device registered the area (an empty area is not given to the device).\<close>

definition registered :: "addr \<Rightarrow> nat \<Rightarrow> ibv_mr option \<Rightarrow> event list \<Rightarrow> bool" where
  "registered a sz m tr \<longleftrightarrow>
     (if sz = 0 then tr = [] \<and> m = None
      else \<exists>rep. tr = [(RegMr a sz, rep)] \<and> the_mr rep = m \<and> m \<noteq> None)"

definition reg_refused :: "addr \<Rightarrow> nat \<Rightarrow> event list \<Rightarrow> bool" where
  "reg_refused a sz tr \<longleftrightarrow> 0 < sz \<and> (\<exists>rep. tr = [(RegMr a sz, rep)] \<and> the_mr rep = None)"

lemma registered_collectives [simp]:
  "registered a sz m tr \<Longrightarrow> collectives tr = [] \<and> coll_kinds tr = []"
  by (auto simp: registered_def split: if_splits)

text \<open>What every operation keeps: the new slot is fresh and of the kind asked for, and the other slots have the records they had.\<close>

definition slot_added :: "bool \<Rightarrow> ibverbs \<Rightarrow> slot \<Rightarrow> mem_slot \<Rightarrow> ibverbs \<Rightarrow> bool" where
  "slot_added loc s i x s' \<longleftrightarrow>
     s'\<lparr>m_memreg := m_memreg s\<rparr> = s \<and> combined_inv (m_memreg s') \<and>
     combined_capacity (m_memreg s') = combined_capacity (m_memreg s) \<and> isLocalSlot i = loc \<and>
     i \<notin> combined_live (m_memreg s) \<and> combined_live (m_memreg s') = insert i (combined_live (m_memreg s)) \<and>
     combined_lookup (m_memreg s') i = Inr x \<and>
     (\<forall>t \<in> combined_live (m_memreg s). combined_lookup (m_memreg s') t = combined_lookup (m_memreg s) t)"

lemma add_local_slot_run:
  assumes "combined_inv (m_memreg s)" and "room_local (m_memreg s)"
    and "acts (add_slot addLocalReg x) s tr r s'"
  shows "tr = [] \<and> (\<exists>i. r = Inr i \<and> slot_added True s i x s')"
proof -
  obtain i m where a: "addLocalReg (m_memreg s) x = Inr (i, m)"
    using local_reg.add_total [OF assms(1,2)] by blast
  show ?thesis using assms(3) a local_reg.add_spec [OF assms(1,2) a] combined_capacity_kept(1) [OF a]
      addLocalReg_parity [OF assms(1,2) a]
    by (simp add: add_slot_def act_simps slot_added_def)
qed

lemma add_global_slot_run:
  assumes "combined_inv (m_memreg s)" and "room_global (m_memreg s)"
    and "acts (add_slot addGlobalReg x) s tr r s'"
  shows "tr = [] \<and> (\<exists>i. r = Inr i \<and> slot_added False s i x s')"
proof -
  obtain i m where a: "addGlobalReg (m_memreg s) x = Inr (i, m)"
    using global_reg.add_total [OF assms(1,2)] by blast
  show ?thesis using assms(3) a global_reg.add_spec [OF assms(1,2) a] combined_capacity_kept(2) [OF a]
      addGlobalReg_parity [OF assms(1,2) a]
    by (simp add: add_slot_def act_simps slot_added_def)
qed

lemma update_slot_run:
  assumes "slot_added loc s i x s1" and "acts (update_slot i f) s1 tr r s'"
  shows "tr = [] \<and> r = Inr () \<and> slot_added loc s i (f x) s'"
proof -
  have l: "combined_inv (m_memreg s1)" "i \<in> combined_live (m_memreg s1)"
    "combined_lookup (m_memreg s1) i = Inr x" using assms(1) by (simp_all add: slot_added_def)
  obtain m where u: "combined_update (m_memreg s1) i f = Inr m" "combined_inv m"
    "combined_live m = combined_live (m_memreg s1)" "combined_lookup m i = Inr (f x)"
    "\<forall>t \<in> combined_live (m_memreg s1) - {i}. combined_lookup m t = combined_lookup (m_memreg s1) t"
    using local_reg.update_spec [OF l, of f] by blast
  have s1: "s1\<lparr>m_memreg := m_memreg s\<rparr> = s" using assms(1) by (simp add: slot_added_def)
  have run: "tr = []" "r = Inr ()" and s': "s' = s1\<lparr>m_memreg := m\<rparr>"
    using assms(2) u(1) by (simp_all add: update_slot_def act_simps)
  have "s'\<lparr>m_memreg := m_memreg s\<rparr> = s" "combined_capacity m = combined_capacity (m_memreg s1)"
    using s1 combined_capacity_kept(4) [OF u(1)] by (simp_all add: s')
  then show ?thesis using run u assms(1) unfolding slot_added_def by (auto simp: s')
qed

lemma add_local_bind:
  assumes "acts (bindA (add_slot addLocalReg x) f) s tr r s'"
    and "combined_inv (m_memreg s)" and "room_local (m_memreg s)"
  shows "\<exists>i s1. slot_added True s i x s1 \<and> acts (f i) s1 tr r s'"
  by (rule acts_bind_sure [OF assms(1), where P = "\<lambda>i. slot_added True s i x"])
     (use add_local_slot_run [OF assms(2,3)] in blast)+

lemma add_global_bind:
  assumes "acts (bindA (add_slot addGlobalReg x) f) s tr r s'"
    and "combined_inv (m_memreg s)" and "room_global (m_memreg s)"
  shows "\<exists>i s1. slot_added False s i x s1 \<and> acts (f i) s1 tr r s'"
  by (rule acts_bind_sure [OF assms(1), where P = "\<lambda>i. slot_added False s i x"])
     (use add_global_slot_run [OF assms(2,3)] in blast)+

lemma update_bind:
  assumes "acts (bindA (update_slot i g) f) s1 tr r s'" and "slot_added loc s i x s1"
  shows "\<exists>s2. slot_added loc s i (g x) s2 \<and> acts (f ()) s2 tr r s'"
  by (rule acts_bind_sure [OF assms(1), where P = "\<lambda>_. slot_added loc s i (g x)"])
     (use update_slot_run [OF assms(2)] in auto)

lemma reg_mr_run:
  assumes "acts (reg_mr a sz (retA ())) s tr r s'"
  shows "s' = s \<and> ((\<exists>m. r = Inr m \<and> registered a sz m tr) \<or>
       r = Inl (Exception ''Could not register memory area'') \<and> reg_refused a sz tr)"
  using assms by (auto simp: reg_mr_def act_simps registered_def reg_refused_def split: if_splits)

lemma reg_mr_global_run:
  assumes "acts (reg_mr a sz (bindA (callA (AllreduceAnd True)) (\<lambda>_. retA ()))) s tr r s'"
  shows "s' = s \<and> ((\<exists>m. r = Inr m \<and> registered a sz m tr) \<or>
       r = Inl (Exception ''Could not register memory area'') \<and>
       (\<exists>tr1 rep. reg_refused a sz tr1 \<and> tr = tr1 @ [(AllreduceAnd True, rep)]))"
  using assms by (auto simp: reg_mr_def act_simps registered_def reg_refused_def split: if_splits)

definition local_slot :: "ibverbs \<Rightarrow> addr \<Rightarrow> nat \<Rightarrow> ibv_mr option \<Rightarrow> mem_slot" where
  "local_slot s a sz m =
     \<lparr>slot_mr = m, glob = (replicate (m_nprocs s) null_registration)[m_pid s := registration a sz m]\<rparr>"

lemma regLocal_run:
  assumes "acts (regLocal a sz) s tr r s'" and "sz \<le> m_maxRegSize s"
    and inv: "combined_inv (m_memreg s)" "room_local (m_memreg s)"
  shows "(\<exists>i m. r = Inr i \<and> registered a sz m tr \<and> slot_added True s i (local_slot s a sz m) s') \<or>
    (r = Inl (Exception ''Could not register memory area'') \<and> reg_refused a sz tr \<and> s' = s)"
proof -
  define rest where "rest m = bindA (add_slot addLocalReg (empty_slot\<lparr>slot_mr := m\<rparr>)) (\<lambda>i.
     bindA (update_slot i (resize_glob (m_nprocs s))) (\<lambda>_.
     bindA (update_slot i (\<lambda>slot. slot\<lparr>glob := (glob slot)[m_pid s := registration a sz m]\<rparr>)) (\<lambda>_.
     (retA i :: slot verbs))))" for m
  have "acts (bindA (reg_mr a sz (retA ())) rest) s tr r s'"
    using assms(1,2) unfolding regLocal_def rest_def by (simp add: act_simps)
  then consider (refused) e where "r = Inl e" "acts (reg_mr a sz (retA ())) s tr (Inl e) s'"
    | (go) m s1 t1 t2 where "tr = t1 @ t2" "acts (reg_mr a sz (retA ())) s t1 (Inr m) s1" "acts (rest m) s1 t2 r s'"
    unfolding acts_bindA [of "reg_mr a sz (retA ())"] by blast
  then show ?thesis
  proof cases
    case refused
    then show ?thesis using reg_mr_run [OF refused(2)] by simp
  next
    case go
    have g: "s1 = s" "registered a sz m t1" using reg_mr_run [OF go(2)] by auto
    from go(3) g(1) obtain i s2 where a: "slot_added True s i (empty_slot\<lparr>slot_mr := m\<rparr>) s2"
      and k: "acts (bindA (update_slot i (resize_glob (m_nprocs s))) (\<lambda>_.
        bindA (update_slot i (\<lambda>slot. slot\<lparr>glob := (glob slot)[m_pid s := registration a sz m]\<rparr>)) (\<lambda>_. retA i))) s2 t2 r s'"
      unfolding rest_def using add_local_bind [OF _ inv] by blast
    from update_bind [OF k a] obtain s3 where b: "slot_added True s i (resize_glob (m_nprocs s) (empty_slot\<lparr>slot_mr := m\<rparr>)) s3"
      and k': "acts (bindA (update_slot i (\<lambda>slot. slot\<lparr>glob := (glob slot)[m_pid s := registration a sz m]\<rparr>)) (\<lambda>_. retA i)) s3 t2 r s'"
      by blast
    from update_bind [OF k' b] show ?thesis using go(1) g
      by (auto simp: act_simps resize_glob_def empty_slot_def local_slot_def vec_resize_def)
  qed
qed

lemma regGlobal_run:
  assumes "acts (regGlobal a sz) s tr r s'" and "sz \<le> m_maxRegSize s"
    and inv: "combined_inv (m_memreg s)" "room_global (m_memreg s)"
  shows "(\<exists>tr1 rep. r = Inl (Exception ''Could not register memory area'') \<and> s' = s \<and>
      reg_refused a sz tr1 \<and> tr = tr1 @ [(AllreduceAnd True, rep)]) \<or>
    (\<exists>m tr1 rep. r = Inl (Exception ''Another process could not register memory area'') \<and> s' = s \<and>
      registered a sz m tr1 \<and> the_flag rep \<and> tr = tr1 @ [(AllreduceOr False, rep)]) \<or>
    (\<exists>m tr1 rep rep' i. r = Inr i \<and> registered a sz m tr1 \<and> \<not> the_flag rep \<and>
      tr = tr1 @ [(AllreduceOr False, rep), (Allgather (RegItem (registration a sz m)), rep')] \<and>
      slot_added False s i \<lparr>slot_mr = m, glob = List.map reg_of (the_items rep')\<rparr> s')"
proof -
  let ?reg = "reg_mr a sz (bindA (callA (AllreduceAnd True)) (\<lambda>_. retA ()))"
  define rest where "rest m = bindA (callA (AllreduceOr False)) (\<lambda>f.
     bindA (throw_if (the_flag f) (Exception ''Another process could not register memory area'')) (\<lambda>_.
     bindA (add_slot addGlobalReg (empty_slot\<lparr>slot_mr := m\<rparr>)) (\<lambda>i.
     bindA (update_slot i (resize_glob (m_nprocs s))) (\<lambda>_.
     bindA (callA (Allgather (RegItem (registration a sz m)))) (\<lambda>all.
     bindA (update_slot i (\<lambda>slot. slot\<lparr>glob := List.map reg_of (the_items all)\<rparr>)) (\<lambda>_.
     (retA i :: slot verbs))))))) " for m
  have "acts (bindA ?reg rest) s tr r s'"
    using assms(1,2) unfolding regGlobal_def rest_def by (simp add: act_simps)
  then consider (refused) e where "r = Inl e" "acts ?reg s tr (Inl e) s'"
    | (go) m s1 t1 t2 where "tr = t1 @ t2" "acts ?reg s t1 (Inr m) s1" "acts (rest m) s1 t2 r s'"
    unfolding acts_bindA [of ?reg] by blast
  then show ?thesis
  proof cases
    case refused
    then show ?thesis using reg_mr_global_run [OF refused(2)] by simp
  next
    case go
    have g: "s1 = s" "registered a sz m t1" using reg_mr_global_run [OF go(2)] by auto
    from go(3) g(1) obtain rep t3 where t2: "t2 = (AllreduceOr False, rep) # t3"
      and k: "acts (bindA (throw_if (the_flag rep) (Exception ''Another process could not register memory area'')) (\<lambda>_.
        bindA (add_slot addGlobalReg (empty_slot\<lparr>slot_mr := m\<rparr>)) (\<lambda>i.
        bindA (update_slot i (resize_glob (m_nprocs s))) (\<lambda>_.
        bindA (callA (Allgather (RegItem (registration a sz m)))) (\<lambda>all.
        bindA (update_slot i (\<lambda>slot. slot\<lparr>glob := List.map reg_of (the_items all)\<rparr>)) (\<lambda>_. retA i)))))) s t3 r s'"
      unfolding rest_def acts_bind_callA by blast
    show ?thesis
    proof (cases "the_flag rep")
      case True
      then have "t3 = [] \<and> r = Inl (Exception ''Another process could not register memory area'') \<and> s' = s"
        using k by (simp add: acts_bind_throw_if)
      then show ?thesis using True g go(1) t2 by auto
    next
      case False
      then have kk: "acts (bindA (add_slot addGlobalReg (empty_slot\<lparr>slot_mr := m\<rparr>)) (\<lambda>i.
        bindA (update_slot i (resize_glob (m_nprocs s))) (\<lambda>_.
        bindA (callA (Allgather (RegItem (registration a sz m)))) (\<lambda>all.
        bindA (update_slot i (\<lambda>slot. slot\<lparr>glob := List.map reg_of (the_items all)\<rparr>)) (\<lambda>_. retA i))))) s t3 r s'"
        using k by (simp add: acts_bind_throw_if)
      from add_global_bind [OF kk inv] obtain i s2 where a: "slot_added False s i (empty_slot\<lparr>slot_mr := m\<rparr>) s2"
        and k2: "acts (bindA (update_slot i (resize_glob (m_nprocs s))) (\<lambda>_.
        bindA (callA (Allgather (RegItem (registration a sz m)))) (\<lambda>all.
        bindA (update_slot i (\<lambda>slot. slot\<lparr>glob := List.map reg_of (the_items all)\<rparr>)) (\<lambda>_. retA i)))) s2 t3 r s'"
        by blast
      from update_bind [OF k2 a] obtain s3 rep' t4 where
        b: "slot_added False s i (resize_glob (m_nprocs s) (empty_slot\<lparr>slot_mr := m\<rparr>)) s3"
        and t3: "t3 = (Allgather (RegItem (registration a sz m)), rep') # t4"
        and k3: "acts (bindA (update_slot i (\<lambda>slot. slot\<lparr>glob := List.map reg_of (the_items rep')\<rparr>)) (\<lambda>_. retA i)) s3 t4 r s'"
        unfolding acts_bind_callA by blast
      from update_bind [OF k3 b] have "r = Inr i" "t4 = []"
        "slot_added False s i \<lparr>slot_mr = m, glob = List.map reg_of (the_items rep')\<rparr> s'"
        by (auto simp: act_simps resize_glob_def empty_slot_def)
      then show ?thesis using False g go(1) t2 t3 by auto
    qed
  qed
qed

text \<open>
  \<open>regLocal\<close> on a register with room.  When the device accepts the area (an empty area is
  not passed to it) the call returns a fresh local slot whose record has the handle of the
  device and, for this process, the address, size and keys; all other slots keep their records.
  When the device refuses, it throws and nothing has changed.
\<close>

theorem regLocal_correct:
  assumes "acts (regLocal a sz) s tr r s'" and "sz \<le> m_maxRegSize s" and "m_pid s < m_nprocs s"
    and "combined_inv (m_memreg s)" and "room_local (m_memreg s)"
  shows "if reg_refused a sz tr
    then r = Inl (Exception ''Could not register memory area'') \<and> s' = s
    else \<exists>i m x. r = Inr i \<and> registered a sz m tr \<and> i \<notin> combined_live (m_memreg s) \<and>
      combined_inv (m_memreg s') \<and> combined_live (m_memreg s') = insert i (combined_live (m_memreg s)) \<and>
      combined_lookup (m_memreg s') i = Inr x \<and> slot_mr x = m \<and> length (glob x) = m_nprocs s \<and>
      glob x ! m_pid s = registration a sz m \<and>
      (\<forall>t \<in> combined_live (m_memreg s). combined_lookup (m_memreg s') t = combined_lookup (m_memreg s) t)"
proof -
  have no: "\<not> (registered a sz m tr \<and> reg_refused a sz tr)" for m
    by (auto simp: registered_def reg_refused_def)
  from regLocal_run [OF assms(1,2,4,5)] show ?thesis
  proof (elim disjE exE conjE)
    fix i m assume r: "r = Inr i" "registered a sz m tr" and ad: "slot_added True s i (local_slot s a sz m) s'"
    have "glob (local_slot s a sz m) ! m_pid s = registration a sz m" "slot_mr (local_slot s a sz m) = m"
      "length (glob (local_slot s a sz m)) = m_nprocs s"
      using assms(3) by (simp_all add: local_slot_def)
    then show ?thesis using r ad no [of m] unfolding slot_added_def by auto
  qed simp
qed

text \<open>An object with room for two slots of each kind, and an object with one local slot.\<close>

definition demo_room :: "mem_slot memreg" where
  "demo_room = \<lparr>m_slots = [empty_slot, empty_slot], m_free = [], m_free_capacity = 2, m_minNewSlotNr = 0\<rparr>"

definition demo_reg :: "nat \<Rightarrow> ibverbs" where
  "demo_reg i = (ibverbs_init i 2 1 (-1) IBV_MTU_4096)\<lparr>m_maxRegSize := 1000,
     m_memreg := \<lparr>m_local = demo_room, m_global = demo_room\<rparr>\<rparr>"

lemma demo_reg_ok:
  "combined_inv (m_memreg (demo_reg i))" "room_local (m_memreg (demo_reg i))"
  "room_global (m_memreg (demo_reg i))" "combined_live (m_memreg (demo_reg i)) = {}"
  "m_maxRegSize (demo_reg i) = 1000" "m_pid (demo_reg i) = i" "m_nprocs (demo_reg i) = 2"
  by (simp_all add: demo_reg_def demo_room_def combined_inv_def memreg_inv_def free_max_size_def
      room_local_def room_global_def memreg_room_def memreg_live_def memreg_capacity_def
      combined_live_def ibverbs_init_def)

theorem regLocal_correct_witness:
  "\<exists>i s'. acts (regLocal 4096 64) (demo_reg 1) [(RegMr 4096 64, Mr (Some \<lparr>mr_lkey = 7, mr_rkey = 8\<rparr>))] (Inr i) s' \<and>
     combined_live (m_memreg s') = {i}"
proof -
  let ?tr = "[(RegMr 4096 64, Mr (Some \<lparr>mr_lkey = 7, mr_rkey = 8\<rparr>))]"
  have nr: "\<not> reg_refused 4096 64 ?tr" by (simp add: reg_refused_def)
  obtain r s' where run: "acts (regLocal 4096 64) (demo_reg 1) ?tr r s'"
    by (simp add: act_defs regLocal_def reg_mr_def add_slot_def update_slot_def demo_reg_def demo_room_def
        addLocalReg_def memreg_add_def combined_update_def memreg_update_def ibverbs_init_def Let_def
        add64_def toLocal_def mul64_def isLocalSlot_def fromLocal_def sub64_def)
  then show ?thesis using regLocal_correct [OF run] nr demo_reg_ok [of 1] by fastforce
qed

text \<open>The device accepts every area that the call registers.\<close>

definition accepted :: "event list \<Rightarrow> bool" where
  "accepted tr \<longleftrightarrow> list_all (\<lambda>e. case fst e of RegMr a sz \<Rightarrow> the_mr (snd e) \<noteq> None | _ \<Rightarrow> True) tr"

lemma accepted_run:
  assumes "acts (regGlobal a sz) s tr r s'" and "sz \<le> m_maxRegSize s"
    and "combined_inv (m_memreg s)" "room_global (m_memreg s)" and "accepted tr"
  obtains (peer) m tr1 rep where "s' = s" "registered a sz m tr1" "the_flag rep" "tr = tr1 @ [(AllreduceOr False, rep)]"
    | (finished) m tr1 rep rep' i where "r = Inr i" "registered a sz m tr1" "\<not> the_flag rep"
      "tr = tr1 @ [(AllreduceOr False, rep), (Allgather (RegItem (registration a sz m)), rep')]"
      "slot_added False s i \<lparr>slot_mr = m, glob = List.map reg_of (the_items rep')\<rparr> s'"
  using regGlobal_run [OF assms(1-4)]
proof (elim disjE exE conjE)
  fix tr1 rep assume "reg_refused a sz tr1" "tr = tr1 @ [(AllreduceAnd True, rep)]"
  then have False using assms(5) by (auto simp: accepted_def reg_refused_def)
  then show thesis ..
qed (use peer finished in blast)+

lemma accepted_vote:
  assumes "acts (regGlobal a sz) s tr r s'" and "sz \<le> m_maxRegSize s"
    and "combined_inv (m_memreg s)" "room_global (m_memreg s)" and "accepted tr"
  shows "0 < length (collectives tr) \<and> fst (collectives tr ! 0) = AllreduceOr False"
  by (rule accepted_run [OF assms]) auto

text \<open>
  C25: \<open>regGlobal\<close> exchanges the registrations.  When the device of every process accepts its area, the
  processes make matching collective calls and all return; the record of the new slot of every
  process lists, in the order of the process numbers, the registrations of all of them, and its other slots
  keep their records.
\<close>

theorem regGlobal_exchange:
  assumes "collectives_ok trs" and "length trs = n"
    and "\<forall>i<n. acts (regGlobal (a i) (sz i)) (s i) (trs ! i) (r i) (s' i) \<and> accepted (trs ! i)"
    and "\<forall>i<n. sz i \<le> m_maxRegSize (s i) \<and> combined_inv (m_memreg (s i)) \<and> room_global (m_memreg (s i))"
  shows "matched trs \<and> (\<exists>m. \<forall>i<n. \<exists>k. r i = Inr k \<and> k \<notin> combined_live (m_memreg (s i)) \<and>
    combined_inv (m_memreg (s' i)) \<and>
    combined_live (m_memreg (s' i)) = insert k (combined_live (m_memreg (s i))) \<and>
    combined_lookup (m_memreg (s' i)) k =
      Inr \<lparr>slot_mr = m i, glob = List.map (\<lambda>j. registration (a j) (sz j) (m j)) [0..<n]\<rparr> \<and>
    (\<forall>t \<in> combined_live (m_memreg (s i)). combined_lookup (m_memreg (s' i)) t = combined_lookup (m_memreg (s i)) t))"
proof -
  have run: "acts (regGlobal (a i) (sz i)) (s i) (trs ! i) (r i) (s' i)" and acc: "accepted (trs ! i)"
    and pre: "sz i \<le> m_maxRegSize (s i)" "combined_inv (m_memreg (s i))" "room_global (m_memreg (s i))"
    if "i < n" for i using assms(3,4) that by auto
  note vote = accepted_vote [OF run pre acc]
  have m0: "round_matched trs 0"
    by (rule round_matchedI [where c = KOr]) (use vote assms(2) in auto)
  have told: "\<not> the_flag (snd (collectives (trs ! i) ! 0))" if i: "i < n" for i
  proof -
    have "collectives (trs ! i) ! 0 = (AllreduceOr False, snd (collectives (trs ! i) ! 0))"
      using vote [OF i i i i i] by (metis prod.collapse)
    from round_or [OF assms(1) _ m0 this] show ?thesis using vote assms(2) i by auto
  qed
  have "\<exists>m tr1 rep rep' k. r i = Inr k \<and> registered (a i) (sz i) m tr1 \<and>
      trs ! i = tr1 @ [(AllreduceOr False, rep), (Allgather (RegItem (registration (a i) (sz i) m)), rep')] \<and>
      slot_added False (s i) k \<lparr>slot_mr = m, glob = List.map reg_of (the_items rep')\<rparr> (s' i)" if i: "i < n" for i
  proof (rule accepted_run [OF run [OF i] pre [OF i] acc [OF i]])
    fix m tr1 rep assume "registered (a i) (sz i) m tr1" "the_flag rep" "trs ! i = tr1 @ [(AllreduceOr False, rep)]"
    then show ?thesis using told [OF i] by simp
  qed blast
  then obtain m tr1 rep rep' k where all: "\<And>i. i < n \<Longrightarrow> r i = Inr (k i) \<and> registered (a i) (sz i) (m i) (tr1 i) \<and>
      trs ! i = tr1 i @ [(AllreduceOr False, rep i), (Allgather (RegItem (registration (a i) (sz i) (m i))), rep' i)] \<and>
      slot_added False (s i) (k i) \<lparr>slot_mr = m i, glob = List.map reg_of (the_items (rep' i))\<rparr> (s' i)"
    by metis
  have c: "collectives (trs ! i) = [(AllreduceOr False, rep i), (Allgather (RegItem (registration (a i) (sz i) (m i))), rep' i)]"
    and kinds: "coll_kinds (trs ! i) = [KOr, KGather]" if "i < n" for i
    using all [OF that] by auto
  have m1: "round_matched trs 1" by (rule round_matchedI [where c = KGather]) (use c assms(2) in auto)
  have items: "List.map reg_of (the_items (rep' i)) = List.map (\<lambda>j. registration (a j) (sz j) (m j)) [0..<n]"
    if i: "i < n" for i
  proof -
    have "rep' i = Items (List.map (\<lambda>tr. case fst (collectives tr ! 1) of Allgather y \<Rightarrow> y | _ \<Rightarrow> LidItem 0) trs)"
      by (rule round_gather [OF assms(1) _ m1]) (use c [OF i] assms(2) i in auto)
    then show ?thesis using c assms(2) by (intro nth_equalityI) (auto simp: reg_of_def)
  qed
  have "matched trs" by (rule matchedI) (use kinds assms(2) in blast)
  then show ?thesis using all items unfolding slot_added_def by (intro conjI exI [of _ m]) auto
qed

definition demo_registration :: "nat \<Rightarrow> mem_registration" where
  "demo_registration i = registration (1000 * i) 64 (Some \<lparr>mr_lkey = i, mr_rkey = i + 10\<rparr>)"

definition demo_regGlobal :: "nat \<Rightarrow> event list" where
  "demo_regGlobal i =
     [(RegMr (1000 * i) 64, Mr (Some \<lparr>mr_lkey = i, mr_rkey = i + 10\<rparr>)), (AllreduceOr False, Flag False),
      (Allgather (RegItem (demo_registration i)), Items [RegItem (demo_registration 0), RegItem (demo_registration 1)])]"

lemmas reg_run_defs = act_defs regGlobal_def reg_mr_def add_slot_def update_slot_def demo_reg_def demo_room_def
  addGlobalReg_def memreg_add_def combined_update_def memreg_update_def ibverbs_init_def Let_def
  add64_def toGlobal_def mul64_def isLocalSlot_def fromGlobal_def throw_if_def

lemma demo_regGlobal_run: "\<exists>r s'. acts (regGlobal (1000 * i) 64) (demo_reg i) (demo_regGlobal i) r s'"
  by (simp add: reg_run_defs demo_regGlobal_def demo_registration_def)

theorem regGlobal_exchange_witness:
  "\<exists>k s'. acts (regGlobal 1000 64) (demo_reg 1) (demo_regGlobal 1) (Inr k) s' \<and>
     (\<exists>x. combined_lookup (m_memreg s') k = Inr x \<and> length (glob x) = 2 \<and> reg_addr (glob x ! 0) = 0)"
proof -
  define trs where "trs = [demo_regGlobal 0, demo_regGlobal 1]"
  have ok: "collectives_ok trs"
    by (simp add: trs_def collectives_ok_def demo_regGlobal_def lessThan_Suc round_ok_def or_args_def gather_args_def)
  obtain r s' where run: "\<And>i. acts (regGlobal (1000 * i) 64) (demo_reg i) (demo_regGlobal i) (r i) (s' i)"
    using demo_regGlobal_run by metis
  have at: "trs ! i = demo_regGlobal i" if "i < 2" for i
    using that by (cases i) (auto simp: trs_def)
  have len: "length trs = 2" by (simp add: trs_def)
  have h1: "\<forall>i<2. acts (regGlobal ((\<lambda>i. 1000 * i) i) ((\<lambda>_. 64) i)) (demo_reg i) (trs ! i) (r i) (s' i) \<and> accepted (trs ! i)"
    using run at by (auto simp: accepted_def demo_regGlobal_def)
  have h2: "\<forall>i<2. (\<lambda>_. 64) i \<le> m_maxRegSize (demo_reg i) \<and> combined_inv (m_memreg (demo_reg i)) \<and>
      room_global (m_memreg (demo_reg i))"
    by (simp add: demo_reg_ok)
  obtain m k where k: "r 1 = Inr k" and l: "combined_lookup (m_memreg (s' 1)) k =
      Inr \<lparr>slot_mr = m 1, glob = List.map (\<lambda>j. registration (1000 * j) 64 (m j)) [0..<2]\<rparr>"
    by (insert regGlobal_exchange [OF ok len h1 h2], elim conjE exE, drule spec [of _ 1]) auto
  have "reg_addr (registration 0 64 (m 0)) = 0" by (simp add: registration_def)
  then show ?thesis using run [of 1] k l by (intro exI [of _ k] exI [of _ "s' 1"]) (simp add: upt_rec)
qed

text \<open>
  when the device refuses the area of one process but not that of another, the error path of
  \<open>regGlobal\<close> does not match the others: the process that fails calls \<open>allreduceAnd\<close> where the others call
  \<open>allreduceOr\<close>, so no matter what the answers are, the collective calls of the two differ.
\<close>

theorem regGlobal_failure_mismatch:
  assumes "acts (regGlobal a1 sz1) s1 tr1 r1 s1'" and "acts (regGlobal a2 sz2) s2 tr2 r2 s2'"
    and "sz1 \<le> m_maxRegSize s1 \<and> combined_inv (m_memreg s1) \<and> room_global (m_memreg s1)"
    and "sz2 \<le> m_maxRegSize s2 \<and> combined_inv (m_memreg s2) \<and> room_global (m_memreg s2)"
    and "\<not> accepted tr1" and "accepted tr2"
  shows "fst (hd (collectives tr1)) = AllreduceAnd True \<and> fst (hd (collectives tr2)) = AllreduceOr False \<and>
    \<not> matched [tr1, tr2] \<and> \<not> matched [tr2, tr1] \<and> (\<exists>e. r1 = Inl e)"
proof -
  have acc: "accepted (t @ [(AllreduceOr False, rep)])" "accepted (t @ [(AllreduceOr False, rep), (Allgather x, rep')])"
    if "registered a1 sz1 m t" for t m rep x rep'
    using that by (auto simp: accepted_def registered_def split: if_splits)
  have one: "\<exists>rep. collectives tr1 = [(AllreduceAnd True, rep)] \<and> (\<exists>e. r1 = Inl e)"
    using regGlobal_run [OF assms(1)] assms(3,5) acc by (auto simp: reg_refused_def)
  have two: "\<exists>e es. collectives tr2 = e # es \<and> fst e = AllreduceOr False"
    using accepted_vote [OF assms(2)] assms(4,6) by (cases "collectives tr2") auto
  then show ?thesis using one
    by (auto simp: matched_def coll_kinds_collectives [of tr1] coll_kinds_collectives [of tr2])
qed

theorem regGlobal_failure_mismatch_witness:
  "\<not> matched [[(RegMr 0 64, Mr None), (AllreduceAnd True, Flag True)], demo_regGlobal 1]"
proof -
  let ?tr = "[(RegMr 0 64, Mr None), (AllreduceAnd True, Flag True)]"
  obtain r s' where run: "acts (regGlobal 1000 64) (demo_reg 1) (demo_regGlobal 1) r s'"
    using demo_regGlobal_run [of 1] by auto
  have bad: "acts (regGlobal 0 64) (demo_reg 0) ?tr (Inl (Exception ''Could not register memory area'')) (demo_reg 0)"
    by (simp add: reg_run_defs)
  show ?thesis
    using regGlobal_failure_mismatch [OF bad run]
    by (simp add: demo_reg_ok accepted_def demo_regGlobal_def)
qed

end
