(* ===== verification/Sparse_Set.thy ===== *)
theory Sparse_Set imports Prelude begin

text \<open>
  \<open>SparseSet<T>\<close> of \<open>src/common/sparseset.hpp\<close>: a set over a range of an integral type with
  constant time insertion and removal, kept as a permutation \<open>m_domain\<close> of the offsets of the
  range, its inverse \<open>m_map\<close>, and the number \<open>m_size\<close> of leading entries of the permutation that
  are in the set.  Values of \<open>T\<close> are \<open>int\<close>, sizes \<open>nat\<close>.  \<open>ok k\<close> says whether
  the \<open>k\<close>-th allocation of a call succeeds; \<open>resize\<close> to a smaller size allocates nothing.

  The interface the users rely on (the dirty lists of \<open>MessageSort\<close> and \<open>MemoryTable\<close>) is the
  locale \<open>dirty_list\<close>, interpreted for sets whose range starts at 0.
\<close>

section \<open>The class\<close>

record sparse =
  sp_min :: int
  sp_max :: int
  sp_size :: nat
  sp_domain :: "int list"
  sp_map :: "nat list"

definition index_of_T :: "int \<Rightarrow> nat" where
  "index_of_T x = (if x < 0 then SIZE_MAX else nat x)"

definition resize_ok :: "(nat \<Rightarrow> bool) \<Rightarrow> nat \<Rightarrow> nat \<Rightarrow> 'a list \<Rightarrow> bool" where
  "resize_ok ok k n xs \<longleftrightarrow> n \<le> length xs \<or> ok k"

definition sparse_max_size :: nat where
  "sparse_max_size = 1152921504606846975"

text \<open>The default constructor: the empty range \<open>[1, 0]\<close>.\<close>

definition sparse_empty :: sparse where
  "sparse_empty = \<lparr>sp_min = 1, sp_max = 0, sp_size = 0, sp_domain = [], sp_map = []\<rparr>"

definition sparse_reset :: "(nat \<Rightarrow> bool) \<Rightarrow> sparse \<Rightarrow> int \<Rightarrow> int \<Rightarrow> sparse \<times> fault option" where
  "sparse_reset ok s mn mx =
     (if \<not> mx \<ge> mn then (s, Some AssertionFailed)
      else if \<not> nat (mx - mn) < sparse_max_size then (s, Some AssertionFailed)
      else
        let size = nat (mx - mn + 1);
            oldSize = length (sp_domain s)
        in if \<not> resize_ok ok 0 size (sp_domain s)
           then (s\<lparr>sp_domain := vec_resize oldSize 0 (sp_domain s)\<rparr>, Some BadAlloc)
           else if \<not> resize_ok ok 1 size (sp_map s)
           then (s\<lparr>sp_domain := vec_resize oldSize 0 (vec_resize size 0 (sp_domain s))\<rparr>, Some BadAlloc)
           else
             let s1 = s\<lparr>sp_domain := map int [0..<size], sp_map := [0..<size],
                        sp_min := mn, sp_max := mx, sp_size := 0\<rparr>
             in (s1, if int (length (sp_domain s1)) = sp_max s1 - sp_min s1 + 1 then None
                     else Some AssertionFailed))"

text \<open>The constructor \<open>SparseSet(min, max)\<close>.\<close>

definition sparse_new :: "(nat \<Rightarrow> bool) \<Rightarrow> int \<Rightarrow> int \<Rightarrow> sparse \<times> fault option" where
  "sparse_new ok mn mx =
     sparse_reset ok \<lparr>sp_min = 0, sp_max = 0, sp_size = 0, sp_domain = [], sp_map = []\<rparr> mn mx"

definition sparse_extend :: "(nat \<Rightarrow> bool) \<Rightarrow> sparse \<Rightarrow> int \<Rightarrow> sparse \<times> fault option" where
  "sparse_extend ok s newMax =
     (if \<not> newMax \<ge> sp_max s then (s, Some AssertionFailed)
      else if \<not> nat (newMax - sp_min s) < sparse_max_size then (s, Some AssertionFailed)
      else
        let newSize = nat (newMax - sp_min s + 1);
            oldSize = length (sp_domain s)
        in if int (length (sp_domain s)) \<noteq> sp_max s - sp_min s + 1 then (s, Some AssertionFailed)
           else if \<not> newSize > oldSize then (s, Some AssertionFailed)
           else if \<not> resize_ok ok 0 newSize (sp_domain s)
           then (s\<lparr>sp_domain := vec_resize oldSize 0 (sp_domain s)\<rparr>, Some BadAlloc)
           else if \<not> resize_ok ok 1 newSize (sp_map s)
           then (s\<lparr>sp_domain := vec_resize oldSize 0 (vec_resize newSize 0 (sp_domain s))\<rparr>, Some BadAlloc)
           else
             let d = vec_resize newSize 0 (sp_domain s);
                 m = vec_resize newSize 0 (sp_map s);
                 s1 = s\<lparr>sp_domain := take oldSize d @ map int [oldSize..<newSize],
                        sp_map := take oldSize m @ [oldSize..<newSize],
                        sp_max := newMax\<rparr>
             in (s1, if int (length (sp_domain s1)) = sp_max s1 - sp_min s1 + 1 then None
                     else Some AssertionFailed))"

text \<open>The popping loop of \<open>shrink\<close>.\<close>

function shrink_loop :: "nat \<Rightarrow> int \<Rightarrow> int list \<Rightarrow> int list" where
  "shrink_loop targetSize newMax d =
     (if length d > targetSize \<and> last d > newMax then shrink_loop targetSize newMax (butlast d) else d)"
  by pat_completeness auto
termination
  by (relation "measure (\<lambda>(t, n, d). length d)") auto

declare shrink_loop.simps [simp del]

definition sparse_shrink :: "sparse \<Rightarrow> int \<Rightarrow> fault + sparse" where
  "sparse_shrink s newMax =
     bindE (ASSERT (newMax \<le> sp_max s)) (\<lambda>_.
     bindE (ASSERT (sp_min s \<le> newMax)) (\<lambda>_.
     bindE (ASSERT (int (length (sp_domain s)) = sp_max s - sp_min s + 1)) (\<lambda>_.
     let targetSize = max (sp_size s) (nat (newMax - sp_min s + 1));
         d = shrink_loop targetSize newMax (sp_domain s);
         s1 = s\<lparr>sp_domain := d, sp_max := int (length d) + sp_min s - 1,
                sp_map := vec_resize (length d) 0 (sp_map s)\<rparr>
     in bindE (ASSERT (length (sp_domain s1) \<ge> sp_size s1)) (\<lambda>_.
        bindE (ASSERT (int (length (sp_domain s1)) = sp_max s1 - sp_min s1 + 1)) (\<lambda>_.
        bindE (ASSERT (sp_max s1 \<ge> sp_min s1)) (\<lambda>_.
        bindE (ASSERT (length (sp_map s1) = length (sp_domain s1))) (\<lambda>_. Inr s1)))))))"

definition sparse_resize :: "(nat \<Rightarrow> bool) \<Rightarrow> sparse \<Rightarrow> int \<Rightarrow> sparse \<times> fault option" where
  "sparse_resize ok s newMax =
     (if newMax < sp_max s
      then (case sparse_shrink s newMax of Inl e \<Rightarrow> (s, Some e) | Inr s' \<Rightarrow> (s', None))
      else if newMax > sp_max s then sparse_extend ok s newMax
      else (s, None))"

definition sparse_clear :: "sparse \<Rightarrow> sparse" where
  "sparse_clear s = s\<lparr>sp_size := 0\<rparr>"

definition sparse_is_empty :: "sparse \<Rightarrow> bool" where
  "sparse_is_empty s \<longleftrightarrow> sp_size s = 0"

definition sparse_range :: "sparse \<Rightarrow> int \<times> int" where
  "sparse_range s = (sp_min s, sp_max s)"

text \<open>\<open>begin() .. end()\<close>: what an iteration over the set reads.\<close>

definition sparse_iterate :: "sparse \<Rightarrow> int list" where
  "sparse_iterate s = take (sp_size s) (sp_domain s)"

definition sparse_contains :: "sparse \<Rightarrow> int \<Rightarrow> bool" where
  "sparse_contains s x \<longleftrightarrow>
     x \<ge> sp_min s \<and> x \<le> sp_max s \<and> sp_map s ! nat (x - sp_min s) < sp_size s"

text \<open>\<open>find\<close>: the distance of the iterator from \<open>begin()\<close>; \<open>end()\<close> is \<open>m_size\<close>.\<close>

definition sparse_find :: "sparse \<Rightarrow> int \<Rightarrow> nat" where
  "sparse_find s x =
     (if x < sp_min s then sp_size s
      else if x > sp_max s then sp_size s
      else if sp_map s ! nat (x - sp_min s) \<ge> sp_size s then sp_size s
      else sp_map s ! nat (x - sp_min s))"

text \<open>The two swaps that \<open>insert\<close> and \<open>erase\<close> share.\<close>

definition sparse_exchange :: "sparse \<Rightarrow> nat \<Rightarrow> nat \<Rightarrow> fault + sparse" where
  "sparse_exchange s a b =
     bindE (vec_swap (sp_domain s) a b) (\<lambda>d.
     bindE (vec_swap (sp_map s) (index_of_T (d ! a)) (index_of_T (d ! b))) (\<lambda>m.
     Inr (s\<lparr>sp_domain := d, sp_map := m\<rparr>)))"

definition sparse_insert :: "sparse \<Rightarrow> int \<Rightarrow> fault + sparse" where
  "sparse_insert s x =
     bindE (ASSERT (x \<ge> sp_min s)) (\<lambda>_.
     bindE (ASSERT (x \<le> sp_max s)) (\<lambda>_.
     if \<not> sparse_contains s x then
       bindE (vec_at (sp_map s) (nat (x - sp_min s))) (\<lambda>a.
       bindE (sparse_exchange s a (sp_size s)) (\<lambda>s1.
       Inr (s1\<lparr>sp_size := sp_size s1 + 1\<rparr>)))
     else Inr s))"

definition sparse_erase :: "sparse \<Rightarrow> int \<Rightarrow> fault + sparse" where
  "sparse_erase s x =
     bindE (ASSERT (x \<ge> sp_min s)) (\<lambda>_.
     bindE (ASSERT (x \<le> sp_max s)) (\<lambda>_.
     if sparse_contains s x then
       let s1 = s\<lparr>sp_size := sp_size s - 1\<rparr> in
       bindE (vec_at (sp_map s1) (nat (x - sp_min s1))) (\<lambda>a.
       sparse_exchange s1 a (sp_size s1))
     else Inr s))"

section \<open>Invariant and abstraction\<close>

definition inverse_lists :: "int list \<Rightarrow> nat list \<Rightarrow> bool" where
  "inverse_lists d m \<longleftrightarrow>
     length d = length m \<and>
     (\<forall>i < length d. 0 \<le> d ! i \<and> nat (d ! i) < length d \<and> m ! nat (d ! i) = i) \<and>
     (\<forall>k < length m. m ! k < length d \<and> d ! (m ! k) = int k)"

definition sparse_inv :: "sparse \<Rightarrow> bool" where
  "sparse_inv s \<longleftrightarrow>
     inverse_lists (sp_domain s) (sp_map s) \<and>
     int (length (sp_domain s)) = sp_max s - sp_min s + 1 \<and>
     sp_size s \<le> length (sp_domain s) \<and>
     length (sp_domain s) \<le> sparse_max_size"

definition sparse_set :: "sparse \<Rightarrow> int set" where
  "sparse_set s = {x. sparse_contains s x}"

lemma inverse_lists_upt: "inverse_lists (map int [0..<n]) [0..<n]"
  by (simp add: inverse_lists_def)

lemma inverse_lists_extend:
  assumes "inverse_lists d m" and "length d \<le> n"
  shows "inverse_lists (d @ map int [length d..<n]) (m @ [length d..<n])"
  using assms by (auto simp: inverse_lists_def nth_append)

lemma inverse_lists_exchange:
  assumes inv: "inverse_lists d m" and a: "a < length d" and b: "b < length d"
  defines "d' \<equiv> d[a := d ! b, b := d ! a]"
  defines "m' \<equiv> m[nat (d ! a) := b, nat (d ! b) := a]"
  shows "inverse_lists d' m'"
proof -
  have len: "length d = length m" using inv by (simp add: inverse_lists_def)
  have D: "0 \<le> d ! i" "nat (d ! i) < length m" "m ! nat (d ! i) = i" if "i < length d" for i
    using inv that by (auto simp: inverse_lists_def)
  have M: "m ! k < length d" "d ! (m ! k) = int k" if "k < length m" for k
    using inv that by (auto simp: inverse_lists_def)
  have inj: "d ! i = d ! j \<longleftrightarrow> i = j" if "i < length d" "j < length d" for i j
    using D(3) that by metis
  have injn: "nat (d ! i) = nat (d ! j) \<longleftrightarrow> i = j" if "i < length d" "j < length d" for i j
    using D(3) that by metis
  have d'_nth: "d' ! i = d ! (if i = b then a else if i = a then b else i)" if "i < length d" for i
    using that a b by (auto simp: d'_def nth_list_update)
  have m'_nth: "m' ! k = (if m ! k = b then a else if m ! k = a then b else m ! k)" if "k < length m" for k
  proof -
    have k: "k = nat (d ! (m ! k))" using M(2) [OF that] by simp
    have e: "nat (d ! i) = k \<longleftrightarrow> m ! k = i" if "i < length d" for i
      using injn [OF that M(1) [OF \<open>k < length m\<close>]] k by metis
    show ?thesis using D(2) [OF a] D(2) [OF b] that
      by (simp add: m'_def nth_list_update e [OF a] e [OF b])
  qed
  have "0 \<le> d' ! i \<and> nat (d' ! i) < length d' \<and> m' ! nat (d' ! i) = i" if i: "i < length d'" for i
  proof -
    let ?i = "if i = b then a else if i = a then b else i"
    have i': "i < length d" and l: "?i < length d" using i a b by (auto simp: d'_def)
    show ?thesis using D [OF l] m'_nth [of "nat (d ! ?i)"] d'_nth [OF i'] len
      by (auto simp: d'_def split: if_splits)
  qed
  moreover have "m' ! k < length d' \<and> d' ! (m' ! k) = int k" if k: "k < length m'" for k
  proof -
    have k': "k < length m" using k by (simp add: m'_def)
    show ?thesis using M [OF k'] m'_nth [OF k'] a b d'_nth by (auto simp: d'_def)
  qed
  ultimately show ?thesis using len by (simp add: inverse_lists_def d'_def m'_def)
qed

lemma sparse_exchange_ok:
  assumes inv: "inverse_lists (sp_domain s) (sp_map s)"
    and a: "a < length (sp_domain s)" and b: "b < length (sp_domain s)"
  shows "sparse_exchange s a b =
    Inr (s\<lparr>sp_domain := (sp_domain s)[a := sp_domain s ! b, b := sp_domain s ! a],
           sp_map := (sp_map s)[nat (sp_domain s ! a) := b, nat (sp_domain s ! b) := a]\<rparr>)"
proof -
  let ?d = "sp_domain s" and ?m = "sp_map s"
  have D: "0 \<le> ?d ! i" "nat (?d ! i) < length ?m" "?m ! nat (?d ! i) = i" if "i < length ?d" for i
    using inv that by (auto simp: inverse_lists_def)
  have nb: "(?d[a := ?d ! b, b := ?d ! a]) ! b = ?d ! a" using b by simp
  have na: "(?d[a := ?d ! b, b := ?d ! a]) ! a = ?d ! b" using a b by (auto simp: nth_list_update)
  have idx: "index_of_T (?d ! i) = nat (?d ! i)" if "i < length ?d" for i
    using D(1) [OF that] by (simp add: index_of_T_def)
  have "?m[nat (?d ! b) := a, nat (?d ! a) := b] = ?m[nat (?d ! a) := b, nat (?d ! b) := a]"
  proof (cases "a = b")
    case False
    then have "nat (?d ! a) \<noteq> nat (?d ! b)" using D(3) [OF a] D(3) [OF b] by metis
    then show ?thesis by (simp add: list_update_swap)
  qed simp
  then show ?thesis using a b D
    by (simp add: sparse_exchange_def nb na idx)
qed

section \<open>The operations under the invariant\<close>

lemma sparse_inv_nth:
  assumes "sparse_inv s"
  shows "sp_min s \<le> x \<Longrightarrow> x \<le> sp_max s \<Longrightarrow> nat (x - sp_min s) < length (sp_map s)"
    and "k < length (sp_map s) \<Longrightarrow> sp_map s ! k < length (sp_domain s) \<and> sp_domain s ! (sp_map s ! k) = int k"
    and "i < length (sp_domain s) \<Longrightarrow> 0 \<le> sp_domain s ! i \<and> nat (sp_domain s ! i) < length (sp_map s) \<and>
           sp_map s ! nat (sp_domain s ! i) = i"
    and "length (sp_map s) = length (sp_domain s)"
  using assms by (auto simp: sparse_inv_def inverse_lists_def)

lemma sparse_map_inj:
  assumes inv: "sparse_inv s" and j: "j < length (sp_map s)" and k: "k < length (sp_map s)"
  shows "sp_map s ! j = sp_map s ! k \<longleftrightarrow> j = k"
  using sparse_inv_nth(2) [OF inv j] sparse_inv_nth(2) [OF inv k] by (metis of_nat_eq_iff)

lemma sparse_set_range: "x \<in> sparse_set s \<Longrightarrow> sp_min s \<le> x \<and> x \<le> sp_max s"
  by (simp add: sparse_set_def sparse_contains_def)

lemma sparse_set_clear [simp]: "sparse_set (sparse_clear s) = {}"
  by (simp add: sparse_set_def sparse_clear_def sparse_contains_def)

lemma sparse_inv_clear: "sparse_inv s \<Longrightarrow> sparse_inv (sparse_clear s)"
  by (simp add: sparse_inv_def sparse_clear_def)

text \<open>Iteration reads the offsets of the elements: the set itself only when the range starts at 0.\<close>

lemma sparse_iterate_set:
  assumes inv: "sparse_inv s"
  shows "set (sparse_iterate s) = (\<lambda>x. x - sp_min s) ` sparse_set s"
    and "distinct (sparse_iterate s)"
    and "length (sparse_iterate s) = sp_size s"
proof -
  note n = sparse_inv_nth [OF inv]
  have sz: "sp_size s \<le> length (sp_domain s)" and len: "int (length (sp_domain s)) = sp_max s - sp_min s + 1"
    using inv by (simp_all add: sparse_inv_def)
  show "length (sparse_iterate s) = sp_size s" using sz by (simp add: sparse_iterate_def)
  show "set (sparse_iterate s) = (\<lambda>x. x - sp_min s) ` sparse_set s"
  proof (intro equalityI subsetI)
    fix y assume "y \<in> set (sparse_iterate s)"
    then obtain i where i: "i < sp_size s" "y = sp_domain s ! i"
      using sz by (auto simp: sparse_iterate_def in_set_conv_nth)
    then have "0 \<le> y \<and> nat y < length (sp_domain s) \<and> sp_map s ! nat y = i"
      using n(3) [of i] n(4) sz by auto
    then have "y + sp_min s \<in> sparse_set s" using i len by (auto simp: sparse_set_def sparse_contains_def)
    then show "y \<in> (\<lambda>x. x - sp_min s) ` sparse_set s" by force
  next
    fix y assume "y \<in> (\<lambda>x. x - sp_min s) ` sparse_set s"
    then obtain x where x: "y = x - sp_min s" "sp_min s \<le> x" "x \<le> sp_max s"
      and lt: "sp_map s ! nat (x - sp_min s) < sp_size s"
      by (auto simp: sparse_set_def sparse_contains_def)
    then have "sp_domain s ! (sp_map s ! nat (x - sp_min s)) = y"
      using n(1) [of x] n(2) [of "nat (x - sp_min s)"] by simp
    then show "y \<in> set (sparse_iterate s)" using lt sz
      by (auto simp: sparse_iterate_def in_set_conv_nth)
  qed
  have "distinct (sp_domain s)"
    unfolding distinct_conv_nth using n(3) by metis
  then show "distinct (sparse_iterate s)" by (simp add: sparse_iterate_def)
qed

lemma sparse_size_card: "sparse_inv s \<Longrightarrow> sp_size s = card (sparse_set s)"
proof -
  assume inv: "sparse_inv s"
  have "card ((\<lambda>x. x - sp_min s) ` sparse_set s) = card (sparse_set s)"
    by (rule card_image) (simp add: inj_on_def)
  then show ?thesis using sparse_iterate_set [OF inv] distinct_card [of "sparse_iterate s"] by simp
qed

lemma sparse_exchange_map:
  assumes inv: "inverse_lists (sp_domain s) (sp_map s)"
    and a: "a < length (sp_domain s)" and b: "b < length (sp_domain s)"
    and k: "k < length (sp_map s)"
  shows "(sp_map s)[nat (sp_domain s ! a) := b, nat (sp_domain s ! b) := a] ! k =
    (if sp_map s ! k = b then a else if sp_map s ! k = a then b else sp_map s ! k)"
proof -
  have D: "nat (sp_domain s ! i) < length (sp_map s)" "sp_map s ! nat (sp_domain s ! i) = i"
    if "i < length (sp_domain s)" for i
    using inv that by (auto simp: inverse_lists_def)
  have kk: "nat (sp_domain s ! (sp_map s ! k)) = k" using inv k by (auto simp: inverse_lists_def)
  have e: "nat (sp_domain s ! i) = k \<longleftrightarrow> sp_map s ! k = i" if "i < length (sp_domain s)" for i
    using D(2) [OF that] kk by metis
  show ?thesis using D(1) [OF a] D(1) [OF b] k by (simp add: nth_list_update e [OF a] e [OF b])
qed

lemma sparse_insert_spec:
  assumes inv: "sparse_inv s" and lo: "sp_min s \<le> x" and hi: "x \<le> sp_max s"
  shows "\<exists>s'. sparse_insert s x = Inr s' \<and> sparse_inv s' \<and> sparse_set s' = insert x (sparse_set s) \<and>
    sp_min s' = sp_min s \<and> sp_max s' = sp_max s"
proof (cases "sparse_contains s x")
  case True
  then show ?thesis using inv lo hi by (auto simp: sparse_insert_def sparse_set_def)
next
  case False
  let ?k = "nat (x - sp_min s)" and ?b = "sp_size s"
  let ?a = "sp_map s ! ?k"
  note n = sparse_inv_nth [OF inv]
  have k: "?k < length (sp_map s)" by (rule n(1) [OF lo hi])
  have a: "?a < length (sp_domain s)" using n(2) [OF k] by simp
  have ab: "?b \<le> ?a" using False lo hi by (simp add: sparse_contains_def)
  then have b: "?b < length (sp_domain s)" using a by simp
  have il: "inverse_lists (sp_domain s) (sp_map s)" using inv by (simp add: sparse_inv_def)
  let ?s = "s\<lparr>sp_domain := (sp_domain s)[?a := sp_domain s ! ?b, ?b := sp_domain s ! ?a],
              sp_map := (sp_map s)[nat (sp_domain s ! ?a) := ?b, nat (sp_domain s ! ?b) := ?a],
              sp_size := sp_size s + 1\<rparr>"
  have eq: "sparse_insert s x = Inr ?s"
    using False lo hi k by (simp add: sparse_insert_def sparse_exchange_ok [OF il a b])
  have "sparse_inv ?s"
    using inv b inverse_lists_exchange [OF il a b] by (simp add: sparse_inv_def)
  moreover have "sparse_contains ?s y \<longleftrightarrow> y = x \<or> sparse_contains s y" for y
  proof (cases "sp_min s \<le> y \<and> y \<le> sp_max s")
    case True
    let ?j = "nat (y - sp_min s)"
    have j: "?j < length (sp_map s)" using n(1) True by simp
    have "sp_map s ! ?j = ?a \<longleftrightarrow> ?j = ?k" by (rule sparse_map_inj [OF inv j k])
    moreover have "?j = ?k \<longleftrightarrow> y = x" using True lo by auto
    ultimately show ?thesis using True ab sparse_exchange_map [OF il a b j]
      by (auto simp: sparse_contains_def)
  next
    case False
    then show ?thesis using lo hi by (auto simp: sparse_contains_def)
  qed
  ultimately show ?thesis using eq by (auto simp: sparse_set_def)
qed

lemma swapped_less:
  "a < n \<Longrightarrow> (if v = n - 1 then a else if v = a then n - 1 else v) < n - 1 \<longleftrightarrow> v \<noteq> a \<and> v < n" for a v n :: nat
  by auto

lemma sparse_erase_spec:
  assumes inv: "sparse_inv s" and lo: "sp_min s \<le> x" and hi: "x \<le> sp_max s"
  shows "\<exists>s'. sparse_erase s x = Inr s' \<and> sparse_inv s' \<and> sparse_set s' = sparse_set s - {x} \<and>
    sp_min s' = sp_min s \<and> sp_max s' = sp_max s"
proof (cases "sparse_contains s x")
  case False
  then show ?thesis using inv lo hi by (auto simp: sparse_erase_def sparse_set_def)
next
  case True
  let ?k = "nat (x - sp_min s)" and ?b = "sp_size s - 1"
  let ?a = "sp_map s ! ?k"
  note n = sparse_inv_nth [OF inv]
  have k: "?k < length (sp_map s)" by (rule n(1) [OF lo hi])
  have a: "?a < length (sp_domain s)" using n(2) [OF k] by simp
  have asz: "?a < sp_size s" using True by (simp add: sparse_contains_def)
  then have b: "?b < length (sp_domain s)" using inv by (auto simp: sparse_inv_def)
  have il: "inverse_lists (sp_domain s) (sp_map s)" using inv by (simp add: sparse_inv_def)
  let ?s1 = "s\<lparr>sp_size := ?b\<rparr>"
  let ?s = "?s1\<lparr>sp_domain := (sp_domain s)[?a := sp_domain s ! ?b, ?b := sp_domain s ! ?a],
              sp_map := (sp_map s)[nat (sp_domain s ! ?a) := ?b, nat (sp_domain s ! ?b) := ?a]\<rparr>"
  have eq: "sparse_erase s x = Inr ?s"
    using True lo hi k sparse_exchange_ok [of ?s1 ?a ?b] il a b
    by (simp add: sparse_erase_def Let_def)
  have "sparse_inv ?s"
    using inv b inverse_lists_exchange [OF il a b] by (simp add: sparse_inv_def)
  moreover have "sparse_contains ?s y \<longleftrightarrow> y \<noteq> x \<and> sparse_contains s y" for y
  proof (cases "sp_min s \<le> y \<and> y \<le> sp_max s")
    case rng: True
    let ?j = "nat (y - sp_min s)"
    have j: "?j < length (sp_map s)" using n(1) rng by simp
    have "sp_map s ! ?j = ?a \<longleftrightarrow> ?j = ?k" by (rule sparse_map_inj [OF inv j k])
    moreover have "?j = ?k \<longleftrightarrow> y = x" using rng lo by auto
    moreover have "sparse_contains ?s y \<longleftrightarrow>
        (if sp_map s ! ?j = ?b then ?a else if sp_map s ! ?j = ?a then ?b else sp_map s ! ?j) < ?b"
      using rng sparse_exchange_map [OF il a b j] by (simp add: sparse_contains_def)
    then have "sparse_contains ?s y \<longleftrightarrow> sp_map s ! ?j \<noteq> ?a \<and> sp_map s ! ?j < sp_size s"
      unfolding swapped_less [OF asz] .
    ultimately show ?thesis using rng unfolding sparse_contains_def by blast
  next
    case False
    then show ?thesis by (auto simp: sparse_contains_def)
  qed
  ultimately show ?thesis using eq by (auto simp: sparse_set_def)
qed

lemma sparse_reset_spec:
  assumes "sparse_reset ok s mn mx = (s', None)"
  shows "sparse_inv s' \<and> sparse_set s' = {} \<and> sp_min s' = mn \<and> sp_max s' = mx"
proof -
  have "mn \<le> mx" and sz: "nat (mx - mn) < sparse_max_size"
    and s': "s' = s\<lparr>sp_domain := map int [0..<nat (mx - mn + 1)], sp_map := [0..<nat (mx - mn + 1)],
                    sp_min := mn, sp_max := mx, sp_size := 0\<rparr>"
    using assms by (auto simp: sparse_reset_def Let_def split: if_splits)
  then show ?thesis
    by (auto simp: sparse_inv_def sparse_set_def sparse_contains_def inverse_lists_upt)
qed

lemma sparse_reset_total:
  assumes "mn \<le> mx" and "nat (mx - mn) < sparse_max_size" and "\<And>k. ok k"
  shows "\<exists>s'. sparse_reset ok s mn mx = (s', None)"
  using assms by (simp add: sparse_reset_def Let_def resize_ok_def)

text \<open>An allocation failure of \<open>reset\<close> or \<open>extend\<close> leaves the set as it was.\<close>

lemma vec_resize_back: "vec_resize (length xs) d xs = xs" "length xs \<le> n \<Longrightarrow> vec_resize (length xs) d (vec_resize n d xs) = xs"
  by (auto simp: vec_resize_def)

lemma sparse_reset_failed:
  assumes inv: "sparse_inv s" and f: "sparse_reset ok s mn mx = (s', Some e)"
  shows "s' = s"
proof -
  have "length (sp_map s) = length (sp_domain s)" by (rule sparse_inv_nth(4) [OF inv])
  then show ?thesis using f
    by (auto simp: sparse_reset_def Let_def resize_ok_def vec_resize_back split: if_splits)
qed

lemma sparse_extend_failed:
  assumes inv: "sparse_inv s" and f: "sparse_extend ok s mx = (s', Some e)"
  shows "s' = s"
proof -
  have "length (sp_map s) = length (sp_domain s)" by (rule sparse_inv_nth(4) [OF inv])
  then show ?thesis using f inv
    by (auto simp: sparse_extend_def Let_def resize_ok_def vec_resize_back sparse_inv_def split: if_splits)
qed

lemma take_vec_resize [simp]: "length xs \<le> n \<Longrightarrow> take (length xs) (vec_resize n d xs) = xs"
  by (simp add: vec_resize_def)

lemma sparse_extend_spec:
  assumes inv: "sparse_inv s" and f: "sparse_extend ok s mx = (s', None)"
  shows "sparse_inv s' \<and> sparse_set s' = sparse_set s \<and> sp_min s' = sp_min s \<and> sp_max s' = mx"
proof -
  have il: "inverse_lists (sp_domain s) (sp_map s)" and len: "int (length (sp_domain s)) = sp_max s - sp_min s + 1"
    and lm: "length (sp_map s) = length (sp_domain s)" and sz: "sp_size s \<le> length (sp_domain s)"
    using inv by (auto simp: sparse_inv_def inverse_lists_def)
  let ?n = "nat (mx - sp_min s + 1)"
  have mx: "sp_max s \<le> mx" and bd: "nat (mx - sp_min s) < sparse_max_size" and gt: "length (sp_domain s) < ?n"
    and s'0: "s' = s\<lparr>sp_domain := take (length (sp_domain s)) (vec_resize ?n 0 (sp_domain s)) @ map int [length (sp_domain s)..<?n],
             sp_map := take (length (sp_domain s)) (vec_resize ?n 0 (sp_map s)) @ [length (sp_domain s)..<?n], sp_max := mx\<rparr>"
    using f by (auto simp: sparse_extend_def Let_def split: if_splits)
  have s': "s' = s\<lparr>sp_domain := sp_domain s @ map int [length (sp_domain s)..<?n],
             sp_map := sp_map s @ [length (sp_domain s)..<?n], sp_max := mx\<rparr>"
    using s'0 gt lm take_vec_resize [of "sp_map s" ?n 0] by simp
  have "sparse_inv s'"
    using inverse_lists_extend [OF il, of ?n] gt mx len bd sz
    by (auto simp: s' sparse_inv_def)
  moreover have "sparse_contains s' y \<longleftrightarrow> sparse_contains s y" for y
  proof (cases "y \<le> sp_max s")
    case True
    then show ?thesis using mx len lm by (auto simp: s' sparse_contains_def nth_append)
  next
    case False
    then show ?thesis using len lm sz gt by (auto simp: s' sparse_contains_def nth_append)
  qed
  ultimately show ?thesis by (auto simp: s' sparse_set_def)
qed

subsection \<open>\<open>shrink\<close>\<close>

lemma shrink_loop_exact:
  assumes "t \<le> length d" and "\<And>i. t \<le> i \<Longrightarrow> i < length d \<Longrightarrow> d ! i > m"
  shows "shrink_loop t m d = take t d"
  using assms
proof (induction t m d rule: shrink_loop.induct)
  case (1 t m d)
  show ?case
  proof (cases "length d > t")
    case True
    then have ne: "d \<noteq> []" by auto
    then have last: "last d > m" using True "1.prems"(2) [of "length d - 1"] by (simp add: last_conv_nth)
    have "shrink_loop t m (butlast d) = take t (butlast d)"
      using True last "1.prems" by (intro "1.IH") (auto simp: nth_butlast)
    then show ?thesis using True last by (simp add: shrink_loop.simps [of t m d] take_butlast)
  next
    case False
    then show ?thesis using "1.prems"(1) by (subst shrink_loop.simps) simp
  qed
qed

text \<open>
  \<open>shrink\<close> keeps the set when the offsets it drops are exactly the last entries of the
  permutation.
\<close>

lemma sparse_shrink_spec:
  assumes inv: "sparse_inv s" and mn: "sp_min s = 0" and lo: "0 \<le> newMax" and hi: "newMax \<le> sp_max s"
    and sz: "sp_size s \<le> nat (newMax + 1)"
    and tail: "\<forall>i. nat (newMax + 1) \<le> i \<and> i < length (sp_domain s) \<longrightarrow> newMax < sp_domain s ! i"
  shows "\<exists>s'. sparse_shrink s newMax = Inr s' \<and> sparse_inv s' \<and> sparse_set s' = sparse_set s \<and>
    sp_min s' = 0 \<and> sp_max s' = newMax"
proof -
  let ?t = "nat (newMax + 1)"
  note n = sparse_inv_nth [OF inv]
  have len: "int (length (sp_domain s)) = sp_max s + 1" using inv mn by (simp add: sparse_inv_def)
  have t: "?t \<le> length (sp_domain s)" using len hi by simp
  have loop: "shrink_loop ?t newMax (sp_domain s) = take ?t (sp_domain s)"
    using t tail by (intro shrink_loop_exact) auto
  have tgt: "max (sp_size s) ?t = ?t" using sz by simp
  let ?s = "s\<lparr>sp_domain := take ?t (sp_domain s), sp_max := newMax, sp_map := take ?t (sp_map s)\<rparr>"
  have "vec_resize ?t 0 (sp_map s) = take ?t (sp_map s)" using t n(4) by (simp add: vec_resize_def)
  moreover have "sp_domain s \<noteq> []" using len hi lo by auto
  ultimately have eq: "sparse_shrink s newMax = Inr ?s"
    using hi lo mn len t loop tgt sz lo n(4) by (simp add: sparse_shrink_def Let_def min_def)
  have small: "sp_map s ! k < ?t" if "k < ?t" for k
  proof (rule ccontr)
    assume "\<not> sp_map s ! k < ?t"
    moreover have "sp_map s ! k < length (sp_domain s) \<and> sp_domain s ! (sp_map s ! k) = int k"
      using n(2) [of k] n(4) that t by simp
    ultimately have "newMax < int k" using tail [rule_format, of "sp_map s ! k"] by simp
    then show False using that by simp
  qed
  have "inj_on ((!) (sp_map s)) {..<?t}"
    using sparse_map_inj [OF inv] n(4) t by (auto simp: inj_on_def)
  then have surj: "(!) (sp_map s) ` {..<?t} = {..<?t}" using small by (intro endo_inj_surj) auto
  have dom: "0 \<le> sp_domain s ! i \<and> nat (sp_domain s ! i) < ?t" if "i < ?t" for i
  proof -
    have "i \<in> (!) (sp_map s) ` {..<?t}" using that surj by simp
    then obtain k where "k < ?t" "i = sp_map s ! k" by blast
    then show ?thesis using n(2) [of k] n(4) t by simp
  qed
  have "inverse_lists (take ?t (sp_domain s)) (take ?t (sp_map s))"
    unfolding inverse_lists_def using n(2,3,4) t dom small by (auto simp: min_def)
  then have "sparse_inv ?s" using inv mn lo t sz by (simp add: sparse_inv_def min_def)
  moreover have "sparse_contains ?s y \<longleftrightarrow> sparse_contains s y" for y
  proof (cases "0 \<le> y \<and> y \<le> newMax")
    case True
    then show ?thesis using hi mn by (simp add: sparse_contains_def)
  next
    case False
    have "\<not> sparse_contains s y" if y: "newMax < y" "y \<le> sp_max s"
    proof
      assume c: "sparse_contains s y"
      have "sp_map s ! nat y < ?t" using c sz mn by (simp add: sparse_contains_def)
      then have "nat (sp_domain s ! (sp_map s ! nat y)) < ?t" using dom by blast
      moreover have "sp_domain s ! (sp_map s ! nat y) = y"
        using n(1) [of y] n(2) [of "nat y"] y mn lo by simp
      ultimately show False using y by simp
    qed
    then show ?thesis using False hi mn by (auto simp: sparse_contains_def)
  qed
  ultimately show ?thesis using eq mn by (auto simp: sparse_set_def)
qed

section \<open>The interface of a dirty list\<close>

text \<open>
  What \<open>messagesort.cpp\<close> and \<open>memorytable.cpp\<close> use: mark an index, unmark it, ask for it, walk over
  all marked ones, clear.
\<close>

locale dirty_list =
  fixes insert :: "'s \<Rightarrow> int \<Rightarrow> fault + 's"
    and erase :: "'s \<Rightarrow> int \<Rightarrow> fault + 's"
    and contains :: "'s \<Rightarrow> int \<Rightarrow> bool"
    and clear :: "'s \<Rightarrow> 's"
    and is_empty :: "'s \<Rightarrow> bool"
    and iterate :: "'s \<Rightarrow> int list"
    and marked :: "'s \<Rightarrow> int set"
    and upper :: "'s \<Rightarrow> int"
    and inv :: "'s \<Rightarrow> bool"
  assumes contains_spec: "inv s \<Longrightarrow> contains s x \<longleftrightarrow> x \<in> marked s"
    and insert_spec: "inv s \<Longrightarrow> 0 \<le> x \<Longrightarrow> x \<le> upper s \<Longrightarrow>
      \<exists>s'. insert s x = Inr s' \<and> inv s' \<and> marked s' = Set.insert x (marked s) \<and> upper s' = upper s"
    and erase_spec: "inv s \<Longrightarrow> 0 \<le> x \<Longrightarrow> x \<le> upper s \<Longrightarrow>
      \<exists>s'. erase s x = Inr s' \<and> inv s' \<and> marked s' = marked s - {x} \<and> upper s' = upper s"
    and clear_spec: "inv s \<Longrightarrow> inv (clear s) \<and> marked (clear s) = {} \<and> upper (clear s) = upper s"
    and empty_spec: "inv s \<Longrightarrow> is_empty s \<longleftrightarrow> marked s = {}"
    and iterate_spec: "inv s \<Longrightarrow> set (iterate s) = marked s \<and> distinct (iterate s)"
    and marked_range: "inv s \<Longrightarrow> marked s \<subseteq> {0..upper s}"
begin

lemma empty_iterate: "inv s \<Longrightarrow> is_empty s \<longleftrightarrow> iterate s = []"
  using empty_spec iterate_spec by force

text \<open>Taking the first element out makes the set smaller: what ends the loop of \<open>popWrite\<close>.\<close>

lemma erase_first:
  assumes "inv s" and "iterate s = x # xs"
  shows "\<exists>s'. erase s x = Inr s' \<and> inv s' \<and> marked s' = marked s - {x} \<and> x \<in> marked s \<and>
    card (marked s') < card (marked s) \<and> upper s' = upper s"
proof -
  have x: "x \<in> marked s" using iterate_spec [OF assms(1)] assms(2) by auto
  then have r: "0 \<le> x" "x \<le> upper s" using marked_range [OF assms(1)] by auto
  have "finite (marked s)" using marked_range [OF assms(1)] finite_subset by blast
  then have "card (marked s - {x}) < card (marked s)" using x by (rule card_Diff1_less)
  then show ?thesis using erase_spec [OF assms(1) r] x by metis
qed

lemma insert_contains:
  assumes "inv s" and "0 \<le> x" and "x \<le> upper s" and "insert s x = Inr s'"
  shows "contains s' y \<longleftrightarrow> y = x \<or> contains s y"
  using insert_spec [OF assms(1-3)] assms contains_spec by auto

end

definition sparse_inv0 :: "sparse \<Rightarrow> bool" where
  "sparse_inv0 s \<longleftrightarrow> sparse_inv s \<and> sp_min s = 0"

interpretation sparse: dirty_list sparse_insert sparse_erase sparse_contains sparse_clear
  sparse_is_empty sparse_iterate sparse_set sp_max sparse_inv0
proof unfold_locales
  fix s :: sparse and x :: int
  assume i: "sparse_inv0 s"
  then have inv: "sparse_inv s" and mn: "sp_min s = 0" by (simp_all add: sparse_inv0_def)
  show "sparse_contains s x \<longleftrightarrow> x \<in> sparse_set s" by (simp add: sparse_set_def)
  show "\<exists>s'. sparse_insert s x = Inr s' \<and> sparse_inv0 s' \<and> sparse_set s' = insert x (sparse_set s) \<and> sp_max s' = sp_max s"
    if "0 \<le> x" "x \<le> sp_max s"
    using sparse_insert_spec [OF inv, of x] that mn by (auto simp: sparse_inv0_def)
  show "\<exists>s'. sparse_erase s x = Inr s' \<and> sparse_inv0 s' \<and> sparse_set s' = sparse_set s - {x} \<and> sp_max s' = sp_max s"
    if "0 \<le> x" "x \<le> sp_max s"
    using sparse_erase_spec [OF inv, of x] that mn by (auto simp: sparse_inv0_def)
  show "sparse_inv0 (sparse_clear s) \<and> sparse_set (sparse_clear s) = {} \<and> sp_max (sparse_clear s) = sp_max s"
    using sparse_inv_clear [OF inv] mn by (simp add: sparse_inv0_def sparse_clear_def [of s])
       (simp add: sparse_set_def sparse_contains_def)
  have "sparse_set s \<subseteq> {sp_min s..sp_max s}"
    using sparse_set_range by auto
  then have "finite (sparse_set s)"
    using finite_subset by blast
  then show "sparse_is_empty s \<longleftrightarrow> sparse_set s = {}"
    using sparse_size_card [OF inv] by (simp add: sparse_is_empty_def)
  show "set (sparse_iterate s) = sparse_set s \<and> distinct (sparse_iterate s)"
    using sparse_iterate_set [OF inv] mn by simp
  show "sparse_set s \<subseteq> {0..sp_max s}" using sparse_set_range mn by force
qed

section \<open>Properties\<close>

text \<open>
  C35: Under the representation invariant and for a value inside the range, \<open>insert\<close> and \<open>erase\<close>
  trip no assertion, access nothing outside their vectors, keep the invariant and the range, and
  compute set insertion and removal.
\<close>

theorem sparse_insert_erase_correct:
  assumes "sparse_inv s" and "sp_min s \<le> x" and "x \<le> sp_max s"
  shows "\<exists>s1 s2. sparse_insert s x = Inr s1 \<and> sparse_erase s x = Inr s2 \<and>
    sparse_inv s1 \<and> sparse_inv s2 \<and>
    sparse_set s1 = insert x (sparse_set s) \<and> sparse_set s2 = sparse_set s - {x} \<and>
    sparse_range s1 = sparse_range s \<and> sparse_range s2 = sparse_range s"
  using sparse_insert_spec [OF assms] sparse_erase_spec [OF assms] by (auto simp: sparse_range_def)

lemma sparse_new_example: "sparse_inv (fst (sparse_new (\<lambda>_. True) (-1) 2)) \<and> snd (sparse_new (\<lambda>_. True) (-1) 2) = None \<and>
    sp_min (fst (sparse_new (\<lambda>_. True) (-1) 2)) = -1 \<and> sp_max (fst (sparse_new (\<lambda>_. True) (-1) 2)) = 2"
proof -
  obtain s where s: "sparse_new (\<lambda>_. True) (-1) 2 = (s, None)"
    using sparse_reset_total [of "-1" 2 "\<lambda>_. True"] by (auto simp: sparse_new_def sparse_max_size_def)
  then show ?thesis using sparse_reset_spec [of "\<lambda>_. True" _ "-1" 2 s] by (simp add: sparse_new_def)
qed

theorem sparse_insert_erase_correct_witness:
  "\<exists>s1 s2. sparse_insert (fst (sparse_new (\<lambda>_. True) (-1) 2)) 1 = Inr s1 \<and>
     sparse_erase (fst (sparse_new (\<lambda>_. True) (-1) 2)) 1 = Inr s2 \<and> sparse_inv s1 \<and> sparse_inv s2"
  using sparse_insert_erase_correct [of "fst (sparse_new (\<lambda>_. True) (-1) 2)" 1] sparse_new_example by auto

text \<open>
  An iteration from \<open>begin()\<close> to \<open>end()\<close> visits \<open>size()\<close> distinct entries, one for each
  element, but reads \<open>x - min\<close> for the element \<open>x\<close>: it yields the elements themselves for the
  ranges starting at 0 that the library uses, and shifted values for any other range.
\<close>

theorem sparse_iterates_offsets:
  assumes "sparse_inv s"
  shows "set (sparse_iterate s) = (\<lambda>x. x - sp_min s) ` sparse_set s \<and> distinct (sparse_iterate s) \<and>
    length (sparse_iterate s) = sp_size s \<and> sp_size s = card (sparse_set s)"
  using sparse_iterate_set [OF assms] sparse_size_card [OF assms] by simp

theorem sparse_iterates_offsets_witness:
  "set (sparse_iterate \<lparr>sp_min = 1, sp_max = 2, sp_size = 1, sp_domain = [0, 1], sp_map = [0, 1]\<rparr>) = {0} \<and>
   sparse_set \<lparr>sp_min = 1, sp_max = 2, sp_size = 1, sp_domain = [0, 1], sp_map = [0, 1]\<rparr> = {1}"
proof -
  let ?s = "\<lparr>sp_min = 1, sp_max = 2, sp_size = 1, sp_domain = [0, 1], sp_map = [0, 1]\<rparr>"
  have inv: "sparse_inv ?s"
    by (auto simp: sparse_inv_def inverse_lists_def sparse_max_size_def less_Suc_eq numeral_2_eq_2)
  have "sparse_contains ?s x \<longleftrightarrow> x = 1" for x :: int
  proof -
    have "1 \<le> x \<and> x \<le> 2 \<longleftrightarrow> x = 1 \<or> x = 2" by auto
    then show ?thesis by (auto simp: sparse_contains_def)
  qed
  then have "sparse_set ?s = {1}" by (simp add: sparse_set_def)
  with sparse_iterates_offsets [OF inv] show ?thesis by simp
qed

text \<open>
  \<open>shrink(newMax)\<close> on a range starting at 0 keeps the invariant and the elements and makes
  \<open>newMax\<close> the new maximum, provided the set fits below \<open>newMax\<close> and every dropped offset
  sits behind all the kept ones in the permutation.
\<close>

theorem sparse_shrink_correct:
  assumes "sparse_inv s" and "sp_min s = 0" and "0 \<le> newMax" and "newMax \<le> sp_max s"
    and "sp_size s \<le> nat (newMax + 1)"
    and "\<forall>i. nat (newMax + 1) \<le> i \<and> i < length (sp_domain s) \<longrightarrow> newMax < sp_domain s ! i"
  shows "\<exists>s'. sparse_shrink s newMax = Inr s' \<and> sparse_inv s' \<and> sparse_set s' = sparse_set s \<and> sp_max s' = newMax"
  using sparse_shrink_spec [OF assms] by blast

theorem sparse_shrink_correct_witness:
  "\<exists>s'. sparse_shrink \<lparr>sp_min = 0, sp_max = 3, sp_size = 1, sp_domain = [1, 0, 3, 2], sp_map = [1, 0, 3, 2]\<rparr> 1 = Inr s' \<and>
     sparse_inv s' \<and> sp_max s' = 1"
proof -
  let ?s = "\<lparr>sp_min = 0, sp_max = 3, sp_size = 1, sp_domain = [1, 0, 3, 2], sp_map = [1, 0, 3, 2]\<rparr>"
  have inv: "sparse_inv ?s"
    by (simp add: sparse_inv_def inverse_lists_def sparse_max_size_def All_less_Suc numeral_3_eq_3 numeral_2_eq_2)
  have "\<forall>i. nat (1 + 1) \<le> i \<and> i < length (sp_domain ?s) \<longrightarrow> 1 < sp_domain ?s ! i"
    by (auto simp: less_Suc_eq numeral_3_eq_3 numeral_2_eq_2)
  with sparse_shrink_correct [OF inv, of 1] show ?thesis by auto
qed

text \<open>
  Without the last condition \<open>shrink\<close> corrupts the set: the valid state below holds the element 1
  alone, with the offset 3 in front of the offset 0; after \<open>shrink(1)\<close> the entry of the
  permutation for 0 is gone, and inserting 0 swaps entries beyond its end.
\<close>

definition shrink_victim :: sparse where
  "shrink_victim = \<lparr>sp_min = 0, sp_max = 3, sp_size = 1, sp_domain = [1, 3, 0, 2], sp_map = [2, 0, 3, 1]\<rparr>"

lemma sparse_shrink_corrupts:
  "sparse_inv shrink_victim \<and> sparse_contains shrink_victim 1 \<and>
   bindE (sparse_shrink shrink_victim 1) (\<lambda>s'. sparse_insert s' 0) = Inl OutOfBounds"
proof (intro conjI)
  show "sparse_inv shrink_victim"
    by (simp add: shrink_victim_def sparse_inv_def inverse_lists_def sparse_max_size_def All_less_Suc
        numeral_3_eq_3 numeral_2_eq_2)
  show "sparse_contains shrink_victim 1"
    by (simp add: shrink_victim_def sparse_contains_def)
  have "shrink_loop (Suc (Suc 0)) 1 [1, 3, 0, 2] = [1, 3, 0]"
    by (simp add: shrink_loop.simps [of _ _ "[1, 3, 0, 2]"] shrink_loop.simps [of _ _ "[1, 3, 0]"])
  then have "sparse_shrink shrink_victim 1 =
      Inr \<lparr>sp_min = 0, sp_max = 2, sp_size = 1, sp_domain = [1, 3, 0], sp_map = [2, 0, 3]\<rparr>"
    by (simp add: shrink_victim_def sparse_shrink_def vec_resize_def Let_def)
  then show "bindE (sparse_shrink shrink_victim 1) (\<lambda>s'. sparse_insert s' 0) = Inl OutOfBounds"
    by (simp add: sparse_insert_def sparse_exchange_def sparse_contains_def vec_swap_def vec_at_def index_of_T_def)
qed

end
