(* ===== verification/Memory_Table.thy ===== *)
theory Memory_Table imports Ibverbs Sparse_Set begin

text \<open>
  The table of registered memory, class \<open>MemoryTable\<close> of \<open>src/MPI/memorytable.cpp\<close>: it maps the memory
  slots of the user to an address, a size and the slot that \<open>IBVerbs\<close> has for the area.  A global
  slot gets its \<open>IBVerbs\<close> slot in the next \<open>sync\<close>; until then it is in the dirty list \<open>m_added\<close>.
  The table refers to the \<open>IBVerbs\<close> object; the model holds that object in the table's state.
\<close>

section \<open>State and operations\<close>

record memory =
  mem_addr :: addr
  mem_size :: nat
  mem_verb :: slot

record memory_table =
  mt_memreg :: "memory combined"
  mt_capacity :: nat
  mt_added :: sparse
  mt_ibverbs :: ibverbs

type_synonym 'a table = "(memory_table, 'a) ext"

text \<open>\<open>slot(-1)\<close>; and \<open>max_size()\<close> of a vector of these records of 24 bytes.\<close>

definition no_verb :: slot where
  "no_verb = SIZE_MAX"

definition default_memory :: memory where
  "default_memory = \<lparr>mem_addr = 0, mem_size = 0, mem_verb = no_verb\<rparr>"

definition memory_max_size :: nat where
  "memory_max_size = 384307168202282325"

definition on_ibverbs :: "'a verbs \<Rightarrow> 'a table" where
  "on_ibverbs m = zoomA mt_ibverbs (\<lambda>v t. t\<lparr>mt_ibverbs := v\<rparr>) m"

definition on_memreg :: "(memory combined \<Rightarrow> fault + 'a \<times> memory combined) \<Rightarrow> 'a table" where
  "on_memreg f = stateA (\<lambda>t. bindE (f (mt_memreg t)) (\<lambda>(x, m). Inr (x, t\<lparr>mt_memreg := m\<rparr>)))"

definition on_added :: "(sparse \<Rightarrow> fault + sparse) \<Rightarrow> unit table" where
  "on_added f = stateA (\<lambda>t. bindE (f (mt_added t)) (\<lambda>d. Inr ((), t\<lparr>mt_added := d\<rparr>)))"

definition table_new :: "(nat \<Rightarrow> bool) \<Rightarrow> ibverbs \<Rightarrow> fault + memory_table" where
  "table_new ok verbs =
     (case sparse_new ok 0 0 of
        (d, None) \<Rightarrow> Inr \<lparr>mt_memreg = combined_empty, mt_capacity = 0, mt_added = d, mt_ibverbs = verbs\<rparr>
      | (d, Some e) \<Rightarrow> Inl e)"

definition addLocal :: "addr \<Rightarrow> nat \<Rightarrow> slot table" where
  "addLocal mem sz =
     bindA (on_ibverbs (regLocal mem sz)) (\<lambda>v.
     on_memreg (\<lambda>m. addLocalReg m \<lparr>mem_addr = mem, mem_size = sz, mem_verb = v\<rparr>))"

definition addGlobal :: "addr \<Rightarrow> nat \<Rightarrow> slot table" where
  "addGlobal mem sz =
     bindA (on_memreg (\<lambda>m. addGlobalReg m \<lparr>mem_addr = mem, mem_size = sz, mem_verb = no_verb\<rparr>)) (\<lambda>i.
     bindA (on_added (\<lambda>d. sparse_insert d (int i))) (\<lambda>_.
     retA i))"

definition table_lookup :: "slot \<Rightarrow> memory table" where
  "table_lookup i = liftA (\<lambda>t. combined_lookup (mt_memreg t) i)"

definition table_remove :: "slot \<Rightarrow> unit table" where
  "table_remove i =
     bindA getA (\<lambda>t.
     bindA (if sparse_contains (mt_added t) (int i)
            then on_added (\<lambda>d. sparse_erase d (int i))
            else bindA (table_lookup i) (\<lambda>r. on_ibverbs (dereg (mem_verb r)))) (\<lambda>_.
     on_memreg (\<lambda>m. bindE (removeReg m i) (\<lambda>m'. Inr ((), m')))))"

definition getAddress :: "slot \<Rightarrow> nat \<Rightarrow> addr table" where
  "getAddress i offset =
     bindA (table_lookup i) (\<lambda>r.
     bindA (assertA (offset \<le> mem_size r)) (\<lambda>_. retA (mem_addr r + offset)))"

definition getSize :: "slot \<Rightarrow> nat table" where
  "getSize i = bindA (table_lookup i) (\<lambda>r. retA (mem_size r))"

definition getVerbID :: "slot \<Rightarrow> slot table" where
  "getVerbID i = bindA (table_lookup i) (\<lambda>r. retA (mem_verb r))"

text \<open>
  \<open>reserve\<close>: the register, the dirty list and the \<open>IBVerbs\<close> object grow one after the other, and any of
  them may throw.  The allocations are numbered in their order.
\<close>

definition reserve :: "(nat \<Rightarrow> bool) \<Rightarrow> nat \<Rightarrow> nat \<Rightarrow> unit table" where
  "reserve ok mx_slots sz =
     bindA (outcomeA (\<lambda>t. case combined_reserve ok memory_max_size default_memory (mt_memreg t) sz default_memory of
              (m, e) \<Rightarrow> (t\<lparr>mt_memreg := m\<rparr>, e))) (\<lambda>_.
     bindA (outcomeA (\<lambda>t. case sparse_resize (\<lambda>k. ok (k + 4)) (mt_added t) (int (combined_range (mt_memreg t))) of
              (d, e) \<Rightarrow> (t\<lparr>mt_added := d\<rparr>, e))) (\<lambda>_.
     bindA (on_ibverbs (resizeMemreg (\<lambda>k. ok (k + 6)) mx_slots sz)) (\<lambda>_.
     modA (\<lambda>t. t\<lparr>mt_capacity := sz\<rparr>))))"

definition table_range :: "memory_table \<Rightarrow> nat" where
  "table_range t = combined_range (mt_memreg t)"

definition needsSync :: "memory_table \<Rightarrow> bool" where
  "needsSync t \<longleftrightarrow> \<not> sparse_is_empty (mt_added t)"

text \<open>One round of the loop of \<open>sync\<close>, for the slot \<open>*i\<close>.\<close>

definition publish :: "int \<Rightarrow> unit table" where
  "publish x =
     (let i = nat x in
      bindA (assertA (\<not> isLocalSlot i)) (\<lambda>_.
      bindA (table_lookup i) (\<lambda>r.
      bindA (on_ibverbs (regGlobal (mem_addr r) (mem_size r))) (\<lambda>v.
      on_memreg (\<lambda>m. bindE (combined_update m i (\<lambda>r. r\<lparr>mem_verb := v\<rparr>)) (\<lambda>m'. Inr ((), m')))))))"

definition table_sync :: "unit table" where
  "table_sync =
     bindA getA (\<lambda>t.
     if \<not> sparse_is_empty (mt_added t) then
       bindA (forA (sparse_iterate (mt_added t)) publish) (\<lambda>_.
       bindA (callA Barrier) (\<lambda>_.
       modA (\<lambda>t. t\<lparr>mt_added := sparse_clear (mt_added t)\<rparr>)))
     else retA ())"

section \<open>Invariant\<close>

text \<open>
  The slots that need no \<open>sync\<close>, and the \<open>IBVerbs\<close> slot of each.  The invariant says that these slots
  and the live slots of the \<open>IBVerbs\<close> object are in one to one correspondence, that what is dirty
  is global and live, and that the capacity the table reports is available everywhere: in both its
  registers, in both of the \<open>IBVerbs\<close> object, and in the range of the dirty list.
\<close>

definition dirty :: "memory_table \<Rightarrow> slot set" where
  "dirty t = {i. int i \<in> sparse_set (mt_added t)}"

definition table_live :: "memory_table \<Rightarrow> slot set" where
  "table_live t = combined_live (mt_memreg t)"

definition entry :: "memory_table \<Rightarrow> slot \<Rightarrow> memory" where
  "entry t i = projr (combined_lookup (mt_memreg t) i)"

definition verb_slots :: "memory_table \<Rightarrow> slot set" where
  "verb_slots t = combined_live (m_memreg (mt_ibverbs t))"

definition verb_of :: "memory_table \<Rightarrow> slot \<Rightarrow> slot" where
  "verb_of t i = mem_verb (entry t i)"

text \<open>The part that the loop of \<open>sync\<close> keeps, for the slots \<open>D\<close> that are still to do.\<close>

definition table_inv_on :: "slot set \<Rightarrow> memory_table \<Rightarrow> bool" where
  "table_inv_on D t \<longleftrightarrow>
     combined_inv (mt_memreg t) \<and> combined_inv (m_memreg (mt_ibverbs t)) \<and>
     mt_capacity t \<le> combined_capacity (mt_memreg t) \<and>
     mt_capacity t \<le> combined_capacity (m_memreg (mt_ibverbs t)) \<and>
     m_minNewSlotNr (m_global (mt_memreg t)) \<le> mt_capacity t \<and>
     D \<subseteq> kind_slots False (table_live t) \<and>
     bij_betw (verb_of t) (table_live t - D) (verb_slots t) \<and>
     (\<forall>i \<in> table_live t - D. isLocalSlot (verb_of t i) = isLocalSlot i)"

definition table_inv :: "memory_table \<Rightarrow> bool" where
  "table_inv t \<longleftrightarrow> table_inv_on (dirty t) t \<and> sparse_inv0 (mt_added t) \<and>
     2 * int (mt_capacity t) \<le> sp_max (mt_added t)"

text \<open>Room for one more slot of a kind.\<close>

definition has_room :: "bool \<Rightarrow> memory_table \<Rightarrow> bool" where
  "has_room loc t \<longleftrightarrow> card (kind_slots loc (table_live t)) < mt_capacity t"

section \<open>Adding and removing\<close>

lemma finite_live [simp]: "finite (combined_live c)"
  by (simp add: combined_live_def)

lemma finite_kind [simp]: "finite (kind_slots loc (table_live t))"
  by (simp add: kind_slots_def table_live_def)

lemma kind_slots_insert:
  "kind_slots loc (insert i A) = (if isLocalSlot i = loc then insert i (kind_slots loc A) else kind_slots loc A)"
  by (auto simp: kind_slots_def)

text \<open>The capacity of the table is available in the \<open>IBVerbs\<close> object as well.\<close>

lemma clean_kind:
  assumes "table_inv_on D t"
  shows "card (kind_slots loc (verb_slots t)) = card (kind_slots loc (table_live t - D))"
proof -
  have b: "bij_betw (verb_of t) (table_live t - D) (verb_slots t)"
    and k: "\<forall>i \<in> table_live t - D. isLocalSlot (verb_of t i) = isLocalSlot i"
    using assms by (simp_all add: table_inv_on_def)
  have "verb_of t ` kind_slots loc (table_live t - D) = kind_slots loc (verb_slots t)"
    using k unfolding bij_betw_imp_surj_on [OF b, symmetric] by (auto simp: kind_slots_def)
  moreover have "inj_on (verb_of t) (kind_slots loc (table_live t - D))"
    using b by (auto simp: kind_slots_def bij_betw_def inj_on_def)
  ultimately show ?thesis by (metis card_image)
qed

lemma verbs_room:
  assumes "table_inv_on D t" and "card (kind_slots loc (table_live t - D)) < mt_capacity t"
  shows "if loc then room_local (m_memreg (mt_ibverbs t)) else room_global (m_memreg (mt_ibverbs t))"
  using combined_room [of loc "m_memreg (mt_ibverbs t)" "mt_capacity t"] clean_kind [OF assms(1), of loc] assms
  by (simp add: table_inv_on_def verb_slots_def)

lemma table_room:
  assumes "table_inv_on D t" and "has_room loc t"
  shows "if loc then room_local (mt_memreg t) else room_global (mt_memreg t)"
  using combined_room [of loc "mt_memreg t" "mt_capacity t"] assms
  by (simp add: table_inv_on_def has_room_def table_live_def)

lemma entry_lookup: "table_inv_on D t \<Longrightarrow> i \<in> table_live t \<Longrightarrow> combined_lookup (mt_memreg t) i = Inr (entry t i)"
  using combined_lookup_total [of "mt_memreg t" i] by (auto simp: table_inv_on_def table_live_def entry_def)

text \<open>A new pair of slots extends the correspondence; an old pair leaves it.\<close>

lemma pairs_kept: "bij_betw f A B \<Longrightarrow> \<forall>j \<in> A. g j = f j \<Longrightarrow> bij_betw g A B"
  by (metis bij_betw_cong)

lemma pair_added:
  assumes b: "bij_betw f A B" and "i \<notin> A" and "v \<notin> B" and "g i = v" and "\<forall>j \<in> A. g j = f j"
  shows "bij_betw g (insert i A) (insert v B)"
proof -
  have "bij_betw g A B" by (rule pairs_kept [OF b assms(5)])
  then show ?thesis using notIn_Un_bij_betw [of i A g B] assms(2-4) by simp
qed

lemma pair_removed:
  assumes "bij_betw f A B" and "i \<in> A" and "\<forall>j \<in> A - {i}. g j = f j"
  shows "bij_betw g (A - {i}) (B - {f i})"
proof -
  have "bij_betw f (A - {i}) (B - {f i})" using assms(1,2) by (auto simp: bij_betw_def inj_on_def)
  then show ?thesis using assms(3) by (rule pairs_kept)
qed

text \<open>The operations on the register of the table.\<close>

lemma acts_on_memreg [act_simps]:
  "acts (on_memreg f) t tr r t' \<longleftrightarrow> tr = [] \<and>
     (case f (mt_memreg t) of Inl e \<Rightarrow> r = Inl e \<and> t' = t
      | Inr (x, m) \<Rightarrow> r = Inr x \<and> t' = t\<lparr>mt_memreg := m\<rparr>)"
  by (auto simp: on_memreg_def act_simps split: sum.splits)

lemma acts_on_added [act_simps]:
  "acts (on_added f) t tr r t' \<longleftrightarrow> tr = [] \<and>
     (case f (mt_added t) of Inl e \<Rightarrow> r = Inl e \<and> t' = t | Inr d \<Rightarrow> r = Inr () \<and> t' = t\<lparr>mt_added := d\<rparr>)"
  by (auto simp: on_added_def act_simps split: sum.splits)

lemma acts_on_ibverbs [act_simps]:
  "acts (on_ibverbs m) t tr r t' \<longleftrightarrow> (\<exists>v. acts m (mt_ibverbs t) tr r v \<and> t' = t\<lparr>mt_ibverbs := v\<rparr>)"
  by (simp add: on_ibverbs_def act_simps)

text \<open>What a slot means to the user, and what the operations leave alone.\<close>

definition same_table :: "slot set \<Rightarrow> memory_table \<Rightarrow> memory_table \<Rightarrow> bool" where
  "same_table A t t' \<longleftrightarrow> mt_capacity t' = mt_capacity t \<and> (\<forall>j \<in> A. entry t' j = entry t j)"

definition added :: "memory_table \<Rightarrow> slot \<Rightarrow> memory \<Rightarrow> memory_table \<Rightarrow> bool" where
  "added t i x t' \<longleftrightarrow> i \<notin> table_live t \<and> table_live t' = insert i (table_live t) \<and> entry t' i = x \<and>
     same_table (table_live t) t t'"

lemma minNew_added:
  assumes "combined_inv c" and "room_global c" and "addGlobalReg c x = Inr (i, c')"
    and "card (kind_slots False (combined_live c)) < n" and "m_minNewSlotNr (m_global c) \<le> n"
  shows "m_minNewSlotNr (m_global c') \<le> n"
proof -
  have i: "memreg_inv (m_global c)" "memreg_room (m_global c)"
    using assms by (simp_all add: combined_inv_def room_global_def)
  obtain u g where a: "memreg_add (m_global c) x = Inr (u, g)" and c': "c' = c\<lparr>m_global := g\<rparr>"
    using assms(3) by (auto simp: addGlobalReg_def bindE_simps)
  have "m_minNewSlotNr (m_global c) < n" if "m_free (m_global c) = []"
    using that assms(4) memreg_card_live [OF i(1)] card_kind_live(2) [of c] by simp
  then show ?thesis using a assms(5) unfolding memreg_add_ok [OF i] c' by auto
qed

lemma global_slot_bound:
  assumes "i \<in> combined_live c" and "\<not> isLocalSlot i"
  shows "i + 2 \<le> 2 * m_minNewSlotNr (m_global c)"
  using assms by (auto simp: combined_live_def memreg_live_def)

lemma addLocal_run:
  assumes inv: "table_inv t" and room: "has_room True t" and sz: "sz \<le> m_maxRegSize (mt_ibverbs t)"
    and run: "acts (addLocal mem sz) t tr r t'"
  shows "(\<exists>i v. r = Inr i \<and> isLocalSlot i \<and> added t i \<lparr>mem_addr = mem, mem_size = sz, mem_verb = v\<rparr> t' \<and>
      mt_added t' = mt_added t \<and> table_inv t') \<or>
    (r = Inl (Exception ''Could not register memory area'') \<and> t' = t)"
proof -
  have on: "table_inv_on (dirty t) t" using inv by (simp add: table_inv_def)
  have ci: "combined_inv (mt_memreg t)" "combined_inv (m_memreg (mt_ibverbs t))"
    using on by (simp_all add: table_inv_on_def)
  have "kind_slots True (table_live t - dirty t) \<subseteq> kind_slots True (table_live t)" by (auto simp: kind_slots_def)
  then have "card (kind_slots True (table_live t - dirty t)) \<le> card (kind_slots True (table_live t))"
    by (intro card_mono) (simp_all add: table_live_def kind_slots_def)
  then have vr: "room_local (m_memreg (mt_ibverbs t))"
    using verbs_room [OF on, of True] room by (simp add: has_room_def)
  have rl: "room_local (mt_memreg t)" using table_room [OF on room] by simp
  let ?x = "\<lambda>v. \<lparr>mem_addr = mem, mem_size = sz, mem_verb = v\<rparr>"
  from run consider (bad) e v where "r = Inl e" "acts (regLocal mem sz) (mt_ibverbs t) tr (Inl e) v" "t' = t\<lparr>mt_ibverbs := v\<rparr>"
    | (good) i v where "acts (regLocal mem sz) (mt_ibverbs t) tr (Inr i) v"
        "acts (on_memreg (\<lambda>m. addLocalReg m (?x i))) (t\<lparr>mt_ibverbs := v\<rparr>) [] r t'"
    unfolding addLocal_def acts_bindA by (auto simp: act_simps)
  then show ?thesis
  proof cases
    case bad
    then show ?thesis using regLocal_run [OF bad(2) sz ci(2) vr] by auto
  next
    case good
    obtain m where s: "slot_added True (mt_ibverbs t) i (local_slot (mt_ibverbs t) mem sz m) v"
      using regLocal_run [OF good(1) sz ci(2) vr] by auto
    obtain k c where a: "addLocalReg (mt_memreg t) (?x i) = Inr (k, c)" using local_reg.add_total [OF ci(1) rl] by blast
    note ad = local_reg.add_spec [OF ci(1) rl a]
    note ad' = addLocalReg_parity [OF ci(1) rl a] addLocalReg_frame [OF a] combined_capacity_kept(1) [OF a]
    have t': "t' = t\<lparr>mt_ibverbs := v, mt_memreg := c\<rparr>" "r = Inr k" using good(2) a by (simp_all add: act_simps)
    have d: "dirty t' = dirty t" "mt_added t' = mt_added t" by (simp_all add: t' dirty_def)
    have ents: "entry t' k = ?x i" "\<forall>j \<in> table_live t. entry t' j = entry t j" "k \<notin> table_live t"
      "table_live t' = insert k (table_live t)"
      using ad by (simp_all add: t' entry_def table_live_def)
    have nd: "k \<notin> dirty t" using on ents(3) by (auto simp: table_inv_on_def kind_slots_def)
    then have cl: "table_live t' - dirty t = insert k (table_live t - dirty t)" using ents by auto
    have "bij_betw (verb_of t') (insert k (table_live t - dirty t)) (insert i (verb_slots t))"
      by (rule pair_added [of "verb_of t"])
         (use on ents s in \<open>auto simp: table_inv_on_def verb_of_def slot_added_def verb_slots_def\<close>)
    moreover have "verb_slots t' = insert i (verb_slots t)" using s by (simp add: verb_slots_def t' slot_added_def)
    moreover have "isLocalSlot (verb_of t' k)" using ents s by (simp add: verb_of_def slot_added_def)
    ultimately have "table_inv_on (dirty t) t'"
      using on ad ad' s ents cl unfolding table_inv_on_def
      by (auto simp: t' slot_added_def kind_slots_def verb_of_def)
    then show ?thesis using inv d ents ad' t'(2)
      by (auto simp: table_inv_def added_def same_table_def t')
  qed
qed

lemma addGlobal_run:
  assumes inv: "table_inv t" and room: "has_room False t" and run: "acts (addGlobal mem sz) t tr r t'"
  shows "tr = [] \<and> (\<exists>i. r = Inr i \<and> \<not> isLocalSlot i \<and>
      added t i \<lparr>mem_addr = mem, mem_size = sz, mem_verb = no_verb\<rparr> t' \<and>
      dirty t' = insert i (dirty t) \<and> mt_ibverbs t' = mt_ibverbs t \<and> table_inv t')"
proof -
  have on: "table_inv_on (dirty t) t" and sp: "sparse_inv0 (mt_added t)" "2 * int (mt_capacity t) \<le> sp_max (mt_added t)"
    using inv by (simp_all add: table_inv_def)
  have ci: "combined_inv (mt_memreg t)" and mn: "m_minNewSlotNr (m_global (mt_memreg t)) \<le> mt_capacity t"
    using on by (simp_all add: table_inv_on_def)
  have rg: "room_global (mt_memreg t)" using table_room [OF on room] by simp
  let ?x = "\<lparr>mem_addr = mem, mem_size = sz, mem_verb = no_verb\<rparr>"
  obtain i c where a: "addGlobalReg (mt_memreg t) ?x = Inr (i, c)" using global_reg.add_total [OF ci rg] by blast
  note ad = global_reg.add_spec [OF ci rg a]
  note ad' = addGlobalReg_parity [OF ci rg a] combined_capacity_kept(2) [OF a]
  have mn': "m_minNewSlotNr (m_global c) \<le> mt_capacity t"
    using minNew_added [OF ci rg a _ mn] room by (simp add: has_room_def table_live_def)
  have "i + 2 \<le> 2 * mt_capacity t" using global_slot_bound [of i c] ad ad' mn' by simp
  then have "int i \<le> sp_max (mt_added t)" using sp(2) by simp
  then obtain d where d: "sparse_insert (mt_added t) (int i) = Inr d" "sparse_inv0 d"
    "sparse_set d = insert (int i) (sparse_set (mt_added t))" "sp_max d = sp_max (mt_added t)"
    using sparse.insert_spec [OF sp(1), of "int i"] by auto
  have t': "t' = t\<lparr>mt_memreg := c, mt_added := d\<rparr>" "r = Inr i" "tr = []"
    using run a d(1) by (simp_all add: addGlobal_def acts_bindA act_simps)
  have dt: "dirty t' = insert i (dirty t)" by (auto simp: t' dirty_def d(3))
  have ents: "entry t' i = ?x" "\<forall>j \<in> table_live t. entry t' j = entry t j" "i \<notin> table_live t"
    "table_live t' = insert i (table_live t)"
    using ad by (simp_all add: t' entry_def table_live_def)
  have cl: "table_live t' - dirty t' = table_live t - dirty t" using ents dt by auto
  have "bij_betw (verb_of t') (table_live t - dirty t) (verb_slots t)"
    by (rule pairs_kept [of "verb_of t"]) (use on ents in \<open>auto simp: table_inv_on_def verb_of_def\<close>)
  then have "table_inv_on (dirty t') t'"
    using on ad ad' ents dt mn' unfolding table_inv_on_def cl
    by (auto simp: t' kind_slots_def verb_of_def verb_slots_def)
  then show ?thesis using d sp ents ad' dt t'(2,3)
    by (auto simp: table_inv_def added_def same_table_def t')
qed

lemma removeReg_global: "removeReg c i = Inr c' \<Longrightarrow> combined_inv c \<Longrightarrow> i \<in> combined_live c \<Longrightarrow>
    m_minNewSlotNr (m_global c') \<le> m_minNewSlotNr (m_global c)"
  by (auto simp: removeReg_def bindE_simps combined_inv_def memreg_remove_ok combined_live_def split: if_splits)

lemma remove_run:
  assumes inv: "table_inv t" and live: "i \<in> table_live t" and run: "acts (table_remove i) t tr r t'"
  shows "tr = [] \<and> r = Inr () \<and> table_live t' = table_live t - {i} \<and> same_table (table_live t') t t' \<and>
      dirty t' = dirty t - {i} \<and> table_inv t'"
proof -
  have on: "table_inv_on (dirty t) t" and sp: "sparse_inv0 (mt_added t)" "2 * int (mt_capacity t) \<le> sp_max (mt_added t)"
    using inv by (simp_all add: table_inv_def)
  have ci: "combined_inv (mt_memreg t)" "combined_inv (m_memreg (mt_ibverbs t))"
    and mn: "m_minNewSlotNr (m_global (mt_memreg t)) \<le> mt_capacity t"
    using on by (simp_all add: table_inv_on_def)
  have li: "i \<in> combined_live (mt_memreg t)" using live by (simp add: table_live_def)
  obtain c where c: "removeReg (mt_memreg t) i = Inr c" using local_reg.remove_total [OF ci(1) li] by blast
  note rm = local_reg.remove_spec [OF ci(1) li c]
  note rm' = combined_capacity_kept(3) [OF c] removeReg_global [OF c ci(1) li]
  show ?thesis
  proof (cases "i \<in> dirty t")
    case True
    then have s: "int i \<in> sparse_set (mt_added t)" by (simp add: dirty_def)
    then have "0 \<le> int i \<and> int i \<le> sp_max (mt_added t)" using sparse.marked_range [OF sp(1)] by auto
    then obtain d where d: "sparse_erase (mt_added t) (int i) = Inr d" "sparse_inv0 d"
      "sparse_set d = sparse_set (mt_added t) - {int i}" "sp_max d = sp_max (mt_added t)"
      using sparse.erase_spec [OF sp(1), of "int i"] by auto
    have t': "t' = t\<lparr>mt_added := d, mt_memreg := c\<rparr>" "r = Inr ()" "tr = []"
      using run c d(1) s by (simp_all add: table_remove_def acts_bindA act_simps sparse.contains_spec [OF sp(1)])
    have dt: "dirty t' = dirty t - {i}" by (auto simp: t' dirty_def d(3))
    have lv: "table_live t' = table_live t - {i}" "\<forall>j \<in> table_live t'. entry t' j = entry t j"
      using rm by (simp_all add: t' entry_def table_live_def)
    have cl: "table_live t' - dirty t' = table_live t - dirty t" using lv dt True by auto
    have same: "\<forall>j \<in> table_live t - dirty t. entry t' j = entry t j" using lv True by (metis Diff_iff singletonD)
    have "bij_betw (verb_of t') (table_live t - dirty t) (verb_slots t)"
      by (rule pairs_kept [of "verb_of t"]) (use on same in \<open>auto simp: table_inv_on_def verb_of_def\<close>)
    then have "table_inv_on (dirty t') t'"
      using on rm rm' lv dt mn same unfolding table_inv_on_def cl
      by (auto simp: t' kind_slots_def verb_of_def verb_slots_def)
    then show ?thesis using d sp lv dt t'(2,3) by (auto simp: table_inv_def same_table_def t')
  next
    case False
    then have s: "\<not> sparse_contains (mt_added t) (int i)" using sparse.contains_spec [OF sp(1)] by (simp add: dirty_def)
    have b: "bij_betw (verb_of t) (table_live t - dirty t) (verb_slots t)" using on by (simp add: table_inv_on_def)
    have vi: "verb_of t i \<in> combined_live (m_memreg (mt_ibverbs t))"
      using bij_betwE [OF b] False live by (simp add: verb_slots_def)
    obtain w where w: "removeReg (m_memreg (mt_ibverbs t)) (verb_of t i) = Inr w"
      using local_reg.remove_total [OF ci(2) vi] by blast
    note vm = local_reg.remove_spec [OF ci(2) vi w]
    have t': "t' = t\<lparr>mt_ibverbs := (mt_ibverbs t)\<lparr>m_memreg := w\<rparr>, mt_memreg := c\<rparr>" "r = Inr ()" "tr = []"
      using run c w s entry_lookup [OF on live]
      by (simp_all add: table_remove_def table_lookup_def dereg_def acts_bindA act_simps verb_of_def)
    have dt: "dirty t' = dirty t" "dirty t = dirty t - {i}" using False by (auto simp: t' dirty_def)
    have lv: "table_live t' = table_live t - {i}" "\<forall>j \<in> table_live t'. entry t' j = entry t j"
      using rm by (simp_all add: t' entry_def table_live_def)
    have cl: "table_live t' - dirty t' = (table_live t - dirty t) - {i}" using lv dt by auto
    have "bij_betw (verb_of t') ((table_live t - dirty t) - {i}) (verb_slots t - {verb_of t i})"
      by (rule pair_removed [OF b]) (use live False lv in \<open>auto simp: verb_of_def\<close>)
    moreover have "verb_slots t' = verb_slots t - {verb_of t i}" using vm by (simp add: t' verb_slots_def)
    ultimately have "table_inv_on (dirty t') t'"
      using on rm rm' vm combined_capacity_kept(3) [OF w] lv dt mn False unfolding table_inv_on_def cl
      by (auto simp: t' kind_slots_def verb_of_def)
    then show ?thesis using sp lv dt t'(2,3) by (auto simp: table_inv_def same_table_def t')
  qed
qed

lemma range_bound:
  assumes "combined_inv c" and "n \<le> combined_capacity c"
  shows "2 * n + 1 \<le> combined_range c"
proof -
  have "memreg_capacity (m_local c) \<le> free_max_size" "n \<le> memreg_capacity (m_local c)"
    using assms by (simp_all add: combined_inv_def memreg_inv_def memreg_capacity_def combined_capacity_def)
  then show ?thesis by (simp add: combined_range_def add64_plain mul64_plain free_max_size_def SIZE_MAX_def)
qed

lemma resize_up:
  assumes "sparse_inv0 d" and "sp_max d \<le> m" and "sparse_resize ok d m = (d', e)"
  shows "sparse_inv0 d' \<and> sparse_set d' = sparse_set d \<and> sp_max d \<le> sp_max d' \<and> (e = None \<longrightarrow> sp_max d' = m)"
proof (cases "m = sp_max d")
  case True
  then show ?thesis using assms by (simp add: sparse_resize_def)
next
  case False
  then have x: "sparse_extend ok d m = (d', e)" using assms by (simp add: sparse_resize_def)
  have i: "sparse_inv d" "sp_min d = 0" using assms(1) by (simp_all add: sparse_inv0_def)
  show ?thesis
  proof (cases e)
    case None
    then show ?thesis using sparse_extend_spec [OF i(1), of ok m d'] x i assms(2) by (simp add: sparse_inv0_def)
  next
    case (Some e')
    then show ?thesis using sparse_extend_failed [OF i(1), of ok m d' e'] x assms(1) by simp
  qed
qed

text \<open>The slots, and the object the table refers to, after a part of \<open>reserve\<close>.\<close>

lemma resizeMemreg_run:
  assumes "combined_inv (m_memreg s)" and "acts (resizeMemreg ok mx sz) s tr r s'"
  shows "tr = [] \<and> combined_inv (m_memreg s') \<and> combined_live (m_memreg s') = combined_live (m_memreg s) \<and>
    (\<forall>i \<in> combined_live (m_memreg s). combined_lookup (m_memreg s') i = combined_lookup (m_memreg s) i) \<and>
    min sz (combined_capacity (m_memreg s)) \<le> combined_capacity (m_memreg s') \<and>
    (r = Inr () \<longrightarrow> sz \<le> combined_capacity (m_memreg s'))"
proof -
  let ?d = "empty_slot\<lparr>glob := replicate (m_nprocs s) null_registration\<rparr>"
  obtain c e where c: "combined_reserve ok mx empty_slot (m_memreg s) sz ?d = (c, e)" by fastforce
  have "tr = []" and "(s' = s \<and> r \<noteq> Inr ()) \<or> (s' = s\<lparr>m_memreg := c\<rparr> \<and> (r = Inr () \<longleftrightarrow> e = None))"
    using assms(2) c by (auto simp: resizeMemreg_def act_simps split: if_splits option.splits)
  then show ?thesis using combined_reserve_spec [OF assms(1) c] assms(1) by (cases e) auto
qed

lemma reserve_run:
  assumes inv: "table_inv t" and cap: "mt_capacity t \<le> sz" and mx: "sp_max (mt_added t) \<le> 2 * int sz + 1"
    and run: "acts (reserve ok mxv sz) t tr r t'"
  shows "tr = [] \<and> table_inv t' \<and> table_live t' = table_live t \<and> dirty t' = dirty t \<and>
    (\<forall>i \<in> table_live t. entry t' i = entry t i) \<and> mt_capacity t' = (if r = Inr () then sz else mt_capacity t)"
proof -
  have on: "table_inv_on (dirty t) t" and sp: "sparse_inv0 (mt_added t)" "2 * int (mt_capacity t) \<le> sp_max (mt_added t)"
    using inv by (simp_all add: table_inv_def)
  have ci: "combined_inv (mt_memreg t)" "combined_inv (m_memreg (mt_ibverbs t))" using on by (simp_all add: table_inv_on_def)
  obtain c e1 where c: "combined_reserve ok memory_max_size default_memory (mt_memreg t) sz default_memory = (c, e1)" by fastforce
  note cs = combined_reserve_spec [OF ci(1) c] combined_reserve_minNew [OF c]
  obtain d e2 where d: "sparse_resize (\<lambda>k. ok (k + 4)) (mt_added t) (int (combined_range c)) = (d, e2)" by fastforce
  have ds: "e1 = None \<Longrightarrow> sparse_inv0 d \<and> sparse_set d = sparse_set (mt_added t) \<and> sp_max (mt_added t) \<le> sp_max d \<and>
      (e2 = None \<longrightarrow> sp_max d = int (combined_range c))"
    using resize_up [OF sp(1) _ d] range_bound [of c sz] cs mx by linarith
  have key: "table_inv t2 \<and> table_live t2 = table_live t \<and> dirty t2 = dirty t \<and> (\<forall>i \<in> table_live t. entry t2 i = entry t i)"
    if "mt_memreg t2 = c" "sparse_inv0 (mt_added t2)" "sparse_set (mt_added t2) = sparse_set (mt_added t)"
      "sp_max (mt_added t) \<le> sp_max (mt_added t2)" "2 * int (mt_capacity t2) \<le> sp_max (mt_added t2)"
      "combined_inv (m_memreg (mt_ibverbs t2))" "verb_slots t2 = verb_slots t"
      "mt_capacity t2 \<le> combined_capacity (m_memreg (mt_ibverbs t2))" "mt_capacity t2 \<le> combined_capacity c"
      "mt_capacity t \<le> mt_capacity t2" for t2
  proof -
    have lv: "table_live t2 = table_live t" and dt: "dirty t2 = dirty t" using that cs by (simp_all add: table_live_def dirty_def)
    have en: "\<forall>i \<in> table_live t. entry t2 i = entry t i" using that(1) cs by (simp add: entry_def table_live_def)
    have "bij_betw (verb_of t2) (table_live t - dirty t) (verb_slots t)"
      by (rule pairs_kept [of "verb_of t"]) (use on en in \<open>auto simp: table_inv_on_def verb_of_def\<close>)
    then have "table_inv_on (dirty t2) t2"
      using on that cs en unfolding table_inv_on_def lv dt by (auto simp: verb_of_def)
    then show ?thesis using that lv dt en by (simp add: table_inv_def)
  qed
  have capc: "mt_capacity t \<le> combined_capacity c"
    using cs on cap by (cases e1) (auto simp: table_inv_on_def)
  from run consider (first) e where "e1 = Some e" "tr = []" "r = Inl e" "t' = t\<lparr>mt_memreg := c\<rparr>"
    | (second) e where "e1 = None" "tr = []" "r = Inl e" "t' = t\<lparr>mt_memreg := c, mt_added := d\<rparr>"
    | (third) e v where "e1 = None" "r = Inl e" "t' = t\<lparr>mt_memreg := c, mt_added := d, mt_ibverbs := v\<rparr>"
        "acts (resizeMemreg (\<lambda>k. ok (k + 6)) mxv sz) (mt_ibverbs t) tr (Inl e) v"
    | (finished) v where "e1 = None" "e2 = None" "r = Inr ()"
        "t' = t\<lparr>mt_memreg := c, mt_added := d, mt_ibverbs := v, mt_capacity := sz\<rparr>"
        "acts (resizeMemreg (\<lambda>k. ok (k + 6)) mxv sz) (mt_ibverbs t) tr (Inr ()) v"
    using c d by (cases e1; cases e2) (auto simp: reserve_def acts_bindA act_simps)
  then show ?thesis
  proof cases
    case first
    then show ?thesis using key [of t'] sp on capc by (simp add: verb_slots_def table_inv_on_def)
  next
    case second
    then show ?thesis using key [of t'] sp on capc ds by (simp add: verb_slots_def table_inv_on_def)
  next
    case third
    then show ?thesis using key [of t'] resizeMemreg_run [OF ci(2) third(4)] sp on capc ds cap
      by (auto simp: verb_slots_def table_inv_on_def)
  next
    case finished
    have "2 * int sz \<le> sp_max d" using ds finished(1,2) range_bound [of c sz] cs by simp
    then show ?thesis using finished key [of t'] resizeMemreg_run [OF ci(2) finished(5)] ds cs cap
      by (auto simp: verb_slots_def)
  qed
qed

section \<open>\<open>sync\<close>\<close>

text \<open>
  The two ways in which the registration of an area ends: its record is exchanged, or the call
  throws because this device or another process could not register.
\<close>

definition exchange_of :: "addr \<Rightarrow> nat \<Rightarrow> event list \<Rightarrow> mem_slot \<Rightarrow> bool" where
  "exchange_of a sz tr x \<longleftrightarrow> (\<exists>m tr1 rep rep'. registered a sz m tr1 \<and> \<not> the_flag rep \<and>
     tr = tr1 @ [(AllreduceOr False, rep), (Allgather (RegItem (registration a sz m)), rep')] \<and>
     x = \<lparr>slot_mr = m, glob = List.map reg_of (the_items rep')\<rparr>)"

definition exchange_failed :: "addr \<Rightarrow> nat \<Rightarrow> event list \<Rightarrow> bool" where
  "exchange_failed a sz tr \<longleftrightarrow>
     (\<exists>tr1 rep. reg_refused a sz tr1 \<and> tr = tr1 @ [(AllreduceAnd True, rep)]) \<or>
     (\<exists>m tr1 rep. registered a sz m tr1 \<and> the_flag rep \<and> tr = tr1 @ [(AllreduceOr False, rep)])"

definition verb_record :: "memory_table \<Rightarrow> slot \<Rightarrow> mem_slot" where
  "verb_record t i = projr (combined_lookup (m_memreg (mt_ibverbs t)) (verb_of t i))"

text \<open>What the registration of the slots \<open>A\<close> changes.\<close>

definition published :: "slot set \<Rightarrow> memory_table \<Rightarrow> memory_table \<Rightarrow> bool" where
  "published A t t' \<longleftrightarrow>
     table_live t' = table_live t \<and> same_table (table_live t - A) t t' \<and> mt_added t' = mt_added t \<and>
     (\<forall>i \<in> table_live t. mem_addr (entry t' i) = mem_addr (entry t i) \<and> mem_size (entry t' i) = mem_size (entry t i)) \<and>
     (\<forall>w \<in> verb_slots t. combined_lookup (m_memreg (mt_ibverbs t')) w = combined_lookup (m_memreg (mt_ibverbs t)) w) \<and>
     verb_slots t \<subseteq> verb_slots t' \<and>
     (mt_ibverbs t')\<lparr>m_memreg := m_memreg (mt_ibverbs t)\<rparr> = mt_ibverbs t"

lemma published_refl: "published {} t t"
  by (simp add: published_def same_table_def)

lemma combined_update_minNew:
  "combined_update c i f = Inr c' \<Longrightarrow> m_minNewSlotNr (m_global c') = m_minNewSlotNr (m_global c)"
  by (auto simp: combined_update_def memreg_update_def bindE_simps split: if_splits)

lemma publish_run:
  assumes on: "table_inv_on D t" and iD: "i \<in> D" and sz: "mem_size (entry t i) \<le> m_maxRegSize (mt_ibverbs t)"
    and live: "card (kind_slots False (table_live t)) \<le> mt_capacity t"
    and run: "acts (publish (int i)) t tr r t'"
  shows "(\<exists>e. r = Inl e \<and> is_exception e \<and> exchange_failed (mem_addr (entry t i)) (mem_size (entry t i)) tr) \<or>
    (r = Inr () \<and> table_inv_on (D - {i}) t' \<and> published {i} t t' \<and>
     exchange_of (mem_addr (entry t i)) (mem_size (entry t i)) tr (verb_record t' i))"
proof -
  let ?a = "mem_addr (entry t i)" and ?n = "mem_size (entry t i)"
  have ci: "combined_inv (mt_memreg t)" "combined_inv (m_memreg (mt_ibverbs t))" using on by (simp_all add: table_inv_on_def)
  have il: "i \<in> kind_slots False (table_live t)" using on iD by (auto simp: table_inv_on_def)
  then have i: "i \<in> table_live t" "\<not> isLocalSlot i" by (simp_all add: kind_slots_def)
  have "kind_slots False (table_live t - D) \<subset> kind_slots False (table_live t)" using il iD by (auto simp: kind_slots_def)
  then have "card (kind_slots False (table_live t - D)) < mt_capacity t"
    using psubset_card_mono [OF finite_kind] live by (metis order_less_le_trans)
  then have vr: "room_global (m_memreg (mt_ibverbs t))" using verbs_room [OF on, of False] by simp
  have run': "acts (bindA (on_ibverbs (regGlobal ?a ?n)) (\<lambda>v.
      on_memreg (\<lambda>m. bindE (combined_update m i (\<lambda>r. r\<lparr>mem_verb := v\<rparr>)) (\<lambda>m'. Inr ((), m'))))) t tr r t'"
    using run i(2) entry_lookup [OF on i(1)] by (simp add: publish_def table_lookup_def act_simps)
  then consider (bad) e v where "r = Inl e" "acts (regGlobal ?a ?n) (mt_ibverbs t) tr (Inl e) v"
    | (good) k v where "acts (regGlobal ?a ?n) (mt_ibverbs t) tr (Inr k) v"
      "acts (on_memreg (\<lambda>m. bindE (combined_update m i (\<lambda>r. r\<lparr>mem_verb := k\<rparr>)) (\<lambda>m'. Inr ((), m')))) (t\<lparr>mt_ibverbs := v\<rparr>) [] r t'"
    unfolding acts_bindA by (auto simp: act_simps)
  then show ?thesis
  proof cases
    case bad
    from regGlobal_run [OF bad(2) sz ci(2) vr] show ?thesis using bad(1) by (auto simp: exchange_failed_def)
  next
    case good
    obtain x where s: "slot_added False (mt_ibverbs t) k x v" and ex: "exchange_of ?a ?n tr x"
      using regGlobal_run [OF good(1) sz ci(2) vr] by (auto simp: exchange_of_def)
    obtain c where u: "combined_update (mt_memreg t) i (\<lambda>r. r\<lparr>mem_verb := k\<rparr>) = Inr c" "combined_inv c"
      "combined_live c = combined_live (mt_memreg t)" "combined_lookup c i = Inr ((entry t i)\<lparr>mem_verb := k\<rparr>)"
      "\<forall>j \<in> combined_live (mt_memreg t) - {i}. combined_lookup c j = combined_lookup (mt_memreg t) j"
      using local_reg.update_spec [OF ci(1) i(1) [unfolded table_live_def] entry_lookup [OF on i(1)], of "\<lambda>r. r\<lparr>mem_verb := k\<rparr>"]
      by blast
    have t': "t' = t\<lparr>mt_ibverbs := v, mt_memreg := c\<rparr>" "r = Inr ()" using good(2) u(1) by (simp_all add: act_simps)
    have ents: "entry t' i = (entry t i)\<lparr>mem_verb := k\<rparr>" "\<forall>j \<in> table_live t - {i}. entry t' j = entry t j"
      "table_live t' = table_live t"
      using u by (simp_all add: t' entry_def table_live_def)
    have vs: "verb_slots t' = insert k (verb_slots t)" "k \<notin> verb_slots t"
      using s by (simp_all add: verb_slots_def t' slot_added_def)
    have cl: "table_live t' - (D - {i}) = insert i (table_live t - D)" using ents(3) iD i(1) by auto
    have same: "\<forall>j \<in> table_live t - D. entry t' j = entry t j" using ents(2) iD by (metis Diff_iff singletonD)
    have "bij_betw (verb_of t') (insert i (table_live t - D)) (verb_slots t')"
      unfolding vs(1) by (rule pair_added [of "verb_of t"])
        (use on ents(1) same vs iD in \<open>auto simp: table_inv_on_def verb_of_def\<close>)
    moreover have "\<forall>j \<in> insert i (table_live t - D). isLocalSlot (verb_of t' j) = isLocalSlot j"
    proof
      fix j assume j: "j \<in> insert i (table_live t - D)"
      show "isLocalSlot (verb_of t' j) = isLocalSlot j"
        using j ents s i(2) on by (cases "j = i") (auto simp: verb_of_def slot_added_def table_inv_on_def)
    qed
    ultimately have inv': "table_inv_on (D - {i}) t'"
      using on s u(2,3) combined_capacity_kept(4) [OF u(1)] combined_update_minNew [OF u(1)] ents(3)
      unfolding table_inv_on_def cl by (auto simp: t' slot_added_def)
    have "(mt_ibverbs t')\<lparr>m_memreg := m_memreg (mt_ibverbs t)\<rparr> = mt_ibverbs t"
      using s by (simp add: t' slot_added_def)
    moreover have "mem_addr (entry t' j) = mem_addr (entry t j) \<and> mem_size (entry t' j) = mem_size (entry t j)"
      if "j \<in> table_live t" for j using ents that by (cases "j = i") simp_all
    moreover have "mt_added t' = mt_added t" "mt_capacity t' = mt_capacity t"
      "\<forall>w \<in> verb_slots t. combined_lookup (m_memreg (mt_ibverbs t')) w = combined_lookup (m_memreg (mt_ibverbs t)) w"
      using s by (simp_all add: t' slot_added_def verb_slots_def)
    ultimately have "published {i} t t'"
      using ents vs(1) unfolding published_def same_table_def by blast
    moreover have "verb_record t' i = x"
      using s ents(1) by (simp add: verb_record_def verb_of_def t' slot_added_def)
    ultimately show ?thesis using ex t'(2) inv' by simp
  qed
qed

lemma published_trans:
  assumes "published A t t1" and "published B t1 t2"
  shows "published (A \<union> B) t t2"
proof -
  have "(mt_ibverbs t2)\<lparr>m_memreg := m_memreg (mt_ibverbs t)\<rparr> =
      ((mt_ibverbs t2)\<lparr>m_memreg := m_memreg (mt_ibverbs t1)\<rparr>)\<lparr>m_memreg := m_memreg (mt_ibverbs t)\<rparr>" by simp
  also have "\<dots> = mt_ibverbs t" using assms by (simp add: published_def)
  finally show ?thesis using assms unfolding published_def same_table_def by auto
qed

text \<open>
  The loop: the first \<open>length segs\<close> slots are exchanged, \<open>segs\<close> being their parts of the trace; either
  that is all of them, or the registration of the next one throws.
\<close>

definition publishes :: "memory_table \<Rightarrow> slot list \<Rightarrow> event list list \<Rightarrow> event list \<Rightarrow> fault + unit \<Rightarrow> bool" where
  "publishes t ds segs end r \<longleftrightarrow>
     length segs \<le> length ds \<and>
     (\<forall>k < length segs. \<exists>x. exchange_of (mem_addr (entry t (ds ! k))) (mem_size (entry t (ds ! k))) (segs ! k) x) \<and>
     (if length segs = length ds then end = [] \<and> r = Inr ()
      else (\<exists>e. r = Inl e \<and> is_exception e) \<and>
        exchange_failed (mem_addr (entry t (ds ! length segs))) (mem_size (entry t (ds ! length segs))) end)"

lemma publishes_Nil: "publishes t [] [] [] (Inr ())"
  by (simp add: publishes_def)

lemma publish_all_run:
  assumes "table_inv_on D t" and "set ds \<subseteq> D" and "distinct ds"
    and "card (kind_slots False (table_live t)) \<le> mt_capacity t"
    and "\<forall>i \<in> set ds. mem_size (entry t i) \<le> m_maxRegSize (mt_ibverbs t)"
    and "acts (forA (List.map int ds) publish) t tr r t'"
  shows "\<exists>segs fin. tr = concat segs @ fin \<and> publishes t ds segs fin r \<and>
    (r = Inr () \<longrightarrow> table_inv_on (D - set ds) t' \<and> published (set ds) t t' \<and>
      (\<forall>k < length ds. exchange_of (mem_addr (entry t (ds ! k))) (mem_size (entry t (ds ! k))) (segs ! k) (verb_record t' (ds ! k))))"
  using assms
proof (induction ds arbitrary: D t tr)
  case Nil
  then show ?case by (intro exI [of _ "[]"]) (simp add: act_simps publishes_Nil published_refl)
next
  case (Cons i ds)
  have iD: "i \<in> D" and sz: "mem_size (entry t i) \<le> m_maxRegSize (mt_ibverbs t)" using Cons.prems by simp_all
  from Cons.prems(6) consider (bad) e where "r = Inl e" "acts (publish (int i)) t tr (Inl e) t'"
    | (good) t1 tr1 tr2 where "tr = tr1 @ tr2" "acts (publish (int i)) t tr1 (Inr ()) t1"
        "acts (forA (List.map int ds) publish) t1 tr2 r t'"
    by (auto simp: acts_bindA)
  then show ?case
  proof cases
    case bad
    then have "publishes t (i # ds) [] tr r"
      using publish_run [OF Cons.prems(1) iD sz Cons.prems(4) bad(2)] by (auto simp: publishes_def)
    then show ?thesis using bad(1) by (intro exI [of _ "[]"] exI [of _ tr]) simp
  next
    case good
    have on1: "table_inv_on (D - {i}) t1" and pb: "published {i} t t1"
      and ex: "exchange_of (mem_addr (entry t i)) (mem_size (entry t i)) tr1 (verb_record t1 i)"
      using publish_run [OF Cons.prems(1) iD sz Cons.prems(4) good(2)] by auto
    have lv: "table_live t1 = table_live t" "m_maxRegSize (mt_ibverbs t1) = m_maxRegSize (mt_ibverbs t)"
      "mt_capacity t1 = mt_capacity t"
      using pb unfolding published_def same_table_def by (auto dest: arg_cong [of _ _ m_maxRegSize])
    have dl: "set (i # ds) \<subseteq> table_live t" using Cons.prems(1,2) by (auto simp: table_inv_on_def kind_slots_def)
    have same: "mem_addr (entry t1 j) = mem_addr (entry t j) \<and> mem_size (entry t1 j) = mem_size (entry t j)" if "j \<in> set ds" for j
      using pb dl that unfolding published_def by auto
    have ih: "\<exists>segs fin. tr2 = concat segs @ fin \<and> publishes t1 ds segs fin r \<and>
      (r = Inr () \<longrightarrow> table_inv_on (D - {i} - set ds) t' \<and> published (set ds) t1 t' \<and>
        (\<forall>k < length ds. exchange_of (mem_addr (entry t1 (ds ! k))) (mem_size (entry t1 (ds ! k))) (segs ! k) (verb_record t' (ds ! k))))"
      by (rule Cons.IH [OF on1 _ _ _ _ good(3)]) (use Cons.prems lv same in auto)
    then obtain segs fin where s: "tr2 = concat segs @ fin" "publishes t1 ds segs fin r"
      and fin: "r = Inr () \<Longrightarrow> table_inv_on (D - {i} - set ds) t' \<and> published (set ds) t1 t' \<and>
        (\<forall>k < length ds. exchange_of (mem_addr (entry t1 (ds ! k))) (mem_size (entry t1 (ds ! k))) (segs ! k) (verb_record t' (ds ! k)))"
      by blast
    have "publishes t (i # ds) (tr1 # segs) fin r"
      unfolding publishes_def using s(2) ex same by (auto simp: publishes_def less_Suc_eq_0_disj)
    moreover have "table_inv_on (D - set (i # ds)) t' \<and> published (set (i # ds)) t t' \<and>
      (\<forall>k < length (i # ds). exchange_of (mem_addr (entry t ((i # ds) ! k))) (mem_size (entry t ((i # ds) ! k)))
         ((tr1 # segs) ! k) (verb_record t' ((i # ds) ! k)))" if r: "r = Inr ()"
    proof -
      note f = fin [OF r]
      have "verb_of t1 i \<in> verb_slots t1"
        using on1 dl lv by (auto simp: table_inv_on_def bij_betw_def)
      moreover have "i \<in> table_live t1 - set ds" using Cons.prems(3) dl lv by simp
      ultimately have "verb_record t' i = verb_record t1 i"
        using f unfolding published_def same_table_def verb_record_def verb_of_def by auto
      moreover have "D - {i} - set ds = D - set (i # ds)" "{i} \<union> set ds = set (i # ds)" by auto
      then have "table_inv_on (D - set (i # ds)) t' \<and> published (set (i # ds)) t t'"
        using f published_trans [OF pb, of "set ds" t'] by simp
      ultimately show ?thesis using f ex same by (auto simp: less_Suc_eq_0_disj)
    qed
    ultimately show ?thesis using s(1) good(1) by (intro exI [of _ "tr1 # segs"] exI [of _ fin]) simp
  qed
qed

lemma globals_bounded: "table_inv_on D t \<Longrightarrow> card (kind_slots False (table_live t)) \<le> mt_capacity t"
  using memreg_card_live [of "m_global (mt_memreg t)"]
  unfolding table_inv_on_def table_live_def card_kind_live combined_inv_def by linarith

lemma dirty_iterate:
  assumes "table_inv t" and "sparse_iterate (mt_added t) = List.map int ds"
  shows "set ds = dirty t" and "distinct ds"
proof -
  have "sparse_inv0 (mt_added t)" using assms(1) by (simp add: table_inv_def)
  from sparse.iterate_spec [OF this] show "set ds = dirty t" "distinct ds"
    using assms(2) by (simp_all add: dirty_def distinct_map set_eq_iff) (metis image_eqI image_iff of_nat_eq_iff)+
qed

lemma cleared_fields [simp]:
  "entry (t\<lparr>mt_added := d\<rparr>) = entry t" "table_live (t\<lparr>mt_added := d\<rparr>) = table_live t"
  "verb_slots (t\<lparr>mt_added := d\<rparr>) = verb_slots t" "verb_of (t\<lparr>mt_added := d\<rparr>) = verb_of t"
  "verb_record (t\<lparr>mt_added := d\<rparr>) = verb_record t" "table_inv_on D (t\<lparr>mt_added := d\<rparr>) = table_inv_on D t"
proof -
  show e: "entry (t\<lparr>mt_added := d\<rparr>) = entry t" by (simp add: entry_def fun_eq_iff)
  then show v: "verb_of (t\<lparr>mt_added := d\<rparr>) = verb_of t" by (simp add: verb_of_def fun_eq_iff)
  then show "verb_record (t\<lparr>mt_added := d\<rparr>) = verb_record t" by (simp add: verb_record_def fun_eq_iff)
  show l: "table_live (t\<lparr>mt_added := d\<rparr>) = table_live t" "verb_slots (t\<lparr>mt_added := d\<rparr>) = verb_slots t"
    by (simp_all add: table_live_def verb_slots_def)
  show "table_inv_on D (t\<lparr>mt_added := d\<rparr>) = table_inv_on D t" by (simp add: table_inv_on_def v l)
qed

text \<open>What a successful \<open>sync\<close> leaves.\<close>

definition synced :: "memory_table \<Rightarrow> slot list \<Rightarrow> event list list \<Rightarrow> memory_table \<Rightarrow> bool" where
  "synced t ds segs t' \<longleftrightarrow> table_inv t' \<and> dirty t' = {} \<and> table_live t' = table_live t \<and>
     (\<forall>i \<in> table_live t. mem_addr (entry t' i) = mem_addr (entry t i) \<and> mem_size (entry t' i) = mem_size (entry t i)) \<and>
     (\<forall>k < length ds. exchange_of (mem_addr (entry t (ds ! k))) (mem_size (entry t (ds ! k))) (segs ! k) (verb_record t' (ds ! k)))"

lemma sync_run:
  assumes inv: "table_inv t" and it: "sparse_iterate (mt_added t) = List.map int ds"
    and sz: "\<forall>i \<in> set ds. mem_size (entry t i) \<le> m_maxRegSize (mt_ibverbs t)"
    and run: "acts table_sync t tr r t'"
  shows "\<exists>segs fin bar. tr = concat segs @ fin @ bar \<and> publishes t ds segs fin r \<and>
    (if r = Inr () then (if ds = [] then bar = [] else \<exists>rep. bar = [(Barrier, rep)]) \<and> synced t ds segs t' else bar = [])"
proof -
  have on: "table_inv_on (dirty t) t" and sp: "sparse_inv0 (mt_added t)" "2 * int (mt_capacity t) \<le> sp_max (mt_added t)"
    using inv by (simp_all add: table_inv_def)
  note ds = dirty_iterate [OF inv it]
  have emp: "sparse_is_empty (mt_added t) \<longleftrightarrow> ds = []" using sparse.empty_iterate [OF sp(1)] it by simp
  show ?thesis
  proof (cases "ds = []")
    case True
    then have "tr = [] \<and> r = Inr () \<and> t' = t" using run emp by (simp add: table_sync_def act_simps)
    then show ?thesis using True inv ds
      by (intro exI [of _ "[]"]) (simp add: publishes_Nil synced_def)
  next
    case False
    have run': "acts (bindA (forA (List.map int ds) publish) (\<lambda>_. bindA (callA Barrier) (\<lambda>_.
       modA (\<lambda>t. t\<lparr>mt_added := sparse_clear (mt_added t)\<rparr>)))) t tr r t'"
      using run emp False it by (simp add: table_sync_def act_simps)
    note loop = publish_all_run [OF on _ ds(2) globals_bounded [OF on] sz]
    from run' consider (bad) e where "r = Inl e" "acts (forA (List.map int ds) publish) t tr (Inl e) t'"
      | (good) t1 tr1 rep where "tr = tr1 @ [(Barrier, rep)]" "r = Inr ()"
          "acts (forA (List.map int ds) publish) t tr1 (Inr ()) t1" "t' = t1\<lparr>mt_added := sparse_clear (mt_added t1)\<rparr>"
      by (auto simp: acts_bindA act_simps)
    then show ?thesis
    proof cases
      case bad
      then show ?thesis using loop [OF _ bad(2)] ds by force
    next
      case good
      obtain segs where s: "tr1 = concat segs" "publishes t ds segs [] (Inr ())"
        and t1: "table_inv_on (dirty t - set ds) t1" "published (set ds) t t1"
        and ex: "\<forall>k < length ds. exchange_of (mem_addr (entry t (ds ! k))) (mem_size (entry t (ds ! k))) (segs ! k) (verb_record t1 (ds ! k))"
        using loop [OF _ good(3)] ds by (auto simp: publishes_def split: if_splits)
      have ad: "mt_added t1 = mt_added t" "mt_capacity t1 = mt_capacity t" using t1(2) by (simp_all add: published_def same_table_def)
      have cl: "sparse_inv0 (sparse_clear (mt_added t))" "sparse_set (sparse_clear (mt_added t)) = {}"
        "sp_max (sparse_clear (mt_added t)) = sp_max (mt_added t)" using sparse.clear_spec [OF sp(1)] by auto
      have d': "dirty t' = {}" using cl ad by (simp add: dirty_def good(4))
      then have "table_inv t'" using t1(1) ds(1) cl ad sp(2) by (simp add: table_inv_def good(4))
      then have "synced t ds segs t'" using d' t1(2) ex by (simp add: synced_def good(4) published_def)
      then show ?thesis using s good(1,2) False by (intro exI [of _ segs] exI [of _ "[]"] exI [of _ "[(Barrier, rep)]"]) simp
    qed
  qed
qed

section \<open>Reachable tables\<close>

text \<open>
  The histories of a table whose users keep to the capacity: a slot is added where there is room and
  removed where it is live, the capacity only grows, and a \<open>sync\<close> that throws ends the history.  A
  \<open>reserve\<close> or \<open>addLocal\<close> that throws does not.
\<close>

inductive table_reach :: "ibverbs \<Rightarrow> memory_table \<Rightarrow> bool" for v where
  start: "table_new ok v = Inr t \<Longrightarrow> table_reach v t"
| local: "table_reach v t \<Longrightarrow> has_room True t \<Longrightarrow> sz \<le> m_maxRegSize (mt_ibverbs t) \<Longrightarrow>
    acts (addLocal mem sz) t tr r t' \<Longrightarrow> table_reach v t'"
| global: "table_reach v t \<Longrightarrow> has_room False t \<Longrightarrow> acts (addGlobal mem sz) t tr r t' \<Longrightarrow> table_reach v t'"
| remove: "table_reach v t \<Longrightarrow> i \<in> table_live t \<Longrightarrow> acts (table_remove i) t tr r t' \<Longrightarrow> table_reach v t'"
| grow: "table_reach v t \<Longrightarrow> mt_capacity t \<le> sz \<Longrightarrow> sp_max (mt_added t) \<le> 2 * int sz + 1 \<Longrightarrow>
    acts (reserve ok mx sz) t tr r t' \<Longrightarrow> table_reach v t'"
| synced: "table_reach v t \<Longrightarrow> \<forall>i \<in> dirty t. mem_size (entry t i) \<le> m_maxRegSize (mt_ibverbs t) \<Longrightarrow>
    acts table_sync t tr (Inr ()) t' \<Longrightarrow> table_reach v t'"

lemma table_new_inv:
  assumes "combined_inv (m_memreg v)" and "combined_live (m_memreg v) = {}" and "table_new ok v = Inr t"
  shows "table_inv t"
proof -
  obtain d where d: "sparse_new ok 0 0 = (d, None)"
    and t: "t = \<lparr>mt_memreg = combined_empty, mt_capacity = 0, mt_added = d, mt_ibverbs = v\<rparr>"
    using assms(3) by (auto simp: table_new_def split: prod.splits option.splits)
  have "sparse_inv0 d" "sparse_set d = {}" "sp_max d = 0"
    using sparse_reset_spec [OF d [unfolded sparse_new_def]] by (simp_all add: sparse_inv0_def)
  moreover have "table_live t = {}" by (simp add: t table_live_def combined_live_def combined_empty_def)
  moreover have "combined_inv (mt_memreg t)" "m_minNewSlotNr (m_global (mt_memreg t)) = 0" "mt_capacity t = 0"
      "mt_added t = d" "verb_slots t = {}" "m_memreg (mt_ibverbs t) = m_memreg v"
    using assms(2) combined_inv_empty by (simp_all add: t) (simp_all add: combined_empty_def memreg_empty_def verb_slots_def)
  ultimately show ?thesis using assms(1) by (simp add: table_inv_def table_inv_on_def dirty_def bij_betw_def)
qed

lemma iterate_slots: "table_inv t \<Longrightarrow> \<exists>ds. sparse_iterate (mt_added t) = List.map int ds"
proof -
  assume "table_inv t"
  then have i: "sparse_inv0 (mt_added t)" by (simp add: table_inv_def)
  have "\<forall>x \<in> set (sparse_iterate (mt_added t)). 0 \<le> x"
    using sparse.iterate_spec [OF i] sparse.marked_range [OF i] by auto
  then have "sparse_iterate (mt_added t) = List.map int (List.map nat (sparse_iterate (mt_added t)))"
    by (simp add: map_idI)
  then show ?thesis by blast
qed

lemma table_reach_inv:
  assumes "table_reach v t" and "combined_inv (m_memreg v)" and "combined_live (m_memreg v) = {}"
  shows "table_inv t"
  using assms(1)
proof induction
  case (start ok t)
  then show ?case using table_new_inv assms(2,3) by blast
next
  case (local t sz mem tr r t')
  then show ?case using addLocal_run by blast
next
  case (global t mem sz tr r t')
  then show ?case using addGlobal_run by blast
next
  case (remove t i tr r t')
  then show ?case using remove_run by blast
next
  case (grow t sz ok mx tr r t')
  then show ?case using reserve_run by blast
next
  case (synced t tr t')
  obtain ds where ds: "sparse_iterate (mt_added t) = List.map int ds" using iterate_slots [OF synced.IH] ..
  have "\<forall>i \<in> set ds. mem_size (entry t i) \<le> m_maxRegSize (mt_ibverbs t)"
    using synced.hyps(2) dirty_iterate [OF synced.IH ds] by simp
  from sync_run [OF synced.IH ds this synced.hyps(3)] show ?case by (auto simp: synced_def)
qed

section \<open>Properties\<close>

text \<open>
  C3: In every reachable table the slots that need no \<open>sync\<close> and the live slots of the \<open>IBVerbs\<close>
  object are in one to one correspondence, local with local and global with global; only
  global slots are dirty; and as long as fewer slots of a kind than the capacity are in use, there is
  room for another one in the table and in the \<open>IBVerbs\<close> object.
\<close>

theorem table_slots_correspond:
  assumes "table_reach v t" and "combined_inv (m_memreg v)" and "combined_live (m_memreg v) = {}"
  shows "bij_betw (verb_of t) (table_live t - dirty t) (verb_slots t) \<and>
    (\<forall>i \<in> table_live t - dirty t. isLocalSlot (verb_of t i) = isLocalSlot i) \<and>
    dirty t \<subseteq> kind_slots False (table_live t) \<and>
    (has_room True t \<longrightarrow> room_local (mt_memreg t) \<and> room_local (m_memreg (mt_ibverbs t))) \<and>
    (has_room False t \<longrightarrow> room_global (mt_memreg t) \<and> room_global (m_memreg (mt_ibverbs t)))"
proof -
  have on: "table_inv_on (dirty t) t" using table_reach_inv [OF assms] by (simp add: table_inv_def)
  have "card (kind_slots loc (table_live t - dirty t)) \<le> card (kind_slots loc (table_live t))" for loc
    by (rule card_mono) (auto simp: kind_slots_def table_live_def)
  then have less: "card (kind_slots loc (table_live t - dirty t)) < mt_capacity t" if "has_room loc t" for loc
    using that by (metis has_room_def order_le_less_trans)
  have "if loc then room_local (mt_memreg t) \<and> room_local (m_memreg (mt_ibverbs t))
      else room_global (mt_memreg t) \<and> room_global (m_memreg (mt_ibverbs t))" if "has_room loc t" for loc
    using table_room [OF on that] verbs_room [OF on, of loc] less [OF that] by (cases loc) simp_all
  from this [of True] this [of False] show ?thesis using on by (auto simp: table_inv_on_def)
qed

text \<open>
  A table of capacity one with one dirty slot of 64 bytes, as process \<open>i\<close> of two gets it from a
  fresh table, \<open>reserve(1)\<close> and \<open>addGlobal\<close>.
\<close>

definition demo_object :: "nat \<Rightarrow> ibverbs" where
  "demo_object i = (ibverbs_init i 2 1 (-1) IBV_MTU_4096)\<lparr>m_maxRegSize := 1000, m_max_mr := 10\<rparr>"

definition one_slot :: "'a \<Rightarrow> nat \<Rightarrow> 'a memreg" where
  "one_slot x n = \<lparr>m_slots = [x], m_free = [], m_free_capacity = 1, m_minNewSlotNr = n\<rparr>"

definition demo_table :: "nat \<Rightarrow> nat \<Rightarrow> memory \<Rightarrow> memory_table" where
  "demo_table i n x =
     (let e = empty_slot\<lparr>glob := replicate 2 null_registration\<rparr> in
      \<lparr>mt_memreg = \<lparr>m_local = one_slot default_memory 0, m_global = one_slot x n\<rparr>, mt_capacity = 1,
       mt_added = \<lparr>sp_min = 0, sp_max = 3, sp_size = n, sp_domain = [0, 1, 2, 3], sp_map = [0, 1, 2, 3]\<rparr>,
       mt_ibverbs = (demo_object i)\<lparr>m_memreg := \<lparr>m_local = one_slot e 0, m_global = one_slot e 0\<rparr>\<rparr>\<rparr>)"

definition demo_memory :: "nat \<Rightarrow> memory" where
  "demo_memory i = \<lparr>mem_addr = 1000 * i, mem_size = 64, mem_verb = no_verb\<rparr>"

lemma demo_object_ok: "combined_inv (m_memreg (demo_object i))" "combined_live (m_memreg (demo_object i)) = {}"
  using combined_inv_empty by (simp_all add: demo_object_def ibverbs_init_def) (simp add: combined_live_def combined_empty_def)

lemmas demo_table_defs = demo_table_def demo_object_def one_slot_def ibverbs_init_def Let_def

lemma demo_table_reserve:
  "\<exists>t. table_new (\<lambda>_. True) (demo_object i) = Inr t \<and> mt_capacity t = 0 \<and> sp_max (mt_added t) = 0 \<and>
     acts (reserve (\<lambda>_. True) 100 1) t [] (Inr ()) (demo_table i 0 default_memory)"
proof -
  define d0 where "d0 = \<lparr>sp_min = 0, sp_max = 0, sp_size = 0, sp_domain = [0], sp_map = [0]\<rparr>"
  have new: "table_new (\<lambda>_. True) (demo_object i) =
      Inr \<lparr>mt_memreg = combined_empty, mt_capacity = 0, mt_added = d0, mt_ibverbs = demo_object i\<rparr>"
    by (simp add: table_new_def sparse_new_def sparse_reset_def sparse_max_size_def resize_ok_def d0_def)
  have r1: "combined_reserve (\<lambda>_. True) memory_max_size default_memory combined_empty 1 default_memory =
      (\<lparr>m_local = one_slot default_memory 0, m_global = one_slot default_memory 0\<rparr>, None)"
    by (simp add: combined_reserve_def memreg_reserve_def combined_empty_def memreg_empty_def free_max_size_def
        memory_max_size_def vec_resize_def one_slot_def)
  have r2: "sparse_resize (\<lambda>_. True) d0 3 =
      (\<lparr>sp_min = 0, sp_max = 3, sp_size = 0, sp_domain = [0, 1, 2, 3], sp_map = [0, 1, 2, 3]\<rparr>, None)"
    by (simp add: sparse_resize_def sparse_extend_def sparse_max_size_def resize_ok_def d0_def Let_def vec_resize_def
        upt_conv_Cons)
  have r3: "combined_reserve (\<lambda>_. True) 100 empty_slot combined_empty 1 d =
      (\<lparr>m_local = one_slot d 0, m_global = one_slot d 0\<rparr>, None)" for d
    by (simp add: combined_reserve_def memreg_reserve_def combined_empty_def memreg_empty_def free_max_size_def
        vec_resize_def one_slot_def)
  have rg: "combined_range \<lparr>m_local = one_slot default_memory 0, m_global = one_slot default_memory 0\<rparr> = 3"
    by (simp add: combined_range_def one_slot_def memreg_capacity_def mul64_def add64_def)
  let ?t = "\<lparr>mt_memreg = combined_empty, mt_capacity = 0, mt_added = d0, mt_ibverbs = demo_object i\<rparr>"
  have "acts (reserve (\<lambda>_. True) 100 1) ?t [] (Inr ()) (demo_table i 0 default_memory)"
    by (simp add: act_simps reserve_def resizeMemreg_def r1 [unfolded One_nat_def] r2 r3 [unfolded One_nat_def] rg
        acts_bindA demo_table_def demo_object_def INT_MAX_def ibverbs_init_def Let_def)
  then show ?thesis using new by (intro exI [of _ ?t]) (simp add: d0_def)
qed

lemma demo_table_dirty:
  "acts (addGlobal (1000 * i) 64) (demo_table i 0 default_memory) [] (Inr 0) (demo_table i 1 (demo_memory i))"
  by (simp add: addGlobal_def act_simps acts_bindA demo_table_def one_slot_def addGlobalReg_def memreg_add_def
      add64_def toGlobal_def mul64_def sparse_insert_def sparse_contains_def sparse_exchange_def index_of_T_def
      demo_memory_def Let_def)

lemma demo_table_reach: "table_reach (demo_object i) (demo_table i 1 (demo_memory i))"
proof -
  obtain t where t: "table_new (\<lambda>_. True) (demo_object i) = Inr t" "mt_capacity t = 0" "sp_max (mt_added t) = 0"
    "acts (reserve (\<lambda>_. True) 100 1) t [] (Inr ()) (demo_table i 0 default_memory)"
    using demo_table_reserve by blast
  have "table_reach (demo_object i) (demo_table i 0 default_memory)"
    by (rule table_reach.grow [OF table_reach.start [OF t(1)] _ _ t(4)]) (simp_all add: t(2,3))
  moreover have "has_room False (demo_table i 0 default_memory)"
    by (simp add: has_room_def kind_slots_def table_live_def combined_live_def memreg_live_def demo_table_defs)
  ultimately show ?thesis using table_reach.global demo_table_dirty [of i] by blast
qed

theorem table_slots_correspond_witness:
  "table_reach (demo_object 0) (demo_table 0 1 (demo_memory 0)) \<and>
   bij_betw (verb_of (demo_table 0 1 (demo_memory 0))) {} {}"
proof -
  let ?t = "demo_table 0 1 (demo_memory 0)"
  have "table_live ?t = {0}" "dirty ?t = {0}" "verb_slots ?t = {}"
    by (auto simp: table_live_def combined_live_def memreg_live_def demo_table_defs dirty_def verb_slots_def
        sparse_set_def sparse_contains_def nth_Cons' split: if_splits)
  then show ?thesis using table_slots_correspond [OF demo_table_reach [of 0] demo_object_ok] demo_table_reach [of 0] by simp
qed

text \<open>The collective calls of a sequence of exchanges, two for each.\<close>

lemma concat_pairs:
  assumes "\<forall>xs \<in> set xss. length xs = 2" and "k < length xss"
  shows "length (concat xss) = 2 * length xss" "concat xss ! (2 * k) = xss ! k ! 0" "concat xss ! (2 * k + 1) = xss ! k ! 1"
proof -
  show l: "length (concat xss) = 2 * length xss" using assms(1) by (induction xss) auto
  show "concat xss ! (2 * k) = xss ! k ! 0" "concat xss ! (2 * k + 1) = xss ! k ! 1"
    using assms by (induction xss arbitrary: k) (auto simp: nth_append less_Suc_eq_0_disj)
qed

lemma collectives_concat: "collectives (concat segs) = concat (List.map collectives segs)"
  by (induction segs) simp_all

lemma coll_kinds_concat: "coll_kinds (concat segs) = concat (List.map coll_kinds segs)"
  by (induction segs) simp_all

lemma exchange_calls:
  assumes "exchange_of a sz tr x"
  shows "length (collectives tr) = 2" "fst (collectives tr ! 0) = AllreduceOr False"
    "fst (collectives tr ! 1) = Allgather (RegItem (registration a sz (slot_mr x)))"
    "coll_kinds tr = [KOr, KGather]" "glob x = List.map reg_of (the_items (snd (collectives tr ! 1)))"
  using assms by (auto simp: exchange_of_def)

lemma publishes_calls:
  assumes "publishes t ds segs fin r" and "tr = concat segs @ fin @ bar" and "k < length segs"
  shows "2 * k + 1 < length (collectives tr)" "fst (collectives tr ! (2 * k)) = AllreduceOr False"
    "collectives tr ! (2 * k + 1) = collectives (segs ! k) ! 1"
    "\<exists>y. fst (collectives tr ! (2 * k + 1)) = Allgather y"
proof -
  have all: "\<forall>xs \<in> set (List.map collectives segs). length xs = 2"
    using assms(1) exchange_calls(1) unfolding publishes_def by (auto simp: in_set_conv_nth) blast
  have k: "k < length (List.map collectives segs)" using assms(3) by simp
  note c = concat_pairs [OF all k]
  have less: "2 * k + 1 < length (concat (List.map collectives segs))" using c(1) k by simp
  then show "2 * k + 1 < length (collectives tr)" by (simp add: assms(2) collectives_concat)
  have at: "collectives tr ! j = concat (List.map collectives segs) ! j" if "j \<le> 2 * k + 1" for j
    using that less by (simp add: assms(2) collectives_concat nth_append)
  obtain x where x: "exchange_of (mem_addr (entry t (ds ! k))) (mem_size (entry t (ds ! k))) (segs ! k) x"
    using assms(1,3) unfolding publishes_def by blast
  show "fst (collectives tr ! (2 * k)) = AllreduceOr False" using at [of "2 * k"] c(2) exchange_calls(2) [OF x] k by simp
  show e: "collectives tr ! (2 * k + 1) = collectives (segs ! k) ! 1" using at [of "2 * k + 1"] c(3) k by simp
  show "\<exists>y. fst (collectives tr ! (2 * k + 1)) = Allgather y" unfolding e using exchange_calls(3) [OF x] by blast
qed

text \<open>A process that stops early has been told of a failure: the device accepted all its areas.\<close>

lemma publishes_stopped:
  assumes "publishes t ds segs fin r" and "tr = concat segs @ fin" and "length segs < length ds" and "accepted tr"
  shows "\<exists>rep. the_flag rep \<and> 2 * length segs < length (collectives tr) \<and>
    collectives tr ! (2 * length segs) = (AllreduceOr False, rep)"
proof -
  have all: "\<forall>xs \<in> set (List.map collectives segs). length xs = 2"
    using assms(1) exchange_calls(1) unfolding publishes_def by (auto simp: in_set_conv_nth) blast
  have l: "length (collectives (concat segs)) = 2 * length segs"
    using concat_pairs(1) [OF all] by (cases "segs = []") (auto simp: collectives_concat)
  have "accepted fin" using assms(2,4) by (simp add: accepted_def)
  moreover have "\<not> accepted tr1" if "reg_refused a sz tr1" for a sz tr1
    using that by (auto simp: accepted_def reg_refused_def)
  ultimately obtain m tr1 rep where "registered (mem_addr (entry t (ds ! length segs))) (mem_size (entry t (ds ! length segs))) m tr1"
    "the_flag rep" "fin = tr1 @ [(AllreduceOr False, rep)]"
    using assms(1,3) unfolding publishes_def exchange_failed_def by (auto simp: accepted_def split: if_splits)
  then show ?thesis using l by (simp add: assms(2) nth_append)
qed

text \<open>The precondition of one process.\<close>

definition sync_ready :: "slot list \<Rightarrow> memory_table \<Rightarrow> bool" where
  "sync_ready ds t \<longleftrightarrow> table_inv t \<and> sparse_iterate (mt_added t) = List.map int ds \<and>
     (\<forall>i \<in> set ds. mem_size (entry t i) \<le> m_maxRegSize (mt_ibverbs t))"

text \<open>No process stops early: the first one to do so would have been told of a failure that nobody had.\<close>

lemma all_publish:
  assumes ok: "collectives_ok trs" "length trs = n"
    and run: "\<forall>i<n. trs ! i = concat (segs i) @ fin i @ bar i \<and> publishes (t i) ds (segs i) (fin i) (r i) \<and>
      (r i \<noteq> Inr () \<longrightarrow> bar i = []) \<and> accepted (trs ! i)"
    and k: "k \<le> length ds"
  shows "\<forall>i<n. k \<le> length (segs i)"
  using k
proof (induction k)
  case (Suc k)
  then have ge: "\<forall>i<n. k \<le> length (segs i)" by simp
  have stopped: "\<exists>rep. the_flag rep \<and> 2 * k < length (collectives (trs ! i)) \<and> collectives (trs ! i) ! (2 * k) = (AllreduceOr False, rep)"
    if i: "i < n" and l: "length (segs i) = k" for i
  proof -
    have "r i \<noteq> Inr ()" using run i l Suc.prems by (auto simp: publishes_def split: if_splits)
    then show ?thesis
      using publishes_stopped [of "t i" ds "segs i" "fin i" "r i" "trs ! i"] run i l Suc.prems by auto
  qed
  have vote: "2 * k < length (collectives (trs ! i)) \<and> fst (collectives (trs ! i) ! (2 * k)) = AllreduceOr False" if i: "i < n" for i
  proof (cases "length (segs i) = k")
    case True
    then show ?thesis using stopped [OF i] by auto
  next
    case False
    then have "k < length (segs i)" using ge i by fastforce
    then show ?thesis using publishes_calls(1,2) [of "t i" ds "segs i" "fin i" "r i" "trs ! i" "bar i" k] run i by auto
  qed
  have m: "round_matched trs (2 * k)" by (rule round_matchedI [where c = KOr]) (use vote ok(2) in auto)
  have "length (segs i) \<noteq> k" if i: "i < n" for i
  proof
    assume "length (segs i) = k"
    from stopped [OF i this] obtain rep where rep: "the_flag rep" "collectives (trs ! i) ! (2 * k) = (AllreduceOr False, rep)" by blast
    have "rep = Flag (\<exists>j<length trs. fst (collectives (trs ! j) ! (2 * k)) = AllreduceOr True)"
      by (rule round_or [OF ok(1) _ m rep(2)]) (use i ok(2) in simp)
    then show False using rep(1) vote ok(2) by auto
  qed
  then show ?case using ge by (metis Suc_leI order_le_less)
qed simp

lemma sync_all_run:
  assumes "collectives_ok trs" and "length trs = n"
    and "\<forall>i<n. acts table_sync (t i) (trs ! i) (r i) (t' i) \<and> accepted (trs ! i) \<and> sync_ready ds (t i)"
  shows "\<exists>segs bar. \<forall>i<n. trs ! i = concat (segs i) @ bar i \<and> length (segs i) = length ds \<and> r i = Inr () \<and>
    coll_kinds (bar i) = (if ds = [] then [] else [KBarrier]) \<and> publishes (t i) ds (segs i) [] (r i) \<and>
    synced (t i) ds (segs i) (t' i)"
proof -
  have "\<exists>segs fin bar. trs ! i = concat segs @ fin @ bar \<and> publishes (t i) ds segs fin (r i) \<and>
    (if r i = Inr () then (if ds = [] then bar = [] else \<exists>rep. bar = [(Barrier, rep)]) \<and> synced (t i) ds segs (t' i) else bar = [])"
    if "i < n" for i using sync_run [of "t i" ds "trs ! i" "r i" "t' i"] assms(3) that by (auto simp: sync_ready_def)
  then obtain segs last bar where run: "\<And>i. i < n \<Longrightarrow> trs ! i = concat (segs i) @ last i @ bar i \<and>
      publishes (t i) ds (segs i) (last i) (r i) \<and>
      (if r i = Inr () then (if ds = [] then bar i = [] else \<exists>rep. bar i = [(Barrier, rep)]) \<and> synced (t i) ds (segs i) (t' i)
       else bar i = [])" by metis
  have "\<forall>i<n. length ds \<le> length (segs i)"
    by (rule all_publish [OF assms(1,2), of segs last bar t ds r]) (use run assms(3) in auto)
  then have l: "length (segs i) = length ds \<and> last i = [] \<and> r i = Inr ()" if "i < n" for i
    using run [OF that] that by (auto simp: publishes_def le_antisym)
  moreover have "coll_kinds (bar i) = (if ds = [] then [] else [KBarrier])" if "i < n" for i
    using run [OF that] l [OF that] by (auto split: if_splits)
  ultimately show ?thesis using run by (intro exI [of _ segs] exI [of _ bar]) auto
qed

text \<open>
  C2: \<open>sync\<close> registers the global slots that were added since the last one.  When all processes marked the
  same slots in the same order and every device accepts its areas, the processes make matching
  collective calls, all return, and nothing is dirty any more; the slots and their areas are
  unchanged; and for each new slot the record of every process lists, in the order of the process numbers, the
  area of that slot in each of them with the keys its device gave.
\<close>

theorem table_sync_exchange:
  assumes "collectives_ok trs" and "length trs = n"
    and "\<forall>i<n. acts table_sync (t i) (trs ! i) (r i) (t' i) \<and> accepted (trs ! i) \<and> sync_ready ds (t i)"
  shows "matched trs \<and> (\<exists>m. \<forall>i<n. r i = Inr () \<and> table_inv (t' i) \<and> dirty (t' i) = {} \<and>
    table_live (t' i) = table_live (t i) \<and>
    (\<forall>s \<in> table_live (t i). mem_addr (entry (t' i) s) = mem_addr (entry (t i) s) \<and>
       mem_size (entry (t' i) s) = mem_size (entry (t i) s)) \<and>
    (\<forall>s \<in> set ds. glob (verb_record (t' i) s) =
       List.map (\<lambda>j. registration (mem_addr (entry (t j) s)) (mem_size (entry (t j) s)) (m j s)) [0..<n]))"
proof -
  obtain segs bar where all: "\<forall>i<n. trs ! i = concat (segs i) @ bar i \<and> length (segs i) = length ds \<and> r i = Inr () \<and>
      coll_kinds (bar i) = (if ds = [] then [] else [KBarrier]) \<and> publishes (t i) ds (segs i) [] (r i) \<and>
      synced (t i) ds (segs i) (t' i)"
    using sync_all_run [OF assms] by blast
  define m where "m j s = slot_mr (verb_record (t' j) s)" for j s
  have ex: "exchange_of (mem_addr (entry (t i) (ds ! k))) (mem_size (entry (t i) (ds ! k))) (segs i ! k) (verb_record (t' i) (ds ! k))"
    if "i < n" "k < length ds" for i k using all that by (simp add: synced_def)
  have call: "2 * k + 1 < length (collectives (trs ! i)) \<and> collectives (trs ! i) ! (2 * k + 1) = collectives (segs i ! k) ! 1"
    if "i < n" "k < length ds" for i k
    using publishes_calls(1,3) [of "t i" ds "segs i" "[]" "r i" "trs ! i" "bar i" k] all that by auto
  have items: "glob (verb_record (t' i) (ds ! k)) =
      List.map (\<lambda>j. registration (mem_addr (entry (t j) (ds ! k))) (mem_size (entry (t j) (ds ! k))) (m j (ds ! k))) [0..<n]"
    if i: "i < n" and k: "k < length ds" for i k
  proof -
    have ga: "fst (collectives (trs ! j) ! (2 * k + 1)) =
        Allgather (RegItem (registration (mem_addr (entry (t j) (ds ! k))) (mem_size (entry (t j) (ds ! k))) (m j (ds ! k))))"
      if "j < n" for j using call [OF that k] exchange_calls(3) [OF ex [OF that k]] by (simp add: m_def)
    have m1: "round_matched trs (2 * k + 1)"
      by (rule round_matchedI [where c = KGather]) (use call [OF _ k] ga assms(2) in auto)
    have "snd (collectives (trs ! i) ! (2 * k + 1)) =
        Items (List.map (\<lambda>tr. case fst (collectives tr ! (2 * k + 1)) of Allgather y \<Rightarrow> y | _ \<Rightarrow> LidItem 0) trs)"
      by (rule round_gather [OF assms(1) _ m1]) (use i assms(2) ga [OF i] in \<open>auto simp: prod_eq_iff\<close>)
    then have "glob (verb_record (t' i) (ds ! k)) =
        List.map reg_of (List.map (\<lambda>tr. case fst (collectives tr ! (2 * k + 1)) of Allgather y \<Rightarrow> y | _ \<Rightarrow> LidItem 0) trs)"
      using exchange_calls(5) [OF ex [OF i k]] call [OF i k] by simp
    then show ?thesis using ga assms(2) by (intro nth_equalityI) (auto simp: reg_of_def)
  qed
  have kinds: "coll_kinds (trs ! i) = concat (replicate (length ds) [KOr, KGather]) @ (if ds = [] then [] else [KBarrier])"
    if i: "i < n" for i
  proof -
    have "List.map coll_kinds (segs i) = replicate (length ds) [KOr, KGather]"
      using exchange_calls(4) [OF ex [OF i]] all i by (intro nth_equalityI) auto
    then show ?thesis using all i by (simp add: coll_kinds_concat)
  qed
  have "matched trs" by (rule matchedI) (use kinds assms(2) in blast)
  moreover have "\<forall>s \<in> set ds. glob (verb_record (t' i) s) =
       List.map (\<lambda>j. registration (mem_addr (entry (t j) s)) (mem_size (entry (t j) s)) (m j s)) [0..<n]" if i: "i < n" for i
  proof
    fix s assume "s \<in> set ds"
    then obtain k where "k < length ds" "s = ds ! k" by (auto simp: in_set_conv_nth)
    then show "glob (verb_record (t' i) s) =
        List.map (\<lambda>j. registration (mem_addr (entry (t j) s)) (mem_size (entry (t j) s)) (m j s)) [0..<n]"
      using items [OF i, of k] by simp
  qed
  moreover have "r i = Inr () \<and> synced (t i) ds (segs i) (t' i)" if "i < n" for i using all that by blast
  ultimately show ?thesis unfolding synced_def by (intro conjI exI [of _ m] allI impI) simp_all
qed

lemma demo_sync_run:
  "\<exists>r t'. acts table_sync (demo_table i 1 (demo_memory i)) (demo_regGlobal i @ [(Barrier, Done)]) r t'"
  by (simp add: reg_run_defs table_sync_def publish_def table_lookup_def on_ibverbs_def on_memreg_def zoomA_def
      sparse_is_empty_def sparse_iterate_def combined_lookup_def memreg_lookup_def demo_object_def one_slot_def
      demo_regGlobal_def demo_registration_def demo_table_def demo_memory_def)

theorem table_sync_exchange_witness:
  "\<exists>t'. acts table_sync (demo_table 0 1 (demo_memory 0)) (demo_regGlobal 0 @ [(Barrier, Done)]) (Inr ()) t' \<and>
     reg_addr (glob (verb_record t' 0) ! 1) = 1000"
proof -
  define trs where "trs = [demo_regGlobal 0 @ [(Barrier, Done)], demo_regGlobal 1 @ [(Barrier, Done)]]"
  let ?t = "\<lambda>i. demo_table i 1 (demo_memory i)"
  have ok: "collectives_ok trs"
    by (simp add: trs_def collectives_ok_def demo_regGlobal_def lessThan_Suc round_ok_def or_args_def gather_args_def)
  obtain r t' where run: "\<And>i. acts table_sync (?t i) (demo_regGlobal i @ [(Barrier, Done)]) (r i) (t' i)"
    using demo_sync_run by metis
  have at: "trs ! i = demo_regGlobal i @ [(Barrier, Done)]" if "i < 2" for i
    using that by (cases i) (auto simp: trs_def)
  have len: "length trs = 2" by (simp add: trs_def)
  have ready: "sync_ready [0] (?t i)" for i
    using table_reach_inv [OF demo_table_reach demo_object_ok]
    by (simp add: sync_ready_def) (simp add: demo_table_defs sparse_iterate_def entry_def demo_memory_def combined_lookup_def
       isLocalSlot_def fromGlobal_def memreg_lookup_def)
  have h: "\<forall>i<2. acts table_sync (?t i) (trs ! i) (r i) (t' i) \<and> accepted (trs ! i) \<and> sync_ready [0] (?t i)"
    using run at ready by (auto simp: accepted_def demo_regGlobal_def)
  obtain m where "r 0 = Inr ()" and g: "glob (verb_record (t' 0) 0) =
      List.map (\<lambda>j. registration (mem_addr (entry (?t j) 0)) (mem_size (entry (?t j) 0)) (m j (0::slot))) [0..<2]"
    by (insert table_sync_exchange [OF ok len h], elim conjE exE, drule spec [of _ 0]) auto
  moreover have "mem_addr (entry (?t 1) 0) = 1000"
    by (simp add: demo_table_defs entry_def demo_memory_def combined_lookup_def isLocalSlot_def fromGlobal_def memreg_lookup_def)
  ultimately show ?thesis using run [of 0] by (intro exI [of _ "t' 0"]) (simp add: registration_def)
qed

end
