(* ===== verification/Message_Sort.thy ===== *)
theory Message_Sort imports Sparse_Set begin

text \<open>
  \<open>MessageSort\<close> of \<open>src/MPI/messagesort.hpp\<close> and \<open>messagesort.cpp\<close>.  Registered memory areas
  that overlap or touch are merged into regions; a region has one cell for every grain of
  \<open>2 ^ m_msgGrainPower\<close> bytes, and a write of a message marks the cells it covers with the
  identifier of the message plus one, unless a message of a higher identifier is there.  Popping
  the writes yields, grain by grain, the message that wins.

  Addresses (\<open>char *\<close>) are \<open>nat\<close>; the sums of base and size of valid memory areas do not wrap.
  \<open>size_t\<close> is \<open>nat\<close> with wrapping arithmetic where the code can wrap, \<open>MsgId\<close> a 32 bit word.
  The multiset of regions is the list of its elements in iteration order.  The allocations of
  \<open>addRegister\<close> are taken to succeed (the source marks their handling as a FIXME).
\<close>

section \<open>Writes\<close>

type_synonym msgid = "32 word"

text \<open>\<open>vector<unsigned>::max_size()\<close>.\<close>

definition cells_max :: nat where
  "cells_max = 2305843009213693951"

definition MAX_ID :: msgid where
  "MAX_ID = 2147483648"

record writes =
  w_min :: nat
  w_max :: nat
  w_memory :: "msgid list"

definition writes_new :: "nat \<Rightarrow> writes" where
  "writes_new sz = \<lparr>w_min = SIZE_MAX, w_max = 0, w_memory = replicate sz 0\<rparr>"

definition writes_empty :: writes where
  "writes_empty = \<lparr>w_min = SIZE_MAX, w_max = 0, w_memory = []\<rparr>"

definition writes_resize :: "writes \<Rightarrow> nat \<Rightarrow> fault + writes" where
  "writes_resize w newSize =
     bindE (ASSERT (newSize \<ge> length (w_memory w))) (\<lambda>_.
     Inr (w\<lparr>w_memory := vec_resize newSize 0 (w_memory w)\<rparr>))"

text \<open>\<open>std::fill\<close> on the cells from \<open>a\<close> up to, not including, \<open>b\<close>.\<close>

definition fill_zero :: "nat \<Rightarrow> nat \<Rightarrow> msgid list \<Rightarrow> msgid list" where
  "fill_zero a b mem = fold (\<lambda>i m. m[i := 0]) [a..<b] mem"

definition writes_clear :: "writes \<Rightarrow> fault + writes" where
  "writes_clear w =
     bindE (if w_min w < w_max w then
              bindE (ASSERT (add64 (w_max w) 1 \<le> length (w_memory w))) (\<lambda>_.
              bindE (ASSERT (w_min w \<le> length (w_memory w))) (\<lambda>_.
              Inr (fill_zero (w_min w) (add64 (w_max w) 1) (w_memory w))))
            else Inr (w_memory w)) (\<lambda>mem.
     Inr (w\<lparr>w_memory := mem, w_min := SIZE_MAX, w_max := 0\<rparr>))"

definition push_cells :: "msgid \<Rightarrow> nat \<Rightarrow> nat \<Rightarrow> msgid list \<Rightarrow> msgid list" where
  "push_cells mid a b mem = fold (\<lambda>i m. if mid \<ge> m ! i then m[i := mid + 1] else m) [a..<b] mem"

definition writes_push :: "writes \<Rightarrow> msgid \<Rightarrow> nat \<Rightarrow> nat \<Rightarrow> fault + writes" where
  "writes_push w mid start sz =
     bindE (ASSERT (add64 start sz \<le> length (w_memory w))) (\<lambda>_.
     Inr (w\<lparr>w_memory := push_cells mid start (add64 start sz) (w_memory w),
            w_max := max (w_max w) (sub64 (add64 start sz) 1),
            w_min := min (w_min w) start\<rparr>))"

definition writes_test :: "writes \<Rightarrow> msgid \<Rightarrow> nat \<Rightarrow> fault + bool" where
  "writes_test w mid start =
     bindE (ASSERT (start \<le> length (w_memory w))) (\<lambda>_.
     Inr (start = length (w_memory w) \<or> mid \<ge> w_memory w ! start))"

text \<open>The two loops of \<open>pop\<close>: clearing the run of equal cells, and skipping the zero cells.\<close>

function pop_run :: "nat \<Rightarrow> msgid \<Rightarrow> nat \<Rightarrow> msgid list \<Rightarrow> fault + nat \<times> msgid list" where
  "pop_run mx v i mem =
     (if \<not> i < length mem then Inl OutOfBounds
      else let mem' = mem[i := 0]; i' = i + 1 in
           if i' \<le> mx then
             if \<not> i' < length mem' then Inl OutOfBounds
             else if mem' ! i' = v then pop_run mx v i' mem'
             else Inr (i', mem')
           else Inr (i', mem'))"
  by pat_completeness auto
termination
  by (relation "measure (\<lambda>(mx, v, i, mem). length mem - i)") auto

function skip_zeros :: "nat \<Rightarrow> nat \<Rightarrow> msgid list \<Rightarrow> fault + nat" where
  "skip_zeros mx i mem =
     (if i \<le> mx then
        if \<not> i < length mem then Inl OutOfBounds
        else if mem ! i = 0 then skip_zeros mx (i + 1) mem
        else Inr i
      else Inr i)"
  by pat_completeness auto
termination
  by (relation "measure (\<lambda>(mx, i, mem). length mem - i)") auto

declare pop_run.simps [simp del] skip_zeros.simps [simp del]

text \<open>\<open>pop\<close> returns false (\<open>None\<close>), or true with the identifier, the start and the size.\<close>

definition writes_pop :: "writes \<Rightarrow> fault + (msgid \<times> nat \<times> nat) option \<times> writes" where
  "writes_pop w =
     (if w_max w < w_min w then Inr (None, w)
      else
        bindE (vec_at (w_memory w) (w_min w)) (\<lambda>c.
        let mid = c - 1 in
        bindE (pop_run (w_max w) (mid + 1) (w_min w) (w_memory w)) (\<lambda>(i, mem).
        let start = w_min w; sz = i - w_min w in
        bindE (ASSERT (w_max w < length mem)) (\<lambda>_.
        bindE (skip_zeros (w_max w) i mem) (\<lambda>mn.
        if mn > w_max w then
          bindE (ASSERT (w_max w = sub64 mn 1)) (\<lambda>_.
          Inr (Some (mid, start, sz), \<lparr>w_min = SIZE_MAX, w_max = 0, w_memory = mem\<rparr>))
        else Inr (Some (mid, start, sz), \<lparr>w_min = mn, w_max = w_max w, w_memory = mem\<rparr>))))))"

definition writes_swap :: "writes \<Rightarrow> writes \<Rightarrow> writes \<times> writes" where
  "writes_swap this oth =
     (\<lparr>w_min = w_min oth, w_max = w_max oth, w_memory = w_memory oth\<rparr>,
      \<lparr>w_min = w_min this, w_max = w_max this, w_memory = w_memory this\<rparr>)"

subsection \<open>Invariant\<close>

text \<open>The bounds are exact: they point at the first and the last marked cell.\<close>

definition writes_inv :: "writes \<Rightarrow> bool" where
  "writes_inv w \<longleftrightarrow>
     length (w_memory w) \<le> cells_max \<and>
     (if w_max w < w_min w
      then w_min w = SIZE_MAX \<and> w_max w = 0 \<and> (\<forall>i < length (w_memory w). w_memory w ! i = 0)
      else w_max w < length (w_memory w) \<and> w_memory w ! w_min w \<noteq> 0 \<and> w_memory w ! w_max w \<noteq> 0 \<and>
           (\<forall>i < length (w_memory w). w_memory w ! i \<noteq> 0 \<longrightarrow> w_min w \<le> i \<and> i \<le> w_max w))"


lemma length_push_cells [simp]: "length (push_cells mid a b mem) = length mem"
proof -
  have "length (fold (\<lambda>i m. if mid \<ge> m ! i then m[i := mid + 1] else m) xs mem) = length mem" for xs
    by (induction xs arbitrary: mem) auto
  then show ?thesis by (simp add: push_cells_def)
qed

lemma nth_fold_cells:
  assumes "distinct xs" and "i < length mem"
  shows "fold (\<lambda>i m. if P (m ! i) then m[i := x] else m) xs mem ! i =
     (if i \<in> set xs \<and> P (mem ! i) then x else mem ! i)"
  using assms
proof (induction xs arbitrary: mem)
  case (Cons a xs)
  let ?m = "if P (mem ! a) then mem[a := x] else mem"
  have l: "i < length ?m" using Cons.prems by simp
  have "?m ! i = (if i = a \<and> P (mem ! i) then x else mem ! i)"
    using Cons.prems by auto
  then show ?case using Cons.IH [OF _ l] Cons.prems by (auto split: if_splits)
qed simp

lemma nth_push_cells:
  "i < length mem \<Longrightarrow> push_cells mid a b mem ! i =
     (if a \<le> i \<and> i < b \<and> mem ! i \<le> mid then mid + 1 else mem ! i)"
  using nth_fold_cells [of "[a..<b]" i mem "\<lambda>c. c \<le> mid"] by (simp add: push_cells_def)

lemma length_fill_zero [simp]: "length (fill_zero a b mem) = length mem"
proof -
  have "length (fold (\<lambda>i m. m[i := 0]) xs mem) = length mem" for xs
    by (induction xs arbitrary: mem) auto
  then show ?thesis by (simp add: fill_zero_def)
qed

lemma nth_fill_zero:
  "i < length mem \<Longrightarrow> fill_zero a b mem ! i = (if a \<le> i \<and> i < b then 0 else mem ! i)"
  using nth_fold_cells [of "[a..<b]" i mem "\<lambda>c. True"] by (simp add: fill_zero_def)

text \<open>The identifier plus one is never the mark of an empty cell.\<close>

lemma msgid_succ_neq0: "mid < MAX_ID \<Longrightarrow> mid + 1 \<noteq> 0"
  unfolding MAX_ID_def by (metis add.commute max_word_max word_order.extremum_strict add_eq_0_iff
      word_not_simps(3) linorder_not_less add.inverse_unique less_le_trans order_less_irrefl)

lemma push_cells_nonzero:
  assumes "i < length mem" and "mid < MAX_ID"
  shows "push_cells mid a b mem ! i \<noteq> 0 \<longleftrightarrow> mem ! i \<noteq> 0 \<or> a \<le> i \<and> i < b"
  using assms msgid_succ_neq0 [of mid] by (auto simp: nth_push_cells)

lemma writes_inv_new: "sz \<le> cells_max \<Longrightarrow> writes_inv (writes_new sz)"
  by (simp add: writes_inv_def writes_new_def SIZE_MAX_def)

lemma writes_inv_empty: "writes_inv writes_empty"
  by (simp add: writes_inv_def writes_empty_def SIZE_MAX_def)

text \<open>The invariant by the set of marked cells.\<close>

definition marked_cells :: "writes \<Rightarrow> nat set" where
  "marked_cells w = {i. i < length (w_memory w) \<and> w_memory w ! i \<noteq> 0}"

lemma writes_invI:
  assumes "length (w_memory w) \<le> cells_max" and "w_min w \<in> marked_cells w" and "w_max w \<in> marked_cells w"
    and "\<And>i. i \<in> marked_cells w \<Longrightarrow> w_min w \<le> i \<and> i \<le> w_max w"
  shows "writes_inv w"
  using assms by (force simp: writes_inv_def marked_cells_def)

lemma writes_inv_cases:
  assumes "writes_inv w"
  obtains (none) "w_min w = SIZE_MAX" "w_max w = 0" "marked_cells w = {}" "w_max w < w_min w"
  | (some) "w_min w \<in> marked_cells w" "w_max w \<in> marked_cells w" "w_min w \<le> w_max w"
      "\<And>i. i \<in> marked_cells w \<Longrightarrow> w_min w \<le> i \<and> i \<le> w_max w"
proof (cases "w_max w < w_min w")
  case True
  then show thesis using assms none by (auto simp: writes_inv_def marked_cells_def)
next
  case False
  then show thesis using assms some by (force simp: writes_inv_def marked_cells_def)
qed

lemma writes_inv_length: "writes_inv w \<Longrightarrow> length (w_memory w) \<le> cells_max"
  by (simp add: writes_inv_def)

lemma cells_max_less: "n \<le> cells_max \<Longrightarrow> n < SIZE_MAX"
  by (simp add: cells_max_def SIZE_MAX_def)

lemma writes_push_spec:
  assumes inv: "writes_inv w" and mid: "mid < MAX_ID" and sz: "0 < sz" and fit: "start + sz \<le> length (w_memory w)"
  shows "\<exists>w'. writes_push w mid start sz = Inr w' \<and> writes_inv w' \<and>
     w_memory w' = push_cells mid start (start + sz) (w_memory w) \<and>
     marked_cells w' = marked_cells w \<union> {start..<start + sz}"
proof -
  note len = writes_inv_length [OF inv]
  have a: "add64 start sz = start + sz" "sub64 (start + sz) 1 = start + sz - 1"
    using fit sz cells_max_less [OF len] by (simp_all add: add64_plain sub64_plain)
  define w' where "w' = w\<lparr>w_memory := push_cells mid start (start + sz) (w_memory w),
      w_max := max (w_max w) (start + sz - 1), w_min := min (w_min w) start\<rparr>"
  have eq: "writes_push w mid start sz = Inr w'"
    using fit by (simp add: writes_push_def a a(2) [unfolded One_nat_def] w'_def)
  have m: "marked_cells w' = marked_cells w \<union> {start..<start + sz}"
  proof (rule set_eqI)
    fix i
    show "i \<in> marked_cells w' \<longleftrightarrow> i \<in> marked_cells w \<union> {start..<start + sz}"
      using push_cells_nonzero [OF _ mid, of i "w_memory w" start "start + sz"] fit
      by (cases "i < length (w_memory w)") (auto simp: marked_cells_def w'_def)
  qed
  have "writes_inv w'"
    using inv
  proof (cases rule: writes_inv_cases)
    case none
    then have b: "w_min w' = start" "w_max w' = start + sz - 1"
      using fit cells_max_less [OF len] by (auto simp: w'_def)
    show ?thesis
      by (rule writes_invI) (use b m none sz len in \<open>auto simp: w'_def\<close>)
  next
    case some
    have b: "w_min w' = min (w_min w) start" "w_max w' = max (w_max w) (start + sz - 1)"
      by (simp_all add: w'_def)
    show ?thesis
    proof (rule writes_invI)
      show "length (w_memory w') \<le> cells_max" using len by (simp add: w'_def)
      show "w_min w' \<in> marked_cells w'" using some sz unfolding b m by (auto simp: min_def)
      show "w_max w' \<in> marked_cells w'" using some sz unfolding b m by (auto simp: max_def)
      show "w_min w' \<le> i \<and> i \<le> w_max w'" if "i \<in> marked_cells w'" for i
        using that some(4) unfolding b m by fastforce
    qed
  qed
  then show ?thesis using eq m by (auto simp: w'_def)
qed

lemma fill_zero_step: "i < j \<Longrightarrow> fill_zero (Suc i) j (mem[i := 0]) = fill_zero i j mem"
  by (simp add: fill_zero_def upt_conv_Cons)

lemma pop_run_spec:
  assumes "i \<le> mx" and "mx < length mem"
  shows "\<exists>j. pop_run mx v i mem = Inr (j, fill_zero i j mem) \<and> i < j \<and> j \<le> mx + 1 \<and>
     (\<forall>k. i < k \<and> k < j \<longrightarrow> mem ! k = v) \<and> (j \<le> mx \<longrightarrow> mem ! j \<noteq> v)"
  using assms
proof (induction mx v i mem rule: pop_run.induct)
  case (1 mx v i mem)
  have il: "i < length mem" using "1.prems" by simp
  show ?case
  proof (cases "i + 1 \<le> mx \<and> mem ! (i + 1) = v")
    case True
    then have s: "pop_run mx v i mem = pop_run mx v (i + 1) (mem[i := 0])"
      using il "1.prems" by (simp add: pop_run.simps [of mx v i mem])
    obtain j where j: "pop_run mx v (i + 1) (mem[i := 0]) = Inr (j, fill_zero (i + 1) j (mem[i := 0]))"
      "i + 1 < j" "j \<le> mx + 1" "\<forall>k. i + 1 < k \<and> k < j \<longrightarrow> mem[i := 0] ! k = v"
      "j \<le> mx \<longrightarrow> mem[i := 0] ! j \<noteq> v"
      using "1.IH" [of "mem[i := 0]" "i + 1"] il True "1.prems" by auto
    have "\<forall>k. i < k \<and> k < j \<longrightarrow> mem ! k = v"
      using j(4) True by (metis Suc_eq_plus1 Suc_lessI nat_neq_iff nth_list_update_neq)
    then show ?thesis using s j fill_zero_step [of i j mem] by auto
  next
    case False
    then have "pop_run mx v i mem = Inr (i + 1, mem[i := 0])"
      using il "1.prems" by (auto simp: pop_run.simps [of mx v i mem] Let_def)
    moreover have "fill_zero i (i + 1) mem = mem[i := 0]" by (simp add: fill_zero_def)
    ultimately show ?thesis using False "1.prems" by auto
  qed
qed

lemma skip_zeros_spec:
  assumes "i \<le> mx + 1" and "mx < length mem"
  shows "\<exists>n. skip_zeros mx i mem = Inr n \<and> i \<le> n \<and> n \<le> mx + 1 \<and>
     (\<forall>k. i \<le> k \<and> k < n \<longrightarrow> mem ! k = 0) \<and> (n \<le> mx \<longrightarrow> mem ! n \<noteq> 0)"
  using assms
proof (induction mx i mem rule: skip_zeros.induct)
  case (1 mx i mem)
  show ?case
  proof (cases "i \<le> mx \<and> mem ! i = 0")
    case True
    then have s: "skip_zeros mx i mem = skip_zeros mx (i + 1) mem"
      using "1.prems" by (simp add: skip_zeros.simps [of mx i mem])
    obtain n where n: "skip_zeros mx (i + 1) mem = Inr n" "i + 1 \<le> n" "n \<le> mx + 1"
      "\<forall>k. i + 1 \<le> k \<and> k < n \<longrightarrow> mem ! k = 0" "n \<le> mx \<longrightarrow> mem ! n \<noteq> 0"
      using "1.IH" True "1.prems" by auto
    have "\<forall>k. i \<le> k \<and> k < n \<longrightarrow> mem ! k = 0"
      using n(4) True by (metis Suc_eq_plus1 Suc_leI le_neq_implies_less)
    then show ?thesis using s n by auto
  next
    case False
    then have "skip_zeros mx i mem = Inr i"
      using "1.prems" by (auto simp: skip_zeros.simps [of mx i mem])
    then show ?thesis using False "1.prems" by auto
  qed
qed

lemma nonzero_fill_zero:
  "i < length mem \<Longrightarrow> fill_zero a b mem ! i \<noteq> 0 \<longleftrightarrow> mem ! i \<noteq> 0 \<and> \<not> (a \<le> i \<and> i < b)"
  by (simp add: nth_fill_zero)

lemma writes_pop_none: "w_max w < w_min w \<Longrightarrow> writes_pop w = Inr (None, w)"
  by (simp add: writes_pop_def)

lemma writes_pop_spec:
  assumes inv: "writes_inv w" and ne: "marked_cells w \<noteq> {}"
  shows "\<exists>mid n w'. writes_pop w = Inr (Some (mid, w_min w, n), w') \<and> writes_inv w' \<and> 0 < n \<and>
     {w_min w..<w_min w + n} \<subseteq> marked_cells w \<and>
     (\<forall>i \<in> {w_min w..<w_min w + n}. w_memory w ! i = mid + 1) \<and>
     (w_min w + n < length (w_memory w) \<longrightarrow> w_memory w ! (w_min w + n) \<noteq> mid + 1) \<and>
     w_memory w' = fill_zero (w_min w) (w_min w + n) (w_memory w)"
  using inv
proof (cases rule: writes_inv_cases)
  case none
  then show ?thesis using ne by simp
next
  case some
  let ?mem = "w_memory w" and ?mn = "w_min w" and ?mx = "w_max w"
  define mid where "mid = ?mem ! ?mn - 1"
  have v: "?mem ! ?mn = mid + 1" by (simp add: mid_def)
  have lt: "?mx < length ?mem" "?mn < length ?mem" and v0: "mid + 1 \<noteq> 0"
    using some v by (auto simp: marked_cells_def)
  obtain j where j: "pop_run ?mx (mid + 1) ?mn ?mem = Inr (j, fill_zero ?mn j ?mem)" "?mn < j" "j \<le> ?mx + 1"
    "\<forall>k. ?mn < k \<and> k < j \<longrightarrow> ?mem ! k = mid + 1" "j \<le> ?mx \<longrightarrow> ?mem ! j \<noteq> mid + 1"
    using pop_run_spec [OF some(3) lt(1), of "mid + 1"] by blast
  let ?mem' = "fill_zero ?mn j ?mem"
  obtain n where n: "skip_zeros ?mx j ?mem' = Inr n" "j \<le> n" "n \<le> ?mx + 1"
    "\<forall>k. j \<le> k \<and> k < n \<longrightarrow> ?mem' ! k = 0" "n \<le> ?mx \<longrightarrow> ?mem' ! n \<noteq> 0"
    using skip_zeros_spec [of j ?mx ?mem'] j(3) lt by auto
  define w' where "w' = (if n > ?mx then \<lparr>w_min = SIZE_MAX, w_max = 0, w_memory = ?mem'\<rparr>
      else \<lparr>w_min = n, w_max = ?mx, w_memory = ?mem'\<rparr>)"
  have sub: "n > ?mx \<Longrightarrow> ?mx = sub64 n 1"
    using n(3) lt cells_max_less [OF writes_inv_length [OF inv]] by (simp add: sub64_plain)
  have "\<not> ?mx < ?mn" "vec_at ?mem ?mn = Inr (mid + 1)" using some(3) lt v by simp_all
  then have eq: "writes_pop w = Inr (Some (mid, ?mn, j - ?mn), w')"
    using j(1) n(1) lt sub unfolding writes_pop_def w'_def by (auto simp: Let_def)
  have run: "\<forall>i \<in> {?mn..<j}. ?mem ! i = mid + 1"
    using j(4) v by (metis atLeastLessThan_iff le_neq_implies_less)
  have z: "?mem' ! i = 0" if "i < n" "i < length ?mem" for i
  proof (cases "i < j")
    case True
    then show ?thesis using that some(4) [of i] by (auto simp: nth_fill_zero marked_cells_def)
  next
    case False
    then show ?thesis using that n(4) by simp
  qed
  have hi: "i \<le> ?mx" if "i < length ?mem" "?mem' ! i \<noteq> 0" for i
    using that some(4) [of i] by (auto simp: nonzero_fill_zero marked_cells_def)
  have "writes_inv w'"
  proof (cases "n > ?mx")
    case True
    then have "?mem' ! i = 0" if "i < length ?mem" for i
      using that z hi by (meson less_le_trans not_less_iff_gr_or_eq linorder_not_less)
    then show ?thesis using True writes_inv_length [OF inv] by (simp add: writes_inv_def w'_def SIZE_MAX_def)
  next
    case False
    have mc: "marked_cells w' = {i. i < length ?mem \<and> ?mem' ! i \<noteq> 0}" using False by (simp add: marked_cells_def w'_def)
    show ?thesis
    proof (rule writes_invI)
      show "length (w_memory w') \<le> cells_max" using False writes_inv_length [OF inv] by (simp add: w'_def)
      show "w_min w' \<in> marked_cells w'" unfolding mc using False n(5) lt by (simp add: w'_def)
      have "?mem ! ?mx \<noteq> 0" "\<not> ?mx < j" using some(2) False n(2) by (auto simp: marked_cells_def)
      then show "w_max w' \<in> marked_cells w'" unfolding mc using False lt by (simp add: w'_def nth_fill_zero)
      show "w_min w' \<le> i \<and> i \<le> w_max w'" if "i \<in> marked_cells w'" for i
        using that z hi False unfolding mc by (auto simp: w'_def not_less [symmetric])
    qed
  qed
  moreover have "w_memory w' = ?mem'" by (simp add: w'_def)
  moreover have "?mem ! j \<noteq> mid + 1" if "j < length ?mem"
    using that j(3,5) some(4) [of j] v0 by (cases "j \<le> ?mx") (auto simp: marked_cells_def)
  moreover have "{?mn..<j} \<subseteq> marked_cells w"
    using run v0 j(3) lt by (auto simp: marked_cells_def)
  ultimately show ?thesis using eq run j(2) by auto
qed

section \<open>MessageSort\<close>

record mslot =
  sl_slot :: nat
  sl_base :: nat
  sl_size :: nat

record region =
  rg_region :: nat
  rg_base :: nat
  rg_size :: nat

record slot_to_region =
  sr_region :: nat
  sr_offset :: nat

record message_sort =
  ms_memslots :: "mslot list"
  ms_regions :: "region list"
  ms_sortedRegions :: "region list"
  ms_slotToRegion :: "slot_to_region list"
  ms_writes :: "writes list"
  ms_dirty :: sparse
  ms_msgGrainPower :: nat

definition message_sort_new :: "nat \<Rightarrow> message_sort" where
  "message_sort_new grainPower =
     \<lparr>ms_memslots = [], ms_regions = [], ms_sortedRegions = [], ms_slotToRegion = [], ms_writes = [],
      ms_dirty = fst (sparse_new (\<lambda>_. True) 0 0), ms_msgGrainPower = grainPower\<rparr>"

text \<open>\<open>ok\<close> says which of the three allocations succeed.\<close>

definition setSlotRange :: "(nat \<Rightarrow> bool) \<Rightarrow> message_sort \<Rightarrow> nat \<Rightarrow> message_sort \<times> fault option" where
  "setSlotRange ok st rng =
     (if \<not> resize_ok ok 0 rng (ms_memslots st) then (st, Some BadAlloc)
      else let st1 = st\<lparr>ms_memslots := vec_resize rng \<lparr>sl_slot = 0, sl_base = 0, sl_size = 0\<rparr> (ms_memslots st)\<rparr> in
      if \<not> ok 1 then (st1, Some BadAlloc)
      else if \<not> resize_ok ok 2 rng (ms_slotToRegion st1) then (st1, Some BadAlloc)
      else (st1\<lparr>ms_slotToRegion := vec_resize rng \<lparr>sr_region = 0, sr_offset = 0\<rparr> (ms_slotToRegion st1)\<rparr>, None))"

text \<open>\<open>CompareRegion\<close>, and what \<open>std::multiset\<close> does with it on a sorted sequence.\<close>

definition region_less :: "region \<Rightarrow> region \<Rightarrow> bool" where
  "region_less a b \<longleftrightarrow> rg_base a + rg_size a < rg_base b"

definition equal_range :: "region \<Rightarrow> region list \<Rightarrow> region list \<times> region list \<times> region list" where
  "equal_range x xs =
     (takeWhile (\<lambda>e. region_less e x) xs,
      takeWhile (\<lambda>e. \<not> region_less x e) (dropWhile (\<lambda>e. region_less e x) xs),
      dropWhile (\<lambda>e. \<not> region_less x e) (dropWhile (\<lambda>e. region_less e x) xs))"

definition sorted_insert :: "region \<Rightarrow> region list \<Rightarrow> region list" where
  "sorted_insert x xs = takeWhile (\<lambda>e. \<not> region_less x e) xs @ x # dropWhile (\<lambda>e. \<not> region_less x e) xs"

lemma sparse_resize_max: "sparse_resize ok d m = (d', None) \<Longrightarrow> sp_max d < m \<Longrightarrow> sp_max d' = m"
  by (auto simp: sparse_resize_def sparse_extend_def Let_def split: if_splits)

text \<open>The loop that makes room in the dirty list.\<close>

function grow_dirty :: "(nat \<Rightarrow> bool) \<Rightarrow> nat \<Rightarrow> sparse \<Rightarrow> fault + sparse" where
  "grow_dirty ok n d =
     (if int n > snd (sparse_range d)
      then case sparse_resize ok d (max 1 (2 * snd (sparse_range d))) of
             (d', None) \<Rightarrow> grow_dirty ok n d'
           | (d', Some e) \<Rightarrow> Inl e
      else Inr d)"
  by pat_completeness auto

termination
  by (relation "measure (\<lambda>(ok, n, d). nat (int n - sp_max d))")
     (auto simp: sparse_range_def dest!: sparse_resize_max [OF sym])

declare grow_dirty.simps [simp del]

text \<open>The extent of a new area together with the regions it overlaps or touches.\<close>

definition extent_step :: "region \<Rightarrow> nat \<times> nat \<times> nat \<Rightarrow> nat \<times> nat \<times> nat" where
  "extent_step i acc =
     (case acc of (minBase, maxAddr, minRegion) \<Rightarrow>
        (if rg_base i < minBase then rg_base i else minBase,
         if rg_base i + rg_size i > maxAddr then rg_base i + rg_size i else maxAddr,
         if rg_region i < minRegion then rg_region i else minRegion))"

definition region_extent :: "region \<Rightarrow> region list \<Rightarrow> region" where
  "region_extent new0 rng =
     (case fold extent_step rng (rg_base new0, rg_base new0 + rg_size new0, rg_region new0) of
        (minBase, maxAddr, minRegion) \<Rightarrow>
          \<lparr>rg_region = minRegion, rg_base = minBase, rg_size = maxAddr - minBase\<rparr>)"

text \<open>Dropping the cells of the regions that were merged away.\<close>

fun discard_writes :: "nat \<Rightarrow> region list \<Rightarrow> writes list \<Rightarrow> fault + writes list" where
  "discard_writes r [] ws = Inr ws"
| "discard_writes r (i # is) ws =
     (if rg_region i \<noteq> r
      then bindE (vec_set ws (rg_region i) writes_empty) (\<lambda>ws'. discard_writes r is ws')
      else discard_writes r is ws)"

text \<open>Pointing the slots of the merged regions to the new one.\<close>

fun retarget :: "region \<Rightarrow> mslot list \<Rightarrow> nat \<Rightarrow> region list \<Rightarrow> slot_to_region \<Rightarrow> fault + slot_to_region" where
  "retarget new ms s [] sr = Inr sr"
| "retarget new ms s (i # is) sr =
     (if sr_region sr = rg_region i
      then bindE (vec_at ms s) (\<lambda>m.
           retarget new ms s is \<lparr>sr_region = rg_region new, sr_offset = sub64 (sl_base m) (rg_base new)\<rparr>)
      else retarget new ms s is sr)"

fun retarget_slots :: "region \<Rightarrow> mslot list \<Rightarrow> region list \<Rightarrow> nat \<Rightarrow> slot_to_region list \<Rightarrow> fault + slot_to_region list" where
  "retarget_slots new ms rng s [] = Inr []"
| "retarget_slots new ms rng s (sr # srs) =
     bindE (retarget new ms s rng sr) (\<lambda>sr'.
     bindE (retarget_slots new ms rng (s + 1) srs) (\<lambda>srs'. Inr (sr' # srs')))"

text \<open>A region of its own, or the oldest of the overlapping ones extended.\<close>

definition place_region :: "message_sort \<Rightarrow> region \<Rightarrow> region list \<Rightarrow> fault + writes list \<times> region list" where
  "place_region st new rng =
     (let cells = drop_bit (ms_msgGrainPower st) (rg_size new) in
      if rng = [] then
        bindE (ASSERT (rg_region new = length (ms_regions st))) (\<lambda>_.
        Inr (ms_writes st @ [fst (writes_swap writes_empty (writes_new cells))], ms_regions st @ [new]))
      else
        bindE (vec_at (ms_writes st) (rg_region new)) (\<lambda>w.
        bindE (writes_resize w cells) (\<lambda>w'.
        bindE (vec_set (ms_regions st) (rg_region new) new) (\<lambda>regions.
        Inr ((ms_writes st)[rg_region new := w'], regions)))))"

definition addRegister :: "(nat \<Rightarrow> bool) \<Rightarrow> message_sort \<Rightarrow> nat \<Rightarrow> nat \<Rightarrow> nat \<Rightarrow> fault + message_sort" where
  "addRegister ok st i base sz =
     bindE (grow_dirty ok (length (ms_regions st)) (ms_dirty st)) (\<lambda>dirty.
     let new0 = \<lparr>rg_region = length (ms_regions st), rg_base = base, rg_size = sz\<rparr> in
     case equal_range new0 (ms_sortedRegions st) of (before, rng, after) \<Rightarrow>
     let new = region_extent new0 rng in
     bindE (place_region st new rng) (\<lambda>(writes1, regions1).
     bindE (ASSERT (i < length (ms_memslots st))) (\<lambda>_.
     let memslots1 = (ms_memslots st)[i := \<lparr>sl_slot = i, sl_base = base, sl_size = sz\<rparr>] in
     bindE (discard_writes (rg_region new) rng writes1) (\<lambda>writes2.
     bindE (if rng \<noteq> [] then retarget_slots new memslots1 rng 0 (ms_slotToRegion st)
            else Inr (ms_slotToRegion st)) (\<lambda>s2r.
     bindE (vec_set s2r i \<lparr>sr_region = rg_region new, sr_offset = sub64 base (rg_base new)\<rparr>) (\<lambda>s2r'.
     Inr (st\<lparr>ms_memslots := memslots1, ms_regions := regions1,
             ms_sortedRegions := sorted_insert new (before @ after),
             ms_slotToRegion := s2r', ms_writes := writes2, ms_dirty := dirty\<rparr>)))))))"

definition delRegister :: "message_sort \<Rightarrow> nat \<Rightarrow> fault + message_sort" where
  "delRegister st i =
     bindE (vec_set (ms_memslots st) i \<lparr>sl_slot = SIZE_MAX, sl_base = 0, sl_size = 0\<rparr>) (\<lambda>memslots.
     bindE (vec_set (ms_slotToRegion st) i \<lparr>sr_region = SIZE_MAX, sr_offset = SIZE_MAX\<rparr>) (\<lambda>s2r.
     Inr (st\<lparr>ms_memslots := memslots, ms_slotToRegion := s2r\<rparr>)))"

text \<open>The masks of the code are \<open>take_bit\<close>, its shifts \<open>drop_bit\<close> and \<open>push_bit\<close>.\<close>

definition grain_diff :: "nat \<Rightarrow> nat \<Rightarrow> nat" where
  "grain_diff p start =
     (let m = 2 ^ p - 1 in m - take_bit p (add64 start m))"

definition pushWrite :: "message_sort \<Rightarrow> msgid \<Rightarrow> nat \<Rightarrow> nat \<Rightarrow> nat \<Rightarrow> fault + message_sort \<times> nat \<times> nat" where
  "pushWrite st mid slot offset sz =
     (if sz = 0 then Inr (st, offset, sz)
      else
        bindE (vec_at (ms_slotToRegion st) slot) (\<lambda>sr.
        let region = sr_region sr;
            start = add64 (sr_offset sr) offset;
            p = ms_msgGrainPower st;
            diff = grain_diff p start in
        bindE (ASSERT (take_bit p (add64 start diff) = 0)) (\<lambda>_.
        bindE (vec_at (ms_writes st) region) (\<lambda>w.
        bindE (writes_push w mid (drop_bit p (add64 start diff)) (drop_bit p (sub64 sz diff))) (\<lambda>w'.
        bindE (sparse_insert (ms_dirty st) (int region)) (\<lambda>dirty.
        Inr (st\<lparr>ms_writes := (ms_writes st)[region := w'], ms_dirty := dirty\<rparr>,
             add64 offset diff,
             sub64 sz diff - take_bit p (sub64 sz diff))))))))"

partial_function (option) popWrite ::
  "message_sort \<Rightarrow> (fault + message_sort \<times> (msgid \<times> nat \<times> nat) option) option" where
  "popWrite st =
     (if sparse_is_empty (ms_dirty st) then Some (Inr (st, None))
      else
        let region = nat (sp_domain (ms_dirty st) ! 0) in
        if \<not> region < length (ms_writes st) then Some (Inl OutOfBounds)
        else case writes_pop (ms_writes st ! region) of
          Inl e \<Rightarrow> Some (Inl e)
        | Inr (Some (mid, start, sz), w') \<Rightarrow>
            Some (bindE (vec_at (ms_regions st) region) (\<lambda>r.
              Inr (st\<lparr>ms_writes := (ms_writes st)[region := w']\<rparr>,
                   Some (mid, rg_base r + push_bit (ms_msgGrainPower st) start,
                         push_bit (ms_msgGrainPower st) sz))))
        | Inr (None, w') \<Rightarrow>
            (case sparse_erase (ms_dirty st) (int region) of
               Inl e \<Rightarrow> Some (Inl e)
             | Inr d \<Rightarrow> popWrite (st\<lparr>ms_writes := (ms_writes st)[region := w'], ms_dirty := d\<rparr>)))"

definition canWrite :: "message_sort \<Rightarrow> msgid \<Rightarrow> nat \<Rightarrow> nat \<Rightarrow> fault + bool" where
  "canWrite st mid slot offset =
     bindE (vec_at (ms_slotToRegion st) slot) (\<lambda>sr.
     let region = sr_region sr; start = add64 (sr_offset sr) offset in
     bindE (ASSERT (region < length (ms_writes st))) (\<lambda>_.
     writes_test (ms_writes st ! region) mid (drop_bit (ms_msgGrainPower st) start)))"

fun clear_all :: "writes list \<Rightarrow> fault + writes list" where
  "clear_all [] = Inr []"
| "clear_all (w # ws) = bindE (writes_clear w) (\<lambda>w'. bindE (clear_all ws) (\<lambda>ws'. Inr (w' # ws')))"

definition message_sort_clear :: "message_sort \<Rightarrow> fault + message_sort" where
  "message_sort_clear st =
     bindE (clear_all (ms_writes st)) (\<lambda>ws.
     Inr (st\<lparr>ms_dirty := sparse_clear (ms_dirty st), ms_writes := ws\<rparr>))"

definition message_sort_empty :: "message_sort \<Rightarrow> bool" where
  "message_sort_empty st \<longleftrightarrow> sparse_is_empty (ms_dirty st)"

section \<open>Registration\<close>

subsection \<open>The dirty list has room for every region\<close>

definition regions_max :: nat where
  "regions_max = 576460752303423488"

lemma sparse_extend_total:
  assumes "sparse_inv s" and "sp_max s < mx" and "nat (mx - sp_min s) < sparse_max_size" and "\<And>k. ok k"
  shows "\<exists>s'. sparse_extend ok s mx = (s', None)"
proof -
  have l: "int (length (sp_domain s)) = sp_max s - sp_min s + 1" using assms(1) by (simp add: sparse_inv_def)
  then have "nat (mx - sp_min s + 1) > length (sp_domain s)" using assms(2) by simp
  then show ?thesis using assms l by (auto simp: sparse_extend_def Let_def resize_ok_def)
qed

lemma grow_dirty_spec:
  assumes "sparse_inv0 d" and "n \<le> regions_max" and "\<And>k. ok k" and "0 \<le> sp_max d"
  shows "\<exists>d'. grow_dirty ok n d = Inr d' \<and> sparse_inv0 d' \<and> sparse_set d' = sparse_set d \<and> int n \<le> sp_max d'"
  using assms
proof (induction ok n d rule: grow_dirty.induct)
  case (1 ok n d)
  show ?case
  proof (cases "int n > sp_max d")
    case True
    let ?m = "max 1 (2 * sp_max d)"
    have gt: "sp_max d < ?m" using "1.prems"(4) by auto
    have "nat (?m - sp_min d) < sparse_max_size"
      using True "1.prems" by (auto simp: sparse_inv0_def regions_max_def sparse_max_size_def)
    then obtain d' where e: "sparse_extend ok d ?m = (d', None)"
      using sparse_extend_total [OF _ gt] "1.prems" by (auto simp: sparse_inv0_def)
    have "\<not> ?m < sp_max d" using gt by simp
    then have r: "sparse_resize ok d ?m = (d', None)" using gt e unfolding sparse_resize_def by argo
    note x = sparse_extend_spec [OF _ e]
    have inv: "sparse_inv0 d'" "sparse_set d' = sparse_set d" "0 \<le> sp_max d'"
      using x "1.prems" by (auto simp: sparse_inv0_def)
    have "\<exists>d''. grow_dirty ok n d' = Inr d'' \<and> sparse_inv0 d'' \<and> sparse_set d'' = sparse_set d' \<and> int n \<le> sp_max d''"
      by (rule "1.IH" [of d' None]) (use True r inv "1.prems" in \<open>auto simp: sparse_range_def\<close>)
    moreover have "grow_dirty ok n d = grow_dirty ok n d'"
      using True r by (simp add: grow_dirty.simps [of ok n d] sparse_range_def)
    ultimately show ?thesis using inv by simp
  next
    case False
    then have "grow_dirty ok n d = Inr d" by (simp add: grow_dirty.simps [of ok n d] sparse_range_def)
    then show ?thesis using False "1.prems"(1) by simp
  qed
qed

subsection \<open>The sorted regions\<close>

lemma region_less_trans: "region_less a b \<Longrightarrow> region_less b c \<Longrightarrow> region_less a c"
  by (simp add: region_less_def)

lemma equal_range_split:
  assumes "sorted_wrt region_less xs" and "equal_range x xs = (as, rs, bs)"
  shows "xs = as @ rs @ bs" and "\<forall>a \<in> set as. region_less a x" and "\<forall>b \<in> set bs. region_less x b"
    and "\<forall>r \<in> set rs. \<not> region_less r x \<and> \<not> region_less x r"
proof -
  let ?d = "dropWhile (\<lambda>e. region_less e x) xs"
  have as: "as = takeWhile (\<lambda>e. region_less e x) xs" and rs: "rs = takeWhile (\<lambda>e. \<not> region_less x e) ?d"
    and bs: "bs = dropWhile (\<lambda>e. \<not> region_less x e) ?d"
    using assms(2) by (auto simp: equal_range_def)
  show xs: "xs = as @ rs @ bs" by (simp add: as rs bs)
  show "\<forall>a \<in> set as. region_less a x" unfolding as by (auto dest: set_takeWhileD)
  have sd: "sorted_wrt region_less (rs @ bs)" using assms(1) xs by (simp add: sorted_wrt_append)
  have d: "?d = rs @ bs" by (simp add: rs bs)
  have notless: "\<not> region_less e x" if e: "e \<in> set (rs @ bs)" for e
  proof -
    obtain h t where ht: "rs @ bs = h # t" using e by (cases "rs @ bs") auto
    then have h: "\<not> region_less h x" using d by (metis dropWhile_eq_Cons_conv)
    have "e = h \<or> region_less h e" using e sd unfolding ht by auto
    then show ?thesis using h by (auto simp: region_less_def)
  qed
  show "\<forall>r \<in> set rs. \<not> region_less r x \<and> \<not> region_less x r"
    using notless set_takeWhileD [of _ "\<lambda>e. \<not> region_less x e" ?d] unfolding rs [symmetric] by auto
  show "\<forall>b \<in> set bs. region_less x b"
  proof
    fix b assume b: "b \<in> set bs"
    then obtain h t where ht: "bs = h # t" by (cases bs) auto
    then have "region_less x h" using bs by (metis dropWhile_eq_Cons_conv)
    moreover have "b = h \<or> region_less h b" using b ht sd by (auto simp: sorted_wrt_append)
    ultimately show "region_less x b" using region_less_trans by blast
  qed
qed

lemma extent_fold:
  "fold extent_step rng (a, b, c) = (a', b', c') \<Longrightarrow>
     a' \<le> a \<and> (\<forall>i \<in> set rng. a' \<le> rg_base i) \<and> (a' = a \<or> (\<exists>i \<in> set rng. a' = rg_base i)) \<and>
     b \<le> b' \<and> (\<forall>i \<in> set rng. rg_base i + rg_size i \<le> b') \<and> (b' = b \<or> (\<exists>i \<in> set rng. b' = rg_base i + rg_size i)) \<and>
     c' \<le> c \<and> (\<forall>i \<in> set rng. c' \<le> rg_region i) \<and> (c' = c \<or> (\<exists>i \<in> set rng. c' = rg_region i))"
proof (induction rng arbitrary: a b c)
  case (Cons x rng)
  obtain a1 b1 c1 where s: "extent_step x (a, b, c) = (a1, b1, c1)" by (cases "extent_step x (a, b, c)")
  then have "fold extent_step rng (a1, b1, c1) = (a', b', c')" using Cons.prems by simp
  note IH = Cons.IH [OF this]
  have "a1 \<le> a \<and> a1 \<le> rg_base x \<and> (a1 = a \<or> a1 = rg_base x)"
    "b \<le> b1 \<and> rg_base x + rg_size x \<le> b1 \<and> (b1 = b \<or> b1 = rg_base x + rg_size x)"
    "c1 \<le> c \<and> c1 \<le> rg_region x \<and> (c1 = c \<or> c1 = rg_region x)"
    using s by (auto simp: extent_step_def)
  then show ?case using IH
    by (intro conjI) auto
qed simp

lemma region_extent_spec:
  assumes "new = region_extent new0 rng"
    and "\<forall>r \<in> set rng. \<not> region_less r new0 \<and> \<not> region_less new0 r"
  shows "rg_base new \<le> rg_base new0" "rg_base new0 + rg_size new0 \<le> rg_base new + rg_size new"
    "\<forall>i \<in> set rng. rg_base new \<le> rg_base i \<and> rg_base i + rg_size i \<le> rg_base new + rg_size new"
    "rg_base new = rg_base new0 \<or> (\<exists>i \<in> set rng. rg_base new = rg_base i)"
    "rg_base new + rg_size new = rg_base new0 + rg_size new0 \<or>
       (\<exists>i \<in> set rng. rg_base new + rg_size new = rg_base i + rg_size i)"
    "\<forall>i \<in> set rng. rg_region new \<le> rg_region i"
    "rg_region new = rg_region new0 \<or> (\<exists>i \<in> set rng. rg_region new = rg_region i)"
    "rg_region new \<le> rg_region new0"
proof -
  obtain a b c where f: "fold extent_step rng (rg_base new0, rg_base new0 + rg_size new0, rg_region new0) = (a, b, c)"
    by (metis prod_cases3)
  note e = extent_fold [OF f]
  have new: "rg_region new = c" "rg_base new = a" "rg_base new + rg_size new = b"
    using assms(1) f e by (simp_all add: region_extent_def)
  show "rg_base new \<le> rg_base new0" "rg_base new0 + rg_size new0 \<le> rg_base new + rg_size new"
    "\<forall>i \<in> set rng. rg_base new \<le> rg_base i \<and> rg_base i + rg_size i \<le> rg_base new + rg_size new"
    "rg_base new = rg_base new0 \<or> (\<exists>i \<in> set rng. rg_base new = rg_base i)"
    "rg_base new + rg_size new = rg_base new0 + rg_size new0 \<or>
       (\<exists>i \<in> set rng. rg_base new + rg_size new = rg_base i + rg_size i)"
    "\<forall>i \<in> set rng. rg_region new \<le> rg_region i"
    "rg_region new = rg_region new0 \<or> (\<exists>i \<in> set rng. rg_region new = rg_region i)"
    "rg_region new \<le> rg_region new0"
    unfolding new(3) unfolding new(1,2) using e by blast+
qed

text \<open>Replacing the overlapping regions by their union keeps the regions sorted and apart.\<close>

lemma sorted_insert_merged:
  assumes sorted: "sorted_wrt region_less xs" and er: "equal_range new0 xs = (as, rs, bs)"
    and new: "new = region_extent new0 rs"
  shows "sorted_insert new (as @ bs) = as @ new # bs" and "sorted_wrt region_less (as @ new # bs)"
proof -
  note sp = equal_range_split [OF sorted er]
  note ex = region_extent_spec [OF new sp(4)]
  have xs: "sorted_wrt region_less (as @ rs @ bs)" using sorted sp(1) by simp
  have ord: "sorted_wrt region_less as" "sorted_wrt region_less bs"
    "\<forall>a \<in> set as. \<forall>r \<in> set rs. region_less a r" "\<forall>r \<in> set rs. \<forall>b \<in> set bs. region_less r b"
    "\<forall>a \<in> set as. \<forall>b \<in> set bs. region_less a b"
    using xs by (auto simp: sorted_wrt_append)
  have a: "region_less a new" if "a \<in> set as" for a
    using ex(4) sp(2) ord(3) that by (force simp: region_less_def)
  have b: "region_less new b" if "b \<in> set bs" for b
    using ex(5) sp(3) ord(4) that by (force simp: region_less_def)
  show "sorted_wrt region_less (as @ new # bs)" using ord a b by (simp add: sorted_wrt_append)
  have na: "\<not> region_less new x" if "x \<in> set as" for x
    using a [OF that] by (auto simp: region_less_def)
  have "takeWhile (\<lambda>e. \<not> region_less new e) (as @ bs) = as" and "dropWhile (\<lambda>e. \<not> region_less new e) (as @ bs) = bs"
    using na b by (cases bs; simp)+
  then show "sorted_insert new (as @ bs) = as @ new # bs" by (simp add: sorted_insert_def)
qed

subsection \<open>The loops of \<open>addRegister\<close>\<close>

lemma discard_writes_spec:
  assumes "\<forall>i \<in> set is. rg_region i < length ws"
  shows "\<exists>ws'. discard_writes r is ws = Inr ws' \<and> length ws' = length ws \<and>
     (\<forall>j < length ws. ws' ! j = (if j \<noteq> r \<and> j \<in> rg_region ` set is then writes_empty else ws ! j))"
  using assms
proof (induction "is" arbitrary: ws)
  case (Cons i xs)
  let ?ws = "if rg_region i \<noteq> r then ws[rg_region i := writes_empty] else ws"
  have l: "length ?ws = length ws" by simp
  have "discard_writes r (i # xs) ws = discard_writes r xs ?ws"
    using Cons.prems by simp
  moreover obtain ws' where "discard_writes r xs ?ws = Inr ws'" "length ws' = length ws"
    "\<forall>j < length ws. ws' ! j = (if j \<noteq> r \<and> j \<in> rg_region ` set xs then writes_empty else ?ws ! j)"
    using Cons.IH [of ?ws] Cons.prems l by (metis (no_types, lifting) list.set_intros(2))
  ultimately show ?case using Cons.prems by (auto simp: nth_list_update)
qed simp

lemma retarget_spec:
  assumes "s < length ms"
  shows "retarget new ms s is sr = Inr (if sr_region sr \<in> rg_region ` set is
     then \<lparr>sr_region = rg_region new, sr_offset = sub64 (sl_base (ms ! s)) (rg_base new)\<rparr> else sr)"
  using assms by (induction "is" arbitrary: sr) auto

lemma retarget_slots_spec:
  assumes "s + length srs \<le> length ms"
  shows "\<exists>xs. retarget_slots new ms rng s srs = Inr xs \<and> length xs = length srs \<and>
     (\<forall>k < length srs. xs ! k = (if sr_region (srs ! k) \<in> rg_region ` set rng
        then \<lparr>sr_region = rg_region new, sr_offset = sub64 (sl_base (ms ! (s + k))) (rg_base new)\<rparr> else srs ! k))"
  using assms
proof (induction srs arbitrary: s)
  case (Cons sr srs)
  obtain xs where xs: "retarget_slots new ms rng (s + 1) srs = Inr xs" "length xs = length srs"
    "\<forall>k < length srs. xs ! k = (if sr_region (srs ! k) \<in> rg_region ` set rng
        then \<lparr>sr_region = rg_region new, sr_offset = sub64 (sl_base (ms ! (s + 1 + k))) (rg_base new)\<rparr> else srs ! k)"
    using Cons.IH [of "s + 1"] Cons.prems by auto
  show ?case using xs Cons.prems
    by (auto simp: retarget_spec nth_Cons split: nat.splits)
qed simp

subsection \<open>Invariant\<close>

text \<open>
  \<open>live\<close> are the slots that are registered.  The sorted regions are pairwise apart, each is the
  entry of \<open>m_regions\<close> it names and has one cell per grain; each live slot lies inside
  the region it points to, at the recorded offset; every region with marked cells is in the dirty
  list, which has room for all regions.
\<close>

definition region_ok :: "message_sort \<Rightarrow> region \<Rightarrow> bool" where
  "region_ok st x \<longleftrightarrow>
     rg_region x < length (ms_regions st) \<and> ms_regions st ! rg_region x = x \<and>
     rg_base x + rg_size x \<le> cells_max \<and>
     length (w_memory (ms_writes st ! rg_region x)) = drop_bit (ms_msgGrainPower st) (rg_size x)"

definition slot_in :: "message_sort \<Rightarrow> nat \<Rightarrow> region \<Rightarrow> bool" where
  "slot_in st s x \<longleftrightarrow>
     sr_region (ms_slotToRegion st ! s) = rg_region x \<and>
     rg_base x \<le> sl_base (ms_memslots st ! s) \<and>
     sl_base (ms_memslots st ! s) + sl_size (ms_memslots st ! s) \<le> rg_base x + rg_size x \<and>
     sr_offset (ms_slotToRegion st ! s) = sl_base (ms_memslots st ! s) - rg_base x"

definition ms_inv :: "nat set \<Rightarrow> message_sort \<Rightarrow> bool" where
  "ms_inv live st \<longleftrightarrow>
     length (ms_memslots st) = length (ms_slotToRegion st) \<and>
     length (ms_writes st) = length (ms_regions st) \<and>
     sorted_wrt region_less (ms_sortedRegions st) \<and>
     distinct (map rg_region (ms_sortedRegions st)) \<and>
     (\<forall>x \<in> set (ms_sortedRegions st). region_ok st x) \<and>
     (\<forall>s \<in> live. s < length (ms_memslots st) \<and> (\<exists>x \<in> set (ms_sortedRegions st). slot_in st s x)) \<and>
     (\<forall>w \<in> set (ms_writes st). writes_inv w) \<and>
     sparse_inv0 (ms_dirty st) \<and> 0 \<le> sp_max (ms_dirty st) \<and> int (length (ms_regions st)) \<le> sp_max (ms_dirty st) + 1 \<and>
     sparse_set (ms_dirty st) \<subseteq> {0..<int (length (ms_regions st))} \<and>
     (\<forall>r < length (ms_writes st). marked_cells (ms_writes st ! r) \<noteq> {} \<longrightarrow> int r \<in> sparse_set (ms_dirty st))"

lemma ms_invD:
  assumes "ms_inv live st"
  shows "length (ms_memslots st) = length (ms_slotToRegion st)"
    "length (ms_writes st) = length (ms_regions st)"
    "sorted_wrt region_less (ms_sortedRegions st)"
    "distinct (map rg_region (ms_sortedRegions st))"
    "\<And>x. x \<in> set (ms_sortedRegions st) \<Longrightarrow> region_ok st x"
    "\<And>s. s \<in> live \<Longrightarrow> s < length (ms_memslots st) \<and> (\<exists>x \<in> set (ms_sortedRegions st). slot_in st s x)"
    "\<And>w. w \<in> set (ms_writes st) \<Longrightarrow> writes_inv w"
    "sparse_inv0 (ms_dirty st)" "0 \<le> sp_max (ms_dirty st)"
    "int (length (ms_regions st)) \<le> sp_max (ms_dirty st) + 1"
    "sparse_set (ms_dirty st) \<subseteq> {0..<int (length (ms_regions st))}"
    "\<And>r. r < length (ms_writes st) \<Longrightarrow> marked_cells (ms_writes st ! r) \<noteq> {} \<Longrightarrow> int r \<in> sparse_set (ms_dirty st)"
  using assms unfolding ms_inv_def by blast+

lemma writes_resize_spec:
  assumes "writes_inv w" and "length (w_memory w) \<le> n" and "n \<le> cells_max"
  shows "\<exists>w'. writes_resize w n = Inr w' \<and> writes_inv w' \<and> length (w_memory w') = n \<and> marked_cells w' = marked_cells w"
proof -
  define w' where "w' = w\<lparr>w_memory := vec_resize n 0 (w_memory w)\<rparr>"
  have m: "marked_cells w' = marked_cells w"
    using assms(2) by (auto simp: marked_cells_def w'_def nth_vec_resize split: if_splits)
  have "writes_inv w'"
    using assms(1)
  proof (cases rule: writes_inv_cases)
    case none
    have "\<forall>i < n. w_memory w' ! i = 0"
      using none(3) m unfolding marked_cells_def by (auto simp: w'_def)
    then show ?thesis using none assms(3) by (simp add: writes_inv_def w'_def)
  next
    case some
    show ?thesis
      by (rule writes_invI) (use some m assms(3) in \<open>auto simp: w'_def\<close>)
  qed
  then show ?thesis using m assms(2) by (auto simp: writes_resize_def w'_def)
qed

lemma marked_cells_new [simp]: "marked_cells (writes_new n) = {}" "marked_cells writes_empty = {}"
  by (simp_all add: marked_cells_def writes_new_def writes_empty_def)

lemma length_writes_new [simp]: "length (w_memory (writes_new n)) = n"
  by (simp add: writes_new_def)

lemma writes_swap_fst: "fst (writes_swap a b) = b"
  by (simp add: writes_swap_def)

lemma ms_inv_new: "p < 64 \<Longrightarrow> ms_inv {} (message_sort_new p)"
proof -
  obtain d where d: "sparse_new (\<lambda>_. True) 0 0 = (d, None)"
    using sparse_reset_total [of 0 0 "\<lambda>_. True"] by (auto simp: sparse_new_def sparse_max_size_def)
  then show ?thesis using sparse_reset_spec [of "\<lambda>_. True" _ 0 0 d]
    by (simp add: sparse_new_def ms_inv_def message_sort_new_def sparse_inv0_def)
qed

lemma setSlotRange_inv:
  assumes "ms_inv live st" and "length (ms_memslots st) \<le> rng" and "setSlotRange ok st rng = (st', None)"
  shows "ms_inv live st' \<and> length (ms_memslots st') = rng"
proof -
  have st': "st' = st\<lparr>ms_memslots := vec_resize rng \<lparr>sl_slot = 0, sl_base = 0, sl_size = 0\<rparr> (ms_memslots st),
      ms_slotToRegion := vec_resize rng \<lparr>sr_region = 0, sr_offset = 0\<rparr> (ms_slotToRegion st)\<rparr>"
    using assms(3) by (auto simp: setSlotRange_def Let_def split: if_splits)
  have nth: "ms_memslots st' ! s = ms_memslots st ! s" "ms_slotToRegion st' ! s = ms_slotToRegion st ! s"
    if "s < length (ms_memslots st)" for s
    using that assms(1,2) by (simp_all add: st' nth_vec_resize ms_inv_def)
  have same: "ms_regions st' = ms_regions st" "ms_writes st' = ms_writes st" "ms_dirty st' = ms_dirty st"
    "ms_sortedRegions st' = ms_sortedRegions st" "ms_msgGrainPower st' = ms_msgGrainPower st"
    "length (ms_memslots st') = rng" "length (ms_slotToRegion st') = rng"
    by (simp_all add: st')
  have rk: "region_ok st' x = region_ok st x" for x by (simp add: region_ok_def same)
  note d = ms_invD [OF assms(1)]
  have si: "slot_in st' s x = slot_in st s x" if "s < length (ms_memslots st)" for s x
    using nth [OF that] by (simp add: slot_in_def)
  have live: "\<forall>s \<in> live. s < rng \<and> (\<exists>x \<in> set (ms_sortedRegions st). slot_in st' s x)"
    using d(6) si assms(2) by fastforce
  show ?thesis unfolding ms_inv_def same rk
    using d(2-5) d(7-12) live by blast
qed

subsection \<open>\<open>addRegister\<close>\<close>

lemma drop_bit_le: "drop_bit p n \<le> n" for n :: nat
  by (simp add: drop_bit_eq_div)

lemma drop_bit_mono: "m \<le> n \<Longrightarrow> drop_bit p m \<le> drop_bit p n" for m n :: nat
  by (simp add: drop_bit_eq_div div_le_mono)

lemma place_region_spec:
  assumes inv: "ms_inv live st" and sub: "set rng \<subseteq> set (ms_sortedRegions st)"
    and big: "\<forall>x \<in> set rng. rg_size x \<le> rg_size new" and fit: "rg_size new \<le> cells_max"
    and reg: "rng = [] \<Longrightarrow> rg_region new = length (ms_regions st)"
    and reg': "rng \<noteq> [] \<Longrightarrow> rg_region new \<in> rg_region ` set rng"
  shows "\<exists>ws rs ws'. place_region st new rng = Inr (ws, rs) \<and> discard_writes (rg_region new) rng ws = Inr ws' \<and>
     length ws' = length rs \<and> rg_region new < length rs \<and> rs ! rg_region new = new \<and>
     length rs = length (ms_regions st) + (if rng = [] then 1 else 0) \<and>
     length (w_memory (ws' ! rg_region new)) = drop_bit (ms_msgGrainPower st) (rg_size new) \<and>
     (\<forall>j < length (ms_regions st). j \<noteq> rg_region new \<longrightarrow> rs ! j = ms_regions st ! j) \<and>
     (\<forall>j < length (ms_regions st). j \<noteq> rg_region new \<and> j \<notin> rg_region ` set rng \<longrightarrow> ws' ! j = ms_writes st ! j) \<and>
     (\<forall>w \<in> set ws'. writes_inv w) \<and>
     (\<forall>r < length ws'. marked_cells (ws' ! r) \<noteq> {} \<longrightarrow> int r \<in> sparse_set (ms_dirty st))"
proof -
  note d = ms_invD [OF inv]
  let ?n = "length (ms_regions st)" and ?c = "drop_bit (ms_msgGrainPower st) (rg_size new)"
  have c: "?c \<le> cells_max" using fit drop_bit_le order_trans by blast
  show ?thesis
  proof (cases "rng = []")
    case True
    have "place_region st new rng = Inr (ms_writes st @ [writes_new ?c], ms_regions st @ [new])"
      using True reg by (simp add: place_region_def writes_swap_fst)
    then show ?thesis using True reg d(2) d(7) d(12) writes_inv_new [OF c]
      by (auto simp: nth_append less_Suc_eq)
  next
    case False
    then obtain x where x: "x \<in> set rng" "rg_region x = rg_region new" using reg' by auto
    then have ok: "region_ok st x" using sub d(5) by blast
    let ?r = "rg_region new"
    have r: "?r < ?n" "length (w_memory (ms_writes st ! ?r)) \<le> ?c"
      using ok x big drop_bit_mono by (auto simp: region_ok_def)
    then have wi: "writes_inv (ms_writes st ! ?r)" using d(2) d(7) by auto
    obtain w' where w': "writes_resize (ms_writes st ! ?r) ?c = Inr w'" "writes_inv w'"
      "length (w_memory w') = ?c" "marked_cells w' = marked_cells (ms_writes st ! ?r)"
      using writes_resize_spec [OF wi r(2) c] by blast
    let ?ws = "(ms_writes st)[?r := w']" and ?rs = "(ms_regions st)[?r := new]"
    have p: "place_region st new rng = Inr (?ws, ?rs)"
      using False r(1) d(2) w'(1) by (simp add: place_region_def)
    have "\<forall>i \<in> set rng. rg_region i < length ?ws" using sub d(2,5) by (auto simp: region_ok_def)
    then obtain ws' where ws': "discard_writes ?r rng ?ws = Inr ws'" "length ws' = length ?ws"
      "\<forall>j < length ?ws. ws' ! j = (if j \<noteq> ?r \<and> j \<in> rg_region ` set rng then writes_empty else ?ws ! j)"
      using discard_writes_spec by blast
    have cases: "ws' ! j = writes_empty \<or> ws' ! j = w' \<and> j = ?r \<or> ws' ! j = ms_writes st ! j" if "j < ?n" for j
      using that ws'(3) d(2) r(1) by (cases "j = ?r") auto
    have "writes_inv w" if "w \<in> set ws'" for w
    proof -
      obtain j where "j < ?n" "w = ws' ! j" using \<open>w \<in> set ws'\<close> ws'(2) d(2) by (auto simp: in_set_conv_nth)
      then show ?thesis using cases [of j] writes_inv_empty w'(2) d(2) d(7) by auto
    qed
    moreover have "int j \<in> sparse_set (ms_dirty st)" if "j < ?n" "marked_cells (ws' ! j) \<noteq> {}" for j
    proof -
      have "marked_cells (ms_writes st ! j) \<noteq> {}" using cases [OF that(1)] that(2) w'(4) by auto
      then show ?thesis using that(1) d(2) d(12) by simp
    qed
    ultimately show ?thesis using p ws' w' r(1) d(2) False
      by (intro exI [of _ ?ws] exI [of _ ?rs] exI [of _ ws']) auto
  qed
qed

text \<open>The bytes (with the end points) that the regions cover.\<close>

definition covered :: "region list \<Rightarrow> nat set" where
  "covered xs = (\<Union>x \<in> set xs. {rg_base x..rg_base x + rg_size x})"

lemma merged_covers:
  assumes new: "new = region_extent new0 rng"
    and touch: "\<forall>r \<in> set rng. \<not> region_less r new0 \<and> \<not> region_less new0 r"
  shows "{rg_base new..rg_base new + rg_size new} = {rg_base new0..rg_base new0 + rg_size new0} \<union> covered rng"
proof -
  note ex = region_extent_spec [OF new touch]
  have "y \<in> {rg_base new0..rg_base new0 + rg_size new0} \<union> covered rng"
    if y: "rg_base new \<le> y" "y \<le> rg_base new + rg_size new" for y
  proof (cases "y < rg_base new0")
    case True
    then obtain i where i: "i \<in> set rng" "rg_base new = rg_base i" using ex(4) y by auto
    then have "rg_base new0 \<le> rg_base i + rg_size i" using touch by (auto simp: region_less_def)
    then show ?thesis using i True y by (auto simp: covered_def)
  next
    case False
    show ?thesis
    proof (cases "y \<le> rg_base new0 + rg_size new0")
      case True
      then show ?thesis using False by simp
    next
      case hi: False
      then obtain i where i: "i \<in> set rng" "rg_base new + rg_size new = rg_base i + rg_size i" using ex(5) y by auto
      then have "rg_base i \<le> rg_base new0 + rg_size new0" using touch by (auto simp: region_less_def)
      then have "rg_base i \<le> y" using hi by simp
      then show ?thesis using i y by (auto simp: covered_def)
    qed
  qed
  then show ?thesis using ex(1,2,3) by (auto simp: covered_def; fastforce)
qed

lemma addRegister_spec:
  assumes inv: "ms_inv live st" and i: "i < length (ms_memslots st)" and fit: "base + sz \<le> cells_max"
    and many: "length (ms_regions st) \<le> regions_max" and ok: "\<And>k. ok k"
  shows "\<exists>st'. addRegister ok st i base sz = Inr st' \<and> ms_inv (insert i live) st' \<and>
     ms_memslots st' = (ms_memslots st)[i := \<lparr>sl_slot = i, sl_base = base, sl_size = sz\<rparr>] \<and>
     ms_msgGrainPower st' = ms_msgGrainPower st \<and> length (ms_regions st') \<le> length (ms_regions st) + 1 \<and>
     covered (ms_sortedRegions st') = covered (ms_sortedRegions st) \<union> {base..base + sz}"
proof -
  note d = ms_invD [OF inv]
  define new0 where "new0 = \<lparr>rg_region = length (ms_regions st), rg_base = base, rg_size = sz\<rparr>"
  obtain as rng bs where er: "equal_range new0 (ms_sortedRegions st) = (as, rng, bs)" by (metis prod_cases3)
  define new where "new = region_extent new0 rng"
  note sp = equal_range_split [OF d(3) er]
  note ex = region_extent_spec [OF new_def sp(4)]
  note si = sorted_insert_merged [OF d(3) er new_def]
  have sub: "set rng \<subseteq> set (ms_sortedRegions st)" using sp(1) by auto
  have okr: "region_ok st x" if "x \<in> set rng" for x using that sub d(5) by blast
  have reg: "rg_region new = length (ms_regions st)" if "rng = []"
    using that by (simp add: new_def region_extent_def new0_def)
  have reg': "rg_region new \<in> rg_region ` set rng" if "rng \<noteq> []"
  proof -
    have "hd rng \<in> set rng" using that by simp
    then have "rg_region new \<le> rg_region (hd rng)" "region_ok st (hd rng)" using ex(6) okr by blast+
    then have "rg_region new < length (ms_regions st)" by (simp add: region_ok_def)
    then show ?thesis using ex(7) by (auto simp: new0_def)
  qed
  have end_new: "rg_base new + rg_size new \<le> cells_max"
    using ex(5) okr fit by (auto simp: new0_def region_ok_def)
  have big: "\<forall>x \<in> set rng. rg_size x \<le> rg_size new" using ex(3) by force
  obtain ws rs ws' where P: "place_region st new rng = Inr (ws, rs)" "discard_writes (rg_region new) rng ws = Inr ws'"
    "length ws' = length rs" "rg_region new < length rs" "rs ! rg_region new = new"
    "length rs = length (ms_regions st) + (if rng = [] then 1 else 0)"
    "length (w_memory (ws' ! rg_region new)) = drop_bit (ms_msgGrainPower st) (rg_size new)"
    "\<forall>j < length (ms_regions st). j \<noteq> rg_region new \<longrightarrow> rs ! j = ms_regions st ! j"
    "\<forall>j < length (ms_regions st). j \<noteq> rg_region new \<and> j \<notin> rg_region ` set rng \<longrightarrow> ws' ! j = ms_writes st ! j"
    "\<forall>w \<in> set ws'. writes_inv w"
    "\<forall>r < length ws'. marked_cells (ws' ! r) \<noteq> {} \<longrightarrow> int r \<in> sparse_set (ms_dirty st)"
    using place_region_spec [OF inv sub big _ reg reg'] end_new by auto
  obtain dirty where D: "grow_dirty ok (length (ms_regions st)) (ms_dirty st) = Inr dirty" "sparse_inv0 dirty"
    "sparse_set dirty = sparse_set (ms_dirty st)" "int (length (ms_regions st)) \<le> sp_max dirty"
    using grow_dirty_spec [of "ms_dirty st" _ ok, OF d(8) many ok d(9)] by blast
  let ?ms = "(ms_memslots st)[i := \<lparr>sl_slot = i, sl_base = base, sl_size = sz\<rparr>]"
  obtain s2r where S: "(if rng \<noteq> [] then retarget_slots new ?ms rng 0 (ms_slotToRegion st) else Inr (ms_slotToRegion st)) = Inr s2r"
    "length s2r = length (ms_slotToRegion st)"
    "\<forall>k < length (ms_slotToRegion st). s2r ! k = (if sr_region (ms_slotToRegion st ! k) \<in> rg_region ` set rng
        then \<lparr>sr_region = rg_region new, sr_offset = sub64 (sl_base (?ms ! k)) (rg_base new)\<rparr> else ms_slotToRegion st ! k)"
  proof (cases "rng = []")
    case False
    then show ?thesis using retarget_slots_spec [of 0 "ms_slotToRegion st" ?ms new rng] d(1) that by auto
  next
    case True
    show ?thesis by (rule that [of "ms_slotToRegion st"]) (simp_all add: True)
  qed
  let ?off = "sub64 base (rg_base new)"
  define st' where "st' = st\<lparr>ms_memslots := ?ms, ms_regions := rs, ms_sortedRegions := as @ new # bs,
      ms_slotToRegion := s2r[i := \<lparr>sr_region = rg_region new, sr_offset = ?off\<rparr>], ms_writes := ws', ms_dirty := dirty\<rparr>"
  have eq: "addRegister ok st i base sz = Inr st'"
    unfolding addRegister_def Let_def new0_def [symmetric] D(1) bindE_Inr er prod.case
      new_def [symmetric] P(1) P(2) S(1) si(1) ASSERT_ok [OF i]
    using i d(1) S(2) by (simp add: st'_def)
  have dist: "distinct (map rg_region (as @ rng @ bs))" using d(4) sp(1) by simp
  have keep: "rg_region x \<noteq> rg_region new \<and> rg_region x \<notin> rg_region ` set rng \<and> region_ok st x" if "x \<in> set as \<union> set bs" for x
  proof -
    have x: "region_ok st x" using that sp(1) d(5) by auto
    have n: "rg_region x \<notin> rg_region ` set rng" using that dist by auto
    then have "rg_region x \<noteq> rg_region new" using reg reg' x by (cases "rng = []") (auto simp: region_ok_def)
    then show ?thesis using x n by simp
  qed
  have rok: "region_ok st' x" if "x \<in> set (as @ new # bs)" for x
    using that keep [of x] P end_new by (auto simp: region_ok_def st'_def split: if_splits)
  have "rg_region new \<notin> rg_region ` (set as \<union> set bs)" using keep by (metis imageE)
  then have dist': "distinct (map rg_region (as @ new # bs))"
    using dist by auto
  have slots: "s < length ?ms \<and> (\<exists>x \<in> set (as @ new # bs). slot_in st' s x)" if s: "s \<in> insert i live" for s
  proof (cases "s = i")
    case True
    have "?off = base - rg_base new" using ex(1) fit cells_max_less [OF fit]
      by (intro sub64_plain) (auto simp: new0_def)
    then show ?thesis using True i S(2) d(1) ex(1,2) by (simp add: slot_in_def st'_def new0_def)
  next
    case False
    then obtain x where x: "s < length (ms_memslots st)" "x \<in> set (as @ rng @ bs)" "slot_in st s x"
      using d(6) [of s] s sp(1) by auto
    have m: "?ms ! s = ms_memslots st ! s" using False by simp
    show ?thesis
    proof (cases "x \<in> set rng")
      case True
      have b: "rg_base new \<le> sl_base (ms_memslots st ! s)" "sl_base (ms_memslots st ! s) \<le> cells_max"
        using ex(3) True x(3) okr [OF True] by (auto simp: slot_in_def region_ok_def)
      then have "sub64 (sl_base (ms_memslots st ! s)) (rg_base new) = sl_base (ms_memslots st ! s) - rg_base new"
        using cells_max_less [OF b(2)] by (intro sub64_plain) auto
      then have "slot_in st' s new"
        using x True False S(3) d(1) m ex(3) b by (auto simp: slot_in_def st'_def)
      then show ?thesis using x by simp
    next
      case nr: False
      then have "x \<in> set as \<union> set bs" using x(2) by auto
      then have "slot_in st' s x"
        using x keep [of x] False S(3) d(1) m by (auto simp: slot_in_def st'_def)
      then show ?thesis using x nr by auto
    qed
  qed
  have "ms_inv (insert i live) st'"
    unfolding ms_inv_def
  proof (intro conjI)
    show "\<forall>x \<in> set (ms_sortedRegions st'). region_ok st' x" using rok by (simp add: st'_def)
    show "\<forall>s \<in> insert i live. s < length (ms_memslots st') \<and> (\<exists>x \<in> set (ms_sortedRegions st'). slot_in st' s x)"
      using slots by (simp add: st'_def)
    show "int (length (ms_regions st')) \<le> sp_max (ms_dirty st') + 1" using P(6) D(4) by (simp add: st'_def split: if_splits)
    show "sparse_set (ms_dirty st') \<subseteq> {0..<int (length (ms_regions st'))}"
      using d(11) D(3) P(6) by (auto simp: st'_def)
    show "0 \<le> sp_max (ms_dirty st')" using D(4) by (simp add: st'_def)
  qed (use d(1) si(2) dist' P D S(2) in \<open>simp_all add: st'_def\<close>)
  moreover have "covered (ms_sortedRegions st') = covered (ms_sortedRegions st) \<union> {base..base + sz}"
    using merged_covers [OF new_def sp(4)] sp(1) by (auto simp: st'_def covered_def new0_def)
  ultimately show ?thesis using eq P(6) by (auto simp: st'_def)
qed

section \<open>Writing\<close>

text \<open>The mark of a cell: zero, or one more than the identifier of the write that holds it.\<close>

definition mark :: "message_sort \<Rightarrow> nat \<Rightarrow> nat \<Rightarrow> msgid" where
  "mark st r c =
     (if r < length (ms_writes st) \<and> c < length (w_memory (ms_writes st ! r))
      then w_memory (ms_writes st ! r) ! c else 0)"

lemma mark_nonzero: "mark st r c \<noteq> 0 \<longleftrightarrow> r < length (ms_writes st) \<and> c \<in> marked_cells (ms_writes st ! r)"
  by (auto simp: mark_def marked_cells_def)

lemma mark_update:
  "r < length (ms_writes st) \<Longrightarrow>
   mark (st\<lparr>ms_writes := (ms_writes st)[r := w], ms_dirty := d\<rparr>) r' c =
     (if r' = r then (if c < length (w_memory w) then w_memory w ! c else 0) else mark st r' c)"
  by (auto simp: mark_def nth_list_update)

text \<open>Changing the marks of one region.\<close>

lemma ms_inv_write:
  assumes inv: "ms_inv live st" and r: "r < length (ms_regions st)"
    and w: "writes_inv w" "length (w_memory w) = length (w_memory (ms_writes st ! r))"
    and di: "sparse_inv0 d" "sp_max d = sp_max (ms_dirty st)" "sparse_set d \<subseteq> {0..<int (length (ms_regions st))}"
    and cov: "marked_cells w \<noteq> {} \<Longrightarrow> int r \<in> sparse_set d"
      "\<And>r'. r' < length (ms_regions st) \<Longrightarrow> r' \<noteq> r \<Longrightarrow> marked_cells (ms_writes st ! r') \<noteq> {} \<Longrightarrow> int r' \<in> sparse_set d"
  shows "ms_inv live (st\<lparr>ms_writes := (ms_writes st)[r := w], ms_dirty := d\<rparr>)"
proof -
  let ?st = "st\<lparr>ms_writes := (ms_writes st)[r := w], ms_dirty := d\<rparr>"
  note v = ms_invD [OF inv]
  have rk: "region_ok ?st x = region_ok st x" for x
    using w(2) v(2) r by (auto simp: region_ok_def nth_list_update)
  have sl: "slot_in ?st s x = slot_in st s x" for s x by (simp add: slot_in_def)
  have wi: "writes_inv u" if "u \<in> set ((ms_writes st)[r := w])" for u
    using that set_update_subset_insert [of "ms_writes st" r w] v(7) w(1) by blast
  have dirty: "int j \<in> sparse_set d" if "j < length (ms_writes st)" "marked_cells ((ms_writes st)[r := w] ! j) \<noteq> {}" for j
    using that v(2) cov by (cases "j = r") auto
  show ?thesis
    unfolding ms_inv_def rk sl
  proof (intro conjI)
    show "\<forall>x \<in> set (ms_sortedRegions ?st). region_ok st x" using v(5) by simp
    show "\<forall>s \<in> live. s < length (ms_memslots ?st) \<and> (\<exists>x \<in> set (ms_sortedRegions ?st). slot_in st s x)" using v(6) by simp
  qed (use v(1-4) v(9,10) di wi dirty in simp_all)
qed

subsection \<open>\<open>pushWrite\<close>\<close>

lemma grain_diff_spec:
  assumes "p \<le> 60" and "start \<le> cells_max"
  shows "(start + grain_diff p start) mod 2 ^ p = 0" and "grain_diff p start < 2 ^ p"
proof -
  let ?G = "2 ^ p :: nat"
  have G: "0 < ?G" by simp
  have "?G \<le> 2 ^ 60" using assms(1) by (intro power_increasing) auto
  then have a: "add64 start (?G - 1) = start + (?G - 1)"
    using assms(2) by (intro add64_plain) (simp add: SIZE_MAX_def cells_max_def)
  define q r where "q = (start + (?G - 1)) div ?G" and "r = (start + (?G - 1)) mod ?G"
  have qr: "start + (?G - 1) = q * ?G + r" unfolding q_def r_def by (rule div_mult_mod_eq [symmetric])
  have r: "r < ?G" unfolding r_def by (rule mod_less_divisor [OF G])
  have d: "grain_diff p start = ?G - 1 - r" by (simp add: grain_diff_def Let_def a [simplified] r_def take_bit_eq_mod)
  then show "grain_diff p start < 2 ^ p" using G by simp
  have "start + grain_diff p start = q * ?G" using qr r d by linarith
  then show "(start + grain_diff p start) mod 2 ^ p = 0" by simp
qed

lemma grains_fit:
  assumes "G * a + sz \<le> (n :: nat)" and "0 < G"
  shows "a + sz div G \<le> n div G"
proof -
  have "G * a + G * (sz div G) \<le> n" using assms(1) by (metis add_left_mono le_trans times_div_less_eq_dividend)
  then have "G * (a + sz div G) \<le> n" by (simp add: distrib_left)
  then show ?thesis using assms(2) by (simp add: less_eq_div_iff_mult_less_eq mult.commute)
qed

lemma pushWrite_spec:
  assumes inv: "ms_inv live st" and s: "slot \<in> live" and p: "ms_msgGrainPower st \<le> 60" and mid: "mid < MAX_ID"
    and fit: "offset + sz \<le> sl_size (ms_memslots st ! slot)"
    and G: "G = 2 ^ ms_msgGrainPower st"
    and start: "start = sr_offset (ms_slotToRegion st ! slot) + offset"
    and diff: "diff = grain_diff (ms_msgGrainPower st) start"
    and grain: "diff + G \<le> sz"
  shows "\<exists>st' r. pushWrite st mid slot offset sz = Inr (st', offset + diff, (sz - diff) div G * G) \<and> ms_inv live st' \<and>
     r = sr_region (ms_slotToRegion st ! slot) \<and>
     ms_msgGrainPower st' = ms_msgGrainPower st \<and> ms_memslots st' = ms_memslots st \<and> ms_regions st' = ms_regions st \<and>
     ms_slotToRegion st' = ms_slotToRegion st \<and> (start + diff) mod G = 0 \<and>
     (\<forall>r' c. mark st' r' c =
        (if r' = r \<and> (start + diff) div G \<le> c \<and> c < (start + sz) div G \<and> mark st r c \<le> mid then mid + 1 else mark st r' c))"
proof -
  note d = ms_invD [OF inv]
  obtain x where sl: "slot < length (ms_memslots st)" and x: "x \<in> set (ms_sortedRegions st)" "slot_in st slot x"
    using d(6) [OF s] by blast
  let ?p = "ms_msgGrainPower st" and ?r = "sr_region (ms_slotToRegion st ! slot)"
  let ?w = "ms_writes st ! ?r"
  have ok: "region_ok st x" using d(5) [OF x(1)] .
  have r: "?r = rg_region x" and rl: "?r < length (ms_regions st)" and len: "length (w_memory ?w) = rg_size x div G"
    and xc: "rg_base x + rg_size x \<le> cells_max"
    using x ok G by (simp_all add: slot_in_def region_ok_def drop_bit_eq_div)
  have "rg_base x \<le> sl_base (ms_memslots st ! slot)"
    "sl_base (ms_memslots st ! slot) + sl_size (ms_memslots st ! slot) \<le> rg_base x + rg_size x"
    "start = sl_base (ms_memslots st ! slot) - rg_base x + offset"
    using x(2) start by (simp_all add: slot_in_def)
  then have st_end: "start + sz \<le> rg_size x" using fit by linarith
  have sc: "start \<le> cells_max" "start + sz \<le> cells_max" using st_end xc by simp_all
  note gd = grain_diff_spec [OF p sc(1), folded diff G]
  have G0: "0 < G" using G by simp
  let ?a = "(start + diff) div G" and ?n = "(sz - diff) div G"
  have a: "G * ?a = start + diff" using gd(1) by (intro dvd_mult_div_cancel mod_0_imp_dvd)
  have n0: "0 < ?n" using grain G0 by (simp add: div_greater_zero_iff)
  have dsz: "diff \<le> sz" using grain by simp
  have an: "?a + ?n \<le> length (w_memory ?w)" unfolding len
    by (rule grains_fit [OF _ G0]) (use a dsz st_end in simp)
  have ae: "?a + ?n = (start + sz) div G"
  proof -
    have "start + sz = ?a * G + (sz - diff)" using a dsz by (simp add: mult.commute)
    then have "(start + sz) div G = ?a + (sz - diff) div G" using G0 by simp
    then show ?thesis by simp
  qed
  have plain: "add64 (sr_offset (ms_slotToRegion st ! slot)) offset = start" "add64 start diff = start + diff"
    "sub64 sz diff = sz - diff" "add64 offset diff = offset + diff"
    using sc cells_max_less [OF sc(2)] dsz start by (simp_all add: add64_plain sub64_plain)
  obtain w' where w': "writes_push ?w mid ?a ?n = Inr w'" "writes_inv w'"
    "w_memory w' = push_cells mid ?a (?a + ?n) (w_memory ?w)" "marked_cells w' = marked_cells ?w \<union> {?a..<?a + ?n}"
    using writes_push_spec [OF _ mid n0 an] d(7) rl d(2) by (metis nth_mem)
  have in_range: "0 \<le> int ?r" "int ?r \<le> sp_max (ms_dirty st)" using rl d(10) by simp_all
  obtain dt where dt: "sparse_insert (ms_dirty st) (int ?r) = Inr dt" "sparse_inv0 dt"
    "sparse_set dt = insert (int ?r) (sparse_set (ms_dirty st))" "sp_max dt = sp_max (ms_dirty st)"
    using sparse.insert_spec [OF d(8) in_range] by blast
  let ?st = "st\<lparr>ms_writes := (ms_writes st)[?r := w'], ms_dirty := dt\<rparr>"
  have "slot < length (ms_slotToRegion st)" "?r < length (ms_writes st)" using sl d(1) d(2) rl by simp_all
  moreover have "drop_bit ?p (start + diff) = ?a" "drop_bit ?p (sz - diff) = ?n"
    "take_bit ?p (start + diff) = 0" "sz - diff - take_bit ?p (sz - diff) = ?n * G"
    using gd(1) by (simp_all add: drop_bit_eq_div take_bit_eq_mod G minus_mod_eq_div_mult)
  moreover have "sz \<noteq> 0" using grain G0 by simp
  ultimately have eq: "pushWrite st mid slot offset sz = Inr (?st, offset + diff, ?n * G)"
    using w'(1) dt(1) by (simp add: pushWrite_def Let_def plain diff [symmetric])
  have "ms_inv live ?st"
  proof (rule ms_inv_write [OF inv rl w'(2)])
    show "length (w_memory w') = length (w_memory ?w)" by (simp add: w'(3))
    show "sparse_set dt \<subseteq> {0..<int (length (ms_regions st))}" using dt(3) d(11) rl by auto
    show "int r' \<in> sparse_set dt" if "r' < length (ms_regions st)" "marked_cells (ms_writes st ! r') \<noteq> {}" for r'
      using that d(2) d(12) dt(3) by simp
  qed (use dt in simp_all)
  moreover have "mark ?st r' c =
        (if r' = ?r \<and> ?a \<le> c \<and> c < (start + sz) div G \<and> mark st ?r c \<le> mid then mid + 1 else mark st r' c)" for r' c
    using rl d(2) an ae by (auto simp: mark_update w'(3) nth_push_cells) (auto simp: mark_def)
  ultimately show ?thesis using eq gd(1) by auto
qed

subsection \<open>\<open>popWrite\<close>\<close>

lemma writes_pop_unmarked: "writes_inv w \<Longrightarrow> marked_cells w = {} \<Longrightarrow> writes_pop w = Inr (None, w)"
  by (auto elim!: writes_inv_cases intro: writes_pop_none)

lemma dirty_first:
  assumes "sparse_inv0 d" and "\<not> sparse_is_empty d"
  obtains xs where "sparse_iterate d = sp_domain d ! 0 # xs"
proof -
  have "sp_size d \<noteq> 0" "sp_size d \<le> length (sp_domain d)"
    using assms by (simp_all add: sparse_is_empty_def sparse_inv0_def sparse_inv_def)
  then have "sp_domain d \<noteq> []" by auto
  then have "sparse_iterate d = sp_domain d ! 0 # tl (sparse_iterate d)"
    using \<open>sp_size d \<noteq> 0\<close> by (cases "sp_domain d"; cases "sp_size d") (simp_all add: sparse_iterate_def)
  then show thesis by (rule that)
qed

definition popped :: "message_sort \<Rightarrow> message_sort \<Rightarrow> (msgid \<times> nat \<times> nat) option \<Rightarrow> bool" where
  "popped st st' res \<longleftrightarrow>
     (case res of
        None \<Rightarrow> message_sort_empty st' \<and> (\<forall>r c. mark st r c = 0)
      | Some (mid, base, sz) \<Rightarrow>
          (\<exists>r a n. r < length (ms_regions st) \<and> 0 < n \<and>
             base = rg_base (ms_regions st ! r) + a * 2 ^ ms_msgGrainPower st \<and> sz = n * 2 ^ ms_msgGrainPower st \<and>
             (\<forall>c \<in> {a..<a + n}. mark st r c = mid + 1 \<and> mid + 1 \<noteq> 0) \<and> mark st r (a + n) \<noteq> mid + 1 \<and>
             (\<forall>r' c. mark st' r' c = (if r' = r \<and> c \<in> {a..<a + n} then 0 else mark st r' c))))"

lemma popWrite_spec:
  assumes "ms_inv live st"
  shows "\<exists>st' res. popWrite st = Some (Inr (st', res)) \<and> ms_inv live st' \<and> popped st st' res"
  using assms
proof (induction "card (sparse_set (ms_dirty st))" arbitrary: st rule: less_induct)
  case less
  note d = ms_invD [OF less.prems]
  show ?case
  proof (cases "sparse_is_empty (ms_dirty st)")
    case True
    then have "popWrite st = Some (Inr (st, None))" by (simp add: popWrite.simps)
    moreover have "mark st r c = 0" for r c
    proof (rule ccontr)
      assume m: "mark st r c \<noteq> 0"
      then have "r < length (ms_writes st)" "marked_cells (ms_writes st ! r) \<noteq> {}"
        by (auto simp: mark_nonzero)
      then have "int r \<in> sparse_set (ms_dirty st)" using d(12) by blast
      then show False using True sparse.empty_spec [OF d(8)] by simp
    qed
    ultimately show ?thesis using True less.prems by (auto simp: popped_def message_sort_empty_def)
  next
    case False
    obtain xs where it: "sparse_iterate (ms_dirty st) = sp_domain (ms_dirty st) ! 0 # xs"
      using dirty_first [OF d(8) False] .
    define r where "r = nat (sp_domain (ms_dirty st) ! 0)"
    obtain dt where dt: "sparse_erase (ms_dirty st) (sp_domain (ms_dirty st) ! 0) = Inr dt" "sparse_inv0 dt"
      "sparse_set dt = sparse_set (ms_dirty st) - {sp_domain (ms_dirty st) ! 0}" "sp_domain (ms_dirty st) ! 0 \<in> sparse_set (ms_dirty st)"
      "card (sparse_set dt) < card (sparse_set (ms_dirty st))" "sp_max dt = sp_max (ms_dirty st)"
      using sparse.erase_first [OF d(8) it] by blast
    have "sp_domain (ms_dirty st) ! 0 \<in> {0..<int (length (ms_regions st))}" using dt(4) d(11) by blast
    then have ir: "sp_domain (ms_dirty st) ! 0 = int r" and rl: "r < length (ms_regions st)" "r < length (ms_writes st)"
      using d(2) by (simp_all add: r_def nat_less_iff)
    have wi: "writes_inv (ms_writes st ! r)" using d(7) rl by simp
    show ?thesis
    proof (cases "marked_cells (ms_writes st ! r) = {}")
      case True
      let ?st = "st\<lparr>ms_writes := (ms_writes st)[r := ms_writes st ! r], ms_dirty := dt\<rparr>"
      have "popWrite st = popWrite ?st"
        using False rl dt(1) ir writes_pop_unmarked [OF wi True]
        by (subst popWrite.simps) (simp add: r_def [symmetric] Let_def)
      moreover have inv: "ms_inv live ?st"
      proof (rule ms_inv_write [OF less.prems rl(1) wi refl dt(2) dt(6)])
        show "sparse_set dt \<subseteq> {0..<int (length (ms_regions st))}" using dt(3) d(11) by auto
        show "int r' \<in> sparse_set dt"
          if "r' < length (ms_regions st)" "r' \<noteq> r" "marked_cells (ms_writes st ! r') \<noteq> {}" for r'
          using that d(2) d(12) [of r'] dt(3) ir by simp
      qed (use True in simp)
      moreover have "card (sparse_set (ms_dirty ?st)) < card (sparse_set (ms_dirty st))" using dt(5) by simp
      moreover have mk: "mark ?st r' c = mark st r' c" for r' c by (simp add: mark_def)
      moreover have "popped ?st st' res = popped st st' res" for st' res
        unfolding popped_def mk by (cases res) simp_all
      ultimately show ?thesis using less.hyps [of ?st] by metis
    next
      case ne: False
      let ?w = "ms_writes st ! r"
      obtain mid n w' where w': "writes_pop ?w = Inr (Some (mid, w_min ?w, n), w')" "writes_inv w'" "0 < n"
        "{w_min ?w..<w_min ?w + n} \<subseteq> marked_cells ?w" "\<forall>i \<in> {w_min ?w..<w_min ?w + n}. w_memory ?w ! i = mid + 1"
        "w_min ?w + n < length (w_memory ?w) \<longrightarrow> w_memory ?w ! (w_min ?w + n) \<noteq> mid + 1"
        "w_memory w' = fill_zero (w_min ?w) (w_min ?w + n) (w_memory ?w)"
        using writes_pop_spec [OF wi ne] by blast
      let ?a = "w_min ?w" and ?G = "2 ^ ms_msgGrainPower st"
      let ?st = "st\<lparr>ms_writes := (ms_writes st)[r := w']\<rparr>"
      let ?st2 = "st\<lparr>ms_writes := (ms_writes st)[r := w'], ms_dirty := ms_dirty st\<rparr>"
      have eq: "popWrite st = Some (Inr (?st, Some (mid, rg_base (ms_regions st ! r) + ?a * ?G, n * ?G)))"
        using False rl w'(1) by (subst popWrite.simps) (simp add: r_def [symmetric] Let_def push_bit_eq_mult)
      have "ms_inv live ?st2"
      proof (rule ms_inv_write [OF less.prems rl(1) w'(2) _ d(8) refl d(11)])
        show "int r' \<in> sparse_set (ms_dirty st)"
          if "r' < length (ms_regions st)" "marked_cells (ms_writes st ! r') \<noteq> {}" for r'
          using that d(2) d(12) by simp
        show "int r \<in> sparse_set (ms_dirty st)" using dt(4) ir by simp
      qed (simp add: w'(7))
      then have inv: "ms_inv live ?st" by simp
      have "mark ?st2 r' c = (if r' = r \<and> c \<in> {?a..<?a + n} then 0 else mark st r' c)" for r' c
        unfolding mark_update [OF rl(2)] using rl(2) by (auto simp: w'(7) nth_fill_zero) (auto simp: mark_def)
      then have mk: "mark ?st r' c = (if r' = r \<and> c \<in> {?a..<?a + n} then 0 else mark st r' c)" for r' c
        by simp
      have on: "mark st r c = mid + 1 \<and> mid + 1 \<noteq> 0" if "c \<in> {?a..<?a + n}" for c
        using that w'(4,5) rl(2) by (auto simp: mark_def marked_cells_def)
      have v0: "mid + 1 \<noteq> 0" using on [of ?a] w'(3) by simp
      have off: "mark st r (?a + n) \<noteq> mid + 1" using w'(6) v0 by (simp add: mark_def)
      have "popped st ?st (Some (mid, rg_base (ms_regions st ! r) + ?a * ?G, n * ?G))"
        unfolding popped_def option.case prod.case
        using rl(1) w'(3) on off mk by blast
      then show ?thesis using eq inv by blast
    qed
  qed
qed

subsection \<open>\<open>canWrite\<close>\<close>

lemma canWrite_spec:
  assumes inv: "ms_inv live st" and s: "slot \<in> live" and off: "offset \<le> sl_size (ms_memslots st ! slot)"
    and start: "start = sr_offset (ms_slotToRegion st ! slot) + offset"
  shows "canWrite st mid slot offset =
    Inr (mark st (sr_region (ms_slotToRegion st ! slot)) (start div 2 ^ ms_msgGrainPower st) \<le> mid)"
proof -
  note d = ms_invD [OF inv]
  obtain x where sl: "slot < length (ms_memslots st)" and x: "x \<in> set (ms_sortedRegions st)" "slot_in st slot x"
    using d(6) [OF s] by blast
  let ?p = "ms_msgGrainPower st" and ?r = "sr_region (ms_slotToRegion st ! slot)"
  have r: "?r < length (ms_writes st)" and len: "length (w_memory (ms_writes st ! ?r)) = drop_bit ?p (rg_size x)"
    and xc: "rg_base x + rg_size x \<le> cells_max"
    using x d(5) [OF x(1)] d(2) by (simp_all add: slot_in_def region_ok_def)
  have "rg_base x \<le> sl_base (ms_memslots st ! slot)"
    "sl_base (ms_memslots st ! slot) + sl_size (ms_memslots st ! slot) \<le> rg_base x + rg_size x"
    "start = sl_base (ms_memslots st ! slot) - rg_base x + offset"
    using x(2) start by (simp_all add: slot_in_def)
  then have le: "start \<le> rg_size x" using off by linarith
  then have "start \<le> cells_max" using xc by simp
  then have "add64 (sr_offset (ms_slotToRegion st ! slot)) offset = start"
    using start cells_max_less [of start] by (simp add: add64_plain)
  moreover have "drop_bit ?p start \<le> length (w_memory (ms_writes st ! ?r))" unfolding len by (rule drop_bit_mono [OF le])
  ultimately show ?thesis using sl d(1) r
    by (auto simp: canWrite_def Let_def writes_test_def mark_def drop_bit_eq_div [symmetric])
qed

subsection \<open>\<open>clear\<close>\<close>

lemma writes_clear_spec:
  assumes "writes_inv w"
  shows "\<exists>w'. writes_clear w = Inr w' \<and> w_min w' = SIZE_MAX \<and> w_max w' = 0 \<and>
     length (w_memory w') = length (w_memory w) \<and>
     marked_cells w' = (if w_min w = w_max w then marked_cells w else {})"
  using assms
proof (cases rule: writes_inv_cases)
  case none
  have "w_min w \<noteq> w_max w" "\<not> w_min w < w_max w" using none by auto
  then show ?thesis using none by (auto simp: writes_clear_def marked_cells_def)
next
  case some
  let ?mem = "w_memory w"
  have lt: "w_max w < length ?mem" using some(2) by (simp add: marked_cells_def)
  have a: "add64 (w_max w) 1 = w_max w + 1"
    using lt cells_max_less [OF writes_inv_length [OF assms]] by (intro add64_plain) simp
  show ?thesis
  proof (cases "w_min w = w_max w")
    case True
    then show ?thesis by (auto simp: writes_clear_def marked_cells_def)
  next
    case False
    then have "writes_clear w = Inr (w\<lparr>w_memory := fill_zero (w_min w) (w_max w + 1) ?mem, w_min := SIZE_MAX, w_max := 0\<rparr>)"
      using some(3) lt a by (simp add: writes_clear_def)
    moreover have "{i. i < length ?mem \<and> fill_zero (w_min w) (w_max w + 1) ?mem ! i \<noteq> 0} = {}"
      using some(4) by (auto simp: nth_fill_zero marked_cells_def less_Suc_eq_le split: if_splits)
    ultimately show ?thesis using False by (simp add: marked_cells_def)
  qed
qed

lemma marked_single:
  assumes "writes_inv w"
  shows "w_min w = w_max w \<longleftrightarrow> card (marked_cells w) = 1"
  using assms
proof (cases rule: writes_inv_cases)
  case none
  then show ?thesis by simp
next
  case some
  have fin: "finite (marked_cells w)" by (simp add: marked_cells_def)
  show ?thesis
  proof
    assume "w_min w = w_max w"
    then have "marked_cells w = {w_min w}" using some by fastforce
    then show "card (marked_cells w) = 1" by simp
  next
    assume "card (marked_cells w) = 1"
    then show "w_min w = w_max w" using some(1,2) by (metis card_1_singletonE singletonD)
  qed
qed

lemma clear_all_spec:
  assumes "\<forall>w \<in> set ws. writes_inv w"
  shows "\<exists>ws'. clear_all ws = Inr ws' \<and> length ws' = length ws \<and>
     (\<forall>r < length ws. writes_clear (ws ! r) = Inr (ws' ! r))"
  using assms
proof (induction ws)
  case (Cons w ws)
  obtain ws' where "clear_all ws = Inr ws'" "length ws' = length ws" "\<forall>r < length ws. writes_clear (ws ! r) = Inr (ws' ! r)"
    using Cons by auto
  moreover obtain w' where "writes_clear w = Inr w'" using writes_clear_spec [of w] Cons.prems by auto
  ultimately show ?case by (auto simp: nth_Cons split: nat.splits)
qed simp

section \<open>Properties\<close>

text \<open>A sorter with three slots, two overlapping areas registered, for the witnesses.\<close>

lemma demo_sort_ex:
  "\<exists>st. ms_inv {0, 2} st \<and> ms_msgGrainPower st = 4 \<and> length (ms_memslots st) = 3 \<and>
     ms_memslots st ! 0 = \<lparr>sl_slot = 0, sl_base = 100, sl_size = 64\<rparr> \<and>
     ms_memslots st ! 2 = \<lparr>sl_slot = 2, sl_base = 140, sl_size = 60\<rparr>"
proof -
  define s0 where "s0 = fst (setSlotRange (\<lambda>_. True) (message_sort_new 4) 3)"
  have i0: "ms_inv {} (message_sort_new 4)" by (rule ms_inv_new) simp
  have "setSlotRange (\<lambda>_. True) (message_sort_new 4) 3 = (s0, None)"
    by (simp add: s0_def setSlotRange_def resize_ok_def Let_def)
  note s0 = setSlotRange_inv [OF i0 _ this]
  have s0': "ms_inv {} s0" "length (ms_memslots s0) = 3" using s0 by (simp_all add: message_sort_new_def)
  have r0: "ms_regions s0 = []" "ms_msgGrainPower s0 = 4"
    by (simp_all add: s0_def setSlotRange_def resize_ok_def message_sort_new_def)
  obtain s1 where s1: "ms_inv {0} s1" "ms_msgGrainPower s1 = 4"
    "ms_memslots s1 = (ms_memslots s0)[0 := \<lparr>sl_slot = 0, sl_base = 100, sl_size = 64\<rparr>]"
    "length (ms_regions s1) \<le> 1"
    using addRegister_spec [OF s0'(1), of 0 100 64 "\<lambda>_. True"] s0' r0
    by (auto simp: cells_max_def regions_max_def)
  obtain s2 where "ms_inv (insert 2 {0}) s2" "ms_msgGrainPower s2 = 4"
    "ms_memslots s2 = (ms_memslots s1)[2 := \<lparr>sl_slot = 2, sl_base = 140, sl_size = 60\<rparr>]"
    using addRegister_spec [OF s1(1), of 2 140 60 "\<lambda>_. True"] s0' s1
    by (auto simp: cells_max_def regions_max_def)
  then show ?thesis using s0' s1(3) by (auto simp: insert_commute intro!: exI [of _ s2])
qed

text \<open>
  C38: Registering an area of memory at a slot, with room for the slot, keeps the invariant of
  the sorter: the regions stay sorted and pairwise apart, cover exactly the old bytes and those of
  the new area, and every registered slot, old or new, lies within the region it points to, at the
  recorded offset.
\<close>

theorem addRegister_correct:
  assumes "ms_inv live st" and "i < length (ms_memslots st)" and "base + sz \<le> cells_max"
    and "length (ms_regions st) \<le> regions_max" and "\<And>k. ok k"
  shows "\<exists>st'. addRegister ok st i base sz = Inr st' \<and> ms_inv (insert i live) st' \<and>
     ms_memslots st' = (ms_memslots st)[i := \<lparr>sl_slot = i, sl_base = base, sl_size = sz\<rparr>] \<and>
     covered (ms_sortedRegions st') = covered (ms_sortedRegions st) \<union> {base..base + sz}"
  using addRegister_spec [of live st i base sz ok, OF assms] by blast

theorem addRegister_correct_witness:
  "\<exists>st. addRegister (\<lambda>_. True) (fst (setSlotRange (\<lambda>_. True) (message_sort_new 4) 3)) 2 100 64 = Inr st \<and>
     ms_inv {2} st \<and> covered (ms_sortedRegions st) = {100..164}"
proof -
  define s0 where "s0 = fst (setSlotRange (\<lambda>_. True) (message_sort_new 4) 3)"
  have i0: "ms_inv {} (message_sort_new 4)" by (rule ms_inv_new) simp
  have "setSlotRange (\<lambda>_. True) (message_sort_new 4) 3 = (s0, None)"
    by (simp add: s0_def setSlotRange_def resize_ok_def Let_def)
  note s0 = setSlotRange_inv [OF i0 _ this]
  have s0': "ms_inv {} s0" "length (ms_memslots s0) = 3" using s0 by (simp_all add: message_sort_new_def)
  have r0: "ms_regions s0 = []" "ms_sortedRegions s0 = []"
    by (simp_all add: s0_def setSlotRange_def resize_ok_def message_sort_new_def)
  show ?thesis using addRegister_correct [OF s0'(1), of 2 100 64 "\<lambda>_. True"] s0' r0
    by (auto simp: s0_def [symmetric] cells_max_def regions_max_def covered_def)
qed

text \<open>
  C37: \<open>pushWrite\<close> of a write within a registered slot that spans a whole grain trims it to the
  grain boundaries of the region, marks exactly the grains in between, and there the
  message of the higher identifier wins: a cell changes if and only if its mark does not
  exceed the identifier.
\<close>

theorem pushWrite_correct:
  assumes "ms_inv live st" and "slot \<in> live" and "ms_msgGrainPower st \<le> 60" and "mid < MAX_ID"
    and "offset + sz \<le> sl_size (ms_memslots st ! slot)"
    and "G = 2 ^ ms_msgGrainPower st"
    and "start = sr_offset (ms_slotToRegion st ! slot) + offset"
    and "diff = grain_diff (ms_msgGrainPower st) start"
    and "diff + G \<le> sz"
  shows "\<exists>st' r. pushWrite st mid slot offset sz = Inr (st', offset + diff, (sz - diff) div G * G) \<and> ms_inv live st' \<and>
     r = sr_region (ms_slotToRegion st ! slot) \<and> (start + diff) mod G = 0 \<and> diff < G \<and>
     (\<forall>r' c. mark st' r' c =
        (if r' = r \<and> (start + diff) div G \<le> c \<and> c < (start + sz) div G \<and> mark st r c \<le> mid then mid + 1 else mark st r' c))"
proof -
  have "diff < G"
  proof (rule ccontr)
    assume "\<not> diff < G"
    then show False using assms(6,8) by (simp add: grain_diff_def Let_def)
  qed
  then show ?thesis using pushWrite_spec [OF assms] by metis
qed

theorem pushWrite_correct_witness:
  "\<exists>st st' o' s'. ms_inv {0, 2} st \<and> pushWrite st 7 2 5 50 = Inr (st', o', s') \<and> ms_inv {0, 2} st'"
proof -
  obtain st where st: "ms_inv {0, 2} st" "ms_msgGrainPower st = 4"
    "ms_memslots st ! 2 = \<lparr>sl_slot = 2, sl_base = 140, sl_size = 60\<rparr>"
    using demo_sort_ex by blast
  define start where "start = sr_offset (ms_slotToRegion st ! 2) + 5"
  have d: "grain_diff (ms_msgGrainPower st) start + 16 \<le> 50"
    by (simp add: grain_diff_def Let_def st(2))
  show ?thesis
    using pushWrite_correct [OF st(1) _ _ _ _ _ start_def refl, of 7 50 16] st d
    by (fastforce simp: MAX_ID_def)
qed

text \<open>
  C36: \<open>popWrite\<close> terminates and keeps the invariant.  When it returns false no cell is marked
  and the dirty list is empty; otherwise it returns a non-empty run of grains that carry the
  identifier it returns, at their address, which ends at a cell of another message, and removes exactly
  their marks.
\<close>

theorem popWrite_correct:
  assumes "ms_inv live st"
  shows "\<exists>st' res. popWrite st = Some (Inr (st', res)) \<and> ms_inv live st' \<and> popped st st' res"
  by (rule popWrite_spec [OF assms])

theorem popWrite_correct_witness:
  "\<exists>st st' res. ms_inv {0, 2} st \<and> popWrite st = Some (Inr (st', res)) \<and> popped st st' res"
proof -
  obtain st where "ms_inv {0, 2} st" using demo_sort_ex by blast
  from popWrite_correct [OF this] this show ?thesis by blast
qed

text \<open>
  \<open>canWrite\<close> is true exactly when no pending write of the same or a higher identifier
  covers the grain of the offset.
\<close>

theorem canWrite_correct:
  assumes "ms_inv live st" and "slot \<in> live" and "offset \<le> sl_size (ms_memslots st ! slot)"
    and "start = sr_offset (ms_slotToRegion st ! slot) + offset"
  shows "canWrite st mid slot offset =
    Inr (mark st (sr_region (ms_slotToRegion st ! slot)) (start div 2 ^ ms_msgGrainPower st) \<le> mid)"
  by (rule canWrite_spec [OF assms])

theorem canWrite_correct_witness:
  "\<exists>st b. ms_inv {0, 2} st \<and> canWrite st 7 2 5 = Inr b"
proof -
  obtain st where st: "ms_inv {0, 2} st" "ms_memslots st ! 2 = \<lparr>sl_slot = 2, sl_base = 140, sl_size = 60\<rparr>"
    using demo_sort_ex by blast
  show ?thesis using canWrite_correct [OF st(1) _ _ refl, of 2 5 7] st by auto
qed

text \<open>
  \<open>clear\<close> empties the dirty list and erases the marks of every region but those with exactly
  one marked cell, whose mark stays behind although the sorter now reports to be empty.
\<close>

theorem message_sort_clear_forgets:
  assumes "ms_inv live st"
  shows "\<exists>st'. message_sort_clear st = Inr st' \<and> message_sort_empty st' \<and>
     (\<forall>r c. mark st' r c = (if card {c. mark st r c \<noteq> 0} = 1 then mark st r c else 0))"
proof -
  note d = ms_invD [OF assms]
  obtain ws' where ws': "clear_all (ms_writes st) = Inr ws'" "length ws' = length (ms_writes st)"
    "\<forall>r < length (ms_writes st). writes_clear (ms_writes st ! r) = Inr (ws' ! r)"
    using clear_all_spec [of "ms_writes st"] d(7) by auto
  let ?st = "st\<lparr>ms_dirty := sparse_clear (ms_dirty st), ms_writes := ws'\<rparr>"
  have cl: "message_sort_clear st = Inr ?st" using ws'(1) by (simp add: message_sort_clear_def)
  have "mark ?st r c = (if card {c. mark st r c \<noteq> 0} = 1 then mark st r c else 0)" for r c
  proof (cases "r < length (ms_writes st)")
    case True
    let ?w = "ms_writes st ! r"
    have set: "{c. mark st r c \<noteq> 0} = marked_cells ?w" using True by (auto simp: mark_nonzero)
    have wi: "writes_inv ?w" using True d(7) by simp
    obtain w' where w': "writes_clear ?w = Inr w'" "length (w_memory w') = length (w_memory ?w)"
      "marked_cells w' = (if w_min ?w = w_max ?w then marked_cells ?w else {})"
      using writes_clear_spec [OF wi] by blast
    have m: "ws' ! r = w'" using ws'(3) True w'(1) by simp
    show ?thesis
    proof (cases "card (marked_cells ?w) = 1")
      case single: True
      then have "w_min ?w = w_max ?w" using marked_single [OF wi] by simp
      then have "w_memory w' = w_memory ?w" using w'(1) by (auto simp: writes_clear_def)
      then show ?thesis using single set m ws'(2) True by (simp add: mark_def)
    next
      case False
      then have "marked_cells w' = {}" using w'(3) marked_single [OF wi] by simp
      then have "mark ?st r c = 0" using m mark_nonzero [of ?st r c] by auto
      then show ?thesis using False set by simp
    qed
  next
    case False
    then show ?thesis using ws'(2) by (simp add: mark_def)
  qed
  then show ?thesis using cl by (auto simp: message_sort_empty_def sparse_is_empty_def sparse_clear_def)
qed

theorem message_sort_clear_forgets_witness:
  "\<exists>st st'. ms_inv {0, 2} st \<and> message_sort_clear st = Inr st' \<and> message_sort_empty st'"
proof -
  obtain st where "ms_inv {0, 2} st" using demo_sort_ex by blast
  from message_sort_clear_forgets [OF this] this show ?thesis by blast
qed

lemma pop_run_overrun:
  "i < length mem \<Longrightarrow> length mem \<le> mx \<Longrightarrow> \<forall>k < length mem. mem ! k = v \<Longrightarrow> v = 0 \<Longrightarrow>
   pop_run mx v i mem = Inl OutOfBounds"
proof (induction mx v i mem rule: pop_run.induct)
  case (1 mx v i mem)
  have same: "mem[i := 0] = mem" using "1.prems" by (metis list_update_id)
  show ?case
  proof (cases "i + 1 < length mem")
    case True
    have s: "pop_run mx v i mem = pop_run mx v (i + 1) mem"
      using True "1.prems" same by (subst pop_run.simps) (simp add: Let_def)
    have "pop_run mx v (i + 1) mem = Inl OutOfBounds"
      using "1.IH" [of mem "i + 1"] True "1.prems" same by simp
    then show ?thesis using s by simp
  next
    case False
    then show ?thesis using "1.prems" by (subst pop_run.simps) (simp add: Let_def)
  qed
qed

text \<open>
  Pushing a write of less than a grain (zero cells) at the start of a region records
  \<open>SIZE_MAX\<close> as the last marked cell, and the next \<open>pop\<close> then reads past the end of the cells.
\<close>

theorem writes_zero_push_overruns:
  assumes "0 < n"
  shows "\<exists>w. writes_push (writes_new n) mid 0 0 = Inr w \<and> w_max w = SIZE_MAX \<and>
    (n \<le> cells_max \<longrightarrow> writes_pop w = Inl OutOfBounds)"
proof -
  let ?w = "\<lparr>w_min = 0, w_max = SIZE_MAX, w_memory = replicate n 0\<rparr> :: writes"
  have "add64 0 0 = 0" "sub64 0 (Suc 0) = SIZE_MAX" by (simp_all add: add64_def sub64_def SIZE_MAX_def)
  then have p: "writes_push (writes_new n) mid 0 0 = Inr ?w"
    by (simp add: writes_push_def writes_new_def push_cells_def)
  have "pop_run SIZE_MAX 0 0 (replicate n 0) = Inl OutOfBounds" if "n \<le> cells_max"
    using that assms cells_max_less by (intro pop_run_overrun) (auto simp: less_imp_le)
  then have "writes_pop ?w = Inl OutOfBounds" if "n \<le> cells_max"
    using that assms by (simp add: writes_pop_def SIZE_MAX_def Let_def)
  then show ?thesis using p by auto
qed

theorem writes_zero_push_overruns_witness:
  "\<exists>w. writes_push (writes_new 4) 5 0 0 = Inr w \<and> writes_pop w = Inl OutOfBounds"
  using writes_zero_push_overruns [of 4 5] by (auto simp: cells_max_def)

end
