(* ===== verification/Ibverbs_Rma.thy ===== *)
theory Ibverbs_Rma imports Ibverbs begin

text \<open>
  The one-sided transfers of \<open>IBVerbs\<close> (\<open>src/MPI/ibverbs.cpp\<close>): \<open>put\<close>, \<open>get\<close> and the two atomic
  operations.  Each builds a list of work requests, counts one message, announces one event to its
  task, and posts the list; only the last request of a list is signalled and carries the number of
  the superstep to the other side.  The effect of a work request is the device's; what is
  proved is which requests are posted.
\<close>

section \<open>Work requests\<close>

text \<open>What all requests of a transfer have in common.\<close>

record transfer =
  x_max :: nat
  x_local :: addr
  x_remote :: addr
  x_lkey :: nat
  x_rkey :: nat
  x_task :: task
  x_pid :: nat
  x_imm :: "32 word"

definition put_wr :: "transfer \<Rightarrow> bool \<Rightarrow> nat \<Rightarrow> nat \<Rightarrow> nat \<Rightarrow> send_wr" where
  "put_wr x lastMsg srcOffset dstOffset len =
     \<lparr>wr_id = x_task x,
      opcode = (if lastMsg then RDMA_WRITE_WITH_IMM else RDMA_WRITE),
      signaled = lastMsg, num_sge = 1,
      wr_sge = \<lparr>sge_addr = add64 (x_local x) srcOffset, sge_length = len, sge_lkey = x_lkey x\<rparr>,
      imm_data = x_imm x, remote_addr = add64 (x_remote x) dstOffset, rkey = x_rkey x,
      compare_add = 0, swap_value = 0\<rparr>"

text \<open>The loops; the first argument counts the requests that are left.  The length is a \<open>uint32_t\<close>.\<close>

fun put_loop :: "nat \<Rightarrow> transfer \<Rightarrow> nat \<Rightarrow> nat \<Rightarrow> nat \<Rightarrow> send_wr list" where
  "put_loop 0 x sz srcOffset dstOffset = []"
| "put_loop (Suc k) x sz srcOffset dstOffset =
     (let len = min sz (x_max x) mod 2 ^ 32 in
      put_wr x (k = 0) srcOffset dstOffset len #
      put_loop k x (sub64 sz len) (add64 srcOffset len) (add64 dstOffset len))"

definition get_wr :: "transfer \<Rightarrow> nat \<Rightarrow> nat \<Rightarrow> nat \<Rightarrow> send_wr" where
  "get_wr x srcOffset dstOffset len =
     \<lparr>wr_id = x_pid x, opcode = RDMA_READ, signaled = False, num_sge = 1,
      wr_sge = \<lparr>sge_addr = add64 (x_local x) dstOffset, sge_length = len, sge_lkey = x_lkey x\<rparr>,
      imm_data = 0, remote_addr = add64 (x_remote x) srcOffset, rkey = x_rkey x,
      compare_add = 0, swap_value = 0\<rparr>"

fun get_loop :: "nat \<Rightarrow> transfer \<Rightarrow> nat \<Rightarrow> nat \<Rightarrow> nat \<Rightarrow> send_wr list" where
  "get_loop 0 x sz srcOffset dstOffset = []"
| "get_loop (Suc k) x sz srcOffset dstOffset =
     (let len = min sz (x_max x) mod 2 ^ 32 in
      get_wr x srcOffset dstOffset len #
      get_loop k x (sub64 sz len) (add64 srcOffset len) (add64 dstOffset len))"

text \<open>The extra request after a \<open>get\<close> or an atomic operation: an empty write with the immediate.\<close>

definition notify_wr :: "transfer \<Rightarrow> addr \<Rightarrow> addr \<Rightarrow> nat \<Rightarrow> nat \<Rightarrow> send_wr" where
  "notify_wr x localAddr remoteAddr lk rk =
     \<lparr>wr_id = x_task x, opcode = RDMA_WRITE_WITH_IMM, signaled = True, num_sge = 0,
      wr_sge = \<lparr>sge_addr = localAddr, sge_length = 0, sge_lkey = lk\<rparr>,
      imm_data = x_imm x, remote_addr = remoteAddr, rkey = rk, compare_add = 0, swap_value = 0\<rparr>"

definition atomic_wr :: "transfer \<Rightarrow> wr_opcode \<Rightarrow> addr \<Rightarrow> addr \<Rightarrow> nat \<Rightarrow> nat \<Rightarrow> send_wr" where
  "atomic_wr x oc localAddr remoteAddr compare swp =
     \<lparr>wr_id = 0, opcode = oc, signaled = False, num_sge = 1,
      wr_sge = \<lparr>sge_addr = localAddr, sge_length = 8, sge_lkey = x_lkey x\<rparr>,
      imm_data = 0, remote_addr = remoteAddr, rkey = x_rkey x, compare_add = compare, swap_value = swp\<rparr>"

section \<open>Operations\<close>

text \<open>\<open>int numMsgs = size / m_maxMsgSize + (size % m_maxMsgSize > 0)\<close>\<close>

definition msg_count :: "nat \<Rightarrow> nat \<Rightarrow> int" where
  "msg_count mx sz = sint (word_of_nat (sz div mx + (if sz mod mx > 0 then 1 else 0)) :: 32 word)"

definition count_msg :: "nat \<Rightarrow> int \<Rightarrow> ibverbs \<Rightarrow> ibverbs" where
  "count_msg pid d s =
     s\<lparr>m_numMsgs := m_numMsgs s + d, m_numMsgsSync := (m_numMsgsSync s)[pid := m_numMsgsSync s ! pid + d]\<rparr>"

text \<open>Posting a list of requests; when that fails the message is not counted any more.\<close>

definition post_or_undo :: "nat \<Rightarrow> send_wr list \<Rightarrow> unit verbs" where
  "post_or_undo pid wrs =
     bindA getA (\<lambda>s.
     bindA (throw_if (m_connectedQps s ! pid = None) NullDereference) (\<lambda>_.
     bindA (callA (PostSend (the (m_connectedQps s ! pid)) wrs)) (\<lambda>err.
     if the_err err \<noteq> 0
     then bindA (modA (count_msg pid (-1))) (\<lambda>_.
          throwA (Exception ''Error while posting RDMA requests''))
     else retA ())))"

definition lookup_slot :: "slot \<Rightarrow> mem_slot verbs" where
  "lookup_slot i = liftA (\<lambda>s. combined_lookup (m_memreg s) i)"

text \<open>\<open>alpi_task_self\<close> and \<open>alpi_task_events_increase\<close>; errors of these are only logged.\<close>

definition announce :: "task verbs" where
  "announce =
     bindA (callA TaskSelf) (\<lambda>t.
     bindA (callA (EventsIncrease (the_task t) 1)) (\<lambda>_. retA (the_task t)))"

definition put :: "slot \<Rightarrow> nat \<Rightarrow> nat \<Rightarrow> slot \<Rightarrow> nat \<Rightarrow> nat \<Rightarrow> unit verbs" where
  "put srcSlot srcOffset dstPid dstSlot dstOffset sz =
     bindA (lookup_slot srcSlot) (\<lambda>src.
     bindA (lookup_slot dstSlot) (\<lambda>dst.
     bindA (assertA (slot_mr src \<noteq> None)) (\<lambda>_.
     bindA getA (\<lambda>s.
     bindA (throw_if (m_maxMsgSize s = 0) DivisionByZero) (\<lambda>_.
     let numMsgs = (if sz = 0 then 1 else msg_count (m_maxMsgSize s) sz) in
     bindA (throw_if (numMsgs \<le> 0) OutOfBounds) (\<lambda>_.
     bindA (modA (count_msg dstPid 1)) (\<lambda>_.
     bindA announce (\<lambda>task.
     bindA (liftA (\<lambda>_. vec_at (glob src) (m_pid s))) (\<lambda>l.
     bindA (liftA (\<lambda>_. vec_at (glob dst) dstPid)) (\<lambda>r.
     post_or_undo dstPid
       (put_loop (nat numMsgs)
          \<lparr>x_max = m_maxMsgSize s, x_local = reg_addr l, x_remote = reg_addr r,
           x_lkey = mr_lkey (the (slot_mr src)), x_rkey = reg_rkey r, x_task = task, x_pid = m_pid s,
           x_imm = m_sync_counter s\<rparr> sz srcOffset dstOffset)))))))))))"

definition get :: "nat \<Rightarrow> slot \<Rightarrow> nat \<Rightarrow> slot \<Rightarrow> nat \<Rightarrow> nat \<Rightarrow> unit verbs" where
  "get srcPid srcSlot srcOffset dstSlot dstOffset sz =
     bindA (lookup_slot srcSlot) (\<lambda>src.
     bindA (lookup_slot dstSlot) (\<lambda>dst.
     bindA (assertA (slot_mr dst \<noteq> None)) (\<lambda>_.
     bindA getA (\<lambda>s.
     bindA (throw_if (m_maxMsgSize s = 0) DivisionByZero) (\<lambda>_.
     let numMsgs = msg_count (m_maxMsgSize s) sz in
     bindA (throw_if (numMsgs < 0) OutOfBounds) (\<lambda>_.
     bindA (modA (count_msg srcPid 1)) (\<lambda>_.
     bindA (liftA (\<lambda>_. vec_at (glob dst) (m_pid s))) (\<lambda>l.
     bindA (liftA (\<lambda>_. vec_at (glob src) srcPid)) (\<lambda>r.
     bindA announce (\<lambda>task.
     let x = \<lparr>x_max = m_maxMsgSize s, x_local = reg_addr l, x_remote = reg_addr r,
              x_lkey = mr_lkey (the (slot_mr dst)), x_rkey = reg_rkey r, x_task = task, x_pid = m_pid s,
              x_imm = m_sync_counter s\<rparr> in
     post_or_undo srcPid
       (get_loop (nat numMsgs) x sz srcOffset dstOffset @
        [notify_wr x (reg_addr l) (reg_addr r) (x_lkey x) (x_rkey x)])))))))))))"

text \<open>
  The atomic operations have the same body; the handle of the source is dereferenced, the one of the
  destination is checked.  The request that notifies takes its key from the registration of the source.
\<close>

definition atomic_op :: "wr_opcode \<Rightarrow> nat \<Rightarrow> nat \<Rightarrow> slot \<Rightarrow> nat \<Rightarrow> nat \<Rightarrow> slot \<Rightarrow> nat \<Rightarrow> unit verbs" where
  "atomic_op oc compare swp srcSlot srcOffset dstPid dstSlot dstOffset =
     bindA (lookup_slot srcSlot) (\<lambda>src.
     bindA (lookup_slot dstSlot) (\<lambda>dst.
     bindA (assertA (slot_mr dst \<noteq> None)) (\<lambda>_.
     bindA getA (\<lambda>s.
     bindA announce (\<lambda>task.
     bindA (modA (count_msg dstPid 1)) (\<lambda>_.
     bindA (liftA (\<lambda>_. vec_at (glob src) (m_pid s))) (\<lambda>l.
     bindA (liftA (\<lambda>_. vec_at (glob dst) dstPid)) (\<lambda>r.
     bindA (throw_if (slot_mr src = None) NullDereference) (\<lambda>_.
     bindA (liftA (\<lambda>_. vec_at (glob src) dstPid)) (\<lambda>r2.
     let x = \<lparr>x_max = m_maxMsgSize s, x_local = reg_addr l, x_remote = reg_addr r,
              x_lkey = mr_lkey (the (slot_mr src)), x_rkey = reg_rkey r, x_task = task, x_pid = m_pid s,
              x_imm = m_sync_counter s\<rparr>;
         localAddr = add64 (reg_addr l) srcOffset; remoteAddr = add64 (reg_addr r) dstOffset in
     post_or_undo dstPid
       [atomic_wr x oc localAddr remoteAddr compare swp,
        notify_wr x localAddr remoteAddr (mr_lkey (the (slot_mr dst))) (reg_rkey r2)]))))))))))"

definition atomic_fetch_and_add :: "slot \<Rightarrow> nat \<Rightarrow> nat \<Rightarrow> slot \<Rightarrow> nat \<Rightarrow> nat \<Rightarrow> unit verbs" where
  "atomic_fetch_and_add srcSlot srcOffset dstPid dstSlot dstOffset v =
     atomic_op ATOMIC_FETCH_AND_ADD v 0 srcSlot srcOffset dstPid dstSlot dstOffset"

definition atomic_cmp_and_swp :: "slot \<Rightarrow> nat \<Rightarrow> nat \<Rightarrow> slot \<Rightarrow> nat \<Rightarrow> nat \<Rightarrow> nat \<Rightarrow> unit verbs" where
  "atomic_cmp_and_swp srcSlot srcOffset dstPid dstSlot dstOffset cmp swp =
     atomic_op ATOMIC_CMP_AND_SWP cmp swp srcSlot srcOffset dstPid dstSlot dstOffset"

section \<open>The requests of a transfer\<close>

text \<open>The closed form of the loops: request \<open>i\<close> moves the bytes from \<open>i * max\<close> on.\<close>

definition part_len :: "nat \<Rightarrow> nat \<Rightarrow> nat \<Rightarrow> nat" where
  "part_len mx sz i = min (sz - i * mx) mx"

definition parts :: "nat \<Rightarrow> nat \<Rightarrow> nat" where
  "parts mx sz = sz div mx + (if sz mod mx > 0 then 1 else 0)"

lemma parts_bound: "0 < mx \<Longrightarrow> i < parts mx sz \<longleftrightarrow> i * mx < sz"
proof -
  assume mx: "0 < mx"
  have d: "sz = sz div mx * mx + sz mod mx" and m: "sz mod mx < mx" using mx by simp_all
  show ?thesis
  proof (cases "i < sz div mx")
    case True
    then have "Suc i * mx \<le> sz div mx * mx" by (intro mult_le_mono1) simp
    then have "i * mx < sz" using d mx unfolding mult_Suc by linarith
    then show ?thesis using True by (simp add: parts_def)
  next
    case False
    show ?thesis
    proof (cases "i = sz div mx")
      case True
      then have "i * mx < sz \<longleftrightarrow> 0 < sz mod mx" by (simp flip: minus_div_mult_eq_mod)
      then show ?thesis using True by (simp add: parts_def)
    next
      case no: False
      then have "Suc (sz div mx) * mx \<le> i * mx" using False by (intro mult_le_mono1) simp
      then have "\<not> i * mx < sz" using d m unfolding mult_Suc by linarith
      then show ?thesis using False no by (simp add: parts_def)
    qed
  qed
qed

lemma parts_ge: "0 < mx \<Longrightarrow> (parts mx sz - 1) * mx \<le> sz"
  using parts_bound [of mx "parts mx sz - 1" sz] by (cases "parts mx sz = 0") auto

lemma parts_cover: "0 < mx \<Longrightarrow> sz \<le> parts mx sz * mx"
  using parts_bound [of mx "parts mx sz" sz] by simp

lemma msg_count_parts:
  assumes "parts mx sz < 2 ^ 31"
  shows "msg_count mx sz = int (parts mx sz)"
proof -
  have "sint (word_of_nat (parts mx sz) :: 32 word) = int (parts mx sz)"
    using assms by (simp add: signed_of_nat signed_take_bit_int_eq_self)
  then show ?thesis by (simp add: msg_count_def parts_def)
qed

lemma put_loop_closed:
  assumes "0 < x_max x" and "x_max x < 2 ^ 32" and "(k - 1) * x_max x \<le> sz"
    and "srcOffset + sz \<le> SIZE_MAX" "dstOffset + sz \<le> SIZE_MAX"
  shows "put_loop k x sz srcOffset dstOffset =
    List.map (\<lambda>i. put_wr x (Suc i = k) (srcOffset + i * x_max x) (dstOffset + i * x_max x) (part_len (x_max x) sz i)) [0..<k]"
  using assms
proof (induction k arbitrary: sz srcOffset dstOffset)
  case 0
  then show ?case by simp
next
  case (Suc k)
  have len: "min sz (x_max x) mod 2 ^ 32 = min sz (x_max x)" using Suc.prems(2) by (simp add: min_def)
  show ?case
  proof (cases "k = 0")
    case True
    then show ?thesis using len by (simp add: part_len_def Let_def)
  next
    case False
    then obtain j where k: "k = Suc j" by (cases k) auto
    have mx: "x_max x \<le> sz" "(k - 1) * x_max x \<le> sz - x_max x" using Suc.prems(3) by (simp_all add: k)
    have adds: "sub64 sz (x_max x) = sz - x_max x" "add64 srcOffset (x_max x) = srcOffset + x_max x"
      "add64 dstOffset (x_max x) = dstOffset + x_max x"
      using mx Suc.prems(4,5) by (simp_all add: sub64_plain add64_plain)
    have ih: "put_loop k x (sz - x_max x) (srcOffset + x_max x) (dstOffset + x_max x) =
      List.map (\<lambda>i. put_wr x (Suc i = k) (srcOffset + x_max x + i * x_max x) (dstOffset + x_max x + i * x_max x)
        (part_len (x_max x) (sz - x_max x) i)) [0..<k]"
      by (rule Suc.IH) (use Suc.prems mx in simp_all)
    have "min sz (x_max x) mod 2 ^ 32 = x_max x" using len mx by simp
    then show ?thesis
      unfolding put_loop.simps Let_def map_upt_Suc by (simp add: adds ih False part_len_def mx(1) add.assoc)
  qed
qed

lemma get_loop_closed:
  assumes "0 < x_max x" and "x_max x < 2 ^ 32" and "(k - 1) * x_max x \<le> sz"
    and "srcOffset + sz \<le> SIZE_MAX" "dstOffset + sz \<le> SIZE_MAX"
  shows "get_loop k x sz srcOffset dstOffset =
    List.map (\<lambda>i. get_wr x (srcOffset + i * x_max x) (dstOffset + i * x_max x) (part_len (x_max x) sz i)) [0..<k]"
  using assms
proof (induction k arbitrary: sz srcOffset dstOffset)
  case 0
  then show ?case by simp
next
  case (Suc k)
  have len: "min sz (x_max x) mod 2 ^ 32 = min sz (x_max x)" using Suc.prems(2) by (simp add: min_def)
  show ?case
  proof (cases "k = 0")
    case True
    then show ?thesis using len by (simp add: part_len_def Let_def)
  next
    case False
    then obtain j where k: "k = Suc j" by (cases k) auto
    have mx: "x_max x \<le> sz" "(k - 1) * x_max x \<le> sz - x_max x" using Suc.prems(3) by (simp_all add: k)
    have adds: "sub64 sz (x_max x) = sz - x_max x" "add64 srcOffset (x_max x) = srcOffset + x_max x"
      "add64 dstOffset (x_max x) = dstOffset + x_max x"
      using mx Suc.prems(4,5) by (simp_all add: sub64_plain add64_plain)
    have ih: "get_loop k x (sz - x_max x) (srcOffset + x_max x) (dstOffset + x_max x) =
      List.map (\<lambda>i. get_wr x (srcOffset + x_max x + i * x_max x) (dstOffset + x_max x + i * x_max x)
        (part_len (x_max x) (sz - x_max x) i)) [0..<k]"
      by (rule Suc.IH) (use Suc.prems mx in simp_all)
    have "min sz (x_max x) mod 2 ^ 32 = x_max x" using len mx by simp
    then show ?thesis
      unfolding get_loop.simps Let_def map_upt_Suc by (simp add: adds ih part_len_def mx(1) add.assoc)
  qed
qed

section \<open>The bytes a list of requests moves\<close>

text \<open>Request \<open>w\<close> copies between the local byte \<open>a\<close> and the remote byte \<open>b\<close>.\<close>

definition moves :: "send_wr \<Rightarrow> nat \<Rightarrow> nat \<Rightarrow> bool" where
  "moves w a b \<longleftrightarrow> 0 < num_sge w \<and>
     (\<exists>d \<in> {..<sge_length (wr_sge w)}. a = sge_addr (wr_sge w) + d \<and> b = remote_addr w + d)"

text \<open>The list copies \<open>sz\<close> bytes between \<open>a\<close> and \<open>b\<close>: all of them, no other, and each by one request.\<close>

definition copies :: "send_wr list \<Rightarrow> nat \<Rightarrow> nat \<Rightarrow> nat \<Rightarrow> bool" where
  "copies ws a b sz \<longleftrightarrow>
     (\<forall>i<length ws. \<forall>p q. moves (ws ! i) p q \<longrightarrow> (\<exists>k < sz. p = a + k \<and> q = b + k)) \<and>
     (\<forall>k < sz. \<exists>!i. i < length ws \<and> moves (ws ! i) (a + k) (b + k))"

lemma part_split:
  assumes "0 < mx"
  shows "(\<exists>d<part_len mx sz i. k = i * mx + d) \<longleftrightarrow> i = k div mx \<and> k < sz"
proof
  assume "\<exists>d<part_len mx sz i. k = i * mx + d"
  then obtain d where d: "d < mx" "d < sz - i * mx" "k = i * mx + d" by (auto simp: part_len_def)
  have "k div mx = i" unfolding d(3) using d(1) assms by simp
  then show "i = k div mx \<and> k < sz" using d by auto
next
  assume k: "i = k div mx \<and> k < sz"
  then have "k = i * mx + k mod mx" "k mod mx < mx" using assms by simp_all
  moreover from this k have "k mod mx < sz - i * mx" by linarith
  ultimately show "\<exists>d<part_len mx sz i. k = i * mx + d" by (auto simp: part_len_def)
qed

lemma copies_parts:
  assumes mx: "0 < mx" and n: "sz \<le> n * mx"
    and len: "length ws = n + m"
    and ws: "\<And>i. i < n \<Longrightarrow> num_sge (ws ! i) = 1 \<and> sge_addr (wr_sge (ws ! i)) = a + i * mx \<and>
      remote_addr (ws ! i) = b + i * mx \<and> sge_length (wr_sge (ws ! i)) = part_len mx sz i"
    and rest: "\<And>i. n \<le> i \<Longrightarrow> i < n + m \<Longrightarrow> num_sge (ws ! i) = 0"
  shows "copies ws a b sz"
proof -
  have mv: "moves (ws ! i) p q \<longleftrightarrow> i < n \<and> (\<exists>k < sz. i = k div mx \<and> p = a + k \<and> q = b + k)" if "i < length ws" for i p q
  proof (cases "i < n")
    case False
    then show ?thesis using rest [of i] that len by (simp add: moves_def)
  next
    case True
    have "moves (ws ! i) p q \<longleftrightarrow> (\<exists>d<part_len mx sz i. p = a + (i * mx + d) \<and> q = b + (i * mx + d))"
      using ws [OF True] by (auto simp: moves_def)
    also have "\<dots> \<longleftrightarrow> (\<exists>k. (\<exists>d<part_len mx sz i. k = i * mx + d) \<and> p = a + k \<and> q = b + k)" by auto
    finally show ?thesis using True unfolding part_split [OF mx] by auto
  qed
  have "\<exists>!i. i < length ws \<and> moves (ws ! i) (a + k) (b + k)" if "k < sz" for k
  proof (rule ex1I [of _ "k div mx"])
    have "k div mx < n" using that n by (simp add: less_mult_imp_div_less)
    then show "k div mx < length ws \<and> moves (ws ! (k div mx)) (a + k) (b + k)" using that mv len by auto
  next
    fix i assume "i < length ws \<and> moves (ws ! i) (a + k) (b + k)"
    then show "i = k div mx" using mv by auto
  qed
  then show ?thesis unfolding copies_def using mv by auto
qed

lemma copies_put_loop:
  assumes x: "0 < x_max x" "x_max x < 2 ^ 32" and k: "(k - 1) * x_max x \<le> sz" "sz \<le> k * x_max x"
    and off: "x_local x + srcOffset + sz \<le> SIZE_MAX" "x_remote x + dstOffset + sz \<le> SIZE_MAX"
  shows "copies (put_loop k x sz srcOffset dstOffset) (x_local x + srcOffset) (x_remote x + dstOffset) sz"
proof (rule copies_parts [OF x(1) k(2), where m = 0])
  have closed: "put_loop k x sz srcOffset dstOffset = List.map (\<lambda>i. put_wr x (Suc i = k) (srcOffset + i * x_max x)
      (dstOffset + i * x_max x) (part_len (x_max x) sz i)) [0..<k]"
    by (rule put_loop_closed) (use assms in simp_all)
  then show "length (put_loop k x sz srcOffset dstOffset) = k + 0" by simp
  fix i assume i: "i < k"
  then have "i * x_max x \<le> sz" using k(1) by (metis Suc_leI diff_Suc_1 diff_le_mono le_trans mult_le_mono1)
  then have "x_local x + (srcOffset + i * x_max x) \<le> SIZE_MAX" "x_remote x + (dstOffset + i * x_max x) \<le> SIZE_MAX"
    using off by linarith+
  then show "num_sge (put_loop k x sz srcOffset dstOffset ! i) = 1 \<and>
      sge_addr (wr_sge (put_loop k x sz srcOffset dstOffset ! i)) = x_local x + srcOffset + i * x_max x \<and>
      remote_addr (put_loop k x sz srcOffset dstOffset ! i) = x_remote x + dstOffset + i * x_max x \<and>
      sge_length (wr_sge (put_loop k x sz srcOffset dstOffset ! i)) = part_len (x_max x) sz i"
    using i unfolding closed by (simp add: put_wr_def add64_plain)
qed simp

lemma copies_get_loop:
  assumes x: "0 < x_max x" "x_max x < 2 ^ 32" and k: "(k - 1) * x_max x \<le> sz" "sz \<le> k * x_max x"
    and off: "x_local x + dstOffset + sz \<le> SIZE_MAX" "x_remote x + srcOffset + sz \<le> SIZE_MAX"
    and w: "num_sge w = 0"
  shows "copies (get_loop k x sz srcOffset dstOffset @ [w]) (x_local x + dstOffset) (x_remote x + srcOffset) sz"
proof (rule copies_parts [OF x(1) k(2), where m = 1])
  have closed: "get_loop k x sz srcOffset dstOffset = List.map (\<lambda>i. get_wr x (srcOffset + i * x_max x)
      (dstOffset + i * x_max x) (part_len (x_max x) sz i)) [0..<k]"
    by (rule get_loop_closed) (use assms in simp_all)
  then show "length (get_loop k x sz srcOffset dstOffset @ [w]) = k + 1" by simp
  fix i assume i: "i < k"
  then have "i * x_max x \<le> sz" using k(1) by (metis Suc_leI diff_Suc_1 diff_le_mono le_trans mult_le_mono1)
  then have "x_local x + (dstOffset + i * x_max x) \<le> SIZE_MAX" "x_remote x + (srcOffset + i * x_max x) \<le> SIZE_MAX"
    using off by linarith+
  then show "num_sge ((get_loop k x sz srcOffset dstOffset @ [w]) ! i) = 1 \<and>
      sge_addr (wr_sge ((get_loop k x sz srcOffset dstOffset @ [w]) ! i)) = x_local x + dstOffset + i * x_max x \<and>
      remote_addr ((get_loop k x sz srcOffset dstOffset @ [w]) ! i) = x_remote x + srcOffset + i * x_max x \<and>
      sge_length (wr_sge ((get_loop k x sz srcOffset dstOffset @ [w]) ! i)) = part_len (x_max x) sz i"
    using i unfolding closed by (simp add: get_wr_def add64_plain nth_append)
next
  have "length (get_loop k x sz srcOffset dstOffset) = k"
    by (subst get_loop_closed) (use assms in simp_all)
  then show "num_sge ((get_loop k x sz srcOffset dstOffset @ [w]) ! i) = 0" if "k \<le> i" "i < k + 1" for i
    using that w by (simp add: nth_append)
qed

section \<open>put, get and the atomic operations\<close>

lemma bind_liftA_Inr: "bindA (liftA (\<lambda>_. Inr x)) f = f x"
  by (simp add: bindA_def liftA_def)

lemma post_or_undo_run:
  assumes "acts (post_or_undo pid wrs) s tr r s'" and "m_connectedQps s ! pid = Some q"
  shows "\<exists>err. tr = [(PostSend q wrs, err)] \<and>
    (if the_err err = 0 then r = Inr () \<and> s' = s
     else r = Inl (Exception ''Error while posting RDMA requests'') \<and> s' = count_msg pid (-1) s)"
  using assms by (auto simp: post_or_undo_def act_simps split: if_splits)

lemma count_msg_undo: "pid < length (m_numMsgsSync s) \<Longrightarrow> count_msg pid (-1) (count_msg pid 1 s) = s"
  by (simp add: count_msg_def)

lemma count_msg_simps [simp]:
  "m_connectedQps (count_msg pid d s) = m_connectedQps s" "m_pid (count_msg pid d s) = m_pid s"
  by (simp_all add: count_msg_def)

text \<open>The outcome of posting: one message more is counted, or nothing has changed and it throws.\<close>

definition posted :: "nat \<Rightarrow> ibverbs \<Rightarrow> reply \<Rightarrow> fault + unit \<Rightarrow> ibverbs \<Rightarrow> bool" where
  "posted pid s err r s' \<longleftrightarrow>
     (if the_err err = 0 then r = Inr () \<and> s' = count_msg pid 1 s
      else r = Inl (Exception ''Error while posting RDMA requests'') \<and> s' = s)"

text \<open>Slots, processes and sizes for which a transfer with \<open>p\<close> is defined.\<close>

definition peer_ready :: "ibverbs \<Rightarrow> nat \<Rightarrow> bool" where
  "peer_ready s p \<longleftrightarrow>
     m_connectedQps s ! p \<noteq> None \<and> p < length (m_numMsgsSync s) \<and> 0 < m_maxMsgSize s \<and> m_maxMsgSize s < 2 ^ 32"

definition reg_at :: "mem_slot \<Rightarrow> nat \<Rightarrow> mem_registration" where
  "reg_at x p = glob x ! p"

definition slot_ready :: "ibverbs \<Rightarrow> slot \<Rightarrow> mem_slot \<Rightarrow> nat \<Rightarrow> nat \<Rightarrow> nat \<Rightarrow> bool" where
  "slot_ready s i x p offset sz \<longleftrightarrow>
     combined_lookup (m_memreg s) i = Inr x \<and> p < length (glob x) \<and>
     reg_addr (reg_at x p) + offset + sz \<le> SIZE_MAX"

text \<open>The last request, and only that one, is signalled and notifies the other side of the superstep.\<close>

definition notifies_last :: "ibverbs \<Rightarrow> task \<Rightarrow> send_wr list \<Rightarrow> bool" where
  "notifies_last s t ws \<longleftrightarrow>
     ws \<noteq> [] \<and> signaled (last ws) \<and> opcode (last ws) = RDMA_WRITE_WITH_IMM \<and>
     imm_data (last ws) = m_sync_counter s \<and> wr_id (last ws) = t \<and>
     list_all (\<lambda>w. \<not> signaled w \<and> opcode w \<noteq> RDMA_WRITE_WITH_IMM) (butlast ws)"

lemma notifies_last_append [simp]:
  "notifies_last s t (ws @ [w]) \<longleftrightarrow>
     signaled w \<and> opcode w = RDMA_WRITE_WITH_IMM \<and> imm_data w = m_sync_counter s \<and> wr_id w = t \<and>
     list_all (\<lambda>w. \<not> signaled w \<and> opcode w \<noteq> RDMA_WRITE_WITH_IMM) ws"
  by (auto simp: notifies_last_def)

lemma map_upt_last: "0 < k \<Longrightarrow> List.map f [0..<k] = List.map f [0..<k - 1] @ [f (k - 1)]"
  by (cases k) simp_all

lemma notifies_put_loop:
  assumes "put_loop k x sz srcOffset dstOffset = List.map (\<lambda>i. put_wr x (Suc i = k) (srcOffset + i * x_max x)
      (dstOffset + i * x_max x) (part_len (x_max x) sz i)) [0..<k]"
    and "0 < k" and "x_imm x = m_sync_counter s" and "x_task x = t"
  shows "notifies_last s t (put_loop k x sz srcOffset dstOffset)"
  unfolding assms(1) map_upt_last [OF assms(2)] notifies_last_append
  using assms(2-4) by (auto simp: put_wr_def list_all_iff)

text \<open>The number of requests of a \<open>put\<close>: an empty one still sends one.\<close>

definition put_parts :: "nat \<Rightarrow> nat \<Rightarrow> nat" where
  "put_parts mx sz = (if sz = 0 then 1 else parts mx sz)"

lemma put_parts_facts:
  assumes "0 < mx"
  shows "0 < put_parts mx sz" "(put_parts mx sz - 1) * mx \<le> sz" "sz \<le> put_parts mx sz * mx"
  using parts_ge [OF assms, of sz] parts_cover [OF assms, of sz] parts_bound [OF assms, of 0 sz]
  by (auto simp: put_parts_def)

lemma put_count:
  assumes "parts mx sz < 2 ^ 31"
  shows "(if sz = 0 then 1 else msg_count mx sz) = int (put_parts mx sz)"
  using msg_count_parts [OF assms] by (simp add: put_parts_def)

lemma acts_bind_announce:
  "acts (bindA announce f) s tr r s' \<longleftrightarrow>
     (\<exists>t e tr'. tr = (TaskSelf, t) # (EventsIncrease (the_task t) 1, e) # tr' \<and> acts (f (the_task t)) s tr' r s')"
  by (auto simp: announce_def act_simps)

lemma posted_run:
  assumes "acts (post_or_undo pid ws) (count_msg pid 1 s) tr r s'" and "peer_ready s pid"
  shows "\<exists>err. tr = [(PostSend (the (m_connectedQps s ! pid)) ws, err)] \<and> posted pid s err r s'"
proof -
  obtain q where q: "m_connectedQps s ! pid = Some q" and l: "pid < length (m_numMsgsSync s)"
    using assms(2) by (auto simp: peer_ready_def)
  then obtain err where "tr = [(PostSend q ws, err)]" and
    e: "if the_err err = 0 then r = Inr () \<and> s' = count_msg pid 1 s
      else r = Inl (Exception ''Error while posting RDMA requests'') \<and> s' = count_msg pid (-1) (count_msg pid 1 s)"
    using post_or_undo_run [OF assms(1), of q] by auto
  then show ?thesis using q e unfolding posted_def count_msg_undo [OF l] by auto
qed

text \<open>
  C19: \<open>put\<close>.  For registered memory of this process and of the peer and a connected queue pair, the call asks for its
  task, announces one event, and posts one list of requests, none longer than the device
  allows, that copies exactly the given bytes to the given place, each of them once, and whose last request
  alone is signalled and carries the number of the superstep.  When the list is posted one
  more message is counted, in all and for that peer; when it is not, the counters are as before and it
  throws, but the announced event is not taken back.
\<close>

theorem put_correct:
  assumes "acts (put srcSlot srcOffset dstPid dstSlot dstOffset sz) s tr r s'"
    and "peer_ready s dstPid" and "slot_ready s srcSlot src (m_pid s) srcOffset sz"
    and "slot_ready s dstSlot dst dstPid dstOffset sz" and "slot_mr src = Some h"
    and "parts (m_maxMsgSize s) sz < 2 ^ 31"
  shows "\<exists>t e err ws.
    tr = [(TaskSelf, t), (EventsIncrease (the_task t) 1, e), (PostSend (the (m_connectedQps s ! dstPid)) ws, err)] \<and>
    posted dstPid s err r s' \<and>
    copies ws (reg_addr (reg_at src (m_pid s)) + srcOffset) (reg_addr (reg_at dst dstPid) + dstOffset) sz \<and>
    notifies_last s (the_task t) ws \<and>
    list_all (\<lambda>w. sge_length (wr_sge w) \<le> m_maxMsgSize s \<and> (opcode w = RDMA_WRITE \<or> opcode w = RDMA_WRITE_WITH_IMM) \<and>
      sge_lkey (wr_sge w) = mr_lkey h \<and> rkey w = reg_rkey (reg_at dst dstPid)) ws"
proof -
  let ?mx = "m_maxMsgSize s"
  let ?n = "put_parts ?mx sz"
  have mx: "0 < ?mx" "?mx < 2 ^ 32" using assms(2) by (simp_all add: peer_ready_def)
  note pf = put_parts_facts [OF mx(1), of sz]
  have lk: "combined_lookup (m_memreg s) srcSlot = Inr src" "combined_lookup (m_memreg s) dstSlot = Inr dst"
    "vec_at (glob src) (m_pid s) = Inr (reg_at src (m_pid s))" "vec_at (glob dst) dstPid = Inr (reg_at dst dstPid)"
    using assms(3,4) by (simp_all add: slot_ready_def reg_at_def)
  define x where "x t = \<lparr>x_max = ?mx, x_local = reg_addr (reg_at src (m_pid s)), x_remote = reg_addr (reg_at dst dstPid),
     x_lkey = mr_lkey h, x_rkey = reg_rkey (reg_at dst dstPid), x_task = t, x_pid = m_pid s,
     x_imm = m_sync_counter s\<rparr>" for t
  have fields: "x_max (x t) = ?mx" "x_local (x t) = reg_addr (reg_at src (m_pid s))"
    "x_remote (x t) = reg_addr (reg_at dst dstPid)" "x_task (x t) = t" "x_imm (x t) = m_sync_counter s"
    "x_lkey (x t) = mr_lkey h" "x_rkey (x t) = reg_rkey (reg_at dst dstPid)" for t
    by (simp_all add: x_def)
  have body: "acts (bindA announce (\<lambda>t. post_or_undo dstPid (put_loop ?n (x t) sz srcOffset dstOffset)))
      (count_msg dstPid 1 s) tr r s'"
    using assms(1,5) mx(1) pf(1) lk
    unfolding put_def lookup_slot_def Let_def
    by (simp add: act_simps put_count [OF assms(6)] x_def bind_liftA_Inr del: One_nat_def)
  then obtain t e tr' where tr: "tr = (TaskSelf, t) # (EventsIncrease (the_task t) 1, e) # tr'"
    and p: "acts (post_or_undo dstPid (put_loop ?n (x (the_task t)) sz srcOffset dstOffset)) (count_msg dstPid 1 s) tr' r s'"
    unfolding acts_bind_announce by blast
  let ?ws = "put_loop ?n (x (the_task t)) sz srcOffset dstOffset"
  obtain err where post: "tr' = [(PostSend (the (m_connectedQps s ! dstPid)) ?ws, err)]" "posted dstPid s err r s'"
    using posted_run [OF p assms(2)] by blast
  have off: "reg_addr (reg_at src (m_pid s)) + srcOffset + sz \<le> SIZE_MAX" "reg_addr (reg_at dst dstPid) + dstOffset + sz \<le> SIZE_MAX"
    using assms(3,4) by (simp_all add: slot_ready_def)
  have closed: "?ws = List.map (\<lambda>i. put_wr (x (the_task t)) (Suc i = ?n) (srcOffset + i * x_max (x (the_task t)))
      (dstOffset + i * x_max (x (the_task t))) (part_len (x_max (x (the_task t))) sz i)) [0..<?n]"
    by (rule put_loop_closed) (use mx pf off in \<open>simp_all add: fields\<close>)
  have "copies ?ws (reg_addr (reg_at src (m_pid s)) + srcOffset) (reg_addr (reg_at dst dstPid) + dstOffset) sz"
    using copies_put_loop [of "x (the_task t)" ?n sz srcOffset dstOffset] mx pf off by (simp add: fields)
  moreover have "notifies_last s (the_task t) ?ws"
    by (rule notifies_put_loop [OF closed pf(1)]) (simp_all add: fields)
  moreover have "list_all (\<lambda>w. sge_length (wr_sge w) \<le> ?mx \<and> (opcode w = RDMA_WRITE \<or> opcode w = RDMA_WRITE_WITH_IMM) \<and>
      sge_lkey (wr_sge w) = mr_lkey h \<and> rkey w = reg_rkey (reg_at dst dstPid)) ?ws"
    unfolding closed by (auto simp: list_all_iff put_wr_def fields part_len_def)
  ultimately show ?thesis using tr post by blast
qed

text \<open>Two processes with one global slot each of 4096 bytes; messages of at most 100 bytes.\<close>

definition demo_area :: "nat \<Rightarrow> mem_registration" where
  "demo_area i = registration (10000 * (i + 1)) 4096 (Some \<lparr>mr_lkey = i, mr_rkey = i + 10\<rparr>)"

definition demo_slot :: mem_slot where
  "demo_slot = \<lparr>slot_mr = Some \<lparr>mr_lkey = 0, mr_rkey = 10\<rparr>, glob = [demo_area 0, demo_area 1]\<rparr>"

definition demo_transfer :: ibverbs where
  "demo_transfer = (ibverbs_init 0 2 1 (-1) IBV_MTU_4096)\<lparr>m_maxMsgSize := 100, m_connectedQps := [Some 1, Some 2],
     m_numMsgsSync := [0, 0], m_sync_counter := 7,
     m_memreg := \<lparr>m_local = memreg_empty, m_global = \<lparr>m_slots = [demo_slot], m_free = [], m_free_capacity = 1, m_minNewSlotNr = 1\<rparr>\<rparr>\<rparr>"

lemma demo_transfer_ready:
  "peer_ready demo_transfer 1" "slot_ready demo_transfer 0 demo_slot 0 10 250" "slot_ready demo_transfer 0 demo_slot 1 20 250"
  "parts (m_maxMsgSize demo_transfer) 250 < 2 ^ 31" "slot_mr demo_slot = Some \<lparr>mr_lkey = 0, mr_rkey = 10\<rparr>"
  "m_pid demo_transfer = 0" "reg_addr (reg_at demo_slot 0) = 10000" "reg_addr (reg_at demo_slot 1) = 20000"
  by (simp_all add: demo_transfer_def demo_slot_def ibverbs_init_def peer_ready_def slot_ready_def reg_at_def
      combined_lookup_def isLocalSlot_def fromGlobal_def memreg_lookup_def demo_area_def registration_def
      SIZE_MAX_def parts_def)

theorem put_correct_witness:
  "\<exists>tr r s' ws. acts (put 0 10 1 0 20 250) demo_transfer tr r s' \<and> PostSend 2 ws \<in> fst ` set tr \<and> copies ws 10010 20020 250"
proof -
  obtain tr r s' where run: "acts (put 0 10 1 0 20 250) demo_transfer tr r s'"
    using acts_total [of "put 0 10 1 0 20 250" demo_transfer "\<lambda>_. Err 0"] by blast
  have q: "the (m_connectedQps demo_transfer ! 1) = 2" by (simp add: demo_transfer_def)
  obtain t e err ws where "tr = [(TaskSelf, t), (EventsIncrease (the_task t) 1, e), (PostSend 2 ws, err)]"
    "copies ws 10010 20020 250"
    using put_correct [OF run demo_transfer_ready(1), unfolded demo_transfer_ready(6), OF demo_transfer_ready(2,3,5,4)]
    unfolding q demo_transfer_ready(7,8) by auto
  then show ?thesis using run by (intro exI [of _ tr] exI [of _ r] exI [of _ s'] exI [of _ ws]) simp
qed

text \<open>
  \<open>get\<close>.  As \<open>put\<close>, with reads in the other direction: the reads copy exactly the given bytes, and one extra empty
  write is signalled and carries the number of the superstep to the process that is read from.
\<close>

theorem get_correct:
  assumes "acts (get srcPid srcSlot srcOffset dstSlot dstOffset sz) s tr r s'"
    and "peer_ready s srcPid" and "slot_ready s srcSlot src srcPid srcOffset sz"
    and "slot_ready s dstSlot dst (m_pid s) dstOffset sz" and "slot_mr dst = Some h"
    and "parts (m_maxMsgSize s) sz < 2 ^ 31"
  shows "\<exists>t e err ws.
    tr = [(TaskSelf, t), (EventsIncrease (the_task t) 1, e), (PostSend (the (m_connectedQps s ! srcPid)) ws, err)] \<and>
    posted srcPid s err r s' \<and>
    copies ws (reg_addr (reg_at dst (m_pid s)) + dstOffset) (reg_addr (reg_at src srcPid) + srcOffset) sz \<and>
    notifies_last s (the_task t) ws \<and>
    list_all (\<lambda>w. opcode w = RDMA_READ \<and> sge_length (wr_sge w) \<le> m_maxMsgSize s) (butlast ws) \<and>
    list_all (\<lambda>w. sge_lkey (wr_sge w) = mr_lkey h \<and> rkey w = reg_rkey (reg_at src srcPid)) ws"
proof -
  let ?mx = "m_maxMsgSize s"
  let ?n = "parts ?mx sz"
  have mx: "0 < ?mx" "?mx < 2 ^ 32" using assms(2) by (simp_all add: peer_ready_def)
  note pf = parts_ge [OF mx(1), of sz] parts_cover [OF mx(1), of sz]
  have lk: "combined_lookup (m_memreg s) srcSlot = Inr src" "combined_lookup (m_memreg s) dstSlot = Inr dst"
    "vec_at (glob dst) (m_pid s) = Inr (reg_at dst (m_pid s))" "vec_at (glob src) srcPid = Inr (reg_at src srcPid)"
    using assms(3,4) by (simp_all add: slot_ready_def reg_at_def)
  define x where "x t = \<lparr>x_max = ?mx, x_local = reg_addr (reg_at dst (m_pid s)), x_remote = reg_addr (reg_at src srcPid),
     x_lkey = mr_lkey h, x_rkey = reg_rkey (reg_at src srcPid), x_task = t, x_pid = m_pid s,
     x_imm = m_sync_counter s\<rparr>" for t
  have fields: "x_max (x t) = ?mx" "x_local (x t) = reg_addr (reg_at dst (m_pid s))"
    "x_remote (x t) = reg_addr (reg_at src srcPid)" "x_task (x t) = t" "x_imm (x t) = m_sync_counter s"
    "x_lkey (x t) = mr_lkey h" "x_rkey (x t) = reg_rkey (reg_at src srcPid)" for t
    by (simp_all add: x_def)
  define w where "w t = notify_wr (x t) (reg_addr (reg_at dst (m_pid s))) (reg_addr (reg_at src srcPid))
      (mr_lkey h) (reg_rkey (reg_at src srcPid))" for t
  have body: "acts (bindA announce (\<lambda>t. post_or_undo srcPid (get_loop ?n (x t) sz srcOffset dstOffset @ [w t])))
      (count_msg srcPid 1 s) tr r s'"
    using assms(1,5) mx(1) lk
    unfolding get_def lookup_slot_def Let_def
    by (simp add: act_simps msg_count_parts [OF assms(6)] x_def w_def bind_liftA_Inr del: One_nat_def)
  then obtain t e tr' where tr: "tr = (TaskSelf, t) # (EventsIncrease (the_task t) 1, e) # tr'"
    and p: "acts (post_or_undo srcPid (get_loop ?n (x (the_task t)) sz srcOffset dstOffset @ [w (the_task t)]))
      (count_msg srcPid 1 s) tr' r s'"
    unfolding acts_bind_announce by blast
  let ?rs = "get_loop ?n (x (the_task t)) sz srcOffset dstOffset"
  obtain err where post: "tr' = [(PostSend (the (m_connectedQps s ! srcPid)) (?rs @ [w (the_task t)]), err)]" "posted srcPid s err r s'"
    using posted_run [OF p assms(2)] by blast
  have off: "reg_addr (reg_at dst (m_pid s)) + dstOffset + sz \<le> SIZE_MAX" "reg_addr (reg_at src srcPid) + srcOffset + sz \<le> SIZE_MAX"
    using assms(3,4) by (simp_all add: slot_ready_def)
  have closed: "?rs = List.map (\<lambda>i. get_wr (x (the_task t)) (srcOffset + i * x_max (x (the_task t)))
      (dstOffset + i * x_max (x (the_task t))) (part_len (x_max (x (the_task t))) sz i)) [0..<?n]"
    by (rule get_loop_closed) (use mx pf off in \<open>simp_all add: fields\<close>)
  have "copies (?rs @ [w (the_task t)]) (reg_addr (reg_at dst (m_pid s)) + dstOffset) (reg_addr (reg_at src srcPid) + srcOffset) sz"
    using copies_get_loop [of "x (the_task t)" ?n sz dstOffset srcOffset "w (the_task t)"] mx pf off
    by (simp add: fields w_def notify_wr_def)
  moreover have "notifies_last s (the_task t) (?rs @ [w (the_task t)])"
    unfolding notifies_last_append closed by (auto simp: w_def notify_wr_def fields list_all_iff get_wr_def)
  moreover have "list_all (\<lambda>w. opcode w = RDMA_READ \<and> sge_length (wr_sge w) \<le> ?mx) (butlast (?rs @ [w (the_task t)]))"
    unfolding closed butlast_snoc by (auto simp: list_all_iff get_wr_def fields part_len_def)
  moreover have "list_all (\<lambda>w. sge_lkey (wr_sge w) = mr_lkey h \<and> rkey w = reg_rkey (reg_at src srcPid)) (?rs @ [w (the_task t)])"
    unfolding closed by (auto simp: list_all_iff get_wr_def fields w_def notify_wr_def)
  ultimately show ?thesis using tr post by blast
qed

theorem get_correct_witness:
  "\<exists>tr r s' ws. acts (get 1 0 20 0 10 250) demo_transfer tr r s' \<and> PostSend 2 ws \<in> fst ` set tr \<and> copies ws 10010 20020 250"
proof -
  obtain tr r s' where run: "acts (get 1 0 20 0 10 250) demo_transfer tr r s'"
    using acts_total [of "get 1 0 20 0 10 250" demo_transfer "\<lambda>_. Err 0"] by blast
  have q: "the (m_connectedQps demo_transfer ! 1) = 2" by (simp add: demo_transfer_def)
  obtain t e err ws where "tr = [(TaskSelf, t), (EventsIncrease (the_task t) 1, e), (PostSend 2 ws, err)]"
    "copies ws 10010 20020 250"
    using get_correct [OF run demo_transfer_ready(1,3), unfolded demo_transfer_ready(6), OF demo_transfer_ready(2,5,4)]
    unfolding q demo_transfer_ready(7,8) by auto
  then show ?thesis using run by (intro exI [of _ tr] exI [of _ r] exI [of _ s'] exI [of _ ws]) simp
qed

lemma atomic_op_run:
  assumes "acts (atomic_op oc compare swp srcSlot srcOffset dstPid dstSlot dstOffset) s tr r s'"
    and "peer_ready s dstPid" and "slot_ready s srcSlot src (m_pid s) srcOffset 8"
    and "slot_ready s dstSlot dst dstPid dstOffset 8" and "slot_mr src = Some h" and "slot_mr dst = Some h'"
    and "dstPid < length (glob src)"
  shows "\<exists>t e err a n. tr = [(TaskSelf, t), (EventsIncrease (the_task t) 1, e),
      (PostSend (the (m_connectedQps s ! dstPid)) [a, n], err)] \<and>
    posted dstPid s err r s' \<and> notifies_last s (the_task t) [a, n] = (oc \<noteq> RDMA_WRITE_WITH_IMM) \<and> opcode a = oc \<and>
    compare_add a = compare \<and> swap_value a = swp \<and> rkey a = reg_rkey (reg_at dst dstPid) \<and>
    rkey n = reg_rkey (reg_at src dstPid) \<and>
    copies [a, n] (reg_addr (reg_at src (m_pid s)) + srcOffset) (reg_addr (reg_at dst dstPid) + dstOffset) 8"
proof -
  have lk: "combined_lookup (m_memreg s) srcSlot = Inr src" "combined_lookup (m_memreg s) dstSlot = Inr dst"
    "vec_at (glob src) (m_pid s) = Inr (reg_at src (m_pid s))" "vec_at (glob dst) dstPid = Inr (reg_at dst dstPid)"
    "vec_at (glob src) dstPid = Inr (reg_at src dstPid)"
    using assms(3,4,7) by (simp_all add: slot_ready_def reg_at_def)
  have ad: "add64 (reg_addr (reg_at src (m_pid s))) srcOffset = reg_addr (reg_at src (m_pid s)) + srcOffset"
    "add64 (reg_addr (reg_at dst dstPid)) dstOffset = reg_addr (reg_at dst dstPid) + dstOffset"
    using assms(3,4) by (simp_all add: slot_ready_def add64_plain)
  define x where "x t = \<lparr>x_max = m_maxMsgSize s, x_local = reg_addr (reg_at src (m_pid s)), x_remote = reg_addr (reg_at dst dstPid),
     x_lkey = mr_lkey h, x_rkey = reg_rkey (reg_at dst dstPid), x_task = t, x_pid = m_pid s,
     x_imm = m_sync_counter s\<rparr>" for t
  define a where "a t = atomic_wr (x t) oc (reg_addr (reg_at src (m_pid s)) + srcOffset)
     (reg_addr (reg_at dst dstPid) + dstOffset) compare swp" for t
  define n where "n t = notify_wr (x t) (reg_addr (reg_at src (m_pid s)) + srcOffset)
     (reg_addr (reg_at dst dstPid) + dstOffset) (mr_lkey h') (reg_rkey (reg_at src dstPid))" for t
  obtain t e tr' where tr: "tr = (TaskSelf, t) # (EventsIncrease (the_task t) 1, e) # tr'"
    and p: "acts (post_or_undo dstPid [a (the_task t), n (the_task t)]) (count_msg dstPid 1 s) tr' r s'"
    using assms(1,5,6) lk unfolding atomic_op_def lookup_slot_def Let_def acts_bind_announce
    by (auto simp: act_simps bind_liftA_Inr acts_bind_announce x_def a_def n_def ad)
  obtain err where post: "tr' = [(PostSend (the (m_connectedQps s ! dstPid)) [a (the_task t), n (the_task t)], err)]"
    "posted dstPid s err r s'"
    using posted_run [OF p assms(2)] by blast
  have "copies [a (the_task t), n (the_task t)] (reg_addr (reg_at src (m_pid s)) + srcOffset)
      (reg_addr (reg_at dst dstPid) + dstOffset) 8"
    by (rule copies_parts [where mx = 8 and n = 1 and m = 1])
       (auto simp: a_def n_def atomic_wr_def notify_wr_def part_len_def less_Suc_eq x_def)
  moreover have "notifies_last s (the_task t) [a (the_task t), n (the_task t)] = (oc \<noteq> RDMA_WRITE_WITH_IMM)"
    by (auto simp: notifies_last_def a_def n_def atomic_wr_def notify_wr_def x_def)
  ultimately show ?thesis using tr post
    by (intro exI [of _ t] exI [of _ e] exI [of _ err] exI [of _ "a (the_task t)"] exI [of _ "n (the_task t)"])
       (simp add: a_def n_def atomic_wr_def notify_wr_def x_def)
qed

text \<open>
  the atomic operations post two requests: the atomic one, on the eight bytes of the destination, with the
  operands given and the old value going to the eight bytes of the source, and an empty write that
  notifies the destination.  The key of the second request is the one of the source slot at
  the destination although its address is the one of the destination slot.
\<close>

theorem atomics_correct:
  assumes "acts (atomic_fetch_and_add srcSlot srcOffset dstPid dstSlot dstOffset v) s tr r s' \<and>
      oc = ATOMIC_FETCH_AND_ADD \<and> compare = v \<and> swp = 0 \<or>
    acts (atomic_cmp_and_swp srcSlot srcOffset dstPid dstSlot dstOffset v w) s tr r s' \<and>
      oc = ATOMIC_CMP_AND_SWP \<and> compare = v \<and> swp = w"
    and "peer_ready s dstPid" and "slot_ready s srcSlot src (m_pid s) srcOffset 8"
    and "slot_ready s dstSlot dst dstPid dstOffset 8" and "slot_mr src = Some h" and "slot_mr dst = Some h'"
    and "dstPid < length (glob src)"
  shows "\<exists>t e err a n. tr = [(TaskSelf, t), (EventsIncrease (the_task t) 1, e),
      (PostSend (the (m_connectedQps s ! dstPid)) [a, n], err)] \<and>
    posted dstPid s err r s' \<and> notifies_last s (the_task t) [a, n] \<and>
    opcode a = oc \<and> compare_add a = compare \<and> swap_value a = swp \<and>
    rkey a = reg_rkey (reg_at dst dstPid) \<and> rkey n = reg_rkey (reg_at src dstPid) \<and>
    copies [a, n] (reg_addr (reg_at src (m_pid s)) + srcOffset) (reg_addr (reg_at dst dstPid) + dstOffset) 8"
proof -
  have "acts (atomic_op oc compare swp srcSlot srcOffset dstPid dstSlot dstOffset) s tr r s'" "oc \<noteq> RDMA_WRITE_WITH_IMM"
    using assms(1) by (auto simp: atomic_fetch_and_add_def atomic_cmp_and_swp_def)
  from atomic_op_run [OF this(1) assms(2-7)] this(2) show ?thesis by simp
qed

theorem atomics_correct_witness:
  "\<exists>tr r s' a n. acts (atomic_fetch_and_add 0 10 1 0 20 5) demo_transfer tr r s' \<and>
     PostSend 2 [a, n] \<in> fst ` set tr \<and> compare_add a = 5 \<and> copies [a, n] 10010 20020 8"
proof -
  have rd: "slot_ready demo_transfer 0 demo_slot 0 10 8" "slot_ready demo_transfer 0 demo_slot 1 20 8" "1 < length (glob demo_slot)"
    using demo_transfer_ready(2,3) by (auto simp: slot_ready_def demo_slot_def)
  obtain tr r s' where run: "acts (atomic_fetch_and_add 0 10 1 0 20 5) demo_transfer tr r s'"
    using acts_total [of "atomic_fetch_and_add 0 10 1 0 20 5" demo_transfer "\<lambda>_. Err 0"] by blast
  have q: "the (m_connectedQps demo_transfer ! 1) = 2" by (simp add: demo_transfer_def)
  have h: "acts (atomic_fetch_and_add 0 10 1 0 20 5) demo_transfer tr r s' \<and>
      ATOMIC_FETCH_AND_ADD = ATOMIC_FETCH_AND_ADD \<and> (5::nat) = 5 \<and> (0::nat) = 0 \<or>
    acts (atomic_cmp_and_swp 0 10 1 0 20 5 0) demo_transfer tr r s' \<and>
      ATOMIC_FETCH_AND_ADD = ATOMIC_CMP_AND_SWP \<and> (5::nat) = 5 \<and> (0::nat) = 0"
    using run by simp
  obtain t e err a n where "tr = [(TaskSelf, t), (EventsIncrease (the_task t) 1, e), (PostSend 2 [a, n], err)]"
    "compare_add a = 5" "copies [a, n] 10010 20020 8"
    using atomics_correct [OF h demo_transfer_ready(1), unfolded demo_transfer_ready(6), OF rd(1,2) demo_transfer_ready(5,5) rd(3)]
    unfolding q demo_transfer_ready(7,8) by auto
  then show ?thesis using run
    by (intro exI [of _ tr] exI [of _ r] exI [of _ s'] exI [of _ a] exI [of _ n]) simp
qed

end
