(* ===== verification/Ibverbs_Progress.thy ===== *)
theory Ibverbs_Progress imports Ibverbs_Rma begin

text \<open>
  The progress engine of \<open>IBVerbs\<close> (\<open>src/MPI/ibverbs.cpp\<close>), which a polling task runs for ever, and
  \<open>sync\<close>, which a user task calls at the end of a superstep.  The engine counts the local and the
  remote completions, wakes the task that is blocked in the metadata vote, and finishes the
  synchronisation request when the announced number of remote completions has arrived.  \<open>sync\<close> gives
  up the processor twice, at \<open>alpi_task_block\<close> and in the wait for \<open>m_numMsgs\<close>; it is modelled as the
  three pieces between these points, each run on the state at that moment.
\<close>

section \<open>Local completions\<close>

definition POLL_BATCH :: nat where
  "POLL_BATCH = 8"

definition MAX_POLLING :: nat where
  "MAX_POLLING = 128"

text \<open>One batch: the successful ones release their task; the result tells whether one was bad.\<close>

primrec release_tasks :: "wc list \<Rightarrow> bool verbs" where
  "release_tasks [] = retA False"
| "release_tasks (w # ws) =
     bindA (if wc_success w then bindA (callA (EventsDecrease (wc_wr_id w) 1)) (\<lambda>_. retA ()) else retA ()) (\<lambda>_.
     bindA (release_tasks ws) (\<lambda>bad. retA (\<not> wc_success w \<or> bad)))"

function local_loop :: "nat \<Rightarrow> unit verbs" where
  "local_loop totalResults =
     bindA (callA (PollCqLocal POLL_BATCH)) (\<lambda>rep.
     case the_poll rep of
       None \<Rightarrow> throwA (Exception ''Poll CQ failure'')
     | Some wcs \<Rightarrow>
         bindA (modA (\<lambda>s. s\<lparr>m_numMsgs := m_numMsgs s - int (length wcs)\<rparr>)) (\<lambda>_.
         bindA (release_tasks wcs) (\<lambda>bad.
         bindA (throw_if bad (Exception ''Error occurred during polling'')) (\<lambda>_.
         if length wcs = POLL_BATCH \<and> totalResults + length wcs < MAX_POLLING
         then local_loop (totalResults + length wcs) else retA ()))))"
  by pat_completeness auto
termination by (relation "measure (\<lambda>t. MAX_POLLING - t)") (auto simp: POLL_BATCH_def)

definition doLocalProgress :: "unit verbs" where
  "doLocalProgress = local_loop 0"

section \<open>Remote completions\<close>

definition recv_index :: "wc \<Rightarrow> nat" where
  "recv_index w = unat (wc_imm_data w) mod 1024"

primrec count_remote :: "wc list \<Rightarrow> unit verbs" where
  "count_remote [] = retA ()"
| "count_remote (w # ws) =
     bindA (modA (\<lambda>s. s\<lparr>m_recvCounts := (m_recvCounts s)[recv_index w := m_recvCounts s ! recv_index w + 1]\<rparr>)) (\<lambda>_.
     bindA (callA PostSrqRecv) (\<lambda>_. count_remote ws))"

function remote_loop :: "nat \<Rightarrow> unit verbs" where
  "remote_loop totalResults =
     bindA (callA (PollCqRemote POLL_BATCH)) (\<lambda>rep.
     case the_poll rep of
       None \<Rightarrow> retA ()
     | Some wcs \<Rightarrow>
         bindA (count_remote wcs) (\<lambda>_.
         if length wcs = POLL_BATCH \<and> totalResults + length wcs < MAX_POLLING
         then remote_loop (totalResults + length wcs) else retA ()))"
  by pat_completeness auto
termination by (relation "measure (\<lambda>t. MAX_POLLING - t)") (auto simp: POLL_BATCH_def)

definition doRemoteProgress :: "unit verbs" where
  "doRemoteProgress = remote_loop 0"

section \<open>Synchronisation requests\<close>

text \<open>
  \<open>m_sync_counter % 1024\<close>, the remainder of a signed number: after \<open>2 ^ 31\<close> supersteps the
  counter is negative, and so is the remainder.
\<close>

definition sync_index :: "32 word \<Rightarrow> fault + nat" where
  "sync_index c =
     (if unat c < 2 ^ 31 then Inr (unat c mod 1024)
      else if (2 ^ 32 - unat c) mod 1024 = 0 then Inr 0 else Inl OutOfBounds)"

definition end_request :: "ibverbs \<Rightarrow> ibverbs" where
  "end_request s =
     s\<lparr>syncRequest := (syncRequest s)\<lparr>sr_task := None, isActive := False\<rparr>, m_sync_counter := m_sync_counter s + 1\<rparr>"

text \<open>The task of the request; \<open>alpi_task_events_decrease\<close> gets a null pointer when there is none.\<close>

definition request_task :: "ibverbs \<Rightarrow> task" where
  "request_task s = (case sr_task (syncRequest s) of Some t \<Rightarrow> t | None \<Rightarrow> 0)"

definition processSyncRequest :: "unit verbs" where
  "processSyncRequest =
     bindA getA (\<lambda>s.
     if withBarrier (syncRequest s) \<and> secondPhase (syncRequest s)
     then bindA (callA (TestRequest SyncRequestHandle)) (\<lambda>flag.
          if the_num flag = 1
          then bindA (modA (\<lambda>s. end_request (s\<lparr>syncRequest := (syncRequest s)\<lparr>secondPhase := False\<rparr>\<rparr>))) (\<lambda>_.
               bindA (callA (EventsDecrease (request_task s) 1)) (\<lambda>_. retA ()))
          else retA ())
     else bindA (liftA (\<lambda>s. sync_index (m_sync_counter s))) (\<lambda>i.
          if m_recvCounts s ! i \<ge> sr_remoteMsgs (syncRequest s)
          then bindA (modA (\<lambda>s. s\<lparr>m_recvCounts := (m_recvCounts s)[i := m_recvCounts s ! i - sr_remoteMsgs (syncRequest s)],
                 syncRequest := (syncRequest s)\<lparr>sr_remoteMsgs := 0\<rparr>\<rparr>)) (\<lambda>_.
               if withBarrier (syncRequest s)
               then bindA (callA (Ibarrier SyncRequestHandle)) (\<lambda>_.
                    modA (\<lambda>s. s\<lparr>syncRequest := (syncRequest s)\<lparr>secondPhase := True\<rparr>\<rparr>))
               else bindA (modA end_request) (\<lambda>_.
                    bindA (callA (EventsDecrease (request_task s) 1)) (\<lambda>_. retA ())))
          else retA ()))"

definition processBlock :: "unit verbs" where
  "processBlock =
     bindA getA (\<lambda>s.
     bindA (callA (TestRequest BlockRequestHandle)) (\<lambda>flag.
     if the_num flag = 1
     then bindA (callA (FreeRequest BlockRequestHandle)) (\<lambda>_.
          bindA (modA (\<lambda>s. s\<lparr>m_blockRequest := False, m_blockTask := None\<rparr>)) (\<lambda>_.
          bindA (callA (TaskUnblock (case m_blockTask s of Some t \<Rightarrow> t | None \<Rightarrow> 0))) (\<lambda>_. retA ())))
     else retA ()))"

text \<open>The body of the polling loop, and the loop for at most \<open>n\<close> rounds.\<close>

definition progress_round :: "unit verbs" where
  "progress_round =
     bindA doLocalProgress (\<lambda>_.
     bindA doRemoteProgress (\<lambda>_.
     bindA getA (\<lambda>s.
     bindA (if m_blockTask s \<noteq> None then processBlock else retA ()) (\<lambda>_.
     bindA getA (\<lambda>s.
     bindA (if isActive (syncRequest s) then processSyncRequest else retA ()) (\<lambda>_.
     bindA (callA (WaitforNs (pollingFrequency s * 1000 mod 2 ^ 32))) (\<lambda>_. retA ())))))))"

primrec doProgress :: "nat \<Rightarrow> unit verbs" where
  "doProgress 0 = retA ()"
| "doProgress (Suc n) =
     bindA getA (\<lambda>s. if m_stopProgress s then retA () else bindA progress_round (\<lambda>_. doProgress n))"

definition stopProgress :: "unit verbs" where
  "stopProgress = modA (\<lambda>s. s\<lparr>m_stopProgress := True\<rparr>)"

section \<open>sync\<close>

unbundle bit_operations_syntax

definition LPF_SYNC_MODE :: "32 word" where
  "LPF_SYNC_MODE = 0x60000000"

definition LPF_SYNC_BARRIER :: "32 word" where
  "LPF_SYNC_BARRIER = 0x80000000"

definition LPF_SYNC_DEFAULT :: "32 word" where
  "LPF_SYNC_DEFAULT = 0"

definition LPF_SYNC_CACHED :: "32 word" where
  "LPF_SYNC_CACHED = 0x40000000"

definition LPF_SYNC_MSG :: "32 word \<Rightarrow> 32 word" where
  "LPF_SYNC_MSG n = 0x20000000 + n"

definition sync_mode :: "32 word \<Rightarrow> 32 word" where
  "sync_mode attr = attr AND LPF_SYNC_MODE"

definition sync_value :: "32 word \<Rightarrow> 32 word" where
  "sync_value attr = attr AND NOT (LPF_SYNC_MODE OR LPF_SYNC_BARRIER)"

definition sync_barrier :: "32 word \<Rightarrow> bool" where
  "sync_barrier attr \<longleftrightarrow> attr AND LPF_SYNC_BARRIER \<noteq> 0 \<or> sync_mode attr = LPF_SYNC_DEFAULT"

text \<open>
  Up to \<open>alpi_task_block\<close>: the metadata vote is started and the task blocks.  The result tells
  whether there was a vote.
\<close>

definition sync_vote :: "int list \<Rightarrow> 32 word \<Rightarrow> bool verbs" where
  "sync_vote vote attr =
     (if sync_mode attr = LPF_SYNC_DEFAULT
      then bindA (callA (GetRequest BlockRequestHandle)) (\<lambda>_.
           bindA (modA (\<lambda>s. s\<lparr>m_blockRequest := True\<rparr>)) (\<lambda>_.
           bindA (callA (IallreduceSum vote BlockRequestHandle)) (\<lambda>_.
           bindA (callA TaskSelf) (\<lambda>t.
           bindA (modA (\<lambda>s. s\<lparr>m_blockTask := Some (the_task t)\<rparr>)) (\<lambda>_.
           bindA (callA (TaskBlock (the_task t))) (\<lambda>_. retA True))))))
      else retA False)"

text \<open>
  After the task was unblocked, with the sums \<open>voted\<close>.  The result is the vote to report when
  some process wants to abort.
\<close>

definition sync_resume :: "int list \<Rightarrow> int \<times> int \<Rightarrow> int list option verbs" where
  "sync_resume vote voted =
     (if fst voted \<noteq> 0 then retA (Some (vote[0 := fst voted]))
      else bindA (if snd voted > 0 then reconnectQPs else retA ()) (\<lambda>_. retA None))"

text \<open>The exchange of the numbers of messages: one reduction per process.\<close>

primrec exchange_counts :: "int list \<Rightarrow> nat \<Rightarrow> nat \<Rightarrow> int \<Rightarrow> int verbs" where
  "exchange_counts [] i pid remoteMsgs = retA remoteMsgs"
| "exchange_counts (c # cs) i pid remoteMsgs =
     bindA (callA (AllreduceSum c)) (\<lambda>sm.
     exchange_counts cs (i + 1) pid (if i = pid then the_num sm else remoteMsgs))"

definition take_counts :: "int list verbs" where
  "take_counts =
     bindA getA (\<lambda>s.
     bindA (modA (\<lambda>s. s\<lparr>m_numMsgsSync := replicate (m_nprocs s) 0\<rparr>)) (\<lambda>_.
     retA (take (m_nprocs s) (m_numMsgsSync s))))"

definition fresh_counts :: "int list \<Rightarrow> bool \<Rightarrow> int verbs" where
  "fresh_counts counts is_default =
     bindA getA (\<lambda>s.
     bindA (exchange_counts counts 0 (m_pid s) 0) (\<lambda>n.
     bindA (modA (\<lambda>s. s\<lparr>m_sync_cached := (if is_default then False else m_sync_cached s),
       m_sync_cached_value := n\<rparr>)) (\<lambda>_. retA n)))"

definition remote_msgs :: "32 word \<Rightarrow> int list \<Rightarrow> int verbs" where
  "remote_msgs attr counts =
     bindA getA (\<lambda>s.
     if sync_mode attr = LPF_SYNC_CACHED
     then if m_sync_cached s then retA (m_sync_cached_value s)
          else bindA (modA (\<lambda>s. s\<lparr>m_sync_cached := True\<rparr>)) (\<lambda>_. fresh_counts counts False)
     else if sync_mode attr = LPF_SYNC_DEFAULT then fresh_counts counts True
     else if sync_mode attr = LPF_SYNC_MSG 0 then retA (int (unat (sync_value attr)))
     else retA 0)"

text \<open>After the wait for \<open>m_numMsgs \<le> 0\<close>.\<close>

definition sync_commit :: "32 word \<Rightarrow> unit verbs" where
  "sync_commit attr =
     bindA take_counts (\<lambda>counts.
     bindA (remote_msgs attr counts) (\<lambda>n.
     bindA getA (\<lambda>s.
     bindA (throw_if (isActive (syncRequest s)) (Exception ''There is another sync request active'')) (\<lambda>_.
     bindA (modA (\<lambda>s. s\<lparr>syncRequest := (syncRequest s)\<lparr>withBarrier := sync_barrier attr, sr_remoteMsgs := n\<rparr>\<rparr>)) (\<lambda>_.
     bindA announce (\<lambda>task.
     modA (\<lambda>s. s\<lparr>syncRequest := (syncRequest s)\<lparr>sr_task := Some task, isActive := True\<rparr>\<rparr>)))))))"

text \<open>\<open>sync\<close> has passed its wait.\<close>

definition sync_may_commit :: "ibverbs \<Rightarrow> bool" where
  "sync_may_commit s \<longleftrightarrow> m_numMsgs s \<le> 0"

declare local_loop.simps [simp del] and remote_loop.simps [simp del]

section \<open>What the engine reads off its completion queues\<close>

text \<open>The completions the device handed out in a run, and the events the run released.\<close>

definition polled_local :: "event list \<Rightarrow> wc list" where
  "polled_local tr =
     concat (List.map (\<lambda>e. case fst e of PollCqLocal _ \<Rightarrow> (case the_poll (snd e) of Some ws \<Rightarrow> ws | None \<Rightarrow> []) | _ \<Rightarrow> []) tr)"

definition polled_remote :: "event list \<Rightarrow> wc list" where
  "polled_remote tr =
     concat (List.map (\<lambda>e. case fst e of PollCqRemote _ \<Rightarrow> (case the_poll (snd e) of Some ws \<Rightarrow> ws | None \<Rightarrow> []) | _ \<Rightarrow> []) tr)"

definition released :: "event list \<Rightarrow> task list" where
  "released tr = concat (List.map (\<lambda>e. case fst e of EventsDecrease t n \<Rightarrow> [t] | _ \<Rightarrow> []) tr)"

definition polls :: "event list \<Rightarrow> nat" where
  "polls tr = length (filter (\<lambda>e. case fst e of PollCqLocal _ \<Rightarrow> True | PollCqRemote _ \<Rightarrow> True | _ \<Rightarrow> False) tr)"

definition recvs_posted :: "event list \<Rightarrow> nat" where
  "recvs_posted tr = length (filter (\<lambda>e. fst e = PostSrqRecv) tr)"

lemma trace_reads [simp]:
  "polled_local [] = []" "polled_local (t1 @ t2) = polled_local t1 @ polled_local t2"
  "polled_remote [] = []" "polled_remote (t1 @ t2) = polled_remote t1 @ polled_remote t2"
  "released [] = []" "released (t1 @ t2) = released t1 @ released t2"
  "polls [] = 0" "polls (t1 @ t2) = polls t1 + polls t2"
  "recvs_posted [] = 0" "recvs_posted (t1 @ t2) = recvs_posted t1 + recvs_posted t2"
  by (simp_all add: polled_local_def polled_remote_def released_def polls_def recvs_posted_def)

lemma trace_reads_Cons [simp]:
  "polled_local ((PollCqLocal n, Poll (Some ws)) # tr) = ws @ polled_local tr"
  "polled_local ((EventsDecrease t n, rep) # tr) = polled_local tr"
  "released ((EventsDecrease t n, rep) # tr) = t # released tr"
  "released ((PollCqLocal n, rep) # tr) = released tr"
  "released ((PostSrqRecv, rep) # tr) = released tr"
  "released ((PollCqRemote n, rep) # tr) = released tr"
  "polls ((EventsDecrease t n, rep) # tr) = polls tr"
  "polls ((PostSrqRecv, rep) # tr) = polls tr"
  "polls ((PollCqLocal n, rep) # tr) = Suc (polls tr)"
  "polls ((PollCqRemote n, rep) # tr) = Suc (polls tr)"
  "polled_remote ((PostSrqRecv, rep) # tr) = polled_remote tr"
  "recvs_posted ((PostSrqRecv, rep) # tr) = Suc (recvs_posted tr)"
  "recvs_posted ((PollCqRemote n, rep) # tr) = recvs_posted tr"
  by (simp_all add: polled_local_def polled_remote_def released_def polls_def recvs_posted_def)

lemma polled_local_Cons:
  "polled_local ((PollCqLocal n, rep) # tr) = (case the_poll rep of Some ws \<Rightarrow> ws | None \<Rightarrow> []) @ polled_local tr"
  "polled_remote ((PollCqRemote n, rep) # tr) = (case the_poll rep of Some ws \<Rightarrow> ws | None \<Rightarrow> []) @ polled_remote tr"
  by (simp_all add: polled_local_def polled_remote_def)

lemma release_tasks_run:
  assumes "acts (release_tasks ws) s tr r s'"
  shows "s' = s \<and> r = Inr (\<exists>w \<in> set ws. \<not> wc_success w) \<and>
    released tr = List.map wc_wr_id (filter wc_success ws) \<and> polled_local tr = [] \<and> polls tr = 0"
  using assms
proof (induction ws arbitrary: tr r)
  case Nil
  then show ?case by (simp add: act_simps)
next
  case (Cons w ws)
  have tail: "s' = s \<and> r = Inr (\<not> wc_success w \<or> (\<exists>w \<in> set ws. \<not> wc_success w)) \<and>
      released t = List.map wc_wr_id (filter wc_success ws) \<and> polled_local t = [] \<and> polls t = 0"
    if "acts (bindA (release_tasks ws) (\<lambda>bad. retA (\<not> wc_success w \<or> bad))) s t r s'" for t
    using that Cons.IH unfolding acts_bindA [of "release_tasks ws"] act_simps by fastforce
  show ?case
  proof (cases "wc_success w")
    case True
    then obtain rep t where "tr = (EventsDecrease (wc_wr_id w) 1, rep) # t"
      "acts (bindA (release_tasks ws) (\<lambda>bad. retA (\<not> wc_success w \<or> bad))) s t r s'"
      using Cons.prems by (auto simp: act_simps)
    then show ?thesis using tail [of t] True by simp
  next
    case False
    then have "acts (bindA (release_tasks ws) (\<lambda>bad. retA (\<not> wc_success w \<or> bad))) s tr r s'"
      using Cons.prems by (simp add: act_simps)
    then show ?thesis using tail [of tr] False by simp
  qed
qed

definition bad_poll :: "fault + unit \<Rightarrow> bool" where
  "bad_poll r \<longleftrightarrow> r = Inl (Exception ''Poll CQ failure'') \<or> r = Inl (Exception ''Error occurred during polling'')"

lemma local_loop_run:
  assumes "acts (local_loop tot) s tr r s'"
  shows "s' = s\<lparr>m_numMsgs := m_numMsgs s - int (length (polled_local tr))\<rparr> \<and>
    released tr = List.map wc_wr_id (filter wc_success (polled_local tr)) \<and>
    (r = Inr () \<and> list_all wc_success (polled_local tr) \<or> bad_poll r) \<and>
    (list_ex (\<lambda>w. \<not> wc_success w) (polled_local tr) \<longrightarrow> r = Inl (Exception ''Error occurred during polling'')) \<and>
    1 \<le> polls tr \<and> (2 \<le> polls tr \<longrightarrow> tot + POLL_BATCH * (polls tr - 1) < MAX_POLLING)"
  using assms
proof (induction "MAX_POLLING - tot" arbitrary: tot s tr rule: less_induct)
  case less
  from less.prems obtain rep t where tr: "tr = (PollCqLocal POLL_BATCH, rep) # t" and
    k: "acts (case the_poll rep of
       None \<Rightarrow> throwA (Exception ''Poll CQ failure'')
     | Some wcs \<Rightarrow>
         bindA (modA (\<lambda>s. s\<lparr>m_numMsgs := m_numMsgs s - int (length wcs)\<rparr>)) (\<lambda>_.
         bindA (release_tasks wcs) (\<lambda>bad.
         bindA (throw_if bad (Exception ''Error occurred during polling'')) (\<lambda>_.
         if length wcs = POLL_BATCH \<and> tot + length wcs < MAX_POLLING
         then local_loop (tot + length wcs) else retA ())))) s t r s'"
    unfolding local_loop.simps [of tot] acts_bind_callA by blast
  show ?case
  proof (cases "the_poll rep")
    case None
    then show ?thesis using k tr by (simp add: act_simps polled_local_Cons bad_poll_def)
  next
    case (Some wcs)
    define s1 where "s1 = s\<lparr>m_numMsgs := m_numMsgs s - int (length wcs)\<rparr>"
    let ?bad = "\<exists>w \<in> set wcs. \<not> wc_success w"
    from k Some have "acts (bindA (release_tasks wcs) (\<lambda>bad.
         bindA (throw_if bad (Exception ''Error occurred during polling'')) (\<lambda>_.
         if length wcs = POLL_BATCH \<and> tot + length wcs < MAX_POLLING
         then local_loop (tot + length wcs) else retA ()))) s1 t r s'"
      by (simp add: acts_bind_modA s1_def)
    then obtain t1 t2 where t: "t = t1 @ t2" "released t1 = List.map wc_wr_id (filter wc_success wcs)"
        "polled_local t1 = []" "polls t1 = 0" and
      k2: "acts (bindA (throw_if ?bad (Exception ''Error occurred during polling'')) (\<lambda>_.
         if length wcs = POLL_BATCH \<and> tot + length wcs < MAX_POLLING
         then local_loop (tot + length wcs) else retA ())) s1 t2 r s'"
      unfolding acts_bindA [of "release_tasks wcs"] using release_tasks_run by fastforce
    have pl: "polled_local tr = wcs @ polled_local t2" "released tr = released t1 @ released t2"
      "polls tr = Suc (polls t2)"
      using tr t Some by (simp_all add: polled_local_Cons)
    show ?thesis
    proof (cases ?bad)
      case True
      then have e: "t2 = [] \<and> r = Inl (Exception ''Error occurred during polling'') \<and> s' = s1"
        using k2 by (simp add: acts_bind_throw_if)
      then show ?thesis using pl t(2) by (simp add: s1_def bad_poll_def)
    next
      case False
      then have ok: "list_all wc_success wcs" "\<not> list_ex (\<lambda>w. \<not> wc_success w) wcs"
        by (auto simp: list_all_iff list_ex_iff)
      have k3: "acts (if length wcs = POLL_BATCH \<and> tot + length wcs < MAX_POLLING
         then local_loop (tot + length wcs) else retA ()) s1 t2 r s'"
        using k2 False by (simp add: acts_bind_throw_if)
      show ?thesis
      proof (cases "length wcs = POLL_BATCH \<and> tot + length wcs < MAX_POLLING")
        case True
        then have lt: "MAX_POLLING - (tot + length wcs) < MAX_POLLING - tot" by (auto simp: POLL_BATCH_def)
        have "acts (local_loop (tot + length wcs)) s1 t2 r s'" using k3 True by simp
        note ih = less.hyps [OF lt this]
        have "tot + POLL_BATCH * (polls tr - 1) < MAX_POLLING"
        proof (cases "2 \<le> polls t2")
          case two: True
          then obtain k where "polls t2 = Suc k" by (cases "polls t2") auto
          then show ?thesis using ih two True pl(3) by (simp add: POLL_BATCH_def)
        next
          case False
          then have "polls t2 = 1" using ih by simp
          then show ?thesis using pl(3) True by simp
        qed
        moreover have "s' = s\<lparr>m_numMsgs := m_numMsgs s - int (length (polled_local tr))\<rparr>"
          using ih by (simp add: pl s1_def)
        moreover have "released tr = List.map wc_wr_id (filter wc_success (polled_local tr))"
          using ih t(2) pl by simp
        ultimately show ?thesis using ih ok pl by auto
      next
        case stop: False
        have "t2 = [] \<and> r = Inr () \<and> s' = s1" using k3 unfolding if_not_P [OF stop] acts_retA .
        then show ?thesis using pl t(2) ok by (auto simp: s1_def list_all_iff list_ex_iff)
      qed
    qed
  qed
qed

text \<open>
  C23: \<open>doLocalProgress\<close> accounts for every completion the device hands out: \<open>m_numMsgs\<close> drops by their number, and
  for each successful one the event of its task is decreased by one, in order.  It returns only when all of
  them were successful, throws when one was not or the poll failed, and polls at
  most sixteen times per call.
\<close>

theorem doLocalProgress_correct:
  assumes "acts doLocalProgress s tr r s'"
  shows "m_numMsgs s' = m_numMsgs s - int (length (polled_local tr)) \<and> s'\<lparr>m_numMsgs := m_numMsgs s\<rparr> = s \<and>
    released tr = List.map wc_wr_id (filter wc_success (polled_local tr)) \<and>
    (r = Inr () \<and> list_all wc_success (polled_local tr) \<or> bad_poll r) \<and>
    (list_ex (\<lambda>w. \<not> wc_success w) (polled_local tr) \<longrightarrow> r = Inl (Exception ''Error occurred during polling'')) \<and>
    1 \<le> polls tr \<and> polls tr \<le> 16"
proof -
  note l = local_loop_run [OF assms [unfolded doLocalProgress_def]]
  have "polls tr \<le> 16" using l by (cases "2 \<le> polls tr") (auto simp: POLL_BATCH_def MAX_POLLING_def)
  then show ?thesis using l by simp
qed

theorem doLocalProgress_correct_witness:
  "\<exists>s'. acts doLocalProgress demo_transfer
     [(PollCqLocal 8, Poll (Some [\<lparr>wc_success = True, wc_wr_id = 42, wc_imm_data = 0\<rparr>])), (EventsDecrease 42 1, Err 0)] (Inr ()) s' \<and>
   m_numMsgs s' = -1"
proof -
  let ?tr = "[(PollCqLocal 8, Poll (Some [\<lparr>wc_success = True, wc_wr_id = 42, wc_imm_data = 0\<rparr>])), (EventsDecrease 42 1, Err 0)]"
  have "\<exists>s'. acts doLocalProgress demo_transfer ?tr (Inr ()) s'"
    by (simp add: act_defs doLocalProgress_def local_loop.simps [of 0] throw_if_def POLL_BATCH_def)
  then obtain s' where run: "acts doLocalProgress demo_transfer ?tr (Inr ()) s'" by blast
  have "m_numMsgs demo_transfer = 0" by (simp add: demo_transfer_def ibverbs_init_def)
  then have "m_numMsgs s' = -1" using doLocalProgress_correct [OF run] by simp
  then show ?thesis using run by blast
qed

section \<open>Remote completions\<close>

text \<open>The counters after counting the completions \<open>ws\<close>.\<close>

definition arrived :: "nat \<Rightarrow> wc list \<Rightarrow> nat" where
  "arrived k ws = length (filter (\<lambda>w. recv_index w = k) ws)"

lemma arrived_simps [simp]:
  "arrived k [] = 0" "arrived k (w # ws) = (if recv_index w = k then 1 else 0) + arrived k ws"
  "arrived k (ws @ vs) = arrived k ws + arrived k vs"
  by (simp_all add: arrived_def)

definition counted :: "ibverbs \<Rightarrow> wc list \<Rightarrow> ibverbs \<Rightarrow> bool" where
  "counted s ws s' \<longleftrightarrow>
     s'\<lparr>m_recvCounts := m_recvCounts s\<rparr> = s \<and> length (m_recvCounts s') = length (m_recvCounts s) \<and>
     (\<forall>k<length (m_recvCounts s). m_recvCounts s' ! k = m_recvCounts s ! k + int (arrived k ws))"

lemma counted_Nil [simp]: "counted s [] s"
  by (simp add: counted_def)

lemma counted_trans:
  assumes "counted s ws s1" and "counted s1 vs s'"
  shows "counted s (ws @ vs) s'"
proof -
  have "s'\<lparr>m_recvCounts := m_recvCounts s\<rparr> = (s'\<lparr>m_recvCounts := m_recvCounts s1\<rparr>)\<lparr>m_recvCounts := m_recvCounts s\<rparr>" by simp
  also have "\<dots> = s" using assms by (simp add: counted_def)
  finally show ?thesis using assms by (simp add: counted_def)
qed

lemma counted_one:
  assumes "length (m_recvCounts s) = 1024"
  shows "counted s [w] (s\<lparr>m_recvCounts := (m_recvCounts s)[recv_index w := m_recvCounts s ! recv_index w + 1]\<rparr>)"
  using assms by (simp add: counted_def nth_list_update)

lemma count_remote_run:
  assumes "acts (count_remote ws) s tr r s'" and "length (m_recvCounts s) = 1024"
  shows "r = Inr () \<and> counted s ws s' \<and> recvs_posted tr = length ws \<and> polled_remote tr = [] \<and> polls tr = 0"
  using assms
proof (induction ws arbitrary: s tr)
  case Nil
  then show ?case by (simp add: act_simps)
next
  case (Cons w ws)
  define s1 where "s1 = s\<lparr>m_recvCounts := (m_recvCounts s)[recv_index w := m_recvCounts s ! recv_index w + 1]\<rparr>"
  obtain rep t where tr: "tr = (PostSrqRecv, rep) # t" and run: "acts (count_remote ws) s1 t r s'"
    using Cons.prems(1) by (auto simp: act_simps s1_def)
  have one: "counted s [w] s1" unfolding s1_def by (rule counted_one [OF Cons.prems(2)])
  have len: "length (m_recvCounts s1) = 1024" using Cons.prems(2) by (simp add: s1_def)
  from Cons.IH [OF run len] show ?case using counted_trans [OF one] tr by auto
qed

lemma remote_loop_run:
  assumes "acts (remote_loop tot) s tr r s'" and "length (m_recvCounts s) = 1024"
  shows "r = Inr () \<and> counted s (polled_remote tr) s' \<and> recvs_posted tr = length (polled_remote tr) \<and>
    1 \<le> polls tr \<and> (2 \<le> polls tr \<longrightarrow> tot + POLL_BATCH * (polls tr - 1) < MAX_POLLING)"
  using assms
proof (induction "MAX_POLLING - tot" arbitrary: tot s tr rule: less_induct)
  case less
  from less.prems(1) obtain rep t where tr: "tr = (PollCqRemote POLL_BATCH, rep) # t" and
    k: "acts (case the_poll rep of
       None \<Rightarrow> retA ()
     | Some wcs \<Rightarrow>
         bindA (count_remote wcs) (\<lambda>_.
         if length wcs = POLL_BATCH \<and> tot + length wcs < MAX_POLLING
         then remote_loop (tot + length wcs) else retA ())) s t r s'"
    unfolding remote_loop.simps [of tot] acts_bind_callA by blast
  show ?case
  proof (cases "the_poll rep")
    case None
    then show ?thesis using k tr by (simp add: act_simps polled_local_Cons)
  next
    case (Some wcs)
    let ?next = "if length wcs = POLL_BATCH \<and> tot + length wcs < MAX_POLLING
         then remote_loop (tot + length wcs) else retA ()"
    from k Some have "acts (bindA (count_remote wcs) (\<lambda>_. ?next)) s t r s'" by simp
    then obtain t1 t2 s1 where t: "t = t1 @ t2" "counted s wcs s1" "recvs_posted t1 = length wcs"
        "polled_remote t1 = []" "polls t1 = 0" and k2: "acts ?next s1 t2 r s'"
      unfolding acts_bindA [of "count_remote wcs"] using count_remote_run [OF _ less.prems(2)] by fastforce
    have pl: "polled_remote tr = wcs @ polled_remote t2" "recvs_posted tr = length wcs + recvs_posted t2"
      "polls tr = Suc (polls t2)"
      using tr t Some by (simp_all add: polled_local_Cons)
    have len: "length (m_recvCounts s1) = 1024" using t(2) less.prems(2) by (simp add: counted_def)
    show ?thesis
    proof (cases "length wcs = POLL_BATCH \<and> tot + length wcs < MAX_POLLING")
      case True
      then have lt: "MAX_POLLING - (tot + length wcs) < MAX_POLLING - tot" by (auto simp: POLL_BATCH_def)
      have "acts (remote_loop (tot + length wcs)) s1 t2 r s'" using k2 True by simp
      note ih = less.hyps [OF lt this len]
      have "tot + POLL_BATCH * (polls tr - 1) < MAX_POLLING"
      proof (cases "2 \<le> polls t2")
        case two: True
        then obtain k where "polls t2 = Suc k" by (cases "polls t2") auto
        then show ?thesis using ih two True pl(3) by (simp add: POLL_BATCH_def)
      next
        case False
        then have "polls t2 = 1" using ih by simp
        then show ?thesis using pl(3) True by simp
      qed
      then show ?thesis using ih pl counted_trans [OF t(2)] by simp
    next
      case stop: False
      have "t2 = [] \<and> r = Inr () \<and> s' = s1" using k2 unfolding if_not_P [OF stop] acts_retA .
      then show ?thesis using pl t(2) by simp
    qed
  qed
qed

text \<open>
  C24: \<open>doRemoteProgress\<close> counts every remote completion once, in the counter selected by its immediate modulo 1024,
  changes nothing else of the object, posts one new receive for each of them so that the number of
  posted receives stays as it was, never fails, and polls at most sixteen times per call.
\<close>

theorem doRemoteProgress_correct:
  assumes "acts doRemoteProgress s tr r s'" and "length (m_recvCounts s) = 1024"
  shows "r = Inr () \<and> s'\<lparr>m_recvCounts := m_recvCounts s\<rparr> = s \<and>
    (\<forall>k<1024. m_recvCounts s' ! k = m_recvCounts s ! k +
       int (length (filter (\<lambda>w. unat (wc_imm_data w) mod 1024 = k) (polled_remote tr)))) \<and>
    recvs_posted tr = length (polled_remote tr) \<and> 1 \<le> polls tr \<and> polls tr \<le> 16"
proof -
  note l = remote_loop_run [OF assms(1) [unfolded doRemoteProgress_def] assms(2)]
  have "polls tr \<le> 16" using l by (cases "2 \<le> polls tr") (auto simp: POLL_BATCH_def MAX_POLLING_def)
  then show ?thesis using l assms(2) by (simp add: counted_def arrived_def recv_index_def)
qed

theorem doRemoteProgress_correct_witness:
  "\<exists>r s'. acts doRemoteProgress (demo_transfer\<lparr>m_recvCounts := replicate 1024 0\<rparr>)
     [(PollCqRemote 8, Poll (Some [\<lparr>wc_success = True, wc_wr_id = 0, wc_imm_data = 1031\<rparr>])), (PostSrqRecv, Err 0)] r s' \<and>
   m_recvCounts s' ! 7 = 1"
proof -
  let ?s = "demo_transfer\<lparr>m_recvCounts := replicate 1024 0\<rparr>"
  let ?tr = "[(PollCqRemote 8, Poll (Some [\<lparr>wc_success = True, wc_wr_id = 0, wc_imm_data = 1031\<rparr>])), (PostSrqRecv, Err 0)]"
  have "\<exists>r s'. acts doRemoteProgress ?s ?tr r s'"
    by (simp add: act_defs doRemoteProgress_def remote_loop.simps [of 0] POLL_BATCH_def)
  then obtain r s' where run: "acts doRemoteProgress ?s ?tr r s'" by blast
  have "polled_remote ?tr = [\<lparr>wc_success = True, wc_wr_id = 0, wc_imm_data = 1031\<rparr>]"
    by (simp add: polled_local_Cons)
  then have "m_recvCounts s' ! 7 = 1" using doRemoteProgress_correct [OF run] by simp
  then show ?thesis using run by blast
qed

section \<open>The synchronisation request as a state machine\<close>

text \<open>The counter of the running superstep, when the number of supersteps has not overflowed.\<close>

definition counter_ok :: "ibverbs \<Rightarrow> bool" where
  "counter_ok s \<longleftrightarrow> unat (m_sync_counter s) < 2 ^ 31 \<and> length (m_recvCounts s) = 1024"

definition round_index :: "ibverbs \<Rightarrow> nat" where
  "round_index s = unat (m_sync_counter s) mod 1024"

lemma sync_index_ok: "counter_ok s \<Longrightarrow> sync_index (m_sync_counter s) = Inr (round_index s)"
  by (simp add: counter_ok_def sync_index_def round_index_def)

text \<open>
  The phases of a request: waiting for the remote completions, waiting for the barrier, and none.
\<close>

datatype sync_phase = NoRequest | AwaitMessages int | AwaitBarrier

definition phase_of :: "ibverbs \<Rightarrow> sync_phase" where
  "phase_of s =
     (let q = syncRequest s in
      if \<not> isActive q then NoRequest
      else if withBarrier q \<and> secondPhase q then AwaitBarrier
      else AwaitMessages (sr_remoteMsgs q))"

text \<open>The remote completions of the running superstep that have been counted and not used up.\<close>

definition arrivals :: "ibverbs \<Rightarrow> int" where
  "arrivals s = m_recvCounts s ! round_index s"

text \<open>
  The request as a machine: what one call may do, with the calls it makes.  \<open>b\<close> tells whether the
  request has a barrier, and \<open>t\<close> is its task.
\<close>

inductive sync_step :: "bool \<Rightarrow> task \<Rightarrow> sync_phase \<Rightarrow> int \<Rightarrow> call list \<Rightarrow> sync_phase \<Rightarrow> int \<Rightarrow> bool" for b t where
  keep_waiting: "a < n \<Longrightarrow> sync_step b t (AwaitMessages n) a [] (AwaitMessages n) a"
| start_barrier: "n \<le> a \<Longrightarrow> b \<Longrightarrow>
    sync_step b t (AwaitMessages n) a [Ibarrier SyncRequestHandle] AwaitBarrier (a - n)"
| finish_now: "n \<le> a \<Longrightarrow> \<not> b \<Longrightarrow>
    sync_step b t (AwaitMessages n) a [EventsDecrease t 1] NoRequest (a - n)"
| barrier_pending: "sync_step b t AwaitBarrier a [TestRequest SyncRequestHandle] AwaitBarrier a"
| barrier_done: "sync_step b t AwaitBarrier a [TestRequest SyncRequestHandle, EventsDecrease t 1] NoRequest a"

inductive_simps sync_step_simps:
  "sync_step b t (AwaitMessages n) a cs p' a'"
  "sync_step b t AwaitBarrier a cs p' a'"
  "sync_step b t NoRequest a cs p' a'"

text \<open>
  C22: \<open>processSyncRequest\<close> implements the machine.  On an active request each call is one step of \<open>sync_step\<close>:
  nothing happens while fewer completions than announced have arrived; then exactly the announced number is
  used up, and the task is released at once, or after a barrier that is entered once. A
  step that releases the task is the one that ends the request and opens the next superstep.
\<close>

theorem processSyncRequest_refines:
  assumes "acts processSyncRequest s tr r s'" and "isActive (syncRequest s)" and "counter_ok s"
  shows "r = Inr () \<and>
    sync_step (withBarrier (syncRequest s)) (request_task s) (phase_of s) (arrivals s)
      (List.map fst tr) (phase_of s') (m_recvCounts s' ! round_index s) \<and>
    (\<forall>k. k \<noteq> round_index s \<longrightarrow> m_recvCounts s' ! k = m_recvCounts s ! k) \<and>
    m_sync_counter s' = m_sync_counter s + (if phase_of s' = NoRequest then 1 else 0) \<and>
    m_numMsgs s' = m_numMsgs s \<and> m_numMsgsSync s' = m_numMsgsSync s"
proof (cases "withBarrier (syncRequest s) \<and> secondPhase (syncRequest s)")
  case True
  then have p: "phase_of s = AwaitBarrier" using assms(2) by (simp add: phase_of_def)
  from assms(1) True obtain rep tr' where "tr = (TestRequest SyncRequestHandle, rep) # tr'"
    and k: "if the_num rep = 1
      then (\<exists>rep'. tr' = [(EventsDecrease (request_task s) 1, rep')]) \<and> r = Inr () \<and>
        s' = end_request (s\<lparr>syncRequest := (syncRequest s)\<lparr>secondPhase := False\<rparr>\<rparr>)
      else tr' = [] \<and> r = Inr () \<and> s' = s"
    by (auto simp: processSyncRequest_def act_simps split: if_splits)
  then show ?thesis using p assms(2)
    by (cases "the_num rep = 1")
       (auto simp: sync_step_simps arrivals_def phase_of_def end_request_def round_index_def)
next
  case False
  then have p: "phase_of s = AwaitMessages (sr_remoteMsgs (syncRequest s))"
    using assms(2) by (auto simp: phase_of_def)
  let ?n = "sr_remoteMsgs (syncRequest s)"
  let ?i = "round_index s"
  have i: "?i < length (m_recvCounts s)" using assms(3) by (simp add: counter_ok_def round_index_def)
  define s1 where "s1 = s\<lparr>m_recvCounts := (m_recvCounts s)[?i := m_recvCounts s ! ?i - ?n],
     syncRequest := (syncRequest s)\<lparr>sr_remoteMsgs := 0\<rparr>\<rparr>"
  have k: "if ?n \<le> m_recvCounts s ! ?i then
      (if withBarrier (syncRequest s)
       then (\<exists>rep. tr = [(Ibarrier SyncRequestHandle, rep)]) \<and> r = Inr () \<and>
         s' = s1\<lparr>syncRequest := (syncRequest s1)\<lparr>secondPhase := True\<rparr>\<rparr>
       else (\<exists>rep. tr = [(EventsDecrease (request_task s) 1, rep)]) \<and> r = Inr () \<and> s' = end_request s1)
    else tr = [] \<and> r = Inr () \<and> s' = s"
    using assms(1) False sync_index_ok [OF assms(3)]
    by (auto simp: processSyncRequest_def act_simps s1_def split: if_splits)
  show ?thesis
  proof (cases "?n \<le> m_recvCounts s ! ?i")
    case True
    then show ?thesis using k p assms(2) i False
      by (cases "withBarrier (syncRequest s)")
         (auto simp: sync_step_simps arrivals_def phase_of_def end_request_def s1_def)
  next
    case False
    then show ?thesis using k p by (auto simp: sync_step_simps arrivals_def)
  qed
qed

definition demo_request :: ibverbs where
  "demo_request = demo_transfer\<lparr>m_recvCounts := (replicate 1024 0)[7 := 3],
     syncRequest := \<lparr>isActive = True, withBarrier = False, sr_remoteMsgs = 2, sr_task = Some 5, secondPhase = False\<rparr>\<rparr>"

theorem processSyncRequest_refines_witness:
  "\<exists>r s'. acts processSyncRequest demo_request [(EventsDecrease 5 1, Err 0)] r s' \<and>
     sync_step False 5 (AwaitMessages 2) 3 [EventsDecrease 5 1] NoRequest 1 \<and> m_sync_counter s' = 8"
proof -
  have ok: "isActive (syncRequest demo_request)" "counter_ok demo_request"
    by (simp_all add: demo_request_def demo_transfer_def counter_ok_def)
  have facts: "withBarrier (syncRequest demo_request) = False" "request_task demo_request = 5"
    "phase_of demo_request = AwaitMessages 2" "arrivals demo_request = 3" "m_sync_counter demo_request = 7"
    "round_index demo_request = 7" "sr_remoteMsgs (syncRequest demo_request) = 2"
    by (simp_all add: demo_request_def demo_transfer_def request_task_def phase_of_def arrivals_def round_index_def)
  have "\<exists>r s'. acts processSyncRequest demo_request [(EventsDecrease 5 1, Err 0)] r s'"
    using facts ok sync_index_ok [OF ok(2)] by (simp add: processSyncRequest_def act_simps arrivals_def)
  then obtain r s' where run: "acts processSyncRequest demo_request [(EventsDecrease 5 1, Err 0)] r s'" by blast
  have st: "sync_step False 5 (AwaitMessages 2) 3 [EventsDecrease 5 1] (phase_of s') (m_recvCounts s' ! 7)"
    and c: "m_sync_counter s' = 7 + (if phase_of s' = NoRequest then 1 else 0)"
    using processSyncRequest_refines [OF run ok] facts by simp_all
  then have "phase_of s' = NoRequest \<and> m_recvCounts s' ! 7 = 1" by (simp add: sync_step_simps)
  then show ?thesis using run st c by auto
qed

section \<open>Entering sync\<close>

text \<open>
  the attribute of \<open>lpf_sync\<close> is decoded as its macros encode it: for fewer than \<open>2 ^ 29\<close> messages
  \<open>LPF_SYNC_MSG(n)\<close> has its mode and the value \<open>n\<close>, with or without the barrier bit, which is read back; the
  default always has a barrier, the cached mode only on request.
\<close>

theorem sync_attr_roundtrip:
  assumes "n < 2 ^ 29"
  shows "sync_mode (LPF_SYNC_MSG n) = LPF_SYNC_MSG 0 \<and> sync_value (LPF_SYNC_MSG n) = n \<and> \<not> sync_barrier (LPF_SYNC_MSG n) \<and>
    sync_mode (LPF_SYNC_MSG n OR LPF_SYNC_BARRIER) = LPF_SYNC_MSG 0 \<and>
    sync_value (LPF_SYNC_MSG n OR LPF_SYNC_BARRIER) = n \<and> sync_barrier (LPF_SYNC_MSG n OR LPF_SYNC_BARRIER) \<and>
    sync_mode LPF_SYNC_CACHED = LPF_SYNC_CACHED \<and> \<not> sync_barrier LPF_SYNC_CACHED \<and>
    sync_barrier (LPF_SYNC_CACHED OR LPF_SYNC_BARRIER) \<and>
    sync_mode LPF_SYNC_DEFAULT = LPF_SYNC_DEFAULT \<and> sync_barrier LPF_SYNC_DEFAULT"
proof -
  have "mask 29 = (0x1FFFFFFF :: 32 word)" by (simp add: mask_eq_exp_minus_1)
  moreover have "n AND mask 29 = n" using assms by (intro less_mask_eq) simp
  ultimately have low: "n AND 0x1FFFFFFF = n" by simp
  have cut: "n AND c = n AND (0x1FFFFFFF AND c)" for c
    using low by (metis and.assoc)
  have zero: "n AND 0x60000000 = 0" "n AND 0x80000000 = 0" "n AND 0x20000000 = 0"
    by (subst cut, simp)+
  have "0x20000000 + n = 0x20000000 OR n"
    using word_plus_and_or [of "0x20000000" n] zero(3) by (simp add: and.commute)
  then have msg: "LPF_SYNC_MSG n = 0x20000000 OR n" by (simp add: LPF_SYNC_MSG_def)
  have val: "NOT (LPF_SYNC_MODE OR LPF_SYNC_BARRIER) = 0x1FFFFFFF"
    by (simp add: LPF_SYNC_MODE_def LPF_SYNC_BARRIER_def)
  show ?thesis
    unfolding sync_mode_def sync_value_def sync_barrier_def msg val
    by (simp add: LPF_SYNC_MODE_def LPF_SYNC_BARRIER_def LPF_SYNC_DEFAULT_def LPF_SYNC_CACHED_def LPF_SYNC_MSG_def
        word_ao_dist zero low)
qed

theorem sync_attr_roundtrip_witness:
  "sync_value (LPF_SYNC_MSG 12 OR LPF_SYNC_BARRIER) = 12"
  using sync_attr_roundtrip [of 12] by simp

lemma exchange_counts_run:
  assumes "acts (exchange_counts cs i pid acc) s tr r s'"
  shows "s' = s \<and> List.map fst tr = List.map AllreduceSum cs \<and>
    r = Inr (if i \<le> pid \<and> pid < i + length cs then the_num (snd (tr ! (pid - i))) else acc)"
  using assms
proof (induction cs arbitrary: i acc tr)
  case Nil
  then show ?case by (simp add: act_simps)
next
  case (Cons c cs)
  from Cons.prems obtain rep t where tr: "tr = (AllreduceSum c, rep) # t"
    and run: "acts (exchange_counts cs (i + 1) pid (if i = pid then the_num rep else acc)) s t r s'"
    by (auto simp: act_simps)
  note ih = Cons.IH [OF run]
  have "r = Inr (if i \<le> pid \<and> pid < i + length (c # cs) then the_num (snd (tr ! (pid - i))) else acc)"
  proof (cases "pid = i")
    case True
    then show ?thesis using ih tr by simp
  next
    case False
    then show ?thesis using ih tr by (auto simp: nth_Cons')
  qed
  then show ?case using ih tr by simp
qed

lemma coll_kinds_sums: "List.map fst tr = List.map AllreduceSum cs \<Longrightarrow>
    collectives tr = tr \<and> coll_kinds tr = replicate (length cs) KSum"
  by (induction tr arbitrary: cs) (auto simp: map_eq_Cons_conv Cons_eq_map_conv)

text \<open>The request that \<open>sync\<close> leaves behind.\<close>

definition requested :: "ibverbs \<Rightarrow> 32 word \<Rightarrow> int \<Rightarrow> task \<Rightarrow> ibverbs \<Rightarrow> bool" where
  "requested s attr n t s' \<longleftrightarrow>
     isActive (syncRequest s') \<and> withBarrier (syncRequest s') = sync_barrier attr \<and>
     sr_remoteMsgs (syncRequest s') = n \<and> sr_task (syncRequest s') = Some t \<and>
     m_numMsgsSync s' = replicate (m_nprocs s) 0 \<and> m_sync_counter s' = m_sync_counter s \<and>
     m_recvCounts s' = m_recvCounts s"

lemma sync_commit_fresh_run:
  assumes "acts (sync_commit attr) s tr r s'" and "\<not> isActive (syncRequest s)"
    and "sync_mode attr = LPF_SYNC_DEFAULT \<or> sync_mode attr = LPF_SYNC_CACHED \<and> \<not> m_sync_cached s"
    and "length (m_numMsgsSync s) = m_nprocs s" and "m_pid s < m_nprocs s"
  shows "\<exists>t1 t e. tr = t1 @ [(TaskSelf, t), (EventsIncrease (the_task t) 1, e)] \<and> r = Inr () \<and>
    List.map fst t1 = List.map AllreduceSum (m_numMsgsSync s) \<and>
    requested s attr (the_num (snd (t1 ! m_pid s))) (the_task t) s' \<and>
    m_sync_cached s' = (sync_mode attr = LPF_SYNC_CACHED) \<and>
    m_sync_cached_value s' = the_num (snd (t1 ! m_pid s))"
proof -
  have ne: "LPF_SYNC_CACHED \<noteq> LPF_SYNC_DEFAULT" by (simp add: LPF_SYNC_CACHED_def LPF_SYNC_DEFAULT_def)
  define s0 where "s0 = s\<lparr>m_numMsgsSync := replicate (m_nprocs s) 0,
     m_sync_cached := (if sync_mode attr = LPF_SYNC_CACHED then True else m_sync_cached s)\<rparr>"
  let ?d = "sync_mode attr \<noteq> LPF_SYNC_CACHED"
  define rest where "rest n = bindA getA (\<lambda>s.
     bindA (throw_if (isActive (syncRequest s)) (Exception ''There is another sync request active'')) (\<lambda>_.
     bindA (modA (\<lambda>s. s\<lparr>syncRequest := (syncRequest s)\<lparr>withBarrier := sync_barrier attr, sr_remoteMsgs := n\<rparr>\<rparr>)) (\<lambda>_.
     bindA announce (\<lambda>task.
     modA (\<lambda>s. s\<lparr>syncRequest := (syncRequest s)\<lparr>sr_task := Some task, isActive := True\<rparr>\<rparr>)))))" for n :: int
  have pid: "m_pid s0 = m_pid s" by (simp add: s0_def)
  have same: "m_sync_cached s0 = (sync_mode attr = LPF_SYNC_CACHED \<or> m_sync_cached s)" by (simp add: s0_def)
  have "acts (bindA (exchange_counts (m_numMsgsSync s) 0 (m_pid s) 0) (\<lambda>n.
      bindA (modA (\<lambda>s. s\<lparr>m_sync_cached := (if ?d then False else m_sync_cached s), m_sync_cached_value := n\<rparr>)) (\<lambda>_. rest n))) s0 tr r s'"
    using assms(1,3,4) ne unfolding sync_commit_def rest_def [symmetric] take_counts_def remote_msgs_def fresh_counts_def
    by (auto simp: act_simps monad_laws s0_def)
  then obtain t1 t2 n where tr: "tr = t1 @ t2" "List.map fst t1 = List.map AllreduceSum (m_numMsgsSync s)"
      "n = the_num (snd (t1 ! m_pid s))"
    and k: "acts (rest n) (s0\<lparr>m_sync_cached := (if ?d then False else m_sync_cached s0), m_sync_cached_value := n\<rparr>) t2 r s'"
    unfolding acts_bindA [of "exchange_counts (m_numMsgsSync s) 0 (m_pid s) 0"] acts_bind_modA
    using exchange_counts_run [of "m_numMsgsSync s" 0 "m_pid s" 0 s0] assms(4,5) by fastforce
  from k assms(2) obtain t e where "t2 = [(TaskSelf, t), (EventsIncrease (the_task t) 1, e)]" "r = Inr ()"
    and s': "s' = (s0\<lparr>m_sync_cached := (if ?d then False else m_sync_cached s0), m_sync_cached_value := n\<rparr>)
      \<lparr>syncRequest := (syncRequest s)\<lparr>withBarrier := sync_barrier attr, sr_remoteMsgs := n, sr_task := Some (the_task t), isActive := True\<rparr>\<rparr>"
    unfolding rest_def by (auto simp: act_simps acts_bind_announce s0_def)
  moreover have "requested s attr n (the_task t) s'" "m_sync_cached_value s' = n"
    by (simp_all add: requested_def s' s0_def)
  moreover have "m_sync_cached s' = (sync_mode attr = LPF_SYNC_CACHED)" by (simp add: s' same)
  ultimately show ?thesis using tr by blast
qed

text \<open>
  C21: the default \<open>sync\<close> announces exactly the traffic of the superstep.  When all processes commit a default
  synchronisation they make matching collective calls, nobody throws, and the request of process \<open>i\<close>
  waits, with a barrier, for as many remote completions as all processes together have counted
  for \<open>i\<close>; the counters start the next superstep at zero and the cached number is discarded.
\<close>

theorem sync_commit_counts:
  assumes "collectives_ok trs" and "length trs = n"
    and "\<forall>i<n. acts (sync_commit LPF_SYNC_DEFAULT) (s i) (trs ! i) (r i) (s' i)"
    and "\<forall>i<n. \<not> isActive (syncRequest (s i)) \<and> m_pid (s i) = i \<and> m_nprocs (s i) = n \<and> length (m_numMsgsSync (s i)) = n"
  shows "matched trs \<and>
    (\<forall>i<n. r i = Inr () \<and> (\<exists>t. requested (s i) LPF_SYNC_DEFAULT (\<Sum>j<n. m_numMsgsSync (s j) ! i) t (s' i)) \<and>
      withBarrier (syncRequest (s' i)) \<and> \<not> m_sync_cached (s' i))"
proof -
  have modes: "sync_mode LPF_SYNC_DEFAULT = LPF_SYNC_DEFAULT" "LPF_SYNC_DEFAULT \<noteq> LPF_SYNC_CACHED" "sync_barrier LPF_SYNC_DEFAULT"
    by (simp_all add: sync_mode_def sync_barrier_def LPF_SYNC_DEFAULT_def LPF_SYNC_CACHED_def)
  have "\<exists>t1 t e. trs ! i = t1 @ [(TaskSelf, t), (EventsIncrease (the_task t) 1, e)] \<and> r i = Inr () \<and>
    List.map fst t1 = List.map AllreduceSum (m_numMsgsSync (s i)) \<and>
    requested (s i) LPF_SYNC_DEFAULT (the_num (snd (t1 ! i))) (the_task t) (s' i) \<and> \<not> m_sync_cached (s' i)" if i: "i < n" for i
    using sync_commit_fresh_run [of LPF_SYNC_DEFAULT "s i" "trs ! i" "r i" "s' i"] assms(3,4) i modes by auto
  then obtain t1 t e where run: "\<And>i. i < n \<Longrightarrow> trs ! i = t1 i @ [(TaskSelf, t i), (EventsIncrease (the_task (t i)) 1, e i)] \<and> r i = Inr () \<and>
    List.map fst (t1 i) = List.map AllreduceSum (m_numMsgsSync (s i)) \<and>
    requested (s i) LPF_SYNC_DEFAULT (the_num (snd (t1 i ! i))) (the_task (t i)) (s' i) \<and> \<not> m_sync_cached (s' i)" by metis
  have c: "collectives (trs ! i) = t1 i" "coll_kinds (trs ! i) = replicate n KSum" "length (t1 i) = n"
    "\<And>k. k < n \<Longrightarrow> fst (t1 i ! k) = AllreduceSum (m_numMsgsSync (s i) ! k)" if i: "i < n" for i
  proof -
    have f: "List.map fst (t1 i) = List.map AllreduceSum (m_numMsgsSync (s i))" and l: "length (m_numMsgsSync (s i)) = n"
      using run [OF i] assms(4) i by auto
    show "collectives (trs ! i) = t1 i" "coll_kinds (trs ! i) = replicate n KSum"
      using coll_kinds_sums [OF f] run [OF i] l by auto
    show len: "length (t1 i) = n" using arg_cong [OF f, of length] l by simp
    show "fst (t1 i ! k) = AllreduceSum (m_numMsgsSync (s i) ! k)" if "k < n" for k
      using arg_cong [OF f, of "\<lambda>xs. xs ! k"] that l len by simp
  qed
  have sm: "the_num (snd (t1 i ! i)) = (\<Sum>j<n. m_numMsgsSync (s j) ! i)" if i: "i < n" for i
  proof -
    have m: "round_matched trs i"
      by (rule round_matchedI [where c = KSum]) (use c i assms(2) in auto)
    have "collectives (trs ! i) ! i = (AllreduceSum (m_numMsgsSync (s i) ! i), snd (t1 i ! i))"
      using c [OF i] i by (metis prod.collapse)
    from round_sum [OF assms(1) _ m this]
    have "snd (t1 i ! i) = Num (\<Sum>j<n. case fst (collectives (trs ! j) ! i) of AllreduceSum y \<Rightarrow> y | _ \<Rightarrow> 0)"
      using assms(2) i by simp
    moreover have "(\<Sum>j<n. case fst (collectives (trs ! j) ! i) of AllreduceSum y \<Rightarrow> y | _ \<Rightarrow> 0) = (\<Sum>j<n. m_numMsgsSync (s j) ! i)"
      by (rule sum.cong) (use c i in auto)
    ultimately show ?thesis by simp
  qed
  have all: "r i = Inr () \<and> (\<exists>t. requested (s i) LPF_SYNC_DEFAULT (\<Sum>j<n. m_numMsgsSync (s j) ! i) t (s' i)) \<and>
      withBarrier (syncRequest (s' i)) \<and> \<not> m_sync_cached (s' i)" if i: "i < n" for i
    using run [OF i] sm [OF i] modes(3) by (auto simp: requested_def)
  have "matched trs" by (rule matchedI) (use c(2) assms(2) in blast)
  then show ?thesis using all by blast
qed

definition demo_sender :: "nat \<Rightarrow> ibverbs" where
  "demo_sender i = (ibverbs_init i 2 1 (-1) IBV_MTU_4096)\<lparr>m_numMsgsSync := (if i = 0 then [1, 2] else [3, 4])\<rparr>"

definition demo_commit :: "nat \<Rightarrow> event list" where
  "demo_commit i = [(AllreduceSum (if i = 0 then 1 else 3), Num 4), (AllreduceSum (if i = 0 then 2 else 4), Num 6),
     (TaskSelf, Handle (Some 9)), (EventsIncrease 9 1, Err 0)]"

theorem sync_commit_counts_witness:
  "\<exists>s'. acts (sync_commit LPF_SYNC_DEFAULT) (demo_sender 1) (demo_commit 1) (Inr ()) s' \<and>
     sr_remoteMsgs (syncRequest s') = 6"
proof -
  let ?trs = "[demo_commit 0, demo_commit 1]"
  have ok: "collectives_ok ?trs"
    by (simp add: collectives_ok_def demo_commit_def lessThan_Suc round_ok_def sum_args_def)
  have modes: "sync_mode LPF_SYNC_DEFAULT = LPF_SYNC_DEFAULT" "LPF_SYNC_DEFAULT \<noteq> LPF_SYNC_CACHED"
    by (simp_all add: sync_mode_def LPF_SYNC_DEFAULT_def LPF_SYNC_CACHED_def)
  have "\<exists>r s'. acts (sync_commit LPF_SYNC_DEFAULT) (demo_sender i) (demo_commit i) r s'" for i
    using modes by (simp add: act_defs sync_commit_def take_counts_def remote_msgs_def fresh_counts_def
        demo_sender_def ibverbs_init_def demo_commit_def throw_if_def announce_def)
  then obtain r s' where run: "\<And>i. acts (sync_commit LPF_SYNC_DEFAULT) (demo_sender i) (demo_commit i) (r i) (s' i)" by metis
  have at: "?trs ! i = demo_commit i" if "i < 2" for i using that by (cases i) auto
  have h1: "\<forall>i<2. acts (sync_commit LPF_SYNC_DEFAULT) (demo_sender i) (?trs ! i) (r i) (s' i)" using run at by simp
  have h2: "\<forall>i<2. \<not> isActive (syncRequest (demo_sender i)) \<and> m_pid (demo_sender i) = i \<and> m_nprocs (demo_sender i) = 2 \<and>
      length (m_numMsgsSync (demo_sender i)) = 2"
    by (simp add: demo_sender_def ibverbs_init_def)
  have sm: "(\<Sum>j<2. m_numMsgsSync (demo_sender j) ! 1) = 6" by (simp add: demo_sender_def numeral_2_eq_2)
  have len: "length ?trs = 2" by simp
  have "r 1 = Inr () \<and> (\<exists>t. requested (demo_sender 1) LPF_SYNC_DEFAULT (\<Sum>j<2. m_numMsgsSync (demo_sender j) ! 1) t (s' 1))"
    using sync_commit_counts [OF ok len h1 h2] by (metis one_less_numeral_iff semiring_norm(76))
  then have "r 1 = Inr () \<and> sr_remoteMsgs (syncRequest (s' 1)) = 6" unfolding requested_def sm by blast
  then show ?thesis using run [of 1] by (intro exI [of _ "s' 1"]) simp
qed

end
