(* ===== verification/Message_Queue.thy ===== *)
theory Message_Queue imports Memory_Table Message_Sort Ibverbs_Progress begin

text \<open>
  The queue of the core library, class \<open>MessageQueue\<close> of \<open>src/MPI/mesgqueue.cpp\<close>.  It owns the \<open>IBVerbs\<close> object and
  the memory table that refers to it, keeps the areas of the user in a \<open>MessageSort\<close>, passes
  transfers on with the slots translated, and leads the synchronisation: the registration of new
  global slots, the vote on whether a process aborted or grew its queues, and the request of the superstep.
\<close>

section \<open>State\<close>

text \<open>
  The error codes of \<open>src/MPI/core.cpp\<close>, in the order of severity.  The \<open>IBVerbs\<close> object is the one
  inside the table.
\<close>

type_synonym err_t = int

definition LPF_SUCCESS :: err_t where
  "LPF_SUCCESS = 0"

definition LPF_ERR_OUT_OF_MEMORY :: err_t where
  "LPF_ERR_OUT_OF_MEMORY = 1"

definition LPF_ERR_FATAL :: err_t where
  "LPF_ERR_FATAL = 2"

lemmas err_defs = LPF_SUCCESS_def LPF_ERR_OUT_OF_MEMORY_def LPF_ERR_FATAL_def

record message_queue =
  mq_pid :: nat
  mq_nprocs :: nat
  mq_memRange :: nat
  mq_vote :: "int list"
  mq_maxNMsgs :: nat
  mq_nextMemRegSize :: nat
  mq_resized :: bool
  mq_msgsort :: message_sort
  mq_memreg :: memory_table

type_synonym 'a queue = "(message_queue, 'a) ext"

definition on_table :: "'a table \<Rightarrow> 'a queue" where
  "on_table m = zoomA mq_memreg (\<lambda>t q. q\<lparr>mq_memreg := t\<rparr>) m"

definition on_verbs :: "'a verbs \<Rightarrow> 'a queue" where
  "on_verbs m = on_table (on_ibverbs m)"

definition on_msgsort :: "(message_sort \<Rightarrow> fault + message_sort) \<Rightarrow> unit queue" where
  "on_msgsort f = stateA (\<lambda>q. bindE (f (mq_msgsort q)) (\<lambda>st. Inr ((), q\<lparr>mq_msgsort := st\<rparr>)))"

text \<open>
  The constructor: \<open>ram\<close> and \<open>grain\<close> are the two settings it reads.  An exception leaves no object.
\<close>

definition queue_new ::
  "environment \<Rightarrow> fault + nat \<Rightarrow> nat \<Rightarrow> (nat \<Rightarrow> bool) \<Rightarrow> nat \<Rightarrow> nat \<Rightarrow> nat \<Rightarrow>
     (call, reply, fault + message_queue) prog" where
  "queue_new env ram grain ok mx_slots pid nprocs =
     (case ram of
        Inl e \<Rightarrow> Ret (Inl e)
      | Inr local_ram \<Rightarrow>
          Vis (AllreduceMax local_ram) (\<lambda>rng.
          bindT (ibverbs_new env ram pid nprocs) (\<lambda>(r, v).
          case r of Inl e \<Rightarrow> Ret (Inl e) | Inr _ \<Rightarrow>
          (case table_new ok (the v) of Inl e \<Rightarrow> Ret (Inl e) | Inr t \<Rightarrow>
           bindT (reserve (\<lambda>k. ok (k + 2)) mx_slots 1 t) (\<lambda>(r, t).
           case r of Inl e \<Rightarrow> Ret (Inl e) | Inr _ \<Rightarrow>
           Ret (Inr \<lparr>mq_pid = pid, mq_nprocs = nprocs, mq_memRange = nat (the_num rng), mq_vote = [0, 0],
             mq_maxNMsgs = 0, mq_nextMemRegSize = 0, mq_resized = False,
             mq_msgsort = message_sort_new grain, mq_memreg = t\<rparr>))))))"

section \<open>Capacity\<close>

text \<open>
  \<open>(double) nMsgs > (double) max / 2\<close>: the quotient is \<open>2 ^ 63\<close>, and the smallest \<open>size_t\<close> that rounds to
  a larger double is \<open>2 ^ 63 + 1025\<close>.
\<close>

definition exceeds_half :: "nat \<Rightarrow> bool" where
  "exceeds_half nMsgs \<longleftrightarrow> nMsgs > 9223372036854775808 + 1024"

text \<open>\<open>catch (bad_alloc)\<close> and \<open>catch (length_error)\<close>; other exceptions pass.\<close>

definition no_memory :: "fault \<Rightarrow> bool" where
  "no_memory e \<longleftrightarrow> e = BadAlloc \<or> e = LengthError"

definition or_out_of_memory :: "err_t queue \<Rightarrow> err_t queue" where
  "or_out_of_memory m = catchA m (\<lambda>e. if no_memory e then retA LPF_ERR_OUT_OF_MEMORY else throwA e)"

definition resizeMesgQueue :: "nat \<Rightarrow> err_t queue" where
  "resizeMesgQueue nMsgs =
     bindA getA (\<lambda>q.
     let maxNMsgs = max (mq_maxNMsgs q) nMsgs in
     if nMsgs > SIZE_MAX then retA LPF_ERR_OUT_OF_MEMORY
     else if exceeds_half nMsgs then retA LPF_ERR_OUT_OF_MEMORY
     else bindA (modA (\<lambda>q. q\<lparr>mq_resized := True\<rparr>)) (\<lambda>_.
          or_out_of_memory (bindA (on_verbs (resizeMesgq nMsgs)) (\<lambda>_.
            bindA (modA (\<lambda>q. q\<lparr>mq_maxNMsgs := maxNMsgs\<rparr>)) (\<lambda>_. retA LPF_SUCCESS)))))"

text \<open>The body of the \<open>try\<close>: the table grows, then the range of the sorter.\<close>

definition grow_register :: "(nat \<Rightarrow> bool) \<Rightarrow> nat \<Rightarrow> nat \<Rightarrow> err_t queue" where
  "grow_register ok mx_slots nRegs =
     bindA getA (\<lambda>q.
     if mt_capacity (mq_memreg q) < nRegs + 1
     then bindA (on_table (reserve ok mx_slots (nRegs + 1))) (\<lambda>_.
          bindA (outcomeA (\<lambda>q.
            case setSlotRange (\<lambda>k. ok (k + 10)) (mq_msgsort q) (table_range (mq_memreg q)) of
              (st, e) \<Rightarrow> (q\<lparr>mq_msgsort := st\<rparr>, e))) (\<lambda>_. retA LPF_SUCCESS))
     else retA LPF_SUCCESS)"

definition queue_resizeMemreg :: "(nat \<Rightarrow> bool) \<Rightarrow> nat \<Rightarrow> nat \<Rightarrow> err_t queue" where
  "queue_resizeMemreg ok mx_slots nRegs =
     (if nRegs > SIZE_MAX - 1 then retA LPF_ERR_OUT_OF_MEMORY
      else bindA (or_out_of_memory (grow_register ok mx_slots nRegs)) (\<lambda>rc.
           if rc \<noteq> LPF_SUCCESS then retA LPF_ERR_OUT_OF_MEMORY
           else bindA getA (\<lambda>q.
                bindA (resizeMesgQueue (mq_maxNMsgs q)) (\<lambda>rc.
                if LPF_SUCCESS \<noteq> rc then retA LPF_ERR_OUT_OF_MEMORY
                else bindA (modA (\<lambda>q. q\<lparr>mq_nextMemRegSize := nRegs + 1\<rparr>)) (\<lambda>_. retA LPF_SUCCESS)))))"

section \<open>Registration and transfers\<close>

definition queue_addLocalReg :: "(nat \<Rightarrow> bool) \<Rightarrow> addr \<Rightarrow> nat \<Rightarrow> slot queue" where
  "queue_addLocalReg ok mem sz =
     bindA (on_table (addLocal mem sz)) (\<lambda>i.
     bindA (if sz > 0 then on_msgsort (\<lambda>st. addRegister ok st i mem sz) else retA ()) (\<lambda>_. retA i))"

definition queue_addGlobalReg :: "(nat \<Rightarrow> bool) \<Rightarrow> addr \<Rightarrow> nat \<Rightarrow> slot queue" where
  "queue_addGlobalReg ok mem sz =
     bindA (on_table (addGlobal mem sz)) (\<lambda>i.
     bindA (if sz > 0 then on_msgsort (\<lambda>st. addRegister ok st i mem sz) else retA ()) (\<lambda>_. retA i))"

definition queue_removeReg :: "slot \<Rightarrow> unit queue" where
  "queue_removeReg i =
     bindA (on_table (getSize i)) (\<lambda>sz.
     bindA (if sz > 0 then on_msgsort (\<lambda>st. delRegister st i) else retA ()) (\<lambda>_.
     on_table (table_remove i)))"

definition queue_get :: "nat \<Rightarrow> slot \<Rightarrow> nat \<Rightarrow> slot \<Rightarrow> nat \<Rightarrow> nat \<Rightarrow> unit queue" where
  "queue_get srcPid srcSlot srcOffset dstSlot dstOffset sz =
     bindA (on_table (getVerbID srcSlot)) (\<lambda>src.
     bindA (on_table (getVerbID dstSlot)) (\<lambda>dst.
     on_verbs (get srcPid src srcOffset dst dstOffset sz)))"

definition queue_put :: "slot \<Rightarrow> nat \<Rightarrow> nat \<Rightarrow> slot \<Rightarrow> nat \<Rightarrow> nat \<Rightarrow> unit queue" where
  "queue_put srcSlot srcOffset dstPid dstSlot dstOffset sz =
     bindA (on_table (getVerbID srcSlot)) (\<lambda>src.
     bindA (on_table (getVerbID dstSlot)) (\<lambda>dst.
     on_verbs (put src srcOffset dstPid dst dstOffset sz)))"

definition queue_fetch_and_add :: "slot \<Rightarrow> nat \<Rightarrow> nat \<Rightarrow> slot \<Rightarrow> nat \<Rightarrow> nat \<Rightarrow> unit queue" where
  "queue_fetch_and_add srcSlot srcOffset dstPid dstSlot dstOffset val =
     bindA (on_table (getVerbID srcSlot)) (\<lambda>src.
     bindA (on_table (getVerbID dstSlot)) (\<lambda>dst.
     on_verbs (atomic_fetch_and_add src srcOffset dstPid dst dstOffset val)))"

definition queue_cmp_and_swp :: "slot \<Rightarrow> nat \<Rightarrow> nat \<Rightarrow> slot \<Rightarrow> nat \<Rightarrow> nat \<Rightarrow> nat \<Rightarrow> unit queue" where
  "queue_cmp_and_swp srcSlot srcOffset dstPid dstSlot dstOffset cmp swp =
     bindA (on_table (getVerbID srcSlot)) (\<lambda>src.
     bindA (on_table (getVerbID dstSlot)) (\<lambda>dst.
     on_verbs (atomic_cmp_and_swp src srcOffset dstPid dst dstOffset cmp swp)))"

section \<open>Synchronisation\<close>

text \<open>
  \<open>IBVerbs::sync\<close> as a whole.  While it is blocked in the vote, and while it spins on \<open>m_numMsgs\<close>, the polling
  task works on the same object: \<open>pb\<close> and \<open>pw\<close> are its effects, and \<open>voted\<close> is what the reduction
  has put in its buffer when the task is unblocked.
\<close>

definition ibverbs_sync ::
  "int list \<Rightarrow> 32 word \<Rightarrow> int \<times> int \<Rightarrow> (ibverbs \<Rightarrow> ibverbs) \<Rightarrow> (ibverbs \<Rightarrow> ibverbs) \<Rightarrow> int list verbs" where
  "ibverbs_sync vote attr voted pb pw =
     bindA (sync_vote vote attr) (\<lambda>blocked.
     bindA (if blocked then bindA (modA pb) (\<lambda>_. sync_resume vote voted) else retA None) (\<lambda>stop.
     case stop of
       Some v \<Rightarrow> retA v
     | None \<Rightarrow> bindA (modA pw) (\<lambda>_. bindA (sync_commit attr) (\<lambda>_. retA vote))))"

definition queue_sync ::
  "bool \<Rightarrow> 32 word \<Rightarrow> int \<times> int \<Rightarrow> (ibverbs \<Rightarrow> ibverbs) \<Rightarrow> (ibverbs \<Rightarrow> ibverbs) \<Rightarrow> int queue" where
  "queue_sync abort attr voted pb pw =
     bindA (on_table table_sync) (\<lambda>_.
     bindA (modA (\<lambda>q. q\<lparr>mq_vote := [if abort then 1 else 0, if mq_resized q then 1 else 0]\<rparr>)) (\<lambda>_.
     bindA getA (\<lambda>q.
     bindA (on_verbs (ibverbs_sync (mq_vote q) attr voted pb pw)) (\<lambda>v.
     bindA (modA (\<lambda>q. q\<lparr>mq_vote := v\<rparr>)) (\<lambda>_.
     if v ! 0 \<noteq> 0 then retA (v ! 0)
     else bindA (modA (\<lambda>q. q\<lparr>mq_resized := False\<rparr>)) (\<lambda>_. retA 0))))))"

lemma acts_on_table [act_simps]:
  "acts (on_table m) q tr r q' \<longleftrightarrow> (\<exists>t. acts m (mq_memreg q) tr r t \<and> q' = q\<lparr>mq_memreg := t\<rparr>)"
  by (simp add: on_table_def act_simps)

lemma acts_on_verbs [act_simps]:
  "acts (on_verbs m) q tr r q' \<longleftrightarrow>
     (\<exists>v. acts m (mt_ibverbs (mq_memreg q)) tr r v \<and> q' = q\<lparr>mq_memreg := (mq_memreg q)\<lparr>mt_ibverbs := v\<rparr>\<rparr>)"
  by (auto simp: on_verbs_def act_simps)

lemma acts_on_msgsort [act_simps]:
  "acts (on_msgsort f) q tr r q' \<longleftrightarrow> tr = [] \<and>
     (case f (mq_msgsort q) of Inl e \<Rightarrow> r = Inl e \<and> q' = q
      | Inr st \<Rightarrow> r = Inr () \<and> q' = q\<lparr>mq_msgsort := st\<rparr>)"
  by (auto simp: on_msgsort_def act_simps split: sum.splits)

text \<open>A synchronisation that has no slot to register, in the default mode and in the others.\<close>

lemma table_sync_idle: "\<not> needsSync t \<Longrightarrow> acts table_sync t tr r t' \<longleftrightarrow> tr = [] \<and> r = Inr () \<and> t' = t"
  by (simp add: table_sync_def needsSync_def act_simps)

lemma table_sync_bind:
  "\<not> needsSync (mq_memreg q) \<Longrightarrow> acts (bindA (on_table table_sync) f) q tr r q' \<longleftrightarrow> acts (f ()) q tr r q'"
  by (auto simp: acts_bindA acts_on_table table_sync_idle)

text \<open>The votes of a process: the abort flag and the resize flag that it puts into the reduction.\<close>

fun vote_of :: "call \<Rightarrow> int list option" where
  "vote_of (IallreduceSum v _) = Some v"
| "vote_of _ = None"

definition the_vote :: "bool \<Rightarrow> message_queue \<Rightarrow> int list" where
  "the_vote abort q = [if abort then 1 else 0, if mq_resized q then 1 else 0]"

definition voting :: "int list \<Rightarrow> task \<Rightarrow> call list" where
  "voting vote t = [GetRequest BlockRequestHandle, IallreduceSum vote BlockRequestHandle, TaskSelf, TaskBlock t]"

lemma sync_vote_run:
  "acts (sync_vote vote LPF_SYNC_DEFAULT) s tr r s' \<Longrightarrow>
    r = Inr True \<and> (\<exists>t. List.map fst tr = voting vote t \<and> s' = s\<lparr>m_blockRequest := True, m_blockTask := Some t\<rparr>)"
  by (auto simp: sync_vote_def sync_mode_def LPF_SYNC_DEFAULT_def act_simps voting_def)

lemma queue_sync_aborted:
  assumes "acts (queue_sync abort LPF_SYNC_DEFAULT voted pb pw) q tr r q'"
    and "\<not> needsSync (mq_memreg q)" and "fst voted \<noteq> 0"
  shows "r = Inr (fst voted) \<and> (\<exists>t. List.map fst tr = voting (the_vote abort q) t) \<and> mq_resized q' = mq_resized q"
proof -
  have "acts (bindA (on_verbs (ibverbs_sync (the_vote abort q) LPF_SYNC_DEFAULT voted pb pw)) (\<lambda>v.
     bindA (modA (\<lambda>q. q\<lparr>mq_vote := v\<rparr>)) (\<lambda>_.
     if v ! 0 \<noteq> 0 then retA (v ! 0) else bindA (modA (\<lambda>q. q\<lparr>mq_resized := False\<rparr>)) (\<lambda>_. retA 0))))
     (q\<lparr>mq_vote := the_vote abort q\<rparr>) tr r q'"
    using assms(1,2) by (simp add: queue_sync_def table_sync_bind act_simps the_vote_def)
  moreover have "rv = Inr [fst voted, the_vote abort q ! 1] \<and> (\<exists>t. List.map fst tv = voting (the_vote abort q) t)"
    if "acts (ibverbs_sync (the_vote abort q) LPF_SYNC_DEFAULT voted pb pw) s tv rv s'" for s tv rv s'
    using that assms(3) sync_vote_run unfolding ibverbs_sync_def acts_bindA [of "sync_vote _ _"]
    by (fastforce simp: act_simps sync_resume_def the_vote_def)
  ultimately show ?thesis using assms(3) unfolding acts_bindA [of "on_verbs _"]
    by (fastforce simp: act_simps)
qed

text \<open>The part of the object that \<open>sync_commit\<close> leaves alone.\<close>

definition same_qps :: "ibverbs \<Rightarrow> ibverbs \<Rightarrow> bool" where
  "same_qps s s' \<longleftrightarrow> m_connectedQps s' = m_connectedQps s \<and> m_stagedQps s' = m_stagedQps s"

lemma fresh_counts_run:
  assumes "acts (fresh_counts cs b) s tr r s'"
  shows "(\<exists>n. r = Inr n) \<and> syncRequest s' = syncRequest s \<and> same_qps s s'"
proof -
  have "acts (bindA (exchange_counts cs 0 (m_pid s) 0) (\<lambda>n.
     bindA (modA (\<lambda>s. s\<lparr>m_sync_cached := (if b then False else m_sync_cached s), m_sync_cached_value := n\<rparr>)) (\<lambda>_. retA n))) s tr r s'"
    using assms by (simp add: fresh_counts_def act_simps)
  then show ?thesis unfolding acts_bindA [of "exchange_counts _ _ _ _"]
    by (auto simp: act_simps same_qps_def dest!: exchange_counts_run)
qed

lemma remote_msgs_run:
  assumes "acts (remote_msgs attr cs) s tr r s'"
  shows "(\<exists>n. r = Inr n) \<and> syncRequest s' = syncRequest s \<and> same_qps s s'"
  using assms fresh_counts_run unfolding remote_msgs_def
  by (fastforce simp: act_simps same_qps_def split: if_splits)

lemma sync_commit_run:
  assumes "acts (sync_commit attr) s tr r s'" and "\<not> isActive (syncRequest s)"
  shows "r = Inr () \<and> isActive (syncRequest s') \<and> same_qps s s'"
proof -
  define s1 where "s1 = s\<lparr>m_numMsgsSync := replicate (m_nprocs s) 0\<rparr>"
  have s1: "syncRequest s1 = syncRequest s" "same_qps s s1" by (simp_all add: s1_def same_qps_def)
  have "acts (bindA (remote_msgs attr (take (m_nprocs s) (m_numMsgsSync s))) (\<lambda>n.
     bindA getA (\<lambda>s.
     bindA (throw_if (isActive (syncRequest s)) (Exception ''There is another sync request active'')) (\<lambda>_.
     bindA (modA (\<lambda>s. s\<lparr>syncRequest := (syncRequest s)\<lparr>withBarrier := sync_barrier attr, sr_remoteMsgs := n\<rparr>\<rparr>)) (\<lambda>_.
     bindA announce (\<lambda>task.
     modA (\<lambda>s. s\<lparr>syncRequest := (syncRequest s)\<lparr>sr_task := Some task, isActive := True\<rparr>\<rparr>))))))) s1 tr r s'"
    using assms(1) by (simp add: sync_commit_def take_counts_def act_simps s1_def)
  then show ?thesis using assms(2) s1 unfolding acts_bindA [of "remote_msgs _ _"]
    by (auto simp: act_simps acts_bind_announce same_qps_def dest!: remote_msgs_run)
qed

lemma queue_sync_plain:
  assumes "acts (queue_sync False attr voted pb pw) q tr r q'" and "\<not> needsSync (mq_memreg q)"
    and "sync_mode attr \<noteq> LPF_SYNC_DEFAULT" and "\<not> isActive (syncRequest (pw (mt_ibverbs (mq_memreg q))))"
  shows "r = Inr 0 \<and> \<not> mq_resized q' \<and>
    same_qps (pw (mt_ibverbs (mq_memreg q))) (mt_ibverbs (mq_memreg q'))"
proof -
  have "acts (bindA (on_verbs (ibverbs_sync (the_vote False q) attr voted pb pw)) (\<lambda>v.
     bindA (modA (\<lambda>q. q\<lparr>mq_vote := v\<rparr>)) (\<lambda>_.
     if v ! 0 \<noteq> 0 then retA (v ! 0) else bindA (modA (\<lambda>q. q\<lparr>mq_resized := False\<rparr>)) (\<lambda>_. retA 0))))
     (q\<lparr>mq_vote := the_vote False q\<rparr>) tr r q'"
    using assms(1,2) by (simp add: queue_sync_def table_sync_bind act_simps the_vote_def)
  moreover have "rv = Inr (the_vote False q) \<and> same_qps (pw (mt_ibverbs (mq_memreg q))) s'"
    if "acts (ibverbs_sync (the_vote False q) attr voted pb pw) (mt_ibverbs (mq_memreg q)) tv rv s'" for tv rv s'
    using that assms(3,4) unfolding ibverbs_sync_def sync_vote_def acts_bind_modA [of pw]
    by (auto simp: act_simps acts_bindA [of "sync_commit _"] dest!: sync_commit_run)
  ultimately show ?thesis unfolding acts_bindA [of "on_verbs _"]
    by (fastforce simp: act_simps the_vote_def)
qed

lemma no_vote_exchange: "calls (\<lambda>c. vote_of c = None) (exchange_counts cs i p n)"
  by (induction cs arbitrary: i n) (auto intro!: calls_rules)

lemma no_vote_commit: "calls (\<lambda>c. vote_of c = None) (sync_commit attr)"
  by (auto intro!: calls_rules no_vote_exchange simp: sync_commit_def take_counts_def remote_msgs_def fresh_counts_def
      throw_if_def announce_def)

lemma queue_sync_default:
  assumes "acts (queue_sync False LPF_SYNC_DEFAULT voted pb pw) q tr r q'" and "\<not> needsSync (mq_memreg q)"
    and "fst voted = 0" and "snd voted \<le> 0"
    and "\<And>s. isActive (syncRequest s) = isActive (syncRequest (mt_ibverbs (mq_memreg q))) \<Longrightarrow> \<not> isActive (syncRequest (pw (pb s)))"
  shows "r = Inr 0 \<and> \<not> mq_resized q' \<and> isActive (syncRequest (mt_ibverbs (mq_memreg q'))) \<and>
    \<not> needsSync (mq_memreg q') \<and> (\<exists>t cs. List.map fst tr = voting (the_vote False q) t @ cs \<and> (\<forall>c \<in> set cs. vote_of c = None))"
proof -
  have "acts (bindA (on_verbs (ibverbs_sync (the_vote False q) LPF_SYNC_DEFAULT voted pb pw)) (\<lambda>v.
     bindA (modA (\<lambda>q. q\<lparr>mq_vote := v\<rparr>)) (\<lambda>_.
     if v ! 0 \<noteq> 0 then retA (v ! 0) else bindA (modA (\<lambda>q. q\<lparr>mq_resized := False\<rparr>)) (\<lambda>_. retA 0))))
     (q\<lparr>mq_vote := the_vote False q\<rparr>) tr r q'"
    using assms(1,2) by (simp add: queue_sync_def table_sync_bind act_simps the_vote_def)
  moreover have "rv = Inr (the_vote False q) \<and> isActive (syncRequest s') \<and> (\<exists>t cs. List.map fst tv = voting (the_vote False q) t @ cs \<and> (\<forall>c \<in> set cs. vote_of c = None))"
    if sy: "acts (ibverbs_sync (the_vote False q) LPF_SYNC_DEFAULT voted pb pw) (mt_ibverbs (mq_memreg q)) tv rv s'" for tv rv s'
  proof -
    let ?P = "\<lambda>tr1 b s1. b \<and> (\<exists>t. List.map fst tr1 = voting (the_vote False q) t) \<and>
      isActive (syncRequest s1) = isActive (syncRequest (mt_ibverbs (mq_memreg q)))"
    have vote: "\<exists>x. r1 = Inr x \<and> ?P tr1 x s1"
      if "acts (sync_vote (the_vote False q) LPF_SYNC_DEFAULT) (mt_ibverbs (mq_memreg q)) tr1 r1 s1" for tr1 r1 s1
      using sync_vote_run [OF that] by auto
    obtain t1 t2 b s1 where tv: "tv = t1 @ t2" and P: "?P t1 b s1"
      and k: "acts (bindA (if b then bindA (modA pb) (\<lambda>_. sync_resume (the_vote False q) voted) else retA None) (\<lambda>stop. case stop of
         Some v \<Rightarrow> retA v
       | None \<Rightarrow> bindA (modA pw) (\<lambda>_. bindA (sync_commit LPF_SYNC_DEFAULT) (\<lambda>_. retA (the_vote False q))))) s1 t2 rv s'"
      by (rule acts_bind_returns [OF sy [unfolded ibverbs_sync_def], where P = ?P]) (rule vote, assumption, rule that)
    then obtain t where b: b and t: "List.map fst t1 = voting (the_vote False q) t"
      and s1: "isActive (syncRequest s1) = isActive (syncRequest (mt_ibverbs (mq_memreg q)))" by blast
    have "acts (bindA (sync_commit LPF_SYNC_DEFAULT) (\<lambda>_. retA (the_vote False q))) (pw (pb s1)) t2 rv s'"
      using k b assms(3,4) by (simp add: act_simps sync_resume_def bindA_retA)
    then show ?thesis using tv t assms(5) [OF s1]
      by (fastforce simp: acts_bindA act_simps dest: sync_commit_run callsD [OF no_vote_commit])
  qed
  moreover have "needsSync (t\<lparr>mt_ibverbs := v\<rparr>) = needsSync t" for t v by (simp add: needsSync_def)
  ultimately show ?thesis using assms(2) unfolding acts_bindA [of "on_verbs _"]
    by (fastforce simp: act_simps the_vote_def)
qed

section \<open>Properties\<close>

text \<open>
  A queue as the constructor leaves it (one slot reserved in the table, none in the sorter) for the first of
  two processes, and its table after it has grown to two slots.
\<close>

definition demo_queue :: message_queue where
  "demo_queue = \<lparr>mq_pid = 0, mq_nprocs = 2, mq_memRange = 4096, mq_vote = [0, 0], mq_maxNMsgs = 0, mq_nextMemRegSize = 0,
     mq_resized = False, mq_msgsort = message_sort_new 4, mq_memreg = demo_table 0 0 default_memory\<rparr>"

definition two_slots :: "'a \<Rightarrow> 'a memreg" where
  "two_slots x = \<lparr>m_slots = [x, x], m_free = [], m_free_capacity = 2, m_minNewSlotNr = 0\<rparr>"

definition demo_grown :: memory_table where
  "demo_grown =
     (let e = empty_slot\<lparr>glob := replicate 2 null_registration\<rparr> in
      \<lparr>mt_memreg = \<lparr>m_local = two_slots default_memory, m_global = two_slots default_memory\<rparr>, mt_capacity = 2,
       mt_added = \<lparr>sp_min = 0, sp_max = 5, sp_size = 0, sp_domain = [0, 1, 2, 3, 4, 5], sp_map = [0, 1, 2, 3, 4, 5]\<rparr>,
       mt_ibverbs = (demo_object 0)\<lparr>m_memreg := \<lparr>m_local = two_slots e, m_global = two_slots e\<rparr>\<rparr>\<rparr>)"

lemma demo_grow:
  assumes "\<And>k. k < 10 \<Longrightarrow> ok k"
  shows "acts (reserve ok 100 2) (demo_table 0 0 default_memory) [] (Inr ()) demo_grown"
proof -
  have k: "ok 0" "ok 1" "ok 2" "ok 3" "ok 4" "ok 5" "ok 6" "ok 7" "ok 8" "ok 9" "ok (Suc 0)" by (simp_all add: assms)
  have r: "combined_reserve ok' m d0 \<lparr>m_local = one_slot d 0, m_global = one_slot d 0\<rparr> 2 d =
      (\<lparr>m_local = two_slots d, m_global = two_slots d\<rparr>, None)"
    if "ok' 0" "ok' 1" "ok' 2" "ok' 3" "100 \<le> m" for d d0 :: 'b and ok' m
    using that by (simp add: combined_reserve_def memreg_reserve_def free_max_size_def vec_resize_def one_slot_def two_slots_def
        numeral_2_eq_2 numeral_3_eq_3)
  have s: "sparse_resize (\<lambda>k. ok (k + 4)) \<lparr>sp_min = 0, sp_max = 3, sp_size = 0, sp_domain = [0, 1, 2, 3], sp_map = [0, Suc 0, 2, 3]\<rparr> 5 =
      (\<lparr>sp_min = 0, sp_max = 5, sp_size = 0, sp_domain = [0, 1, 2, 3, 4, 5], sp_map = [0, 1, 2, 3, 4, 5]\<rparr>, None)"
    using k by (simp add: sparse_resize_def sparse_extend_def sparse_max_size_def resize_ok_def Let_def vec_resize_def upt_conv_Cons)
  have g: "combined_range \<lparr>m_local = two_slots default_memory, m_global = two_slots default_memory\<rparr> = 5"
    by (simp add: combined_range_def two_slots_def memreg_capacity_def mul64_def add64_def)
  show ?thesis
    by (simp add: act_simps reserve_def resizeMemreg_def r s g k acts_bindA demo_table_def demo_object_def INT_MAX_def
        ibverbs_init_def demo_grown_def memory_max_size_def Let_def)
qed

text \<open>
  a retried \<open>lpf_resize_memory_register\<close> breaks the register.  There is a queue for which the first call runs out of
  memory while it grows the slot range of the sorter and answers \<open>LPF_ERR_OUT_OF_MEMORY\<close>; the same call again, with enough
  memory, answers \<open>LPF_SUCCESS\<close> without growing that range, because the table already has the
  capacity; and then registering an area trips the assertion of the sorter (or, without assertions,
  writes past its vector).
\<close>

theorem resize_retry_breaks:
  "\<exists>q1 q2 q3 tr. acts (queue_resizeMemreg (\<lambda>k. k \<noteq> 10) 100 1) demo_queue [] (Inr LPF_ERR_OUT_OF_MEMORY) q1 \<and>
     acts (queue_resizeMemreg (\<lambda>_. True) 100 1) q1 tr (Inr LPF_SUCCESS) q2 \<and>
     acts (queue_addGlobalReg (\<lambda>_. True) 4096 64) q2 [] (Inl AssertionFailed) q3"
proof -
  define q1 where "q1 = demo_queue\<lparr>mq_memreg := demo_grown\<rparr>"
  have cap: "mt_capacity (mq_memreg demo_queue) = 1" by (simp add: demo_queue_def demo_table_def Let_def)
  have a: "acts (grow_register (\<lambda>k. k \<noteq> 10) 100 1) demo_queue [] (Inl BadAlloc) q1"
  proof -
    have g: "acts (reserve (\<lambda>k. k \<noteq> 10) 100 (1 + 1)) (mq_memreg demo_queue) [] (Inr ()) demo_grown"
      using demo_grow [of "\<lambda>k. k \<noteq> 10"] by (simp add: demo_queue_def del: One_nat_def)
    have range: "table_range demo_grown = 5"
      by (simp add: table_range_def demo_grown_def combined_range_def two_slots_def memreg_capacity_def mul64_def add64_def Let_def)
    have "acts (bindA (on_table (reserve (\<lambda>k. k \<noteq> 10) 100 (1 + 1))) (\<lambda>_.
          bindA (outcomeA (\<lambda>q. case setSlotRange (\<lambda>k. k + 10 \<noteq> 10) (mq_msgsort q) (table_range (mq_memreg q)) of
              (st, e) \<Rightarrow> (q\<lparr>mq_msgsort := st\<rparr>, e))) (\<lambda>_. retA LPF_SUCCESS))) demo_queue [] (Inl BadAlloc) q1"
      unfolding acts_bindA [of "on_table _"] acts_on_table
      by (rule disjI2, intro exI [of _ "()"] exI [of _ "demo_queue\<lparr>mq_memreg := demo_grown\<rparr>"] exI [of _ "[]"] conjI exI [of _ demo_grown] g)
         (simp_all add: act_simps range setSlotRange_def resize_ok_def q1_def demo_queue_def message_sort_new_def)
    then show ?thesis using cap by (simp add: grow_register_def act_simps del: One_nat_def)
  qed
  have first: "acts (queue_resizeMemreg (\<lambda>k. k \<noteq> 10) 100 1) demo_queue [] (Inr LPF_ERR_OUT_OF_MEMORY) q1"
  proof -
    have oom: "acts (or_out_of_memory (grow_register (\<lambda>k. k \<noteq> 10) 100 1)) demo_queue [] (Inr LPF_ERR_OUT_OF_MEMORY) q1"
      unfolding or_out_of_memory_def acts_catchA
      by (rule disjI2, rule disjI2, intro exI [of _ BadAlloc] exI [of _ q1] exI [of _ "[]"] conjI a)
         (simp_all add: no_memory_def act_simps)
    have ne: "LPF_ERR_OUT_OF_MEMORY \<noteq> LPF_SUCCESS" by (simp add: err_defs)
    have "acts (bindA (or_out_of_memory (grow_register (\<lambda>k. k \<noteq> 10) 100 1)) (\<lambda>rc.
        if rc \<noteq> LPF_SUCCESS then retA LPF_ERR_OUT_OF_MEMORY else f rc)) demo_queue [] (Inr LPF_ERR_OUT_OF_MEMORY) q1" for f
      unfolding acts_bindA [of "or_out_of_memory _"]
      by (rule disjI2, intro exI [of _ LPF_ERR_OUT_OF_MEMORY] exI [of _ q1] exI [of _ "[]"] conjI oom) (simp_all add: ne act_simps)
    then show ?thesis by (simp add: queue_resizeMemreg_def SIZE_MAX_def del: One_nat_def)
  qed
  have vs: "mt_capacity demo_grown = 2" "m_nprocs (mt_ibverbs demo_grown) = 2" "m_cqLocal (mt_ibverbs demo_grown) = None"
      "m_cqRemote (mt_ibverbs demo_grown) = None" "m_srq (mt_ibverbs demo_grown) = None" "m_postCount (mt_ibverbs demo_grown) = 0"
    by (simp_all add: demo_grown_def demo_object_def ibverbs_init_def Let_def)
  obtain tr r v where st: "acts (resizeMesgq 0) (mt_ibverbs demo_grown) tr r v" and h: "\<forall>e \<in> set tr. snd e = Handle (Some 5)"
    using acts_total [of "resizeMesgq 0" "mt_ibverbs demo_grown" "\<lambda>_. Handle (Some 5)"] by blast
  have r: "r = Inr ()" using st h vs
    by (auto simp: resizeMesgq_def stageQPs_def stage_one_def act_simps acts_bindA Let_def upt_rec numeral_2_eq_2)
  define q2 where "q2 = q1\<lparr>mq_resized := True, mq_memreg := demo_grown\<lparr>mt_ibverbs := v\<rparr>, mq_maxNMsgs := 0, mq_nextMemRegSize := 2\<rparr>"
  have second: "acts (queue_resizeMemreg (\<lambda>_. True) 100 1) q1 tr (Inr LPF_SUCCESS) q2"
    using st r vs
    by (simp add: queue_resizeMemreg_def or_out_of_memory_def grow_register_def resizeMesgQueue_def exceeds_half_def
        acts_bindA acts_catchA act_simps SIZE_MAX_def err_defs q1_def q2_def demo_queue_def)
       (intro exI conjI, assumption, rule refl, rule refl, simp)
  have "\<exists>q3. acts (queue_addGlobalReg (\<lambda>_. True) 4096 64) q2 [] (Inl AssertionFailed) q3"
    by (simp add: queue_addGlobalReg_def addGlobal_def act_simps acts_bindA q2_def q1_def demo_queue_def demo_grown_def
        two_slots_def addGlobalReg_def memreg_add_def add64_def toGlobal_def mul64_def sparse_insert_def sparse_contains_def
        sparse_exchange_def index_of_T_def addRegister_def message_sort_new_def grow_dirty.simps sparse_range_def sparse_new_def
        sparse_reset_def sparse_max_size_def resize_ok_def equal_range_def place_region_def region_extent_def Let_def)
  then show ?thesis using first second by blast
qed

text \<open>
  C18: a synchronisation in another mode than the default forgets a resize.  When the queues have grown since
  the last synchronisation, such a call returns normally and clears the mark, but it takes no vote and connects no queue pair:
  both the staged and the connected ones are as before, and the next default
  synchronisation does not connect them either.
\<close>

theorem sync_forgets_resize:
  assumes "acts (queue_sync False attr voted pb pw) q tr r q'" and "\<not> needsSync (mq_memreg q)"
    and "sync_mode attr \<noteq> LPF_SYNC_DEFAULT" and "\<not> isActive (syncRequest (pw (mt_ibverbs (mq_memreg q))))"
    and "\<forall>s. same_qps s (pw s)" and "mq_resized q"
  shows "r = Inr 0 \<and> \<not> mq_resized q' \<and> m_stagedQps (mt_ibverbs (mq_memreg q')) = m_stagedQps (mt_ibverbs (mq_memreg q)) \<and>
    m_connectedQps (mt_ibverbs (mq_memreg q')) = m_connectedQps (mt_ibverbs (mq_memreg q)) \<and> the_vote False q' ! 1 = 0"
  using queue_sync_plain [OF assms(1-4)] assms(5) by (simp add: same_qps_def the_vote_def)

theorem sync_forgets_resize_witness:
  "\<exists>tr q'. acts (queue_sync False (LPF_SYNC_MSG 3) (0, 0) id id) (demo_queue\<lparr>mq_resized := True\<rparr>) tr (Inr 0) q' \<and> \<not> mq_resized q'"
proof -
  let ?q = "demo_queue\<lparr>mq_resized := True\<rparr>"
  obtain tr r q' where run: "acts (queue_sync False (LPF_SYNC_MSG 3) (0, 0) id id) ?q tr r q'"
    using acts_total [of "queue_sync False (LPF_SYNC_MSG 3) (0, 0) id id" ?q "\<lambda>_. Done"] by blast
  have m: "sync_mode (LPF_SYNC_MSG 3) \<noteq> LPF_SYNC_DEFAULT"
    by (simp add: sync_mode_def LPF_SYNC_MODE_def LPF_SYNC_MSG_def LPF_SYNC_DEFAULT_def)
  have i: "\<not> needsSync (mq_memreg ?q)" "\<not> isActive (syncRequest (id (mt_ibverbs (mq_memreg ?q))))"
    by (simp_all add: demo_queue_def demo_table_defs needsSync_def sparse_is_empty_def)
  have "\<forall>s. same_qps s (id s)" "mq_resized ?q" by (simp_all add: same_qps_def)
  from sync_forgets_resize [OF run i(1) m i(2) this] have "r = Inr 0" "\<not> mq_resized q'" by blast+
  then show ?thesis using run by blast
qed

end
