(* ===== verification/Interface.thy ===== *)
theory Interface imports Message_Queue begin

text \<open>
  The run-time of one process of a parallel section, class \<open>Interface\<close> of \<open>src/MPI/interface.cpp\<close>, and the
  functions of the C interface in \<open>src/MPI/core.cpp\<close> that call it.  Its state is the message queue and the number
  of processes that have aborted; once that is not zero no operation communicates any more.
\<close>

section \<open>State\<close>

record interface =
  if_mesgQueue :: message_queue
  if_aborted :: nat

type_synonym 'a runtime = "(interface, 'a) ext"

text \<open>What a synchronisation gets from the other processes and from its polling task.\<close>

record sync_env =
  voted :: "int \<times> int"
  poll_blocked :: "ibverbs \<Rightarrow> ibverbs"
  poll_waiting :: "ibverbs \<Rightarrow> ibverbs"

definition on_queue :: "'a queue \<Rightarrow> 'a runtime" where
  "on_queue m = zoomA if_mesgQueue (\<lambda>q i. i\<lparr>if_mesgQueue := q\<rparr>) m"

lemma acts_on_queue [act_simps]:
  "acts (on_queue m) i tr r i' \<longleftrightarrow> (\<exists>q. acts m (if_mesgQueue i) tr r q \<and> i' = i\<lparr>if_mesgQueue := q\<rparr>)"
  by (simp add: on_queue_def act_simps)

section \<open>Construction\<close>

text \<open>
  A constructor with a function try block: \<open>queue\<close> is the construction of the message queue, and
  the handler runs for a \<open>bad_alloc\<close> of the initialisers and of the body alike.
\<close>

definition interface_failed :: "fault \<Rightarrow> (call, reply, fault + interface) prog" where
  "interface_failed e = (if e = BadAlloc then Vis (AllreduceOr True) (\<lambda>_. Ret (Inl e)) else Ret (Inl e))"

definition interface_new ::
  "(call, reply, fault + message_queue) prog \<Rightarrow> (call, reply, fault + interface) prog" where
  "interface_new queue =
     bindT queue (\<lambda>r.
     case r of
       Inl e \<Rightarrow> interface_failed e
     | Inr q \<Rightarrow> Vis (AllreduceOr False) (\<lambda>f.
         if the_flag f then interface_failed BadAlloc
         else Ret (Inr \<lparr>if_mesgQueue = q, if_aborted = 0\<rparr>)))"

section \<open>Operations\<close>

definition interface_put :: "slot \<Rightarrow> nat \<Rightarrow> nat \<Rightarrow> slot \<Rightarrow> nat \<Rightarrow> nat \<Rightarrow> unit runtime" where
  "interface_put srcSlot srcOffset dstPid dstSlot dstOffset sz =
     on_queue (queue_put srcSlot srcOffset dstPid dstSlot dstOffset sz)"

definition interface_get :: "nat \<Rightarrow> slot \<Rightarrow> nat \<Rightarrow> slot \<Rightarrow> nat \<Rightarrow> nat \<Rightarrow> unit runtime" where
  "interface_get srcPid srcSlot srcOffset dstSlot dstOffset sz =
     on_queue (queue_get srcPid srcSlot srcOffset dstSlot dstOffset sz)"

definition interface_fetch_and_add :: "slot \<Rightarrow> nat \<Rightarrow> nat \<Rightarrow> slot \<Rightarrow> nat \<Rightarrow> nat \<Rightarrow> unit runtime" where
  "interface_fetch_and_add srcSlot srcOffset dstPid dstSlot dstOffset val =
     on_queue (queue_fetch_and_add srcSlot srcOffset dstPid dstSlot dstOffset val)"

definition interface_cmp_and_swp :: "slot \<Rightarrow> nat \<Rightarrow> nat \<Rightarrow> slot \<Rightarrow> nat \<Rightarrow> nat \<Rightarrow> nat \<Rightarrow> unit runtime" where
  "interface_cmp_and_swp srcSlot srcOffset dstPid dstSlot dstOffset cmp swp =
     on_queue (queue_cmp_and_swp srcSlot srcOffset dstPid dstSlot dstOffset cmp swp)"

definition registerGlobal :: "(nat \<Rightarrow> bool) \<Rightarrow> addr \<Rightarrow> nat \<Rightarrow> slot runtime" where
  "registerGlobal ok mem sz = on_queue (queue_addGlobalReg ok mem sz)"

definition registerLocal :: "(nat \<Rightarrow> bool) \<Rightarrow> addr \<Rightarrow> nat \<Rightarrow> slot runtime" where
  "registerLocal ok mem sz = on_queue (queue_addLocalReg ok mem sz)"

definition deregister :: "slot \<Rightarrow> unit runtime" where
  "deregister i = on_queue (queue_removeReg i)"

definition interface_resizeMemreg :: "(nat \<Rightarrow> bool) \<Rightarrow> nat \<Rightarrow> nat \<Rightarrow> err_t runtime" where
  "interface_resizeMemreg ok mx_slots nRegs = on_queue (queue_resizeMemreg ok mx_slots nRegs)"

definition interface_resizeMesgQueue :: "nat \<Rightarrow> err_t runtime" where
  "interface_resizeMesgQueue nMsgs = on_queue (resizeMesgQueue nMsgs)"

text \<open>The result of the queue's \<open>sync\<close>, an \<open>int\<close>, becomes a \<open>pid_t\<close>.\<close>

definition queue_vote :: "bool \<Rightarrow> 32 word \<Rightarrow> sync_env \<Rightarrow> unit runtime" where
  "queue_vote abort attr e =
     bindA (on_queue (queue_sync abort attr (voted e) (poll_blocked e) (poll_waiting e))) (\<lambda>n.
     modA (\<lambda>i. i\<lparr>if_aborted := nat (n mod 2 ^ 32)\<rparr>))"

definition interface_abort :: "sync_env \<Rightarrow> unit runtime" where
  "interface_abort e =
     bindA getA (\<lambda>i. bindA (assertA (0 = if_aborted i)) (\<lambda>_. queue_vote True LPF_SYNC_DEFAULT e))"

definition isAborted :: "interface \<Rightarrow> nat" where
  "isAborted i = if_aborted i"

definition interface_sync :: "32 word \<Rightarrow> sync_env \<Rightarrow> err_t runtime" where
  "interface_sync attr e =
     bindA getA (\<lambda>i.
     bindA (if 0 = if_aborted i then queue_vote False attr e else retA ()) (\<lambda>_.
     bindA getA (\<lambda>i.
     retA (if 0 = if_aborted i then LPF_SUCCESS else LPF_ERR_FATAL))))"

section \<open>The C interface\<close>

text \<open>Once the section is aborted the calls do nothing; only \<open>exec\<close> says so.\<close>

definition unless_aborted :: "err_t \<Rightarrow> err_t runtime \<Rightarrow> err_t runtime" where
  "unless_aborted rc m = bindA getA (\<lambda>i. if isAborted i \<noteq> 0 then retA rc else m)"

text \<open>The slot is an output parameter: \<open>None\<close> leaves it as it was.\<close>

definition lpf_register_global :: "(nat \<Rightarrow> bool) \<Rightarrow> addr \<Rightarrow> nat \<Rightarrow> (slot option \<times> err_t) runtime" where
  "lpf_register_global ok pointer sz =
     bindA getA (\<lambda>i.
     bindA (if isAborted i = 0 then bindA (registerGlobal ok pointer sz) (\<lambda>s. retA (Some s)) else retA None) (\<lambda>memslot.
     retA (memslot, LPF_SUCCESS)))"

definition lpf_register_local :: "(nat \<Rightarrow> bool) \<Rightarrow> addr \<Rightarrow> nat \<Rightarrow> (slot option \<times> err_t) runtime" where
  "lpf_register_local ok pointer sz =
     bindA getA (\<lambda>i.
     bindA (if isAborted i = 0 then bindA (registerLocal ok pointer sz) (\<lambda>s. retA (Some s)) else retA None) (\<lambda>memslot.
     retA (memslot, LPF_SUCCESS)))"

definition lpf_deregister :: "slot \<Rightarrow> err_t runtime" where
  "lpf_deregister memslot =
     unless_aborted LPF_SUCCESS (bindA (deregister memslot) (\<lambda>_. retA LPF_SUCCESS))"

definition talpf_put :: "slot \<Rightarrow> nat \<Rightarrow> nat \<Rightarrow> slot \<Rightarrow> nat \<Rightarrow> nat \<Rightarrow> err_t runtime" where
  "talpf_put src_slot src_offset dst_pid dst_slot dst_offset sz =
     unless_aborted LPF_SUCCESS
       (bindA (interface_put src_slot src_offset dst_pid dst_slot dst_offset sz) (\<lambda>_. retA LPF_SUCCESS))"

definition talpf_get :: "nat \<Rightarrow> slot \<Rightarrow> nat \<Rightarrow> slot \<Rightarrow> nat \<Rightarrow> nat \<Rightarrow> err_t runtime" where
  "talpf_get pid src src_offset dst dst_offset sz =
     unless_aborted LPF_SUCCESS
       (bindA (interface_get pid src src_offset dst dst_offset sz) (\<lambda>_. retA LPF_SUCCESS))"

definition talpf_atomic_fetch_and_add :: "slot \<Rightarrow> nat \<Rightarrow> nat \<Rightarrow> slot \<Rightarrow> nat \<Rightarrow> nat \<Rightarrow> err_t runtime" where
  "talpf_atomic_fetch_and_add src_slot src_offset dst_pid dst_slot dst_offset val =
     unless_aborted LPF_SUCCESS
       (bindA (interface_fetch_and_add src_slot src_offset dst_pid dst_slot dst_offset val) (\<lambda>_. retA LPF_SUCCESS))"

definition talpf_atomic_cmp_and_swp :: "slot \<Rightarrow> nat \<Rightarrow> nat \<Rightarrow> slot \<Rightarrow> nat \<Rightarrow> nat \<Rightarrow> nat \<Rightarrow> err_t runtime" where
  "talpf_atomic_cmp_and_swp src_slot src_offset dst_pid dst_slot dst_offset cmp swp =
     unless_aborted LPF_SUCCESS
       (bindA (interface_cmp_and_swp src_slot src_offset dst_pid dst_slot dst_offset cmp swp) (\<lambda>_. retA LPF_SUCCESS))"

definition talpf_sync :: "32 word \<Rightarrow> sync_env \<Rightarrow> err_t runtime" where
  "talpf_sync attr e = interface_sync attr e"

definition lpf_resize_memory_register :: "(nat \<Rightarrow> bool) \<Rightarrow> nat \<Rightarrow> nat \<Rightarrow> err_t runtime" where
  "lpf_resize_memory_register ok mx_slots max_regs =
     unless_aborted LPF_SUCCESS (interface_resizeMemreg ok mx_slots max_regs)"

definition lpf_resize_message_queue :: "nat \<Rightarrow> err_t runtime" where
  "lpf_resize_message_queue max_msgs = unless_aborted LPF_SUCCESS (interface_resizeMesgQueue max_msgs)"

section \<open>Running the operations\<close>

lemma runs_prefix: "runs p t1 a \<Longrightarrow> runs p t2 b \<Longrightarrow> t1 @ u1 = t2 @ u2 \<Longrightarrow> t1 = t2 \<and> a = b"
  by (induction p arbitrary: t1 t2) (force split: list.splits)+

lemma interface_new_failed:
  assumes "runs queue t (Inl BadAlloc)" and "runs (interface_new queue) (t @ u) r"
  shows "\<exists>rep. u = [(AllreduceOr True, rep)] \<and> r = Inl BadAlloc"
proof -
  obtain t1 t2 a where d: "t @ u = t1 @ t2" "runs queue t1 a"
    "runs (case a of Inl e \<Rightarrow> interface_failed e
     | Inr q \<Rightarrow> Vis (AllreduceOr False) (\<lambda>f. if the_flag f then interface_failed BadAlloc
         else Ret (Inr \<lparr>if_mesgQueue = q, if_aborted = 0\<rparr>))) t2 r"
    using assms(2) unfolding interface_new_def runs_bindT by blast
  have "t = t1 \<and> Inl BadAlloc = a" using runs_prefix [OF assms(1) d(2,1)] .
  then show ?thesis using d by (auto simp: interface_failed_def split: list.splits)
qed

lemma interface_new_ok:
  assumes "runs queue t (Inr q)" and "runs (interface_new queue) (t @ u) r"
  shows "\<exists>rep. if the_flag rep
    then r = Inl BadAlloc \<and> (\<exists>rep'. u = [(AllreduceOr False, rep), (AllreduceOr True, rep')])
    else r = Inr \<lparr>if_mesgQueue = q, if_aborted = 0\<rparr> \<and> u = [(AllreduceOr False, rep)]"
proof -
  obtain t1 t2 a where d: "t @ u = t1 @ t2" "runs queue t1 a"
    "runs (case a of Inl e \<Rightarrow> interface_failed e
     | Inr q \<Rightarrow> Vis (AllreduceOr False) (\<lambda>f. if the_flag f then interface_failed BadAlloc
         else Ret (Inr \<lparr>if_mesgQueue = q, if_aborted = 0\<rparr>))) t2 r"
    using assms(2) unfolding interface_new_def runs_bindT by blast
  have "t = t1 \<and> Inr q = a" using runs_prefix [OF assms(1) d(2,1)] .
  then have "u = t2" and k: "runs (Vis (AllreduceOr False) (\<lambda>f. if the_flag f then interface_failed BadAlloc
      else Ret (Inr \<lparr>if_mesgQueue = q, if_aborted = 0\<rparr>))) u r" using d by auto
  then obtain rep u' where u: "u = (AllreduceOr False, rep) # u'"
    and k: "runs (if the_flag rep then interface_failed BadAlloc else Ret (Inr \<lparr>if_mesgQueue = q, if_aborted = 0\<rparr>)) u' r"
    unfolding runs_Vis by blast
  show ?thesis using u k by (intro exI [of _ rep]) (auto simp: interface_failed_def split: list.splits)
qed

section \<open>Votes\<close>

text \<open>
  A running section: nobody has aborted, and nothing waits for the next synchronisation.  A polling task that is
  \<open>quiet\<close> has finished the exchange of the superstep when the synchronisation goes on.
\<close>

definition quiet_polling :: "sync_env \<Rightarrow> bool" where
  "quiet_polling e \<longleftrightarrow> (\<forall>s. \<not> isActive (syncRequest (poll_waiting e (poll_blocked e s))))"

definition running :: "interface \<Rightarrow> bool" where
  "running i \<longleftrightarrow> if_aborted i = 0 \<and> \<not> needsSync (mq_memreg (if_mesgQueue i)) \<and> \<not> mq_resized (if_mesgQueue i)"

definition votes :: "event list \<Rightarrow> int list list" where
  "votes tr = List.map_filter vote_of (List.map fst tr)"

lemma votes_simps [simp]: "votes [] = []" "votes (t1 @ t2) = votes t1 @ votes t2"
  by (simp_all add: votes_def List.map_filter_def)

lemma votes_calls: "List.map fst tr = cs \<Longrightarrow> votes tr = List.map_filter vote_of cs"
  by (simp add: votes_def)

lemma votes_voting: "List.map_filter vote_of (voting v t @ cs) = v # List.map_filter vote_of cs"
  by (simp add: voting_def List.map_filter_def)

text \<open>A vote of a running section: nobody stops, or somebody does.\<close>

lemma queue_vote_split:
  assumes "acts (queue_vote abort attr e) i tr r i'"
    and "\<And>rq q. acts (queue_sync abort attr (voted e) (poll_blocked e) (poll_waiting e)) (if_mesgQueue i) tr rq q \<Longrightarrow> rq = Inr n"
  shows "r = Inr () \<and> if_aborted i' = nat (n mod 2 ^ 32) \<and>
    acts (queue_sync abort attr (voted e) (poll_blocked e) (poll_waiting e)) (if_mesgQueue i) tr (Inr n) (if_mesgQueue i')"
  using assms unfolding queue_vote_def acts_bindA [of "on_queue _"] by (fastforce simp: act_simps)

lemma vote_passes:
  assumes "acts (queue_vote False LPF_SYNC_DEFAULT e) i tr r i'" and "running i" and "voted e = (0, 0)" and "quiet_polling e"
  shows "r = Inr () \<and> running i' \<and> votes tr = [[0, 0]]"
proof -
  have q: "rq = Inr 0 \<and> \<not> mq_resized q \<and> \<not> needsSync (mq_memreg q) \<and>
      (\<exists>t cs. List.map fst tr = voting (the_vote False (if_mesgQueue i)) t @ cs \<and> (\<forall>c \<in> set cs. vote_of c = None))"
    if "acts (queue_sync False LPF_SYNC_DEFAULT (voted e) (poll_blocked e) (poll_waiting e)) (if_mesgQueue i) tr rq q" for rq q
    using queue_sync_default [OF that] assms(2-4) by (auto simp: running_def quiet_polling_def)
  have v: "r = Inr () \<and> if_aborted i' = nat (0 mod 2 ^ 32) \<and>
    acts (queue_sync False LPF_SYNC_DEFAULT (voted e) (poll_blocked e) (poll_waiting e)) (if_mesgQueue i) tr (Inr 0) (if_mesgQueue i')"
    by (rule queue_vote_split [OF assms(1)]) (use q in blast)
  obtain t cs where c: "List.map fst tr = voting (the_vote False (if_mesgQueue i)) t @ cs" "\<forall>c \<in> set cs. vote_of c = None"
    using q v by blast
  have "List.map_filter vote_of cs = []" using c(2) by (induction cs) (auto simp: List.map_filter_def)
  then have "votes tr = [the_vote False (if_mesgQueue i)]" using votes_calls [OF c(1)] by (simp add: votes_voting)
  then show ?thesis using v q assms(2) by (auto simp: running_def the_vote_def)
qed

lemma vote_stops:
  assumes "acts (queue_vote abort LPF_SYNC_DEFAULT e) i tr r i'" and "running i" and "fst (voted e) \<noteq> 0"
  shows "r = Inr () \<and> if_aborted i' = nat (fst (voted e) mod 2 ^ 32) \<and> votes tr = [[if abort then 1 else 0, 0]]"
proof -
  have q: "rq = Inr (fst (voted e)) \<and> (\<exists>t. List.map fst tr = voting (the_vote abort (if_mesgQueue i)) t)"
    if "acts (queue_sync abort LPF_SYNC_DEFAULT (voted e) (poll_blocked e) (poll_waiting e)) (if_mesgQueue i) tr rq q" for rq q
    using queue_sync_aborted [OF that] assms(2,3) by (auto simp: running_def)
  have v: "r = Inr () \<and> if_aborted i' = nat (fst (voted e) mod 2 ^ 32) \<and>
    acts (queue_sync abort LPF_SYNC_DEFAULT (voted e) (poll_blocked e) (poll_waiting e)) (if_mesgQueue i) tr (Inr (fst (voted e))) (if_mesgQueue i')"
    by (rule queue_vote_split [OF assms(1)]) (use q in blast)
  obtain t where c: "List.map fst tr = voting (the_vote abort (if_mesgQueue i)) t @ []" using q v by auto
  show ?thesis using v votes_calls [OF c] assms(2) unfolding votes_voting
    by (simp add: running_def the_vote_def List.map_filter_def)
qed

text \<open>The synchronisation of the C interface in the three cases.\<close>

lemma interface_sync_passes:
  assumes "acts (interface_sync LPF_SYNC_DEFAULT e) i tr r i'" and "running i" and "voted e = (0, 0)" and "quiet_polling e"
  shows "r = Inr LPF_SUCCESS \<and> running i' \<and> votes tr = [[0, 0]]"
proof -
  have "acts (bindA (queue_vote False LPF_SYNC_DEFAULT e) (\<lambda>_. bindA getA (\<lambda>i.
     retA (if 0 = if_aborted i then LPF_SUCCESS else LPF_ERR_FATAL)))) i tr r i'"
    using assms(1,2) by (simp add: interface_sync_def act_simps running_def)
  then show ?thesis using vote_passes [OF _ assms(2-4)] unfolding acts_bindA [of "queue_vote _ _ _"]
    by (fastforce simp: act_simps running_def)
qed

lemma interface_sync_stops:
  assumes "acts (interface_sync LPF_SYNC_DEFAULT e) i tr r i'" and "running i" and "0 < fst (voted e)" and "fst (voted e) < 2 ^ 32"
  shows "r = Inr LPF_ERR_FATAL \<and> if_aborted i' = nat (fst (voted e)) \<and> votes tr = [[0, 0]]"
proof -
  have "acts (bindA (queue_vote False LPF_SYNC_DEFAULT e) (\<lambda>_. bindA getA (\<lambda>i.
     retA (if 0 = if_aborted i then LPF_SUCCESS else LPF_ERR_FATAL)))) i tr r i'"
    using assms(1,2) by (simp add: interface_sync_def act_simps running_def)
  then show ?thesis using vote_stops [OF _ assms(2)] assms(3,4) unfolding acts_bindA [of "queue_vote _ _ _"]
    by (fastforce simp: act_simps)
qed

lemma interface_sync_stopped:
  "if_aborted i \<noteq> 0 \<Longrightarrow> acts (interface_sync attr e) i tr r i' \<longleftrightarrow> tr = [] \<and> r = Inr LPF_ERR_FATAL \<and> i' = i"
  by (auto simp: interface_sync_def act_simps)

lemma interface_abort_run:
  assumes "acts (interface_abort e) i tr r i'" and "running i" and "0 < fst (voted e)" and "fst (voted e) < 2 ^ 32"
  shows "r = Inr () \<and> if_aborted i' = nat (fst (voted e)) \<and> votes tr = [[1, 0]]"
proof -
  have "acts (queue_vote True LPF_SYNC_DEFAULT e) i tr r i'"
    using assms(1,2) by (simp add: interface_abort_def act_simps running_def)
  from vote_stops [OF this assms(2)] show ?thesis using assms(3,4) by simp
qed

text \<open>
  when one process has not enough memory to construct its runtime, the collective calls of the processes no longer
  match.  The constructor's handler covers its body too: a process whose queue was made hears in the reduction that
  another one failed, throws, and its own handler then takes part in a second reduction, which no other process joins.
\<close>

theorem interface_ctor_mismatch:
  assumes "collectives_ok trs" and "length trs = n"
    and "\<forall>j<n. runs (queue j) (t j) (rq j) \<and> trs ! j = t j @ u j \<and> runs (interface_new (queue j)) (trs ! j) (r j)"
    and "\<forall>j<n. coll_kinds (t j) = ks \<and> (rq j = Inl BadAlloc \<or> (\<exists>q. rq j = Inr q))"
    and "i < n" and "rq i = Inl BadAlloc" and "k < n" and "rq k = Inr q"
  shows "r i = Inl BadAlloc \<and> r k = Inl BadAlloc \<and> coll_kinds (trs ! i) = ks @ [KOr] \<and> coll_kinds (trs ! k) = ks @ [KOr, KOr] \<and>
    \<not> matched trs"
proof -
  let ?m = "length ks"
  have first: "\<exists>b rep us. u j = (AllreduceOr b, rep) # us \<and> (b \<longleftrightarrow> rq j = Inl BadAlloc)" if "j < n" for j
  proof -
    have run: "runs (queue j) (t j) (rq j)" "runs (interface_new (queue j)) (t j @ u j) (r j)"
      using assms(3) that by (blast, metis)
    have "rq j = Inl BadAlloc \<or> (\<exists>q. rq j = Inr q)" using assms(4) that by blast
    then show ?thesis
    proof (elim disjE exE)
      assume e: "rq j = Inl BadAlloc"
      then show ?thesis using interface_new_failed [OF run(1) [unfolded e] run(2)] by auto
    next
      fix q assume e: "rq j = Inr q"
      then show ?thesis using interface_new_ok [OF run(1) [unfolded e] run(2)] by (auto split: if_splits)
    qed
  qed
  have len: "length (collectives (t j)) = ?m" if "j < n" for j
  proof -
    have "length (coll_kinds tr) = length (collectives tr)" for tr by (induction tr) (auto split: option.splits)
    then show ?thesis using assms(4) that by metis
  qed
  have at: "collectives (trs ! j) ! ?m = hd (u j) \<and> ?m < length (collectives (trs ! j)) \<and> kind_of (fst (hd (u j))) = Some KOr" if "j < n" for j
    using first [OF that] len [OF that] assms(3) that by (auto simp: nth_append)
  have m: "round_matched trs ?m" by (rule round_matchedI [where c = KOr]) (use at assms(2) in auto)
  obtain rep us where ui: "u i = (AllreduceOr True, rep) # us" using first [OF assms(5)] assms(6) by auto
  obtain rep' us' where uk: "u k = (AllreduceOr False, rep') # us'" using first [OF assms(7)] assms(8) by auto
  have "\<exists>j<length trs. fst (collectives (trs ! j) ! ?m) = AllreduceOr True"
    using at [OF assms(5)] ui assms(2,5) by auto
  then have "rep' = Flag True"
    using round_or [OF assms(1) _ m, of k False rep'] at [OF assms(7)] uk assms(2,7) by simp
  moreover have runs_of: "runs (queue j) (t j) (rq j)" "runs (interface_new (queue j)) (t j @ u j) (r j)" if "j < n" for j
    using assms(3) that by (blast, metis)
  ultimately have k2: "\<exists>rep2. us' = [(AllreduceOr True, rep2)] \<and> r k = Inl BadAlloc"
    using interface_new_ok [OF runs_of(1) [OF assms(7), unfolded assms(8)] runs_of(2) [OF assms(7)]] uk
    by (auto split: if_splits)
  have i1: "us = [] \<and> r i = Inl BadAlloc"
    using interface_new_failed [OF runs_of(1) [OF assms(5), unfolded assms(6)] runs_of(2) [OF assms(5)]] ui by auto
  have kinds: "coll_kinds (trs ! i) = ks @ [KOr]" "coll_kinds (trs ! k) = ks @ [KOr, KOr]"
    using i1 k2 ui uk assms(3,4,5,7) by auto
  have "trs ! i \<in> set trs" "trs ! k \<in> set trs" using assms(2,5,7) by simp_all
  then have "\<not> matched trs" using kinds unfolding matched_def by (metis append_same_eq butlast.simps(2) last_ConsL list.distinct(1) same_append_eq)
  then show ?thesis using i1 k2 kinds by blast
qed

theorem interface_ctor_mismatch_witness:
  "\<not> matched [[(AllreduceOr True, Flag True)], [(AllreduceOr False, Flag True), (AllreduceOr True, Done)]]"
proof -
  let ?trs = "[[(AllreduceOr True, Flag True)], [(AllreduceOr False, Flag True), (AllreduceOr True, Done)]]"
  define queue :: "nat \<Rightarrow> (call, reply, fault + message_queue) prog" where
    "queue j = Ret (if j = 0 then Inl BadAlloc else Inr demo_queue)" for j
  have ok: "collectives_ok ?trs"
    by (auto simp: collectives_ok_def round_matched_def round_ok_def or_args_def less_Suc_eq)
  have h1: "\<forall>j<2. runs (queue j) [] (if j = 0 then Inl BadAlloc else Inr demo_queue) \<and> ?trs ! j = [] @ ?trs ! j \<and>
      runs (interface_new (queue j)) (?trs ! j) (Inl BadAlloc)"
    by (auto simp: less_2_cases_iff queue_def interface_new_def interface_failed_def)
  have h2: "\<forall>j<2. coll_kinds [] = [] \<and> ((if j = 0 then Inl BadAlloc else Inr demo_queue) = (Inl BadAlloc :: fault + message_queue) \<or>
      (\<exists>q. (if j = 0 then Inl BadAlloc else Inr demo_queue) = (Inr q :: fault + message_queue)))" by simp
  show ?thesis using interface_ctor_mismatch [OF ok _ h1 h2, of 0 1 demo_queue] by simp
qed

end
