(* ===== verification/Communication.thy ===== *)
theory Communication imports Message_Queue begin

text \<open>
  What \<open>src/MPI/communication.hpp\<close> and \<open>src/MPI/trysync.hpp\<close> build from the collective calls of a communicator: the
  broadcast of a vector and of a string, and the two brackets around a block that may fail on some of the
  processes.  An element of an array is a number.  The argument \<open>ok\<close> says which of the
  allocations of an operation succeed.
\<close>

section \<open>Broadcasts\<close>

text \<open>The value every process has after the broadcast of a \<open>size_t\<close>.\<close>

definition broadcast_value :: "nat \<Rightarrow> nat \<Rightarrow> ('s, nat) ext" where
  "broadcast_value mem root = bindA (callA (Broadcast root [mem])) (\<lambda>r. retA (hd (the_nums r)))"

text \<open>\<open>catch (bad_alloc)\<close> with its signal to the other processes, and the check of theirs.\<close>

definition signal_failure :: "('s, 'a) ext" where
  "signal_failure = bindA (callA (AllreduceOr True)) (\<lambda>_. throwA BadAlloc)"

definition others_failed :: "('s, unit) ext" where
  "others_failed = bindA (callA (AllreduceOr False)) (\<lambda>f. if the_flag f then throwA BadAlloc else retA ())"

definition broadcast_vector :: "bool \<Rightarrow> nat list \<Rightarrow> nat \<Rightarrow> ('s, nat list) ext" where
  "broadcast_vector ok arr root =
     bindA (broadcast_value (length arr) root) (\<lambda>sz.
     if \<not> (sz \<le> length arr \<or> ok) then signal_failure
     else bindA others_failed (\<lambda>_.
          let arr = vec_resize sz 0 arr in
          bindA (liftA (\<lambda>_. vec_at arr 0)) (\<lambda>_.
          bindA (callA (Broadcast root arr)) (\<lambda>r. retA (the_nums r)))))"

definition broadcast_string :: "(nat \<Rightarrow> bool) \<Rightarrow> nat list \<Rightarrow> nat \<Rightarrow> ('s, nat list) ext" where
  "broadcast_string ok str root =
     bindA (broadcast_value (length str) root) (\<lambda>sz.
     if sz = 0 then retA []
     else if \<not> (str = [] \<or> ok 0) then signal_failure
     else bindA others_failed (\<lambda>_.
          bindA (broadcast_vector (ok 1) str root) (\<lambda>arr.
          if \<not> ok 2 then signal_failure
          else bindA others_failed (\<lambda>_. retA arr))))"

section \<open>Blocks that may fail\<close>

definition severity :: "fault \<Rightarrow> err_t" where
  "severity e = (if e = BadAlloc then LPF_ERR_OUT_OF_MEMORY else LPF_ERR_FATAL)"

text \<open>\<open>TRYSYNC_BEGIN ... TRYSYNC_END(status)\<close>, and with \<open>TRYSYNC_RETHROW_END\<close>.\<close>

definition trysync :: "('s, unit) ext \<Rightarrow> err_t \<Rightarrow> ('s, err_t) ext" where
  "trysync body status =
     bindA (catchA (bindA body (\<lambda>_. retA status)) (\<lambda>e. retA (max status (severity e)))) (\<lambda>status.
     bindA (callA (AllreduceMax (nat status))) (\<lambda>r. retA (the_num r)))"

definition OtherProcessFailure :: fault where
  "OtherProcessFailure = ErrorThrown ''An other process experienced an exception''"

definition trysync_rethrow :: "('s, 'a) ext \<Rightarrow> ('s, 'a) ext" where
  "trysync_rethrow body =
     bindA (catchA body (\<lambda>e. bindA (callA (AllreduceOr True)) (\<lambda>_. throwA e))) (\<lambda>x.
     bindA (callA (AllreduceOr False)) (\<lambda>f. if the_flag f then throwA OtherProcessFailure else retA x))"

section \<open>Processes in lockstep\<close>

text \<open>
  All processes have made the collective calls \<open>ks\<close>, process \<open>j\<close> is in state \<open>s j\<close> and goes on with \<open>m j\<close>.  The
  rules of the collection take all of them through the next collective call.
\<close>

definition lockstep ::
  "event list list \<Rightarrow> coll_kind list \<Rightarrow> (nat \<Rightarrow> ('s, 'a) ext) \<Rightarrow> (nat \<Rightarrow> 's) \<Rightarrow> (nat \<Rightarrow> fault + 'a) \<Rightarrow> (nat \<Rightarrow> 's) \<Rightarrow> bool" where
  "lockstep trs ks m s r s' \<longleftrightarrow> (\<forall>j<length trs. \<exists>pre suf.
     trs ! j = pre @ suf \<and> coll_kinds pre = ks \<and> acts (m j) (s j) suf (r j) (s' j))"

lemma length_coll_kinds: "length (coll_kinds tr) = length (collectives tr)"
  by (induction tr) (auto split: option.splits)

lemma lockstep_start:
  "\<forall>j<length trs. acts (m j) (s j) (trs ! j) (r j) (s' j) \<Longrightarrow> lockstep trs [] m s r s'"
  unfolding lockstep_def by (metis append_Nil coll_kinds_simps(1))

lemma lockstep_cong: "lockstep trs ks m s r s' \<Longrightarrow> (\<And>j. j < length trs \<Longrightarrow> m j = m' j) \<Longrightarrow> lockstep trs ks m' s r s'"
  by (simp add: lockstep_def)

text \<open>The next call of every process, all of the same kind.\<close>

lemma lockstep_call:
  assumes "lockstep trs ks (\<lambda>j. bindA (callA (c j)) (f j)) s r s'"
    and "\<And>j. j < length trs \<Longrightarrow> kind_of (c j) = Some k"
  obtains rep where "round_matched trs (length ks)"
    and "\<And>j. j < length trs \<Longrightarrow> collectives (trs ! j) ! length ks = (c j, rep j)"
    and "lockstep trs (ks @ [k]) (\<lambda>j. f j (rep j)) s r s'"
proof -
  let ?m = "length ks"
  have "\<exists>rep pre suf. trs ! j = pre @ (c j, rep) # suf \<and> coll_kinds pre = ks \<and> acts (f j rep) (s j) suf (r j) (s' j)"
    if "j < length trs" for j
    using assms(1) that unfolding lockstep_def acts_bind_callA by blast
  then obtain rep pre suf where at: "\<And>j. j < length trs \<Longrightarrow>
      trs ! j = pre j @ (c j, rep j) # suf j \<and> coll_kinds (pre j) = ks \<and> acts (f j (rep j)) (s j) (suf j) (r j) (s' j)"
    by metis
  have len: "length (collectives (pre j)) = ?m" if "j < length trs" for j
    using at [OF that] length_coll_kinds [of "pre j"] by simp
  have call: "collectives (trs ! j) ! ?m = (c j, rep j) \<and> ?m < length (collectives (trs ! j))" if "j < length trs" for j
    using at [OF that] len [OF that] assms(2) [OF that] by (simp add: nth_append)
  have rm: "round_matched trs ?m"
    by (rule round_matchedI [where c = k]) (use call assms(2) in auto)
  have ls: "lockstep trs (ks @ [k]) (\<lambda>j. f j (rep j)) s r s'"
    unfolding lockstep_def
  proof (intro allI impI)
    fix j assume j: "j < length trs"
    then show "\<exists>pre suf. trs ! j = pre @ suf \<and> coll_kinds pre = ks @ [k] \<and> acts (f j (rep j)) (s j) suf (r j) (s' j)"
      using at [OF j] assms(2) [OF j] by (intro exI [of _ "pre j @ [(c j, rep j)]"] exI [of _ "suf j"]) simp
  qed
  show thesis by (rule that [OF rm _ ls]) (use call in blast)
qed

lemma lockstep_or:
  assumes "lockstep trs ks (\<lambda>j. bindA (callA (AllreduceOr (b j))) (f j)) s r s'" and "collectives_ok trs"
  shows "lockstep trs (ks @ [KOr]) (\<lambda>j. f j (Flag (\<exists>i<length trs. b i))) s r s'"
proof -
  obtain rep where rm: "round_matched trs (length ks)"
    and at: "\<And>j. j < length trs \<Longrightarrow> collectives (trs ! j) ! length ks = (AllreduceOr (b j), rep j)"
    and ls: "lockstep trs (ks @ [KOr]) (\<lambda>j. f j (rep j)) s r s'"
    by (rule lockstep_call [OF assms(1), where k = KOr]) (simp, rule that)
  have "rep j = Flag (\<exists>i<length trs. b i)" if "j < length trs" for j
    using round_or [OF assms(2) that rm at [OF that]] at by auto
  then show ?thesis by (intro lockstep_cong [OF ls]) simp
qed

lemma lockstep_max:
  assumes "lockstep trs ks (\<lambda>j. bindA (callA (AllreduceMax (x j))) (f j)) s r s'" and "collectives_ok trs"
  shows "lockstep trs (ks @ [KMax]) (\<lambda>j. f j (Num (int (foldr max (List.map x [0..<length trs]) 0)))) s r s'"
proof -
  obtain rep where rm: "round_matched trs (length ks)"
    and at: "\<And>j. j < length trs \<Longrightarrow> collectives (trs ! j) ! length ks = (AllreduceMax (x j), rep j)"
    and ls: "lockstep trs (ks @ [KMax]) (\<lambda>j. f j (rep j)) s r s'"
    by (rule lockstep_call [OF assms(1), where k = KMax]) (simp, rule that)
  have "List.map (\<lambda>tr. case fst (collectives tr ! length ks) of AllreduceMax y \<Rightarrow> y | _ \<Rightarrow> 0) trs = List.map x [0..<length trs]"
    by (rule nth_equalityI) (simp_all add: at)
  then have "rep j = Num (int (foldr max (List.map x [0..<length trs]) 0))" if "j < length trs" for j
    using round_max [OF assms(2) that rm at [OF that]] by simp
  then show ?thesis by (intro lockstep_cong [OF ls]) simp
qed

lemma lockstep_broadcast:
  assumes "lockstep trs ks (\<lambda>j. bindA (callA (Broadcast root (xs j))) (f j)) s r s'" and "collectives_ok trs"
    and "root < length trs" and "\<And>j. j < length trs \<Longrightarrow> length (xs j) = n"
  shows "lockstep trs (ks @ [KBroadcast]) (\<lambda>j. f j (Nums (xs root))) s r s'"
proof -
  obtain rep where rm: "round_matched trs (length ks)"
    and at: "\<And>j. j < length trs \<Longrightarrow> collectives (trs ! j) ! length ks = (Broadcast root (xs j), rep j)"
    and ls: "lockstep trs (ks @ [KBroadcast]) (\<lambda>j. f j (rep j)) s r s'"
    by (rule lockstep_call [OF assms(1), where k = KBroadcast]) (simp, rule that)
  have "rep j = Nums (xs root)" if "j < length trs" for j
    using round_broadcast [OF assms(2,3) rm, of n "xs root" j] at assms(3,4) that by force
  then show ?thesis by (intro lockstep_cong [OF ls]) simp
qed

text \<open>At the end.\<close>

lemma lockstep_retA: "lockstep trs ks (\<lambda>j. retA (x j)) s r s' \<Longrightarrow> matched trs \<and> (\<forall>j<length trs. r j = Inr (x j))"
  by (auto simp: lockstep_def act_simps intro!: matchedI [where ks = ks])

lemma lockstep_throwA: "lockstep trs ks (\<lambda>j. throwA (e j)) s r s' \<Longrightarrow> matched trs \<and> (\<forall>j<length trs. r j = Inl (e j))"
  by (auto simp: lockstep_def act_simps intro!: matchedI [where ks = ks])

lemma lockstep_throw_bind: "lockstep trs ks (\<lambda>j. bindA (throwA (e j)) (f j)) s r s' \<longleftrightarrow> lockstep trs ks (\<lambda>j. throwA (e j)) s r s'"
  by (simp add: lockstep_def act_simps)

text \<open>The check of an allocation on every process.\<close>

lemma bindA_throwA: "bindA (throwA e) f = throwA e"
  by (simp add: bindA_def throwA_def)

lemma bindA_if: "bindA (if b then m else n) f = (if b then bindA m f else bindA n f)"
  by simp

lemma signal_failure_bind: "bindA signal_failure f = signal_failure"
  by (simp add: signal_failure_def bindA_assoc bindA_throwA)

lemmas bind_laws = bindA_assoc bindA_retA bindA_throwA bindA_if signal_failure_bind

lemma lockstep_failure:
  assumes "lockstep trs ks (\<lambda>j. if bad j then signal_failure else bindA others_failed (\<lambda>_. f j)) s r s'" and "collectives_ok trs"
  shows "lockstep trs (ks @ [KOr]) (\<lambda>j. if \<exists>i<length trs. bad i then throwA BadAlloc else f j) s r s'"
proof -
  have "lockstep trs ks (\<lambda>j. bindA (callA (AllreduceOr (bad j))) (\<lambda>fl. if bad j \<or> the_flag fl then throwA BadAlloc else f j)) s r s'"
    by (rule lockstep_cong [OF assms(1)]) (simp add: signal_failure_def others_failed_def bindA_assoc if_distribR bindA_if bindA_throwA bindA_retA cong: if_cong)
  from lockstep_or [OF this assms(2)] show ?thesis by (rule lockstep_cong) auto
qed

lemma lockstep_value:
  assumes "lockstep trs ks (\<lambda>j. bindA (broadcast_value (x j) root) (f j)) s r s'" and "collectives_ok trs"
    and "root < length trs"
  shows "lockstep trs (ks @ [KBroadcast]) (\<lambda>j. f j (x root)) s r s'"
proof -
  have "lockstep trs ks (\<lambda>j. bindA (callA (Broadcast root [x j])) (\<lambda>rep. f j (hd (the_nums rep)))) s r s'"
    using assms(1) by (simp add: broadcast_value_def bindA_assoc bindA_retA)
  from lockstep_broadcast [OF this assms(2,3), of 1] show ?thesis by simp
qed

lemma liftA_Inr: "liftA (\<lambda>_. Inr x) = retA x"
  by (simp add: liftA_def retA_def)

text \<open>The broadcast of a vector, and of a string, as steps of all processes together.\<close>

lemma lockstep_vector:
  assumes "lockstep trs ks (\<lambda>j. bindA (broadcast_vector (ok j) (xs j) root) (f j)) s r s'" and "collectives_ok trs"
    and "root < length trs" and "xs root \<noteq> []"
  defines "fail \<equiv> \<exists>i<length trs. \<not> (length (xs root) \<le> length (xs i) \<or> ok i)"
  shows "lockstep trs (ks @ (if fail then [KBroadcast, KOr] else [KBroadcast, KOr, KBroadcast]))
    (\<lambda>j. if fail then throwA BadAlloc else f j (xs root)) s r s'"
proof -
  let ?n = "length (xs root)"
  let ?rest = "\<lambda>j. bindA (liftA (\<lambda>_. vec_at (vec_resize ?n 0 (xs j)) 0)) (\<lambda>_.
       bindA (callA (Broadcast root (vec_resize ?n 0 (xs j)))) (\<lambda>r. f j (the_nums r)))"
  have "lockstep trs (ks @ [KBroadcast]) (\<lambda>j. if \<not> (?n \<le> length (xs j) \<or> ok j) then signal_failure
     else bindA others_failed (\<lambda>_. ?rest j)) s r s'"
    using lockstep_value [OF assms(1) [unfolded broadcast_vector_def bindA_assoc] assms(2,3)]
    by (rule lockstep_cong) (simp add: bind_laws Let_def cong: if_cong)
  from lockstep_failure [OF this assms(2)]
  have c: "lockstep trs (ks @ [KBroadcast, KOr]) (\<lambda>j. if fail then throwA BadAlloc else ?rest j) s r s'"
    unfolding fail_def by simp
  show ?thesis
  proof (cases fail)
    case True
    then show ?thesis using c by simp
  next
    case False
    have "lockstep trs (ks @ [KBroadcast, KOr])
        (\<lambda>j. bindA (callA (Broadcast root (vec_resize ?n 0 (xs j)))) (\<lambda>r. f j (the_nums r))) s r s'"
      using c False assms(4) by (simp add: liftA_Inr bindA_retA)
    from lockstep_broadcast [OF this assms(2,3), of ?n] show ?thesis using False by simp
  qed
qed

definition string_failure :: "nat \<Rightarrow> nat \<Rightarrow> (nat \<Rightarrow> nat list) \<Rightarrow> (nat \<Rightarrow> nat \<Rightarrow> bool) \<Rightarrow> bool" where
  "string_failure n root str ok \<longleftrightarrow> str root \<noteq> [] \<and>
     (\<exists>i<n. \<not> (str i = [] \<or> ok i 0) \<or> \<not> (length (str root) \<le> length (str i) \<or> ok i 1) \<or> \<not> ok i 2)"

lemma lockstep_string:
  assumes "lockstep trs ks (\<lambda>j. bindA (broadcast_string (ok j) (str j) root) (f j)) s r s'" and "collectives_ok trs"
    and "root < length trs"
  shows "\<exists>ks'. lockstep trs ks' (\<lambda>j. if string_failure (length trs) root str ok then throwA BadAlloc else f j (str root)) s r s'"
proof (cases "str root = []")
  case True
  have "lockstep trs (ks @ [KBroadcast]) (\<lambda>j. f j []) s r s'"
    using lockstep_value [OF assms(1) [unfolded broadcast_string_def bindA_assoc] assms(2,3)] True
    by (simp add: bindA_if bindA_retA)
  then show ?thesis using True by (auto simp: string_failure_def)
next
  case False
  let ?final = "\<lambda>j. if \<not> ok j 2 then signal_failure else bindA others_failed (\<lambda>_. f j (str root))"
  have "lockstep trs (ks @ [KBroadcast]) (\<lambda>j. if \<not> (str j = [] \<or> ok j 0) then signal_failure
     else bindA others_failed (\<lambda>_. bindA (broadcast_vector (ok j 1) (str j) root) (\<lambda>arr.
       if \<not> ok j 2 then signal_failure else bindA others_failed (\<lambda>_. f j arr)))) s r s'"
    using lockstep_value [OF assms(1) [unfolded broadcast_string_def bindA_assoc] assms(2,3)] False
    by (simp add: bind_laws cong: if_cong)
  note s1 = lockstep_failure [OF this assms(2)]
  show ?thesis
  proof (cases "\<exists>i<length trs. \<not> (str i = [] \<or> ok i 0)")
    case True
    then have "string_failure (length trs) root str ok" using False unfolding string_failure_def by blast
    then show ?thesis using s1 True by (intro exI) simp
  next
    case ok0: False
    have "lockstep trs (ks @ [KBroadcast, KOr]) (\<lambda>j. bindA (broadcast_vector (ok j 1) (str j) root) (\<lambda>arr.
       if \<not> ok j 2 then signal_failure else bindA others_failed (\<lambda>_. f j arr))) s r s'"
      using s1 unfolding if_not_P [OF ok0] by simp
    note s2 = lockstep_vector [OF this assms(2,3) False]
    show ?thesis
    proof (cases "\<exists>i<length trs. \<not> (length (str root) \<le> length (str i) \<or> ok i 1)")
      case True
      then have "string_failure (length trs) root str ok" using False unfolding string_failure_def by blast
      then show ?thesis using s2 True by (intro exI) simp
    next
      case ok1: False
      have "lockstep trs (ks @ [KBroadcast, KOr, KBroadcast, KOr, KBroadcast]) ?final s r s'"
        using s2 unfolding if_not_P [OF ok1] by simp
      from lockstep_failure [OF this assms(2)]
      have s3: "lockstep trs (ks @ [KBroadcast, KOr, KBroadcast, KOr, KBroadcast, KOr])
          (\<lambda>j. if \<exists>i<length trs. \<not> ok i 2 then throwA BadAlloc else f j (str root)) s r s'" by simp
      have "string_failure (length trs) root str ok \<longleftrightarrow> (\<exists>i<length trs. \<not> ok i 2)"
        using False ok0 ok1 unfolding string_failure_def by blast
      then show ?thesis using s3 by (intro exI) simp
    qed
  qed
qed

text \<open>A part that makes no collective call.\<close>

lemma no_collective: "calls (\<lambda>c. kind_of c = None) m \<Longrightarrow> acts m s tr r s' \<Longrightarrow> coll_kinds tr = []"
proof -
  assume c: "calls (\<lambda>c. kind_of c = None) m" "acts m s tr r s'"
  have "kind_of (fst e) = None" if "e \<in> set tr" for e using callsD [OF c that] .
  then show ?thesis by (induction tr) auto
qed

lemma lockstep_local:
  assumes "lockstep trs ks (\<lambda>j. bindA (m j) (f j)) s r s'"
    and "\<And>j. j < length trs \<Longrightarrow> calls (\<lambda>c. kind_of c = None) (m j)"
    and "\<And>j t r1 s1. j < length trs \<Longrightarrow> acts (m j) (s j) t r1 s1 \<Longrightarrow> \<exists>x. r1 = Inr x \<and> P j x s1"
  obtains x s1 where "\<And>j. j < length trs \<Longrightarrow> P j (x j) (s1 j)" and "lockstep trs ks (\<lambda>j. f j (x j)) s1 r s'"
proof -
  have "\<exists>x s1. P j x s1 \<and> (\<exists>pre suf. trs ! j = pre @ suf \<and> coll_kinds pre = ks \<and> acts (f j x) s1 suf (r j) (s' j))"
    if j: "j < length trs" for j
  proof -
    obtain pre suf where tr: "trs ! j = pre @ suf" "coll_kinds pre = ks" and run: "acts (bindA (m j) (f j)) (s j) suf (r j) (s' j)"
      using assms(1) j unfolding lockstep_def by blast
    have first: "\<exists>x. r1 = Inr x \<and> P j x s1 \<and> coll_kinds t = []" if "acts (m j) (s j) t r1 s1" for t r1 s1
      using assms(3) [OF j that] no_collective [OF assms(2) [OF j] that] by simp
    obtain t1 t2 x s1 where t: "suf = t1 @ t2" "P j x s1 \<and> coll_kinds t1 = []" "acts (f j x) s1 t2 (r j) (s' j)"
      by (rule acts_bind_returns [OF run, where P = "\<lambda>t x s1. P j x s1 \<and> coll_kinds t = []"]) (rule first, assumption, rule that)
    show ?thesis by (rule exI [of _ x], rule exI [of _ s1]) (rule conjI, use t in blast, rule exI [of _ "pre @ t1"], rule exI [of _ t2], use tr t in simp)
  qed
  then obtain x s1 where "\<And>j. j < length trs \<Longrightarrow> P j (x j) (s1 j) \<and> (\<exists>pre suf. trs ! j = pre @ suf \<and> coll_kinds pre = ks \<and>
      acts (f j (x j)) (s1 j) suf (r j) (s' j))" by metis
  then show thesis using that unfolding lockstep_def by blast
qed

text \<open>The status a process brings to the end of a block, and the largest one.\<close>

definition block_status :: "err_t \<Rightarrow> fault + unit \<Rightarrow> err_t" where
  "block_status status r = (case r of Inr _ \<Rightarrow> status | Inl e \<Rightarrow> max status (severity e))"

definition recoverable :: "('s, 'a) ext \<Rightarrow> bool" where
  "recoverable m \<longleftrightarrow> calls (\<lambda>c. kind_of c = None) m \<and> (\<forall>s tr e s'. acts m s tr (Inl e) s' \<longrightarrow> is_exception e)"

lemma foldr_max_ge: "x \<in> set xs \<Longrightarrow> x \<le> foldr max xs (0 :: nat)"
  by (induction xs) (auto simp: le_max_iff_disj)

lemma foldr_max_in: "foldr max xs (0 :: nat) \<in> insert 0 (set xs)"
  by (induction xs) (auto simp: max_def)

lemma max_of_statuses:
  assumes "\<And>j. j < n \<Longrightarrow> (0 :: int) \<le> l j" and "i < n"
  shows "int (foldr max (List.map (\<lambda>j. nat (l j)) [0..<n]) 0) = Max (l ` {..<n})"
proof -
  let ?m = "foldr max (List.map (\<lambda>j. nat (l j)) [0..<n]) 0"
  have ge: "nat (l j) \<le> ?m" if "j < n" for j using that by (intro foldr_max_ge) auto
  have "int ?m \<in> l ` {..<n}"
  proof (cases "?m = 0")
    case True
    then have "l i = 0" using ge [OF assms(2)] assms(1) [OF assms(2)] by simp
    then show ?thesis using True assms(2) by (intro image_eqI [of _ _ i]) simp_all
  next
    case False
    then obtain j where "j < n" "?m = nat (l j)" using foldr_max_in [of "List.map (\<lambda>j. nat (l j)) [0..<n]"] by auto
    then show ?thesis using assms(1) by (intro image_eqI [of _ _ j]) simp_all
  qed
  moreover have "x \<le> int ?m" if x: "x \<in> l ` {..<n}" for x
  proof -
    obtain j where "j < n" "x = l j" using x by auto
    then show ?thesis using ge [of j] by linarith
  qed
  ultimately show ?thesis by (intro Max_eqI [symmetric]) simp_all
qed

named_theorems recoverable_rules \<open>blocks that make no collective call and do not crash\<close>

lemma recoverable_bindA [recoverable_rules]: "recoverable m \<Longrightarrow> (\<And>x. recoverable (f x)) \<Longrightarrow> recoverable (bindA m f)"
  unfolding recoverable_def acts_bindA by (blast intro: calls_bindA)

lemma recoverable_simple [recoverable_rules]:
  "recoverable (retA x)" "is_exception e \<Longrightarrow> recoverable (throwA e)" "kind_of c = None \<Longrightarrow> recoverable (callA c)"
  by (auto simp: recoverable_def act_simps intro!: calls_rules)

lemma recoverable_if [recoverable_rules]: "(b \<Longrightarrow> recoverable m) \<Longrightarrow> (\<not> b \<Longrightarrow> recoverable n) \<Longrightarrow> recoverable (if b then m else n)"
  by simp

lemma lockstep_trysync:
  assumes "lockstep trs ks (\<lambda>j. bindA (trysync (body j) (st j)) (f j)) s r s'" and "collectives_ok trs" and "0 < length trs"
    and "\<And>j. j < length trs \<Longrightarrow> recoverable (body j) \<and> 0 \<le> st j"
  obtains l s1 where "\<And>j. j < length trs \<Longrightarrow> \<exists>t rb sb. acts (body j) (s j) t rb sb \<and> l j = block_status (st j) rb"
    and "lockstep trs (ks @ [KMax]) (\<lambda>j. f j (Max (l ` {..<length trs}))) s1 r s'"
proof -
  let ?n = "length trs"
  let ?m = "\<lambda>j. catchA (bindA (body j) (\<lambda>_. retA (st j))) (\<lambda>e. retA (max (st j) (severity e)))"
  let ?P = "\<lambda>j x s1. \<exists>t rb sb. acts (body j) (s j) t rb sb \<and> x = block_status (st j) rb"
  have ls: "lockstep trs ks (\<lambda>j. bindA (?m j) (\<lambda>status. bindA (callA (AllreduceMax (nat status))) (\<lambda>rep. f j (the_num rep)))) s r s'"
    using assms(1) unfolding trysync_def bindA_assoc bindA_retA .
  have c: "calls (\<lambda>c. kind_of c = None) (?m j)" if "j < ?n" for j
    using assms(4) [OF that] by (auto simp: recoverable_def intro!: calls_rules)
  have o: "\<exists>x. r1 = Inr x \<and> ?P j x s1" if "j < ?n" and run: "acts (?m j) (s j) t r1 s1" for j t r1 s1
  proof -
    have rec: "is_exception e" if "acts (body j) (s j) t2 (Inl e) s2" for t2 e s2
      using assms(4) [OF \<open>j < ?n\<close>] that unfolding recoverable_def by blast
    show ?thesis using run unfolding acts_catchA
    proof (elim disjE exE conjE)
      fix x assume "r1 = Inr x" "acts (bindA (body j) (\<lambda>_. retA (st j))) (s j) t (Inr x) s1"
      then show ?thesis unfolding acts_bindA by (auto simp: act_simps block_status_def intro!: exI)
    next
      fix e assume "\<not> is_exception e" "acts (bindA (body j) (\<lambda>_. retA (st j))) (s j) t (Inl e) s1"
      then show ?thesis using rec unfolding acts_bindA by (auto simp: act_simps)
    next
      fix e s2 t1 t2 assume "acts (bindA (body j) (\<lambda>_. retA (st j))) (s j) t1 (Inl e) s2"
        "acts (retA (max (st j) (severity e))) s2 t2 r1 s1"
      then have "acts (body j) (s j) t1 (Inl e) s2" "r1 = Inr (max (st j) (severity e))"
        unfolding acts_bindA by (auto simp: act_simps)
      then show ?thesis by (auto simp: block_status_def intro!: exI)
    qed
  qed
  obtain l s1 where l: "\<And>j. j < ?n \<Longrightarrow> ?P j (l j) (s1 j)"
    and l2: "lockstep trs ks (\<lambda>j. bindA (callA (AllreduceMax (nat (l j)))) (\<lambda>rep. f j (the_num rep))) s1 r s'"
    by (rule lockstep_local [OF ls c, of ?P]) (use o that in blast)+
  have nn: "0 \<le> l j" if j: "j < ?n" for j
  proof -
    obtain rb where "l j = block_status (st j) rb" using l [OF j] by blast
    then show ?thesis using assms(4) [OF j] by (cases rb) (simp_all add: block_status_def le_max_iff_disj)
  qed
  have "int (foldr max (List.map (\<lambda>j. nat (l j)) [0..<?n]) 0) = Max (l ` {..<?n})"
    using nn assms(3) by (rule max_of_statuses)
  with lockstep_max [OF l2 assms(2)] have "lockstep trs (ks @ [KMax]) (\<lambda>j. f j (Max (l ` {..<?n}))) s1 r s'" by simp
  then show thesis by (rule that [rotated]) (rule l)
qed

text \<open>A block that rethrows.\<close>

lemma lockstep_rethrow:
  assumes "lockstep trs ks (\<lambda>j. bindA (trysync_rethrow (m j)) (f j)) s r s'" and "collectives_ok trs"
    and "\<And>j. j < length trs \<Longrightarrow> recoverable (m j)"
  obtains res s1 where "\<And>j. j < length trs \<Longrightarrow> \<exists>t. acts (m j) (s j) t (res j) (s1 j) \<and> set t \<subseteq> set (trs ! j)"
    and "lockstep trs (ks @ [KOr]) (\<lambda>j. case res j of Inl e \<Rightarrow> throwA e
      | Inr x \<Rightarrow> if \<exists>i<length trs. isl (res i) then throwA OtherProcessFailure else f j x) s1 r s'"
proof -
  let ?rest = "\<lambda>j res. bindA (callA (AllreduceOr (isl res))) (\<lambda>fl. case res of Inl e \<Rightarrow> throwA e
      | Inr x \<Rightarrow> if the_flag fl then throwA OtherProcessFailure else f j x)"
  have split: "\<exists>t1 t2 res s1. tr = t1 @ t2 \<and> acts (m j) (s j) t1 res s1 \<and> coll_kinds t1 = [] \<and> acts (?rest j res) s1 t2 r1 s2"
    if j: "j < length trs" and run: "acts (bindA (trysync_rethrow (m j)) (f j)) (s j) tr r1 s2" for j tr r1 s2
  proof -
    have non: "coll_kinds t = []" if "acts (m j) (s j) t r0 s1" for t r0 s1
      by (rule no_collective [OF _ that]) (use assms(3) [OF j] in \<open>simp add: recoverable_def\<close>)
    have rec: "is_exception e" if "acts (m j) (s j) t (Inl e) s1" for t e s1
      using assms(3) [OF j] that unfolding recoverable_def by blast
    have "acts (bindA (catchA (m j) (\<lambda>e. bindA (callA (AllreduceOr True)) (\<lambda>_. throwA e))) (\<lambda>x.
        bindA (callA (AllreduceOr False)) (\<lambda>fl. if the_flag fl then throwA OtherProcessFailure else f j x))) (s j) tr r1 s2"
      using run by (simp add: trysync_rethrow_def bindA_assoc if_distrib [of "\<lambda>m. bindA m (f j)"] bind_laws cong: if_cong)
    then consider (thrown) e where "r1 = Inl e" "acts (catchA (m j) (\<lambda>e. bindA (callA (AllreduceOr True)) (\<lambda>_. throwA e))) (s j) tr (Inl e) s2"
      | (fine) x s1 t1 t2 where "tr = t1 @ t2" "acts (catchA (m j) (\<lambda>e. bindA (callA (AllreduceOr True)) (\<lambda>_. throwA e))) (s j) t1 (Inr x) s1"
          "acts (bindA (callA (AllreduceOr False)) (\<lambda>fl. if the_flag fl then throwA OtherProcessFailure else f j x)) s1 t2 r1 s2"
      unfolding acts_bindA [of "catchA _ _"] by blast
    then show ?thesis
    proof cases
      case thrown
      then obtain s1 t1 rep where "acts (m j) (s j) t1 (Inl e) s1" "tr = t1 @ [(AllreduceOr True, rep)]" "s2 = s1"
        using rec unfolding acts_catchA by (auto simp: act_simps)
      then show ?thesis using non thrown(1) by (intro exI [of _ t1] exI [of _ "[(AllreduceOr True, rep)]"] exI [of _ "Inl e"] exI [of _ s1])
          (simp add: act_simps)
    next
      case fine
      then have "acts (m j) (s j) t1 (Inr x) s1" unfolding acts_catchA by (auto simp: act_simps)
      then show ?thesis using non [of t1 "Inr x" s1] fine by (intro exI [of _ t1] exI [of _ t2] exI [of _ "Inr x"] exI [of _ s1]) simp
    qed
  qed
  have "\<exists>res s1. (\<exists>t. acts (m j) (s j) t res s1 \<and> set t \<subseteq> set (trs ! j)) \<and> (\<exists>pre suf. trs ! j = pre @ suf \<and> coll_kinds pre = ks \<and> acts (?rest j res) s1 suf (r j) (s' j))"
    if j: "j < length trs" for j
  proof -
    obtain pre suf where tr: "trs ! j = pre @ suf" "coll_kinds pre = ks" and run: "acts (bindA (trysync_rethrow (m j)) (f j)) (s j) suf (r j) (s' j)"
      using assms(1) j unfolding lockstep_def by blast
    obtain t1 t2 res s1 where t: "suf = t1 @ t2" "acts (m j) (s j) t1 res s1" "coll_kinds t1 = []" "acts (?rest j res) s1 t2 (r j) (s' j)"
      using split [OF j run] by blast
    have "set t1 \<subseteq> set (trs ! j)" using tr t by auto
    with t(2) have "\<exists>t. acts (m j) (s j) t res s1 \<and> set t \<subseteq> set (trs ! j)" by blast
    then show ?thesis by (rule exI [of _ res, OF exI [of _ s1, OF conjI]]) (rule exI [of _ "pre @ t1"], rule exI [of _ t2], use tr t in simp)
  qed
  then obtain res s1 where at: "\<And>j. j < length trs \<Longrightarrow> (\<exists>t. acts (m j) (s j) t (res j) (s1 j) \<and> set t \<subseteq> set (trs ! j)) \<and>
      (\<exists>pre suf. trs ! j = pre @ suf \<and> coll_kinds pre = ks \<and> acts (?rest j (res j)) (s1 j) suf (r j) (s' j))" by metis
  then have "lockstep trs ks (\<lambda>j. ?rest j (res j)) s1 r s'" unfolding lockstep_def by blast
  from lockstep_or [OF this assms(2)]
  have "lockstep trs (ks @ [KOr]) (\<lambda>j. case res j of Inl e \<Rightarrow> throwA e
      | Inr x \<Rightarrow> if \<exists>i<length trs. isl (res i) then throwA OtherProcessFailure else f j x) s1 r s'"
    unfolding reply_simps .
  then show thesis using that at by blast
qed

text \<open>Either all processes throw, because the block of one of them did, or the block was fine on all of them.\<close>

lemma lockstep_rethrow_cases:
  assumes "lockstep trs ks (\<lambda>j. bindA (trysync_rethrow (m j)) (f j)) s r s'" and "collectives_ok trs"
    and "\<And>j. j < length trs \<Longrightarrow> recoverable (m j)"
  obtains (failed) e s1 i t ei si where "lockstep trs (ks @ [KOr]) (\<lambda>j. throwA (e j)) s1 r s'"
      and "\<And>j. j < length trs \<Longrightarrow> is_exception (e j)"
      and "i < length trs" and "acts (m i) (s i) t (Inl ei) si" and "set t \<subseteq> set (trs ! i)"
  | (fine) x s1 where "\<And>j. j < length trs \<Longrightarrow> \<exists>t. acts (m j) (s j) t (Inr (x j)) (s1 j) \<and> set t \<subseteq> set (trs ! j)"
      and "lockstep trs (ks @ [KOr]) (\<lambda>j. f j (x j)) s1 r s'"
proof -
  obtain res s1 where res: "\<And>j. j < length trs \<Longrightarrow> \<exists>t. acts (m j) (s j) t (res j) (s1 j) \<and> set t \<subseteq> set (trs ! j)"
    and l: "lockstep trs (ks @ [KOr]) (\<lambda>j. case res j of Inl e \<Rightarrow> throwA e
      | Inr x \<Rightarrow> if \<exists>i<length trs. isl (res i) then throwA OtherProcessFailure else f j x) s1 r s'"
    by (rule lockstep_rethrow [OF assms]) (assumption, rule that)
  show thesis
  proof (cases "\<exists>i<length trs. isl (res i)")
    case True
    then obtain i ei where i: "i < length trs" "res i = Inl ei" by (metis isl_def)
    obtain t where t: "acts (m i) (s i) t (Inl ei) (s1 i)" "set t \<subseteq> set (trs ! i)" using res [OF i(1)] unfolding i(2) by blast
    have "lockstep trs (ks @ [KOr]) (\<lambda>j. throwA (case res j of Inl e \<Rightarrow> e | Inr _ \<Rightarrow> OtherProcessFailure)) s1 r s'"
      by (rule lockstep_cong [OF l [unfolded if_P [OF True]]]) (simp split: sum.split)
    then show thesis
    proof (rule failed [OF _ _ i(1) t])
      show "is_exception (case res j of Inl e \<Rightarrow> e | Inr _ \<Rightarrow> OtherProcessFailure)" if j: "j < length trs" for j
      proof (cases "res j")
        case (Inl e)
        then show ?thesis using res [OF j] assms(3) [OF j] unfolding recoverable_def by auto
      qed (simp add: OtherProcessFailure_def)
    qed
  next
    case False
    then have x: "res j = Inr (projr (res j))" if "j < length trs" for j using that by (metis sum.collapse(2))
    have "lockstep trs (ks @ [KOr]) (\<lambda>j. f j (projr (res j))) s1 r s'"
      by (rule lockstep_cong [OF l [unfolded if_not_P [OF False]]]) (subst x, simp_all)
    then show thesis by (rule fine [rotated]) (use res x in metis)
  qed
qed

section \<open>Properties\<close>

text \<open>
  all processes get the string of the root, or none does.  When every process broadcasts a string with the same root, they
  make matching collective calls; if no allocation fails every process ends with the string of the root,
  whatever it had before, and if one fails on some process every process throws \<open>bad_alloc\<close>.
\<close>

theorem broadcast_string_agreement:
  assumes "collectives_ok trs" and "root < length trs"
    and "\<forall>j<length trs. acts (broadcast_string (ok j) (str j) root) (s j) (trs ! j) (r j) (s' j)"
  shows "matched trs \<and>
    (\<forall>j<length trs. r j = (if string_failure (length trs) root str ok then Inl BadAlloc else Inr (str root)))"
proof -
  have "lockstep trs [] (\<lambda>j. bindA (broadcast_string (ok j) (str j) root) retA) s r s'"
    using lockstep_start [OF assms(3)] by (rule lockstep_cong) (simp add: bindA_unit)
  from lockstep_string [OF this assms(1,2)] obtain ks where
    ls: "lockstep trs ks (\<lambda>j. if string_failure (length trs) root str ok then throwA BadAlloc else retA (str root)) s r s'" by blast
  show ?thesis
  proof (cases "string_failure (length trs) root str ok")
    case True
    then show ?thesis using lockstep_throwA [of trs ks "\<lambda>_. BadAlloc" s r s'] ls by simp
  next
    case False
    then show ?thesis using lockstep_retA [of trs ks "\<lambda>_. str root" s r s'] ls by simp
  qed
qed

text \<open>The rounds of two processes, one after the other.\<close>

lemma collectives_ok_pair:
  assumes "list_all2 (\<lambda>a b. kind_of (fst a) = kind_of (fst b) \<longrightarrow> round_ok [a, b]) (take n (collectives t0)) (take n (collectives t1))"
    and "n = min (length (collectives t0)) (length (collectives t1))"
  shows "collectives_ok [t0, t1]"
  unfolding collectives_ok_def
proof (intro ballI impI)
  fix k assume "round_matched [t0, t1] k"
  then have k: "k < length (collectives t0)" "k < length (collectives t1)"
    "kind_of (fst (collectives t0 ! k)) = kind_of (fst (collectives t1 ! k))" by (simp_all add: round_matched_def)
  then have "k < n" using assms(2) by simp
  with assms k show "round_ok (List.map (\<lambda>tr. collectives tr ! k) [t0, t1])"
    by (auto simp: list_all2_conv_all_nth)
qed

lemmas round_simps = round_ok_def or_args_def max_args_def root_args_def same_broadcast_def lessThan_Suc

text \<open>A string of one character, and a process that has no memory for it.\<close>

definition demo_broadcast :: "nat \<Rightarrow> event list" where
  "demo_broadcast j = [(Broadcast 0 [1], Nums [1]), (AllreduceOr (j = 1), Flag True)]"

theorem broadcast_string_agreement_witness:
  "acts (broadcast_string (\<lambda>_. True) [7] 0) () (demo_broadcast 0) (Inl BadAlloc) ()"
proof -
  let ?trs = "[demo_broadcast 0, demo_broadcast 1]"
  let ?ok = "\<lambda>j :: nat. \<lambda>_ :: nat. j \<noteq> 1"
  have run: "acts (broadcast_string (?ok j) [7] 0) () (demo_broadcast j) (Inl BadAlloc) ()" for j
    by (simp add: demo_broadcast_def broadcast_string_def broadcast_value_def others_failed_def signal_failure_def
        act_simps bind_laws)
  have ok: "collectives_ok ?trs"
    by (rule collectives_ok_pair) (simp_all add: round_simps demo_broadcast_def)
  have "\<forall>j<length ?trs. acts (broadcast_string (?ok j) [7] 0) () (?trs ! j) (Inl BadAlloc) ()"
    using run [of 0] run [of 1] by (simp add: less_Suc_eq)
  from broadcast_string_agreement [OF ok _ this] run [of 0] show ?thesis by simp
qed

text \<open>
  a block between \<open>TRYSYNC_BEGIN\<close> and \<open>TRYSYNC_END\<close> ends with the same status everywhere.  When the blocks make no
  collective call of their own, all processes take part in the reduction of the status, whether their block returned or threw, and
  all end with the severest of the statuses of the single processes, without an exception.
\<close>

theorem trysync_agreement:
  assumes "collectives_ok trs" and "\<forall>j<length trs. acts (trysync (body j) (st j)) (s j) (trs ! j) (r j) (s' j)"
    and "\<forall>j<length trs. recoverable (body j) \<and> 0 \<le> st j" and "i < length trs"
  shows "matched trs \<and> (\<exists>l. (\<forall>j<length trs. r j = Inr (Max (l ` {..<length trs}))) \<and>
    (\<forall>j<length trs. \<exists>t rb sb. acts (body j) (s j) t rb sb \<and> l j = block_status (st j) rb))"
proof -
  have "lockstep trs [] (\<lambda>j. bindA (trysync (body j) (st j)) retA) s r s'"
    using lockstep_start [OF assms(2)] by (rule lockstep_cong) (simp add: bindA_unit)
  moreover have "0 < length trs" "\<And>j. j < length trs \<Longrightarrow> recoverable (body j) \<and> 0 \<le> st j" using assms(3,4) by auto
  ultimately obtain l s1 where l: "\<And>j. j < length trs \<Longrightarrow> \<exists>t rb sb. acts (body j) (s j) t rb sb \<and> l j = block_status (st j) rb"
    and e: "lockstep trs ([] @ [KMax]) (\<lambda>j. retA (Max (l ` {..<length trs}))) s1 r s'"
    by (rule lockstep_trysync [OF _ assms(1)]) (assumption, rule that)
  then show ?thesis using lockstep_retA [OF e] by (intro conjI exI [of _ l]) (use l in auto)
qed

theorem trysync_agreement_witness:
  "acts (trysync (retA ()) LPF_SUCCESS) () [(AllreduceMax 0, Num 1)] (Inr LPF_ERR_OUT_OF_MEMORY) ()"
proof -
  let ?body = "\<lambda>j :: nat. if j = 0 then throwA BadAlloc else (retA () :: (unit, unit) ext)"
  let ?trs = "[[(AllreduceMax 1, Num 1)], [(AllreduceMax 0, Num 1)]]"
  have run: "acts (trysync (?body j) LPF_SUCCESS) () (?trs ! j) (Inr 1) ()" if "j < 2" for j
    using that by (auto simp: trysync_def acts_bindA acts_catchA act_simps severity_def err_defs less_2_cases_iff)
  have ok: "collectives_ok ?trs"
    by (rule collectives_ok_pair) (simp_all add: round_simps)
  have rec: "recoverable (?body j)" for j by (auto simp: recoverable_def act_simps intro!: calls_rules)
  have "\<forall>j<length ?trs. acts (trysync (?body j) LPF_SUCCESS) () (?trs ! j) (Inr 1) ()" using run by simp
  from trysync_agreement [OF ok this, of 0] rec run [of 1] show ?thesis by (simp add: err_defs)
qed

end
