(* ===== verification/Process.thy ===== *)
theory Process imports Interface Communication begin

text \<open>
  How a parallel section is run on one process, \<open>Process::hook\<close> of \<open>src/MPI/process.cpp\<close>: the runtime is
  constructed, the user's function is called, and what the processes have to say about its end goes through one more vote.
\<close>

section \<open>Running a section\<close>

text \<open>
  The inner \<open>try\<close>: \<open>spmd\<close> is the user's function on this process.  Both handlers do the same.
\<close>

definition hook_spmd :: "unit runtime \<Rightarrow> nat \<Rightarrow> sync_env \<Rightarrow> err_t runtime" where
  "hook_spmd spmd nprocs e =
     catchA
       (bindA spmd (\<lambda>_. bindA getA (\<lambda>rt.
        if isAborted rt = 0
        then bindA (interface_abort e) (\<lambda>_. bindA getA (\<lambda>rt.
             retA (if isAborted rt \<noteq> nprocs then LPF_ERR_FATAL else LPF_SUCCESS)))
        else retA LPF_ERR_FATAL)))
       (\<lambda>_. bindA (interface_abort e) (\<lambda>_. retA LPF_ERR_FATAL))"

text \<open>The outer \<open>try\<close>, which the constructor of the runtime is in.\<close>

definition hook_failed :: "fault \<Rightarrow> (call, reply, fault + err_t) prog" where
  "hook_failed x = Ret (if x = BadAlloc then Inr LPF_ERR_OUT_OF_MEMORY else Inl x)"

definition process_hook ::
  "(call, reply, fault + message_queue) prog \<Rightarrow> unit runtime \<Rightarrow> nat \<Rightarrow> sync_env \<Rightarrow> (call, reply, fault + err_t) prog" where
  "process_hook queue spmd nprocs e =
     bindT (interface_new queue) (\<lambda>made.
     case made of
       Inl x \<Rightarrow> hook_failed x
     | Inr runtime \<Rightarrow> Vis Barrier (\<lambda>_.
         bindT (hook_spmd spmd nprocs e runtime) (\<lambda>(r, _).
         case r of Inl x \<Rightarrow> hook_failed x | Inr status \<Rightarrow> Ret (Inr status))))"

section \<open>Synchronisations that return\<close>

text \<open>The only votes of a synchronisation are its own: neither the registration of slots nor the queue pairs cast any.\<close>

lemma no_vote_table_sync: "calls (\<lambda>c. vote_of c = None) table_sync"
  by (auto intro!: calls_rules simp: table_sync_def publish_def table_lookup_def on_ibverbs_def on_memreg_def regGlobal_def reg_mr_def
      add_slot_def update_slot_def throw_if_def Let_def)

lemma no_vote_reconnect: "calls (\<lambda>c. vote_of c = None) reconnectQPs"
  by (auto intro!: calls_rules simp: reconnectQPs_def local_qp_info_def exchange_and_connect_def connect_staged_def connect_one_def
      staged_qp_def modify_qp_def fail_everywhere_def throw_if_def Let_def split: option.splits)


lemma votes_none:
  assumes "calls (\<lambda>c. vote_of c = None) m" and "acts m s tr r s'"
  shows "votes tr = []"
proof -
  have "\<forall>ev \<in> set tr. vote_of (fst ev) = None" using callsD [OF assms] by blast
  then show ?thesis by (induction tr) (auto simp: votes_def List.map_filter_def)
qed

lemma table_sync_returns:
  "acts (on_table table_sync) q tr r q' \<Longrightarrow> votes tr = [] \<and> mq_resized q' = mq_resized q"
  using votes_none [OF no_vote_table_sync] by (fastforce simp: act_simps)

lemma ibverbs_sync_returns:
  assumes "acts (ibverbs_sync [a, b] LPF_SYNC_DEFAULT vv pb pw) s tr (Inr v) s'"
  shows "votes tr = [[a, b]] \<and> v ! 0 = (if fst vv \<noteq> 0 then fst vv else a)"
proof -
  have voting: "votes t = [[a, b]]" if "List.map fst t = voting [a, b] u" for t u
    using votes_calls [of t "voting [a, b] u @ []"] that unfolding votes_voting by (simp add: List.map_filter_def)
  obtain t1 t2 s1 where 1: "tr = t1 @ t2" "votes t1 = [[a, b]]"
    and k: "acts (bindA (bindA (modA pb) (\<lambda>_. sync_resume [a, b] vv)) (\<lambda>stop.
     case stop of
       Some v \<Rightarrow> retA v
     | None \<Rightarrow> bindA (modA pw) (\<lambda>_. bindA (sync_commit LPF_SYNC_DEFAULT) (\<lambda>_. retA [a, b])))) s1 t2 (Inr v) s'"
    using assms voting unfolding ibverbs_sync_def acts_bindA [of "sync_vote _ _"] by (fastforce dest: sync_vote_run)
  show ?thesis
  proof (cases "fst vv = 0")
    case False
    then show ?thesis using 1 k by (simp add: sync_resume_def act_simps)
  next
    case True
    have none: "calls (\<lambda>c. vote_of c = None) (if 0 < snd vv then reconnectQPs else retA ())"
      using no_vote_reconnect by (auto intro!: calls_rules)
    have k': "acts (bindA (if 0 < snd vv then reconnectQPs else retA ()) (\<lambda>_. bindA (modA pw) (\<lambda>_.
        bindA (sync_commit LPF_SYNC_DEFAULT) (\<lambda>_. retA [a, b])))) (pb s1) t2 (Inr v) s'"
      using k True by (simp add: sync_resume_def act_simps monad_laws)
    obtain t3 t4 x s2 where 2: "t2 = t3 @ t4" "acts (if 0 < snd vv then reconnectQPs else retA ()) (pb s1) t3 (Inr x) s2"
      and k2: "acts (bindA (sync_commit LPF_SYNC_DEFAULT) (\<lambda>_. retA [a, b])) (pw s2) t4 (Inr v) s'"
      using k' unfolding acts_bindA [of "if _ then _ else _"] by (auto simp: act_simps)
    have "votes t4 = []" using k2 by (rule votes_none [rotated]) (intro calls_rules no_vote_commit)
    moreover have "v = [a, b]" using k2 unfolding acts_bindA [of "sync_commit _"] by (auto simp: act_simps)
    ultimately show ?thesis using 1 2 votes_none [OF none 2(2)] True by simp
  qed
qed

lemma queue_vote_returns:
  assumes "acts (queue_vote abort LPF_SYNC_DEFAULT e) i tr (Inr u) i'"
  shows "votes tr = [the_vote abort (if_mesgQueue i)] \<and>
    if_aborted i' = nat ((if fst (voted e) \<noteq> 0 then fst (voted e) else if abort then 1 else 0) mod 2 ^ 32)"
proof -
  obtain n q where run: "acts (queue_sync abort LPF_SYNC_DEFAULT (voted e) (poll_blocked e) (poll_waiting e)) (if_mesgQueue i) tr (Inr n) q"
    and i': "if_aborted i' = nat (n mod 2 ^ 32)"
    using assms unfolding queue_vote_def acts_bindA [of "on_queue _"] by (auto simp: act_simps)
  then obtain t1 t2 q1 where 1: "tr = t1 @ t2" "votes t1 = []" "mq_resized q1 = mq_resized (if_mesgQueue i)"
    and k: "acts (bindA (modA (\<lambda>q. q\<lparr>mq_vote := [if abort then 1 else 0, if mq_resized q then 1 else 0]\<rparr>)) (\<lambda>_.
     bindA getA (\<lambda>q.
     bindA (on_verbs (ibverbs_sync (mq_vote q) LPF_SYNC_DEFAULT (voted e) (poll_blocked e) (poll_waiting e))) (\<lambda>v.
     bindA (modA (\<lambda>q. q\<lparr>mq_vote := v\<rparr>)) (\<lambda>_.
     if v ! 0 \<noteq> 0 then retA (v ! 0)
     else bindA (modA (\<lambda>q. q\<lparr>mq_resized := False\<rparr>)) (\<lambda>_. retA 0)))))) q1 t2 (Inr n) q"
    unfolding queue_sync_def acts_bindA [of "on_table _"] using table_sync_returns by blast
  define b :: int where "b = (if mq_resized q1 then 1 else 0)"
  let ?run = "ibverbs_sync [if abort then 1 else 0, b] LPF_SYNC_DEFAULT (voted e) (poll_blocked e) (poll_waiting e)"
  have mv: "mq_vote (q1\<lparr>mq_vote := v\<rparr>) = v" for v by simp
  have k': "acts (bindA (on_verbs ?run) (\<lambda>v.
     bindA (modA (\<lambda>q. q\<lparr>mq_vote := v\<rparr>)) (\<lambda>_.
     if v ! 0 \<noteq> 0 then retA (v ! 0)
     else bindA (modA (\<lambda>q. q\<lparr>mq_resized := False\<rparr>)) (\<lambda>_. retA 0))))
     (q1\<lparr>mq_vote := [if abort then 1 else 0, b]\<rparr>) t2 (Inr n) q"
    using k by (simp only: acts_bind_modA acts_bind_getA b_def mv)
  from k' obtain v q2 t3 t4 where 2: "t2 = t3 @ t4" and run: "acts (on_verbs ?run) (q1\<lparr>mq_vote := [if abort then 1 else 0, b]\<rparr>) t3 (Inr v) q2"
    and rest: "acts (bindA (modA (\<lambda>q. q\<lparr>mq_vote := v\<rparr>)) (\<lambda>_. if v ! 0 \<noteq> 0 then retA (v ! 0)
      else bindA (modA (\<lambda>q. q\<lparr>mq_resized := False\<rparr>)) (\<lambda>_. retA 0))) q2 t4 (Inr n) q"
    unfolding acts_bindA [of "on_verbs _"] by blast
  from rest have 3: "t4 = []" "n = v ! 0" by (auto simp: act_simps split: if_splits)
  from run obtain s s' where "acts ?run s t3 (Inr v) s'" unfolding acts_on_verbs by blast
  with ibverbs_sync_returns [OF this] 1 2 3 i' show ?thesis by (auto simp: the_vote_def b_def)
qed

lemma interface_sync_returns:
  assumes "acts (interface_sync LPF_SYNC_DEFAULT e) i tr (Inr c) i'" and "if_aborted i = 0"
  shows "votes tr = [the_vote False (if_mesgQueue i)] \<and> if_aborted i' = nat (fst (voted e) mod 2 ^ 32)"
proof -
  have "acts (bindA (queue_vote False LPF_SYNC_DEFAULT e) (\<lambda>_. bindA getA (\<lambda>i.
     retA (if 0 = if_aborted i then LPF_SUCCESS else LPF_ERR_FATAL)))) i tr (Inr c) i'"
    using assms by (simp add: interface_sync_def act_simps)
  then obtain u where "acts (queue_vote False LPF_SYNC_DEFAULT e) i tr (Inr u) i'"
    unfolding acts_bindA [of "queue_vote _ _ _"] by (auto simp: act_simps)
  with queue_vote_returns [OF this] show ?thesis by auto
qed

lemma interface_abort_returns:
  assumes "acts (interface_abort e) i tr (Inr u) i'" and "if_aborted i = 0"
  shows "votes tr = [the_vote True (if_mesgQueue i)] \<and>
    if_aborted i' = nat ((if fst (voted e) \<noteq> 0 then fst (voted e) else 1) mod 2 ^ 32)"
proof -
  have "acts (queue_vote True LPF_SYNC_DEFAULT e) i tr (Inr u) i'"
    using assms by (simp add: interface_abort_def act_simps)
  from queue_vote_returns [OF this] show ?thesis by auto
qed

section \<open>User functions\<close>

text \<open>
  A user's function as the runtime sees it: supersteps, each some work on the runtime followed by a default
  synchronisation, whose result it may ignore; then it returns, or throws.
\<close>

definition spmd_end :: "fault option \<Rightarrow> unit runtime" where
  "spmd_end x = (case x of None \<Rightarrow> retA () | Some f \<Rightarrow> throwA f)"

primrec spmd_steps :: "(unit runtime \<times> sync_env) list \<Rightarrow> fault option \<Rightarrow> unit runtime" where
  "spmd_steps [] x = spmd_end x"
| "spmd_steps (s # ss) x =
     bindA (fst s) (\<lambda>_. bindA (talpf_sync LPF_SYNC_DEFAULT (snd s)) (\<lambda>_. spmd_steps ss x))"

text \<open>
  What a section may do when its calls are answered as in \<open>G\<close>.  From the states that it reaches, the work of a superstep
  returns, synchronises nothing by itself and does not touch the abort mark, the synchronisation returns, with success or
  not, and so does the last vote.  The work may transfer, register, remove and resize as it likes.
\<close>

definition works :: "event set \<Rightarrow> unit runtime \<Rightarrow> interface \<Rightarrow> (interface \<Rightarrow> bool) \<Rightarrow> bool" where
  "works G m i Q \<longleftrightarrow> (\<forall>tr r i'. acts m i tr r i' \<longrightarrow> set tr \<subseteq> G \<longrightarrow>
     r = Inr () \<and> votes tr = [] \<and> if_aborted i' = if_aborted i \<and> Q i')"

definition returns :: "event set \<Rightarrow> 'a runtime \<Rightarrow> interface \<Rightarrow> (interface \<Rightarrow> bool) \<Rightarrow> bool" where
  "returns G m i Q \<longleftrightarrow> (\<forall>tr r i'. acts m i tr r i' \<longrightarrow> set tr \<subseteq> G \<longrightarrow> (\<exists>c. r = Inr c) \<and> Q i')"

primrec section_ok :: "event set \<Rightarrow> (unit runtime \<times> sync_env) list \<Rightarrow> sync_env \<Rightarrow> interface \<Rightarrow> bool" where
  "section_ok G [] e i = (if_aborted i = 0 \<longrightarrow> returns G (interface_abort e) i (\<lambda>_. True))"
| "section_ok G (s # ss) e i =
     works G (fst s) i (\<lambda>i. returns G (interface_sync LPF_SYNC_DEFAULT (snd s)) i (section_ok G ss e))"

text \<open>The first superstep of a section.\<close>

lemma hook_spmd_step:
  assumes "acts (hook_spmd (spmd_steps (s # ss) x) n e) i tr r i'" and "section_ok G (s # ss) e i" and "set tr \<subseteq> G"
  obtains t1 t2 t3 i1 i2 c x1 where "tr = t1 @ t2 @ t3" and "votes t1 = []" and "if_aborted i1 = if_aborted i"
    and "acts (fst s) i t1 (Inr x1) i1" and "set t1 \<subseteq> G"
    and "acts (interface_sync LPF_SYNC_DEFAULT (snd s)) i1 t2 (Inr c) i2"
    and "section_ok G ss e i2" and "acts (hook_spmd (spmd_steps ss x) n e) i2 t3 r i'" and "set t3 \<subseteq> G"
proof -
  note ok = assms(2) [unfolded section_ok.simps works_def]
  obtain t1 u x1 i1 where 1: "tr = t1 @ u" "acts (fst s) i t1 (Inr x1) i1"
    and k: "acts (catchA (bindA (talpf_sync LPF_SYNC_DEFAULT (snd s)) (\<lambda>_. bindA (spmd_steps ss x) (\<lambda>_. bindA getA (\<lambda>rt.
        if isAborted rt = 0
        then bindA (interface_abort e) (\<lambda>_. bindA getA (\<lambda>rt.
             retA (if isAborted rt \<noteq> n then LPF_ERR_FATAL else LPF_SUCCESS)))
        else retA LPF_ERR_FATAL)))) (\<lambda>_. bindA (interface_abort e) (\<lambda>_. retA LPF_ERR_FATAL))) i1 u r i'"
    using assms(1) unfolding hook_spmd_def spmd_steps.simps bindA_assoc
    by (rule acts_catch_bind_returns [OF _ assms(3)]) (use ok in blast)+
  have w: "votes t1 = []" "if_aborted i1 = if_aborted i"
    "returns G (interface_sync LPF_SYNC_DEFAULT (snd s)) i1 (section_ok G ss e)" and g: "set u \<subseteq> G"
    using ok 1 assms(3) by auto
  obtain t2 t3 c i2 where 2: "u = t2 @ t3" "acts (interface_sync LPF_SYNC_DEFAULT (snd s)) i1 t2 (Inr c) i2"
    and "acts (hook_spmd (spmd_steps ss x) n e) i2 t3 r i'"
    using k unfolding hook_spmd_def talpf_sync_def
    by (rule acts_catch_bind_returns [OF _ g]) (use w(3) [unfolded returns_def] in blast)+
  moreover have "section_ok G ss e i2" "set t3 \<subseteq> G" using w(3) 2 g unfolding returns_def by auto
  ultimately show thesis using that [OF _ w(1,2) 1(2) _ 2(2)] 1(1) assms(3) by simp
qed

text \<open>After an abort nothing more is communicated.\<close>

lemma hook_spmd_stopped:
  assumes "acts (hook_spmd (spmd_steps ss x) n e) i tr r i'" and "section_ok G ss e i" and "set tr \<subseteq> G"
    and "if_aborted i \<noteq> 0" and "\<forall>f. x = Some f \<longrightarrow> is_exception f"
  shows "votes tr = [] \<and> r = (if x = None then Inr LPF_ERR_FATAL else Inl AssertionFailed)"
  using assms(1-4)
proof (induction ss arbitrary: i tr)
  case Nil
  then show ?case using assms(5)
    by (cases x) (auto simp: hook_spmd_def spmd_end_def isAborted_def interface_abort_def act_simps acts_catchA)
next
  case (Cons s ss)
  obtain t1 t2 t3 i1 i2 c where s: "tr = t1 @ t2 @ t3" "votes t1 = []" "if_aborted i1 = if_aborted i"
    "acts (interface_sync LPF_SYNC_DEFAULT (snd s)) i1 t2 (Inr c) i2"
    "section_ok G ss e i2" "acts (hook_spmd (spmd_steps ss x) n e) i2 t3 r i'" "set t3 \<subseteq> G"
    by (rule hook_spmd_step [OF Cons.prems(1-3)])
  have st: "t2 = []" "i2 = i1" using s(3,4) Cons.prems(4) by (simp_all add: interface_sync_stopped)
  from Cons.IH [OF s(6,5,7)] show ?case using s(1,2,3) st Cons.prems(4) by simp
qed

text \<open>The end of a function that has not learned of an abort: the last vote, and what the process makes of it.\<close>

lemma hook_spmd_last:
  assumes "acts (hook_spmd (spmd_end x) n e) i tr r i'" and "section_ok G [] e i" and "set tr \<subseteq> G"
    and "if_aborted i = 0" and "\<forall>f. x = Some f \<longrightarrow> is_exception f"
  shows "votes tr = [the_vote True (if_mesgQueue i)] \<and>
    (0 < fst (voted e) \<and> fst (voted e) < 2 ^ 32 \<longrightarrow>
      r = Inr (if x = None \<and> fst (voted e) = int n then LPF_SUCCESS else LPF_ERR_FATAL))"
proof (cases x)
  case None
  have ret: "returns G (interface_abort e) i (\<lambda>_. True)" using assms(2,4) by simp
  have c: "acts (catchA (bindA (interface_abort e) (\<lambda>_. bindA getA (\<lambda>rt.
      retA (if isAborted rt \<noteq> n then LPF_ERR_FATAL else LPF_SUCCESS)))) (\<lambda>_. bindA (interface_abort e) (\<lambda>_. retA LPF_ERR_FATAL))) i tr r i'"
    using assms(1,4) None unfolding acts_catchA
    by (simp add: hook_spmd_def spmd_end_def isAborted_def act_simps acts_catchA)
  obtain t1 t2 u i1 where 1: "tr = t1 @ t2" "acts (interface_abort e) i t1 (Inr u) i1"
    and k: "acts (catchA (bindA getA (\<lambda>rt. retA (if isAborted rt \<noteq> n then LPF_ERR_FATAL else LPF_SUCCESS)))
      (\<lambda>_. bindA (interface_abort e) (\<lambda>_. retA LPF_ERR_FATAL))) i1 t2 r i'"
    using c by (rule acts_catch_bind_returns [OF _ assms(3)]) (use ret [unfolded returns_def] in blast)+
  have "t2 = [] \<and> r = Inr (if if_aborted i1 \<noteq> n then LPF_ERR_FATAL else LPF_SUCCESS)"
    using k by (auto simp: acts_catchA act_simps isAborted_def)
  with interface_abort_returns [OF 1(2) assms(4)] None 1(1) show ?thesis by auto
next
  case (Some f)
  have ret: "returns G (interface_abort e) i (\<lambda>_. True)" using assms(2,4) by simp
  have "acts (bindA (interface_abort e) (\<lambda>_. retA LPF_ERR_FATAL)) i tr r i'"
    using assms(1,5) Some by (auto simp: hook_spmd_def spmd_end_def act_simps acts_catchA)
  then obtain u where "acts (interface_abort e) i tr (Inr u) i'" "r = Inr LPF_ERR_FATAL"
    unfolding acts_bindA [of "interface_abort _"] using ret assms(3) by (auto simp: act_simps returns_def)
  with interface_abort_returns [OF this(1) assms(4)] Some show ?thesis by auto
qed

text \<open>The environments of the votes of a section, that of the last vote included.\<close>

definition vote_envs :: "(unit runtime \<times> sync_env) list \<Rightarrow> sync_env \<Rightarrow> sync_env list" where
  "vote_envs ss e = List.map snd ss @ [e]"

lemma vote_envs_simps [simp]: "vote_envs [] e = [e]" "vote_envs (s # ss) e = snd s # vote_envs ss e"
  by (simp_all add: vote_envs_def)

text \<open>
  As long as nobody stops, a process casts the next vote, whatever comes of it; and the first vote in which somebody stops is
  its last one.
\<close>

lemma hook_spmd_votes:
  assumes "acts (hook_spmd (spmd_steps ss x) n e) i tr r i'" and "section_ok G ss e i" and "set tr \<subseteq> G"
    and "if_aborted i = 0" and "\<forall>f. x = Some f \<longrightarrow> is_exception f" and "k \<le> length ss"
    and "\<forall>m<k. fst (voted (vote_envs ss e ! m)) = 0"
  shows "k < length (votes tr) \<and> votes tr ! k ! 0 = (if k = length ss then 1 else 0) \<and>
    (0 < fst (voted (vote_envs ss e ! k)) \<and> fst (voted (vote_envs ss e ! k)) < 2 ^ 32 \<longrightarrow> length (votes tr) = k + 1 \<and>
      r = (if k = length ss then Inr (if x = None \<and> fst (voted (vote_envs ss e ! k)) = int n then LPF_SUCCESS else LPF_ERR_FATAL)
           else if x = None then Inr LPF_ERR_FATAL else Inl AssertionFailed))"
  using assms(1-4,6,7)
proof (induction ss arbitrary: i tr k)
  case Nil
  have "acts (hook_spmd (spmd_end x) n e) i tr r i'" using Nil.prems(1) by simp
  from hook_spmd_last [OF this Nil.prems(2-4) assms(5)] Nil.prems(5) show ?case by (auto simp: the_vote_def)
next
  case (Cons s ss)
  obtain t1 t2 t3 i1 i2 c where s: "tr = t1 @ t2 @ t3" "votes t1 = []" "if_aborted i1 = if_aborted i"
    "acts (interface_sync LPF_SYNC_DEFAULT (snd s)) i1 t2 (Inr c) i2"
    "section_ok G ss e i2" "acts (hook_spmd (spmd_steps ss x) n e) i2 t3 r i'" "set t3 \<subseteq> G"
    by (rule hook_spmd_step [OF Cons.prems(1-3)])
  have b: "votes t2 = [the_vote False (if_mesgQueue i1)]" "if_aborted i2 = nat (fst (voted (snd s)) mod 2 ^ 32)"
    using interface_sync_returns [OF s(4)] s(3) Cons.prems(4) by auto
  show ?case
  proof (cases k)
    case 0
    have "votes t3 = [] \<and> r = (if x = None then Inr LPF_ERR_FATAL else Inl AssertionFailed)"
      if "0 < fst (voted (snd s))" "fst (voted (snd s)) < 2 ^ 32"
      by (rule hook_spmd_stopped [OF s(6,5,7) _ assms(5)]) (use b(2) that in simp)
    then show ?thesis using 0 s(1,2) b(1) by (simp add: the_vote_def)
  next
    case (Suc j)
    have "fst (voted (snd s)) = 0" using Cons.prems(6) Suc by auto
    then have z: "if_aborted i2 = 0" using b(2) by simp
    have m: "\<forall>m<j. fst (voted (vote_envs ss e ! m)) = 0"
    proof (intro allI impI)
      fix m assume "m < j"
      then show "fst (voted (vote_envs ss e ! m)) = 0" using Cons.prems(6) [rule_format, of "Suc m"] Suc by simp
    qed
    have "j \<le> length ss" using Cons.prems(5) Suc by simp
    from Cons.IH [OF s(6,5,7) z this m] show ?thesis using s(1,2) b(1) Suc by simp
  qed
qed

section \<open>The sections of all processes\<close>

text \<open>
  Process \<open>i\<close> takes \<open>k i\<close> supersteps, with work \<open>loc i m\<close> in superstep \<open>m\<close>; \<open>env i m\<close> is what its \<open>m\<close>-th vote gets.
\<close>

definition user_steps :: "(nat \<Rightarrow> nat) \<Rightarrow> (nat \<Rightarrow> nat \<Rightarrow> unit runtime) \<Rightarrow> (nat \<Rightarrow> nat \<Rightarrow> sync_env) \<Rightarrow> nat \<Rightarrow> (unit runtime \<times> sync_env) list" where
  "user_steps k loc env i = List.map (\<lambda>m. (loc i m, env i m)) [0..<k i]"

definition user_spmd :: "(nat \<Rightarrow> nat) \<Rightarrow> (nat \<Rightarrow> nat \<Rightarrow> unit runtime) \<Rightarrow> (nat \<Rightarrow> nat \<Rightarrow> sync_env) \<Rightarrow> (nat \<Rightarrow> fault option) \<Rightarrow> nat \<Rightarrow> unit runtime" where
  "user_spmd k loc env ends i = spmd_steps (user_steps k loc env i) (ends i)"

text \<open>
  The documented behaviour of the reduction of the votes: once every process has cast its \<open>m\<close>-th vote, all get the sums.
\<close>

definition reduction_ok :: "nat \<Rightarrow> (nat \<Rightarrow> event list) \<Rightarrow> (nat \<Rightarrow> nat \<Rightarrow> sync_env) \<Rightarrow> bool" where
  "reduction_ok n trs env \<longleftrightarrow> (\<forall>m. (\<forall>j<n. m < length (votes (trs j))) \<longrightarrow>
     (\<forall>i<n. voted (env i m) = (\<Sum>j<n. votes (trs j) ! m ! 0, \<Sum>j<n. votes (trs j) ! m ! 1)))"

lemma hook_statuses:
  assumes "\<forall>i<n. acts (hook_spmd (user_spmd k loc env ends i) n (env i (k i))) (rt i) (trs i) (r i) (rt' i)"
    and "\<forall>i<n. if_aborted (rt i) = 0 \<and> set (trs i) \<subseteq> G i \<and> section_ok (G i) (user_steps k loc env i) (env i (k i)) (rt i)"
    and "\<forall>i<n. \<forall>f. ends i = Some f \<longrightarrow> is_exception f"
    and "reduction_ok n trs env" and "n < 2 ^ 32" and "i < n"
  shows "length (votes (trs i)) = Min (k ` {..<n}) + 1 \<and>
    r i = (if k i = Min (k ` {..<n})
           then Inr (if ends i = None \<and> (\<forall>j<n. k j = k i) then LPF_SUCCESS else LPF_ERR_FATAL)
           else if ends i = None then Inr LPF_ERR_FATAL else Inl AssertionFailed)"
proof -
  define K where "K = Min (k ` {..<n})"
  let ?ss = "\<lambda>i. user_steps k loc env i"
  have K: "K \<le> k j" if "j < n" for j unfolding K_def using that by simp
  have len: "length (?ss j) = k j" for j by (simp add: user_steps_def)
  have envs: "vote_envs (?ss j) (env j (k j)) ! m = env j m" if "m \<le> k j" for j m
    using that by (cases "m = k j") (simp_all add: vote_envs_def user_steps_def nth_append)
  have run: "m < length (votes (trs j)) \<and> votes (trs j) ! m ! 0 = (if m = k j then 1 else 0) \<and>
    (0 < fst (voted (env j m)) \<and> fst (voted (env j m)) < 2 ^ 32 \<longrightarrow> length (votes (trs j)) = m + 1 \<and>
      r j = (if m = k j then Inr (if ends j = None \<and> fst (voted (env j m)) = int n then LPF_SUCCESS else LPF_ERR_FATAL)
           else if ends j = None then Inr LPF_ERR_FATAL else Inl AssertionFailed))"
    if "m \<le> K" "j < n" "\<forall>m'<m. \<forall>j<n. fst (voted (env j m')) = 0" for m j
  proof -
    have a: "acts (hook_spmd (spmd_steps (?ss j) (ends j)) n (env j (k j))) (rt j) (trs j) (r j) (rt' j)"
      using assms(1) that(2) by (simp add: user_spmd_def)
    have h: "section_ok (G j) (?ss j) (env j (k j)) (rt j)" "set (trs j) \<subseteq> G j" "if_aborted (rt j) = 0"
      "\<forall>f. ends j = Some f \<longrightarrow> is_exception f" using assms(2,3) that(2) by blast+
    have m: "m \<le> k j" using K [OF that(2)] that(1) by simp
    have "\<forall>m'<m. fst (voted (vote_envs (?ss j) (env j (k j)) ! m')) = 0" using that m envs by auto
    from hook_spmd_votes [OF a h _ this] m show ?thesis unfolding len envs [OF m] by blast
  qed
  have sums: "fst (voted (env i m)) = int (card {j. j < n \<and> k j = m})"
    if "m \<le> K" "i < n" "\<forall>m'<m. \<forall>j<n. fst (voted (env j m')) = 0" for m i
  proof -
    have at: "m < length (votes (trs j)) \<and> votes (trs j) ! m ! 0 = (if k j = m then 1 else 0)" if "j < n" for j
      using run [OF \<open>m \<le> K\<close> that \<open>\<forall>m'<m. _ m'\<close>] by auto
    then have "fst (voted (env i m)) = (\<Sum>j<n. votes (trs j) ! m ! 0)"
      using assms(4) that(2) unfolding reduction_ok_def by simp
    also have "\<dots> = (\<Sum>j<n. if k j = m then 1 else 0)" by (rule sum.cong) (simp_all add: at)
    also have "\<dots> = int (card {j. j < n \<and> k j = m})"
      by (simp add: sum.If_cases lessThan_def Collect_conj_eq [symmetric])
    finally show ?thesis .
  qed
  have zero: "\<forall>m'<m. \<forall>j<n. fst (voted (env j m')) = 0" if "m \<le> K" for m
    using that
  proof (induction m)
    case (Suc m)
    have "{j. j < n \<and> k j = m} = {}" using K Suc.prems by fastforce
    then have "card {j. j < n \<and> k j = m} = 0" by (simp only: card.empty)
    then have "fst (voted (env j m)) = 0" if "j < n" for j using sums [OF _ that Suc.IH] Suc.prems by simp
    then show ?case using Suc by (auto simp: less_Suc_eq)
  qed simp
  define c where "c = card {j. j < n \<and> k j = K}"
  have "K \<in> k ` {..<n}" unfolding K_def using assms(6) by (intro Min_in) auto
  then have c: "0 < c" "c \<le> n" unfolding c_def
    by (auto simp: card_gt_0_iff) (metis (no_types, lifting) card_lessThan card_mono finite_lessThan lessThan_iff mem_Collect_eq subsetI)
  have all: "c = n \<longleftrightarrow> (\<forall>j<n. k j = K)"
  proof
    assume "c = n"
    then have "{j. j < n \<and> k j = K} = {..<n}" unfolding c_def by (intro card_subset_eq) auto
    then show "\<forall>j<n. k j = K" by auto
  next
    assume "\<forall>j<n. k j = K"
    then have "{j. j < n \<and> k j = K} = {..<n}" by auto
    then show "c = n" by (simp add: c_def)
  qed
  have stop: "fst (voted (env i K)) = int c" using sums [OF order_refl assms(6) zero [OF order_refl]] by (simp add: c_def)
  have "length (votes (trs i)) = K + 1 \<and> r i = (if K = k i
       then Inr (if ends i = None \<and> int c = int n then LPF_SUCCESS else LPF_ERR_FATAL)
       else if ends i = None then Inr LPF_ERR_FATAL else Inl AssertionFailed)"
    using run [OF order_refl assms(6) zero [OF order_refl]] c assms(5) unfolding stop by simp
  moreover have "int c = int n \<longleftrightarrow> (\<forall>j<n. k j = k i)" if "K = k i" using all that by simp
  ultimately show ?thesis unfolding K_def [symmetric] by (simp add: eq_commute [of K])
qed

section \<open>Properties\<close>

lemma all_same:
  fixes k :: "nat \<Rightarrow> nat"
  assumes "i < n"
  shows "(\<forall>j<n. \<forall>j'<n. k j = k j') \<longleftrightarrow> (\<forall>j<n. k j = k i)"
proof (intro iffI allI impI)
  fix j j' assume all: "\<forall>j<n. k j = k i" and "j < n" "j' < n"
  have "k j = k i" using all \<open>j < n\<close> by blast
  moreover have "k j' = k i" using all \<open>j' < n\<close> by blast
  ultimately show "k j = k j'" by (rule trans [OF _ sym])
qed (use assms in blast)

lemma least_all:
  fixes k :: "nat \<Rightarrow> nat"
  assumes "i < n" and "\<forall>j<n. k j = k i"
  shows "k i = Min (k ` {..<n})"
proof -
  have "k j = k i" if "j < n" for j using assms(2) that by blast
  then have "k ` {..<n} = (\<lambda>_. k i) ` {..<n}" by (intro image_cong) simp_all
  also have "\<dots> = {k i}" using assms(1) by (simp add: image_constant_conv lessThan_empty_iff)
  finally show ?thesis by simp
qed

text \<open>
  C1: the processes agree on how a section ended.  Let every process run a user function that synchronises in the default
  mode only, and let nothing throw: the functions and the work of their supersteps return, and so do the synchronisations, with
  success or not.  Then every process casts the same number of votes, one more than the fewest synchronisations that any of them
  made, so that none of them waits for a reduction the others never join; and \<open>hook\<close> answers \<open>LPF_SUCCESS\<close> on
  every process if all made the same number of synchronisations, and \<open>LPF_ERR_FATAL\<close> on every process otherwise.  What the
  work does is free: transfers, registrations and resizes are covered.  A synchronisation in another mode takes no vote and
  is outside.
\<close>

theorem hook_agreement:
  assumes "\<forall>i<n. acts (hook_spmd (user_spmd k loc env (\<lambda>_. None) i) n (env i (k i))) (rt i) (trs i) (r i) (rt' i)"
    and "\<forall>i<n. if_aborted (rt i) = 0 \<and> set (trs i) \<subseteq> G i \<and> section_ok (G i) (user_steps k loc env i) (env i (k i)) (rt i)"
    and "reduction_ok n trs env" and "n < 2 ^ 32" and "i < n"
  shows "length (votes (trs i)) = Min (k ` {..<n}) + 1 \<and>
    r i = Inr (if \<forall>j<n. \<forall>j'<n. k j = k j' then LPF_SUCCESS else LPF_ERR_FATAL)"
proof -
  have x: "\<forall>i<n. \<forall>f. None = Some f \<longrightarrow> is_exception f" by simp
  define b where "b \<longleftrightarrow> (\<forall>j<n. k j = k i)"
  have st: "length (votes (trs i)) = Min (k ` {..<n}) + 1 \<and>
      r i = (if k i = Min (k ` {..<n}) then Inr (if b then LPF_SUCCESS else LPF_ERR_FATAL) else Inr LPF_ERR_FATAL)"
    using hook_statuses [OF assms(1,2) x assms(3-5)] unfolding b_def by (simp only: simp_thms if_True)
  have least: "b \<Longrightarrow> k i = Min (k ` {..<n})" unfolding b_def by (rule least_all [OF assms(5)])
  have same: "(\<forall>j<n. \<forall>j'<n. k j = k j') \<longleftrightarrow> b" unfolding b_def by (rule all_same [OF assms(5)])
  show ?thesis unfolding same using st least by (cases b) (simp_all only: if_True if_False if_cancel simp_thms)
qed

definition demo_env :: "int \<times> int \<Rightarrow> sync_env" where
  "demo_env v = \<lparr>voted = v, poll_blocked = id,
     poll_waiting = (\<lambda>s. s\<lparr>syncRequest := (syncRequest s)\<lparr>isActive := False\<rparr>\<rparr>)\<rparr>"

definition demo_runtime :: interface where
  "demo_runtime = \<lparr>if_mesgQueue = demo_queue, if_aborted = 0\<rparr>"

text \<open>A superstep that resizes the message queue, and a device that hands out the same handle for everything.\<close>

definition demo_work :: "unit runtime" where
  "demo_work = bindA (lpf_resize_message_queue 0) (\<lambda>_. retA ())"

definition demo_device :: "event set" where
  "demo_device = {ev. snd ev = Handle (Some 5)}"

lemma demo_section: "voted (demo_env v) = v" "running demo_runtime" "if_aborted demo_runtime = 0"
  by (simp_all add: demo_env_def running_def demo_runtime_def demo_queue_def demo_table_defs needsSync_def sparse_is_empty_def)

lemma no_vote_work: "calls (\<lambda>c. vote_of c = None) demo_work"
  by (auto intro!: calls_rules simp: demo_work_def lpf_resize_message_queue_def unless_aborted_def interface_resizeMesgQueue_def
      on_queue_def resizeMesgQueue_def or_out_of_memory_def on_verbs_def on_table_def on_ibverbs_def resizeMesgq_def stageQPs_def
      stage_one_def post_recv_def throw_if_def Let_def)

lemma demo_work_run:
  assumes "acts demo_work demo_runtime tr r i'" and "set tr \<subseteq> demo_device"
  shows "r = Inr () \<and> if_aborted i' = 0 \<and> mq_resized (if_mesgQueue i') \<and> \<not> needsSync (mq_memreg (if_mesgQueue i'))"
proof -
  let ?v = "mt_ibverbs (mq_memreg demo_queue)"
  have vs: "m_nprocs ?v = 2" "m_cqLocal ?v = None" "m_cqRemote ?v = None"
      "m_srq ?v = None" "m_postCount ?v = 0"
    by (simp_all add: demo_queue_def demo_table_def demo_object_def ibverbs_init_def Let_def)
  have run: "r1 = Inr ()" if "acts (resizeMesgq 0) ?v t r1 v" "set t \<subseteq> demo_device" for t r1 v
    using that vs
    by (auto simp: resizeMesgq_def stageQPs_def stage_one_def act_simps acts_bindA Let_def upt_rec numeral_2_eq_2 demo_device_def)
  let ?q = "demo_queue\<lparr>mq_resized := True\<rparr>"
  let ?body = "bindA (on_verbs (resizeMesgq 0)) (\<lambda>_. bindA (modA (\<lambda>q. q\<lparr>mq_maxNMsgs := max (mq_maxNMsgs demo_queue) 0\<rparr>)) (\<lambda>_. retA LPF_SUCCESS))"
  have mt: "mt_ibverbs (mq_memreg ?q) = ?v" "\<not> needsSync (mq_memreg ?q)"
    by (simp_all add: demo_queue_def demo_table_defs needsSync_def sparse_is_empty_def)
  have ns: "needsSync (t\<lparr>mt_ibverbs := v\<rparr>) = needsSync t" for t v by (simp add: needsSync_def)
  have body: "\<exists>c. r1 = Inr c \<and> mq_resized q' \<and> \<not> needsSync (mq_memreg q')"
    if "acts ?body ?q t r1 q'" "set t \<subseteq> demo_device" for t r1 q'
    using that run mt(2) unfolding acts_bindA [of "on_verbs _"] acts_on_verbs mt(1)
    by (fastforce simp: act_simps ns)
  obtain r2 where "acts (bindA (on_queue (resizeMesgQueue 0)) (\<lambda>_. retA ())) demo_runtime tr r i'"
    using assms(1)
    by (auto simp: demo_work_def lpf_resize_message_queue_def unless_aborted_def interface_resizeMesgQueue_def act_simps
        acts_bindA isAborted_def demo_runtime_def)
  then obtain q' r1 where "acts (resizeMesgQueue 0) demo_queue tr r1 q'" "i' = demo_runtime\<lparr>if_mesgQueue := q'\<rparr>"
    and r: "\<And>c. r1 = Inr c \<Longrightarrow> r = Inr ()"
    unfolding acts_bindA [of "on_queue _"] acts_on_queue by (auto simp: act_simps demo_runtime_def)
  moreover from this(1) have "acts (or_out_of_memory ?body) ?q tr r1 q'"
    by (simp add: resizeMesgQueue_def act_simps exceeds_half_def SIZE_MAX_def)
  then have "\<exists>c. r1 = Inr c \<and> mq_resized q' \<and> \<not> needsSync (mq_memreg q')"
    using body assms(2) unfolding or_out_of_memory_def acts_catchA by fastforce
  ultimately show ?thesis by (auto simp: demo_runtime_def)
qed

text \<open>A vote that tells of an abort returns, when no slot waits to be registered.\<close>

lemma queue_vote_told:
  assumes "acts (queue_vote abort LPF_SYNC_DEFAULT e) i tr r i'" and "\<not> needsSync (mq_memreg (if_mesgQueue i))"
    and "fst (voted e) \<noteq> 0"
  shows "r = Inr ()"
  using queue_vote_split [OF assms(1), of "fst (voted e)"] queue_sync_aborted [OF _ assms(2,3)] by blast

lemma interface_sync_told:
  assumes "acts (interface_sync LPF_SYNC_DEFAULT e) i tr r i'" and "\<not> needsSync (mq_memreg (if_mesgQueue i))"
    and "fst (voted e) \<noteq> 0" and "if_aborted i = 0"
  shows "\<exists>c. r = Inr c"
proof -
  have "acts (bindA (queue_vote False LPF_SYNC_DEFAULT e) (\<lambda>_. bindA getA (\<lambda>i.
     retA (if 0 = if_aborted i then LPF_SUCCESS else LPF_ERR_FATAL)))) i tr r i'"
    using assms by (simp add: interface_sync_def act_simps)
  then show ?thesis using queue_vote_told [OF _ assms(2,3)]
    unfolding acts_bindA [of "queue_vote _ _ _"] by (fastforce simp: act_simps)
qed

lemma interface_abort_told:
  assumes "acts (interface_abort e) i tr r i'" and "\<not> needsSync (mq_memreg (if_mesgQueue i))"
    and "fst (voted e) \<noteq> 0" and "if_aborted i = 0"
  shows "r = Inr ()"
proof -
  have "acts (queue_vote True LPF_SYNC_DEFAULT e) i tr r i'" using assms by (simp add: interface_abort_def act_simps)
  from queue_vote_told [OF this assms(2,3)] show ?thesis .
qed

lemma demo_section_ok:
  assumes "0 < fst v" and "k \<le> 1" and "fst v < 2 ^ 32"
  shows "section_ok demo_device (List.map (\<lambda>m. (demo_work, demo_env v)) [0..<k]) (demo_env v) demo_runtime"
proof -
  have ns: "\<not> needsSync (mq_memreg (if_mesgQueue demo_runtime))" using demo_section(2) by (simp add: running_def)
  have last: "section_ok demo_device [] (demo_env v) demo_runtime"
    using interface_abort_told [OF _ ns] assms(1) by (fastforce simp: returns_def demo_section)
  have step: "returns demo_device (interface_sync LPF_SYNC_DEFAULT (demo_env v)) i (section_ok demo_device [] (demo_env v))"
    if st: "if_aborted i = 0" "\<not> needsSync (mq_memreg (if_mesgQueue i))" for i
    unfolding returns_def
  proof (intro allI impI)
    fix tr r i' assume a: "acts (interface_sync LPF_SYNC_DEFAULT (demo_env v)) i tr r i'"
    obtain c where c: "r = Inr c" using interface_sync_told [OF a st(2) _ st(1)] assms(1) by (auto simp: demo_section)
    then show "(\<exists>c. r = Inr c) \<and> section_ok demo_device [] (demo_env v) i'"
      using interface_sync_returns [OF a [unfolded c] st(1)] assms by (simp add: demo_section)
  qed
  have "section_ok demo_device [(demo_work, demo_env v)] (demo_env v) demo_runtime"
    unfolding section_ok.simps(2) works_def fst_conv snd_conv
    using demo_work_run votes_none [OF no_vote_work] step by (auto simp: demo_section)
  then show ?thesis using last assms(2) by (cases k) simp_all
qed

text \<open>Two processes, of which the first stops at once; the other stops too, or resizes its queue and synchronises.\<close>

lemma demo_sections:
  fixes k :: "nat \<Rightarrow> nat" and ends :: "nat \<Rightarrow> fault option"
  assumes "k 0 = 0" and "k 1 \<le> 1" and "\<forall>i f. ends i = Some f \<longrightarrow> is_exception f" and "v = (if k 1 = 0 then (2, 0) else (1, 1))"
  obtains trs r rt' where
    "\<forall>i<2. acts (hook_spmd (user_spmd k (\<lambda>_ _. demo_work) (\<lambda>_ _. demo_env v) ends i) 2 (demo_env v)) demo_runtime (trs i) (r i) (rt' i)"
    and "\<forall>i<2. if_aborted demo_runtime = 0 \<and> set (trs i) \<subseteq> demo_device \<and>
      section_ok demo_device (user_steps k (\<lambda>_ _. demo_work) (\<lambda>_ _. demo_env v) i) (demo_env v) demo_runtime"
    and "reduction_ok 2 trs (\<lambda>_ _. demo_env v)"
proof -
  let ?ss = "\<lambda>i. user_steps k (\<lambda>_ _. demo_work) (\<lambda>_ _. demo_env v) i"
  have "\<exists>t r s'. acts (hook_spmd (spmd_steps (?ss i) (ends i)) 2 (demo_env v)) demo_runtime t r s' \<and> set t \<subseteq> demo_device" for i
    using acts_total [of "hook_spmd (spmd_steps (?ss i) (ends i)) 2 (demo_env v)" demo_runtime "\<lambda>_. Handle (Some 5)"]
    unfolding demo_device_def by blast
  then obtain trs r rt' where run: "\<And>i. acts (hook_spmd (spmd_steps (?ss i) (ends i)) 2 (demo_env v)) demo_runtime (trs i) (r i) (rt' i)"
    and dev: "\<And>i. set (trs i) \<subseteq> demo_device" by metis
  have ok: "section_ok demo_device (?ss i) (demo_env v) demo_runtime" if "i < 2" for i
    unfolding user_steps_def by (rule demo_section_ok) (use assms that in \<open>auto simp: less_2_cases_iff\<close>)
  have ex: "\<forall>f. ends i = Some f \<longrightarrow> is_exception f" for i using assms(3) by blast
  have none: "votes (trs i) = [[1, 0]]" if "k i = 0" "i < 2" for i
  proof -
    have s: "?ss i = []" using that(1) by (simp add: user_steps_def)
    have "votes (trs i) = [the_vote True (if_mesgQueue demo_runtime)]"
      using hook_spmd_last [OF run [of i, unfolded s spmd_steps.simps] ok [OF that(2), unfolded s] dev demo_section(3) ex] by blast
    then show ?thesis by (simp add: the_vote_def demo_runtime_def demo_queue_def)
  qed
  have one: "votes (trs 1) = [[0, 1]]" if "k 1 \<noteq> 0"
  proof -
    have s: "?ss 1 = [(demo_work, demo_env v)]" using that assms(2) by (cases "k 1") (simp_all add: user_steps_def)
    have v: "v = (1, 1)" using assms(4) that by simp
    obtain t1 t2 t3 i1 i2 c x1 where st: "trs 1 = t1 @ t2 @ t3" "votes t1 = []" "if_aborted i1 = if_aborted demo_runtime"
      "acts (fst (demo_work, demo_env v)) demo_runtime t1 (Inr x1) i1" "set t1 \<subseteq> demo_device"
      "acts (interface_sync LPF_SYNC_DEFAULT (snd (demo_work, demo_env v))) i1 t2 (Inr c) i2"
      "section_ok demo_device [] (demo_env v) i2" "acts (hook_spmd (spmd_steps [] (ends 1)) 2 (demo_env v)) i2 t3 (r 1) (rt' 1)"
      "set t3 \<subseteq> demo_device"
      by (rule hook_spmd_step [OF run [of 1, unfolded s] ok [of 1, unfolded s] dev]) simp
    have q: "mq_resized (if_mesgQueue i1)" using demo_work_run [OF _ st(5)] st(4) by auto
    have z: "if_aborted i1 = 0" using st(3) by (simp add: demo_section)
    have t2: "votes t2 = [[0, 1]]" and i2: "if_aborted i2 \<noteq> 0"
      using interface_sync_returns [OF st(6) z] q v by (simp_all add: the_vote_def demo_section)
    have "votes t3 = []" using hook_spmd_stopped [OF st(8,7,9) i2 ex] by blast
    then show ?thesis using st(1,2) t2 by simp
  qed
  have "reduction_ok 2 trs (\<lambda>_ _. demo_env v)"
    using none [of 0] none [of 1] one assms(1,4)
    by (cases "k 1 = 0") (auto simp: reduction_ok_def numeral_2_eq_2 less_Suc_eq demo_section)
  then show thesis by (rule that [rotated 2, of trs r rt']) (use run ok dev in \<open>auto simp: user_spmd_def demo_section\<close>)
qed

theorem hook_agreement_witness:
  "\<exists>t0 t1 s0 s1. acts (hook_spmd (spmd_end None) 2 (demo_env (1, 1))) demo_runtime t0 (Inr LPF_ERR_FATAL) s0 \<and>
     acts (hook_spmd (spmd_steps [(demo_work, demo_env (1, 1))] None) 2 (demo_env (1, 1))) demo_runtime t1 (Inr LPF_ERR_FATAL) s1 \<and>
     length (votes t0) = 1 \<and> length (votes t1) = 1"
proof -
  let ?k = "\<lambda>i :: nat. i"
  obtain trs r rt' where run: "\<forall>i<2. acts (hook_spmd (user_spmd ?k (\<lambda>_ _. demo_work) (\<lambda>_ _. demo_env (1, 1)) (\<lambda>_. None) i) 2 (demo_env (1, 1)))
      demo_runtime (trs i) (r i) (rt' i)"
    and ok: "\<forall>i<2. if_aborted demo_runtime = 0 \<and> set (trs i) \<subseteq> demo_device \<and>
      section_ok demo_device (user_steps ?k (\<lambda>_ _. demo_work) (\<lambda>_ _. demo_env (1, 1)) i) (demo_env (1, 1)) demo_runtime"
    and red: "reduction_ok 2 trs (\<lambda>_ _. demo_env (1, 1))"
    using demo_sections [of ?k "\<lambda>_. None" "(1, 1)"] by auto
  have d: "\<not> (\<forall>j<2. \<forall>j'<2. ?k j = ?k j')"
  proof
    assume "\<forall>j<2. \<forall>j'<2. ?k j = ?k j'"
    from this [rule_format, of 0 1] show False by simp
  qed
  have m: "Min (?k ` {..<2}) = 0" by (intro Min_eqI) auto
  have a: "length (votes (trs i)) = 1 \<and> r i = Inr LPF_ERR_FATAL" if "i < 2" for i
    using hook_agreement [OF run ok red _ that] d unfolding m by (simp only: if_False) simp
  show ?thesis using run [rule_format, of 0] run [rule_format, of 1] a [of 0] a [of 1]
    by (auto simp: user_spmd_def user_steps_def)
qed

text \<open>
  An exception of a user function is not seen by the others.  When process \<open>i\<close> throws after the fewest
  synchronisations, its \<open>hook\<close> answers \<open>LPF_ERR_FATAL\<close>, but when all made as many, its abort is counted like the
  normal end of the others, and theirs answer \<open>LPF_SUCCESS\<close>; when it throws after it has learned of an abort,
  the handler aborts a second time and trips the assertion of \<open>Interface::abort\<close>.
\<close>

theorem hook_throw:
  assumes "\<forall>i<n. acts (hook_spmd (user_spmd k loc env ends i) n (env i (k i))) (rt i) (trs i) (r i) (rt' i)"
    and "\<forall>i<n. if_aborted (rt i) = 0 \<and> set (trs i) \<subseteq> G i \<and> section_ok (G i) (user_steps k loc env i) (env i (k i)) (rt i)"
    and "\<forall>i<n. \<forall>f. ends i = Some f \<longrightarrow> is_exception f"
    and "reduction_ok n trs env" and "n < 2 ^ 32" and "i < n" and "ends i = Some f" and "j < n" and "ends j = None"
  shows "r i = (if k i = Min (k ` {..<n}) then Inr LPF_ERR_FATAL else Inl AssertionFailed) \<and>
    ((\<forall>j'<n. k j' = k j) \<longrightarrow> r j = Inr LPF_SUCCESS)"
proof -
  have "r j = Inr LPF_SUCCESS" if "\<forall>j'<n. k j' = k j"
    using hook_statuses [OF assms(1-5,8), THEN conjunct2, unfolded if_P [OF least_all [OF assms(8) that]]]
    by (simp only: simp_thms assms(9) if_P [OF that])
  then show ?thesis using hook_statuses [OF assms(1-6)] assms(7) by simp
qed

theorem hook_throw_witness:
  "\<exists>t0 t1 s0 s1. acts (hook_spmd (spmd_end (Some (ErrorThrown ''user''))) 2 (demo_env (2, 0))) demo_runtime t0 (Inr LPF_ERR_FATAL) s0 \<and>
     acts (hook_spmd (spmd_end None) 2 (demo_env (2, 0))) demo_runtime t1 (Inr LPF_SUCCESS) s1"
proof -
  let ?k = "\<lambda>i :: nat. 0 :: nat"
  let ?ends = "\<lambda>i :: nat. if i = 0 then Some (ErrorThrown ''user'') else None"
  obtain trs r rt' where run: "\<forall>i<2. acts (hook_spmd (user_spmd ?k (\<lambda>_ _. demo_work) (\<lambda>_ _. demo_env (2, 0)) ?ends i) 2 (demo_env (2, 0)))
      demo_runtime (trs i) (r i) (rt' i)"
    and ok: "\<forall>i<2. if_aborted demo_runtime = 0 \<and> set (trs i) \<subseteq> demo_device \<and>
      section_ok demo_device (user_steps ?k (\<lambda>_ _. demo_work) (\<lambda>_ _. demo_env (2, 0)) i) (demo_env (2, 0)) demo_runtime"
    and red: "reduction_ok 2 trs (\<lambda>_ _. demo_env (2, 0))"
    by (rule demo_sections [of ?k ?ends "(2, 0)"]) auto
  have x: "\<forall>i<2. \<forall>f. ?ends i = Some f \<longrightarrow> is_exception f" by simp
  have m: "Min (?k ` {..<2}) = 0" by (simp add: image_constant_conv lessThan_empty_iff)
  have "r 0 = Inr LPF_ERR_FATAL \<and> r 1 = Inr LPF_SUCCESS"
    using hook_throw [OF run ok x red _ _ _ _, of 0 "ErrorThrown ''user''" 1] unfolding m by simp
  then show ?thesis using run [rule_format, of 0] run [rule_format, of 1] by (auto simp: user_spmd_def user_steps_def)
qed

end
