(* ===== verification/Process_Exec.thy ===== *)
theory Process_Exec imports Process begin

text \<open>
  How a parallel section is started on other processes: the symbols of \<open>src/MPI/symbol.cpp\<close>, their broadcast, and
  \<open>Process::exec\<close> with the loop of the processes that wait for it, of \<open>src/MPI/process.cpp\<close>.  Names are byte strings.
\<close>

section \<open>Symbols\<close>

text \<open>
  \<open>Symbol::Impl\<close>: the handle of the shared object, the address (0 is \<open>NULL\<close>), and the two names; a \<open>Symbol\<close> without an
  \<open>Impl\<close> is \<open>None\<close>.
\<close>

record symbol =
  sym_handle :: "nat option"
  sym_addr :: addr
  sym_file :: "nat list"
  sym_name :: "nat list"

definition getSymbol :: "symbol option \<Rightarrow> addr" where
  "getSymbol y = (case y of Some i \<Rightarrow> sym_addr i | None \<Rightarrow> 0)"

definition getSymbolName :: "symbol option \<Rightarrow> nat list" where
  "getSymbolName y = (case y of Some i \<Rightarrow> sym_name i | None \<Rightarrow> [])"

definition getFileName :: "symbol option \<Rightarrow> nat list" where
  "getFileName y = (case y of Some i \<Rightarrow> sym_file i | None \<Rightarrow> [])"

definition LookupException :: "string \<Rightarrow> fault" where
  "LookupException reason = ErrorThrown reason"

text \<open>The two constructors; the linker answers an address with its file and its name, or nothing.\<close>

definition symbol_of_addr :: "(nat \<Rightarrow> bool) \<Rightarrow> addr \<Rightarrow> ('s, symbol option) ext" where
  "symbol_of_addr ok a =
     (if \<not> ok 0 then throwA BadAlloc
      else bindA (callA (DlAddr a)) (\<lambda>r.
        case the_symbol_info r of
          None \<Rightarrow> throwA (LookupException ''Could not resolve symbol name by address'')
        | Some (file, name) \<Rightarrow>
            if ok 1 then retA (Some \<lparr>sym_handle = None, sym_addr = a, sym_file = file, sym_name = name\<rparr>)
            else throwA BadAlloc))"

definition symbol_of_name :: "bool \<Rightarrow> nat list \<Rightarrow> nat list \<Rightarrow> ('s, symbol option) ext" where
  "symbol_of_name ok file name =
     (if \<not> ok then throwA BadAlloc
      else bindA (callA (DlOpen file)) (\<lambda>h.
           bindA (callA (DlSym (the_handle h) name)) (\<lambda>a.
           case the_handle a of
             None \<Rightarrow> throwA (LookupException ''Could not resolve symbol address by name'')
           | Some a \<Rightarrow> retA (Some \<lparr>sym_handle = the_handle h, sym_addr = a, sym_file = file, sym_name = name\<rparr>))))"

section \<open>Broadcasting symbols\<close>

text \<open>
  \<open>ok k\<close> says whether the \<open>k\<close>-th allocation succeeds: two for the copies of the names, three for each of the strings, one for
  the new symbol.
\<close>

definition copy_names :: "(nat \<Rightarrow> bool) \<Rightarrow> symbol option \<Rightarrow> ('s, nat list \<times> nat list) ext" where
  "copy_names ok y = (if ok 0 \<and> ok 1 then retA (getSymbolName y, getFileName y) else throwA BadAlloc)"

definition find_symbol :: "(nat \<Rightarrow> bool) \<Rightarrow> nat \<Rightarrow> symbol option \<Rightarrow> nat list \<Rightarrow> nat list \<Rightarrow> ('s, symbol option) ext" where
  "find_symbol ok pid y file name = (if 0 \<noteq> pid then symbol_of_name (ok 8) file name else retA y)"

definition broadcastSymbol :: "(nat \<Rightarrow> bool) \<Rightarrow> nat \<Rightarrow> symbol option \<Rightarrow> ('s, symbol option) ext" where
  "broadcastSymbol ok pid y =
     bindA (trysync_rethrow (copy_names ok y)) (\<lambda>names.
     bindA (broadcast_string (\<lambda>k. ok (k + 2)) (snd names) 0) (\<lambda>file.
     bindA (broadcast_string (\<lambda>k. ok (k + 5)) (fst names) 0) (\<lambda>name.
     bindA (trysync_rethrow (find_symbol ok pid y file name)) (\<lambda>y.
     bindA (assertA (getSymbol y \<noteq> 0)) (\<lambda>_. retA y)))))"

text \<open>The part of \<open>exec\<close> for the processes that take part, from the broadcast of the number of symbols on.\<close>

primrec broadcast_symbols :: "(nat \<Rightarrow> nat \<Rightarrow> bool) \<Rightarrow> nat \<Rightarrow> symbol option list \<Rightarrow> ('s, addr list) ext" where
  "broadcast_symbols ok pid [] = retA []"
| "broadcast_symbols ok pid (y # ys) =
     bindA (broadcastSymbol (ok 0) pid y) (\<lambda>y.
     bindA (broadcast_symbols (\<lambda>i. ok (i + 1)) pid ys) (\<lambda>fs. retA (getSymbol y # fs)))"

definition start_section ::
  "(nat \<Rightarrow> nat \<Rightarrow> bool) \<Rightarrow> nat \<Rightarrow> symbol option \<Rightarrow> symbol option list \<Rightarrow> nat \<Rightarrow> nat \<Rightarrow>
     (addr \<Rightarrow> addr list \<Rightarrow> ('s, err_t) ext) \<Rightarrow> ('s, err_t) ext" where
  "start_section ok pid spmd aux f_size nFSymbols section =
     bindA (broadcastSymbol (ok 0) pid spmd) (\<lambda>spmd.
     bindA (broadcast_symbols (\<lambda>i. ok (i + 1)) pid (take nFSymbols aux)) (\<lambda>fs.
     bindA (assertA (f_size = length fs)) (\<lambda>_. section (getSymbol spmd) fs)))"

definition exec_spmd ::
  "(nat \<Rightarrow> bool) \<Rightarrow> (nat \<Rightarrow> nat \<Rightarrow> bool) \<Rightarrow> nat \<Rightarrow> symbol option \<Rightarrow> symbol option list \<Rightarrow> nat \<Rightarrow>
     (addr \<Rightarrow> addr list \<Rightarrow> ('s, err_t) ext) \<Rightarrow> ('s, err_t) ext" where
  "exec_spmd mem ok pid spmd aux f_size section =
     bindA (broadcast_value f_size 0) (\<lambda>f_size.
     let grown = mem 0 \<or> f_size \<le> length aux;
         made = grown \<and> (mem 1 \<or> f_size = 0);
         aux = (if grown then vec_resize f_size None aux else aux);
         nFSymbols = (if made then f_size else 0) in
     bindA (trysync (if made then retA () else throwA BadAlloc) LPF_SUCCESS) (\<lambda>status.
     bindA (assertA (nFSymbols \<le> f_size)) (\<lambda>_.
     bindA (assertA (nFSymbols \<le> length aux)) (\<lambda>_.
     catchA (start_section ok pid spmd aux f_size nFSymbols section) (\<lambda>e. retA (severity e))))))"

section \<open>What the processes agree on\<close>

lemma recoverable_copy: "recoverable (copy_names ok y)"
  by (auto simp: copy_names_def intro!: recoverable_rules)

lemma recoverable_find: "recoverable (find_symbol ok pid y file name)"
  by (auto simp: find_symbol_def symbol_of_name_def LookupException_def intro!: recoverable_rules split: option.split)

lemma copy_names_run:
  "acts (copy_names ok y) s t r s' \<Longrightarrow> r = (if ok 0 \<and> ok 1 then Inr (getSymbolName y, getFileName y) else Inl BadAlloc)"
  by (auto simp: copy_names_def act_simps)

text \<open>What the linker said in a run: it refused a name, it found a name at an address, or it only ever found addresses.\<close>

definition dl_refused :: "event list \<Rightarrow> bool" where
  "dl_refused tr \<longleftrightarrow> (\<exists>ev \<in> set tr. case fst ev of DlSym h name \<Rightarrow> the_handle (snd ev) = None | _ \<Rightarrow> False)"

definition dl_found :: "event list \<Rightarrow> nat list \<Rightarrow> addr \<Rightarrow> bool" where
  "dl_found tr name a \<longleftrightarrow> (\<exists>ev \<in> set tr. case fst ev of DlSym h n \<Rightarrow> n = name \<and> the_handle (snd ev) = Some a | _ \<Rightarrow> False)"

definition dl_finds :: "event list \<Rightarrow> bool" where
  "dl_finds tr \<longleftrightarrow> (\<forall>ev \<in> set tr. case fst ev of DlSym h name \<Rightarrow> the_handle (snd ev) \<noteq> None \<and> the_handle (snd ev) \<noteq> Some 0 | _ \<Rightarrow> True)"

lemma dl_mono: "dl_refused t \<Longrightarrow> set t \<subseteq> set tr \<Longrightarrow> dl_refused tr" "dl_found t name a \<Longrightarrow> set t \<subseteq> set tr \<Longrightarrow> dl_found tr name a"
  unfolding dl_refused_def dl_found_def by blast+

lemma dl_finds_not_refused: "dl_finds tr \<Longrightarrow> \<not> dl_refused tr"
  unfolding dl_finds_def dl_refused_def by (fastforce split: call.splits)

lemma dl_finds_address: "dl_finds tr \<Longrightarrow> dl_found tr name a \<Longrightarrow> a \<noteq> 0"
  unfolding dl_finds_def dl_found_def by (fastforce split: call.splits)

lemma find_symbol_run:
  "acts (find_symbol ok pid y file name) s t r s' \<Longrightarrow>
    (\<exists>e. r = Inl e \<and> 0 < pid \<and> (\<not> ok 8 \<or> dl_refused t)) \<or> (pid = 0 \<and> r = Inr y) \<or>
    (\<exists>x. r = Inr (Some x) \<and> 0 < pid \<and> sym_file x = file \<and> sym_name x = name \<and> dl_found t name (sym_addr x))"
  by (auto simp: find_symbol_def symbol_of_name_def act_simps dl_refused_def dl_found_def split: if_splits option.splits)

lemma lockstep_results:
  "lockstep trs ks (\<lambda>j. liftA (\<lambda>_. v j)) s r s' \<Longrightarrow> matched trs \<and> (\<forall>j<length trs. r j = v j)"
  by (auto simp: lockstep_def act_simps intro!: matchedI [where ks = ks])

lemma liftA_cases: "liftA (\<lambda>_. v) = (case v of Inl e \<Rightarrow> throwA e | Inr x \<Rightarrow> retA x)"
  by (simp add: liftA_def throwA_def retA_def split: sum.split)

text \<open>
  The broadcast of a symbol on all processes: they all throw because one of them ran out of memory or its linker refused the
  name, or they all have the names of the root, and the others the address at which their linker found the name.
\<close>

definition symbol_failure :: "event list list \<Rightarrow> (nat \<Rightarrow> nat \<Rightarrow> bool) \<Rightarrow> bool" where
  "symbol_failure trs ok \<longleftrightarrow> (\<exists>j<length trs. (\<exists>k\<le>8. \<not> ok j k) \<or> (0 < j \<and> dl_refused (trs ! j)))"

definition symbols_found :: "event list list \<Rightarrow> symbol option \<Rightarrow> (nat \<Rightarrow> symbol option) \<Rightarrow> bool" where
  "symbols_found trs y x \<longleftrightarrow> (\<forall>j<length trs. getFileName (x j) = getFileName y \<and> getSymbolName (x j) = getSymbolName y \<and>
     (if j = 0 then x j = y else dl_found (trs ! j) (getSymbolName y) (getSymbol (x j))))"

lemma string_failure_memory: "string_failure n root str (\<lambda>j k. ok j (k + m)) \<Longrightarrow> m \<le> 6 \<Longrightarrow> \<exists>j<n. \<exists>k\<le>8. \<not> ok j k"
  unfolding string_failure_def by (elim conjE exE disjE) (force intro: exI [of _ m] exI [of _ "Suc m"] exI [of _ "m + 2"])+

lemma symbol_failureI: "\<exists>j<length trs. \<exists>k\<le>8. \<not> ok j k \<Longrightarrow> symbol_failure trs ok"
  unfolding symbol_failure_def by blast

lemma lockstep_symbol:
  assumes "lockstep trs ks (\<lambda>j. bindA (broadcastSymbol (ok j) j (y j)) (f j)) s r s'" and "collectives_ok trs" and "0 < length trs"
  obtains (failed) ks' e s1 where "lockstep trs ks' (\<lambda>j. throwA (e j)) s1 r s'" and "\<And>j. j < length trs \<Longrightarrow> is_exception (e j)"
      and "symbol_failure trs ok"
  | (fine) ks' x s1 where "symbols_found trs (y 0) x"
      and "lockstep trs ks' (\<lambda>j. bindA (assertA (getSymbol (x j) \<noteq> 0)) (\<lambda>_. f j (x j))) s1 r s'"
proof -
  let ?n = "length trs"
  let ?after = "\<lambda>j file name. bindA (trysync_rethrow (find_symbol (ok j) j (y j) file name)) (\<lambda>y.
     bindA (assertA (getSymbol y \<noteq> 0)) (\<lambda>_. f j y))"
  let ?names = "\<lambda>j names. bindA (broadcast_string (\<lambda>k. ok j (k + 2)) (snd names) 0) (\<lambda>file.
     bindA (broadcast_string (\<lambda>k. ok j (k + 5)) (fst names) 0) (?after j file))"
  have "lockstep trs ks (\<lambda>j. bindA (trysync_rethrow (copy_names (ok j) (y j))) (?names j)) s r s'"
    using assms(1) unfolding broadcastSymbol_def bindA_assoc bindA_retA .
  from this assms(2) recoverable_copy show thesis
  proof (cases rule: lockstep_rethrow_cases)
    case (failed e s1 i t ei si)
    have "\<exists>k\<le>8. \<not> ok i k" using copy_names_run [OF failed(4)] by (auto split: if_splits intro: exI [of _ 0] exI [of _ "Suc 0"])
    then have "symbol_failure trs ok" using failed(3) by (intro symbol_failureI) blast
    with failed(1,2) show thesis by (rule that(1))
  next
    case (fine x s1)
    have "x j = (getSymbolName (y j), getFileName (y j))" if j: "j < ?n" for j
    proof -
      obtain t where "acts (copy_names (ok j) (y j)) (s j) t (Inr (x j)) (s1 j)" using fine(1) [OF j] by blast
      from copy_names_run [OF this] show ?thesis by (simp split: if_splits)
    qed
    then have "lockstep trs (ks @ [KOr]) (\<lambda>j. bindA (broadcast_string (\<lambda>k. ok j (k + 2)) (getFileName (y j)) 0) (\<lambda>file.
         bindA (broadcast_string (\<lambda>k. ok j (k + 5)) (getSymbolName (y j)) 0) (?after j file))) s1 r s'"
      by (intro lockstep_cong [OF fine(2)]) simp
    from lockstep_string [OF this assms(2,3)] obtain k2 where l2: "lockstep trs k2
        (\<lambda>j. if string_failure ?n 0 (\<lambda>j. getFileName (y j)) (\<lambda>j k. ok j (k + 2)) then throwA BadAlloc else
         bindA (broadcast_string (\<lambda>k. ok j (k + 5)) (getSymbolName (y j)) 0) (?after j (getFileName (y 0)))) s1 r s'" by blast
    show thesis
    proof (cases "string_failure ?n 0 (\<lambda>j. getFileName (y j)) (\<lambda>j k. ok j (k + 2))")
      case True
      show thesis by (rule that(1) [OF l2 [unfolded if_P [OF True]] _ symbol_failureI [OF string_failure_memory [OF True]]]) simp_all
    next
      case f1: False
      from lockstep_string [OF l2 [unfolded if_not_P [OF f1]] assms(2,3)] obtain k3 where l3: "lockstep trs k3
        (\<lambda>j. if string_failure ?n 0 (\<lambda>j. getSymbolName (y j)) (\<lambda>j k. ok j (k + 5)) then throwA BadAlloc else
         ?after j (getFileName (y 0)) (getSymbolName (y 0))) s1 r s'" by blast
      show thesis
      proof (cases "string_failure ?n 0 (\<lambda>j. getSymbolName (y j)) (\<lambda>j k. ok j (k + 5))")
        case True
        show thesis by (rule that(1) [OF l3 [unfolded if_P [OF True]] _ symbol_failureI [OF string_failure_memory [OF True]]]) simp_all
      next
        case f2: False
        from l3 [unfolded if_not_P [OF f2]] assms(2) recoverable_find show thesis
        proof (cases rule: lockstep_rethrow_cases)
          case (failed e s2 i t ei si)
          have "0 < i \<and> (\<not> ok i 8 \<or> dl_refused (trs ! i))"
            using find_symbol_run [OF failed(4)] dl_mono(1) [OF _ failed(5)] by auto
          then have "symbol_failure trs ok" unfolding symbol_failure_def using failed(3) by (intro exI [of _ i]) auto
          with failed(1,2) show thesis by (rule that(1))
        next
          case (fine x2 s2)
          have "symbols_found trs (y 0) x2" unfolding symbols_found_def
          proof (intro allI impI)
            fix j assume "j < ?n"
            then obtain t where t: "acts (find_symbol (ok j) j (y j) (getFileName (y 0)) (getSymbolName (y 0))) (s1 j) t (Inr (x2 j)) (s2 j)"
              "set t \<subseteq> set (trs ! j)" using fine(1) by blast
            from find_symbol_run [OF t(1)] dl_mono(2) [OF _ t(2)] show "getFileName (x2 j) = getFileName (y 0) \<and>
                getSymbolName (x2 j) = getSymbolName (y 0) \<and>
                (if j = 0 then x2 j = y 0 else dl_found (trs ! j) (getSymbolName (y 0)) (getSymbol (x2 j)))"
              by (cases "j = 0") (auto simp: getFileName_def getSymbolName_def getSymbol_def)
          qed
          then show thesis using fine(2) by (rule that(2))
        qed
      qed
    qed
  qed
qed

text \<open>What the catch block makes of the result of the section.\<close>

definition caught :: "fault + err_t \<Rightarrow> fault + err_t" where
  "caught r = (case r of Inl e \<Rightarrow> if is_exception e then Inr (severity e) else Inl e | Inr st \<Rightarrow> Inr st)"

lemma acts_caught:
  "acts (catchA m (\<lambda>e. retA (severity e))) s tr r s' \<longleftrightarrow> (\<exists>r0. acts m s tr r0 s' \<and> r = caught r0)" (is "?l \<longleftrightarrow> ?r")
proof
  assume ?l
  then show ?r unfolding acts_catchA
  proof (elim disjE exE conjE)
    fix x assume "r = Inr x" "acts m s tr (Inr x) s'"
    then show ?r by (auto simp: caught_def intro!: exI [of _ "Inr x"])
  next
    fix e assume "r = Inl e" "\<not> is_exception e" "acts m s tr (Inl e) s'"
    then show ?r by (auto simp: caught_def intro!: exI [of _ "Inl e"])
  next
    fix e s1 t1 t2 assume "is_exception e" "tr = t1 @ t2" "acts m s t1 (Inl e) s1" "acts (retA (severity e)) s1 t2 r s'"
    then show ?r by (auto simp: caught_def act_simps intro!: exI [of _ "Inl e"])
  qed
next
  assume ?r
  then obtain r0 where r0: "acts m s tr r0 s'" "r = caught r0" by blast
  show ?l
  proof (cases r0)
    case (Inl e)
    then show ?thesis using r0 unfolding acts_catchA by (cases "is_exception e") (auto simp: caught_def act_simps)
  next
    case (Inr x)
    then show ?thesis using r0 unfolding acts_catchA by (simp add: caught_def)
  qed
qed

lemma lockstep_caught:
  assumes "lockstep trs ks (\<lambda>j. catchA (m j) (\<lambda>e. retA (severity e))) s r s'"
  obtains r0 where "lockstep trs ks m s r0 s'" and "\<And>j. j < length trs \<Longrightarrow> r j = caught (r0 j)"
proof -
  have "\<exists>r0. (\<exists>pre suf. trs ! j = pre @ suf \<and> coll_kinds pre = ks \<and> acts (m j) (s j) suf r0 (s' j)) \<and> r j = caught r0" if "j < length trs" for j
    using assms that unfolding lockstep_def acts_caught by blast
  then obtain r0 where "\<And>j. j < length trs \<Longrightarrow> (\<exists>pre suf. trs ! j = pre @ suf \<and> coll_kinds pre = ks \<and> acts (m j) (s j) suf (r0 j) (s' j)) \<and>
      r j = caught (r0 j)" by metis
  then show thesis using that unfolding lockstep_def by blast
qed

text \<open>One process has ended, another still has a collective call to make.\<close>

lemma lockstep_left_behind:
  assumes "lockstep trs ks m s r s'" and "i < length trs" and "m i = throwA e" and "k < length trs"
    and "\<And>t r1 s1. acts (m k) (s k) t r1 s1 \<Longrightarrow> coll_kinds t \<noteq> []"
  shows "r i = Inl e \<and> \<not> matched trs"
proof -
  have "coll_kinds (trs ! i) = ks" "r i = Inl e"
    using assms(1-3) unfolding lockstep_def by (auto simp: act_simps)
  moreover have "coll_kinds (trs ! k) \<noteq> ks"
  proof -
    obtain pre suf where "trs ! k = pre @ suf" "coll_kinds pre = ks" "acts (m k) (s k) suf (r k) (s' k)"
      using assms(1,4) unfolding lockstep_def by blast
    then show ?thesis using assms(5) by simp
  qed
  moreover have "trs ! i \<in> set trs" "trs ! k \<in> set trs" using assms(2,4) by simp_all
  ultimately show ?thesis unfolding matched_def by metis
qed

lemma rethrow_calls:
  assumes "acts (bindA (trysync_rethrow (copy_names ok y)) f) s tr r s'"
  shows "coll_kinds tr \<noteq> []"
proof -
  obtain t1 t2 r1 s1 where "tr = t1 @ t2" "acts (trysync_rethrow (copy_names ok y)) s t1 r1 s1"
    using assms by (rule acts_bind_first)
  then show ?thesis
    by (auto simp: trysync_rethrow_def copy_names_def act_simps acts_bindA acts_catchA split: if_splits)
qed

lemma symbols_fit:
  "((if b then n else 0) \<le> (n :: nat)) = True"
  "((if g \<and> b then n else 0) \<le> length (if g then vec_resize n d xs else xs)) = True"
  by simp_all

section \<open>Properties\<close>


text \<open>
  The calls of two processes that broadcast a symbol with empty names: the root has it at address 5, the linker of
  the other one finds it at address 9.
\<close>

definition demo_symbol :: "addr \<Rightarrow> symbol option" where
  "demo_symbol a = Some \<lparr>sym_handle = None, sym_addr = a, sym_file = [], sym_name = []\<rparr>"

definition demo_names :: "nat \<Rightarrow> event list" where
  "demo_names j =
     [(AllreduceOr False, Flag False), (Broadcast 0 [0], Nums [0]), (Broadcast 0 [0], Nums [0])] @
     (if j = 0 then [] else [(DlOpen [], Handle None), (DlSym None [], Handle (Some 9))]) @ [(AllreduceOr False, Flag False)]"

lemmas demo_symbol_simps = demo_names_def demo_symbol_def broadcastSymbol_def trysync_rethrow_def copy_names_def find_symbol_def
  symbol_of_name_def broadcast_string_def broadcast_value_def getSymbol_def getSymbolName_def getFileName_def

lemma demo_symbol_run:
  "acts (broadcastSymbol (\<lambda>_. True) 0 (demo_symbol 5)) () (demo_names 0) (Inr (demo_symbol 5)) ()"
  "acts (broadcastSymbol (\<lambda>_. True) 1 None) () (demo_names 1) (Inr (demo_symbol 9)) ()"
  by (simp_all add: demo_symbol_simps act_defs)


text \<open>
  After the first bracket of \<open>exec\<close> every process starts the section, with an array of symbols that is empty when it had no memory
  for it.
\<close>

lemma exec_spmd_started:
  assumes "collectives_ok trs" and n: "0 < length trs"
    and runs: "\<forall>j<length trs. acts (exec_spmd (mem j) (ok j) j (y j) (aux j) (f_size j) (section j)) (s j) (trs ! j) (r j) (s' j)"
  shows "\<exists>aux' nF s1 r0. lockstep trs [KBroadcast, KMax] (\<lambda>j. start_section (ok j) j (y j) (aux' j) (f_size 0) (nF j) (section j)) s1 r0 s' \<and>
    (\<forall>j<length trs. r j = caught (r0 j)) \<and> (0 < f_size 0 \<longrightarrow>
      (\<forall>j. (\<not> mem j 1 \<longrightarrow> nF j = (0 :: nat)) \<and> (mem j 0 \<and> mem j 1 \<longrightarrow> take (nF j) (aux' j) \<noteq> [] \<and> nF j = f_size 0)))"
proof -
  let ?n = "length trs" and ?F = "f_size 0"
  define grown where "grown j \<longleftrightarrow> mem j 0 \<or> ?F \<le> length (aux j)" for j
  define made where "made j \<longleftrightarrow> grown j \<and> (mem j 1 \<or> ?F = 0)" for j
  define aux' where "aux' j = (if grown j then vec_resize ?F None (aux j) else aux j)" for j
  define nF where "nF j = (if made j then ?F else 0)" for j
  have "lockstep trs [] (\<lambda>j. exec_spmd (mem j) (ok j) j (y j) (aux j) (f_size j) (section j)) s r s'"
    by (rule lockstep_start [OF runs])
  from lockstep_value [OF this [unfolded exec_spmd_def Let_def] assms(1) n]
  have "lockstep trs ([] @ [KBroadcast]) (\<lambda>j. bindA (trysync (if made j then retA () else throwA BadAlloc) LPF_SUCCESS) (\<lambda>status.
      catchA (start_section (ok j) j (y j) (aux' j) ?F (nF j) (section j)) (\<lambda>e. retA (severity e)))) s r s'"
    by (rule lockstep_cong)
       (simp add: grown_def made_def aux'_def nF_def assertA_def bindA_retA symbols_fit del: One_nat_def)
  then obtain s1 where "lockstep trs ([KBroadcast, KMax]) (\<lambda>j. catchA (start_section (ok j) j (y j) (aux' j) ?F (nF j) (section j))
      (\<lambda>e. retA (severity e))) s1 r s'"
  proof (rule lockstep_trysync [OF _ assms(1) n])
    show "recoverable (if made j then retA () else throwA BadAlloc) \<and> 0 \<le> LPF_SUCCESS" for j
      by (auto intro!: recoverable_rules simp: err_defs)
  qed simp
  then obtain r0 where "lockstep trs [KBroadcast, KMax] (\<lambda>j. start_section (ok j) j (y j) (aux' j) ?F (nF j) (section j)) s1 r0 s'"
    and "\<And>j. j < ?n \<Longrightarrow> r j = caught (r0 j)"
    by (rule lockstep_caught) (rule that)
  moreover have "nF j = 0" if "\<not> mem j 1" "0 < ?F" for j using that by (simp add: nF_def made_def)
  moreover have "take (nF j) (aux' j) \<noteq> [] \<and> nF j = ?F" if "mem j 0 \<and> mem j 1" "0 < ?F" for j
    using that by (auto simp: nF_def made_def grown_def aux'_def vec_resize_def)
  ultimately show ?thesis by (intro exI [of _ aux'] exI [of _ nF] exI [of _ s1] exI [of _ r0]) auto
qed

text \<open>
  C7: a process that runs out of memory in \<open>exec\<close> loses the others.  The status of the allocation is shared by all processes, but
  it is not looked at.  Let there be a symbol to forward, let the arrays for the forwarded symbols not be made on process \<open>i\<close> and
  be made on process \<open>k\<close>, and let everything else about the user's function go well: no allocation of its broadcast fails, its
  address is not \<open>NULL\<close>, and every linker finds what it is asked for.  Then process \<open>i\<close> trips its assertion, and
  process \<open>k\<close> has gone on with a collective call that process \<open>i\<close> never joins.
\<close>

theorem exec_memory_mismatch:
  assumes "collectives_ok trs" and "\<forall>j<length trs. acts (exec_spmd (mem j) (ok j) j (y j) (aux j) (f_size j) (section j)) (s j) (trs ! j) (r j) (s' j)"
    and "i < length trs" and "\<not> mem i 1" and "k < length trs" and "mem k 0 \<and> mem k 1" and "0 < f_size 0"
    and "\<forall>j<length trs. dl_finds (trs ! j) \<and> (\<forall>m\<le>8. ok j 0 m)" and "getSymbol (y 0) \<noteq> 0"
  shows "r i = Inl AssertionFailed \<and> \<not> matched trs"
proof -
  have n: "0 < length trs" using assms(3) by auto
  obtain aux' nF s1 r0 where l: "lockstep trs [KBroadcast, KMax] (\<lambda>j. start_section (ok j) j (y j) (aux' j) (f_size 0) (nF j) (section j)) s1 r0 s'"
    and r: "\<forall>j<length trs. r j = caught (r0 j)"
    and arrays: "0 < f_size 0 \<longrightarrow>
      (\<forall>j. (\<not> mem j 1 \<longrightarrow> nF j = 0) \<and> (mem j 0 \<and> mem j 1 \<longrightarrow> take (nF j) (aux' j) \<noteq> [] \<and> nF j = f_size 0))"
    using exec_spmd_started [OF assms(1) n assms(2)] by (elim exE conjE) (rule that; assumption)
  have without: "nF i = 0" and with_memory: "take (nF k) (aux' k) \<noteq> []"
    using arrays assms(4,6,7) by simp_all
  let ?go = "\<lambda>j spmd. bindA (broadcast_symbols (\<lambda>i. ok j (i + 1)) j (take (nF j) (aux' j))) (\<lambda>fs.
     bindA (assertA (f_size 0 = length fs)) (\<lambda>_. section j (getSymbol spmd) fs))"
  from l [unfolded start_section_def] assms(1) n show ?thesis
  proof (cases rule: lockstep_symbol)
    case (failed ks e s2)
    then show ?thesis using assms(8) dl_finds_not_refused unfolding symbol_failure_def by blast
  next
    case (fine ks x s2)
    have x: "getSymbol (x k) \<noteq> 0"
      using fine(1) [unfolded symbols_found_def, rule_format, OF assms(5)] assms(5,8,9)
        dl_finds_address [of "trs ! k" "getSymbolName (y 0)" "getSymbol (x k)"] by (cases "k = 0") auto
    let ?m = "\<lambda>j. bindA (assertA (getSymbol (x j) \<noteq> 0)) (\<lambda>_. ?go j (x j))"
    have mi: "?m i = throwA AssertionFailed"
      using assms(7) without by (simp add: assertA_def bindA_retA bindA_throwA)
    obtain z zs where z: "take (nF k) (aux' k) = z # zs"
      using with_memory by (cases "take (nF k) (aux' k)") auto
    have mk: "coll_kinds t \<noteq> []" if run: "acts (?m k) (s2 k) t r1 s3" for t r1 s3
    proof -
      have "acts (?go k (x k)) (s2 k) t r1 s3" using run x by (simp add: assertA_def bindA_retA)
      then show ?thesis unfolding z broadcast_symbols.simps broadcastSymbol_def bindA_assoc by (rule rethrow_calls)
    qed
    have "r0 i = Inl AssertionFailed \<and> \<not> matched trs"
      by (rule lockstep_left_behind [OF fine(2) assms(3) mi assms(5)]) (rule mk)
    then show ?thesis using r [rule_format, OF assms(3)] by (simp add: caught_def)
  qed
qed

text \<open>The second process has no memory for its array of one symbol.\<close>

definition demo_exec :: "nat \<Rightarrow> event list" where
  "demo_exec j =
     [(Broadcast 0 [1 - j], Nums [1]), (AllreduceMax j, Num 1)] @ demo_names j @ (if j = 0 then [(AllreduceOr True, Done)] else [])"

theorem exec_memory_mismatch_witness:
  "acts (exec_spmd (\<lambda>_. True) (\<lambda>i _. i = 0) 0 (demo_symbol 5) [demo_symbol 7] 1 (\<lambda>_ _. retA LPF_SUCCESS)) () (demo_exec 0)
      (Inr LPF_ERR_OUT_OF_MEMORY) () \<and>
    acts (exec_spmd (\<lambda>i. i = 0) (\<lambda>i _. i = 0) 1 None [] 0 (\<lambda>_ _. retA LPF_SUCCESS)) () (demo_exec 1) (Inl AssertionFailed) () \<and>
    \<not> matched [demo_exec 0, demo_exec 1]"
proof -
  let ?trs = "[demo_exec 0, demo_exec 1]"
  let ?mem = "\<lambda>j i :: nat. j = 0 \<or> i = 0"
  let ?ok = "\<lambda>j i k :: nat. i = 0"
  let ?y = "\<lambda>j :: nat. if j = 0 then demo_symbol 5 else None"
  let ?aux = "\<lambda>j :: nat. if j = 0 then [demo_symbol 7] else []"
  let ?section = "\<lambda>(j :: nat) (a :: addr) (fs :: addr list). (retA LPF_SUCCESS :: (unit, err_t) ext)"
  let ?r = "\<lambda>j :: nat. if j = 0 then Inr LPF_ERR_OUT_OF_MEMORY else Inl AssertionFailed"
  have ok: "collectives_ok ?trs" by (rule collectives_ok_pair) (simp_all add: round_simps demo_exec_def demo_names_def)
  have run0: "acts (exec_spmd (\<lambda>_. True) (\<lambda>i _. i = 0) 0 (demo_symbol 5) [demo_symbol 7] 1 (?section 0)) () (demo_exec 0)
      (Inr LPF_ERR_OUT_OF_MEMORY) ()"
    by (simp add: demo_exec_def exec_spmd_def trysync_def start_section_def Let_def signal_failure_def
        vec_resize_def demo_symbol_simps act_defs severity_def err_defs OtherProcessFailure_def)
  have run1: "acts (exec_spmd (\<lambda>i. i = 0) (\<lambda>i _. i = 0) 1 None [] 0 (?section 1)) () (demo_exec 1) (Inl AssertionFailed) ()"
    by (simp add: demo_exec_def exec_spmd_def trysync_def start_section_def Let_def signal_failure_def
        vec_resize_def demo_symbol_simps act_defs severity_def err_defs OtherProcessFailure_def)
  have h: "\<forall>j<length ?trs. acts (exec_spmd (?mem j) (?ok j) j (?y j) (?aux j) (1 - j) (?section j)) () (?trs ! j) (?r j) ()"
    using run0 run1 by (simp add: less_Suc_eq)
  have dl: "\<forall>j<length ?trs. dl_finds (?trs ! j) \<and> (\<forall>m\<le>8. ?ok j 0 m)"
    by (simp add: less_Suc_eq dl_finds_def demo_exec_def demo_names_def)
  have "getSymbol (?y 0) \<noteq> 0" by (simp add: getSymbol_def demo_symbol_def)
  from exec_memory_mismatch [OF ok h _ _ _ _ _ dl this, of 1 0] run0 run1 show ?thesis by simp
qed

end
