(* ===== verification/Process_Group.thy ===== *)
theory Process_Group imports Process_Exec begin

text \<open>
  The processes of a machine: class \<open>Process\<close> of \<open>src/MPI/process.cpp\<close> with \<open>exec\<close>, the loop of the processes
  that wait for it, and the functions of \<open>src/MPI/interface.cpp\<close> and \<open>src/MPI/core.cpp\<close> that start a section.  A process takes
  part in several communicators, so that here a call carries the handle of the one it is made on.
\<close>

section \<open>Calls on a communicator\<close>

record comm =
  cm_handle :: nat
  cm_pid :: nat
  cm_nprocs :: nat

type_synonym ('s, 'a) grp = "(nat \<times> call, reply, 's, 'a) act"

primrec tagged :: "nat \<Rightarrow> (call, reply, 'a) prog \<Rightarrow> (nat \<times> call, reply, 'a) prog" where
  "tagged h (Ret x) = Ret x"
| "tagged h (Vis q k) = Vis (h, q) (\<lambda>r. tagged h (k r))"

definition on_comm :: "comm \<Rightarrow> ('s, 'a) ext \<Rightarrow> ('s, 'a) grp" where
  "on_comm c m = (\<lambda>s. tagged (cm_handle c) (m s))"

text \<open>A block with a local variable, and the result of a constructor.\<close>

definition with_local :: "'x \<Rightarrow> ('q, 'r, 'x \<times> 's, 'a) act \<Rightarrow> ('q, 'r, 's, 'a) act" where
  "with_local x m = (\<lambda>s. bindT (m (x, s)) (\<lambda>(r, y). Ret (r, snd y)))"

definition constructA :: "('q, 'r, fault + 'a) prog \<Rightarrow> ('q, 'r, 's, 'a) act" where
  "constructA p = (\<lambda>s. bindT p (\<lambda>r. Ret (r, s)))"

text \<open>The new communicators of \<open>Comm::split\<close> and \<open>Comm::clone\<close>.\<close>

definition new_comm :: "string \<Rightarrow> reply \<Rightarrow> fault + comm" where
  "new_comm what r = (case r of
     Group h p n \<Rightarrow> Inr \<lparr>cm_handle = h, cm_pid = p, cm_nprocs = n\<rparr> | _ \<Rightarrow> Inl (ErrorThrown what))"

definition comm_split :: "comm \<Rightarrow> int \<Rightarrow> int \<Rightarrow> ('s, comm) grp" where
  "comm_split c color rank =
     bindA (callA (cm_handle c, CommSplit color rank)) (\<lambda>r.
     liftA (\<lambda>_. new_comm ''Splitting MPI communicator failed'' r))"

definition comm_clone :: "('s, comm) ext" where
  "comm_clone = bindA (callA CommDup) (\<lambda>r. liftA (\<lambda>_. new_comm ''Copying MPI communicator failed'' r))"

section \<open>Processes\<close>

record process =
  pr_world :: comm
  pr_aborted :: bool

definition process_destroy :: "process \<Rightarrow> ('s, unit) grp" where
  "process_destroy p =
     (if \<not> pr_aborted p
      then catchA (bindA (on_comm (pr_world p) (broadcast_value 0 0)) (\<lambda>_. retA ())) (\<lambda>_. retA ())
      else retA ())"

text \<open>
  The look-up of the symbols on the caller: \<open>Inl\<close> is a status that \<open>exec\<close> returns at once.  \<open>ok\<close> gives the allocations of the
  \<open>i\<close>-th symbol, the last of them that of the vector.
\<close>

definition lookup_one :: "(nat \<Rightarrow> bool) \<Rightarrow> addr \<Rightarrow> ('s, err_t + symbol option) ext" where
  "lookup_one ok a =
     catchA (bindA (symbol_of_addr ok a) (\<lambda>y. if ok 2 then retA (Inr y) else throwA BadAlloc)) (\<lambda>e. retA (Inl (severity e)))"

primrec lookup_all :: "(nat \<Rightarrow> nat \<Rightarrow> bool) \<Rightarrow> addr list \<Rightarrow> ('s, err_t + symbol option list) ext" where
  "lookup_all ok [] = retA (Inr [])"
| "lookup_all ok (a # as) =
     bindA (lookup_one (ok 0) a) (\<lambda>r.
     case r of Inl st \<Rightarrow> retA (Inl st) | Inr y \<Rightarrow>
     bindA (lookup_all (\<lambda>i. ok (i + 1)) as) (\<lambda>r.
     case r of Inl st \<Rightarrow> retA (Inl st) | Inr ys \<Rightarrow> retA (Inr (y # ys))))"

definition lookup_spmd :: "(nat \<Rightarrow> bool) \<Rightarrow> addr \<Rightarrow> ('s, err_t + symbol option) ext" where
  "lookup_spmd ok spmd =
     (if spmd \<noteq> 0
      then catchA (bindA (symbol_of_addr ok spmd) (\<lambda>y. retA (Inr y))) (\<lambda>e. retA (Inl (severity e)))
      else retA (Inr None))"

text \<open>What \<open>exec\<close> needs from outside: its allocations, and \<open>hook\<close> on the new machine.\<close>

record exec_env =
  find_ok :: "nat \<Rightarrow> nat \<Rightarrow> bool"
  mem_ok :: "nat \<Rightarrow> bool"
  share_ok :: "nat \<Rightarrow> nat \<Rightarrow> bool"
  hook_on :: "comm \<Rightarrow> addr \<Rightarrow> addr list \<Rightarrow> (process, err_t) ext"

definition wake_up :: "process \<Rightarrow> nat \<Rightarrow> addr \<Rightarrow> (process, nat) grp" where
  "wake_up p P spmd =
     (if 0 = cm_pid (pr_world p)
      then bindA (assertA (spmd \<noteq> 0)) (\<lambda>_. bindA (assertA (P > 0)) (\<lambda>_.
           on_comm (pr_world p) (broadcast_value (min (cm_nprocs (pr_world p)) P) 0)))
      else retA P)"

text \<open>The destructor of the subprocess also runs when an exception leaves the block.\<close>

definition with_subprocess :: "process \<Rightarrow> ('s, 'a) grp \<Rightarrow> ('s, 'a) grp" where
  "with_subprocess sub m =
     bindA (catchA m (\<lambda>e. bindA (process_destroy sub) (\<lambda>_. throwA e))) (\<lambda>x.
     bindA (process_destroy sub) (\<lambda>_. retA x))"

definition exec_groups ::
  "(comm \<Rightarrow> (nat \<times> call, reply, fault + process) prog) \<Rightarrow> comm \<Rightarrow> nat \<Rightarrow> ('s, comm \<times> process) grp" where
  "exec_groups sub world procs =
     bindA (comm_split world (if cm_pid world < procs then 1 else 0) (int (cm_pid world))) (\<lambda>machine.
     bindA (assertA (0 \<noteq> cm_pid world \<or> 0 = cm_pid machine)) (\<lambda>_.
     bindA (comm_split world (int (cm_pid world) mod int procs) (int (cm_pid world))) (\<lambda>subworld.
     bindA (constructA (sub subworld)) (\<lambda>subprocess. retA (machine, subprocess)))))"

definition process_exec ::
  "exec_env \<Rightarrow> (comm \<Rightarrow> (nat \<times> call, reply, fault + process) prog) \<Rightarrow> nat \<Rightarrow> addr \<Rightarrow> addr list \<Rightarrow> (process, err_t) grp" where
  "process_exec env sub P spmd f_symbols =
     bindA getA (\<lambda>p.
     let world = pr_world p in
     if pr_aborted p then retA LPF_ERR_FATAL
     else bindA (on_comm world (lookup_spmd (find_ok env 0) spmd)) (\<lambda>r.
       case r of Inl st \<Rightarrow> retA st | Inr y \<Rightarrow>
       bindA (on_comm world (lookup_all (\<lambda>i. find_ok env (i + 1)) f_symbols)) (\<lambda>r.
       case r of Inl st \<Rightarrow> retA st | Inr aux \<Rightarrow>
       bindA (wake_up p P spmd) (\<lambda>procs.
       bindA (exec_groups sub world procs) (\<lambda>(machine, subprocess).
       with_subprocess subprocess
         (if cm_pid world < procs
          then on_comm machine (exec_spmd (mem_ok env) (share_ok env) (cm_pid machine) y aux (length f_symbols) (hook_on env machine))
          else retA LPF_SUCCESS))))))"

text \<open>
  The loop of a process that is not the root, for at most \<open>n\<close> commands; the constructor starts it, and \<open>exec\<close> in it makes a
  subprocess with a smaller bound.
\<close>

primrec slave_loop :: "(nat \<Rightarrow> (process, err_t) grp) \<Rightarrow> nat \<Rightarrow> (process, unit) grp" where
  "slave_loop ex 0 = throwA OutOfFuel"
| "slave_loop ex (Suc n) =
     bindA getA (\<lambda>p.
     bindA (on_comm (pr_world p) (broadcast_value 0 0)) (\<lambda>procs.
     if procs > 0 then bindA (ex procs) (\<lambda>_. slave_loop ex n)
     else modA (\<lambda>p. p\<lparr>pr_aborted := True\<rparr>)))"

primrec process_new :: "exec_env \<Rightarrow> nat \<Rightarrow> comm \<Rightarrow> (nat \<times> call, reply, fault + process) prog" where
  "process_new env 0 c = Ret (Inl OutOfFuel)"
| "process_new env (Suc n) c =
     (let p = \<lparr>pr_world = c, pr_aborted = False\<rparr> in
      if 0 \<noteq> cm_pid c
      then bindT (slave_loop (\<lambda>procs. process_exec env (process_new env n) procs 0 []) n p)
             (\<lambda>(r, p). Ret (case r of Inl e \<Rightarrow> Inl e | Inr _ \<Rightarrow> Inr p))
      else Ret (Inr p))"

section \<open>Starting a section\<close>

text \<open>
  A runtime with the processes that wait for it, \<open>m_subprocess\<close>; \<open>hook\<close> is \<open>Process::hook\<close> on a communicator.
\<close>

type_synonym 'a lpf_context = "(nat \<times> call, reply, interface \<times> process, 'a) act"

definition interface_exec ::
  "exec_env \<Rightarrow> (comm \<Rightarrow> (nat \<times> call, reply, fault + process) prog) \<Rightarrow> nat \<Rightarrow> addr \<Rightarrow> addr list \<Rightarrow> err_t lpf_context" where
  "interface_exec env sub P spmd f_symbols =
     zoomA snd (\<lambda>p (i, _). (i, p)) (process_exec env sub P spmd f_symbols)"

definition interface_hook ::
  "exec_env \<Rightarrow> comm \<Rightarrow> (process \<Rightarrow> (nat \<times> call, reply, fault + err_t) prog) \<Rightarrow> ('s, err_t) grp" where
  "interface_hook env self hook =
     bindA (constructA (process_new env 1 self)) (\<lambda>subprocess.
     with_subprocess subprocess (constructA (hook subprocess)))"

definition interface_rehook :: "comm \<Rightarrow> (comm \<Rightarrow> process \<Rightarrow> (nat \<times> call, reply, fault + err_t) prog) \<Rightarrow> err_t lpf_context" where
  "interface_rehook m_comm hook =
     with_local m_comm
       (bindA (on_comm m_comm (trysync (bindA comm_clone (\<lambda>c. modA (\<lambda>s. (c, snd s)))) LPF_SUCCESS)) (\<lambda>rc.
        if LPF_SUCCESS = rc
        then bindA getA (\<lambda>(clone, _, subprocess). constructA (hook clone subprocess))
        else retA rc))"

text \<open>\<open>lpf_exec\<close>, \<open>lpf_hook\<close> and \<open>lpf_rehook\<close> of \<open>src/MPI/core.cpp\<close>.\<close>

definition lpf_exec ::
  "exec_env \<Rightarrow> (comm \<Rightarrow> (nat \<times> call, reply, fault + process) prog) \<Rightarrow> nat \<Rightarrow> addr \<Rightarrow> addr list \<Rightarrow> err_t lpf_context" where
  "lpf_exec env sub P spmd f_symbols =
     bindA getA (\<lambda>(i, _). if if_aborted i \<noteq> 0 then retA LPF_ERR_FATAL else interface_exec env sub P spmd f_symbols)"

definition lpf_hook ::
  "exec_env \<Rightarrow> comm \<Rightarrow> (process \<Rightarrow> (nat \<times> call, reply, fault + err_t) prog) \<Rightarrow> ('s, err_t) grp" where
  "lpf_hook = interface_hook"

definition lpf_rehook :: "comm \<Rightarrow> (comm \<Rightarrow> process \<Rightarrow> (nat \<times> call, reply, fault + err_t) prog) \<Rightarrow> err_t lpf_context" where
  "lpf_rehook = interface_rehook"

text \<open>\<open>Interface::probe\<close>, its two numbers of processes.\<close>

record machine_t =
  mc_p :: nat
  mc_free_p :: nat

definition interface_probe :: "nat \<Rightarrow> (interface \<times> process) \<Rightarrow> machine_t" where
  "interface_probe nprocs s = \<lparr>mc_p = nprocs, mc_free_p = cm_nprocs (pr_world (snd s))\<rparr>"

section \<open>The waiting processes\<close>

lemma acts_on_comm:
  "acts (on_comm c m) s tr r s' \<longleftrightarrow> (\<exists>t. acts m s t r s' \<and> tr = map (\<lambda>(q, rep). ((cm_handle c, q), rep)) t)"
proof -
  have "runs (tagged h p) tr x \<longleftrightarrow> (\<exists>t. runs p t x \<and> tr = map (\<lambda>(q, rep). ((h, q), rep)) t)" for h p x
  proof (induction p arbitrary: tr)
    case (Ret y)
    then show ?case by auto
  next
    case (Vis q k)
    have ih: "runs (tagged h (k rep)) tr x \<longleftrightarrow> (\<exists>t. runs (k rep) t x \<and> tr = map (\<lambda>(q, rep). ((h, q), rep)) t)" for rep tr
      by (rule Vis.IH [OF rangeI])
    show ?case unfolding tagged.simps runs_Vis ih by fastforce
  qed
  then show ?thesis by (simp add: acts_def on_comm_def)
qed

lemma acts_constructA [act_simps]: "acts (constructA p) s tr r s' \<longleftrightarrow> runs p tr r \<and> s' = s"
  by (auto simp: acts_def constructA_def runs_bindT)

text \<open>The broadcast by which the root gives a command, as a waiting process sees it.\<close>

definition command :: "comm \<Rightarrow> nat \<Rightarrow> (nat \<times> call) \<times> reply \<Rightarrow> bool" where
  "command c procs e \<longleftrightarrow> fst e = (cm_handle c, Broadcast 0 [0]) \<and> hd (the_nums (snd e)) = procs"

lemma acts_command:
  "acts (on_comm c (broadcast_value 0 0)) s tr r s' \<longleftrightarrow> (\<exists>procs e. r = Inr procs \<and> tr = [e] \<and> command c procs e \<and> s' = s)"
  by (fastforce simp: acts_on_comm broadcast_value_def act_simps command_def)

lemma acts_bind_command:
  "acts (bindA (on_comm c (broadcast_value 0 0)) f) s tr r s' \<longleftrightarrow>
    (\<exists>procs e t. tr = e # t \<and> command c procs e \<and> acts (f procs) s t r s')"
proof
  assume "acts (bindA (on_comm c (broadcast_value 0 0)) f) s tr r s'"
  then consider x where "r = Inl x" "acts (on_comm c (broadcast_value 0 0)) s tr (Inl x) s'"
    | procs s1 t1 t2 where "tr = t1 @ t2" "acts (on_comm c (broadcast_value 0 0)) s t1 (Inr procs) s1" "acts (f procs) s1 t2 r s'"
    unfolding acts_bindA by blast
  then show "\<exists>procs e t. tr = e # t \<and> command c procs e \<and> acts (f procs) s t r s'"
  proof cases
    case 1
    then show ?thesis by (simp add: acts_command)
  next
    case 2
    then obtain e where "t1 = [e]" "command c procs e" "s1 = s" by (auto simp: acts_command)
    with 2 show ?thesis by auto
  qed
next
  assume "\<exists>procs e t. tr = e # t \<and> command c procs e \<and> acts (f procs) s t r s'"
  then obtain procs e t where "tr = [e] @ t" "command c procs e" "acts (f procs) s t r s'" by auto
  moreover from this have "acts (on_comm c (broadcast_value 0 0)) s [e] (Inr procs) s" by (simp add: acts_command)
  ultimately show "acts (bindA (on_comm c (broadcast_value 0 0)) f) s tr r s'"
    unfolding acts_bindA by blast
qed

text \<open>
  The reference for the loop: it takes part in one \<open>exec\<close> for each command that is not zero, in the order of the commands, and
  the command zero ends it.
\<close>

primrec serves ::
  "(nat \<Rightarrow> (process, err_t) grp) \<Rightarrow> (nat \<times> err_t) list \<Rightarrow> process \<Rightarrow> ((nat \<times> call) \<times> reply) list \<Rightarrow> process \<Rightarrow> bool" where
  "serves ex [] p tr p' \<longleftrightarrow> (\<exists>e. command (pr_world p) 0 e \<and> tr = [e] \<and> p' = p\<lparr>pr_aborted := True\<rparr>)"
| "serves ex (c # cs) p tr p' \<longleftrightarrow>
     (\<exists>e t tr' p1. fst c > 0 \<and> command (pr_world p) (fst c) e \<and> tr = e # t @ tr' \<and>
       acts (ex (fst c)) p t (Inr (snd c)) p1 \<and> serves ex cs p1 tr' p')"

lemma slave_loop_run:
  "acts (slave_loop ex n) p tr (Inr ()) p' \<longleftrightarrow> (\<exists>cs. length cs < n \<and> serves ex cs p tr p')"
proof (induction n arbitrary: p tr p')
  case 0
  then show ?case by (simp add: act_simps)
next
  case (Suc n)
  have "acts (slave_loop ex (Suc n)) p tr (Inr ()) p' \<longleftrightarrow> (\<exists>procs e t. tr = e # t \<and> command (pr_world p) procs e \<and>
      acts (if procs > 0 then bindA (ex procs) (\<lambda>_. slave_loop ex n)
        else modA (\<lambda>p. p\<lparr>pr_aborted := True\<rparr>)) p t (Inr ()) p')"
    unfolding slave_loop.simps acts_bind_getA acts_bind_command ..
  also have "\<dots> \<longleftrightarrow> (\<exists>procs e t. tr = e # t \<and> command (pr_world p) procs e \<and>
      (procs = 0 \<and> t = [] \<and> p' = p\<lparr>pr_aborted := True\<rparr> \<or>
       procs > 0 \<and> (\<exists>st p1 t1 t2 cs. t = t1 @ t2 \<and> acts (ex procs) p t1 (Inr st) p1 \<and> length cs < n \<and> serves ex cs p1 t2 p')))"
    (is "(\<exists>procs e t. _ \<and> _ \<and> ?run procs t) = (\<exists>procs e t. _ \<and> _ \<and> ?served procs t)")
  proof -
    have "?run procs t = ?served procs t" for procs t
    proof (cases "procs > 0")
      case True
      then show ?thesis by (simp add: acts_bindA Suc.IH)
    next
      case False
      then show ?thesis by (auto simp: acts_modA)
    qed
    then show ?thesis by simp
  qed
  also have "\<dots> \<longleftrightarrow> (\<exists>cs. length cs < Suc n \<and> serves ex cs p tr p')"
    (is "?l \<longleftrightarrow> ?r")
  proof
    assume ?l
    then obtain procs e t where e: "tr = e # t" "command (pr_world p) procs e"
      and "procs = 0 \<and> t = [] \<and> p' = p\<lparr>pr_aborted := True\<rparr> \<or>
       procs > 0 \<and> (\<exists>st p1 t1 t2 cs. t = t1 @ t2 \<and> acts (ex procs) p t1 (Inr st) p1 \<and> length cs < n \<and> serves ex cs p1 t2 p')"
      by blast
    then consider "procs = 0" "t = []" "p' = p\<lparr>pr_aborted := True\<rparr>"
      | st p1 t1 t2 cs where "procs > 0" "t = t1 @ t2" "acts (ex procs) p t1 (Inr st) p1" "length cs < n" "serves ex cs p1 t2 p'"
      by blast
    then show ?r
    proof cases
      case 1
      with e show ?thesis by (intro exI [of _ "[]"]) (cases e, auto)
    next
      case 2
      with e have "serves ex ((procs, st) # cs) p tr p'" unfolding serves.simps fst_conv snd_conv by blast
      with 2 show ?thesis by (intro exI [of _ "(procs, st) # cs"]) simp
    qed
  next
    assume ?r
    then obtain cs where cs: "length cs < Suc n" "serves ex cs p tr p'" by blast
    show ?l
    proof (cases cs)
      case Nil
      with cs show ?thesis by auto
    next
      case (Cons c ds)
      with cs obtain e t tr' p1 where "fst c > 0" "command (pr_world p) (fst c) e" "tr = e # t @ tr'"
        "acts (ex (fst c)) p t (Inr (snd c)) p1" "serves ex ds p1 tr' p'" by auto
      moreover have "length ds < n" using cs Cons by simp
      ultimately show ?thesis
        by (intro exI [of _ "fst c"] exI [of _ e] exI [of _ "t @ tr'"]) blast
    qed
  qed
  finally show ?case .
qed

lemma serves_aborted: "serves ex cs p tr p' \<Longrightarrow> pr_aborted p'"
  by (induction cs arbitrary: p tr) auto

lemma process_new_run:
  assumes "cm_pid c \<noteq> 0"
  shows "runs (process_new env (Suc n) c) tr (Inr p) \<longleftrightarrow>
    acts (slave_loop (\<lambda>procs. process_exec env (process_new env n) procs 0 []) n) \<lparr>pr_world = c, pr_aborted = False\<rparr> tr (Inr ()) p"
proof -
  let ?m = "slave_loop (\<lambda>procs. process_exec env (process_new env n) procs 0 []) n \<lparr>pr_world = c, pr_aborted = False\<rparr>"
  have r: "Inr p = (case r of Inl e \<Rightarrow> Inl e | Inr _ \<Rightarrow> Inr q) \<longleftrightarrow> r = Inr () \<and> p = q" for r :: "fault + unit" and q
    by (cases r) auto
  have "runs (process_new env (Suc n) c) tr (Inr p) \<longleftrightarrow>
      runs (bindT ?m (\<lambda>(r, q). Ret (case r of Inl e \<Rightarrow> Inl e | Inr _ \<Rightarrow> Inr q))) tr (Inr p)"
    using assms by simp
  also have "\<dots> \<longleftrightarrow> runs ?m tr (Inr (), p)"
    unfolding runs_bindT by (auto simp: r)
  finally show ?thesis by (simp only: acts_def)
qed

text \<open>
  C5: A process that is not the root waits for the root: its construction takes part in one \<open>exec\<close> for each command it receives,
  in the order of the commands, and is over when it receives the command zero.  The bound on the number of commands is the only
  one: for any sequence of commands that ends with zero a large enough bound gives the result.
\<close>

theorem slave_serves:
  assumes "cm_pid c \<noteq> 0"
  shows "runs (process_new env (Suc n) c) tr (Inr p) \<longleftrightarrow>
    (\<exists>cs. length cs < n \<and>
      serves (\<lambda>procs. process_exec env (process_new env n) procs 0 []) cs \<lparr>pr_world = c, pr_aborted = False\<rparr> tr p)"
  unfolding process_new_run [OF assms] slave_loop_run ..

text \<open>
  A process that the root has released does nothing any more: its \<open>exec\<close> returns \<open>LPF_ERR_FATAL\<close> and its destructor makes no
  call, so that no broadcast is left without its other side.
\<close>

theorem released_process:
  assumes "cm_pid c \<noteq> 0" and "runs (process_new env n c) tr (Inr p)"
  shows "(acts (process_exec env sub P spmd f_symbols) p t r p' \<longleftrightarrow> t = [] \<and> r = Inr LPF_ERR_FATAL \<and> p' = p) \<and>
    (acts (process_destroy p) s t d s' \<longleftrightarrow> t = [] \<and> d = Inr () \<and> s' = s)"
proof -
  obtain m where n: "n = Suc m" using assms(2) by (cases n) auto
  with assms have p: "pr_aborted p" by (auto simp: process_new_run slave_loop_run simp del: process_new.simps dest: serves_aborted)
  then show ?thesis by (simp add: process_exec_def process_destroy_def act_simps Let_def)
qed

definition demo_exec_env :: exec_env where
  "demo_exec_env = \<lparr>find_ok = \<lambda>_ _. True, mem_ok = \<lambda>_. True, share_ok = \<lambda>_ _. True, hook_on = \<lambda>_ _ _. retA LPF_SUCCESS\<rparr>"

definition demo_commands :: "((nat \<times> call) \<times> reply) list" where
  "demo_commands =
    [((7, Broadcast 0 [0]), Nums [1]), ((7, CommSplit 0 1), Group 8 0 1), ((7, CommSplit 0 1), Group 9 1 2),
     ((9, Broadcast 0 [0]), Nums [0]), ((7, Broadcast 0 [0]), Nums [0])]"

definition demo_comm :: comm where
  "demo_comm = \<lparr>cm_handle = 7, cm_pid = 1, cm_nprocs = 2\<rparr>"

text \<open>A process that waits during the section of another one, and is released.\<close>

lemma demo_released: "runs (process_new demo_exec_env 4 demo_comm) demo_commands (Inr \<lparr>pr_world = demo_comm, pr_aborted = True\<rparr>)"
  by code_simp

theorem slave_serves_witness:
  "\<exists>cs. length cs < 3 \<and> serves (\<lambda>procs. process_exec demo_exec_env (process_new demo_exec_env 3) procs 0 []) cs
     \<lparr>pr_world = demo_comm, pr_aborted = False\<rparr> demo_commands \<lparr>pr_world = demo_comm, pr_aborted = True\<rparr>"
  using slave_serves [of demo_comm demo_exec_env 3 demo_commands "\<lparr>pr_world = demo_comm, pr_aborted = True\<rparr>"] demo_released
  by (simp add: demo_comm_def)

theorem released_process_witness:
  "acts (process_exec demo_exec_env (process_new demo_exec_env 3) 2 5 []) \<lparr>pr_world = demo_comm, pr_aborted = True\<rparr> []
     (Inr LPF_ERR_FATAL) \<lparr>pr_world = demo_comm, pr_aborted = True\<rparr> \<and>
   acts (process_destroy \<lparr>pr_world = demo_comm, pr_aborted = True\<rparr>) () [] (Inr ()) ()"
  using released_process [OF _ demo_released, where sub = "process_new demo_exec_env 3" and P = 2
      and spmd = 5 and f_symbols = "[]" and t = "[]" and r = "Inr LPF_ERR_FATAL" and d = "Inr ()" and s = "()" and s' = "()"
      and p' = "\<lparr>pr_world = demo_comm, pr_aborted = True\<rparr>"]
  by (simp add: demo_comm_def)

section \<open>The groups of a section\<close>

text \<open>
  What \<open>MPI_Comm_split\<close> documents: the processes with the same colour form a communicator, in which they are numbered in the order
  of their keys, and of their old numbers where the keys are equal.
\<close>

definition split_rank :: "(nat \<Rightarrow> int) \<Rightarrow> (nat \<Rightarrow> int) \<Rightarrow> nat \<Rightarrow> nat \<Rightarrow> nat" where
  "split_rank color key n i = length (filter (\<lambda>j. color j = color i \<and> (key j < key i \<or> key j = key i \<and> j < i)) [0..<n])"

definition split_size :: "(nat \<Rightarrow> int) \<Rightarrow> nat \<Rightarrow> nat \<Rightarrow> nat" where
  "split_size color n i = length (filter (\<lambda>j. color j = color i) [0..<n])"

definition split_ok :: "(nat \<Rightarrow> int) \<Rightarrow> (nat \<Rightarrow> int) \<Rightarrow> nat \<Rightarrow> (nat \<Rightarrow> reply) \<Rightarrow> bool" where
  "split_ok color key n answer \<longleftrightarrow>
     list_all (\<lambda>i. case answer i of
       Group h p m \<Rightarrow> p = split_rank color key n i \<and> m = split_size color n i | _ \<Rightarrow> False) [0..<n]"

lemma length_filter_upt: "length (filter P [0..<n]) = card {j. j < n \<and> P j}"
proof -
  have "length (filter P [0..<n]) = card (set (filter P [0..<n]))"
    by (rule distinct_card [symmetric]) simp
  also have "set (filter P [0..<n]) = {j. j < n \<and> P j}" by auto
  finally show ?thesis .
qed

lemma split_okD:
  "split_ok color key n answer \<Longrightarrow> i < n \<Longrightarrow> \<exists>h. answer i = Group h (split_rank color key n i) (split_size color n i)"
  unfolding split_ok_def list_all_iff by (drule bspec [of _ _ i]) (auto split: reply.splits)

lemma split_ok_cong:
  assumes "\<And>i. i < n \<Longrightarrow> color i = color' i \<and> key i = key' i \<and> answer i = answer' i" and "split_ok color key n answer"
  shows "split_ok color' key' n answer'"
proof -
  have "split_rank color key n i = split_rank color' key' n i" and "split_size color n i = split_size color' n i" if "i < n" for i
    using assms(1) that unfolding split_rank_def split_size_def length_filter_upt
    by (auto intro!: arg_cong [where f = card])
  then show ?thesis using assms unfolding split_ok_def list_all_iff by (simp cong: reply.case_cong)
qed

fun the_split :: "call \<Rightarrow> int \<times> int" where
  "the_split (CommSplit color key) = (color, key)"
| "the_split _ = (0, 0)"

text \<open>The \<open>k\<close>-th call of all processes is a split that does what is documented.\<close>

definition split_round :: "(nat \<Rightarrow> ((nat \<times> call) \<times> reply) list) \<Rightarrow> nat \<Rightarrow> nat \<Rightarrow> bool" where
  "split_round tr n k \<longleftrightarrow>
     split_ok (\<lambda>i. fst (the_split (snd (fst (tr i ! k))))) (\<lambda>i. snd (the_split (snd (fst (tr i ! k))))) n (\<lambda>i. snd (tr i ! k))"

lemma count_same_remainder:
  fixes d :: nat
  assumes "0 < d"
  shows "card {j. j < i \<and> j mod d = i mod d} = i div d"
proof -
  have "{j. j < i \<and> j mod d = i mod d} = (\<lambda>k. i mod d + d * k) ` {..<i div d}"
  proof (rule set_eqI)
    fix j
    show "j \<in> {j. j < i \<and> j mod d = i mod d} \<longleftrightarrow> j \<in> (\<lambda>k. i mod d + d * k) ` {..<i div d}"
    proof
      assume j: "j \<in> {j. j < i \<and> j mod d = i mod d}"
      have "j div d \<noteq> i div d" using j by (metis (mono_tags) div_mod_decomp less_irrefl mem_Collect_eq)
      then have "j div d < i div d" using j by (simp add: div_le_mono order_le_neq_trans)
      moreover have "j = i mod d + d * (j div d)" using j by (metis (mono_tags) mem_Collect_eq mod_mult_div_eq)
      ultimately show "j \<in> (\<lambda>k. i mod d + d * k) ` {..<i div d}" by blast
    next
      assume "j \<in> (\<lambda>k. i mod d + d * k) ` {..<i div d}"
      then obtain k where k: "j = i mod d + d * k" "k < i div d" by blast
      then have "d * k < d * (i div d)" using assms by simp
      then have "j < i" using k(1) mod_mult_div_eq [of i d] by linarith
      then show "j \<in> {j. j < i \<and> j mod d = i mod d}" using k by simp
    qed
  qed
  moreover have "inj_on (\<lambda>k. i mod d + d * k) {..<i div d}" using assms by (auto simp: inj_on_def)
  ultimately show ?thesis by (simp add: card_image)
qed

lemma machine_rank:
  assumes "i < n" and "procs \<le> n"
  shows "split_rank (\<lambda>i. if i < procs then 1 else 0) int n i = (if i < procs then i else i - procs)"
    and "split_size (\<lambda>i. if i < procs then 1 else 0) n i = (if i < procs then procs else n - procs)"
proof -
  have "{j. j < n \<and> ((if j < procs then 1 else 0) = (if i < procs then 1 else 0 :: int) \<and> (int j < int i \<or> int j = int i \<and> j < i))} =
      (if i < procs then {..<i} else {procs..<i})"
    using assms by (auto split: if_splits)
  then show "split_rank (\<lambda>i. if i < procs then 1 else 0) int n i = (if i < procs then i else i - procs)"
    unfolding split_rank_def length_filter_upt by simp
  have "{j. j < n \<and> (if j < procs then 1 else 0) = (if i < procs then 1 else 0 :: int)} = (if i < procs then {..<procs} else {procs..<n})"
    using assms by (auto split: if_splits)
  then show "split_size (\<lambda>i. if i < procs then 1 else 0) n i = (if i < procs then procs else n - procs)"
    unfolding split_size_def length_filter_upt by simp
qed

lemma subgroup_rank:
  assumes "i < n" and "0 < procs"
  shows "split_rank (\<lambda>i. int i mod int procs) int n i = i div procs"
proof -
  have "{j. j < n \<and> (int j mod int procs = int i mod int procs \<and> (int j < int i \<or> int j = int i \<and> j < i))} =
      {j. j < i \<and> j mod procs = i mod procs}"
    using assms by (auto simp flip: zmod_int)
  then show ?thesis
    unfolding split_rank_def length_filter_upt using count_same_remainder [OF assms(2)] by simp
qed

lemma acts_split:
  "acts (bindA (comm_split c color key) f) s tr r s' \<longleftrightarrow>
    (\<exists>rep t. tr = ((cm_handle c, CommSplit color key), rep) # t \<and>
       (case new_comm ''Splitting MPI communicator failed'' rep of
          Inl e \<Rightarrow> t = [] \<and> r = Inl e \<and> s' = s | Inr x \<Rightarrow> acts (f x) s t r s'))"
  unfolding comm_split_def bindA_assoc acts_bind_callA acts_bind_liftA by (simp split: sum.split)

lemma acts_split_Inr:
  "acts (bindA (comm_split c color key) f) s tr (Inr y) s' \<longleftrightarrow>
    (\<exists>rep t x. tr = ((cm_handle c, CommSplit color key), rep) # t \<and>
       new_comm ''Splitting MPI communicator failed'' rep = Inr x \<and> acts (f x) s t (Inr y) s')"
proof -
  have e: "(case m of Inl e \<Rightarrow> t = [] \<and> Inr y = Inl e \<and> s' = s | Inr x \<Rightarrow> acts (f x) s t (Inr y) s') \<longleftrightarrow>
      (\<exists>x. m = Inr x \<and> acts (f x) s t (Inr y) s')" for m :: "fault + comm" and t
    by (cases m) auto
  show ?thesis unfolding acts_split e by blast
qed

lemma new_comm_Group: "new_comm what (Group h p n) = Inr c \<longleftrightarrow> c = \<lparr>cm_handle = h, cm_pid = p, cm_nprocs = n\<rparr>"
  by (auto simp: new_comm_def)

lemma acts_construct_pair:
  "acts (bindA (constructA p) (\<lambda>x. retA (m, x))) s tr (Inr y) s' \<longleftrightarrow> (\<exists>x. runs p tr (Inr x) \<and> y = (m, x) \<and> s' = s)"
  by (auto simp: acts_bindA act_simps)

lemma exec_groups_run:
  assumes "acts (exec_groups sub world procs) s tr (Inr (machine, subprocess)) s'"
  shows "\<exists>r1 r2 c t. tr = ((cm_handle world, CommSplit (if cm_pid world < procs then 1 else 0) (int (cm_pid world))), r1) #
      ((cm_handle world, CommSplit (int (cm_pid world) mod int procs) (int (cm_pid world))), r2) # t \<and>
      new_comm ''Splitting MPI communicator failed'' r1 = Inr machine \<and>
      new_comm ''Splitting MPI communicator failed'' r2 = Inr c \<and> runs (sub c) t (Inr subprocess)"
proof -
  from assms obtain r1 t1 x where 1:
      "tr = ((cm_handle world, CommSplit (if cm_pid world < procs then 1 else 0) (int (cm_pid world))), r1) # t1"
      "new_comm ''Splitting MPI communicator failed'' r1 = Inr x"
      "acts (bindA (assertA (0 \<noteq> cm_pid world \<or> 0 = cm_pid x)) (\<lambda>_.
         bindA (comm_split world (int (cm_pid world) mod int procs) (int (cm_pid world))) (\<lambda>c.
         bindA (constructA (sub c)) (\<lambda>p. retA (x, p))))) s t1 (Inr (machine, subprocess)) s'"
    unfolding exec_groups_def acts_split_Inr by blast
  from 1(3) obtain r2 t c where 2:
      "t1 = ((cm_handle world, CommSplit (int (cm_pid world) mod int procs) (int (cm_pid world))), r2) # t"
      "new_comm ''Splitting MPI communicator failed'' r2 = Inr c"
      "acts (bindA (constructA (sub c)) (\<lambda>p. retA (x, p))) s t (Inr (machine, subprocess)) s'"
    unfolding acts_bind_assertA acts_split_Inr by (auto split: if_splits)
  from 2(3) have "x = machine" "runs (sub c) t (Inr subprocess)"
    unfolding acts_construct_pair by auto
  with 1 2 show ?thesis by blast
qed

text \<open>
  C4: The groups of \<open>exec\<close>: on a communicator whose splits behave as documented, the requested processes form the new machine,
  under their own numbers, the others form a group of their own, and every requested process is the root of a
  subgroup in which the others that have its number modulo the number of requested processes wait for it.
\<close>

theorem exec_groups_ranks:
  assumes "0 < procs" and "procs \<le> n"
    and "\<And>i. i < n \<Longrightarrow> cm_pid (world i) = i"
    and run: "\<And>i. i < n \<Longrightarrow> acts (exec_groups (sub i) (world i) procs) (s i) (tr i) (Inr (machine i, subprocess i)) (s' i)"
    and "split_round tr n 0" and "split_round tr n 1"
    and "i < n"
  shows "cm_pid (machine i) = (if i < procs then i else i - procs) \<and>
    cm_nprocs (machine i) = (if i < procs then procs else n - procs) \<and>
    (\<exists>c t. runs (sub i c) t (Inr (subprocess i)) \<and> cm_pid c = i div procs \<and> (cm_pid c = 0 \<longleftrightarrow> i < procs))"
proof -
  have "\<exists>r1 r2 c t. tr j = ((cm_handle (world j), CommSplit (if j < procs then 1 else 0) (int j)), r1) #
      ((cm_handle (world j), CommSplit (int j mod int procs) (int j)), r2) # t \<and>
      new_comm ''Splitting MPI communicator failed'' r1 = Inr (machine j) \<and>
      new_comm ''Splitting MPI communicator failed'' r2 = Inr c \<and> runs (sub j c) t (Inr (subprocess j))" if "j < n" for j
    using exec_groups_run [OF run [OF that]] assms(3) [OF that] by simp
  then obtain r1 r2 c t where tr: "\<And>j. j < n \<Longrightarrow> tr j = ((cm_handle (world j), CommSplit (if j < procs then 1 else 0) (int j)), r1 j) #
      ((cm_handle (world j), CommSplit (int j mod int procs) (int j)), r2 j) # t j"
    and c: "\<And>j. j < n \<Longrightarrow> new_comm ''Splitting MPI communicator failed'' (r1 j) = Inr (machine j)"
      "\<And>j. j < n \<Longrightarrow> new_comm ''Splitting MPI communicator failed'' (r2 j) = Inr (c j)"
      "\<And>j. j < n \<Longrightarrow> runs (sub j (c j)) (t j) (Inr (subprocess j))"
    by metis
  have "split_ok (\<lambda>i. if i < procs then 1 else 0) int n r1"
    using assms(5) unfolding split_round_def by (rule split_ok_cong [rotated]) (simp add: tr)
  then obtain h where r1: "r1 i = Group h (split_rank (\<lambda>i. if i < procs then 1 else 0) int n i)
      (split_size (\<lambda>i. if i < procs then 1 else 0) n i)"
    using split_okD assms(7) by blast
  have "split_ok (\<lambda>i. int i mod int procs) int n r2"
    using assms(6) unfolding split_round_def by (rule split_ok_cong [rotated]) (simp add: tr)
  then obtain h' sz where r2: "r2 i = Group h' (split_rank (\<lambda>i. int i mod int procs) int n i) sz"
    using split_okD assms(7) by blast
  have "cm_pid (machine i) = (if i < procs then i else i - procs)"
    and "cm_nprocs (machine i) = (if i < procs then procs else n - procs)"
    using r1 c(1) [OF assms(7)] machine_rank [OF assms(7,2)] by (auto simp: new_comm_Group)
  moreover have "cm_pid (c i) = i div procs"
    using r2 c(2) [OF assms(7)] subgroup_rank [OF assms(7,1)] by (auto simp: new_comm_Group)
  moreover have "i div procs = 0 \<longleftrightarrow> i < procs" using assms(1) by (simp add: div_eq_0_iff)
  ultimately show ?thesis
    using c(3) [OF assms(7)] by auto
qed

text \<open>Three processes of which two are requested.\<close>

definition demo_split :: "nat \<Rightarrow> ((nat \<times> call) \<times> reply) list" where
  "demo_split i =
     [((7, CommSplit (if i < 2 then 1 else 0) (int i)), Group 8 (if i < 2 then i else 0) (if i < 2 then 2 else 1)),
      ((7, CommSplit (int i mod 2) (int i)), Group 9 (i div 2) (if i = 1 then 1 else 2))]"

definition demo_sub :: "comm \<Rightarrow> (nat \<times> call, reply, fault + process) prog" where
  "demo_sub c = Ret (Inr \<lparr>pr_world = c, pr_aborted = cm_pid c \<noteq> 0\<rparr>)"

definition demo_world :: "nat \<Rightarrow> comm" where
  "demo_world i = \<lparr>cm_handle = 7, cm_pid = i, cm_nprocs = 3\<rparr>"

definition demo_machine :: "nat \<Rightarrow> comm" where
  "demo_machine i = \<lparr>cm_handle = 8, cm_pid = (if i < 2 then i else 0), cm_nprocs = (if i < 2 then 2 else 1)\<rparr>"

definition demo_subprocess :: "nat \<Rightarrow> process" where
  "demo_subprocess i =
     \<lparr>pr_world = \<lparr>cm_handle = 9, cm_pid = i div 2, cm_nprocs = (if i = 1 then 1 else 2)\<rparr>, pr_aborted = i div 2 \<noteq> 0\<rparr>"

lemma demo_groups:
  assumes "i < 3"
  shows "acts (exec_groups demo_sub (demo_world i) 2) () (demo_split i) (Inr (demo_machine i, demo_subprocess i)) ()"
proof -
  have "i = 0 \<or> i = 1 \<or> i = 2" using assms by auto
  then show ?thesis
    by (elim disjE) (simp_all add: exec_groups_def acts_split acts_bind_assertA acts_construct_pair new_comm_def
        demo_sub_def demo_world_def demo_split_def demo_machine_def demo_subprocess_def)
qed

lemma demo_rounds: "split_round demo_split 3 0" "split_round demo_split 3 1"
  by code_simp+

theorem exec_groups_ranks_witness:
  "cm_pid (demo_machine 2) = 0 \<and> cm_nprocs (demo_machine 0) = 2 \<and>
   (\<exists>c t. runs (demo_sub c) t (Inr (demo_subprocess 2)) \<and> cm_pid c = 1)"
  using exec_groups_ranks [of 2 3 demo_world "\<lambda>_. demo_sub" "\<lambda>_. ()" demo_split demo_machine demo_subprocess "\<lambda>_. ()" 2]
    exec_groups_ranks [of 2 3 demo_world "\<lambda>_. demo_sub" "\<lambda>_. ()" demo_split demo_machine demo_subprocess "\<lambda>_. ()" 0]
    demo_groups demo_rounds by (auto simp: demo_world_def)

section \<open>After an abort\<close>

text \<open>What \<open>rehook\<close> has to say in the vote on the copy of the communicator, and the communicator it has after it.\<close>

definition rehook_vote :: "fault + comm \<Rightarrow> nat" where
  "rehook_vote r = (case r of Inl _ \<Rightarrow> nat LPF_ERR_FATAL | Inr _ \<Rightarrow> nat LPF_SUCCESS)"

definition rehook_comm :: "comm \<Rightarrow> fault + comm \<Rightarrow> comm" where
  "rehook_comm c r = (case r of Inl _ \<Rightarrow> c | Inr clone \<Rightarrow> clone)"

lemma clone_vote:
  "trysync (bindA comm_clone (\<lambda>c. modA (\<lambda>s. (c, snd s)))) LPF_SUCCESS s =
    Vis CommDup (\<lambda>a. Vis (AllreduceMax (rehook_vote (new_comm ''Copying MPI communicator failed'' a)))
      (\<lambda>b. Ret (Inr (the_num b), (rehook_comm (fst s) (new_comm ''Copying MPI communicator failed'' a), snd s))))"
proof -
  have e: "severity e = LPF_ERR_FATAL" "is_exception e" if "new_comm ''Copying MPI communicator failed'' a = Inl e" for a e
    using that by (auto simp: new_comm_def severity_def split: reply.splits)
  show ?thesis
    by (simp add: trysync_def comm_clone_def act_defs, rule ext, rename_tac a, case_tac "new_comm ''Copying MPI communicator failed'' a")
      (simp_all add: e rehook_vote_def rehook_comm_def err_defs)
qed

lemma acts_clone_vote:
  "acts (bindA (on_comm c (trysync (bindA comm_clone (\<lambda>c. modA (\<lambda>s. (c, snd s)))) LPF_SUCCESS)) f) s tr r s' \<longleftrightarrow>
    (\<exists>a b t. tr = ((cm_handle c, CommDup), a) #
       ((cm_handle c, AllreduceMax (rehook_vote (new_comm ''Copying MPI communicator failed'' a))), b) # t \<and>
       acts (f (the_num b)) (rehook_comm (fst s) (new_comm ''Copying MPI communicator failed'' a), snd s) t r s')"
  unfolding acts_def bindA_def [of "on_comm _ _"]
  unfolding on_comm_def clone_vote
  by (simp add: runs_Vis del: runs.simps) blast

lemma acts_with_local: "acts (with_local x m) s tr r s' \<longleftrightarrow> (\<exists>y. acts m (x, s) tr r (y, s'))"
  by (auto simp: with_local_def acts_def runs_bindT)

text \<open>
  On a runtime that has aborted \<open>lpf_exec\<close> returns \<open>LPF_ERR_FATAL\<close> and makes no call.  \<open>lpf_rehook\<close> does not look at that
  state: whatever the number of aborted processes is, it copies the communicator, votes, and starts the section when the vote
  is \<open>LPF_SUCCESS\<close>.
\<close>

theorem rehook_after_abort:
  shows "(if_aborted i \<noteq> 0 \<longrightarrow>
      (acts (lpf_exec env sub P spmd f_symbols) (i, p) tr r s' \<longleftrightarrow> tr = [] \<and> r = Inr LPF_ERR_FATAL \<and> s' = (i, p))) \<and>
    (acts (lpf_rehook c hook) (i, p) tr r s' \<longleftrightarrow>
      (\<exists>a b t. tr = ((cm_handle c, CommDup), a) #
           ((cm_handle c, AllreduceMax (rehook_vote (new_comm ''Copying MPI communicator failed'' a))), b) # t \<and> s' = (i, p) \<and>
         (if the_num b = LPF_SUCCESS
          then runs (hook (rehook_comm c (new_comm ''Copying MPI communicator failed'' a)) p) t r
          else t = [] \<and> r = Inr (the_num b))))"
proof -
    have e: "acts (if LPF_SUCCESS = rc then bindA getA (\<lambda>(clone, _, subprocess). constructA (hook clone subprocess)) else retA rc)
        (x, i, p) t r (y, s') \<longleftrightarrow>
      y = x \<and> s' = (i, p) \<and> (if rc = LPF_SUCCESS then runs (hook x p) t r else t = [] \<and> r = Inr rc)" for rc x t y
      by (auto simp: acts_bind_getA acts_constructA acts_retA)
    show ?thesis
      unfolding lpf_rehook_def interface_rehook_def acts_with_local acts_clone_vote fst_conv snd_conv e
      by (simp add: lpf_exec_def acts_bind_getA acts_retA)
qed

theorem rehook_after_abort_witness:
  "acts (lpf_exec demo_exec_env (process_new demo_exec_env 1) 2 5 []) (demo_runtime\<lparr>if_aborted := 2\<rparr>, demo_subprocess 0) []
     (Inr LPF_ERR_FATAL) (demo_runtime\<lparr>if_aborted := 2\<rparr>, demo_subprocess 0)"
  using rehook_after_abort [of "demo_runtime\<lparr>if_aborted := 2\<rparr>"] by simp

end
