(* ===== verification/Mpi_Messages.thy ===== *)
theory Mpi_Messages imports External "HOL-Library.Multiset" begin

text \<open>
  Point-to-point messages of \<open>src/MPI/mpilib.cpp\<close>: \<open>isend\<close>, \<open>irecv\<close> and \<open>iwaitall\<close> of \<open>Comm::Impl\<close>, which cut a message into
  parts of at most \<open>m_maxMpiMsgSize\<close> bytes, and the sparse \<open>Comm::allToAll\<close>.  The calls of MPI are external; a
  request that MPI has completed is \<open>MPI_REQUEST_NULL\<close>, here \<open>None\<close>.  The vectors have been reserved by \<open>reserveMsgs\<close>,
  so that \<open>push_back\<close> does not allocate.
\<close>

section \<open>Calls of MPI\<close>

datatype mpi_call =
    MpiIsend addr nat int int | MpiIssend addr nat int
  | MpiTestsome "nat option list" | MpiWaitall "nat option list"
  | MpiIprobe | MpiRecv addr nat int int
  | MpiBarrier | MpiIbarrier | MpiTest
  | MpiPut addr nat int nat | MpiGet addr nat int nat

datatype mpi_reply =
    MpiFailure | MpiSuccess
  | Request nat
  | Completed "nat list"
  | NoMessage | Arrived int int nat
  | BarrierDone bool

text \<open>What each of the calls gives when MPI returns \<open>MPI_SUCCESS\<close>; otherwise the code throws an \<open>Exception\<close>.\<close>

definition request_of :: "string \<Rightarrow> mpi_reply \<Rightarrow> fault + nat" where
  "request_of what r = (case r of Request h \<Rightarrow> Inr h | _ \<Rightarrow> Inl (ErrorThrown what))"

definition completed :: "string \<Rightarrow> mpi_reply \<Rightarrow> fault + nat list" where
  "completed what r = (case r of Completed is \<Rightarrow> Inr is | _ \<Rightarrow> Inl (ErrorThrown what))"

definition probed :: "string \<Rightarrow> mpi_reply \<Rightarrow> fault + (int \<times> int \<times> nat) option" where
  "probed what r = (case r of
     NoMessage \<Rightarrow> Inr None | Arrived src tag n \<Rightarrow> Inr (Some (src, tag, n)) | _ \<Rightarrow> Inl (ErrorThrown what))"

definition succeeded :: "string \<Rightarrow> mpi_reply \<Rightarrow> fault + unit" where
  "succeeded what r = (if r = MpiSuccess then Inr () else Inl (ErrorThrown what))"

definition tested :: "string \<Rightarrow> mpi_reply \<Rightarrow> fault + bool" where
  "tested what r = (case r of BarrierDone b \<Rightarrow> Inr b | _ \<Rightarrow> Inl (ErrorThrown what))"

type_synonym ('s, 'a) mpi = "(mpi_call, mpi_reply, 's, 'a) act"

definition mpiA :: "mpi_call \<Rightarrow> (mpi_reply \<Rightarrow> fault + 'a) \<Rightarrow> ('s, 'a) mpi" where
  "mpiA q f = bindA (callA q) (\<lambda>r. liftA (\<lambda>_. f r))"

section \<open>State\<close>

record send =
  snd_addr :: addr
  snd_size :: nat
  snd_dstPid :: int
  snd_tag :: int

record messages =
  im_maxMpiMsgSize :: nat
  im_imsgs :: "nat option list"
  im_irecvs :: "(addr \<times> nat) list"
  im_emptyRecvs :: nat
  im_largeSends :: "send list"
  im_largeRequests :: "nat option list"
  im_sendIndices :: nat

text \<open>\<open>m_sendIndices\<close> is overwritten by each \<open>MPI_Testsome\<close>: its length is all that is kept.\<close>

section \<open>Starting messages\<close>

text \<open>
  \<open>reserveMsgs\<close>; \<open>ok\<close> says which of the five allocations succeed.  \<open>Comm::reserveMsgs\<close> passes its \<open>size_t\<close> as an \<open>unsigned\<close>.
\<close>

definition impl_reserveMsgs :: "(nat \<Rightarrow> bool) \<Rightarrow> nat \<Rightarrow> (messages, unit) mpi" where
  "impl_reserveMsgs ok maxNumber =
     (if maxNumber > 2147483647 then throwA BadAlloc
      else if \<not> (ok 0 \<and> ok 1 \<and> ok 2 \<and> ok 3) then throwA BadAlloc
      else bindA getA (\<lambda>m.
        if im_sendIndices m < maxNumber
        then if ok 4 then modA (\<lambda>m. m\<lparr>im_sendIndices := maxNumber\<rparr>) else throwA BadAlloc
        else retA ()))"

definition reserveMsgs :: "(nat \<Rightarrow> bool) \<Rightarrow> nat \<Rightarrow> (messages, unit) mpi" where
  "reserveMsgs ok n = impl_reserveMsgs ok (n mod 4294967296)"

definition isend :: "addr \<Rightarrow> nat \<Rightarrow> int \<Rightarrow> int \<Rightarrow> (messages, unit) mpi" where
  "isend buf bytes destPid tag =
     bindA getA (\<lambda>m.
     let sz = min (im_maxMpiMsgSize m) bytes in
     bindA (if sz > 0
            then bindA (assertA (tag \<ge> 0)) (\<lambda>_.
                 bindA (mpiA (MpiIsend buf sz destPid tag) (request_of ''Cannot Isend msg'')) (\<lambda>h. retA (Some h)))
            else retA None) (\<lambda>req.
     if sz < bytes
     then bindA (assertA (bytes > im_maxMpiMsgSize m)) (\<lambda>_.
          modA (\<lambda>m. m\<lparr>
            im_largeSends := im_largeSends m @ [\<lparr>snd_addr = buf, snd_size = bytes, snd_dstPid = destPid, snd_tag = tag\<rparr>],
            im_largeRequests := im_largeRequests m @ [req]\<rparr>))
     else modA (\<lambda>m. m\<lparr>im_imsgs := im_imsgs m @ [req]\<rparr>)))"

definition irecv :: "addr \<Rightarrow> nat \<Rightarrow> int \<Rightarrow> (messages, unit) mpi" where
  "irecv buf bytes tag =
     bindA (assertA (tag \<ge> 0)) (\<lambda>_.
     bindA getA (\<lambda>m.
     bindA (assertA (nat tag = length (im_irecvs m))) (\<lambda>_.
     modA (\<lambda>m. m\<lparr>im_irecvs := im_irecvs m @ [(buf, bytes)],
       im_emptyRecvs := (if bytes = 0 then im_emptyRecvs m + 1 else im_emptyRecvs m)\<rparr>))))"

section \<open>Waiting\<close>

text \<open>
  The next part of a large message, when the part before it has been sent.  The value of \<open>MPI_Request()\<close>, which is overwritten
  when the call succeeds, is shown as \<open>None\<close>.
\<close>

definition rest_of :: "nat \<Rightarrow> send \<Rightarrow> send" where
  "rest_of mx s = s\<lparr>snd_addr := snd_addr s + mx, snd_size := snd_size s - mx\<rparr>"

definition continue_send :: "nat \<Rightarrow> (messages, unit) mpi" where
  "continue_send i =
     bindA getA (\<lambda>m.
     let mx = im_maxMpiMsgSize m in
     bindA (assertA (i < length (im_largeSends m))) (\<lambda>_.
     let s = im_largeSends m ! i; t = rest_of mx s in
     bindA (assertA (snd_size s > mx)) (\<lambda>_.
     bindA (modA (\<lambda>m. m\<lparr>im_largeSends := (im_largeSends m)[i := t],
       im_imsgs := (if snd_size t \<le> mx then im_imsgs m @ [None] else im_imsgs m)\<rparr>)) (\<lambda>_.
     bindA (assertA (snd_tag t \<ge> 0)) (\<lambda>_.
     bindA (assertA (snd_size t > 0)) (\<lambda>_.
     bindA (mpiA (MpiIsend (snd_addr t) (min mx (snd_size t)) (snd_dstPid t) (snd_tag t)) (request_of ''Cannot Isend msg'')) (\<lambda>h.
     if snd_size t \<le> mx then modA (\<lambda>m. m\<lparr>im_imsgs := (im_imsgs m)[length (im_imsgs m) - 1 := Some h]\<rparr>)
     else stateA (\<lambda>m. bindE (vec_set (im_largeRequests m) i (Some h)) (\<lambda>rs. Inr ((), m\<lparr>im_largeRequests := rs\<rparr>))))))))))"

text \<open>Removal of the large messages of which no part is under way, from the back.\<close>

primrec dequeue :: "nat \<Rightarrow> nat option list \<times> send list \<Rightarrow> fault + nat option list \<times> send list" where
  "dequeue 0 q = Inr q"
| "dequeue (Suc i) q =
     bindE (ASSERT (Suc i \<le> length (fst q))) (\<lambda>_.
     bindE (vec_at (fst q) i) (\<lambda>r.
     if r = None
     then bindE (vec_swap (fst q) i (length (fst q) - 1)) (\<lambda>rs.
          bindE (vec_swap (snd q) i (length (snd q) - 1)) (\<lambda>ss.
          dequeue i (butlast rs, butlast ss)))
     else dequeue i q))"

definition dequeue_sends :: "(messages, unit) mpi" where
  "dequeue_sends = stateA (\<lambda>m.
     bindE (dequeue (length (im_largeRequests m)) (im_largeRequests m, im_largeSends m)) (\<lambda>q.
     Inr ((), m\<lparr>im_largeRequests := fst q, im_largeSends := snd q\<rparr>)))"

definition test_sends :: "(messages, unit) mpi" where
  "test_sends =
     bindA getA (\<lambda>m.
     bindA (assertA (length (im_largeRequests m) \<le> im_sendIndices m)) (\<lambda>_.
     bindA (mpiA (MpiTestsome (im_largeRequests m)) (completed ''Cannot test for completion of MPI messages'')) (\<lambda>is.
     bindA (modA (\<lambda>m. m\<lparr>im_largeRequests := fold (\<lambda>i rs. rs[i := None]) is (im_largeRequests m)\<rparr>)) (\<lambda>_.
     bindA (forA is continue_send) (\<lambda>_. dequeue_sends)))))"

text \<open>One reception, in any order; the result is the number of messages that are still to come.\<close>

definition receive_next :: "nat \<Rightarrow> (messages, nat) mpi" where
  "receive_next nMsgs =
     bindA (mpiA MpiIprobe (probed ''Cannot Probe msg'')) (\<lambda>p.
     case p of None \<Rightarrow> retA nMsgs | Some (srcPid, tag, _) \<Rightarrow>
     bindA getA (\<lambda>m.
     let mx = im_maxMpiMsgSize m in
     bindA (assertA (0 \<le> tag \<and> nat tag < length (im_irecvs m))) (\<lambda>_.
     let (buf, sz) = im_irecvs m ! nat tag in
     bindA (assertA (sz > 0)) (\<lambda>_.
     bindA (mpiA (MpiRecv buf (min mx sz) srcPid tag) (succeeded ''Cannot Recv msg'')) (\<lambda>_.
     if sz > mx
     then bindA (modA (\<lambda>m. m\<lparr>im_irecvs := (im_irecvs m)[nat tag := (buf + mx, sz - mx)]\<rparr>)) (\<lambda>_. retA nMsgs)
     else retA (sub64 nMsgs 1))))))"

primrec wait_loop :: "nat \<Rightarrow> nat \<Rightarrow> (messages, unit) mpi" where
  "wait_loop 0 nMsgs = throwA OutOfFuel"
| "wait_loop (Suc n) nMsgs =
     bindA getA (\<lambda>m.
     if nMsgs > 0 \<or> im_largeSends m \<noteq> []
     then bindA test_sends (\<lambda>_. bindA (receive_next nMsgs) (\<lambda>nMsgs. wait_loop n nMsgs))
     else retA ())"

definition iwaitall :: "nat \<Rightarrow> (messages, unit) mpi" where
  "iwaitall n =
     bindA getA (\<lambda>m.
     bindA (wait_loop n (length (im_irecvs m) - im_emptyRecvs m)) (\<lambda>_.
     bindA getA (\<lambda>m.
     bindA (assertA (im_largeSends m = [])) (\<lambda>_.
     bindA (assertA (im_largeRequests m = [])) (\<lambda>_.
     bindA (modA (\<lambda>m. m\<lparr>im_irecvs := [], im_emptyRecvs := 0\<rparr>)) (\<lambda>_.
     bindA (mpiA (MpiWaitall (im_imsgs m)) (succeeded ''A nonblocking message failed'')) (\<lambda>_.
     bindA (modA (\<lambda>m. m\<lparr>im_imsgs := []\<rparr>)) (\<lambda>_.
     mpiA MpiBarrier (succeeded ''An MPI Barrier failed'')))))))))"

section \<open>Parts of a message\<close>

fun parts_of :: "nat \<Rightarrow> addr \<Rightarrow> nat \<Rightarrow> (addr \<times> nat) list" where
  "parts_of mx a n = (if n = 0 \<or> mx = 0 then [] else (a, min mx n) # parts_of mx (a + mx) (n - mx))"

declare parts_of.simps [simp del]

lemma parts_of_0 [simp]: "parts_of mx a 0 = []"
  by (simp add: parts_of.simps)

lemma parts_of_step: "0 < n \<Longrightarrow> 0 < mx \<Longrightarrow> parts_of mx a n = (a, min mx n) # parts_of mx (a + mx) (n - mx)"
  by (subst parts_of.simps) simp

lemma parts_of_last: "n \<le> mx \<Longrightarrow> 0 < n \<Longrightarrow> parts_of mx a n = [(a, n)]"
  by (simp add: parts_of_step)

text \<open>The parts cover the message, in order and without a gap, and none is longer than the limit.\<close>

lemma parts_of_cover:
  assumes "0 < mx"
  shows "concat (List.map (\<lambda>(a, n). [a..<a + n]) (parts_of mx a n)) = [a..<a + n] \<and> (\<forall>(b, k) \<in> set (parts_of mx a n). 0 < k \<and> k \<le> mx)"
using assms
proof (induction mx a n rule: parts_of.induct)
  case (1 mx a n)
  show ?case
  proof (cases "n = 0 \<or> mx = 0")
    case True
    with 1 show ?thesis by auto
  next
    case False
    then have "[a..<a + min mx n] @ [a + mx..<a + mx + (n - mx)] = [a..<a + n]"
      using upt_add_eq_append [of a "a + mx" "n - mx"] by (cases "n \<le> mx") (auto simp: min_def)
    with 1 False show ?thesis by (auto simp: parts_of_step)
  qed
qed

text \<open>The calls that send a part, in a trace, and those that are still to be made.\<close>

definition send_calls :: "nat \<Rightarrow> addr \<Rightarrow> nat \<Rightarrow> int \<Rightarrow> int \<Rightarrow> mpi_call multiset" where
  "send_calls mx buf bytes dst tag = mset (List.map (\<lambda>(a, n). MpiIsend a n dst tag) (parts_of mx buf bytes))"

definition rest_calls :: "nat \<Rightarrow> send \<Rightarrow> mpi_call multiset" where
  "rest_calls mx s = send_calls mx (snd_addr s + mx) (snd_size s - mx) (snd_dstPid s) (snd_tag s)"

fun is_isend :: "mpi_call \<Rightarrow> bool" where
  "is_isend (MpiIsend _ _ _ _) = True"
| "is_isend _ = False"

definition isends :: "(mpi_call \<times> mpi_reply) list \<Rightarrow> mpi_call multiset" where
  "isends tr = mset (filter is_isend (List.map fst tr))"

lemma isends_simps [simp]:
  "isends [] = {#}"
  "isends (e # tr) = (if is_isend (fst e) then {#fst e#} else {#}) + isends tr"
  "isends (t1 @ t2) = isends t1 + isends t2"
  by (simp_all add: isends_def)

definition pending :: "messages \<Rightarrow> mpi_call multiset" where
  "pending m = (\<Sum>s \<in># mset (im_largeSends m). rest_calls (im_maxMpiMsgSize m) s)"

lemma acts_mpiA [act_simps]:
  "acts (mpiA q f) s tr r s' \<longleftrightarrow> (\<exists>rep. tr = [(q, rep)] \<and> r = f rep \<and> s' = s)"
  by (auto simp: mpiA_def act_simps split: sum.splits)

lemma acts_bind_mpiA [act_simps]:
  "acts (bindA (mpiA q f) g) s tr r s' \<longleftrightarrow>
     (\<exists>rep t. tr = (q, rep) # t \<and> (case f rep of Inl e \<Rightarrow> t = [] \<and> r = Inl e \<and> s' = s | Inr x \<Rightarrow> acts (g x) s t r s'))"
  unfolding mpiA_def bindA_assoc by (auto simp: act_simps split: sum.splits)

lemma mpi_results:
  "request_of what r = Inr h \<longleftrightarrow> r = Request h"
  "completed what r = Inr is \<longleftrightarrow> r = Completed is"
  "succeeded what r = Inr u \<longleftrightarrow> r = MpiSuccess"
  "probed what r = Inr p \<longleftrightarrow> (case p of None \<Rightarrow> r = NoMessage | Some (src, tag, n) \<Rightarrow> r = Arrived src tag n)"
  "tested what r = Inr b \<longleftrightarrow> r = BarrierDone b"
  by (auto simp: request_of_def completed_def succeeded_def probed_def tested_def split: mpi_reply.splits option.splits)

lemma acts_bind_mpiA_ok:
  "acts (bindA (mpiA q f) g) s tr (Inr y) s' \<longleftrightarrow> (\<exists>rep x t. tr = (q, rep) # t \<and> f rep = Inr x \<and> acts (g x) s t (Inr y) s')"
proof -
  have e: "(case z of Inl e \<Rightarrow> t = [] \<and> Inr y = Inl e \<and> s' = s | Inr x \<Rightarrow> acts (g x) s t (Inr y) s') \<longleftrightarrow>
      (\<exists>x. z = Inr x \<and> acts (g x) s t (Inr y) s')" for z t
    by (cases z) auto
  show ?thesis unfolding acts_bind_mpiA e by blast
qed

text \<open>
  Between two tests every queued message has a part under way and more to come; in between, the messages of \<open>is\<close> have no part
  under way, and those that have been continued with their last part are to be removed.
\<close>

definition queued_ok :: "nat set \<Rightarrow> messages \<Rightarrow> bool" where
  "queued_ok is m \<longleftrightarrow> 0 < im_maxMpiMsgSize m \<and> length (im_largeRequests m) = length (im_largeSends m) \<and>
     (\<forall>j<length (im_largeSends m).
       if j \<in> is then im_largeRequests m ! j = None \<and> im_maxMpiMsgSize m < snd_size (im_largeSends m ! j)
       else (im_largeRequests m ! j \<noteq> None \<longleftrightarrow> im_maxMpiMsgSize m < snd_size (im_largeSends m ! j)))"

lemma rest_calls_small: "snd_size s \<le> mx \<Longrightarrow> rest_calls mx s = {#}"
  by (simp add: rest_calls_def send_calls_def)

lemma rest_calls_step:
  assumes "0 < mx" and "mx < snd_size s"
  shows "rest_calls mx s =
    {#MpiIsend (snd_addr (rest_of mx s)) (min mx (snd_size (rest_of mx s))) (snd_dstPid s) (snd_tag s)#} + rest_calls mx (rest_of mx s)"
  using assms by (simp add: rest_calls_def send_calls_def rest_of_def parts_of_step)

lemma sum_mset_update:
  assumes "i < length xs"
  shows "(\<Sum>x \<in># mset xs. f x) + f y = (\<Sum>x \<in># mset (xs[i := y]). f x) + (f (xs ! i) :: 'b :: cancel_comm_monoid_add)"
proof -
  obtain r where "mset xs = add_mset (xs ! i) r" using assms by (metis insert_DiffM nth_mem_mset)
  moreover from this have "mset (xs[i := y]) = add_mset y r" using mset_update [OF assms, of y] by simp
  ultimately show ?thesis by (simp add: ac_simps)
qed

lemma continue_send_acts:
  assumes "acts (continue_send i) m tr (Inr ()) m'"
  shows "let mx = im_maxMpiMsgSize m; s = im_largeSends m ! i; t = rest_of mx s in
    i < length (im_largeSends m) \<and> mx < snd_size s \<and>
    (\<exists>h. tr = [(MpiIsend (snd_addr t) (min mx (snd_size t)) (snd_dstPid t) (snd_tag t), Request h)] \<and>
      (if snd_size t \<le> mx then \<exists>x. m' = m\<lparr>im_largeSends := (im_largeSends m)[i := t], im_imsgs := x\<rparr>
       else m' = m\<lparr>im_largeSends := (im_largeSends m)[i := t], im_largeRequests := (im_largeRequests m)[i := Some h]\<rparr>))"
  using assms
  by (auto simp: continue_send_def Let_def acts_bind_getA acts_bind_assertA acts_bind_modA acts_bind_mpiA_ok acts_modA acts_stateA
      mpi_results vec_set_def bindE_def acts_if split: if_splits sum.splits)

lemma continue_send_run:
  assumes "acts (continue_send i) m tr (Inr ()) m'" and "queued_ok is m" and "i \<in> is"
  shows "queued_ok (is - {i}) m' \<and> pending m = isends tr + pending m' \<and> im_maxMpiMsgSize m' = im_maxMpiMsgSize m \<and>
    im_irecvs m' = im_irecvs m \<and> length (im_largeSends m') = length (im_largeSends m)"
proof -
  let ?mx = "im_maxMpiMsgSize m" and ?s = "im_largeSends m ! i"
  let ?t = "rest_of ?mx ?s"
  from continue_send_acts [OF assms(1)] obtain h where i: "i < length (im_largeSends m)" "?mx < snd_size ?s"
    and tr: "tr = [(MpiIsend (snd_addr ?t) (min ?mx (snd_size ?t)) (snd_dstPid ?t) (snd_tag ?t), Request h)]"
    and m': "if snd_size ?t \<le> ?mx then \<exists>x. m' = m\<lparr>im_largeSends := (im_largeSends m)[i := ?t], im_imsgs := x\<rparr>
       else m' = m\<lparr>im_largeSends := (im_largeSends m)[i := ?t], im_largeRequests := (im_largeRequests m)[i := Some h]\<rparr>"
    unfolding Let_def by blast
  have frame: "im_largeSends m' = (im_largeSends m)[i := ?t]" "im_maxMpiMsgSize m' = ?mx" "im_irecvs m' = im_irecvs m"
    "im_largeRequests m' = (if snd_size ?t \<le> ?mx then im_largeRequests m else (im_largeRequests m)[i := Some h])"
    using m' by (auto split: if_splits)
  have "pending m + rest_calls ?mx ?t = pending m' + rest_calls ?mx ?s"
    unfolding pending_def frame by (rule sum_mset_update [OF i(1)])
  moreover have "rest_calls ?mx ?s = isends tr + rest_calls ?mx ?t"
    using assms(2) i(2) by (simp add: rest_calls_step queued_ok_def tr) (simp add: rest_of_def)
  ultimately have "pending m = isends tr + pending m'" by (simp add: ac_simps)
  moreover have "queued_ok (is - {i}) m'"
    using assms(2,3) i unfolding queued_ok_def frame by (auto simp: nth_list_update)
  ultimately show ?thesis by (simp add: frame)
qed

lemma continue_all_run:
  assumes "acts (forA is continue_send) m tr (Inr ()) m'" and "queued_ok (set is) m" and "distinct is"
  shows "queued_ok {} m' \<and> pending m = isends tr + pending m' \<and> im_maxMpiMsgSize m' = im_maxMpiMsgSize m \<and>
    im_irecvs m' = im_irecvs m"
  using assms
proof (induction "is" arbitrary: m tr)
  case Nil
  then show ?case by (simp add: acts_retA)
next
  case (Cons i js)
  then obtain t1 t2 m1 where 1: "tr = t1 @ t2" "acts (continue_send i) m t1 (Inr ()) m1" "acts (forA js continue_send) m1 t2 (Inr ()) m'"
    by (auto simp: acts_bindA)
  have "queued_ok (set (i # js) - {i}) m1 \<and> pending m = isends t1 + pending m1 \<and> im_maxMpiMsgSize m1 = im_maxMpiMsgSize m \<and>
      im_irecvs m1 = im_irecvs m"
    using continue_send_run [OF 1(2) Cons.prems(2)] by simp
  moreover have "set (i # js) - {i} = set js" using Cons.prems(3) by auto
  ultimately show ?case using Cons.IH [OF 1(3)] Cons.prems(3) by (simp add: 1(1) ac_simps)
qed

lemma zip_swap:
  assumes "i < length xs" and "j < length xs" and "length ys = length xs"
  shows "mset (zip (xs[i := xs ! j, j := xs ! i]) (ys[i := ys ! j, j := ys ! i])) = mset (zip xs ys)"
proof -
  have "zip (xs[i := xs ! j, j := xs ! i]) (ys[i := ys ! j, j := ys ! i]) = (zip xs ys)[i := zip xs ys ! j, j := zip xs ys ! i]"
    using assms by (simp add: update_zip)
  moreover have "mset ((zip xs ys)[i := zip xs ys ! j, j := zip xs ys ! i]) = mset (zip xs ys)"
    using assms by (intro mset_swap) simp_all
  ultimately show ?thesis by simp
qed

lemma zip_butlast:
  assumes "xs \<noteq> []" and "length ys = length xs"
  shows "zip xs ys = zip (butlast xs) (butlast ys) @ [(last xs, last ys)]"
proof -
  have "zip (butlast xs @ [last xs]) (butlast ys @ [last ys]) = zip (butlast xs) (butlast ys) @ [(last xs, last ys)]"
    using assms by (subst zip_append) simp_all
  moreover have "ys \<noteq> []" using assms by auto
  ultimately show ?thesis using assms(1) by simp
qed

lemma dequeue_run:
  assumes "dequeue n (rs, ss) = Inr (rs', ss')" and "length ss = length rs" and "n \<le> length rs"
    and "\<And>j. n \<le> j \<Longrightarrow> j < length rs \<Longrightarrow> rs ! j \<noteq> None"
  shows "length ss' = length rs' \<and> None \<notin> set rs' \<and> mset (zip rs' ss') = filter_mset (\<lambda>x. fst x \<noteq> None) (mset (zip rs ss))"
  using assms
proof (induction n arbitrary: rs ss)
  case 0
  have "filter_mset (\<lambda>x. fst x \<noteq> None) (mset (zip rs ss)) = mset (zip rs ss)"
    using 0 by (auto simp: filter_mset_eq_conv set_zip)
  with 0 show ?case by (auto simp: in_set_conv_nth)
next
  case (Suc n)
  then have n: "n < length rs" by simp
  show ?case
  proof (cases "rs ! n = None")
    case False
    have "dequeue n (rs, ss) = Inr (rs', ss')" using Suc.prems(1) n False by simp
    moreover have "rs ! j \<noteq> None" if "n \<le> j" "j < length rs" for j
      using that Suc.prems(4) False by (cases "j = n") auto
    ultimately show ?thesis using Suc.IH Suc.prems(2) n by simp
  next
    case True
    let ?l = "length rs - 1"
    let ?rs = "rs[n := rs ! ?l, ?l := rs ! n]" and ?ss = "ss[n := ss ! ?l, ?l := ss ! n]"
    have l: "?l < length rs" "n \<le> ?l" using n by auto
    have d: "dequeue n (butlast ?rs, butlast ?ss) = Inr (rs', ss')"
      using Suc.prems(1,2) n l True by simp
    have "butlast ?rs ! j \<noteq> None" if "n \<le> j" "j < length (butlast ?rs)" for j
    proof (cases "j = n")
      case j: True
      then have "n < ?l" using that by simp
      then have "rs ! ?l \<noteq> None" using Suc.prems(4) l by simp
      then show ?thesis using j that by (simp add: nth_butlast nth_list_update)
    next
      case False
      then show ?thesis using that Suc.prems(4) [of j] by (simp add: nth_butlast nth_list_update)
    qed
    then have ih: "length ss' = length rs' \<and> None \<notin> set rs' \<and>
        mset (zip rs' ss') = filter_mset (\<lambda>x. fst x \<noteq> None) (mset (zip (butlast ?rs) (butlast ?ss)))"
      using Suc.prems(2) l by (intro Suc.IH [OF d]) simp_all
    have "last ?rs = None" using True l n by (subst last_conv_nth) (auto simp: nth_list_update)
    moreover have "zip ?rs ?ss = zip (butlast ?rs) (butlast ?ss) @ [(last ?rs, last ?ss)]"
      using Suc.prems(2) n by (intro zip_butlast) auto
    ultimately have "filter_mset (\<lambda>x. fst x \<noteq> None) (mset (zip ?rs ?ss)) =
        filter_mset (\<lambda>x. fst x \<noteq> None) (mset (zip (butlast ?rs) (butlast ?ss)))"
      by simp
    moreover have "mset (zip ?rs ?ss) = mset (zip rs ss)"
      using zip_swap [OF n l(1) Suc.prems(2)] Suc.prems(2) by simp
    ultimately show ?thesis using ih by simp
  qed
qed

text \<open>The documented answers of \<open>MPI_Testsome\<close>: different places of requests that are under way.\<close>

fun testsome_ok :: "mpi_call \<times> mpi_reply \<Rightarrow> bool" where
  "testsome_ok (MpiTestsome rs, Completed is) \<longleftrightarrow> distinct is \<and> (\<forall>i \<in> set is. i < length rs \<and> rs ! i \<noteq> None)"
| "testsome_ok _ \<longleftrightarrow> True"

lemma fold_null:
  "length (fold (\<lambda>i rs. rs[i := None]) is rs) = length rs \<and>
   (\<forall>j<length rs. fold (\<lambda>i rs. rs[i := None]) is rs ! j = (if j \<in> set is then None else rs ! j))"
  by (induction "is" arbitrary: rs) (auto simp: nth_list_update)

lemma sum_kept:
  assumes "length ss = length rs" and "\<And>j. j < length rs \<Longrightarrow> rs ! j = None \<Longrightarrow> f (ss ! j) = (0 :: 'b :: comm_monoid_add)"
    and "length ss' = length rs'" and "mset (zip rs' ss') = filter_mset (\<lambda>x. fst x \<noteq> None) (mset (zip rs ss))"
  shows "(\<Sum>s \<in># mset ss'. f s) = (\<Sum>s \<in># mset ss. f s)"
proof -
  let ?M = "mset (zip rs ss)" and ?g = "\<lambda>x. f (snd x)"
  have snds: "(\<Sum>s \<in># mset ys. f s) = (\<Sum>x \<in># mset (zip xs ys). ?g x)" if "length ys = length xs"
    for xs :: "'c option list" and ys
  proof -
    have "mset ys = image_mset snd (mset (zip xs ys))" using that by (simp flip: mset_map)
    then show ?thesis by (simp add: multiset.map_comp comp_def)
  qed
  have "?M = filter_mset (\<lambda>x. fst x \<noteq> None) ?M + filter_mset (\<lambda>x. \<not> fst x \<noteq> None) ?M" by (rule multiset_partition)
  then have "(\<Sum>x \<in># ?M. ?g x) = (\<Sum>x \<in># filter_mset (\<lambda>x. fst x \<noteq> None) ?M. ?g x) +
      (\<Sum>x \<in># filter_mset (\<lambda>x. \<not> fst x \<noteq> None) ?M. ?g x)"
    by (metis image_mset_union sum_mset.union)
  moreover have "(\<Sum>x \<in># filter_mset (\<lambda>x. \<not> fst x \<noteq> None) ?M. ?g x) = 0"
  proof (rule sum_mset.neutral, rule ballI)
    fix y assume "y \<in># image_mset ?g (filter_mset (\<lambda>x. \<not> fst x \<noteq> None) ?M)"
    then obtain x where x: "x \<in> set (zip rs ss)" "fst x = None" "y = f (snd x)" by auto
    then obtain j where "j < length rs" "x = (rs ! j, ss ! j)" using assms(1) by (auto simp: set_zip)
    with x assms(2) show "y = 0" by simp
  qed
  ultimately show ?thesis using snds [OF assms(1)] snds [OF assms(3)] assms(4) by simp
qed

lemma test_sends_run:
  assumes "acts test_sends m tr (Inr ()) m'" and "queued_ok {} m" and "list_all testsome_ok tr"
  shows "queued_ok {} m' \<and> pending m = isends tr + pending m' \<and> im_maxMpiMsgSize m' = im_maxMpiMsgSize m \<and> im_irecvs m' = im_irecvs m"
proof -
  from assms(1) obtain "is" t where tr: "tr = (MpiTestsome (im_largeRequests m), Completed is) # t"
    and rest: "acts (bindA (forA is continue_send) (\<lambda>_. dequeue_sends))
      (m\<lparr>im_largeRequests := fold (\<lambda>i rs. rs[i := None]) is (im_largeRequests m)\<rparr>) t (Inr ()) m'"
    by (auto simp: test_sends_def acts_bind_getA acts_bind_assertA acts_bind_mpiA_ok acts_bind_modA mpi_results split: if_splits)
  let ?m = "m\<lparr>im_largeRequests := fold (\<lambda>i rs. rs[i := None]) is (im_largeRequests m)\<rparr>"
  from rest obtain t1 t2 m2 where t: "t = t1 @ t2" and 1: "acts (forA is continue_send) ?m t1 (Inr ()) m2"
    and 2: "acts dequeue_sends m2 t2 (Inr ()) m'"
    by (auto simp: acts_bindA)
  have "queued_ok (set is) ?m" and "distinct is"
    using assms(2,3) fold_null [of "is" "im_largeRequests m"] by (auto simp: queued_ok_def tr)
  from continue_all_run [OF 1 this] have c: "queued_ok {} m2" "pending ?m = isends t1 + pending m2"
    "im_maxMpiMsgSize m2 = im_maxMpiMsgSize m" "im_irecvs m2 = im_irecvs m" by simp_all
  from 2 obtain rs ss where d: "dequeue (length (im_largeRequests m2)) (im_largeRequests m2, im_largeSends m2) = Inr (rs, ss)"
    and m': "m' = m2\<lparr>im_largeRequests := rs, im_largeSends := ss\<rparr>" "t2 = []"
    by (auto simp: dequeue_sends_def acts_stateA bindE_def split: sum.splits)
  have q: "length (im_largeSends m2) = length (im_largeRequests m2)" using c(1) by (simp add: queued_ok_def)
  from dequeue_run [OF d q] have r: "length ss = length rs" "None \<notin> set rs"
    "mset (zip rs ss) = filter_mset (\<lambda>x. fst x \<noteq> None) (mset (zip (im_largeRequests m2) (im_largeSends m2)))" by simp_all
  have "pending m' = pending m2"
    unfolding pending_def m' using c(1) q r
    by (auto intro!: sum_kept [OF q] rest_calls_small simp: queued_ok_def)
  moreover have "queued_ok {} m'"
  proof -
    have "im_maxMpiMsgSize m2 < snd_size (ss ! j)" if "j < length ss" for j
    proof -
      have "(rs ! j, ss ! j) \<in># mset (zip rs ss)" using that r(1) by (auto simp: set_zip)
      then have "(rs ! j, ss ! j) \<in> set (zip (im_largeRequests m2) (im_largeSends m2))" "rs ! j \<noteq> None"
        unfolding r(3) by auto
      then show ?thesis using c(1) unfolding queued_ok_def set_zip by force
    qed
    moreover have "rs ! j \<noteq> None" if "j < length rs" for j using r(2) that nth_mem by metis
    ultimately show ?thesis using c(1) r(1) unfolding queued_ok_def m' by simp
  qed
  ultimately show ?thesis using c by (simp add: tr t m' pending_def)
qed

text \<open>One reception: nothing has arrived, or the next part of the message \<open>tag\<close> is put where it belongs.\<close>

lemma receive_next_acts:
  assumes "acts (receive_next k) m tr (Inr k') m'"
  shows "(tr = [(MpiIprobe, NoMessage)] \<and> k' = k \<and> m' = m) \<or>
    (\<exists>src tag n. let mx = im_maxMpiMsgSize m; i = nat tag; (buf, sz) = im_irecvs m ! i in
       0 \<le> tag \<and> i < length (im_irecvs m) \<and> 0 < sz \<and>
       tr = [(MpiIprobe, Arrived src tag n), (MpiRecv buf (min mx sz) src tag, MpiSuccess)] \<and>
       (if mx < sz then k' = k \<and> m' = m\<lparr>im_irecvs := (im_irecvs m)[i := (buf + mx, sz - mx)]\<rparr> else k' = sub64 k 1 \<and> m' = m))"
proof -
  from assms obtain rep p t where tr: "tr = (MpiIprobe, rep) # t" "probed ''Cannot Probe msg'' rep = Inr p"
    and rest: "acts (case p of None \<Rightarrow> retA k | Some (srcPid, tag, _) \<Rightarrow>
     bindA getA (\<lambda>m. let mx = im_maxMpiMsgSize m in
     bindA (assertA (0 \<le> tag \<and> nat tag < length (im_irecvs m))) (\<lambda>_.
     let (buf, sz) = im_irecvs m ! nat tag in
     bindA (assertA (sz > 0)) (\<lambda>_.
     bindA (mpiA (MpiRecv buf (min mx sz) srcPid tag) (succeeded ''Cannot Recv msg'')) (\<lambda>_.
     if sz > mx
     then bindA (modA (\<lambda>m. m\<lparr>im_irecvs := (im_irecvs m)[nat tag := (buf + mx, sz - mx)]\<rparr>)) (\<lambda>_. retA k)
     else retA (sub64 k 1)))))) m t (Inr k') m'"
    unfolding receive_next_def acts_bind_mpiA_ok by blast
  show ?thesis
  proof (cases p)
    case None
    with tr rest show ?thesis by (simp add: acts_retA mpi_results)
  next
    case (Some x)
    obtain src tag n where x: "x = (src, tag, n)" by (cases x)
    obtain buf sz where b: "im_irecvs m ! nat tag = (buf, sz)" by fastforce
    have "0 \<le> tag \<and> nat tag < length (im_irecvs m) \<and> 0 < sz \<and>
       tr = [(MpiIprobe, Arrived src tag n), (MpiRecv buf (min (im_maxMpiMsgSize m) sz) src tag, MpiSuccess)] \<and>
       (if im_maxMpiMsgSize m < sz then k' = k \<and> m' = m\<lparr>im_irecvs := (im_irecvs m)[nat tag := (buf + im_maxMpiMsgSize m, sz - im_maxMpiMsgSize m)]\<rparr>
        else k' = sub64 k 1 \<and> m' = m)"
      using tr rest unfolding Some x
      by (auto simp: Let_def acts_bind_getA acts_bind_assertA acts_bind_mpiA_ok acts_bind_modA acts_retA mpi_results acts_if b
          split: if_splits)
    then show ?thesis
      by (intro disjI2 exI [of _ src] exI [of _ tag] exI [of _ n]) (simp add: b)
  qed
qed

lemma receive_next_run:
  assumes "acts (receive_next k) m tr (Inr k') m'"
  shows "isends tr = {#} \<and> pending m' = pending m \<and> (queued_ok {} m' \<longleftrightarrow> queued_ok {} m)"
  using receive_next_acts [OF assms]
  by (auto simp: Let_def pending_def queued_ok_def split: if_splits prod.splits)

lemma wait_loop_sends:
  assumes "acts (wait_loop n k) m tr (Inr ()) m'" and "queued_ok {} m" and "list_all testsome_ok tr"
  shows "pending m = isends tr \<and> im_largeSends m' = []"
  using assms
proof (induction n arbitrary: k m tr)
  case 0
  then show ?case by (simp add: acts_throwA)
next
  case (Suc n)
  show ?case
  proof (cases "k > 0 \<or> im_largeSends m \<noteq> []")
    case False
    then show ?thesis using Suc.prems(1) by (auto simp: acts_bind_getA acts_retA pending_def)
  next
    case True
    then obtain t1 t2 t3 m1 m2 k' where t: "tr = t1 @ t2 @ t3" and 1: "acts test_sends m t1 (Inr ()) m1"
      and 2: "acts (receive_next k) m1 t2 (Inr k') m2" and 3: "acts (wait_loop n k') m2 t3 (Inr ()) m'"
      using Suc.prems(1) by (auto simp: acts_bind_getA acts_bindA [of test_sends] acts_bindA [of "receive_next _"])
    have ok: "list_all testsome_ok t1" "list_all testsome_ok t3" using Suc.prems(3) by (simp_all add: t)
    have "queued_ok {} m1 \<and> pending m = isends t1 + pending m1" using test_sends_run [OF 1 Suc.prems(2) ok(1)] by simp
    moreover have "isends t2 = {#} \<and> pending m2 = pending m1 \<and> (queued_ok {} m2 \<longleftrightarrow> queued_ok {} m1)"
      by (rule receive_next_run [OF 2])
    ultimately show ?thesis using Suc.IH [OF 3 _ ok(2)] by (simp add: t)
  qed
qed

section \<open>Receptions\<close>

text \<open>The parts of the message \<open>tag\<close> that are received in a trace, and those that are to come when the messages in \<open>F\<close> are complete.\<close>

fun received_part :: "int \<Rightarrow> mpi_call \<Rightarrow> (addr \<times> nat) list" where
  "received_part tag (MpiRecv buf n src t) = (if t = tag then [(buf, n)] else [])"
| "received_part tag _ = []"

definition recvs :: "int \<Rightarrow> (mpi_call \<times> mpi_reply) list \<Rightarrow> (addr \<times> nat) list" where
  "recvs tag tr = concat (List.map (\<lambda>e. received_part tag (fst e)) tr)"

lemma recvs_simps [simp]:
  "recvs tag [] = []" "recvs tag (e # tr) = received_part tag (fst e) @ recvs tag tr" "recvs tag (t1 @ t2) = recvs tag t1 @ recvs tag t2"
  by (simp_all add: recvs_def)

definition to_come :: "messages \<Rightarrow> nat set \<Rightarrow> nat \<Rightarrow> (addr \<times> nat) list" where
  "to_come m F t = (if t \<in> F then [] else parts_of (im_maxMpiMsgSize m) (fst (im_irecvs m ! t)) (snd (im_irecvs m ! t)))"

definition incomplete :: "messages \<Rightarrow> nat set \<Rightarrow> nat set" where
  "incomplete m F = {t. t < length (im_irecvs m) \<and> t \<notin> F \<and> 0 < snd (im_irecvs m ! t)}"

lemma calls_mpiA [calls_rules]: "P q \<Longrightarrow> calls P (mpiA q f)"
  unfolding mpiA_def by (intro calls_rules) auto

lemma keeps_mpiA [keeps_rules]: "keeps P (mpiA q f)"
  unfolding mpiA_def by (intro keeps_rules)

lemma calls_test_sends: "calls (\<lambda>q. received_part tag q = []) test_sends"
  unfolding test_sends_def continue_send_def dequeue_sends_def Let_def
  by (intro calls_rules) simp_all

lemma keeps_test_sends: "keeps (\<lambda>m. im_irecvs m = x \<and> im_maxMpiMsgSize m = mx) test_sends"
  unfolding test_sends_def continue_send_def dequeue_sends_def Let_def
  by (intro keeps_rules) (auto simp: bindE_def split: sum.splits)

lemma no_recvs: "calls (\<lambda>q. received_part tag q = []) a \<Longrightarrow> acts a s tr r s' \<Longrightarrow> recvs tag tr = []"
  by (auto simp: recvs_def dest: callsD)

lemma receive_step:
  assumes "acts (receive_next k) m tr (Inr k') m'" and "0 < im_maxMpiMsgSize m" and "length (im_irecvs m) \<le> SIZE_MAX"
    and "k = card (incomplete m F)" and "\<And>t. t < length (im_irecvs m) \<Longrightarrow> length (recvs (int t) tr) \<le> length (to_come m F t)"
  shows "\<exists>F'. k' = card (incomplete m' F') \<and> im_maxMpiMsgSize m' = im_maxMpiMsgSize m \<and>
    length (im_irecvs m') = length (im_irecvs m) \<and>
    (\<forall>t<length (im_irecvs m). to_come m F t = recvs (int t) tr @ to_come m' F' t)"
  using receive_next_acts [OF assms(1)]
proof (elim disjE exE)
  assume "tr = [(MpiIprobe, NoMessage)] \<and> k' = k \<and> m' = m"
  then show ?thesis using assms(4) by (intro exI [of _ F]) simp
next
  fix src tag n
  let ?i = "nat tag" and ?mx = "im_maxMpiMsgSize m"
  obtain buf sz where b: "im_irecvs m ! ?i = (buf, sz)" by fastforce
  assume "let mx = im_maxMpiMsgSize m; i = nat tag; (buf, sz) = im_irecvs m ! i in
     0 \<le> tag \<and> i < length (im_irecvs m) \<and> 0 < sz \<and>
     tr = [(MpiIprobe, Arrived src tag n), (MpiRecv buf (min mx sz) src tag, MpiSuccess)] \<and>
     (if mx < sz then k' = k \<and> m' = m\<lparr>im_irecvs := (im_irecvs m)[i := (buf + mx, sz - mx)]\<rparr> else k' = sub64 k 1 \<and> m' = m)"
  then have i: "0 \<le> tag" "?i < length (im_irecvs m)" "0 < sz"
    and tr: "tr = [(MpiIprobe, Arrived src tag n), (MpiRecv buf (min ?mx sz) src tag, MpiSuccess)]"
    and m': "if ?mx < sz then k' = k \<and> m' = m\<lparr>im_irecvs := (im_irecvs m)[?i := (buf + ?mx, sz - ?mx)]\<rparr> else k' = sub64 k 1 \<and> m' = m"
    by (simp_all add: b Let_def)
  have r: "recvs (int t) tr = (if t = ?i then [(buf, min ?mx sz)] else [])" for t
    using i(1) by (auto simp: tr)
  have F: "?i \<notin> F"
    using assms(5) [OF i(2)] unfolding r by (auto simp: to_come_def split: if_splits)
  have come: "to_come m F ?i = (buf, min ?mx sz) # parts_of ?mx (buf + ?mx) (sz - ?mx)"
    using F i(3) assms(2) by (simp add: to_come_def b parts_of_step)
  show ?thesis
  proof (cases "?mx < sz")
    case True
    then have k: "k' = k" and m: "m' = m\<lparr>im_irecvs := (im_irecvs m)[?i := (buf + ?mx, sz - ?mx)]\<rparr>" using m' by simp_all
    have "incomplete m' F = incomplete m F" using True b i(2,3) by (auto simp: incomplete_def m nth_list_update)
    moreover have "to_come m F t = recvs (int t) tr @ to_come m' F t" if "t < length (im_irecvs m)" for t
      unfolding r using come F i(2) by (cases "t = ?i") (simp_all add: m to_come_def)
    ultimately show ?thesis using assms(4) k by (intro exI [of _ F]) (simp add: m)
  next
    case False
    then have k: "k' = sub64 k 1" and m: "m' = m" using m' by simp_all
    have in_F: "?i \<in> incomplete m F" using F i(2,3) b by (simp add: incomplete_def)
    moreover have "finite (incomplete m F)" by (simp add: incomplete_def)
    moreover have "incomplete m F \<subseteq> {..<length (im_irecvs m)}" by (auto simp: incomplete_def)
    then have "card (incomplete m F) \<le> length (im_irecvs m)" using card_mono [of "{..<length (im_irecvs m)}"] by simp
    ultimately have c: "0 < card (incomplete m F)" "card (incomplete m F) \<le> SIZE_MAX" "card (incomplete m F - {?i}) = card (incomplete m F) - 1"
      using assms(3) by (auto simp: card_gt_0_iff)
    have "k' = card (incomplete m F - {?i})"
      unfolding k assms(4) c(3) using c(1,2) by (intro sub64_plain) simp_all
    moreover have "incomplete m F - {?i} = incomplete m' (insert ?i F)" by (auto simp: incomplete_def m)
    moreover have "to_come m F t = recvs (int t) tr @ to_come m' (insert ?i F) t" if "t < length (im_irecvs m)" for t
      unfolding r using come False by (cases "t = ?i") (simp_all add: m to_come_def)
    ultimately show ?thesis by (intro exI [of _ "insert ?i F"]) (simp add: m)
  qed
qed

lemma wait_loop_recvs:
  assumes "acts (wait_loop n k) m tr (Inr ()) m'" and "0 < im_maxMpiMsgSize m" and "length (im_irecvs m) \<le> SIZE_MAX"
    and "k = card (incomplete m F)" and "\<And>t. t < length (im_irecvs m) \<Longrightarrow> length (recvs (int t) tr) \<le> length (to_come m F t)"
    and "t < length (im_irecvs m)"
  shows "recvs (int t) tr = to_come m F t"
  using assms
proof (induction n arbitrary: k m F tr)
  case 0
  then show ?case by (simp add: acts_throwA)
next
  case (Suc n)
  have fin: "finite (incomplete m F)" by (simp add: incomplete_def)
  show ?case
  proof (cases "k > 0 \<or> im_largeSends m \<noteq> []")
    case False
    then have "tr = []" "incomplete m F = {}" using Suc.prems(1,4) fin by (auto simp: acts_bind_getA acts_retA)
    moreover from this have "to_come m F t = []" using Suc.prems(6) by (auto simp: to_come_def incomplete_def)
    ultimately show ?thesis by simp
  next
    case True
    then obtain t1 t2 t3 m1 m2 k' where tr: "tr = t1 @ t2 @ t3" and 1: "acts test_sends m t1 (Inr ()) m1"
      and 2: "acts (receive_next k) m1 t2 (Inr k') m2" and 3: "acts (wait_loop n k') m2 t3 (Inr ()) m'"
      using Suc.prems(1) by (auto simp: acts_bind_getA acts_bindA [of test_sends] acts_bindA [of "receive_next _"])
    have none: "recvs tag t1 = []" for tag by (rule no_recvs [OF calls_test_sends 1])
    have m1: "im_irecvs m1 = im_irecvs m" "im_maxMpiMsgSize m1 = im_maxMpiMsgSize m"
      using keepsD [OF keeps_test_sends 1, of "im_irecvs m" "im_maxMpiMsgSize m"] by simp_all
    then have same: "incomplete m1 F = incomplete m F" "to_come m1 F = to_come m F"
      by (auto simp: incomplete_def to_come_def fun_eq_iff)
    have le: "length (recvs (int u) t2) + length (recvs (int u) t3) \<le> length (to_come m F u)" if "u < length (im_irecvs m)" for u
      using Suc.prems(5) [OF that] by (simp add: tr none)
    have "\<exists>F'. k' = card (incomplete m2 F') \<and> im_maxMpiMsgSize m2 = im_maxMpiMsgSize m1 \<and>
        length (im_irecvs m2) = length (im_irecvs m1) \<and>
        (\<forall>t<length (im_irecvs m1). to_come m1 F t = recvs (int t) t2 @ to_come m2 F' t)"
      using Suc.prems(2-4) le by (intro receive_step [OF 2]) (auto simp: m1 same intro: order_trans [OF le_add1])
    then obtain F' where F': "k' = card (incomplete m2 F')" "im_maxMpiMsgSize m2 = im_maxMpiMsgSize m"
        "length (im_irecvs m2) = length (im_irecvs m)"
        "\<And>u. u < length (im_irecvs m) \<Longrightarrow> to_come m F u = recvs (int u) t2 @ to_come m2 F' u"
      unfolding m1 same by blast
    have "recvs (int t) t3 = to_come m2 F' t"
    proof (rule Suc.IH [OF 3 _ _ F'(1)])
      show "length (recvs (int u) t3) \<le> length (to_come m2 F' u)" if "u < length (im_irecvs m2)" for u
        using le [of u] F'(4) [of u] that F'(3) by simp
    qed (use Suc.prems F' in simp_all)
    then show ?thesis using F'(4) [OF Suc.prems(6)] by (simp add: tr none)
  qed
qed

section \<open>An exchange of messages\<close>

text \<open>Messages are sent and received from an object that is idle, and all of them are waited for.\<close>

definition idle :: "messages \<Rightarrow> bool" where
  "idle m \<longleftrightarrow> im_imsgs m = [] \<and> im_irecvs m = [] \<and> im_emptyRecvs m = 0 \<and> im_largeSends m = [] \<and> im_largeRequests m = []"

definition exchange ::
  "nat \<Rightarrow> (addr \<times> nat \<times> int \<times> int) list \<Rightarrow> (addr \<times> nat \<times> int) list \<Rightarrow> (messages, unit) mpi" where
  "exchange n out inc =
     bindA (forA out (\<lambda>(buf, bytes, dst, tag). isend buf bytes dst tag)) (\<lambda>_.
     bindA (forA inc (\<lambda>(buf, bytes, tag). irecv buf bytes tag)) (\<lambda>_. iwaitall n))"

definition receptions_ok :: "messages \<Rightarrow> bool" where
  "receptions_ok m \<longleftrightarrow> im_emptyRecvs m = length (filter (\<lambda>x. snd x = 0) (im_irecvs m))"

lemma receptions_count:
  assumes "receptions_ok m"
  shows "length (im_irecvs m) - im_emptyRecvs m = card (incomplete m {})"
proof -
  have "length (filter (\<lambda>x. snd x = 0) xs) + card {i. i < length xs \<and> 0 < snd (xs ! i)} = length xs" for xs :: "(addr \<times> nat) list"
    using sum_length_filter_compl [of "\<lambda>x. snd x = 0" xs] by (simp add: length_filter_conv_card)
  then show ?thesis using assms by (simp add: receptions_ok_def incomplete_def) (metis add_diff_cancel_left')
qed

lemma isend_run:
  assumes "acts (isend buf bytes dst tag) m tr (Inr ()) m'" and "queued_ok {} m"
  shows "queued_ok {} m' \<and> pending m + send_calls (im_maxMpiMsgSize m) buf bytes dst tag = isends tr + pending m' \<and>
    im_maxMpiMsgSize m' = im_maxMpiMsgSize m \<and> im_irecvs m' = im_irecvs m \<and> im_emptyRecvs m' = im_emptyRecvs m"
  using assms
  by (auto simp: isend_def Let_def acts_bind_getA acts_bind_if acts_bind_assertA acts_bind_mpiA_ok acts_bind_bindA acts_bind_modA acts_modA
      acts_bind_retA acts_retA acts_if mpi_results pending_def queued_ok_def rest_calls_def send_calls_def parts_of_step nth_append
      split: if_splits)

lemma isends_run:
  assumes "acts (forA out (\<lambda>(buf, bytes, dst, tag). isend buf bytes dst tag)) m tr (Inr ()) m'" and "queued_ok {} m"
  shows "queued_ok {} m' \<and> im_maxMpiMsgSize m' = im_maxMpiMsgSize m \<and> im_irecvs m' = im_irecvs m \<and> im_emptyRecvs m' = im_emptyRecvs m \<and>
    pending m + (\<Sum>(buf, bytes, dst, tag) \<leftarrow> out. send_calls (im_maxMpiMsgSize m) buf bytes dst tag) = isends tr + pending m'"
  using assms
proof (induction out arbitrary: m tr)
  case Nil
  then show ?case by (simp add: acts_retA)
next
  case (Cons x out)
  obtain buf bytes dst tag where x: "x = (buf, bytes, dst, tag)" by (cases x)
  from Cons.prems(1) obtain t1 t2 m1 where tr: "tr = t1 @ t2" and 1: "acts (isend buf bytes dst tag) m t1 (Inr ()) m1"
    and 2: "acts (forA out (\<lambda>(buf, bytes, dst, tag). isend buf bytes dst tag)) m1 t2 (Inr ()) m'"
    by (auto simp: acts_bindA x)
  from isend_run [OF 1 Cons.prems(2)] Cons.IH [OF 2] show ?case
    by (simp add: x tr) (metis add.assoc)
qed

lemma irecvs_run:
  assumes "acts (forA inc (\<lambda>(buf, bytes, tag). irecv buf bytes tag)) m tr (Inr ()) m'" and "receptions_ok m"
  shows "receptions_ok m' \<and> im_irecvs m' = im_irecvs m @ List.map (\<lambda>(buf, bytes, tag). (buf, bytes)) inc \<and> tr = [] \<and>
    pending m' = pending m \<and> (queued_ok {} m' \<longleftrightarrow> queued_ok {} m) \<and> im_maxMpiMsgSize m' = im_maxMpiMsgSize m \<and>
    List.map (\<lambda>(buf, bytes, tag). tag) inc = List.map int [length (im_irecvs m)..<length (im_irecvs m')]"
  using assms
proof (induction inc arbitrary: m tr)
  case Nil
  then show ?case by (simp add: acts_retA)
next
  case (Cons x inc)
  obtain buf bytes tag where x: "x = (buf, bytes, tag)" by (cases x)
  let ?m = "m\<lparr>im_irecvs := im_irecvs m @ [(buf, bytes)],
    im_emptyRecvs := (if bytes = 0 then im_emptyRecvs m + 1 else im_emptyRecvs m)\<rparr>"
  from Cons.prems(1) have tag: "tag = int (length (im_irecvs m))"
    and 2: "acts (forA inc (\<lambda>(buf, bytes, tag). irecv buf bytes tag)) ?m tr (Inr ()) m'"
    by (auto simp: x irecv_def acts_bind_bindA acts_bind_assertA acts_bind_getA acts_bind_modA split: if_splits)
  have "receptions_ok ?m" using Cons.prems(2) by (simp add: receptions_ok_def)
  from Cons.IH [OF 2 this] have ih: "receptions_ok m'" "im_irecvs m' = (im_irecvs m @ [(buf, bytes)]) @ List.map (\<lambda>(buf, bytes, tag). (buf, bytes)) inc"
    "tr = []" "pending m' = pending ?m" "queued_ok {} m' \<longleftrightarrow> queued_ok {} ?m" "im_maxMpiMsgSize m' = im_maxMpiMsgSize m"
    "List.map (\<lambda>(buf, bytes, tag). tag) inc = List.map int [Suc (length (im_irecvs m))..<length (im_irecvs m')]"
    by simp_all
  have "[length (im_irecvs m)..<length (im_irecvs m')] = length (im_irecvs m) # [Suc (length (im_irecvs m))..<length (im_irecvs m')]"
    using ih(2) by (intro upt_conv_Cons) simp
  then show ?case using ih by (simp add: x tag pending_def queued_ok_def)
qed

lemma iwaitall_run:
  assumes "acts (iwaitall n) m tr (Inr ()) m'"
  shows "\<exists>t m1. acts (wait_loop n (length (im_irecvs m) - im_emptyRecvs m)) m t (Inr ()) m1 \<and> idle m' \<and>
    im_maxMpiMsgSize m' = im_maxMpiMsgSize m1 \<and>
    tr = t @ [(MpiWaitall (im_imsgs m1), MpiSuccess), (MpiBarrier, MpiSuccess)]"
proof -
  from assms obtain t t2 m1 where t: "tr = t @ t2" "acts (wait_loop n (length (im_irecvs m) - im_emptyRecvs m)) m t (Inr ()) m1"
    and 2: "acts (bindA getA (\<lambda>m.
     bindA (assertA (im_largeSends m = [])) (\<lambda>_.
     bindA (assertA (im_largeRequests m = [])) (\<lambda>_.
     bindA (modA (\<lambda>m. m\<lparr>im_irecvs := [], im_emptyRecvs := 0\<rparr>)) (\<lambda>_.
     bindA (mpiA (MpiWaitall (im_imsgs m)) (succeeded ''A nonblocking message failed'')) (\<lambda>_.
     bindA (modA (\<lambda>m. m\<lparr>im_imsgs := []\<rparr>)) (\<lambda>_.
     mpiA MpiBarrier (succeeded ''An MPI Barrier failed''))))))) ) m1 t2 (Inr ()) m'"
    unfolding iwaitall_def acts_bind_getA acts_bindA [of "wait_loop _ _"] by auto
  from 2 have "t2 = [(MpiWaitall (im_imsgs m1), MpiSuccess), (MpiBarrier, MpiSuccess)] \<and> idle m' \<and>
      im_maxMpiMsgSize m' = im_maxMpiMsgSize m1"
    by (auto simp: acts_bind_getA acts_bind_assertA acts_bind_modA acts_bind_mpiA_ok acts_mpiA mpi_results idle_def
        dest!: sym [of "Inr ()"] split: if_splits)
  with t show ?thesis by blast
qed

lemma recvs_posted:
  assumes "acts (forA out (\<lambda>(buf, bytes, dst, tag). isend buf bytes dst tag)) m tr r m'"
  shows "recvs t tr = []"
proof (rule no_recvs [OF _ assms])
  show "calls (\<lambda>q. received_part t q = []) (forA out (\<lambda>(buf, bytes, dst, tag). isend buf bytes dst tag))"
    unfolding isend_def Let_def by (intro calls_rules) (auto intro!: calls_rules)
qed

text \<open>
  C8: An exchange of messages by \<open>isend\<close>, \<open>irecv\<close> and \<open>iwaitall\<close> on an idle object, when it returns: the calls that send are
  exactly the parts of the messages, each once; for every message that is received the calls fill its buffer
  part by part, from the start to the end; and the object is idle again.  The hypotheses are that \<open>MPI_Testsome\<close> answers as
  documented, and that no sender sends more parts than the receiver expects.
\<close>

theorem messages_exchanged:
  assumes "idle m" and "0 < im_maxMpiMsgSize m" and "length inc \<le> SIZE_MAX"
    and "acts (exchange n out inc) m tr (Inr ()) m'"
    and "list_all testsome_ok tr"
    and "\<forall>i<length inc. case inc ! i of (buf, bytes, tag) \<Rightarrow> length (recvs (int i) tr) \<le> length (parts_of (im_maxMpiMsgSize m) buf bytes)"
  shows "isends tr = (\<Sum>(buf, bytes, dst, tag) \<leftarrow> out. send_calls (im_maxMpiMsgSize m) buf bytes dst tag) \<and>
    (\<forall>i<length inc. case inc ! i of (buf, bytes, tag) \<Rightarrow> tag = int i \<and> recvs (int i) tr = parts_of (im_maxMpiMsgSize m) buf bytes) \<and>
    idle m'"
proof -
  let ?mx = "im_maxMpiMsgSize m"
  from assms(4) obtain t1 t2 t3 m1 m2 where tr: "tr = t1 @ t2 @ t3"
    and 1: "acts (forA out (\<lambda>(buf, bytes, dst, tag). isend buf bytes dst tag)) m t1 (Inr ()) m1"
    and 2: "acts (forA inc (\<lambda>(buf, bytes, tag). irecv buf bytes tag)) m1 t2 (Inr ()) m2"
    and 3: "acts (iwaitall n) m2 t3 (Inr ()) m'"
    unfolding exchange_def acts_bindA [of "forA _ _"] by auto
  have start: "queued_ok {} m" "pending m = {#}" "receptions_ok m" "im_irecvs m = []"
    using assms(1,2) by (simp_all add: idle_def queued_ok_def pending_def receptions_ok_def)
  from isends_run [OF 1 start(1)] have i1: "queued_ok {} m1" "im_maxMpiMsgSize m1 = ?mx" "im_irecvs m1 = []"
    "im_emptyRecvs m1 = im_emptyRecvs m"
    "(\<Sum>(buf, bytes, dst, tag) \<leftarrow> out. send_calls ?mx buf bytes dst tag) = isends t1 + pending m1"
    by (simp_all add: start)
  have "receptions_ok m1" using start i1 by (simp add: receptions_ok_def)
  from irecvs_run [OF 2 this] have i2: "receptions_ok m2" "im_irecvs m2 = List.map (\<lambda>(buf, bytes, tag). (buf, bytes)) inc"
    "t2 = []" "pending m2 = pending m1" "queued_ok {} m2" "im_maxMpiMsgSize m2 = ?mx"
    "List.map (\<lambda>(buf, bytes, tag). tag) inc = List.map int [0..<length inc]"
    by (simp_all add: i1)
  from iwaitall_run [OF 3] obtain t m3 where 4: "acts (wait_loop n (length (im_irecvs m2) - im_emptyRecvs m2)) m2 t (Inr ()) m3"
    and m': "idle m'" and t3: "t3 = t @ [(MpiWaitall (im_imsgs m3), MpiSuccess), (MpiBarrier, MpiSuccess)]"
    by blast
  have ok: "list_all testsome_ok t" using assms(5) by (simp add: tr t3)
  have "pending m2 = isends t" using wait_loop_sends [OF 4 i2(5) ok] by simp
  then have sends: "isends tr = (\<Sum>(buf, bytes, dst, tag) \<leftarrow> out. send_calls ?mx buf bytes dst tag)"
    by (simp add: tr i2 t3 i1(5))
  have recvs: "recvs i tr = recvs i t" for i by (simp add: tr i2 t3 recvs_posted [OF 1])
  have come: "to_come m2 {} i = (case inc ! i of (buf, bytes, tag) \<Rightarrow> parts_of ?mx buf bytes)" if "i < length inc" for i
    using that by (simp add: to_come_def i2 split: prod.split)
  have count: "length (im_irecvs m2) - im_emptyRecvs m2 = card (incomplete m2 {})" by (rule receptions_count [OF i2(1)])
  have "recvs (int i) t = to_come m2 {} i" if "i < length inc" for i
  proof (rule wait_loop_recvs [OF 4 _ _ count])
    show "length (recvs (int u) t) \<le> length (to_come m2 {} u)" if "u < length (im_irecvs m2)" for u
    proof -
      have u: "u < length inc" using that by (simp add: i2)
      show ?thesis using assms(6) [rule_format, OF u] come [OF u] by (cases "inc ! u") (simp add: recvs)
    qed
  qed (use assms(2,3) that i2 in simp_all)
  moreover have "(case inc ! i of (buf, bytes, tag) \<Rightarrow> tag) = int i" if "i < length inc" for i
    using arg_cong [OF i2(7), of "\<lambda>l. l ! i"] that by simp
  ultimately have "case inc ! i of (buf, bytes, tag) \<Rightarrow> tag = int i \<and> recvs (int i) tr = parts_of ?mx buf bytes" if "i < length inc" for i
    using that come [OF that] by (cases "inc ! i") (fastforce simp: recvs)
  then show ?thesis using sends m' by blast
qed

definition demo_messages :: messages where
  "demo_messages = \<lparr>im_maxMpiMsgSize = 2, im_imsgs = [], im_irecvs = [], im_emptyRecvs = 0, im_largeSends = [],
     im_largeRequests = [], im_sendIndices = 1\<rparr>"

text \<open>A message of three bytes that a process sends to itself, with parts of two bytes.\<close>

definition demo_exchange :: "(mpi_call \<times> mpi_reply) list" where
  "demo_exchange =
    [(MpiIsend 10 2 0 0, Request 1), (MpiTestsome [Some 1], Completed [0]), (MpiIsend 12 1 0 0, Request 2),
     (MpiIprobe, Arrived 0 0 2), (MpiRecv 20 2 0 0, MpiSuccess), (MpiTestsome [], Completed []), (MpiIprobe, NoMessage),
     (MpiTestsome [], Completed []), (MpiIprobe, Arrived 0 0 1), (MpiRecv 22 1 0 0, MpiSuccess),
     (MpiWaitall [Some 2], MpiSuccess), (MpiBarrier, MpiSuccess)]"

lemma demo_exchange_run: "acts (exchange (Suc (Suc (Suc (Suc 0)))) [(10, 3, 0, 0)] [(20, 3, 0)]) demo_messages demo_exchange (Inr ()) demo_messages"
  by (simp add: exchange_def isend_def irecv_def iwaitall_def test_sends_def continue_send_def dequeue_sends_def receive_next_def Let_def
      rest_of_def demo_messages_def demo_exchange_def mpiA_def act_defs request_of_def completed_def succeeded_def probed_def sub64_def
      vec_set_def vec_swap_def vec_at_def)

theorem messages_exchanged_witness:
  "isends demo_exchange = {#MpiIsend 10 2 0 0, MpiIsend 12 1 0 0#} \<and> recvs 0 demo_exchange = [(20, 2), (22, 1)]"
proof -
  have "isends demo_exchange = (\<Sum>(buf, bytes, dst, tag) \<leftarrow> [(10, 3, 0, 0)]. send_calls (im_maxMpiMsgSize demo_messages) buf bytes dst tag) \<and>
    (\<forall>i<length [(20 :: nat, 3 :: nat, 0 :: int)]. case [(20, 3, 0 :: int)] ! i of (buf, bytes, tag) \<Rightarrow>
       tag = int i \<and> recvs (int i) demo_exchange = parts_of (im_maxMpiMsgSize demo_messages) buf bytes) \<and> idle demo_messages"
    by (rule messages_exchanged [OF _ _ _ demo_exchange_run])
      (simp_all add: idle_def demo_messages_def SIZE_MAX_def demo_exchange_def parts_of_step)
  then show ?thesis by (simp add: demo_messages_def send_calls_def parts_of_step)
qed

section \<open>The end of the wait\<close>

text \<open>The polls that find nothing, and the parts that are received.\<close>

definition idle_polls :: "(mpi_call \<times> mpi_reply) list \<Rightarrow> nat" where
  "idle_polls tr = length (filter (\<lambda>e. e = (MpiIprobe, NoMessage)) tr)"

fun is_recv :: "mpi_call \<Rightarrow> bool" where
  "is_recv (MpiRecv _ _ _ _) = True"
| "is_recv _ = False"

definition parts_received :: "(mpi_call \<times> mpi_reply) list \<Rightarrow> nat" where
  "parts_received tr = length (filter (\<lambda>e. is_recv (fst e)) tr)"

text \<open>
  MPI at work: every call succeeds and is answered as documented.  \<open>arrivals\<close> counts the parts of the message \<open>tag\<close> that a
  probe has found.
\<close>

fun mpi_ok :: "mpi_call \<times> mpi_reply \<Rightarrow> bool" where
  "mpi_ok (MpiIsend _ _ _ _, Request _) \<longleftrightarrow> True"
| "mpi_ok (MpiTestsome rs, Completed is) \<longleftrightarrow> distinct is \<and> (\<forall>i \<in> set is. i < length rs \<and> rs ! i \<noteq> None)"
| "mpi_ok (MpiIprobe, NoMessage) \<longleftrightarrow> True"
| "mpi_ok (MpiIprobe, Arrived _ _ _) \<longleftrightarrow> True"
| "mpi_ok (MpiRecv _ _ _ _, MpiSuccess) \<longleftrightarrow> True"
| "mpi_ok (MpiWaitall _, MpiSuccess) \<longleftrightarrow> True"
| "mpi_ok (MpiBarrier, MpiSuccess) \<longleftrightarrow> True"
| "mpi_ok _ \<longleftrightarrow> False"

fun arrives :: "int \<Rightarrow> mpi_call \<times> mpi_reply \<Rightarrow> bool" where
  "arrives tag (MpiIprobe, Arrived _ t _) \<longleftrightarrow> t = tag"
| "arrives tag _ \<longleftrightarrow> False"

definition arrivals :: "int \<Rightarrow> (mpi_call \<times> mpi_reply) list \<Rightarrow> nat" where
  "arrivals tag tr = length (filter (arrives tag) tr)"

lemma arrivals_simps [simp]:
  "arrivals tag [] = 0" "arrivals tag (e # tr) = (if arrives tag e then 1 else 0) + arrivals tag tr"
  "arrivals tag (t1 @ t2) = arrivals tag t1 + arrivals tag t2"
  by (simp_all add: arrivals_def)

lemma mpi_ok_testsome: "list_all mpi_ok tr \<Longrightarrow> list_all testsome_ok tr"
proof -
  have "mpi_ok e \<Longrightarrow> testsome_ok e" for e by (induction e rule: mpi_ok.induct) simp_all
  then show "list_all mpi_ok tr \<Longrightarrow> list_all testsome_ok tr" by (auto simp: list_all_iff)
qed

lemma mpi_ok_iff:
  "mpi_ok (MpiIsend a n d t, r) \<longleftrightarrow> (\<exists>h. r = Request h)"
  "mpi_ok (MpiTestsome rs, r) \<longleftrightarrow> (\<exists>is. r = Completed is \<and> distinct is \<and> (\<forall>i \<in> set is. i < length rs \<and> rs ! i \<noteq> None))"
  "mpi_ok (MpiIprobe, r) \<longleftrightarrow> r = NoMessage \<or> (\<exists>src t n. r = Arrived src t n)"
  "mpi_ok (MpiRecv a n d t, r) \<longleftrightarrow> r = MpiSuccess" "mpi_ok (MpiWaitall qs, r) \<longleftrightarrow> r = MpiSuccess"
  "mpi_ok (MpiBarrier, r) \<longleftrightarrow> r = MpiSuccess"
  by (cases r; simp)+

lemma acts_bind_mpi_ok:
  assumes "acts (bindA m f) s tr r s'" and "list_all mpi_ok tr"
    and "\<And>t r1 s1. acts m s t r1 s1 \<Longrightarrow> list_all mpi_ok t \<Longrightarrow> \<exists>x. r1 = Inr x"
  obtains t1 t2 x s1 where "tr = t1 @ t2" and "acts m s t1 (Inr x) s1" and "acts (f x) s1 t2 r s'"
    and "list_all mpi_ok t1" and "list_all mpi_ok t2"
  using assms(1) unfolding acts_bindA
proof (elim disjE exE conjE)
  fix e assume "acts m s tr (Inl e) s'"
  then show thesis using assms(2,3) by blast
next
  fix x s1 t1 t2 assume "acts m s t1 (Inr x) s1" "acts (f x) s1 t2 r s'" "tr = t1 @ t2"
  then show thesis using that assms(2) by simp
qed

text \<open>A state in which nothing can go wrong but MPI itself.\<close>

definition sendable :: "messages \<Rightarrow> bool" where
  "sendable m \<longleftrightarrow> (\<forall>s \<in> set (im_largeSends m). 0 \<le> snd_tag s)"

lemma continue_send_ok:
  assumes "acts (continue_send i) m tr r m'" and "queued_ok is m" and "i \<in> is" and "i < length (im_largeSends m)" and "sendable m"
    and "list_all mpi_ok tr"
  shows "r = Inr () \<and> sendable m' \<and> length (im_largeRequests m') = length (im_largeRequests m) \<and> im_sendIndices m' = im_sendIndices m"
proof -
  let ?mx = "im_maxMpiMsgSize m" and ?s = "im_largeSends m ! i"
  have i: "?mx < snd_size ?s" "i < length (im_largeRequests m)" "0 \<le> snd_tag ?s" "0 \<le> snd_tag (rest_of ?mx ?s)"
    "0 < snd_size (rest_of ?mx ?s)"
    using assms(2-5) by (auto simp: queued_ok_def sendable_def rest_of_def)
  have tags: "\<forall>t \<in> set ((im_largeSends m)[i := rest_of ?mx ?s]). 0 \<le> snd_tag t"
    using assms(5) i(4) unfolding sendable_def by (auto dest!: subsetD [OF set_update_subset_insert])
  show ?thesis using assms(1,4,6) i tags
    by (auto simp: continue_send_def Let_def acts_bind_getA acts_bind_assertA acts_bind_modA acts_bind_mpiA acts_modA acts_stateA
      mpi_ok_iff request_of_def vec_set_def bindE_def acts_if sendable_def split: if_splits sum.splits)
qed

lemma continue_all_ok:
  assumes "acts (forA is continue_send) m tr r m'" and "queued_ok (set is) m" and "distinct is"
    and "\<forall>i \<in> set is. i < length (im_largeSends m)" and "sendable m" and "list_all mpi_ok tr"
  shows "r = Inr () \<and> sendable m' \<and> length (im_largeRequests m') = length (im_largeRequests m) \<and> im_sendIndices m' = im_sendIndices m"
  using assms
proof (induction "is" arbitrary: m tr)
  case Nil
  then show ?case by (simp add: acts_retA)
next
  case (Cons i js)
  have i: "i \<in> set (i # js)" "i < length (im_largeSends m)" using Cons.prems(4) by simp_all
  obtain t1 t2 m1 where t: "tr = t1 @ t2" "acts (continue_send i) m t1 (Inr ()) m1" "acts (forA js continue_send) m1 t2 r m'"
    "list_all mpi_ok t1" "list_all mpi_ok t2"
    using Cons.prems(1) unfolding forA.simps
    by (rule acts_bind_mpi_ok [OF _ Cons.prems(6)]) (use continue_send_ok [OF _ Cons.prems(2) i Cons.prems(5)] in blast)+
  have 1: "sendable m1" "length (im_largeRequests m1) = length (im_largeRequests m)" "im_sendIndices m1 = im_sendIndices m"
    using continue_send_ok [OF t(2) Cons.prems(2) i Cons.prems(5) t(4)] by simp_all
  have 2: "queued_ok (set (i # js) - {i}) m1" "length (im_largeSends m1) = length (im_largeSends m)"
    using continue_send_run [OF t(2) Cons.prems(2) i(1)] by simp_all
  have "set (i # js) - {i} = set js" using Cons.prems(3) by auto
  then have "queued_ok (set js) m1" using 2(1) by simp
  with Cons.IH [OF t(3) _ _ _ 1(1) t(5)] Cons.prems(3,4) 1 2(2) show ?case by simp
qed

lemma dequeue_ok:
  assumes "length ss = length rs" and "n \<le> length rs"
  shows "\<exists>rs' ss'. dequeue n (rs, ss) = Inr (rs', ss') \<and> length rs' \<le> length rs \<and> set ss' \<subseteq> set ss"
  using assms
proof (induction n arbitrary: rs ss)
  case 0
  then show ?case by simp
next
  case (Suc n)
  let ?l = "length rs - 1"
  let ?rs = "rs[n := rs ! ?l, ?l := rs ! n]" and ?ss = "ss[n := ss ! ?l, ?l := ss ! n]"
  show ?case
  proof (cases "rs ! n = None")
    case False
    then have "dequeue (Suc n) (rs, ss) = dequeue n (rs, ss)" using Suc.prems by auto
    then show ?thesis using Suc.IH [OF Suc.prems(1)] Suc.prems(2) by simp
  next
    case True
    have "\<exists>rs' ss'. dequeue n (butlast ?rs, butlast ?ss) = Inr (rs', ss') \<and> length rs' \<le> length (butlast ?rs) \<and> set ss' \<subseteq> set (butlast ?ss)"
      using Suc.prems by (intro Suc.IH) auto
    moreover have "set (butlast ?ss) \<subseteq> set ss"
    proof -
      have "set ?ss = set ss" using Suc.prems by (intro set_swap) auto
      then show ?thesis by (metis in_set_butlastD subsetI)
    qed
    moreover have "vec_swap rs n ?l = Inr ?rs" "vec_swap ss n (length ss - 1) = Inr ?ss"
      using Suc.prems by simp_all
    ultimately show ?thesis using Suc.prems True by (fastforce simp: bindE_def)
  qed
qed

text \<open>The state before a round.\<close>

definition waiting_ok :: "messages \<Rightarrow> bool" where
  "waiting_ok m \<longleftrightarrow> queued_ok {} m \<and> sendable m \<and> None \<notin> set (im_largeRequests m) \<and>
     length (im_largeRequests m) \<le> im_sendIndices m"

lemma test_sends_ok:
  assumes "acts test_sends m tr r m'" and "waiting_ok m" and "list_all mpi_ok tr"
  shows "r = Inr () \<and> waiting_ok m'"
proof -
  obtain "is" t where tr: "tr = (MpiTestsome (im_largeRequests m), Completed is) # t"
    and is_ok: "distinct is" "\<forall>i \<in> set is. i < length (im_largeRequests m) \<and> im_largeRequests m ! i \<noteq> None"
    and rest: "acts (bindA (forA is continue_send) (\<lambda>_. dequeue_sends))
      (m\<lparr>im_largeRequests := fold (\<lambda>i rs. rs[i := None]) is (im_largeRequests m)\<rparr>) t r m'"
    using assms by (auto simp: test_sends_def acts_bind_getA acts_bind_assertA acts_bind_mpiA acts_bind_modA completed_def
        mpi_ok_iff waiting_ok_def)
  let ?m = "m\<lparr>im_largeRequests := fold (\<lambda>i rs. rs[i := None]) is (im_largeRequests m)\<rparr>"
  have q: "queued_ok (set is) ?m" "\<forall>i \<in> set is. i < length (im_largeSends ?m)" "sendable ?m"
    using assms(2) is_ok fold_null [of "is" "im_largeRequests m"] by (auto simp: queued_ok_def waiting_ok_def sendable_def)
  have ok: "list_all mpi_ok t" using assms(3) tr by simp
  obtain t1 t2 m2 where t: "t = t1 @ t2" "acts (forA is continue_send) ?m t1 (Inr ()) m2" "acts dequeue_sends m2 t2 r m'"
    "list_all mpi_ok t1" "list_all mpi_ok t2"
    using rest by (rule acts_bind_mpi_ok [OF _ ok]) (use continue_all_ok [OF _ q(1) is_ok(1) q(2,3)] in blast)+
  have c: "sendable m2" "length (im_largeRequests m2) = length (im_largeRequests m)" "im_sendIndices m2 = im_sendIndices m"
    using continue_all_ok [OF t(2) q(1) is_ok(1) q(2,3) t(4)] fold_null [of "is" "im_largeRequests m"] by simp_all
  have q2: "queued_ok {} m2" using continue_all_run [OF t(2) q(1) is_ok(1)] by simp
  then have len: "length (im_largeSends m2) = length (im_largeRequests m2)" by (simp add: queued_ok_def)
  from dequeue_ok [OF len order_refl] obtain rs ss where d:
    "dequeue (length (im_largeRequests m2)) (im_largeRequests m2, im_largeSends m2) = Inr (rs, ss)"
    "length rs \<le> length (im_largeRequests m2)" "set ss \<subseteq> set (im_largeSends m2)" by blast
  have "None \<notin> set rs" using dequeue_run [OF d(1) len] by simp
  have r: "r = Inr ()" "m' = m2\<lparr>im_largeRequests := rs, im_largeSends := ss\<rparr>"
    using t(3) d(1) by (simp_all add: dequeue_sends_def acts_stateA)
  have "queued_ok {} m'"
    using test_sends_run [OF _ _ mpi_ok_testsome [OF assms(3)]] assms(1,2) r(1) by (simp add: waiting_ok_def)
  then show ?thesis using r c d(2,3) assms(2) \<open>None \<notin> set rs\<close> by (auto simp: waiting_ok_def sendable_def)
qed

text \<open>A reception succeeds when the part that the probe has found was to come.\<close>

lemma receive_next_ok:
  assumes "acts (receive_next k) m tr r m'" and "list_all mpi_ok tr"
    and "\<And>tag. arrivals tag tr \<le> (if 0 \<le> tag \<and> nat tag < length (im_irecvs m) then length (to_come m F (nat tag)) else 0)"
  shows "(\<exists>k'. r = Inr k') \<and> (waiting_ok m' \<longleftrightarrow> waiting_ok m) \<and> (\<forall>tag. length (recvs tag tr) = arrivals tag tr) \<and>
    idle_polls tr + parts_received tr = 1 \<and> parts_received tr = (\<Sum>u<length (im_irecvs m). length (recvs (int u) tr))"
proof -
  obtain rep t where tr: "tr = (MpiIprobe, rep) # t" and rep: "rep = NoMessage \<or> (\<exists>src tag n. rep = Arrived src tag n)"
    using assms(1,2) unfolding receive_next_def acts_bind_mpiA by (auto simp: mpi_ok_iff)
  from rep show ?thesis
  proof (elim disjE exE)
    assume none: "rep = NoMessage"
    then have "t = []" "r = Inr k" "m' = m" using assms(1) unfolding receive_next_def acts_bind_mpiA tr
      by (simp_all add: probed_def acts_retA)
    then show ?thesis by (simp add: tr none idle_polls_def parts_received_def)
  next
    fix src tag n assume arr: "rep = Arrived src tag n"
    have tag: "0 \<le> tag" "nat tag < length (im_irecvs m)" "to_come m F (nat tag) \<noteq> []"
      using assms(3) [of tag] by (auto simp: tr arr split: if_splits)
    obtain buf sz where b: "im_irecvs m ! nat tag = (buf, sz)" by fastforce
    have sz: "0 < sz" using tag(3) by (cases "sz = 0") (simp_all add: to_come_def b split: if_splits)
    have run: "\<exists>k'. r = Inr k' \<and> t = [(MpiRecv buf (min (im_maxMpiMsgSize m) sz) src tag, MpiSuccess)] \<and>
      (m' = m \<or> m' = m\<lparr>im_irecvs := (im_irecvs m)[nat tag := (buf + im_maxMpiMsgSize m, sz - im_maxMpiMsgSize m)]\<rparr>)"
      using assms(1,2) tag(1,2) sz unfolding receive_next_def acts_bind_mpiA tr arr
      by (auto simp: probed_def b acts_bind_getA acts_bind_assertA acts_bind_mpiA acts_bind_modA acts_retA Let_def succeeded_def
          mpi_ok_iff acts_if split: if_splits sum.splits)
    then have w: "waiting_ok m' \<longleftrightarrow> waiting_ok m" by (auto simp: waiting_ok_def queued_ok_def sendable_def)
    have "(\<Sum>u<length (im_irecvs m). length (received_part (int u) (MpiRecv buf x src tag))) = 1" for x
    proof -
      have "length (received_part (int u) (MpiRecv buf x src tag)) = (if u = nat tag then 1 else 0)" for u
        using tag(1) by auto
      then show ?thesis using tag(2) by (simp add: sum.delta)
    qed
    then show ?thesis using run w by (auto simp: tr arr idle_polls_def parts_received_def)
  qed
qed

text \<open>
  What is still outstanding after a part of the loop has run: a part of a message to send or to receive.
\<close>

definition outstanding :: "messages \<Rightarrow> nat set \<Rightarrow> (mpi_call \<times> mpi_reply) list \<Rightarrow> bool" where
  "outstanding m F p \<longleftrightarrow> isends p \<noteq> pending m \<or> (\<exists>u<length (im_irecvs m). recvs (int u) p \<noteq> to_come m F u)"

definition loop_ok :: "nat \<Rightarrow> messages \<Rightarrow> nat set \<Rightarrow> (mpi_call \<times> mpi_reply) list \<Rightarrow> bool" where
  "loop_ok k m F tr \<longleftrightarrow> waiting_ok m \<and> length (im_irecvs m) \<le> SIZE_MAX \<and> k = card (incomplete m F) \<and> list_all mpi_ok tr \<and>
     (\<forall>tag. arrivals tag tr \<le> (if 0 \<le> tag \<and> nat tag < length (im_irecvs m) then length (to_come m F (nat tag)) else 0))"

lemma no_arrivals: "calls (\<lambda>q. q \<noteq> MpiIprobe \<and> \<not> is_recv q) a \<Longrightarrow> acts a s tr r s' \<Longrightarrow> arrivals tag tr = 0"
proof -
  assume c: "calls (\<lambda>q. q \<noteq> MpiIprobe \<and> \<not> is_recv q) a" "acts a s tr r s'"
  have "\<not> arrives tag e" if "e \<in> set tr" for e
    using callsD [OF c that] by (induction tag e rule: arrives.induct) auto
  then show ?thesis by (simp add: arrivals_def)
qed

lemma no_polls: "calls (\<lambda>q. q \<noteq> MpiIprobe \<and> \<not> is_recv q) a \<Longrightarrow> acts a s tr r s' \<Longrightarrow> idle_polls tr + parts_received tr = 0"
  unfolding idle_polls_def parts_received_def by (fastforce dest: callsD simp: filter_empty_conv)

lemma calls_test_sends_only: "calls (\<lambda>q. q \<noteq> MpiIprobe \<and> \<not> is_recv q) test_sends"
  unfolding test_sends_def continue_send_def dequeue_sends_def Let_def
  by (intro calls_rules) simp_all

lemma wait_round:
  assumes "acts (bindA test_sends (\<lambda>_. bindA (receive_next k) (\<lambda>nMsgs. wait_loop n nMsgs))) m tr r m'" and "loop_ok k m F tr"
  obtains t t3 k' m2 F' where "tr = t @ t3" and "acts (wait_loop n k') m2 t3 r m'" and "loop_ok k' m2 F' t3"
    and "idle_polls t + parts_received t = 1" and "parts_received t = (\<Sum>u<length (im_irecvs m). length (recvs (int u) t))"
    and "length (im_irecvs m2) = length (im_irecvs m)" and "pending m = isends t + pending m2"
    and "\<forall>u<length (im_irecvs m). to_come m F u = recvs (int u) t @ to_come m2 F' u"
proof -
  note ok = assms(2) [unfolded loop_ok_def]
  have w: "waiting_ok m" and all_ok: "list_all mpi_ok tr" using ok by simp_all
  obtain t1 u m1 where 1: "tr = t1 @ u" "acts test_sends m t1 (Inr ()) m1"
    and k: "acts (bindA (receive_next k) (\<lambda>nMsgs. wait_loop n nMsgs)) m1 u r m'" and o1: "list_all mpi_ok t1" "list_all mpi_ok u"
    using assms(1) by (rule acts_bind_mpi_ok [OF _ all_ok]) (use test_sends_ok [OF _ w] in blast)+
  have w1: "waiting_ok m1" using test_sends_ok [OF 1(2) w o1(1)] by simp
  have s1: "pending m = isends t1 + pending m1" "im_maxMpiMsgSize m1 = im_maxMpiMsgSize m" "im_irecvs m1 = im_irecvs m"
    using test_sends_run [OF 1(2) _ mpi_ok_testsome [OF o1(1)]] w by (simp_all add: waiting_ok_def)
  have none: "recvs tag t1 = []" "arrivals tag t1 = 0" "idle_polls t1 + parts_received t1 = 0" for tag
    using no_recvs [OF calls_test_sends 1(2)] no_polls [OF calls_test_sends_only 1(2)]
      no_arrivals [OF calls_test_sends_only 1(2)] by simp_all
  have same: "incomplete m1 F = incomplete m F" "to_come m1 F = to_come m F"
    by (auto simp: incomplete_def to_come_def fun_eq_iff s1)
  have arr: "arrivals tag u \<le> (if 0 \<le> tag \<and> nat tag < length (im_irecvs m1) then length (to_come m1 F (nat tag)) else 0)" for tag
    using ok [THEN conjunct2, THEN conjunct2, THEN conjunct2, THEN conjunct2, rule_format, of tag] none(2) [of tag]
    by (simp add: s1 same 1(1) split: if_splits)
  have bound: "arrivals tag t \<le> (if 0 \<le> tag \<and> nat tag < length (im_irecvs m1) then length (to_come m1 F (nat tag)) else 0)"
    if "u = t @ t'" for t t' tag using arr [of tag] that by simp
  obtain t2 t3 m2 k' where 2: "u = t2 @ t3" "acts (receive_next k) m1 t2 (Inr k') m2" "acts (wait_loop n k') m2 t3 r m'"
    and o2: "list_all mpi_ok t2" "list_all mpi_ok t3"
    using k unfolding acts_bindA [of "receive_next _"]
  proof (elim disjE exE conjE)
    fix e assume "acts (receive_next k) m1 u (Inl e) m'"
    from receive_next_ok [OF this o1(2) arr] show thesis by simp
  next
    fix k' m2 t2 t3 assume "acts (receive_next k) m1 t2 (Inr k') m2" "acts (wait_loop n k') m2 t3 r m'" "u = t2 @ t3"
    then show thesis using that o1(2) by simp
  qed
  have rec: "waiting_ok m2" "\<And>tag. length (recvs tag t2) = arrivals tag t2" "idle_polls t2 + parts_received t2 = 1"
    "parts_received t2 = (\<Sum>u<length (im_irecvs m). length (recvs (int u) t2))"
    using receive_next_ok [OF 2(2) o2(1) bound [OF 2(1)]] w1 unfolding s1 by blast+
  have le: "length (recvs (int v) t2) + arrivals (int v) t3 \<le> length (to_come m F v)" if "v < length (im_irecvs m)" for v
    using arr [of "int v"] that rec(2) by (simp add: 2(1) s1 same)
  have "\<exists>F'. k' = card (incomplete m2 F') \<and> im_maxMpiMsgSize m2 = im_maxMpiMsgSize m1 \<and>
      length (im_irecvs m2) = length (im_irecvs m1) \<and>
      (\<forall>t<length (im_irecvs m1). to_come m1 F t = recvs (int t) t2 @ to_come m2 F' t)"
    using ok w1 le by (intro receive_step [OF 2(2)])
      (auto simp: s1 same waiting_ok_def queued_ok_def intro: order_trans [OF le_add1])
  then obtain F' where F': "k' = card (incomplete m2 F')" "length (im_irecvs m2) = length (im_irecvs m)"
      "\<And>v. v < length (im_irecvs m) \<Longrightarrow> to_come m F v = recvs (int v) t2 @ to_come m2 F' v"
    unfolding s1 same by blast
  have "arrivals tag t3 \<le> (if 0 \<le> tag \<and> nat tag < length (im_irecvs m2) then length (to_come m2 F' (nat tag)) else 0)" for tag
    using arr [of tag] rec(2) [of tag] F'(2) F'(3) [of "nat tag"] by (auto simp: 2(1) s1 same split: if_splits)
  then have l2: "loop_ok k' m2 F' t3" using ok F'(1,2) rec(1) o2(2) by (simp add: loop_ok_def)
  have p: "pending m = isends (t1 @ t2) + pending m2" using receive_next_run [OF 2(2)] s1(1) by simp
  show thesis
  proof (rule that [of "t1 @ t2"])
    show "idle_polls (t1 @ t2) + parts_received (t1 @ t2) = 1"
      "parts_received (t1 @ t2) = (\<Sum>u<length (im_irecvs m). length (recvs (int u) (t1 @ t2)))"
      using none rec(3,4) by (simp_all add: idle_polls_def parts_received_def)
    show "\<forall>v<length (im_irecvs m). to_come m F v = recvs (int v) (t1 @ t2) @ to_come m2 F' v"
      using F'(3) none by simp
  qed (use 1 2 l2 F'(2) p in simp_all)
qed


text \<open>The loop continues exactly as long as something is outstanding.\<close>

lemma parts_of_empty: "0 < mx \<Longrightarrow> parts_of mx a n = [] \<longleftrightarrow> n = 0"
  by (cases "n = 0") (simp_all add: parts_of_step)

lemma nothing_outstanding:
  assumes "loop_ok k m F tr"
  shows "outstanding m F [] \<longleftrightarrow> k > 0 \<or> im_largeSends m \<noteq> []"
proof -
  note ok = assms [unfolded loop_ok_def waiting_ok_def]
  have mx: "0 < im_maxMpiMsgSize m" using ok by (simp add: queued_ok_def)
  have "finite (incomplete m F)" by (simp add: incomplete_def)
  then have "k > 0 \<longleftrightarrow> (\<exists>u. u \<in> incomplete m F)" using ok by (auto simp: card_gt_0_iff)
  also have "\<dots> \<longleftrightarrow> (\<exists>u<length (im_irecvs m). to_come m F u \<noteq> [])"
    using parts_of_empty [OF mx] by (auto simp: incomplete_def to_come_def)
  finally have k: "k > 0 \<longleftrightarrow> (\<exists>u<length (im_irecvs m). to_come m F u \<noteq> [])" .
  have "pending m \<noteq> {#} \<longleftrightarrow> im_largeSends m \<noteq> []"
  proof
    assume "im_largeSends m \<noteq> []"
    then have z: "0 < length (im_largeSends m)" by simp
    then have "im_largeRequests m ! 0 \<in> set (im_largeRequests m)" using ok by (intro nth_mem) (simp add: queued_ok_def)
    then have "im_largeRequests m ! 0 \<noteq> None" using ok by metis
    then have s: "im_largeSends m ! 0 \<in> set (im_largeSends m)" "im_maxMpiMsgSize m < snd_size (im_largeSends m ! 0)"
      using ok z by (simp_all add: queued_ok_def)
    have "rest_calls (im_maxMpiMsgSize m) (im_largeSends m ! 0) \<noteq> {#}" using rest_calls_step [OF mx s(2)] by simp
    then show "pending m \<noteq> {#}" using s(1) unfolding pending_def by (auto simp: sum_mset_0_iff)
  qed (auto simp: pending_def)
  then show ?thesis using k by (auto simp: outstanding_def)
qed

text \<open>
  A run of the loop ends well, or it uses up its bound; then something was outstanding before its last round, and each round until then has
  received a part or found none.
\<close>

lemma wait_loop_ends:
  assumes "acts (wait_loop n k) m tr r m'" and "loop_ok k m F tr"
  shows "(r = Inr () \<and> waiting_ok m' \<and> im_largeSends m' = []) \<or>
    (\<exists>p q. tr = p @ q \<and> (0 < n \<longrightarrow> outstanding m F p) \<and> n \<le> idle_polls p + parts_received p + 1 \<and>
      parts_received p = (\<Sum>u<length (im_irecvs m). length (recvs (int u) p)) \<and>
      (\<forall>u<length (im_irecvs m). length (recvs (int u) p) \<le> length (to_come m F u)))"
  using assms
proof (induction n arbitrary: k m F tr)
  case 0
  then show ?case by (intro disjI2 exI [of _ "[]"]) (simp add: acts_throwA idle_polls_def parts_received_def)
next
  case (Suc n)
  show ?case
  proof (cases "k > 0 \<or> im_largeSends m \<noteq> []")
    case False
    then show ?thesis using Suc.prems by (simp add: acts_bind_getA acts_retA loop_ok_def)
  next
    case True
    have run: "acts (bindA test_sends (\<lambda>_. bindA (receive_next k) (\<lambda>nMsgs. wait_loop n nMsgs))) m tr r m'"
      using Suc.prems(1) True by (simp add: acts_bind_getA)
    obtain t t3 k' m2 F' where s: "tr = t @ t3" "acts (wait_loop n k') m2 t3 r m'" "loop_ok k' m2 F' t3"
      "idle_polls t + parts_received t = 1" "parts_received t = (\<Sum>u<length (im_irecvs m). length (recvs (int u) t))"
      "length (im_irecvs m2) = length (im_irecvs m)" "pending m = isends t + pending m2"
      "\<forall>u<length (im_irecvs m). to_come m F u = recvs (int u) t @ to_come m2 F' u"
      by (rule wait_round [OF run Suc.prems(2)])
    from Suc.IH [OF s(2,3)] show ?thesis
    proof (elim disjE exE conjE)
      fix p q assume p: "t3 = p @ q" "0 < n \<longrightarrow> outstanding m2 F' p" "n \<le> idle_polls p + parts_received p + 1"
        "parts_received p = (\<Sum>u<length (im_irecvs m2). length (recvs (int u) p))"
        "\<forall>u<length (im_irecvs m2). length (recvs (int u) p) \<le> length (to_come m2 F' u)"
      show ?thesis
      proof (cases "n = 0")
        case True
        have "outstanding m F []" using nothing_outstanding [OF Suc.prems(2)] \<open>k > 0 \<or> _\<close> by simp
        then show ?thesis using True by (intro disjI2 exI [of _ "[]"] exI [of _ tr]) (simp add: idle_polls_def parts_received_def)
      next
        case False
        have "outstanding m F (t @ p)" using p(2) False s(6-8) unfolding outstanding_def by auto
        moreover have "Suc n \<le> idle_polls (t @ p) + parts_received (t @ p) + 1"
          using p(3) s(4) by (simp add: idle_polls_def parts_received_def)
        moreover have "parts_received (t @ p) = (\<Sum>u<length (im_irecvs m). length (recvs (int u) (t @ p)))"
          using p(4) s(5,6) by (simp add: parts_received_def sum.distrib)
        moreover have "\<forall>u<length (im_irecvs m). length (recvs (int u) (t @ p)) \<le> length (to_come m F u)"
          using p(5) s(6,8) by simp
        ultimately show ?thesis using s(1) p(1) by (intro disjI2 exI [of _ "t @ p"] exI [of _ q]) simp
      qed
    qed simp
  qed
qed

text \<open>Starting the messages, and the end of \<open>iwaitall\<close>.\<close>

lemma isend_ok:
  assumes "acts (isend buf bytes dst tag) m tr r m'" and "0 \<le> tag" and "list_all mpi_ok tr" and "sendable m"
    and "None \<notin> set (im_largeRequests m)" and "0 < im_maxMpiMsgSize m"
  shows "r = Inr () \<and> sendable m' \<and> None \<notin> set (im_largeRequests m') \<and>
    length (im_largeRequests m') \<le> Suc (length (im_largeRequests m)) \<and> im_sendIndices m' = im_sendIndices m"
proof (cases "bytes = 0")
  case True
  then show ?thesis using assms
    by (auto simp: isend_def Let_def acts_bind_getA acts_bind_if acts_bind_modA acts_modA acts_bind_retA sendable_def)
next
  case False
  then have sz: "0 < min (im_maxMpiMsgSize m) bytes" using assms(6) by simp
  have lt: "min (im_maxMpiMsgSize m) bytes < bytes \<longleftrightarrow> im_maxMpiMsgSize m < bytes" by auto
  have run: "acts (bindA (mpiA (MpiIsend buf (min (im_maxMpiMsgSize m) bytes) dst tag) (request_of ''Cannot Isend msg'')) (\<lambda>h.
      if min (im_maxMpiMsgSize m) bytes < bytes
      then modA (\<lambda>m. m\<lparr>
            im_largeSends := im_largeSends m @ [\<lparr>snd_addr = buf, snd_size = bytes, snd_dstPid = dst, snd_tag = tag\<rparr>],
            im_largeRequests := im_largeRequests m @ [Some h]\<rparr>)
      else modA (\<lambda>m. m\<lparr>im_imsgs := im_imsgs m @ [Some h]\<rparr>))) m tr r m'"
    using assms(1,2) sz by (simp add: isend_def Let_def acts_bind_getA monad_laws assertA_def lt cong: if_cong)
  from run obtain rep t where tr: "tr = (MpiIsend buf (min (im_maxMpiMsgSize m) bytes) dst tag, rep) # t"
    and k: "case request_of ''Cannot Isend msg'' rep of Inl e \<Rightarrow> t = [] \<and> r = Inl e \<and> m' = m
      | Inr h \<Rightarrow> acts (if min (im_maxMpiMsgSize m) bytes < bytes
      then modA (\<lambda>m. m\<lparr>
            im_largeSends := im_largeSends m @ [\<lparr>snd_addr = buf, snd_size = bytes, snd_dstPid = dst, snd_tag = tag\<rparr>],
            im_largeRequests := im_largeRequests m @ [Some h]\<rparr>)
      else modA (\<lambda>m. m\<lparr>im_imsgs := im_imsgs m @ [Some h]\<rparr>)) m t r m'"
    unfolding acts_bind_mpiA by blast
  obtain h where "rep = Request h" using assms(3) tr by (auto simp: mpi_ok_iff)
  then show ?thesis using k assms(2,4,5) by (auto simp: request_of_def acts_modA sendable_def split: if_splits)
qed

lemma isends_ok:
  assumes "acts (forA out (\<lambda>(buf, bytes, dst, tag). isend buf bytes dst tag)) m tr r m'" and "\<forall>(buf, bytes, dst, tag) \<in> set out. 0 \<le> tag"
    and "list_all mpi_ok tr" and "queued_ok {} m" and "sendable m" and "None \<notin> set (im_largeRequests m)"
    and "length (im_largeRequests m) + length out \<le> im_sendIndices m"
  shows "r = Inr () \<and> waiting_ok m'"
  using assms
proof (induction out arbitrary: m tr)
  case Nil
  then show ?case by (simp add: acts_retA waiting_ok_def)
next
  case (Cons x out)
  obtain buf bytes dst tag where x: "x = (buf, bytes, dst, tag)" by (cases x)
  have mx: "0 < im_maxMpiMsgSize m" using Cons.prems(4) by (simp add: queued_ok_def)
  have tag: "0 \<le> tag" using Cons.prems(2) by (simp add: x)
  have run: "acts (bindA (isend buf bytes dst tag) (\<lambda>_. forA out (\<lambda>(buf, bytes, dst, tag). isend buf bytes dst tag))) m tr r m'"
    using Cons.prems(1) by (simp add: x)
  obtain t1 t2 m1 where t: "tr = t1 @ t2" "acts (isend buf bytes dst tag) m t1 (Inr ()) m1"
    "acts (forA out (\<lambda>(buf, bytes, dst, tag). isend buf bytes dst tag)) m1 t2 r m'" "list_all mpi_ok t1" "list_all mpi_ok t2"
    using run by (rule acts_bind_mpi_ok [OF _ Cons.prems(3)]) (use isend_ok [OF _ tag _ Cons.prems(5,6) mx] in blast)+
  have "queued_ok {} m1" using isend_run [OF t(2) Cons.prems(4)] by simp
  then show ?case using Cons.IH [OF t(3) _ t(5)] isend_ok [OF t(2) tag t(4) Cons.prems(5,6) mx] Cons.prems(2,7) by simp
qed

lemma irecvs_ok:
  assumes "acts (forA inc (\<lambda>(buf, bytes, tag). irecv buf bytes tag)) m tr r m'"
    and "List.map (\<lambda>(buf, bytes, tag). tag) inc = List.map int [length (im_irecvs m)..<length (im_irecvs m) + length inc]"
  shows "r = Inr () \<and> im_largeSends m' = im_largeSends m \<and> im_largeRequests m' = im_largeRequests m \<and> im_sendIndices m' = im_sendIndices m \<and>
    im_maxMpiMsgSize m' = im_maxMpiMsgSize m"
  using assms
proof (induction inc arbitrary: m tr)
  case Nil
  then show ?case by (simp add: acts_retA)
next
  case (Cons x inc)
  obtain buf bytes tag where x: "x = (buf, bytes, tag)" by (cases x)
  have tags: "tag = int (length (im_irecvs m))"
    "List.map (\<lambda>(buf, bytes, tag). tag) inc = List.map int [Suc (length (im_irecvs m))..<Suc (length (im_irecvs m)) + length inc]"
    using Cons.prems(2) by (simp_all add: x upt_conv_Cons del: upt_Suc)
  let ?m = "m\<lparr>im_irecvs := im_irecvs m @ [(buf, bytes)],
    im_emptyRecvs := (if bytes = 0 then im_emptyRecvs m + 1 else im_emptyRecvs m)\<rparr>"
  have "acts (forA inc (\<lambda>(buf, bytes, tag). irecv buf bytes tag)) ?m tr r m'"
    using Cons.prems(1) tags(1) by (simp add: x irecv_def acts_bind_bindA acts_bind_assertA acts_bind_getA acts_bind_modA)
  from Cons.IH [OF this] tags(2) show ?case by simp
qed

lemma iwaitall_rest:
  assumes "acts (iwaitall n) m tr r m'" and "list_all mpi_ok tr"
  obtains t q rw m1 where "tr = t @ q" and "acts (wait_loop n (length (im_irecvs m) - im_emptyRecvs m)) m t rw m1"
    and "rw = Inr () \<and> waiting_ok m1 \<and> im_largeSends m1 = [] \<longrightarrow> r = Inr ()"
  using assms(1) unfolding iwaitall_def acts_bind_getA acts_bindA [of "wait_loop _ _"]
proof (elim disjE exE conjE)
  fix e assume "r = Inl e" "acts (wait_loop n (length (im_irecvs m) - im_emptyRecvs m)) m tr (Inl e) m'"
  then show thesis using that [of tr "[]" "Inl e" m'] by simp
next
  fix x m1 t1 t2 assume a: "acts (wait_loop n (length (im_irecvs m) - im_emptyRecvs m)) m t1 (Inr x) m1"
    "acts (bindA (assertA (im_largeSends m1 = [])) (\<lambda>_.
     bindA (assertA (im_largeRequests m1 = [])) (\<lambda>_.
     bindA (modA (\<lambda>m. m\<lparr>im_irecvs := [], im_emptyRecvs := 0\<rparr>)) (\<lambda>_.
     bindA (mpiA (MpiWaitall (im_imsgs m1)) (succeeded ''A nonblocking message failed'')) (\<lambda>_.
     bindA (modA (\<lambda>m. m\<lparr>im_imsgs := []\<rparr>)) (\<lambda>_.
     mpiA MpiBarrier (succeeded ''An MPI Barrier failed''))))))) m1 t2 r m'" "tr = t1 @ t2"
  have "r = Inr ()" if "waiting_ok m1" "im_largeSends m1 = []"
    using a(2,3) assms(2) that
    by (auto simp: acts_bind_assertA acts_bind_modA acts_bind_mpiA acts_mpiA succeeded_def mpi_ok_iff waiting_ok_def queued_ok_def
        split: if_splits)
  then show thesis using that [OF a(3,1)] by blast
qed

text \<open>
  The exchange is complete after a part of a run: all that is sent has been given to MPI, and all that is received has been received.
\<close>

definition exchange_complete ::
  "nat \<Rightarrow> (addr \<times> nat \<times> int \<times> int) list \<Rightarrow> (addr \<times> nat \<times> int) list \<Rightarrow> (mpi_call \<times> mpi_reply) list \<Rightarrow> bool" where
  "exchange_complete mx out inc p \<longleftrightarrow>
     isends p = (\<Sum>(buf, bytes, dst, tag) \<leftarrow> out. send_calls mx buf bytes dst tag) \<and>
     (\<forall>i<length inc. recvs (int i) p = parts_of mx (fst (inc ! i)) (fst (snd (inc ! i))))"

definition parts_expected :: "nat \<Rightarrow> (addr \<times> nat \<times> int) list \<Rightarrow> int \<Rightarrow> nat" where
  "parts_expected mx inc tag =
     (if 0 \<le> tag \<and> nat tag < length inc then length (parts_of mx (fst (inc ! nat tag)) (fst (snd (inc ! nat tag)))) else 0)"

text \<open>
  C9: an exchange ends.  Let MPI succeed in every call and answer as documented, let a probe find no more parts of a
  message than the receiver expects, and let it fail to find one at most \<open>w\<close> times before the exchange is complete.  Then the
  loop of \<open>iwaitall\<close> makes no more rounds than there are parts to receive and \<open>w\<close>, up to one: with a bound above that,
  \<open>isend\<close>, \<open>irecv\<close> and \<open>iwaitall\<close> return, with no exception and no failed assertion.
\<close>

theorem iwaitall_ends:
  assumes "acts (exchange n out inc) m tr r m'" and "idle m" and "0 < im_maxMpiMsgSize m" and "length inc \<le> SIZE_MAX"
    and "\<forall>(buf, bytes, dst, tag) \<in> set out. 0 \<le> tag" and "length out \<le> im_sendIndices m"
    and "List.map (\<lambda>(buf, bytes, tag). tag) inc = List.map int [0..<length inc]"
    and "list_all mpi_ok tr" and "\<forall>tag. arrivals tag tr \<le> parts_expected (im_maxMpiMsgSize m) inc tag"
    and "\<forall>p q. tr = p @ q \<and> \<not> exchange_complete (im_maxMpiMsgSize m) out inc p \<longrightarrow> idle_polls p \<le> w"
    and "w + (\<Sum>i<length inc. parts_expected (im_maxMpiMsgSize m) inc (int i)) + 1 < n"
  shows "r = Inr ()"
proof -
  let ?mx = "im_maxMpiMsgSize m"
  have start: "queued_ok {} m" "sendable m" "None \<notin> set (im_largeRequests m)" "length (im_largeRequests m) + length out \<le> im_sendIndices m"
    "receptions_ok m" "im_irecvs m = []" "pending m = {#}"
    using assms(2,3,6) by (simp_all add: idle_def queued_ok_def sendable_def receptions_ok_def pending_def)
  obtain t1 u m1 where 1: "tr = t1 @ u" "acts (forA out (\<lambda>(buf, bytes, dst, tag). isend buf bytes dst tag)) m t1 (Inr ()) m1"
    and k: "acts (bindA (forA inc (\<lambda>(buf, bytes, tag). irecv buf bytes tag)) (\<lambda>_. iwaitall n)) m1 u r m'"
    and o1: "list_all mpi_ok t1" "list_all mpi_ok u"
    using assms(1) unfolding exchange_def
    by (rule acts_bind_mpi_ok [OF _ assms(8)]) (use isends_ok [OF _ assms(5) _ start(1-4)] in blast)+
  have w1: "waiting_ok m1" using isends_ok [OF 1(2) assms(5) o1(1) start(1-4)] by simp
  have s1: "im_maxMpiMsgSize m1 = ?mx" "im_irecvs m1 = []" "receptions_ok m1"
    "(\<Sum>(buf, bytes, dst, tag) \<leftarrow> out. send_calls ?mx buf bytes dst tag) = isends t1 + pending m1"
    using isends_run [OF 1(2) start(1)] start(5-7) by (simp_all add: receptions_ok_def)
  have tags: "List.map (\<lambda>(buf, bytes, tag). tag) inc = List.map int [length (im_irecvs m1)..<length (im_irecvs m1) + length inc]"
    using assms(7) by (simp add: s1)
  obtain t2 t3 m2 where 2: "u = t2 @ t3" "acts (forA inc (\<lambda>(buf, bytes, tag). irecv buf bytes tag)) m1 t2 (Inr ()) m2"
    "acts (iwaitall n) m2 t3 r m'" and o2: "list_all mpi_ok t2" "list_all mpi_ok t3"
    using k by (rule acts_bind_mpi_ok [OF _ o1(2)]) (use irecvs_ok [OF _ tags] in blast)+
  have s2: "receptions_ok m2" "im_irecvs m2 = List.map (\<lambda>(buf, bytes, tag). (buf, bytes)) inc" "t2 = []" "pending m2 = pending m1"
    "queued_ok {} m2" "im_maxMpiMsgSize m2 = ?mx"
    using irecvs_run [OF 2(2) s1(3)] w1 s1 by (simp_all add: waiting_ok_def)
  have w2: "waiting_ok m2" using irecvs_ok [OF 2(2) tags] w1 s2(5) by (simp add: waiting_ok_def sendable_def)
  obtain t q rw m3 where t: "t3 = t @ q" "acts (wait_loop n (length (im_irecvs m2) - im_emptyRecvs m2)) m2 t rw m3"
    and ends: "rw = Inr () \<and> waiting_ok m3 \<and> im_largeSends m3 = [] \<longrightarrow> r = Inr ()"
    by (rule iwaitall_rest [OF 2(3) o2(2)])
  have len: "length (im_irecvs m2) = length inc" by (simp add: s2)
  have none: "arrivals tag t1 = 0" "idle_polls t1 + parts_received t1 = 0" "recvs tag t1 = []" for tag
  proof -
    have c: "calls (\<lambda>q. q \<noteq> MpiIprobe \<and> \<not> is_recv q) (forA out (\<lambda>(buf, bytes, dst, tag). isend buf bytes dst tag))"
      unfolding isend_def Let_def by (intro calls_rules) (auto intro!: calls_rules)
    show "arrivals tag t1 = 0" "idle_polls t1 + parts_received t1 = 0" "recvs tag t1 = []"
      using no_arrivals [OF c 1(2)] no_polls [OF c 1(2)] recvs_posted [OF 1(2)] by simp_all
  qed
  have come: "to_come m2 {} i = parts_of ?mx (fst (inc ! i)) (fst (snd (inc ! i)))" if "i < length inc" for i
    using that by (simp add: to_come_def s2 split: prod.split)
  have bound: "arrivals tag t \<le> (if 0 \<le> tag \<and> nat tag < length (im_irecvs m2) then length (to_come m2 {} (nat tag)) else 0)" for tag
    using assms(9) [rule_format, of tag] come [of "nat tag"] by (auto simp: 1(1) 2(1) t(1) len parts_expected_def split: if_splits)
  have l: "loop_ok (length (im_irecvs m2) - im_emptyRecvs m2) m2 {} t"
    using w2 assms(4) o2(2) bound by (simp add: loop_ok_def len t(1) receptions_count [OF s2(1), unfolded len])
  from wait_loop_ends [OF t(2) l] show ?thesis
  proof (elim disjE exE conjE)
    assume "rw = Inr ()" "waiting_ok m3" "im_largeSends m3 = []"
    then show ?thesis using ends by simp
  next
    fix p p' assume p: "t = p @ p'" "0 < n \<longrightarrow> outstanding m2 {} p" "n \<le> idle_polls p + parts_received p + 1"
      "parts_received p = (\<Sum>u<length (im_irecvs m2). length (recvs (int u) p))"
      "\<forall>u<length (im_irecvs m2). length (recvs (int u) p) \<le> length (to_come m2 {} u)"
    have "outstanding m2 {} p" using p(2) assms(11) by simp
    then have "\<not> exchange_complete ?mx out inc (t1 @ p)"
      using s1(4) s2(4) come none(3) by (auto simp: outstanding_def exchange_complete_def len)
    moreover have "tr = (t1 @ p) @ (p' @ q)" by (simp add: 1(1) 2(1) s2(3) t(1) p(1))
    ultimately have "idle_polls (t1 @ p) \<le> w" using assms(10) by blast
    then have "idle_polls p \<le> w" by (simp add: idle_polls_def)
    moreover have "parts_received p \<le> (\<Sum>i<length inc. parts_expected ?mx inc (int i))"
      unfolding p(4) len using p(5) come by (intro sum_mono) (simp add: len parts_expected_def)
    ultimately show ?thesis using p(3) assms(11) by linarith
  qed
qed

text \<open>The message of three bytes that a process sends to itself; one probe finds nothing.\<close>

lemma demo_exchange_some:
  "\<exists>r m'. acts (exchange (Suc (Suc (Suc (Suc (Suc 0))))) [(10, 3, 0, 0)] [(20, 3, 0)]) demo_messages demo_exchange r m'"
  by (intro exI [of _ "Inr ()"] exI [of _ demo_messages])
    (simp add: exchange_def isend_def irecv_def iwaitall_def test_sends_def continue_send_def dequeue_sends_def receive_next_def Let_def
      rest_of_def demo_messages_def demo_exchange_def mpiA_def act_defs request_of_def completed_def succeeded_def probed_def sub64_def
      vec_set_def vec_swap_def vec_at_def)

theorem iwaitall_ends_witness:
  "\<exists>m'. acts (exchange 5 [(10, 3, 0, 0)] [(20, 3, 0)]) demo_messages demo_exchange (Inr ()) m'"
proof -
  let ?inc = "[(20, 3, 0)] :: (addr \<times> nat \<times> int) list" and ?n = "Suc (Suc (Suc (Suc (Suc 0))))"
  obtain r m' where run: "acts (exchange ?n [(10, 3, 0, 0)] ?inc) demo_messages demo_exchange r m'"
    using demo_exchange_some by blast
  have mx: "im_maxMpiMsgSize demo_messages = 2" by (simp add: demo_messages_def)
  have parts: "parts_expected 2 ?inc tag = (if tag = 0 then 2 else 0)" for tag
    by (simp add: parts_expected_def parts_of_step)
  have arr: "\<forall>tag. arrivals tag demo_exchange \<le> parts_expected (im_maxMpiMsgSize demo_messages) ?inc tag"
    unfolding mx parts by (simp add: demo_exchange_def)
  have polls: "\<forall>p q. demo_exchange = p @ q \<and> \<not> exchange_complete (im_maxMpiMsgSize demo_messages) [(10, 3, 0, 0)] ?inc p \<longrightarrow> idle_polls p \<le> 1"
  proof (intro allI impI)
    fix p q assume "demo_exchange = p @ q \<and> \<not> exchange_complete (im_maxMpiMsgSize demo_messages) [(10, 3, 0, 0)] ?inc p"
    then have e: "demo_exchange = p @ q" by blast
    have "idle_polls demo_exchange = idle_polls p + idle_polls q" unfolding e by (simp add: idle_polls_def)
    moreover have "idle_polls demo_exchange = 1" by (simp add: idle_polls_def demo_exchange_def)
    ultimately show "idle_polls p \<le> 1" by simp
  qed
  have bound: "1 + (\<Sum>i<length ?inc. parts_expected (im_maxMpiMsgSize demo_messages) ?inc (int i)) + 1 < ?n"
    unfolding mx parts by simp
  have "r = Inr ()"
    by (rule iwaitall_ends [OF run _ _ _ _ _ _ _ arr polls bound])
      (simp_all add: demo_messages_def idle_def SIZE_MAX_def demo_exchange_def)
  then show ?thesis using run by (auto simp: eval_nat_numeral)
qed

end
