(* ===== verification/Mpi_Exchange.thy ===== *)
theory Mpi_Exchange imports Mpi_Messages begin

text \<open>
  The sparse total exchange \<open>Comm::allToAll\<close> of \<open>src/MPI/mpilib.cpp\<close> (the NBX algorithm): every process sends its messages in
  parts by synchronous sends, receives whatever arrives one after the other into its buffer, and joins a non-blocking
  barrier when all its parts have been received by the others.
\<close>

section \<open>State\<close>

text \<open>
  The four arrays that the function indexes together, one entry for each message: the offset and the number of the bytes that
  are still to be sent, the destination, and the request in the temporary space.
\<close>

record nbx_send =
  nx_offset :: nat
  nx_count :: nat
  nx_pid :: int
  nx_request :: "nat option"

text \<open>The local variables; the messages that are under way are the first \<open>nSends\<close>.\<close>

record nbx =
  nx_sends :: "nbx_send list"
  nx_nSends :: nat
  nx_r :: addr
  nx_recvSize :: nat
  nx_received :: nat
  nx_barrierActive :: bool

text \<open>The size of the temporary space, where a request takes \<open>szreq\<close> bytes and an \<open>int\<close> four.\<close>

definition tempspace_size :: "nat \<Rightarrow> nat \<Rightarrow> nat" where
  "tempspace_size szreq nSends = (szreq + 4) * nSends"

section \<open>Steps\<close>

definition set_send :: "nat \<Rightarrow> (nbx_send \<Rightarrow> nbx_send) \<Rightarrow> nbx \<Rightarrow> fault + unit \<times> nbx" where
  "set_send i f x =
     bindE (vec_at (nx_sends x) i) (\<lambda>e. bindE (vec_set (nx_sends x) i (f e)) (\<lambda>es. Inr ((), x\<lparr>nx_sends := es\<rparr>)))"

text \<open>The next part of message \<open>i\<close>; \<open>s\<close> is \<open>sendData\<close>.\<close>

definition issend_part :: "string \<Rightarrow> addr \<Rightarrow> nat \<Rightarrow> nat \<Rightarrow> (nbx, unit) mpi" where
  "issend_part what s mx i =
     bindA getA (\<lambda>x.
     bindA (liftA (\<lambda>_. vec_at (nx_sends x) i)) (\<lambda>e.
     let n = min mx (nx_count e) in
     bindA (mpiA (MpiIssend (s + nx_offset e) n (nx_pid e)) (request_of what)) (\<lambda>h.
     stateA (set_send i (\<lambda>e. e\<lparr>nx_request := Some h\<rparr>)))))"

definition advance :: "nat \<Rightarrow> nat \<Rightarrow> (nbx, unit) mpi" where
  "advance mx i = stateA (set_send i (\<lambda>e.
     e\<lparr>nx_offset := nx_offset e + min mx (nx_count e), nx_count := nx_count e - min mx (nx_count e)\<rparr>))"

definition start_send :: "addr \<Rightarrow> nat \<Rightarrow> nat \<Rightarrow> (nbx, unit) mpi" where
  "start_send s mx i =
     bindA getA (\<lambda>x.
     bindA (liftA (\<lambda>_. vec_at (nx_sends x) i)) (\<lambda>e.
     bindA (if min mx (nx_count e) > 0 then issend_part ''Cannot send non-blocking synchronous MPI message'' s mx i else retA ()) (\<lambda>_.
     advance mx i)))"

definition receive_message :: "(nbx, unit) mpi" where
  "receive_message =
     bindA (mpiA MpiIprobe (probed ''Cannot probe for MPI message'')) (\<lambda>p.
     case p of None \<Rightarrow> retA () | Some (src, tag, n) \<Rightarrow>
     bindA getA (\<lambda>x.
     if nx_recvSize x < n then throwA (ErrorThrown ''Overflow in DSDE all-to-all (NBX algorithm)'')
     else bindA (mpiA (MpiRecv (nx_r x) n src 0) (succeeded ''Unable to receive MPI message'')) (\<lambda>_.
          modA (\<lambda>x. x\<lparr>nx_r := nx_r x + n, nx_recvSize := nx_recvSize x - n, nx_received := nx_received x + n\<rparr>))))"

definition nbx_continue :: "addr \<Rightarrow> nat \<Rightarrow> nat \<Rightarrow> (nbx, unit) mpi" where
  "nbx_continue s mx j =
     bindA getA (\<lambda>x.
     bindA (liftA (\<lambda>_. vec_at (nx_sends x) j)) (\<lambda>e.
     if nx_count e > 0
     then bindA (issend_part ''Unable to send synchronous non-block MPI message'' s mx j) (\<lambda>_. advance mx j)
     else retA ()))"

text \<open>The messages that have been sent are moved behind those that are under way.\<close>

function remove_sent :: "nat \<Rightarrow> nat \<Rightarrow> nbx_send list \<Rightarrow> fault + nat \<times> nbx_send list" where
  "remove_sent i nSends es =
     (if i < nSends
      then bindE (vec_at es i) (\<lambda>e.
        if nx_count e = 0 \<and> nx_request e = None
        then bindE (vec_swap es i (nSends - 1)) (\<lambda>es. remove_sent i (nSends - 1) es)
        else remove_sent (i + 1) nSends es)
      else Inr (nSends, es))"
  by pat_completeness auto
termination by (relation "measure (\<lambda>(i, nSends, es). nSends - i)") auto

declare remove_sent.simps [simp del]

definition check_sends :: "addr \<Rightarrow> nat \<Rightarrow> (nbx, unit) mpi" where
  "check_sends s mx =
     bindA getA (\<lambda>x.
     bindA (mpiA (MpiTestsome (List.map nx_request (take (nx_nSends x) (nx_sends x))))
       (completed ''Unable to test for completion of sent MPI messages'')) (\<lambda>is.
     bindA (modA (\<lambda>x. x\<lparr>nx_sends := fold (\<lambda>i es. es[i := (es ! i)\<lparr>nx_request := None\<rparr>]) is (nx_sends x)\<rparr>)) (\<lambda>_.
     bindA (forA is (nbx_continue s mx)) (\<lambda>_.
     bindA (stateA (\<lambda>x. bindE (remove_sent 0 (nx_nSends x) (nx_sends x)) (\<lambda>(n, es).
       Inr ((), x\<lparr>nx_nSends := n, nx_sends := es\<rparr>)))) (\<lambda>_.
     bindA getA (\<lambda>x.
     if nx_nSends x = 0
     then bindA (mpiA MpiIbarrier (succeeded ''Unable to start non-blocking MPI barrier'')) (\<lambda>_.
          modA (\<lambda>x. x\<lparr>nx_barrierActive := True\<rparr>))
     else retA ()))))))"

primrec nbx_loop :: "nat \<Rightarrow> addr \<Rightarrow> nat \<Rightarrow> (nbx, unit) mpi" where
  "nbx_loop 0 s mx = throwA OutOfFuel"
| "nbx_loop (Suc k) s mx =
     bindA receive_message (\<lambda>_.
     bindA getA (\<lambda>x.
     if \<not> nx_barrierActive x then bindA (check_sends s mx) (\<lambda>_. nbx_loop k s mx)
     else bindA (mpiA MpiTest (tested ''Unable to whether non-blocking MPI barrier has completed'')) (\<lambda>done.
          if done then retA () else nbx_loop k s mx)))"

text \<open>
  The function, with \<open>sends\<close> the offset, the size and the destination of each message; the result is \<open>*received\<close>.
\<close>

definition nbx_start :: "(nat \<times> nat \<times> int) list \<Rightarrow> addr \<Rightarrow> nat \<Rightarrow> nbx" where
  "nbx_start sends recvData recvSize =
     \<lparr>nx_sends = List.map (\<lambda>(off, cnt, pid). \<lparr>nx_offset = off, nx_count = cnt, nx_pid = pid, nx_request = None\<rparr>) sends,
      nx_nSends = length sends, nx_r = recvData, nx_recvSize = recvSize, nx_received = 0, nx_barrierActive = False\<rparr>"

definition allToAll ::
  "nat \<Rightarrow> nat \<Rightarrow> nat \<Rightarrow> addr \<Rightarrow> (nat \<times> nat \<times> int) list \<Rightarrow> nat \<Rightarrow> (nbx, nat) mpi" where
  "allToAll k mx szreq sendData sends tempSpace =
     bindA (assertA (mx \<le> 2147483647)) (\<lambda>_.
     bindA (if tempSpace < tempspace_size szreq (length sends) then throwA (ErrorThrown ''Insufficient temporary space'') else retA ()) (\<lambda>_.
     bindA (forA [0..<length sends] (start_send sendData mx)) (\<lambda>_.
     bindA (nbx_loop k sendData mx) (\<lambda>_.
     bindA getA (\<lambda>x. retA (nx_received x))))))"

section \<open>What is sent and received\<close>

definition issend_calls :: "nat \<Rightarrow> addr \<Rightarrow> nat \<Rightarrow> int \<Rightarrow> mpi_call multiset" where
  "issend_calls mx buf bytes pid = mset (List.map (\<lambda>(a, n). MpiIssend a n pid) (parts_of mx buf bytes))"

fun is_issend :: "mpi_call \<Rightarrow> bool" where
  "is_issend (MpiIssend _ _ _) = True"
| "is_issend _ = False"

definition issends :: "(mpi_call \<times> mpi_reply) list \<Rightarrow> mpi_call multiset" where
  "issends tr = mset (filter is_issend (List.map fst tr))"

lemma issends_simps [simp]:
  "issends [] = {#}"
  "issends (e # tr) = (if is_issend (fst e) then {#fst e#} else {#}) + issends tr"
  "issends (t1 @ t2) = issends t1 + issends t2"
  by (simp_all add: issends_def)

definition send_rest :: "addr \<Rightarrow> nat \<Rightarrow> nbx_send \<Rightarrow> mpi_call multiset" where
  "send_rest s mx e = issend_calls mx (s + nx_offset e) (nx_count e) (nx_pid e)"

definition sends_rest :: "addr \<Rightarrow> nat \<Rightarrow> nbx \<Rightarrow> mpi_call multiset" where
  "sends_rest s mx x = (\<Sum>e \<in># mset (take (nx_nSends x) (nx_sends x)). send_rest s mx e)"

text \<open>What an operation on the messages leaves alone.\<close>

definition same_rest :: "nbx \<Rightarrow> nbx \<Rightarrow> bool" where
  "same_rest x x' \<longleftrightarrow> nx_r x' = nx_r x \<and> nx_recvSize x' = nx_recvSize x \<and> nx_received x' = nx_received x"

lemma same_rest_trans: "same_rest x y \<Longrightarrow> same_rest y z \<Longrightarrow> same_rest x z"
  by (simp add: same_rest_def)

lemma set_send_run:
  "set_send i f x = Inr (u, x') \<longleftrightarrow> i < length (nx_sends x) \<and> x' = x\<lparr>nx_sends := (nx_sends x)[i := f (nx_sends x ! i)]\<rparr>"
  by (auto simp: set_send_def bindE_simps vec_at_eq_Inr vec_set_eq_Inr)

lemma sends_rest_update:
  assumes "i < nx_nSends x" and "nx_nSends x \<le> length (nx_sends x)"
  shows "sends_rest s mx x + send_rest s mx e = sends_rest s mx (x\<lparr>nx_sends := (nx_sends x)[i := e]\<rparr>) + send_rest s mx (nx_sends x ! i)"
  using sum_mset_update [of i "take (nx_nSends x) (nx_sends x)" "send_rest s mx" e] assms
  by (simp add: sends_rest_def take_update_swap)

text \<open>One part of message \<open>i\<close>, of \<open>start_send\<close> and of \<open>nbx_continue\<close>.\<close>

definition part_sent :: "addr \<Rightarrow> nat \<Rightarrow> nat \<Rightarrow> nbx \<Rightarrow> (mpi_call \<times> mpi_reply) list \<Rightarrow> nbx \<Rightarrow> bool" where
  "part_sent s mx i x tr x' \<longleftrightarrow> (\<exists>q. let e = nx_sends x ! i; n = min mx (nx_count e) in
     issends tr = (if 0 < n then {#MpiIssend (s + nx_offset e) n (nx_pid e)#} else {#}) \<and> (\<forall>t. recvs t tr = []) \<and>
     x' = x\<lparr>nx_sends := (nx_sends x)[i := e\<lparr>nx_request := q, nx_offset := nx_offset e + n, nx_count := nx_count e - n\<rparr>]\<rparr>)"

lemma part_sent_rest:
  assumes "part_sent s mx i x tr x'" and "i < nx_nSends x" and "nx_nSends x \<le> length (nx_sends x)" and "0 < mx"
  shows "sends_rest s mx x = issends tr + sends_rest s mx x' \<and> same_rest x x' \<and> (\<forall>t. recvs t tr = []) \<and>
    nx_nSends x' = nx_nSends x \<and> length (nx_sends x') = length (nx_sends x) \<and> nx_barrierActive x' = nx_barrierActive x"
proof -
  let ?e = "nx_sends x ! i"
  let ?n = "min mx (nx_count ?e)"
  from assms(1) obtain q where tr: "issends tr = (if 0 < ?n then {#MpiIssend (s + nx_offset ?e) ?n (nx_pid ?e)#} else {#})"
    "\<forall>t. recvs t tr = []"
    and x': "x' = x\<lparr>nx_sends := (nx_sends x)[i := ?e\<lparr>nx_request := q, nx_offset := nx_offset ?e + ?n, nx_count := nx_count ?e - ?n\<rparr>]\<rparr>"
    unfolding part_sent_def Let_def by blast
  let ?f = "?e\<lparr>nx_request := q, nx_offset := nx_offset ?e + ?n, nx_count := nx_count ?e - ?n\<rparr>"
  have "send_rest s mx ?e = issends tr + send_rest s mx ?f"
  proof (cases "nx_count ?e = 0")
    case True
    then show ?thesis by (simp add: send_rest_def issend_calls_def tr)
  next
    case False
    then have "parts_of mx (s + nx_offset ?e) (nx_count ?e) =
        (s + nx_offset ?e, ?n) # parts_of mx (s + nx_offset ?e + mx) (nx_count ?e - mx)"
      using assms(4) by (intro parts_of_step) simp_all
    moreover have "parts_of mx (s + nx_offset ?e + mx) (nx_count ?e - mx) = parts_of mx (s + (nx_offset ?e + ?n)) (nx_count ?e - ?n)"
      by (cases "mx \<le> nx_count ?e") (simp_all add: min_def ac_simps)
    ultimately show ?thesis using False assms(4) by (simp add: send_rest_def issend_calls_def tr)
  qed
  moreover have "sends_rest s mx x + send_rest s mx ?f = sends_rest s mx x' + send_rest s mx ?e"
    unfolding x' by (rule sends_rest_update [OF assms(2,3)])
  ultimately have "sends_rest s mx x = issends tr + sends_rest s mx x'" by (simp add: ac_simps)
  then show ?thesis using tr by (simp add: x' same_rest_def)
qed

lemma acts_stateA_ok: "acts (stateA g) s tr (Inr y) s' \<longleftrightarrow> tr = [] \<and> g s = Inr (y, s')"
  unfolding acts_stateA by (cases "g s") auto

lemma acts_bind_stateA_ok:
  "acts (bindA (stateA g) f) s tr (Inr y) s' \<longleftrightarrow> (\<exists>x s1. g s = Inr (x, s1) \<and> acts (f x) s1 tr (Inr y) s')"
  unfolding acts_bind_stateA by (cases "g s") auto

lemma no_count: "nx_count e = 0 \<Longrightarrow> e\<lparr>nx_count := 0\<rparr> = e"
  by (cases e) simp

lemma part_sent_none:
  assumes "min mx (nx_count (nx_sends x ! i)) = 0" and "issends tr = {#}" and "\<And>t. recvs t tr = []"
  shows "part_sent s mx i x tr x"
proof -
  have "(nx_sends x ! i)\<lparr>nx_request := nx_request (nx_sends x ! i), nx_offset := nx_offset (nx_sends x ! i) + 0,
      nx_count := nx_count (nx_sends x ! i) - 0\<rparr> = nx_sends x ! i" by simp
  then show ?thesis
    unfolding part_sent_def Let_def using assms by (intro exI [of _ "nx_request (nx_sends x ! i)"]) simp
qed

lemma issend_advance_run:
  assumes "acts (bindA (issend_part what s mx i) (\<lambda>_. advance mx i)) x tr (Inr ()) x'" and "0 < min mx (nx_count (nx_sends x ! i))"
  shows "part_sent s mx i x tr x'"
proof -
  from assms(1) have i: "i < length (nx_sends x)"
    by (auto simp: issend_part_def acts_bind_bindA acts_bind_getA acts_bind_liftA vec_at_def split: if_splits sum.splits)
  let ?e = "nx_sends x ! i"
  from assms(1) i obtain h x1 where tr: "tr = [(MpiIssend (s + nx_offset ?e) (min mx (nx_count ?e)) (nx_pid ?e), Request h)]"
    and 1: "set_send i (\<lambda>e. e\<lparr>nx_request := Some h\<rparr>) x = Inr ((), x1)"
    and 2: "set_send i (\<lambda>e. e\<lparr>nx_offset := nx_offset e + min mx (nx_count e), nx_count := nx_count e - min mx (nx_count e)\<rparr>) x1 = Inr ((), x')"
    by (auto simp: issend_part_def advance_def Let_def acts_bind_bindA acts_bind_getA acts_bind_liftA vec_at_def acts_bind_mpiA_ok
        acts_bind_stateA_ok acts_stateA_ok mpi_results)
  show ?thesis
    using 1 2 assms(2) i unfolding set_send_run part_sent_def Let_def
    by (intro exI [of _ "Some h"]) (simp add: tr)
qed

lemma start_send_run:
  assumes "acts (start_send s mx i) x tr (Inr ()) x'"
  shows "part_sent s mx i x tr x' \<and> i < length (nx_sends x)"
proof -
  from assms have i: "i < length (nx_sends x)"
    by (auto simp: start_send_def acts_bind_getA acts_bind_liftA vec_at_def split: if_splits sum.splits)
  show ?thesis
  proof (cases "0 < min mx (nx_count (nx_sends x ! i))")
    case True
    then have "acts (bindA (issend_part ''Cannot send non-blocking synchronous MPI message'' s mx i) (\<lambda>_. advance mx i)) x tr (Inr ()) x'"
      using assms i by (simp add: start_send_def acts_bind_getA acts_bind_liftA)
    with True i show ?thesis by (simp add: issend_advance_run)
  next
    case False
    then have "tr = []" "set_send i (\<lambda>e. e\<lparr>nx_offset := nx_offset e + min mx (nx_count e), nx_count := nx_count e - min mx (nx_count e)\<rparr>) x = Inr ((), x')"
      using assms i
      by (auto simp: start_send_def advance_def acts_bind_getA acts_bind_liftA acts_bind_retA acts_stateA_ok)
    then have "tr = []" "x' = x" using False by (auto simp: set_send_run no_count)
    with False i show ?thesis by (auto intro!: part_sent_none)
  qed
qed

lemma nbx_continue_run:
  assumes "acts (nbx_continue s mx i) x tr (Inr ()) x'" and "0 < mx"
  shows "part_sent s mx i x tr x' \<and> i < length (nx_sends x)"
proof -
  from assms have i: "i < length (nx_sends x)"
    by (auto simp: nbx_continue_def acts_bind_getA acts_bind_liftA vec_at_def split: if_splits sum.splits)
  with assms show ?thesis
    by (cases "0 < nx_count (nx_sends x ! i)")
      (auto simp: nbx_continue_def acts_bind_getA acts_bind_liftA acts_retA intro: issend_advance_run part_sent_none)
qed

text \<open>The parts of several messages.\<close>

lemma parts_sent_run:
  assumes "acts (forA is f) x tr (Inr ()) x'"
    and "\<And>i y t y'. acts (f i) y t (Inr ()) y' \<Longrightarrow> part_sent s mx i y t y'"
    and "\<forall>i \<in> set is. i < nx_nSends x" and "nx_nSends x \<le> length (nx_sends x)" and "0 < mx"
  shows "sends_rest s mx x = issends tr + sends_rest s mx x' \<and> same_rest x x' \<and> (\<forall>t. recvs t tr = []) \<and>
    nx_nSends x' = nx_nSends x \<and> length (nx_sends x') = length (nx_sends x) \<and> nx_barrierActive x' = nx_barrierActive x"
  using assms(1,3,4)
proof (induction "is" arbitrary: x tr)
  case Nil
  then show ?case by (simp add: acts_retA same_rest_def)
next
  case (Cons i js)
  from Cons.prems(1) obtain t1 t2 x1 where tr: "tr = t1 @ t2" and 1: "acts (f i) x t1 (Inr ()) x1" and 2: "acts (forA js f) x1 t2 (Inr ()) x'"
    by (auto simp: acts_bindA)
  have "i < nx_nSends x" using Cons.prems(2) by simp
  from part_sent_rest [OF assms(2) [OF 1] this Cons.prems(3) assms(5)]
  have a: "sends_rest s mx x = issends t1 + sends_rest s mx x1 \<and> same_rest x x1 \<and> (\<forall>t. recvs t t1 = []) \<and>
    nx_nSends x1 = nx_nSends x \<and> length (nx_sends x1) = length (nx_sends x) \<and> nx_barrierActive x1 = nx_barrierActive x" .
  then have "sends_rest s mx x1 = issends t2 + sends_rest s mx x' \<and> same_rest x1 x' \<and> (\<forall>t. recvs t t2 = []) \<and>
    nx_nSends x' = nx_nSends x1 \<and> length (nx_sends x') = length (nx_sends x1) \<and> nx_barrierActive x' = nx_barrierActive x1"
    using Cons.prems by (intro Cons.IH [OF 2]) auto
  with a show ?case by (auto simp: tr ac_simps intro: same_rest_trans)
qed

lemma swap_out:
  assumes "i < n" and "n \<le> length es"
  shows "add_mset (es ! i) (mset (take (n - 1) (es[i := es ! (n - 1), n - 1 := es ! i]))) = mset (take n es)"
proof -
  let ?es = "es[i := es ! (n - 1), n - 1 := es ! i]"
  have "take n ?es = take (n - 1) ?es @ [?es ! (n - 1)]"
    using assms take_Suc_conv_app_nth [of "n - 1" ?es] by simp
  moreover have "?es ! (n - 1) = es ! i" using assms by simp
  moreover have "take n ?es = (take n es)[i := take n es ! (n - 1), n - 1 := take n es ! i]"
    using assms by (simp add: take_update_swap)
  moreover have "mset ((take n es)[i := take n es ! (n - 1), n - 1 := take n es ! i]) = mset (take n es)"
    using assms by (intro mset_swap) simp_all
  ultimately show ?thesis by (metis add_mset_add_single mset.simps mset_append)
qed

lemma remove_sent_run:
  assumes "remove_sent i n es = Inr (n', es')" and "n \<le> length es"
  shows "length es' = length es \<and> n' \<le> n \<and>
    (\<Sum>e \<in># mset (take n' es'). send_rest s mx e) = (\<Sum>e \<in># mset (take n es). send_rest s mx e)"
  using assms
proof (induction "n - i" arbitrary: i n es rule: less_induct)
  case less
  show ?case
  proof (cases "i < n")
    case False
    with less.prems show ?thesis by (simp add: remove_sent.simps [of i n es])
  next
    case True
    then have i: "i < length es" "n - 1 < length es" using less.prems(2) by simp_all
    let ?es = "es[i := es ! (n - 1), n - 1 := es ! i]"
    show ?thesis
    proof (cases "nx_count (es ! i) = 0 \<and> nx_request (es ! i) = None")
      case False
      then have "remove_sent i n es = remove_sent (i + 1) n es"
        using i by (subst remove_sent.simps) (auto simp: True)
      then have "remove_sent (i + 1) n es = Inr (n', es')" using less.prems(1) by simp
      with less.prems(2) True show ?thesis by (intro less.hyps [of n "i + 1" es]) simp_all
    next
      case sent: True
      then have "remove_sent i (n - 1) ?es = Inr (n', es')"
        using less.prems(1) i by (subst (asm) remove_sent.simps) (simp add: True)
      then have "length es' = length ?es \<and> n' \<le> n - 1 \<and>
          (\<Sum>e \<in># mset (take n' es'). send_rest s mx e) = (\<Sum>e \<in># mset (take (n - 1) ?es). send_rest s mx e)"
        using less.prems(2) True by (intro less.hyps) simp_all
      moreover have "send_rest s mx (es ! i) = {#}" using sent by (simp add: send_rest_def issend_calls_def)
      then have "(\<Sum>e \<in># mset (take (n - 1) ?es). send_rest s mx e) = (\<Sum>e \<in># mset (take n es). send_rest s mx e)"
        unfolding swap_out [OF True less.prems(2), symmetric] by simp
      ultimately show ?thesis using True by auto
    qed
  qed
qed

section \<open>The loop\<close>

text \<open>Parts that follow each other from an address on.\<close>

primrec stacked :: "addr \<Rightarrow> nat list \<Rightarrow> (addr \<times> nat) list" where
  "stacked a [] = []"
| "stacked a (n # ns) = (a, n) # stacked (a + n) ns"

lemma stacked_append: "stacked a (ns @ ms) = stacked a ns @ stacked (a + sum_list ns) ms"
  by (induction ns arbitrary: a) (simp_all add: ac_simps)

text \<open>The parts received in a trace fill the buffer from the place it has been filled to, and do not overrun it.\<close>

definition fills :: "nbx \<Rightarrow> (mpi_call \<times> mpi_reply) list \<Rightarrow> nbx \<Rightarrow> bool" where
  "fills x tr x' \<longleftrightarrow> (\<exists>ns. recvs 0 tr = stacked (nx_r x) ns \<and> nx_r x' = nx_r x + sum_list ns \<and>
     nx_received x' = nx_received x + sum_list ns \<and> nx_recvSize x = nx_recvSize x' + sum_list ns)"

lemma fills_none: "same_rest x x' \<Longrightarrow> recvs 0 tr = [] \<Longrightarrow> fills x tr x'"
  unfolding fills_def same_rest_def by (intro exI [of _ "[]"]) simp

lemma fills_trans: "fills x t1 y \<Longrightarrow> fills y t2 z \<Longrightarrow> fills x (t1 @ t2) z"
proof -
  assume "fills x t1 y" "fills y t2 z"
  then obtain ns ms where "recvs 0 t1 = stacked (nx_r x) ns" "nx_r y = nx_r x + sum_list ns"
     "nx_received y = nx_received x + sum_list ns" "nx_recvSize x = nx_recvSize y + sum_list ns"
     "recvs 0 t2 = stacked (nx_r y) ms" "nx_r z = nx_r y + sum_list ms"
     "nx_received z = nx_received y + sum_list ms" "nx_recvSize y = nx_recvSize z + sum_list ms"
    unfolding fills_def by blast
  then show "fills x (t1 @ t2) z"
    unfolding fills_def by (intro exI [of _ "ns @ ms"]) (simp add: stacked_append)
qed

lemma receive_message_run:
  assumes "acts receive_message x tr (Inr ()) x'"
  shows "fills x tr x' \<and> issends tr = {#} \<and> nx_sends x' = nx_sends x \<and> nx_nSends x' = nx_nSends x \<and>
    nx_barrierActive x' = nx_barrierActive x"
proof -
  from assms consider "tr = [(MpiIprobe, NoMessage)]" "x' = x"
    | src tag n where "tr = [(MpiIprobe, Arrived src tag n), (MpiRecv (nx_r x) n src 0, MpiSuccess)]" "n \<le> nx_recvSize x"
        "x' = x\<lparr>nx_r := nx_r x + n, nx_recvSize := nx_recvSize x - n, nx_received := nx_received x + n\<rparr>"
    by (auto simp: receive_message_def acts_bind_mpiA_ok acts_bind_getA acts_retA acts_throwA acts_if acts_modA mpi_results
        split: option.splits if_splits)
  then show ?thesis
  proof cases
    case 1
    then show ?thesis by (simp add: fills_none same_rest_def)
  next
    case 2
    then show ?thesis unfolding fills_def by (intro conjI exI [of _ "[n]"]) simp_all
  qed
qed

lemma fold_requests:
  "length (fold (\<lambda>i es. es[i := (es ! i)\<lparr>nx_request := None\<rparr>]) is es) = length es"
  "(\<Sum>e \<in># mset (take n (fold (\<lambda>i es. es[i := (es ! i)\<lparr>nx_request := None\<rparr>]) is es)). send_rest s mx e) =
    (\<Sum>e \<in># mset (take n es). send_rest s mx e)"
proof -
  show "length (fold (\<lambda>i es. es[i := (es ! i)\<lparr>nx_request := None\<rparr>]) is es) = length es"
    by (induction "is" arbitrary: es) simp_all
  have "List.map (send_rest s mx) (fold (\<lambda>i es. es[i := (es ! i)\<lparr>nx_request := None\<rparr>]) is es) = List.map (send_rest s mx) es"
  proof (induction "is" arbitrary: es)
    case Nil
    then show ?case by simp
  next
    case (Cons i js)
    have "List.map (send_rest s mx) (es[i := (es ! i)\<lparr>nx_request := None\<rparr>]) = List.map (send_rest s mx) es"
      by (cases "i < length es") (simp_all add: list_eq_iff_nth_eq nth_list_update send_rest_def)
    then show ?case by (simp add: Cons.IH)
  qed
  then show "(\<Sum>e \<in># mset (take n (fold (\<lambda>i es. es[i := (es ! i)\<lparr>nx_request := None\<rparr>]) is es)). send_rest s mx e) =
    (\<Sum>e \<in># mset (take n es). send_rest s mx e)"
    by (metis mset_map take_map)
qed

text \<open>One round of the sends: the state afterwards, and the barrier as soon as nothing is under way.\<close>

lemma check_sends_run:
  assumes "acts (check_sends s mx) x tr (Inr ()) x'" and "list_all testsome_ok tr" and "nx_nSends x \<le> length (nx_sends x)" and "0 < mx"
    and "\<not> nx_barrierActive x"
  shows "sends_rest s mx x = issends tr + sends_rest s mx x' \<and> same_rest x x' \<and> recvs 0 tr = [] \<and>
    nx_nSends x' \<le> length (nx_sends x') \<and> (nx_barrierActive x' \<longleftrightarrow> nx_nSends x' = 0) \<and>
    (nx_barrierActive x' \<longrightarrow> (\<exists>t. tr = t @ [(MpiIbarrier, MpiSuccess)]))"
proof -
  let ?marked = "\<lambda>is. x\<lparr>nx_sends := fold (\<lambda>i es. es[i := (es ! i)\<lparr>nx_request := None\<rparr>]) is (nx_sends x)\<rparr>"
  from assms(1) obtain "is" t where tr: "tr = (MpiTestsome (List.map nx_request (take (nx_nSends x) (nx_sends x))), Completed is) # t"
    and rest: "acts (bindA (forA is (nbx_continue s mx)) (\<lambda>_.
     bindA (stateA (\<lambda>x. bindE (remove_sent 0 (nx_nSends x) (nx_sends x)) (\<lambda>(n, es).
       Inr ((), x\<lparr>nx_nSends := n, nx_sends := es\<rparr>)))) (\<lambda>_.
     bindA getA (\<lambda>x.
     if nx_nSends x = 0
     then bindA (mpiA MpiIbarrier (succeeded ''Unable to start non-blocking MPI barrier'')) (\<lambda>_.
          modA (\<lambda>x. x\<lparr>nx_barrierActive := True\<rparr>))
     else retA ())))) (?marked is) t (Inr ()) x'"
    by (auto simp: check_sends_def acts_bind_getA acts_bind_mpiA_ok acts_bind_modA mpi_results)
  from rest obtain t1 t2 x1 where t: "t = t1 @ t2" and 1: "acts (forA is (nbx_continue s mx)) (?marked is) t1 (Inr ()) x1"
    and 2: "acts (bindA (stateA (\<lambda>x. bindE (remove_sent 0 (nx_nSends x) (nx_sends x)) (\<lambda>(n, es).
       Inr ((), x\<lparr>nx_nSends := n, nx_sends := es\<rparr>)))) (\<lambda>_.
     bindA getA (\<lambda>x.
     if nx_nSends x = 0
     then bindA (mpiA MpiIbarrier (succeeded ''Unable to start non-blocking MPI barrier'')) (\<lambda>_.
          modA (\<lambda>x. x\<lparr>nx_barrierActive := True\<rparr>))
     else retA ()))) x1 t2 (Inr ()) x'"
    unfolding acts_bindA [of "forA _ _"] by auto
  have "sends_rest s mx (?marked is) = issends t1 + sends_rest s mx x1 \<and> same_rest (?marked is) x1 \<and> (\<forall>t. recvs t t1 = []) \<and>
    nx_nSends x1 = nx_nSends (?marked is) \<and> length (nx_sends x1) = length (nx_sends (?marked is)) \<and>
    nx_barrierActive x1 = nx_barrierActive (?marked is)"
    using assms(2-4) nbx_continue_run [OF _ assms(4)]
    by (intro parts_sent_run [OF 1]) (auto simp: tr fold_requests)
  then have a: "sends_rest s mx x = issends t1 + sends_rest s mx x1" "same_rest x x1" "recvs 0 t1 = []"
    "nx_nSends x1 \<le> length (nx_sends x1)" "\<not> nx_barrierActive x1"
    using assms(3,5) by (simp_all add: sends_rest_def fold_requests same_rest_def)
  from 2 obtain n es where r: "remove_sent 0 (nx_nSends x1) (nx_sends x1) = Inr (n, es)"
    and x': "if n = 0 then t2 = [(MpiIbarrier, MpiSuccess)] \<and> x' = x1\<lparr>nx_nSends := n, nx_sends := es, nx_barrierActive := True\<rparr>
      else t2 = [] \<and> x' = x1\<lparr>nx_nSends := n, nx_sends := es\<rparr>"
    by (auto simp: acts_bind_stateA_ok bindE_simps acts_bind_getA acts_bind_mpiA_ok acts_modA acts_retA mpi_results acts_if
        split: if_splits)
  from remove_sent_run [OF r a(4)] have "length es = length (nx_sends x1)" "n \<le> nx_nSends x1"
    "(\<Sum>e \<in># mset (take n es). send_rest s mx e) = sends_rest s mx x1"
    by (simp_all add: sends_rest_def)
  with a x' show ?thesis
    by (cases "n = 0") (simp_all add: tr t same_rest_def, simp_all add: sends_rest_def)
qed

lemma nbx_loop_run:
  assumes "acts (nbx_loop k s mx) x tr (Inr ()) x'" and "list_all testsome_ok tr" and "nx_nSends x \<le> length (nx_sends x)" and "0 < mx"
    and "nx_barrierActive x \<longrightarrow> nx_nSends x = 0"
  shows "sends_rest s mx x = issends tr \<and> fills x tr x' \<and>
    (if nx_barrierActive x then issends tr = {#}
     else \<exists>t1 t2. tr = t1 @ (MpiIbarrier, MpiSuccess) # t2 \<and> issends t2 = {#})"
  using assms
proof (induction k arbitrary: x tr)
  case 0
  then show ?case by (simp add: acts_throwA)
next
  case (Suc k)
  from Suc.prems(1) obtain t t' y where tr: "tr = t @ t'" and 1: "acts receive_message x t (Inr ()) y"
    and 2: "acts (if \<not> nx_barrierActive y then bindA (check_sends s mx) (\<lambda>_. nbx_loop k s mx)
     else bindA (mpiA MpiTest (tested ''Unable to whether non-blocking MPI barrier has completed'')) (\<lambda>done.
          if done then retA () else nbx_loop k s mx)) y t' (Inr ()) x'"
    by (auto simp: acts_bindA [of receive_message] acts_bind_getA)
  from receive_message_run [OF 1] have y: "fills x t y" "issends t = {#}" "nx_sends y = nx_sends x" "nx_nSends y = nx_nSends x"
    "nx_barrierActive y = nx_barrierActive x" by simp_all
  have rest: "sends_rest s mx y = sends_rest s mx x" by (simp add: sends_rest_def y)
  show ?case
  proof (cases "nx_barrierActive x")
    case True
    with 2 obtain "done" u where t': "t' = (MpiTest, BarrierDone done) # u"
      and u: "acts (if done then retA () else nbx_loop k s mx) y u (Inr ()) x'"
      by (auto simp: y acts_bind_mpiA_ok mpi_results)
    have zero: "sends_rest s mx x = {#}" using Suc.prems(5) True by (simp add: sends_rest_def)
    show ?thesis
    proof (cases "done")
      case True
      with u have "u = []" "x' = y" by (simp_all add: acts_retA)
      moreover have "fills x (t @ [(MpiTest, BarrierDone done)]) y"
        by (rule fills_trans [OF y(1)]) (simp add: fills_none same_rest_def)
      ultimately show ?thesis using y(2) zero \<open>nx_barrierActive x\<close> by (simp add: tr t')
    next
      case False
      then have "acts (nbx_loop k s mx) y u (Inr ()) x'" using u by simp
      then have ih: "sends_rest s mx y = issends u \<and> fills y u x' \<and> issends u = {#}"
        using Suc.IH [of y u] Suc.prems \<open>nx_barrierActive x\<close> by (simp add: y tr t')
      have "fills y ((MpiTest, BarrierDone done) # u) x'"
        using fills_trans [of y "[(MpiTest, BarrierDone done)]" y u x'] ih by (simp add: fills_none same_rest_def)
      then have "fills x tr x'" unfolding tr t' by (rule fills_trans [OF y(1)])
      then show ?thesis using ih y(2) zero \<open>nx_barrierActive x\<close> by (simp add: tr t')
    qed
  next
    case False
    with 2 obtain t1 t2 z where t': "t' = t1 @ t2" and 3: "acts (check_sends s mx) y t1 (Inr ()) z"
      and 4: "acts (nbx_loop k s mx) z t2 (Inr ()) x'"
      by (auto simp: y acts_bindA [of "check_sends _ _"])
    have z: "sends_rest s mx y = issends t1 + sends_rest s mx z" "same_rest y z" "recvs 0 t1 = []" "nx_nSends z \<le> length (nx_sends z)"
      "nx_barrierActive z \<longleftrightarrow> nx_nSends z = 0" "nx_barrierActive z \<longrightarrow> (\<exists>t. t1 = t @ [(MpiIbarrier, MpiSuccess)])"
      using check_sends_run [OF 3] Suc.prems(2-4) False by (simp_all add: tr t' y)
    from Suc.IH [OF 4] Suc.prems(2,4) z have ih: "sends_rest s mx z = issends t2" "fills z t2 x'"
      "if nx_barrierActive z then issends t2 = {#} else \<exists>t1 u. t2 = t1 @ (MpiIbarrier, MpiSuccess) # u \<and> issends u = {#}"
      by (simp_all add: tr t')
    have "fills x tr x'" unfolding tr t'
      using fills_trans [OF y(1) fills_trans [OF fills_none [OF z(2,3)] ih(2)]] by simp
    moreover have "\<exists>u1 u2. tr = u1 @ (MpiIbarrier, MpiSuccess) # u2 \<and> issends u2 = {#}"
    proof (cases "nx_barrierActive z")
      case True
      then obtain u where "t1 = u @ [(MpiIbarrier, MpiSuccess)]" using z(6) by blast
      then show ?thesis using True ih(3) by (intro exI [of _ "t @ u"] exI [of _ t2]) (simp add: tr t')
    next
      case False
      then obtain u v where "t2 = u @ (MpiIbarrier, MpiSuccess) # v" "issends v = {#}" using ih(3) by auto
      then show ?thesis by (intro exI [of _ "t @ t1 @ u"] exI [of _ v]) (simp add: tr t')
    qed
    ultimately show ?thesis using z(1) ih(1) y(2) rest False by (simp add: tr t')
  qed
qed

text \<open>
  C10: A sparse total exchange that returns: the synchronous sends are exactly the parts of the messages, each once, and all of them
  are made before the process enters the barrier; the parts that arrive are stored one after the other from the start of the
  receive buffer, never beyond its end, and the result is the number of their bytes.
\<close>

theorem sparse_exchange:
  assumes "acts (allToAll k mx szreq sendData sends tempSpace) (nbx_start sends recvData recvSize) tr (Inr received) x'"
    and "list_all testsome_ok tr" and "0 < mx"
  shows "issends tr = (\<Sum>(off, cnt, pid) \<leftarrow> sends. issend_calls mx (sendData + off) cnt pid) \<and>
    (\<exists>t1 t2. tr = t1 @ (MpiIbarrier, MpiSuccess) # t2 \<and> issends t2 = {#}) \<and>
    (\<exists>ns. recvs 0 tr = stacked recvData ns \<and> sum_list ns = received \<and> received \<le> recvSize)"
proof -
  let ?x = "nbx_start sends recvData recvSize"
  from assms(1) obtain t1 t2 x1 where tr: "tr = t1 @ t2"
    and 1: "acts (forA [0..<length sends] (start_send sendData mx)) ?x t1 (Inr ()) x1"
    and 2: "acts (nbx_loop k sendData mx) x1 t2 (Inr ()) x'" and r: "received = nx_received x'"
    by (auto simp: allToAll_def acts_bind_assertA acts_bind_if acts_bind_throwA acts_bind_retA acts_bindA [of "forA _ _"]
        acts_bindA [of "nbx_loop _ _ _"] acts_bind_getA acts_getA acts_retA split: if_splits)
  have a: "sends_rest sendData mx ?x = issends t1 + sends_rest sendData mx x1" "same_rest ?x x1" "recvs 0 t1 = []"
    "nx_nSends x1 = length sends" "length (nx_sends x1) = length sends" "\<not> nx_barrierActive x1"
    using parts_sent_run [OF 1, of sendData mx] start_send_run assms(3) by (auto simp: nbx_start_def)
  have b: "sends_rest sendData mx x1 = issends t2" "fills x1 t2 x'" "\<exists>u v. t2 = u @ (MpiIbarrier, MpiSuccess) # v \<and> issends v = {#}"
    using nbx_loop_run [OF 2] assms(2,3) a by (simp_all add: tr)
  have "sends_rest sendData mx ?x = (\<Sum>(off, cnt, pid) \<leftarrow> sends. issend_calls mx (sendData + off) cnt pid)"
    by (simp add: sends_rest_def nbx_start_def send_rest_def sum_mset_sum_list [symmetric] comp_def case_prod_unfold
        flip: mset_map)
  moreover have "\<exists>u v. tr = u @ (MpiIbarrier, MpiSuccess) # v \<and> issends v = {#}"
    using b(3) unfolding tr by (metis append.assoc)
  moreover have "\<exists>ns. recvs 0 tr = stacked recvData ns \<and> sum_list ns = received \<and> received \<le> recvSize"
  proof -
    have "fills ?x tr x'" unfolding tr by (rule fills_trans [OF fills_none [OF a(2,3)] b(2)])
    then show ?thesis unfolding fills_def r by (auto simp: nbx_start_def)
  qed
  ultimately show ?thesis using a(1) b(1) by (simp add: tr)
qed

text \<open>Two messages of three and of one byte, with parts of two bytes; the two parts received come from different processes.\<close>

definition demo_sparse :: "(mpi_call \<times> mpi_reply) list" where
  "demo_sparse =
    [(MpiIssend 10 2 1, Request 1), (MpiIssend 20 1 2, Request 2), (MpiIprobe, Arrived 1 0 2), (MpiRecv 50 2 1 0, MpiSuccess),
     (MpiTestsome [Some 1, Some 2], Completed [1, 0]), (MpiIssend 12 1 1, Request 3), (MpiIprobe, Arrived 2 0 1),
     (MpiRecv 52 1 2 0, MpiSuccess), (MpiTestsome [Some 3], Completed [0]), (MpiIbarrier, MpiSuccess),
     (MpiIprobe, NoMessage), (MpiTest, BarrierDone True)]"

lemma demo_sparse_run:
  "\<exists>x'. acts (allToAll (Suc (Suc (Suc 0))) 2 4 0 [(10, 3, 1), (20, 1, 2)] 16) (nbx_start [(10, 3, 1), (20, 1, 2)] 50 8) demo_sparse (Inr 3) x'"
  by (simp add: allToAll_def start_send_def issend_part_def advance_def receive_message_def check_sends_def nbx_continue_def
      tempspace_size_def Let_def nbx_start_def demo_sparse_def mpiA_def act_defs request_of_def completed_def succeeded_def probed_def
      tested_def set_send_def vec_set_def vec_swap_def vec_at_def remove_sent.simps)

theorem sparse_exchange_witness:
  "issends demo_sparse = {#MpiIssend 10 2 1, MpiIssend 12 1 1, MpiIssend 20 1 2#} \<and> (\<exists>ns. recvs 0 demo_sparse = stacked 50 ns \<and> sum_list ns = 3)"
proof -
  obtain x' where "acts (allToAll (Suc (Suc (Suc 0))) 2 4 0 [(10, 3, 1), (20, 1, 2)] 16)
      (nbx_start [(10, 3, 1), (20, 1, 2)] 50 8) demo_sparse (Inr 3) x'"
    using demo_sparse_run by blast
  from sparse_exchange [OF this] show ?thesis
    by (auto simp: demo_sparse_def issend_calls_def parts_of_step)
qed

end
