(* ===== verification/Time.thy ===== *)
theory Time imports Prelude begin

text \<open>
  The timer of \<open>src/common/time.cpp\<close>: a \<open>struct timespec\<close> with its arithmetic, its comparisons and
  its output, and the busy wait.  \<open>time_t\<close> and \<open>long\<close> are \<open>int\<close>: the code does not guard
  against the overflow of the seconds, which needs times beyond 292 thousand million years.
  The clock is a parameter: \<open>clk k\<close> is the result of the \<open>k\<close>-th call of \<open>clock_gettime\<close>, \<open>None\<close>
  when it fails.  What computes with \<open>double\<close> (\<open>toSeconds\<close>, \<open>fromSeconds\<close>, \<open>operator*=\<close>)
  is in \<open>Time_Double\<close>.
\<close>

datatype time = Time (tv_sec: int) (tv_nsec: int)

definition time_zero :: time where
  "time_zero = Time 0 0"

definition time_now :: "(nat \<Rightarrow> time option) \<Rightarrow> nat \<Rightarrow> fault + time" where
  "time_now clk k =
     (case clk k of
        None \<Rightarrow> Inl (ErrorThrown ''Unable to query high-precision system clock'')
      | Some t \<Rightarrow> Inr t)"

definition time_minus :: "time \<Rightarrow> time \<Rightarrow> time" where
  "time_minus t x =
     (let sec = tv_sec t - tv_sec x in
      if tv_nsec t < tv_nsec x then Time (sec - 1) (1000000000 - tv_nsec x + tv_nsec t)
      else Time sec (tv_nsec t - tv_nsec x))"

definition time_plus :: "time \<Rightarrow> time \<Rightarrow> time" where
  "time_plus t x =
     (let sec = tv_sec t + tv_sec x in
      if tv_nsec t \<ge> 1000000000 - tv_nsec x then Time (sec + 1) (tv_nsec t + tv_nsec x - 1000000000)
      else Time sec (tv_nsec t + tv_nsec x))"

definition time_equals :: "time \<Rightarrow> time \<Rightarrow> bool" where
  "time_equals t x \<longleftrightarrow> tv_sec t = tv_sec x \<and> tv_nsec t = tv_nsec x"

definition time_lessThan :: "time \<Rightarrow> time \<Rightarrow> bool" where
  "time_lessThan t x =
     (if tv_sec t > tv_sec x then False
      else if tv_sec t = tv_sec x \<and> tv_nsec t \<ge> tv_nsec x then False
      else True)"

definition time_less_eq :: "time \<Rightarrow> time \<Rightarrow> bool" where
  "time_less_eq a b \<longleftrightarrow> time_lessThan a b \<or> time_equals a b"

text \<open>The inline comparison operators of the header are an instance of the order classes.\<close>

instantiation time :: linorder
begin

definition less_time_def: "a < b \<longleftrightarrow> time_lessThan a b"

definition less_eq_time_def: "a \<le> b \<longleftrightarrow> time_less_eq a b"

instance
proof
  fix x y z :: time
  show "x < y \<longleftrightarrow> x \<le> y \<and> \<not> y \<le> x"
    by (cases x; cases y) (auto simp: less_time_def less_eq_time_def time_less_eq_def time_lessThan_def time_equals_def)
  show "x \<le> x"
    by (simp add: less_eq_time_def time_less_eq_def time_equals_def)
  show "x \<le> y \<Longrightarrow> y \<le> z \<Longrightarrow> x \<le> z"
    by (cases x; cases y; cases z)
       (auto simp: less_eq_time_def time_less_eq_def time_lessThan_def time_equals_def split: if_splits)
  show "x \<le> y \<Longrightarrow> y \<le> x \<Longrightarrow> x = y"
    by (cases x; cases y) (auto simp: less_eq_time_def time_less_eq_def time_lessThan_def time_equals_def split: if_splits)
  show "x \<le> y \<or> y \<le> x"
    by (cases x; cases y) (auto simp: less_eq_time_def time_less_eq_def time_lessThan_def time_equals_def)
qed

end

definition time_greater :: "time \<Rightarrow> time \<Rightarrow> bool" where
  "time_greater a b \<longleftrightarrow> \<not> time_lessThan a b \<and> \<not> time_equals a b"

definition time_greater_eq :: "time \<Rightarrow> time \<Rightarrow> bool" where
  "time_greater_eq a b \<longleftrightarrow> \<not> time_lessThan a b"

definition time_not_equal :: "time \<Rightarrow> time \<Rightarrow> bool" where
  "time_not_equal a b \<longleftrightarrow> \<not> time_equals a b"

text \<open>\<open>output\<close>: the numbers that go to the stream before and after the point.\<close>

definition time_output :: "time \<Rightarrow> fault + int \<times> int" where
  "time_output t =
     (let sec = tv_sec t; nsec = tv_nsec t;
          (sec', nsec') = (if sec < 0 then (sec + 1, 1000000000 - nsec) else (sec, nsec))
      in bindE (ASSERT (nsec' \<ge> 0)) (\<lambda>_. Inr (sec', nsec')))"

text \<open>
  The busy wait.  Reading the clock is the only thing that the loop does, so it may run forever;
  \<open>wait_from\<close> returns the number of clock readings made.
\<close>

partial_function (option) wait_from :: "(nat \<Rightarrow> time option) \<Rightarrow> time \<Rightarrow> nat \<Rightarrow> (fault + nat) option" where
  "wait_from clk deadline k =
     (case time_now clk k of
        Inl e \<Rightarrow> Some (Inl e)
      | Inr t \<Rightarrow> if time_lessThan t deadline then wait_from clk deadline (k + 1) else Some (Inr (k + 1)))"

definition busyWait :: "(nat \<Rightarrow> time option) \<Rightarrow> time \<Rightarrow> (fault + nat) option" where
  "busyWait clk timeout =
     (case time_now clk 0 of
        Inl e \<Rightarrow> Some (Inl e)
      | Inr t \<Rightarrow> wait_from clk (time_plus t timeout) 1)"

section \<open>The value of a time\<close>

definition time_ok :: "time \<Rightarrow> bool" where
  "time_ok t \<longleftrightarrow> 0 \<le> tv_nsec t \<and> tv_nsec t < 1000000000"

definition nanoseconds :: "time \<Rightarrow> int" where
  "nanoseconds t = 1000000000 * tv_sec t + tv_nsec t"

lemma nanoseconds_zero [simp]: "nanoseconds time_zero = 0" "time_ok time_zero"
  by (simp_all add: nanoseconds_def time_zero_def time_ok_def)

lemma time_plus_ok: "time_ok a \<Longrightarrow> time_ok b \<Longrightarrow> time_ok (time_plus a b) \<and> nanoseconds (time_plus a b) = nanoseconds a + nanoseconds b"
  by (auto simp: time_ok_def time_plus_def nanoseconds_def Let_def)

lemma time_minus_ok: "time_ok a \<Longrightarrow> time_ok b \<Longrightarrow> time_ok (time_minus a b) \<and> nanoseconds (time_minus a b) = nanoseconds a - nanoseconds b"
  by (auto simp: time_ok_def time_minus_def nanoseconds_def Let_def)

lemma nanoseconds_split:
  "time_ok t \<Longrightarrow> tv_sec t = nanoseconds t div 1000000000 \<and> tv_nsec t = nanoseconds t mod 1000000000"
  by (simp add: time_ok_def nanoseconds_def)

lemma nanoseconds_inject: "time_ok a \<Longrightarrow> time_ok b \<Longrightarrow> nanoseconds a = nanoseconds b \<longleftrightarrow> a = b"
  using nanoseconds_split [of a] nanoseconds_split [of b] by (auto intro: time.expand)

lemma time_lessThan_iff: "time_ok a \<Longrightarrow> time_ok b \<Longrightarrow> time_lessThan a b \<longleftrightarrow> nanoseconds a < nanoseconds b"
  by (auto simp: time_ok_def nanoseconds_def time_lessThan_def)

lemma time_equals_iff: "time_equals a b \<longleftrightarrow> a = b"
  by (cases a; cases b) (simp add: time_equals_def)

lemma wait_from_stops:
  assumes "k \<le> n" and "\<forall>j < n. k \<le> j \<longrightarrow> (\<exists>t. clk j = Some t \<and> time_lessThan t d)"
    and "clk n = Some t" and "\<not> time_lessThan t d"
  shows "wait_from clk d k = Some (Inr (n + 1))"
  using assms
proof (induction "n - k" arbitrary: k)
  case 0
  then show ?case by (simp add: wait_from.simps [of clk d k] time_now_def)
next
  case (Suc m)
  then have "k < n" by simp
  then obtain u where u: "clk k = Some u" "time_lessThan u d" using Suc.prems(2) by auto
  have "wait_from clk d (k + 1) = Some (Inr (n + 1))"
    using Suc.hyps(2) Suc.prems by (intro Suc.hyps(1)) auto
  then show ?case using u by (simp add: wait_from.simps [of clk d k] time_now_def)
qed

section \<open>Properties\<close>

text \<open>
  On normalised times (nanoseconds below one second) addition and subtraction give
  normalised times whose value is the sum and the difference, and the comparison operators
  compare the values.
\<close>

theorem time_arithmetic_correct:
  assumes "time_ok a" and "time_ok b"
  shows "time_ok (time_plus a b) \<and> nanoseconds (time_plus a b) = nanoseconds a + nanoseconds b \<and>
    time_ok (time_minus a b) \<and> nanoseconds (time_minus a b) = nanoseconds a - nanoseconds b \<and>
    time_plus (time_minus a b) b = a \<and>
    (a < b \<longleftrightarrow> nanoseconds a < nanoseconds b) \<and> (a \<le> b \<longleftrightarrow> nanoseconds a \<le> nanoseconds b) \<and>
    (time_greater a b \<longleftrightarrow> nanoseconds b < nanoseconds a) \<and> (time_greater_eq a b \<longleftrightarrow> nanoseconds b \<le> nanoseconds a) \<and>
    (time_not_equal a b \<longleftrightarrow> nanoseconds a \<noteq> nanoseconds b)"
proof -
  note p = time_plus_ok [OF assms] and m = time_minus_ok [OF assms]
  note l = time_lessThan_iff [OF assms] and e = nanoseconds_inject [OF assms]
  have "time_plus (time_minus a b) b = a"
    using time_plus_ok [of "time_minus a b" b] m assms nanoseconds_inject by auto
  then show ?thesis using p m l e
    by (auto simp: less_time_def less_eq_time_def time_less_eq_def time_equals_iff time_greater_def time_greater_eq_def time_not_equal_def)
qed

theorem time_arithmetic_correct_witness:
  "nanoseconds (time_plus (Time 1 600000000) (Time 2 500000000)) = 4100000000 \<and>
   nanoseconds (time_minus (Time 1 200000000) (Time 2 500000000)) = - 1300000000"
  using time_arithmetic_correct [of "Time 1 600000000" "Time 2 500000000"]
    time_arithmetic_correct [of "Time 1 200000000" "Time 2 500000000"]
  by (simp add: time_ok_def nanoseconds_def)

text \<open>
  The busy wait returns at the first reading of the clock that reaches the deadline, and then
  at least the timeout has passed since its first reading.
\<close>

theorem busyWait_correct:
  assumes "clk 0 = Some t0" and "clk n = Some t" and "1 \<le> n"
    and "\<forall>j < n. 1 \<le> j \<longrightarrow> (\<exists>u. clk j = Some u \<and> time_lessThan u (time_plus t0 timeout))"
    and "\<not> time_lessThan t (time_plus t0 timeout)"
    and "time_ok t0" and "time_ok t" and "time_ok timeout"
  shows "busyWait clk timeout = Some (Inr (n + 1)) \<and> nanoseconds timeout \<le> nanoseconds t - nanoseconds t0"
proof
  show "busyWait clk timeout = Some (Inr (n + 1))"
    using wait_from_stops [OF assms(3,4,2,5)] assms(1) by (simp add: busyWait_def time_now_def)
  have "\<not> nanoseconds t < nanoseconds (time_plus t0 timeout)"
    using assms(5-8) time_plus_ok [of t0 timeout] time_lessThan_iff [of t "time_plus t0 timeout"] by simp
  then show "nanoseconds timeout \<le> nanoseconds t - nanoseconds t0" using time_plus_ok [of t0 timeout] assms(6,8) by simp
qed

theorem busyWait_correct_witness:
  "busyWait (\<lambda>k. Some (Time 5 (int k * 400000000 mod 1000000000))) (Time 0 700000000) = Some (Inr 3)"
  using busyWait_correct [of "\<lambda>k. Some (Time 5 (int k * 400000000 mod 1000000000))" "Time 5 0" 2 "Time 5 800000000" "Time 0 700000000"]
  by (simp add: time_ok_def time_plus_def time_lessThan_def less_Suc_eq numeral_2_eq_2)

text \<open>
  \<open>output\<close> prints a time of at least zero as it is.  For a negative time it prints
  a whole part and a fraction of the magnitude, but no sign when the whole part is zero: \<open>-0.5\<close>
  comes out as \<open>0.500000000\<close>; and a whole number of seconds gets a fraction of a thousand million.
\<close>

theorem time_output_negative:
  assumes "time_ok t"
  shows "\<exists>s n. time_output t = Inr (s, n) \<and>
    (0 \<le> tv_sec t \<longrightarrow> s = tv_sec t \<and> n = tv_nsec t) \<and>
    (tv_sec t < 0 \<longrightarrow> s \<le> 0 \<and> - nanoseconds t = 1000000000 * (- s) + n) \<and>
    (tv_sec t = - 1 \<longrightarrow> s = 0) \<and> (tv_sec t < 0 \<and> tv_nsec t = 0 \<longrightarrow> n = 1000000000)"
  using assms by (auto simp: time_output_def time_ok_def nanoseconds_def Let_def ASSERT_def)

theorem time_output_negative_witness:
  "time_output (Time (- 1) 500000000) = Inr (0, 500000000) \<and> time_output (Time 0 500000000) = Inr (0, 500000000)"
  using time_output_negative [of "Time (- 1) 500000000"] time_output_negative [of "Time 0 500000000"]
  by (auto simp: time_ok_def nanoseconds_def)

end
