(* ===== verification/Double.thy ===== *)
theory Double imports Prelude "HOL-Library.Log_Nat" begin

text \<open>
  The type \<open>double\<close> of C++, as the IEEE format with 64 bits that the compilers of the library use: a value is a finite number,
  which is a multiple of a power of two with at most 53 digits, an infinity, or not a number.  Every operation computes the exact
  result as a rational number and rounds it to the nearest value, to the even one of two that are equally near.  The sign of a
  zero is left out: the only operation that shows it is a division by zero.
\<close>

section \<open>Rounding\<close>

text \<open>The exponent of the leading binary digit of a positive number.\<close>

definition leading :: "rat \<Rightarrow> int" where
  "leading x =
     (let (n, d) = quotient_of x; k = bitlen n - bitlen d in if 2 powi k \<le> x then k else k - 1)"

definition quantum :: "rat \<Rightarrow> rat" where
  "quantum x = 2 powi max (leading \<bar>x\<bar> - 52) (-1074)"

definition nearest_even :: "rat \<Rightarrow> int" where
  "nearest_even x =
     (let f = \<lfloor>x\<rfloor>; r = x - of_int f in
      if r < 1 / 2 then f else if r > 1 / 2 then f + 1 else if even f then f else f + 1)"

definition rounded :: "rat \<Rightarrow> rat" where
  "rounded x = (if x = 0 then 0 else of_int (nearest_even (x / quantum x)) * quantum x)"

datatype double = Fin rat | Inf bool | NaN

definition to_double :: "rat \<Rightarrow> double" where
  "to_double x = (let y = rounded x in if \<bar>y\<bar> \<ge> 2 powi 1024 then Inf (y < 0) else Fin y)"

section \<open>Operations\<close>

text \<open>\<open>Inf True\<close> is the negative infinity.\<close>

fun d_neg :: "double \<Rightarrow> double" where
  "d_neg (Fin x) = Fin (- x)"
| "d_neg (Inf s) = Inf (\<not> s)"
| "d_neg NaN = NaN"

fun d_add :: "double \<Rightarrow> double \<Rightarrow> double" where
  "d_add (Fin x) (Fin y) = to_double (x + y)"
| "d_add (Inf s) (Inf t) = (if s = t then Inf s else NaN)"
| "d_add (Inf s) (Fin y) = Inf s"
| "d_add (Fin x) (Inf t) = Inf t"
| "d_add NaN b = NaN"
| "d_add a NaN = NaN"

definition d_sub :: "double \<Rightarrow> double \<Rightarrow> double" where
  "d_sub a b = d_add a (d_neg b)"

fun d_mul :: "double \<Rightarrow> double \<Rightarrow> double" where
  "d_mul (Fin x) (Fin y) = to_double (x * y)"
| "d_mul (Inf s) (Inf t) = Inf (s \<noteq> t)"
| "d_mul (Inf s) (Fin y) = (if y = 0 then NaN else Inf (s \<noteq> (y < 0)))"
| "d_mul (Fin x) (Inf t) = (if x = 0 then NaN else Inf ((x < 0) \<noteq> t))"
| "d_mul NaN b = NaN"
| "d_mul a NaN = NaN"

fun d_div :: "double \<Rightarrow> double \<Rightarrow> double" where
  "d_div (Fin x) (Fin y) = (if y = 0 then if x = 0 then NaN else Inf (x < 0) else to_double (x / y))"
| "d_div (Inf s) (Inf t) = NaN"
| "d_div (Inf s) (Fin y) = Inf (s \<noteq> (y < 0))"
| "d_div (Fin x) (Inf t) = Fin 0"
| "d_div NaN b = NaN"
| "d_div a NaN = NaN"

fun d_less :: "double \<Rightarrow> double \<Rightarrow> bool" where
  "d_less (Fin x) (Fin y) \<longleftrightarrow> x < y"
| "d_less (Inf s) (Inf t) \<longleftrightarrow> s \<and> \<not> t"
| "d_less (Inf s) (Fin y) \<longleftrightarrow> s"
| "d_less (Fin x) (Inf t) \<longleftrightarrow> \<not> t"
| "d_less NaN b \<longleftrightarrow> False"
| "d_less a NaN \<longleftrightarrow> False"

text \<open>\<open>std::max\<close> and \<open>std::min\<close>: the first one, unless the second is really larger or smaller.\<close>

definition d_max :: "double \<Rightarrow> double \<Rightarrow> double" where
  "d_max a b = (if d_less a b then b else a)"

definition d_min :: "double \<Rightarrow> double \<Rightarrow> double" where
  "d_min a b = (if d_less b a then b else a)"

text \<open>The limits of the type: the largest finite value and the smallest normal one.\<close>

definition DBL_MAX :: double where
  "DBL_MAX = Fin (2 powi 1024 - 2 powi 971)"

definition DBL_MIN :: double where
  "DBL_MIN = Fin (2 powi (-1022))"

text \<open>
  Conversions.  That of an integer rounds; the one to an integer, \<open>static_cast\<close>, drops the fraction, and has no value when the
  result does not fit, which is \<open>None\<close> here.
\<close>

definition d_of_int :: "int \<Rightarrow> double" where
  "d_of_int n = to_double (of_int n)"

definition truncate :: "rat \<Rightarrow> int" where
  "truncate x = (if x < 0 then \<lceil>x\<rceil> else \<lfloor>x\<rfloor>)"

definition d_to_int :: "nat \<Rightarrow> double \<Rightarrow> int option" where
  "d_to_int w d = (case d of
     Fin x \<Rightarrow> if - (2 ^ (w - 1)) \<le> truncate x \<and> truncate x < 2 ^ (w - 1) then Some (truncate x) else None
   | _ \<Rightarrow> None)"

section \<open>The values\<close>

text \<open>What a variable of the type can hold.\<close>

definition double_ok :: "double \<Rightarrow> bool" where
  "double_ok d \<longleftrightarrow> (case d of Fin x \<Rightarrow> to_double x = Fin x | _ \<Rightarrow> True)"

lemma leading_bounds:
  assumes "0 < x"
  shows "2 powi leading x \<le> x \<and> x < 2 powi (leading x + 1)"
proof -
  obtain n d where q: "quotient_of x = (n, d)" by (cases "quotient_of x")
  then have x: "x = of_int n / of_int d" and d: "0 < d"
    using quotient_of_div quotient_of_denom_pos by blast+
  with assms have n: "0 < n" by (simp add: zero_less_divide_iff)
  have up: "(of_int m :: rat) < 2 powi bitlen m" and low: "2 powi (bitlen m - 1) \<le> (of_int m :: rat)" if "0 < m" for m
  proof -
    have b: "2 ^ nat (bitlen m - 1) \<le> m" "m < 2 ^ nat (bitlen m)" "0 < bitlen m"
      using bitlen_bounds [OF that] bitlen_eq_zero_iff [of m] bitlen_nonneg [of m] that by linarith+
    from b(1) have "of_int (2 ^ nat (bitlen m - 1)) \<le> (of_int m :: rat)" by (simp only: of_int_le_iff)
    then show "2 powi (bitlen m - 1) \<le> (of_int m :: rat)" using b(3) by (simp add: power_int_def)
    from b(2) have "(of_int m :: rat) < of_int (2 ^ nat (bitlen m))" by (simp only: of_int_less_iff)
    then show "(of_int m :: rat) < 2 powi bitlen m" using b(3) by (simp add: power_int_def)
  qed
  let ?k = "bitlen n - bitlen d"
  have "x < 2 powi (?k + 1)"
  proof -
    have "of_int n < (2 powi bitlen n :: rat)" and "2 powi (bitlen d - 1) \<le> (of_int d :: rat)" using up low n d by blast+
    then have "x < 2 powi bitlen n / 2 powi (bitlen d - 1)"
      unfolding x using d n by (intro frac_less) auto
    also have "\<dots> = 2 powi (?k + 1)" by (simp add: power_int_diff [symmetric] algebra_simps)
    finally show ?thesis .
  qed
  moreover have "2 powi (?k - 1) \<le> x"
  proof -
    have "2 powi (bitlen n - 1) \<le> (of_int n :: rat)" and "of_int d < (2 powi bitlen d :: rat)" using up low n d by blast+
    then have "2 powi (bitlen n - 1) / 2 powi bitlen d \<le> x"
      unfolding x using d n by (intro frac_le) auto
    then show ?thesis by (simp add: power_int_diff [symmetric] algebra_simps)
  qed
  ultimately show ?thesis by (auto simp: leading_def q Let_def)
qed

lemma leading_le:
  assumes "0 < x" and "x < 2 powi k"
  shows "leading x < k"
proof -
  have "(2 :: rat) powi leading x < 2 powi k" using leading_bounds [OF assms(1)] assms(2) by linarith
  then show ?thesis by (metis linorder_not_le power_int_increasing one_le_numeral)
qed

text \<open>A number that has a representation is not changed, and what the rounding gives has one.\<close>

definition representable :: "rat \<Rightarrow> bool" where
  "representable x \<longleftrightarrow> (\<exists>m e. x = of_int m * 2 powi e \<and> \<bar>m\<bar> < 2 ^ 53 \<and> -1074 \<le> e)"

lemma representableI: "\<bar>m\<bar> < 2 ^ 53 \<Longrightarrow> -1074 \<le> e \<Longrightarrow> representable (of_int m * 2 powi e)"
  unfolding representable_def by blast

lemma nearest_even_int [simp]: "nearest_even (of_int m) = m"
  by (simp add: nearest_even_def)

lemma nearest_even_bound:
  assumes "\<bar>x\<bar> < of_int n"
  shows "\<bar>nearest_even x\<bar> \<le> n"
proof -
  have "nearest_even x = \<lfloor>x\<rfloor> \<or> nearest_even x = \<lfloor>x\<rfloor> + 1" by (simp add: nearest_even_def Let_def)
  moreover have "- n \<le> \<lfloor>x\<rfloor>" "\<lfloor>x\<rfloor> < n" using assms by (auto simp: le_floor_iff floor_less_iff)
  ultimately show ?thesis by auto
qed

lemma rounded_representable:
  assumes "representable x"
  shows "rounded x = x"
proof (cases "x = 0")
  case False
  obtain m e where x: "x = of_int m * 2 powi e" and m: "\<bar>m\<bar> < 2 ^ 53" and e: "-1074 \<le> e"
    using assms unfolding representable_def by blast
  have "\<bar>x\<bar> < 2 powi (53 + e)"
  proof -
    have "of_int \<bar>m\<bar> < (of_int (2 ^ 53) :: rat)" using m by (simp only: of_int_less_iff)
    then have "\<bar>x\<bar> < of_int (2 ^ 53) * 2 powi e" by (simp add: x abs_mult)
    also have "\<dots> = 2 powi (53 + e)" by (simp add: power_int_add)
    finally show ?thesis .
  qed
  then have "leading \<bar>x\<bar> < 53 + e" using False by (intro leading_le) simp_all
  then have f: "max (leading \<bar>x\<bar> - 52) (-1074) \<le> e" using e by simp
  let ?f = "max (leading \<bar>x\<bar> - 52) (-1074)"
  have "x / quantum x = of_int (m * 2 ^ nat (e - ?f))"
  proof -
    have "x / quantum x = of_int m * 2 powi (e - ?f)"
      unfolding x quantum_def by (subst power_int_diff) (simp_all add: x)
    also have "(2 :: rat) powi (e - ?f) = 2 ^ nat (e - ?f)" using f by (simp add: power_int_def)
    finally show ?thesis by simp
  qed
  then have "of_int (nearest_even (x / quantum x)) = x / quantum x" by (simp only: nearest_even_int)
  then show ?thesis using False by (simp add: rounded_def quantum_def)
qed (simp add: rounded_def)

lemma representable_rounded: "representable (rounded x)"
proof (cases "x = 0")
  case True
  then show ?thesis unfolding representable_def by (intro exI [of _ 0]) (simp add: rounded_def)
next
  case False
  let ?f = "max (leading \<bar>x\<bar> - 52) (-1074)" and ?m = "nearest_even (x / quantum x)"
  have "\<bar>x\<bar> < 2 powi (leading \<bar>x\<bar> + 1)" using leading_bounds [of "\<bar>x\<bar>"] False by simp
  also have "\<dots> \<le> 2 powi (53 + ?f)" by (intro power_int_increasing) auto
  also have "\<dots> = 2 ^ 53 * quantum x" by (simp add: power_int_add quantum_def)
  finally have "\<bar>x / quantum x\<bar> < of_int (2 ^ 53)" by (simp add: quantum_def abs_divide divide_less_eq)
  then have m: "\<bar>?m\<bar> \<le> 2 ^ 53" by (rule nearest_even_bound)
  have r: "rounded x = of_int ?m * 2 powi ?f" using False by (simp add: rounded_def quantum_def)
  show ?thesis
  proof (cases "\<bar>?m\<bar> = 2 ^ 53")
    case False
    then show ?thesis using m r unfolding representable_def by (intro exI [of _ ?m] exI [of _ ?f]) auto
  next
    case True
    then have "?m = sgn ?m * 2 ^ 52 * 2" by (auto simp: abs_if sgn_if split: if_splits)
    then have "of_int ?m = (of_int (sgn ?m * 2 ^ 52) * 2 :: rat)" by (metis of_int_mult of_int_numeral)
    then have "rounded x = of_int (sgn ?m * 2 ^ 52) * 2 powi (?f + 1)" using r by (simp add: power_int_add)
    moreover have "\<bar>sgn ?m * 2 ^ 52\<bar> < 2 ^ 53" by (simp add: sgn_if)
    ultimately show ?thesis unfolding representable_def by (intro exI [of _ "sgn ?m * 2 ^ 52"] exI [of _ "?f + 1"]) auto
  qed
qed

lemma to_double_ok: "double_ok (to_double x)"
  by (simp add: double_ok_def to_double_def Let_def rounded_representable [OF representable_rounded])

text \<open>The error of a rounding, and when its result is finite.\<close>

lemma nearest_even_error: "\<bar>of_int (nearest_even x) - x\<bar> \<le> 1 / 2"
proof -
  have "of_int \<lfloor>x\<rfloor> \<le> x" "x < of_int \<lfloor>x\<rfloor> + 1" by linarith+
  then show ?thesis unfolding nearest_even_def Let_def by (simp only: abs_if split: if_splits) (simp; linarith)
qed

lemma rounded_error: "\<bar>rounded x - x\<bar> \<le> quantum x / 2"
proof (cases "x = 0")
  case True
  then show ?thesis by (simp add: rounded_def quantum_def)
next
  case False
  have q: "0 < quantum x" by (simp add: quantum_def)
  have "rounded x - x = (of_int (nearest_even (x / quantum x)) - x / quantum x) * quantum x"
    using False q by (simp add: rounded_def left_diff_distrib)
  then have "\<bar>rounded x - x\<bar> = \<bar>of_int (nearest_even (x / quantum x)) - x / quantum x\<bar> * quantum x"
    using q by (simp add: abs_mult)
  also have "\<dots> \<le> 1 / 2 * quantum x" using nearest_even_error q by (intro mult_right_mono) auto
  finally show ?thesis by simp
qed

lemma quantum_le:
  assumes "x \<noteq> 0" and "\<bar>x\<bar> < 2 powi k" and "-1021 \<le> k"
  shows "quantum x \<le> 2 powi (k - 53)"
proof -
  have "leading \<bar>x\<bar> < k" using assms(1,2) by (intro leading_le) simp_all
  then show ?thesis unfolding quantum_def using assms(3) by (intro power_int_increasing) auto
qed

lemma to_double_near:
  assumes "\<bar>x\<bar> < 2 powi k" and "-1021 \<le> k" and "k < 1023"
  obtains y where "to_double x = Fin y" and "\<bar>y - x\<bar> \<le> 2 powi (k - 54)"
proof -
  have err: "\<bar>rounded x - x\<bar> \<le> 2 powi (k - 54)"
  proof (cases "x = 0")
    case False
    have "\<bar>rounded x - x\<bar> \<le> 2 powi (k - 53) / 2"
      using rounded_error [of x] quantum_le [OF False assms(1,2)] by linarith
    also have "\<dots> = 2 powi (k - 54)" using power_int_diff [of "2 :: rat" "k - 53" 1] by simp
    finally show ?thesis .
  qed (simp add: rounded_def)
  have "2 powi (k - 54) \<le> (2 :: rat) powi k" by (intro power_int_increasing) auto
  then have "\<bar>rounded x\<bar> < 2 powi k + 2 powi k" using err assms(1) by linarith
  also have "\<dots> = 2 powi (k + 1)" by (simp add: power_int_add)
  also have "\<dots> \<le> 2 powi 1024" using assms(3) by (intro power_int_increasing) auto
  finally have "to_double x = Fin (rounded x)" by (simp add: to_double_def)
  with err show ?thesis by (rule that [rotated])
qed

lemma to_double_exact: "representable x \<Longrightarrow> \<bar>x\<bar> < 2 powi 1024 \<Longrightarrow> to_double x = Fin x"
  by (simp add: to_double_def rounded_representable)

lemma double_ok_simps [simp]: "double_ok (Inf s)" "double_ok NaN"
  by (simp_all add: double_ok_def)

lemma double_ok_representable:
  "representable x \<Longrightarrow> \<bar>x\<bar> < 2 powi 1024 \<Longrightarrow> double_ok (Fin x)"
  by (simp add: double_ok_def to_double_def rounded_representable)

lemma double_ok_Fin: "double_ok (Fin x) \<longleftrightarrow> representable x \<and> \<bar>x\<bar> < 2 powi 1024"
  using representable_rounded [of x] double_ok_representable [of x]
  by (auto simp: double_ok_def to_double_def Let_def split: if_splits)

lemma rounded_zero [simp]: "rounded 0 = 0"
  by (simp add: rounded_def)

lemma to_double_zero [simp]: "to_double 0 = Fin 0"
  by (simp add: to_double_def)

lemma double_ok_zero [simp]: "double_ok (Fin 0)"
  by (simp add: double_ok_def)

lemma representable_neg: "representable x \<Longrightarrow> representable (- x)"
  unfolding representable_def by (elim exE conjE) (rule_tac x = "- m" in exI, auto)

lemma double_ok_neg: "double_ok d \<Longrightarrow> double_ok (d_neg d)"
  by (cases d) (auto simp: double_ok_Fin representable_neg)

lemma double_ok_add: "double_ok a \<Longrightarrow> double_ok b \<Longrightarrow> double_ok (d_add a b)"
  by (cases a; cases b) (auto simp: to_double_ok)

lemma double_ok_sub: "double_ok a \<Longrightarrow> double_ok b \<Longrightarrow> double_ok (d_sub a b)"
  by (simp add: d_sub_def double_ok_add double_ok_neg)

lemma double_ok_mul: "double_ok (d_mul a b)"
  by (cases a; cases b) (auto simp: to_double_ok)

lemma double_ok_div: "double_ok (d_div a b)"
  by (cases a; cases b) (auto simp: to_double_ok)

lemma double_ok_max: "double_ok a \<Longrightarrow> double_ok b \<Longrightarrow> double_ok (d_max a b)"
  by (simp add: d_max_def)

lemma double_ok_min: "double_ok a \<Longrightarrow> double_ok b \<Longrightarrow> double_ok (d_min a b)"
  by (simp add: d_min_def)

lemma double_ok_of_int [simp]: "double_ok (d_of_int n)"
  by (simp add: d_of_int_def to_double_ok)

lemma double_ok_limits [simp]: "double_ok DBL_MAX" "double_ok DBL_MIN"
proof -
  have "(2 :: rat) powi 1024 = 2 powi 53 * 2 powi 971" using power_int_add [of "2 :: rat" 53 971] by (simp del: power_int_numeral)
  also have "(2 :: rat) powi 53 = of_int (2 ^ 53)" by (simp add: power_int_def)
  finally have m: "(2 :: rat) powi 1024 - 2 powi 971 = of_int (2 ^ 53 - 1) * 2 powi 971"
    by (simp only: of_int_diff of_int_1 left_diff_distrib mult_1)
  have "(0 :: rat) < 2 powi 971" and "(2 :: rat) powi 971 < 2 powi 1024"
    by (simp del: power_int_numeral, intro power_int_strict_increasing) simp_all
  then have "\<bar>(2 :: rat) powi 1024 - 2 powi 971\<bar> < 2 powi 1024" by linarith
  moreover have "representable (of_int (2 ^ 53 - 1) * 2 powi 971)" by (rule representableI) simp_all
  ultimately show "double_ok DBL_MAX" unfolding DBL_MAX_def double_ok_Fin m by blast
  have "representable (of_int 1 * 2 powi (-1022))" by (rule representableI) simp_all
  moreover have "\<bar>(2 :: rat) powi (-1022)\<bar> < 2 powi 1024"
    unfolding power_int_abs abs_numeral by (rule power_int_strict_increasing) simp_all
  ultimately show "double_ok DBL_MIN" unfolding DBL_MIN_def double_ok_Fin by (simp only: of_int_1 mult_1)
qed

text \<open>An integer of at most 53 digits is converted without an error.\<close>

lemma d_of_int_exact:
  assumes "\<bar>n\<bar> < 2 ^ 53"
  shows "d_of_int n = Fin (of_int n)"
proof -
  have "representable (of_int n)" unfolding representable_def using assms by (intro exI [of _ n] exI [of _ 0]) simp
  moreover have "(of_int \<bar>n\<bar> :: rat) < of_int (2 ^ 53)" using assms by (simp only: of_int_less_iff)
  then have "\<bar>of_int n :: rat\<bar> < 2 powi 1024" by simp
  ultimately show ?thesis by (simp add: d_of_int_def to_double_def rounded_representable)
qed

lemma d_add_zero: "double_ok a \<Longrightarrow> d_add a (Fin 0) = a"
  by (cases a) (auto simp: double_ok_def)

lemma d_not_less_self [simp]: "\<not> d_less a a"
  by (cases a) auto

lemma d_less_asym: "d_less a b \<Longrightarrow> \<not> d_less b a"
  by (cases a; cases b) simp_all

lemma d_max_ge: "\<not> d_less (d_max a b) a"
  using d_less_asym by (simp add: d_max_def)

lemma d_min_le: "\<not> d_less a (d_min a b)"
  using d_less_asym by (simp add: d_min_def)

end
