(* ===== verification/Time_Double.thy ===== *)
theory Time_Double imports Time Double begin

text \<open>
  What \<open>src/common/time.cpp\<close> computes with \<open>double\<close>: the conversion of a time to seconds and back, and the product of a time and
  a number.  A conversion to \<open>long\<close> that does not fit has no defined result in C++; it is \<open>None\<close>.
\<close>

section \<open>Functions of the library\<close>

text \<open>\<open>floor\<close>, \<open>round\<close> (halves away from zero) and \<open>fmod\<close>; their results are exact.\<close>

definition d_floor :: "double \<Rightarrow> double" where
  "d_floor d = (case d of Fin x \<Rightarrow> Fin (of_int \<lfloor>x\<rfloor>) | _ \<Rightarrow> d)"

definition d_round :: "double \<Rightarrow> double" where
  "d_round d = (case d of Fin x \<Rightarrow> Fin (of_int (if x < 0 then \<lceil>x - 1 / 2\<rceil> else \<lfloor>x + 1 / 2\<rfloor>)) | _ \<Rightarrow> d)"

definition d_fmod :: "double \<Rightarrow> double \<Rightarrow> double" where
  "d_fmod a b = (case (a, b) of
     (Fin x, Fin y) \<Rightarrow> if y = 0 then NaN else Fin (x - of_int (truncate (x / y)) * y)
   | (Fin x, Inf _) \<Rightarrow> Fin x
   | _ \<Rightarrow> NaN)"

section \<open>Times and seconds\<close>

definition toSeconds :: "time \<Rightarrow> double" where
  "toSeconds t = d_add (d_of_int (tv_sec t)) (d_mul (d_of_int (tv_nsec t)) (to_double (1 / 1000000000)))"

definition fromSeconds :: "double \<Rightarrow> time option" where
  "fromSeconds t =
     (case d_to_int 64 (d_floor t) of
        None \<Rightarrow> None
      | Some sec \<Rightarrow>
          (case d_to_int 64 (d_round (d_mul (d_of_int 1000000000) (d_sub t (d_of_int sec)))) of
             None \<Rightarrow> None
           | Some nsec \<Rightarrow> Some (Time sec nsec)))"

definition time_times :: "double \<Rightarrow> time \<Rightarrow> time option" where
  "time_times a t =
     (let oneSecond = d_of_int 1000000000;
          nsec = d_mul a (d_of_int (tv_nsec t)) in
      case d_to_int 64 (d_fmod nsec oneSecond) of
        None \<Rightarrow> None
      | Some ns \<Rightarrow>
          (case d_to_int 64 (d_add (d_mul a (d_of_int (tv_sec t))) (d_div nsec oneSecond)) of
             None \<Rightarrow> None
           | Some s \<Rightarrow> Some (if ns < 0 then Time (s - 1) (ns + 1000000000) else Time s ns)))"

section \<open>Results\<close>

lemma toSeconds_ok: "double_ok (toSeconds t)"
  by (simp add: toSeconds_def double_ok_add double_ok_mul)

text \<open>The number of nanoseconds that is left when a time has gone through \<open>double\<close>.\<close>

lemma seconds_near:
  assumes "0 \<le> s" and "s < 2 ^ 21" and "0 < n" and "n < 1000000000"
  obtains x where "toSeconds (Time s n) = Fin x" and "\<bar>x - (of_int s + of_int n / 1000000000)\<bar> \<le> 1 / 2 ^ 32 + 1 / 2 ^ 52"
proof -
  have n: "(0 :: rat) < of_int n" "(of_int n :: rat) < 1000000000" using assms(3,4) by simp_all
  obtain c where c: "to_double (1 / 1000000000) = Fin c" "\<bar>c - 1 / 1000000000\<bar> \<le> 2 powi (-29 - 54)"
    by (rule to_double_near [of "1 / 1000000000" "-29"]) (simp_all add: power_int_def power_one_over)
  have c2: "\<bar>of_int n * c - of_int n / 1000000000\<bar> \<le> 1 / 2 ^ 53"
  proof -
    have "of_int n * c - of_int n / 1000000000 = of_int n * (c - 1 / 1000000000)" by (simp add: right_diff_distrib)
    then have "\<bar>of_int n * c - of_int n / 1000000000\<bar> = of_int n * \<bar>c - 1 / 1000000000\<bar>" using n by (simp add: abs_mult)
    also have "\<dots> \<le> 2 ^ 30 * 2 powi (-29 - 54)" using c(2) n by (intro mult_mono) auto
    finally show ?thesis by (simp add: power_int_def power_one_over)
  qed
  have "\<bar>of_int n * c\<bar> < 2"
  proof -
    have "(0 :: rat) < of_int n / 1000000000" "(of_int n / 1000000000 :: rat) < 1" "(1 / 2 ^ 53 :: rat) < 1" using n by simp_all
    then show ?thesis using c2 by linarith
  qed
  then have "\<bar>of_int n * c\<bar> < 2 powi 1" by simp
  then obtain p where p: "to_double (of_int n * c) = Fin p" "\<bar>p - of_int n * c\<bar> \<le> 2 powi (1 - 54)"
    by (rule to_double_near) simp_all
  have p2: "\<bar>p - of_int n / 1000000000\<bar> \<le> 1 / 2 ^ 52" using p(2) c2 by (simp add: power_int_def power_one_over abs_if split: if_splits)
  have s: "(0 :: rat) \<le> of_int s" "(of_int s :: rat) < 2 ^ 21"
    using assms(1,2) by (simp, metis of_int_less_iff of_int_power of_int_numeral)
  have "\<bar>of_int s + p\<bar> < 2 powi 22" using p2 s n by (simp add: abs_if split: if_splits)
  then obtain x where x: "to_double (of_int s + p) = Fin x" "\<bar>x - (of_int s + p)\<bar> \<le> 2 powi (22 - 54)"
    by (rule to_double_near) simp_all
  have "toSeconds (Time s n) = Fin x"
    using assms by (simp add: toSeconds_def d_of_int_exact c p x)
  moreover have "\<bar>x - (of_int s + of_int n / 1000000000)\<bar> \<le> 1 / 2 ^ 32 + 1 / 2 ^ 52"
    using p2 x(2) by (simp add: power_int_def power_one_over abs_if split: if_splits)
  ultimately show ?thesis by (rule that)
qed

lemma fromSeconds_near:
  assumes "0 \<le> s" and "s < 2 ^ 21" and "0 \<le> n" and "n < 1000000000"
    and "of_int s \<le> x" and "x < of_int s + 1" and "\<bar>x - (of_int s + of_int n / 1000000000)\<bar> \<le> 1 / 2 ^ 32 + 1 / 2 ^ 52"
  shows "fromSeconds (Fin x) = Some (Time s n)"
proof -
  have f: "\<lfloor>x\<rfloor> = s" using assms(5,6) by linarith
  have "\<bar>x - of_int s\<bar> < 2 powi 0" using assms(5,6) by simp
  then obtain y where y: "to_double (x - of_int s) = Fin y" "\<bar>y - (x - of_int s)\<bar> \<le> 2 powi (0 - 54)"
    by (rule to_double_near) simp_all
  have y2: "\<bar>y - of_int n / 1000000000\<bar> \<le> 1 / 2 ^ 32 + 1 / 2 ^ 51" using y(2) assms(7) by (simp add: power_int_def power_one_over abs_if split: if_splits)
  have n: "(0 :: rat) \<le> of_int n" "(of_int n :: rat) < 1000000000" using assms(3,4) by simp_all
  have "\<bar>1000000000 * y\<bar> < 2 powi 31" using y2 n by (simp add: abs_if split: if_splits)
  then obtain z where z: "to_double (1000000000 * y) = Fin z" "\<bar>z - 1000000000 * y\<bar> \<le> 2 powi (31 - 54)"
    by (rule to_double_near) simp_all
  have zn: "\<bar>z - of_int n\<bar> < 1 / 2" using y2 z(2) by (simp add: power_int_def power_one_over abs_if split: if_splits)
  have "(if z < 0 then \<lceil>z - 1 / 2\<rceil> else \<lfloor>z + 1 / 2\<rfloor>) = n"
  proof (cases "z < 0")
    case True
    then have "n = 0" using zn n by (simp add: abs_if split: if_splits)
    then show ?thesis using True zn by (simp add: ceiling_eq_iff abs_if split: if_splits)
  next
    case False
    then show ?thesis using zn by (simp add: floor_eq_iff abs_if split: if_splits)
  qed
  then have r: "d_round (Fin z) = Fin (of_int n)" by (simp add: d_round_def)
  have i: "d_to_int 64 (Fin (of_int s)) = Some s" "d_to_int 64 (Fin (of_int n)) = Some n"
    using assms(1-4) by (simp_all add: d_to_int_def truncate_def)
  have "d_of_int s = Fin (of_int s)" and "d_of_int 1000000000 = Fin 1000000000"
    using assms(1,2) d_of_int_exact [of s] d_of_int_exact [of 1000000000] by simp_all
  then show ?thesis
    by (simp add: fromSeconds_def d_floor_def f i d_sub_def y z r)
qed

text \<open>Whole seconds.\<close>

lemma toSeconds_whole:
  assumes "\<bar>s\<bar> < 2 ^ 53"
  shows "toSeconds (Time s 0) = Fin (of_int s)"
proof -
  obtain c where c: "to_double (1 / 1000000000) = Fin c"
    by (rule to_double_near [of "1 / 1000000000" "-29"]) (simp_all add: power_int_def power_one_over)
  have e: "d_of_int s = Fin (of_int s)" "d_of_int 0 = Fin 0" using assms d_of_int_exact [of s] d_of_int_exact [of 0] by simp_all
  then show ?thesis by (simp add: toSeconds_def c) (simp add: d_of_int_def)
qed

lemma fromSeconds_whole: "0 \<le> s \<Longrightarrow> s < 2 ^ 21 \<Longrightarrow> fromSeconds (Fin (of_int s)) = Some (Time s 0)"
  by (rule fromSeconds_near) simp_all

text \<open>
  C40: A time of less than \<open>2 ^ 21\<close> seconds, which is more than twenty days, comes back from \<open>toSeconds\<close> and \<open>fromSeconds\<close> to the
  nanosecond, in spite of the five roundings on the way.
\<close>

theorem seconds_roundtrip:
  assumes "time_ok t" and "0 \<le> tv_sec t" and "tv_sec t < 2 ^ 21"
  shows "fromSeconds (toSeconds t) = Some t"
proof -
  obtain s n where t: "t = Time s n" by (cases t)
  have n: "0 \<le> n" "n < 1000000000" and s: "0 \<le> s" "s < 2 ^ 21" using assms by (simp_all add: t time_ok_def)
  show ?thesis
  proof (cases "n = 0")
    case True
    then have "toSeconds t = Fin (of_int s)" using s by (simp add: t toSeconds_whole)
    then show ?thesis using fromSeconds_whole [OF s] True by (simp add: t)
  next
    case False
    then have "0 < n" using n by simp
    then obtain x where x: "toSeconds (Time s n) = Fin x" "\<bar>x - (of_int s + of_int n / 1000000000)\<bar> \<le> 1 / 2 ^ 32 + 1 / 2 ^ 52"
      using seconds_near s n by blast
    have "(1 :: rat) \<le> of_int n" "(of_int n :: rat) \<le> 999999999" using \<open>0 < n\<close> n by simp_all
    then have "of_int s \<le> x" "x < of_int s + 1" using x(2) by (simp_all add: abs_if split: if_splits)
    then show ?thesis using fromSeconds_near [OF s n] x by (simp add: t)
  qed
qed

theorem seconds_roundtrip_witness:
  "fromSeconds (toSeconds (Time 1209600 999999999)) = Some (Time 1209600 999999999)"
  by (rule seconds_roundtrip) (simp_all add: time_ok_def)

text \<open>
  The product with a number drops the fraction of the seconds: half of a second is no time at all.
\<close>

theorem half_second_lost:
  "time_times (Fin (1 / 2)) (Time 1 0) = Some (Time 0 0)"
proof -
  have "representable (1 / 2)" using representableI [of 1 "-1"] by (simp add: power_int_def power_one_over)
  then have h: "to_double (1 / 2) = Fin (1 / 2)" by (rule to_double_exact) simp
  have "d_of_int 0 = Fin 0" "d_of_int 1 = Fin 1" "d_of_int 1000000000 = Fin 1000000000"
    using d_of_int_exact [of 0] d_of_int_exact [of 1] d_of_int_exact [of 1000000000] by simp_all
  then show ?thesis
    by (simp add: time_times_def d_fmod_def truncate_def d_to_int_def h Let_def floor_eq_iff)
qed

text \<open>
  A number that is just below a whole number of seconds becomes a time with a thousand million nanoseconds, which is not one.
\<close>

theorem seconds_not_normal:
  "fromSeconds (Fin (1 - 1 / 2 ^ 31)) = Some (Time 0 1000000000)"
proof -
  have "representable (1 - 1 / 2 ^ 31)" using representableI [of "2 ^ 31 - 1" "-31"] by (simp add: power_int_def power_one_over)
  then have a: "to_double (1 - 1 / 2 ^ 31) = Fin (1 - 1 / 2 ^ 31)" by (rule to_double_exact) simp
  have "representable (1000000000 * (1 - 1 / 2 ^ 31))"
    using representableI [of "1953125 * (2 ^ 31 - 1)" "-22"] by (simp add: power_int_def power_one_over)
  then have b: "to_double (1000000000 * (1 - 1 / 2 ^ 31)) = Fin (1000000000 * (1 - 1 / 2 ^ 31))" by (rule to_double_exact) simp
  have f: "\<lfloor>1 - 1 / 2 ^ 31 :: rat\<rfloor> = 0" "\<lfloor>1000000000 * (1 - 1 / 2 ^ 31) + 1 / 2 :: rat\<rfloor> = 1000000000"
    by (simp_all add: floor_eq_iff)
  have i: "d_of_int 0 = Fin 0" "d_of_int 1000000000 = Fin 1000000000"
    using d_of_int_exact [of 0] d_of_int_exact [of 1000000000] by simp_all
  show ?thesis using a b f i
    by (simp add: fromSeconds_def d_floor_def d_round_def d_sub_def d_to_int_def truncate_def)
qed

end
