(* ===== verification/Dynamic_Hook.thy ===== *)
theory Dynamic_Hook imports Process_Group Time_Double begin

text \<open>
  How processes that were started on their own find each other: \<open>src/MPI/dynamichook.cpp\<close>.  One process is the server; it
  accepts a connection of every other process, and after that MPI joins them one by one.  The calls of the operating system and
  of MPI are external.  Left out are the texts of \<open>strerror\<close> that the code adds to its messages, the memory of
  \<open>getaddrinfo\<close>, and the jump out of the function when the alarm goes off.
\<close>

section \<open>Calls\<close>

datatype sockaddr = Inet "nat list" | Inet6 "nat list" | OtherFamily

datatype net_call =
    ClockNow | Sleep nat
  | GetAddrInfo "string option" string | GetIfAddrs
  | Socket sockaddr | SetSockOpt int | Bind int sockaddr | Listen int nat | SetNonBlocking int
  | Connect int sockaddr | Poll "int list" int | Accept int
  | Read int nat | Write int "nat list" | Shutdown int | Close int
  | GetAlarm | SetAlarm | RestoreAlarm | Alarm int | IgnorePipe | RestorePipe
  | DupSelf | OpenPort | ConnectPort "nat list" | AcceptPort "nat list" | MergeComm bool | FreeComm
  | CommSize | AllreduceLand int | ClosePort "nat list" | SplitComm int

text \<open>A system call answers a number, or the bytes that were read; a poll which of the sockets are ready.\<close>

datatype net_reply =
    Sys int
  | Bytes "nat list"
  | Instant "time option"
  | Addresses "sockaddr option list option"
  | Ready int "bool list"
  | MpiError | MpiDone | MpiNum int
  | MpiComm nat nat nat

definition sys :: "net_reply \<Rightarrow> int" where
  "sys r = (case r of Sys n \<Rightarrow> n | _ \<Rightarrow> -1)"

definition bytes_of :: "net_reply \<Rightarrow> nat list" where
  "bytes_of r = (case r of Bytes bs \<Rightarrow> bs | _ \<Rightarrow> [])"

type_synonym ('s, 'a) net = "(net_call, net_reply, 's, 'a) act"

definition HookException :: "string \<Rightarrow> fault" where
  "HookException reason = ErrorThrown (''Could not hook, because '' @ reason)"

definition nowA :: "('s, time) net" where
  "nowA = bindA (callA ClockNow) (\<lambda>r. case r of
     Instant (Some t) \<Rightarrow> retA t | _ \<Rightarrow> throwA (ErrorThrown ''Unable to query high-precision system clock''))"

text \<open>A call whose result only says whether it failed.\<close>

definition sysA :: "net_call \<Rightarrow> ('s, int) net" where
  "sysA q = bindA (callA q) (\<lambda>r. retA (sys r))"

text \<open>\<open>ASSERT( MPI_SUCCESS == rc )\<close>\<close>

definition mpi_okA :: "net_call \<Rightarrow> ('s, unit) net" where
  "mpi_okA q = bindA (callA q) (\<lambda>r. assertA (r \<noteq> MpiError))"

section \<open>Sockets\<close>

definition isSocketEqual :: "sockaddr \<Rightarrow> sockaddr \<Rightarrow> fault + bool" where
  "isSocketEqual a b =
     (case a of
        OtherFamily \<Rightarrow> Inl (HookException ''Unsupported address family'')
      | Inet x \<Rightarrow> Inr (case b of Inet y \<Rightarrow> x = y | _ \<Rightarrow> False)
      | Inet6 x \<Rightarrow> Inr (case b of Inet6 y \<Rightarrow> x = y | _ \<Rightarrow> False))"

text \<open>The two loops of \<open>amIServer\<close>; an interface without an address has a null pointer, which the code reads through.\<close>

primrec target_match :: "sockaddr \<Rightarrow> sockaddr option list \<Rightarrow> bool \<Rightarrow> fault + bool" where
  "target_match a [] m = Inr m"
| "target_match a (t # ts) m =
     (case t of
        None \<Rightarrow> Inl NullDereference
      | Some b \<Rightarrow> if b = OtherFamily then target_match a ts m
                  else bindE (isSocketEqual a b) (\<lambda>eq. target_match a ts (m \<or> eq)))"

primrec interface_match :: "sockaddr option list \<Rightarrow> sockaddr option list \<Rightarrow> bool \<Rightarrow> fault + bool" where
  "interface_match [] ts m = Inr m"
| "interface_match (i # is) ts m =
     (case i of
        None \<Rightarrow> Inl NullDereference
      | Some a \<Rightarrow> if a = OtherFamily then interface_match is ts m
                  else bindE (target_match a ts m) (\<lambda>m. interface_match is ts m))"

definition addresses :: "net_call \<Rightarrow> string \<Rightarrow> ('s, sockaddr option list) net" where
  "addresses q what = bindA (callA q) (\<lambda>r. case r of Addresses (Some as) \<Rightarrow> retA as | _ \<Rightarrow> throwA (HookException what))"

definition amIServer :: "string \<Rightarrow> string \<Rightarrow> ('s, bool) net" where
  "amIServer serverNode serverPort =
     bindA (addresses (GetAddrInfo (Some serverNode) serverPort) ''gai_strerror'') (\<lambda>serverAddresses.
     bindA (addresses GetIfAddrs ''strerror'') (\<lambda>myAddresses.
     liftA (\<lambda>_. interface_match myAddresses serverAddresses False)))"

text \<open>
  \<open>readAll\<close>: every round reads at least one byte or is the last, so that \<open>size\<close> rounds are enough; \<open>k\<close> counts them down.
\<close>

primrec read_rounds :: "nat \<Rightarrow> int \<Rightarrow> nat \<Rightarrow> nat list \<Rightarrow> ('s, nat list) net" where
  "read_rounds 0 fd n acc = retA acc"
| "read_rounds (Suc k) fd n acc =
     (if n > 0
      then bindA (callA (Read fd n)) (\<lambda>r.
           if bytes_of r = [] then retA acc
           else read_rounds k fd (n - length (bytes_of r)) (acc @ bytes_of r))
      else retA acc)"

definition readAll :: "int \<Rightarrow> nat \<Rightarrow> ('s, nat list) net" where
  "readAll fd sz = read_rounds sz fd sz []"

definition closeSock :: "int \<Rightarrow> ('s, unit) net" where
  "closeSock s = bindA (sysA (Shutdown s)) (\<lambda>_. bindA (sysA (Close s)) (\<lambda>_. retA ()))"

text \<open>The two greetings with their final zero, and an array of that size with what has been read at its front.\<close>

definition magicClient :: "nat list" where
  "magicClient = [76, 80, 70, 95, 118, 48, 95, 99, 108, 105, 101, 110, 116, 0]"

definition magicServer :: "nat list" where
  "magicServer = [76, 80, 70, 95, 118, 48, 95, 115, 101, 114, 118, 101, 114, 0]"

definition filled :: "nat \<Rightarrow> nat list \<Rightarrow> nat list" where
  "filled n bs = take n (bs @ replicate n 0)"

text \<open>An \<open>int\<close> as four bytes.\<close>

definition int_bytes :: "int \<Rightarrow> nat list" where
  "int_bytes i = List.map (\<lambda>k. nat (i div 256 ^ k mod 256)) [0..<4]"

definition bytes_int :: "nat list \<Rightarrow> int" where
  "bytes_int bs = (let v = foldr (\<lambda>b n. int b + 256 * n) (filled 4 bs) 0 in if v \<ge> 2147483648 then v - 4294967296 else v)"

section \<open>The server\<close>

text \<open>One listening socket, when the address allows it.\<close>

primrec try_steps :: "int \<Rightarrow> net_call list \<Rightarrow> ('s, int option) net" where
  "try_steps s [] = retA (Some s)"
| "try_steps s (q # qs) =
     bindA (sysA q) (\<lambda>rc. if rc = -1 then bindA (closeSock s) (\<lambda>_. retA None) else try_steps s qs)"

definition listen_on :: "nat \<Rightarrow> sockaddr \<Rightarrow> ('s, int option) net" where
  "listen_on nprocs addr =
     bindA (sysA (Socket addr)) (\<lambda>s.
     if s = -1 then retA None
     else try_steps s [SetSockOpt s, Bind s addr, Listen s nprocs, SetNonBlocking s])"

primrec listen_all :: "nat \<Rightarrow> sockaddr list \<Rightarrow> ('s, int list) net" where
  "listen_all nprocs [] = retA []"
| "listen_all nprocs (addr # addrs) =
     bindA (listen_on nprocs addr) (\<lambda>s.
     bindA (listen_all nprocs addrs) (\<lambda>ss. retA (case s of None \<Rightarrow> ss | Some s \<Rightarrow> s # ss)))"

primrec open_sockets :: "nat \<Rightarrow> nat \<Rightarrow> sockaddr list \<Rightarrow> time \<Rightarrow> time \<Rightarrow> ('s, int list) net" where
  "open_sockets 0 nprocs addrs t0 timeout = throwA OutOfFuel"
| "open_sockets (Suc k) nprocs addrs t0 timeout =
     bindA (listen_all nprocs addrs) (\<lambda>ss.
     bindA nowA (\<lambda>t1.
     if ss \<noteq> [] then retA ss
     else bindA (callA (Sleep 1000)) (\<lambda>_.
          if time_lessThan (time_minus t1 t0) timeout then open_sockets k nprocs addrs t0 timeout else retA [])))"

text \<open>The connections, which of them have been made, and the number of the next.\<close>

record server =
  sv_connections :: "int list"
  sv_success :: "bool list"
  sv_p :: nat

definition server_start :: "nat \<Rightarrow> server" where
  "server_start nprocs = \<lparr>sv_connections = replicate nprocs (-1), sv_success = (replicate nprocs False)[0 := True], sv_p = 1\<rparr>"

definition join_client :: "int \<Rightarrow> (server, unit) net" where
  "join_client fd = stateA (\<lambda>v.
     bindE (vec_set (sv_connections v) (sv_p v) fd) (\<lambda>cs.
     bindE (vec_set (sv_success v) (sv_p v) True) (\<lambda>ss.
     Inr ((), v\<lparr>sv_connections := cs, sv_success := ss, sv_p := sv_p v + 1\<rparr>))))"

definition accept_client :: "int \<Rightarrow> (server, unit) net" where
  "accept_client s =
     bindA (sysA (Accept s)) (\<lambda>fd.
     if fd \<noteq> -1
     then bindA (sysA (Write fd magicServer)) (\<lambda>rc.
          bindA (readAll fd (length magicClient)) (\<lambda>buf.
          if rc \<noteq> -1 \<and> length buf > 0 \<and> filled (length magicClient) buf = magicClient then join_client fd
          else closeSock fd))
     else retA ())"

text \<open>The sockets that a poll has found ready are served one after the other.\<close>

primrec serve_ready :: "int list \<Rightarrow> bool list \<Rightarrow> (server, unit) net" where
  "serve_ready [] rs = retA ()"
| "serve_ready (s # ss) rs =
     bindA (if rs \<noteq> [] \<and> hd rs then accept_client s else retA ()) (\<lambda>_. serve_ready ss (tl rs))"

definition the_ready :: "net_reply \<Rightarrow> int \<times> bool list" where
  "the_ready r = (case r of Ready rc rs \<Rightarrow> (rc, rs) | _ \<Rightarrow> (-1, []))"

definition server_round :: "(time \<Rightarrow> int) \<Rightarrow> int list \<Rightarrow> time \<Rightarrow> time \<Rightarrow> (server, unit) net" where
  "server_round millis ss t0 timeout =
     bindA nowA (\<lambda>t1.
     bindA (callA (Poll ss (millis (time_minus timeout (time_minus t1 t0))))) (\<lambda>r.
     if fst (the_ready r) > 0 then serve_ready ss (snd (the_ready r)) else retA ()))"

text \<open>A process that is already connected would be skipped without moving on to the next one.\<close>

primrec accept_loop :: "nat \<Rightarrow> (time \<Rightarrow> int) \<Rightarrow> nat \<Rightarrow> int list \<Rightarrow> time \<Rightarrow> time \<Rightarrow> (server, unit) net" where
  "accept_loop 0 millis nprocs ss t0 timeout = throwA OutOfFuel"
| "accept_loop (Suc k) millis nprocs ss t0 timeout =
     bindA getA (\<lambda>v.
     if sv_p v < nprocs
     then bindA (liftA (\<lambda>_. vec_at (sv_success v) (sv_p v))) (\<lambda>done.
          if done then accept_loop k millis nprocs ss t0 timeout
          else bindA (server_round millis ss t0 timeout) (\<lambda>_. accept_loop k millis nprocs ss t0 timeout))
     else retA ())"

definition dismiss :: "nat \<Rightarrow> (server, unit) net" where
  "dismiss i =
     bindA getA (\<lambda>v.
     bindA (liftA (\<lambda>_. vec_at (sv_success v) i)) (\<lambda>b.
     if b
     then bindA (liftA (\<lambda>_. vec_at (sv_connections v) i)) (\<lambda>c.
          bindA (sysA (Write c (int_bytes 0))) (\<lambda>_. closeSock c))
     else retA ()))"

definition confirm :: "nat \<Rightarrow> (server, unit) net" where
  "confirm i =
     bindA getA (\<lambda>v.
     bindA (liftA (\<lambda>_. vec_at (sv_connections v) i)) (\<lambda>c.
     bindA (sysA (Write c (int_bytes 1))) (\<lambda>_. retA ())))"

definition finish_server :: "(server, int list) net" where
  "finish_server =
     bindA getA (\<lambda>v.
     if \<not> foldl (\<and>) True (sv_success v)
     then bindA (forA [0..<length (sv_success v)] dismiss) (\<lambda>_.
          throwA (HookException ''Could not establish connection with all processes; ''))
     else bindA (forA [0..<length (sv_success v)] confirm) (\<lambda>_.
          bindA getA (\<lambda>v. retA (sv_connections v))))"

definition serverAcceptsClients :: "nat \<Rightarrow> (time \<Rightarrow> int) \<Rightarrow> string \<Rightarrow> nat \<Rightarrow> time \<Rightarrow> (server, int list) net" where
  "serverAcceptsClients k millis serverPort nprocs timeout =
     bindA nowA (\<lambda>t0.
     bindA (addresses (GetAddrInfo None serverPort) ''gai_strerror'') (\<lambda>addrs.
     bindA (modA (\<lambda>_. server_start nprocs)) (\<lambda>_.
     bindA (open_sockets k nprocs (List.map the addrs) t0 timeout) (\<lambda>ss.
     if ss \<noteq> []
     then bindA (accept_loop k millis nprocs ss t0 timeout) (\<lambda>_.
          bindA (forA ss closeSock) (\<lambda>_. finish_server))
     else throwA (HookException ''Server could not open any network ports within timeout'')))))"

section \<open>The clients\<close>

definition greet_server :: "int \<Rightarrow> ('s, int option) net" where
  "greet_server s =
     bindA (readAll s (length magicServer)) (\<lambda>buf.
     bindA (sysA (Write s magicClient)) (\<lambda>rc.
     if rc \<noteq> -1 \<and> length buf > 0 \<and> filled (length magicServer) buf = magicServer
     then bindA (readAll s 4) (\<lambda>ok.
          if length ok > 0 \<and> bytes_int ok \<noteq> 0 then retA (Some s)
          else bindA (closeSock s) (\<lambda>_. retA None))
     else bindA (closeSock s) (\<lambda>_. retA None)))"

definition try_connect :: "sockaddr \<Rightarrow> ('s, int option) net" where
  "try_connect addr =
     bindA (sysA (Socket addr)) (\<lambda>s.
     if s = -1 then retA None
     else bindA (sysA (Connect s addr)) (\<lambda>rc.
          if rc = -1 then bindA (closeSock s) (\<lambda>_. retA None) else greet_server s))"

primrec connect_any :: "sockaddr list \<Rightarrow> ('s, int option) net" where
  "connect_any [] = retA None"
| "connect_any (addr # addrs) =
     bindA (try_connect addr) (\<lambda>c. case c of Some s \<Rightarrow> retA (Some s) | None \<Rightarrow> connect_any addrs)"

primrec connect_loop :: "nat \<Rightarrow> sockaddr list \<Rightarrow> time \<Rightarrow> time \<Rightarrow> ('s, int option) net" where
  "connect_loop 0 addrs t0 timeout = throwA OutOfFuel"
| "connect_loop (Suc k) addrs t0 timeout =
     bindA nowA (\<lambda>t.
     if time_lessThan (time_minus t t0) timeout
     then bindA (connect_any addrs) (\<lambda>c. case c of
            Some s \<Rightarrow> retA (Some s)
          | None \<Rightarrow> bindA (callA (Sleep 1000)) (\<lambda>_. connect_loop k addrs t0 timeout))
     else retA None)"

definition clientConnectsToServer :: "nat \<Rightarrow> string \<Rightarrow> string \<Rightarrow> time \<Rightarrow> ('s, int) net" where
  "clientConnectsToServer k serverNode serverPort timeout =
     bindA (addresses (GetAddrInfo (Some serverNode) serverPort) ''gai_strerror'') (\<lambda>addrs.
     bindA (sysA IgnorePipe) (\<lambda>_.
     bindA nowA (\<lambda>t0.
     bindA (connect_loop k (List.map the addrs) t0 timeout) (\<lambda>c.
     bindA (sysA RestorePipe) (\<lambda>_.
     case c of
       None \<Rightarrow> throwA (HookException ''Could not establish connection with all processes; '')
     | Some s \<Rightarrow> retA s)))))"

section \<open>Joining the processes\<close>

definition mpi_num :: "net_call \<Rightarrow> ('s, int) net" where
  "mpi_num q = bindA (callA q) (\<lambda>r. case r of MpiNum n \<Rightarrow> retA n | _ \<Rightarrow> throwA AssertionFailed)"

text \<open>The server tells client \<open>p\<close> the name of the port and its number; \<open>mx\<close> is \<open>MPI_MAX_PORT_NAME\<close>.\<close>

definition tell_client :: "nat \<Rightarrow> nat list \<Rightarrow> int list \<Rightarrow> int \<Rightarrow> ('s, bool) net" where
  "tell_client mx portName clients p =
     bindA (assertA (0 \<le> p \<and> nat p < length clients)) (\<lambda>_.
     bindA (sysA (Write (clients ! nat p) portName)) (\<lambda>b1.
     bindA (sysA (Write (clients ! nat p) (int_bytes p))) (\<lambda>b2.
     bindA (sysA (Shutdown (clients ! nat p))) (\<lambda>r1.
     bindA (sysA (Close (clients ! nat p))) (\<lambda>r2.
     retA (b1 = int mx \<and> b2 = 4 \<and> r1 = 0 \<and> r2 = 0))))))"

definition add_client :: "nat \<Rightarrow> int \<Rightarrow> nat list \<Rightarrow> int list \<Rightarrow> int \<Rightarrow> ('s, unit) net" where
  "add_client mx pid portName clients p =
     bindA (mpi_num CommSize) (\<lambda>np.
     bindA (assertA (np = p)) (\<lambda>_.
     bindA (if pid = 0 then tell_client mx portName clients p else retA True) (\<lambda>success.
     bindA (mpi_num (AllreduceLand (if success then 1 else 0))) (\<lambda>allSuccess.
     if allSuccess = 0 then retA ()
     else bindA (mpi_okA (AcceptPort portName)) (\<lambda>_.
          bindA (mpi_okA FreeComm) (\<lambda>_.
          bindA (mpi_okA (MergeComm False)) (\<lambda>_.
          bindA (mpi_okA FreeComm) (\<lambda>_.
          bindA (mpi_num CommSize) (\<lambda>np.
          assertA (np = p + 1))))))))))"

text \<open>The first part of the server, which opens the port, and of a client, which joins the processes that are there already.\<close>

definition open_port :: "nat \<Rightarrow> ('s, nat list) net" where
  "open_port mx = bindA (callA OpenPort) (\<lambda>r. case r of Bytes name \<Rightarrow> retA (filled mx name) | _ \<Rightarrow> throwA AssertionFailed)"

definition start_server ::
  "nat \<Rightarrow> nat \<Rightarrow> (time \<Rightarrow> int) \<Rightarrow> string \<Rightarrow> nat \<Rightarrow> time \<Rightarrow> (server, int list \<times> nat list \<times> int) net" where
  "start_server k mx millis serverPort nprocs timeout =
     bindA (serverAcceptsClients k millis serverPort nprocs timeout) (\<lambda>clients.
     bindA (assertA (length clients = nprocs)) (\<lambda>_.
     bindA (open_port mx) (\<lambda>portName. retA (clients, portName, 1))))"

definition start_client ::
  "nat \<Rightarrow> nat \<Rightarrow> string \<Rightarrow> string \<Rightarrow> time \<Rightarrow> ('s, int list \<times> nat list \<times> int) net" where
  "start_client k mx serverNode serverPort timeout =
     bindA (clientConnectsToServer k serverNode serverPort timeout) (\<lambda>s.
     bindA (readAll s mx) (\<lambda>portName.
     bindA (readAll s 4) (\<lambda>p0.
     bindA (closeSock s) (\<lambda>_.
     if length portName + length p0 < mx + 4
     then throwA (HookException ''connection to server terminated unexpectedly'')
     else bindA (mpi_okA (ConnectPort portName)) (\<lambda>_.
          bindA (mpi_okA FreeComm) (\<lambda>_.
          bindA (mpi_okA (MergeComm True)) (\<lambda>_.
          bindA (mpi_okA FreeComm) (\<lambda>_.
          retA ([], portName, bytes_int p0 + 1)))))))))"

text \<open>The alarm that ends the function; its seconds are the \<open>int\<close> of \<open>timeout.toSeconds() + 1.0\<close>.\<close>

definition set_alarm :: "int \<Rightarrow> ('s, int) net" where
  "set_alarm seconds =
     bindA (sysA GetAlarm) (\<lambda>rc.
     if rc \<noteq> 0 then throwA (HookException ''Cannot get SIGALRM handler'')
     else bindA (sysA (Alarm 0)) (\<lambda>oldtimeout.
          bindA (sysA SetAlarm) (\<lambda>rc.
          if rc \<noteq> 0 then throwA (HookException ''Cannot set alarm'')
          else bindA (sysA (Alarm seconds)) (\<lambda>_. retA oldtimeout))))"

definition renumber :: "int \<Rightarrow> ('s, comm) net" where
  "renumber pid =
     bindA (callA (SplitComm pid)) (\<lambda>r. case r of
       MpiComm h p n \<Rightarrow> bindA (mpi_okA FreeComm) (\<lambda>_. retA \<lparr>cm_handle = h, cm_pid = p, cm_nprocs = n\<rparr>)
     | _ \<Rightarrow> throwA AssertionFailed)"

definition dynamicHook ::
  "nat \<Rightarrow> nat \<Rightarrow> (time \<Rightarrow> int) \<Rightarrow> int \<Rightarrow> string \<Rightarrow> string \<Rightarrow> int \<Rightarrow> int \<Rightarrow> time \<Rightarrow> (server, comm) net" where
  "dynamicHook k mx millis seconds serverNode serverPort pid nprocs timeout =
     bindA (assertA (nprocs > 0)) (\<lambda>_.
     bindA (assertA (pid < nprocs)) (\<lambda>_.
     bindA (set_alarm seconds) (\<lambda>oldtimeout.
     bindA (if pid = 0 then amIServer serverNode serverPort else retA True) (\<lambda>here.
     if \<not> here then throwA (HookException ''PID 0 is not launched on the server node'')
     else bindA (mpi_okA DupSelf) (\<lambda>_.
          bindA (if pid = 0 then start_server k mx millis serverPort (nat nprocs) timeout
                 else start_client k mx serverNode serverPort timeout) (\<lambda>(clients, portName, p0).
          bindA (forA [p0..nprocs - 1] (add_client mx pid portName clients)) (\<lambda>_.
          bindA (if pid = 0 then mpi_okA (ClosePort portName) else retA ()) (\<lambda>_.
          bindA (renumber pid) (\<lambda>result.
          bindA (sysA RestoreAlarm) (\<lambda>_.
          bindA (sysA (Alarm oldtimeout)) (\<lambda>_. retA result)))))))))))"

text \<open>The two conversions to \<open>int\<close>: the rest of the time in milliseconds, and the whole seconds after which the alarm goes off.\<close>

definition poll_timeout :: "time \<Rightarrow> int option" where
  "poll_timeout t = d_to_int 32 (d_mul (toSeconds t) (d_of_int 1000))"

definition alarm_seconds :: "time \<Rightarrow> int option" where
  "alarm_seconds timeout = d_to_int 32 (d_add (toSeconds timeout) (d_of_int 1))"

text \<open>The function with these conversions; one that does not fit is \<open>n\<close>.\<close>

definition dynamicHook_with_times :: "nat \<Rightarrow> nat \<Rightarrow> int \<Rightarrow> string \<Rightarrow> string \<Rightarrow> int \<Rightarrow> int \<Rightarrow> time \<Rightarrow> (server, comm) net" where
  "dynamicHook_with_times k mx n serverNode serverPort pid nprocs timeout =
     dynamicHook k mx (\<lambda>t. case poll_timeout t of None \<Rightarrow> n | Some i \<Rightarrow> i) (case alarm_seconds timeout of None \<Rightarrow> n | Some i \<Rightarrow> i)
       serverNode serverPort pid nprocs timeout"

section \<open>What the server ends with\<close>

definition server_ok :: "nat \<Rightarrow> server \<Rightarrow> bool" where
  "server_ok nprocs v \<longleftrightarrow> length (sv_connections v) = nprocs \<and> length (sv_success v) = nprocs \<and> sv_p v \<le> nprocs \<and>
     (\<forall>i < sv_p v. sv_success v ! i)"

lemma keeps_callA [keeps_rules]: "keeps P (callA q)"
  by (auto simp: keeps_def acts_callA)

lemma keeps_case_pair [keeps_rules]: "(\<And>a b. keeps P (f a b)) \<Longrightarrow> keeps P (case x of (a, b) \<Rightarrow> f a b)"
  by (cases x) simp

lemma keeps_sysA [keeps_rules]: "keeps P (sysA q)"
  unfolding sysA_def by (intro keeps_rules)

lemma keeps_nowA [keeps_rules]: "keeps P nowA"
  unfolding nowA_def by (intro keeps_rules) (auto intro!: keeps_rules split: net_reply.split option.split)

lemma keeps_closeSock [keeps_rules]: "keeps P (closeSock s)"
  unfolding closeSock_def by (intro keeps_rules)

lemma keeps_readAll [keeps_rules]: "keeps P (readAll fd n)"
proof -
  have "keeps P (read_rounds k fd n acc)" for k n acc
    by (induction k arbitrary: n acc) (auto intro!: keeps_rules)
  then show ?thesis by (simp add: readAll_def)
qed

lemma keeps_accept_client: "keeps (server_ok nprocs) (accept_client s)"
  unfolding accept_client_def join_client_def
  by (intro keeps_rules)
    (auto simp: server_ok_def bindE_simps vec_set_eq_Inr nth_list_update less_Suc_eq)

lemma keeps_serve_ready: "keeps (server_ok nprocs) (serve_ready ss rs)"
  by (induction ss arbitrary: rs) (auto intro!: keeps_rules keeps_accept_client)

lemma keeps_server_round: "keeps (server_ok nprocs) (server_round millis ss t0 timeout)"
  unfolding server_round_def by (intro keeps_rules keeps_serve_ready)

lemma accept_loop_run:
  assumes "acts (accept_loop k millis nprocs ss t0 timeout) v tr (Inr ()) v'" and "server_ok nprocs v"
  shows "server_ok nprocs v' \<and> sv_p v' = nprocs"
  using assms
proof (induction k arbitrary: v tr)
  case 0
  then show ?case by (simp add: acts_throwA)
next
  case (Suc k)
  show ?case
  proof (cases "sv_p v < nprocs")
    case False
    with Suc.prems show ?thesis by (auto simp: acts_bind_getA acts_retA server_ok_def)
  next
    case True
    with Suc.prems consider "acts (accept_loop k millis nprocs ss t0 timeout) v tr (Inr ()) v'"
      | "acts (bindA (server_round millis ss t0 timeout) (\<lambda>_. accept_loop k millis nprocs ss t0 timeout)) v tr (Inr ()) v'"
      by (auto simp: acts_bind_getA acts_bind_liftA vec_at_def server_ok_def split: if_splits)
    then show ?thesis
    proof cases
      case 1
      then show ?thesis by (rule Suc.IH [OF _ Suc.prems(2)])
    next
      case 2
      then obtain t1 t2 v1 where "acts (server_round millis ss t0 timeout) v t1 (Inr ()) v1"
        "acts (accept_loop k millis nprocs ss t0 timeout) v1 t2 (Inr ()) v'"
        by (auto simp: acts_bindA)
      then show ?thesis using Suc.IH keepsD [OF keeps_server_round _ Suc.prems(2)] by blast
    qed
  qed
qed

definition refusal :: fault where
  "refusal = HookException ''Could not establish connection with all processes; ''"

lemma refusal_simps [simp]:
  "AssertionFailed \<noteq> refusal" "OutOfBounds \<noteq> refusal" "OutOfFuel \<noteq> refusal" "NullDereference \<noteq> refusal"
  "ErrorThrown ''Unable to query high-precision system clock'' \<noteq> refusal"
  "HookException ''gai_strerror'' \<noteq> refusal" "HookException ''Server could not open any network ports within timeout'' \<noteq> refusal"
  by (simp_all add: refusal_def HookException_def)

lemma faults_sysA [faults_rules]: "faults P (sysA q)"
  unfolding sysA_def by (intro faults_rules)

lemma faults_nowA: "faults (\<lambda>e. e \<noteq> refusal) nowA"
  unfolding nowA_def by (intro faults_rules) (auto intro!: faults_rules split: net_reply.split option.split)

lemma faults_addresses: "faults (\<lambda>e. e \<noteq> refusal) (addresses q ''gai_strerror'')"
  unfolding addresses_def by (intro faults_rules) (auto intro!: faults_rules split: net_reply.split option.split)

lemma faults_closeSock [faults_rules]: "faults P (closeSock s)"
  unfolding closeSock_def by (intro faults_rules)

lemma faults_readAll [faults_rules]: "faults P (readAll fd n)"
proof -
  have "faults P (read_rounds k fd n acc)" for k n acc
    by (induction k arbitrary: n acc) (auto intro!: faults_rules)
  then show ?thesis by (simp add: readAll_def)
qed

lemma faults_open_sockets: "faults (\<lambda>e. e \<noteq> refusal) (open_sockets k nprocs addrs t0 timeout)"
proof -
  have steps: "faults P (try_steps s qs)" for P s qs
    by (induction qs) (auto intro!: faults_rules)
  have "faults P (listen_all nprocs addrs)" for P
    by (induction addrs) (auto simp: listen_on_def intro!: faults_rules steps)
  then show ?thesis
    by (induction k) (auto intro!: faults_rules faults_nowA)
qed

lemma faults_accept_loop: "faults (\<lambda>e. e \<noteq> refusal) (accept_loop k millis nprocs ss t0 timeout)"
proof -
  have client: "faults (\<lambda>e. e \<noteq> refusal) (accept_client s)" for s
    unfolding accept_client_def join_client_def
    by (intro faults_rules) (auto simp: bindE_def vec_set_def split: sum.splits if_splits)
  have ready: "faults (\<lambda>e. e \<noteq> refusal) (serve_ready ss rs)" for rs
    by (induction ss arbitrary: rs) (auto intro!: faults_rules client)
  show ?thesis
    by (induction k)
      (auto simp: server_round_def vec_at_def intro!: faults_rules faults_nowA ready split: if_splits)
qed

lemma foldl_and: "foldl (\<and>) b bs \<longleftrightarrow> b \<and> (\<forall>x \<in> set bs. x)"
  by (induction bs arbitrary: b) auto

lemma finish_server_run:
  assumes "server_ok nprocs v" and "sv_p v = nprocs" and "acts finish_server v tr r v'"
  shows "r = Inr (sv_connections v) \<and> v' = v"
proof -
  have "foldl (\<and>) True (sv_success v)"
    using assms(1,2) by (auto simp: foldl_and server_ok_def in_set_conv_nth)
  then have 1: "acts (bindA (forA [0..<nprocs] confirm) (\<lambda>_. bindA getA (\<lambda>v. retA (sv_connections v)))) v tr r v'"
    using assms by (simp add: finish_server_def acts_bind_getA server_ok_def)
  have "r1 = Inr () \<and> v1 = v" if "acts (forA is confirm) v t r1 v1" and "\<forall>i \<in> set is. i < nprocs" for "is" t r1 v1
    using that
  proof (induction "is" arbitrary: t)
    case Nil
    then show ?case by (simp add: acts_retA)
  next
    case (Cons i js)
    have "acts (confirm i) v u q w \<Longrightarrow> q = Inr () \<and> w = v" for u q w
      using Cons.prems(2) assms(1)
      by (auto simp: confirm_def sysA_def server_ok_def acts_bind_getA acts_bind_liftA acts_bind_bindA acts_bind_callA acts_retA acts_bind_retA)
    then show ?case using Cons by (auto simp: acts_bindA)
  qed
  with 1 show ?thesis by (fastforce simp: acts_bindA acts_getA acts_retA)
qed

lemma keeps_listen: "keeps P (open_sockets k nprocs addrs t0 timeout)"
proof -
  have steps: "keeps P (try_steps s qs)" for s qs
    by (induction qs) (auto intro!: keeps_rules)
  have "keeps P (listen_all nprocs addrs)"
    by (induction addrs) (auto simp: listen_on_def intro!: keeps_rules steps)
  then show ?thesis
    by (induction k) (auto intro!: keeps_rules)
qed

text \<open>The two ways in which the server can end.\<close>

definition server_end :: "nat \<Rightarrow> fault + int list \<Rightarrow> server \<Rightarrow> bool" where
  "server_end nprocs r v \<longleftrightarrow> (case r of Inl e \<Rightarrow> e \<noteq> refusal
     | Inr cs \<Rightarrow> cs = sv_connections v \<and> length cs = nprocs \<and> sv_p v = nprocs \<and> list_all id (sv_success v))"

lemma server_end_fault: "e \<noteq> refusal \<Longrightarrow> server_end nprocs (Inl e) v"
  by (simp add: server_end_def)

lemma server_end_bind:
  assumes "acts (bindA m f) s tr r s'" and "faults (\<lambda>e. e \<noteq> refusal) m"
    and "\<And>x s1 t1 t2. acts m s t1 (Inr x) s1 \<Longrightarrow> acts (f x) s1 t2 r s' \<Longrightarrow> server_end nprocs r s'"
  shows "server_end nprocs r s'"
  using assms(1) unfolding acts_bindA
proof (elim disjE exE conjE)
  fix e assume "r = Inl e" "acts m s tr (Inl e) s'"
  with assms(2) have "e \<noteq> refusal" unfolding faults_def by blast
  then show ?thesis using \<open>r = Inl e\<close> by (simp add: server_end_fault)
next
  fix x s1 t1 t2 assume "acts m s t1 (Inr x) s1" "acts (f x) s1 t2 r s'"
  then show ?thesis by (rule assms(3))
qed

lemma accept_phase_end:
  assumes "acts (bindA (accept_loop k millis nprocs ss t0 timeout) (\<lambda>_. bindA (forA ss closeSock) (\<lambda>_. finish_server))) v tr r v'"
    and "server_ok nprocs v"
  shows "server_end nprocs r v'"
  using assms(1)
proof (rule server_end_bind [OF _ faults_accept_loop])
  fix u v1 t1 t2
  assume l: "acts (accept_loop k millis nprocs ss t0 timeout) v t1 (Inr u) v1"
    and 2: "acts (bindA (forA ss closeSock) (\<lambda>_. finish_server)) v1 t2 r v'"
  have v1: "server_ok nprocs v1" "sv_p v1 = nprocs" using accept_loop_run [of _ _ _ _ _ _ _ _ v1] l assms(2) by (metis old.unit.exhaust)+
  from 2 show ?thesis
  proof (rule server_end_bind)
    show "faults (\<lambda>e. e \<noteq> refusal) (forA ss closeSock)" by (intro faults_rules)
  next
    fix w v2 t3 t4
    assume c: "acts (forA ss closeSock) v1 t3 (Inr w) v2" and f: "acts finish_server v2 t4 r v'"
    have "keeps (\<lambda>x. x = v1) (forA ss closeSock)" by (intro keeps_rules)
    then have "v2 = v1" using c by (auto dest: keepsD)
    with finish_server_run [OF v1] f have "r = Inr (sv_connections v1)" "v' = v1" by auto
    then show ?thesis using v1 by (auto simp: server_end_def server_ok_def list_all_length)
  qed
qed

lemma listen_phase_end:
  assumes "acts (bindA (open_sockets k nprocs addrs t0 timeout) (\<lambda>ss.
     if ss \<noteq> []
     then bindA (accept_loop k millis nprocs ss t0 timeout) (\<lambda>_.
          bindA (forA ss closeSock) (\<lambda>_. finish_server))
     else throwA (HookException ''Server could not open any network ports within timeout''))) v tr r v'"
    and "server_ok nprocs v"
  shows "server_end nprocs r v'"
  using assms(1)
proof (rule server_end_bind [OF _ faults_open_sockets])
  fix ss v1 t1 t2
  assume o: "acts (open_sockets k nprocs addrs t0 timeout) v t1 (Inr ss) v1"
    and 2: "acts (if ss \<noteq> [] then bindA (accept_loop k millis nprocs ss t0 timeout) (\<lambda>_. bindA (forA ss closeSock) (\<lambda>_. finish_server))
     else throwA (HookException ''Server could not open any network ports within timeout'')) v1 t2 r v'"
  have "keeps (server_ok nprocs) (open_sockets k nprocs addrs t0 timeout)" by (rule keeps_listen)
  then have "server_ok nprocs v1" using o assms(2) by (rule keepsD)
  with 2 show ?thesis
    by (cases "ss = []") (auto simp: acts_throwA intro: accept_phase_end server_end_fault)
qed


text \<open>A server for two processes that listens on one address.\<close>

definition demo_server :: "(net_call \<times> net_reply) list" where
  "demo_server =
    [(ClockNow, Instant (Some (Time 5 0))), (GetAddrInfo None ''7177'', Addresses (Some [Some (Inet [0, 0, 0, 0])])),
     (Socket (Inet [0, 0, 0, 0]), Sys 3), (SetSockOpt 3, Sys 0), (Bind 3 (Inet [0, 0, 0, 0]), Sys 0), (Listen 3 2, Sys 0),
     (SetNonBlocking 3, Sys 0), (ClockNow, Instant (Some (Time 5 1000))), (ClockNow, Instant (Some (Time 5 2000))),
     (Poll [3] 60000, Ready 1 [True]), (Accept 3, Sys 4), (Write 4 magicServer, Sys 14), (Read 4 14, Bytes magicClient),
     (Shutdown 3, Sys 0), (Close 3, Sys 0), (Write (-1) (int_bytes 1), Sys (-1)), (Write 4 (int_bytes 1), Sys 4)]"

lemma demo_server_run:
  "acts (serverAcceptsClients 2 (\<lambda>_. 60000) ''7177'' 2 (Time 60 0)) (server_start 2) demo_server (Inr [-1, 4])
     \<lparr>sv_connections = [-1, 4], sv_success = [True, True], sv_p = 2\<rparr>"
  unfolding acts_def by code_simp


lemma read_rounds_done: "read_rounds k fd 0 bs = retA bs"
  by (cases k) simp_all

lemma acts_bind_readAll:
  assumes "length bs = n" and "0 < n"
  shows "acts (bindA (readAll fd n) f) s ((Read fd n, Bytes bs) # tr) r s' \<longleftrightarrow> acts (f bs) s tr r s'"
proof -
  obtain k where k: "n = Suc k" using assms(2) by (cases n) auto
  show ?thesis using assms
    by (auto simp: read_rounds_done readAll_def k acts_bind_bindA acts_bind_callA acts_bind_if bytes_of_def acts_bind_retA)
qed

lemma acts_bind_accept:
  assumes "fd \<noteq> -1" and "n \<noteq> -1"
  shows "acts (bindA (accept_client s) f) v
    ((Accept s, Sys fd) # (Write fd magicServer, Sys n) # (Read fd (length magicClient), Bytes magicClient) # tr) r v' \<longleftrightarrow>
    acts (bindA (join_client fd) f) v tr r v'"
proof -
  have "filled (length magicClient) magicClient = magicClient" by (simp add: filled_def)
  moreover have "0 < length magicClient" by (simp add: magicClient_def)
  ultimately show ?thesis using assms
    by (simp add: accept_client_def sysA_def sys_def acts_bind_bindA acts_bind_callA acts_bind_retA acts_bind_if acts_bind_readAll)
qed

text \<open>
  The loop over the sockets that a poll has found ready does not look at the number of processes that are still missing: when two
  sockets are ready and one process is missing, both clients are accepted, and the second is stored behind the end of the vector.
\<close>

theorem server_overrun:
  assumes "server_ok nprocs v" and "sv_p v + 1 = nprocs" and "fd1 \<noteq> -1" and "fd2 \<noteq> -1" and "n1 \<noteq> -1" and "n2 \<noteq> -1"
  shows "acts (serve_ready [s1, s2] [True, True]) v
    [(Accept s1, Sys fd1), (Write fd1 magicServer, Sys n1), (Read fd1 (length magicClient), Bytes magicClient),
     (Accept s2, Sys fd2), (Write fd2 magicServer, Sys n2), (Read fd2 (length magicClient), Bytes magicClient)]
    (Inl OutOfBounds)
    (v\<lparr>sv_connections := (sv_connections v)[sv_p v := fd1], sv_success := (sv_success v)[sv_p v := True], sv_p := nprocs\<rparr>)"
proof -
  have p: "sv_p v < length (sv_connections v)" "sv_p v < length (sv_success v)" "length (sv_connections v) = Suc (sv_p v)"
    using assms(1,2) by (simp_all add: server_ok_def)
  then show ?thesis using assms(2)
    by (simp add: acts_bind_accept assms join_client_def acts_bind_stateA acts_retA vec_set_def bindE_def)
qed

theorem server_overrun_witness:
  "\<exists>v'. acts (serve_ready [3, 4] [True, True]) (server_start 2)
    [(Accept 3, Sys 5), (Write 5 magicServer, Sys 14), (Read 5 (length magicClient), Bytes magicClient),
     (Accept 4, Sys 6), (Write 6 magicServer, Sys 14), (Read 6 (length magicClient), Bytes magicClient)] (Inl OutOfBounds) v'"
  using server_overrun [of 2 "server_start 2" 5 6 14 14 3 4] by (auto simp: server_start_def server_ok_def)

text \<open>
  A client that is lost while the processes are joined ends the whole operation: the others skip it, but go on to the next
  process with an assertion on the number of processes that can no longer hold.
\<close>

theorem lost_client_asserts:
  assumes "pid \<noteq> 0"
  shows "acts (forA [p, p + 1] (add_client mx pid portName clients)) v
    [(CommSize, MpiNum p), (AllreduceLand 1, MpiNum 0), (CommSize, MpiNum p)] (Inl AssertionFailed) v"
  using assms by (simp add: add_client_def mpi_num_def act_defs)

theorem lost_client_asserts_witness:
  "acts (forA [2, 3] (add_client 1024 1 [112, 0] [])) (server_start 4)
    [(CommSize, MpiNum 2), (AllreduceLand 1, MpiNum 0), (CommSize, MpiNum 2)] (Inl AssertionFailed) (server_start 4)"
  using lost_client_asserts [of 1 2 1024 "[112, 0]" "[]" "server_start 4"] by simp

section \<open>The numbers of the processes\<close>

lemma renumber_run:
  assumes "acts (renumber pid) s tr (Inr c) s'"
  shows "\<exists>h p n. tr = [(SplitComm pid, MpiComm h p n), (FreeComm, snd (tr ! 1))] \<and> c = \<lparr>cm_handle = h, cm_pid = p, cm_nprocs = n\<rparr>"
proof -
  from assms obtain rep t where "tr = (SplitComm pid, rep) # t"
    and "acts (case rep of MpiComm h p n \<Rightarrow> bindA (mpi_okA FreeComm) (\<lambda>_. retA \<lparr>cm_handle = h, cm_pid = p, cm_nprocs = n\<rparr>)
     | _ \<Rightarrow> throwA AssertionFailed) s t (Inr c) s'"
    by (auto simp: renumber_def acts_bind_callA)
  then show ?thesis
    by (cases rep) (auto simp: mpi_okA_def acts_bind_bindA acts_bind_callA acts_bind_assertA acts_retA acts_throwA split: if_splits)
qed

text \<open>What an act does at its end when it returns.\<close>

definition ending :: "('a \<Rightarrow> ('q \<times> 'r) list \<Rightarrow> bool) \<Rightarrow> ('q, 'r, 's, 'a) act \<Rightarrow> bool" where
  "ending R m \<longleftrightarrow> (\<forall>s tr y s'. acts m s tr (Inr y) s' \<longrightarrow> (\<exists>t1 t2. tr = t1 @ t2 \<and> R y t2))"

lemma ending_bindA:
  assumes "\<And>x. ending R (f x)"
  shows "ending R (bindA m f)"
  unfolding ending_def acts_bindA
proof (intro allI impI, elim disjE exE conjE)
  fix s tr y s' x s1 t1 t2
  assume "tr = t1 @ t2" "acts (f x) s1 t2 (Inr y) s'"
  then show "\<exists>t1 t2. tr = t1 @ t2 \<and> R y t2" using assms unfolding ending_def by (metis append.assoc)
qed simp

lemma ending_throwA: "ending R (throwA e)"
  by (simp add: ending_def acts_throwA)

lemma endingD: "ending R m \<Longrightarrow> acts m s tr (Inr y) s' \<Longrightarrow> \<exists>t1 t2. tr = t1 @ t2 \<and> R y t2"
  unfolding ending_def by blast

lemma ending_if: "ending R m \<Longrightarrow> ending R m' \<Longrightarrow> ending R (if b then m else m')"
  by simp

lemma ending_case_prod: "(\<And>x y. ending R (f x y)) \<Longrightarrow> ending R (case z of (x, y) \<Rightarrow> f x y)"
  by (cases z) simp

text \<open>The key and the answer of the last split of \<open>dynamicHook\<close>, four calls before its end.\<close>

definition split_key :: "(net_call \<times> net_reply) list \<Rightarrow> int" where
  "split_key tr = (case fst (tr ! (length tr - 4)) of SplitComm key \<Rightarrow> key | _ \<Rightarrow> 0)"

definition split_reply :: "(net_call \<times> net_reply) list \<Rightarrow> reply" where
  "split_reply tr = (case snd (tr ! (length tr - 4)) of MpiComm h p n \<Rightarrow> Group h p n | _ \<Rightarrow> Done)"

lemma renumber_ending:
  "ending (\<lambda>c t. length t = 4 \<and> fst (t ! 0) = SplitComm pid \<and> (\<exists>h p n. snd (t ! 0) = MpiComm h p n \<and> c = \<lparr>cm_handle = h, cm_pid = p, cm_nprocs = n\<rparr>))
    (bindA (renumber pid) (\<lambda>result. bindA (sysA RestoreAlarm) (\<lambda>_. bindA (sysA (Alarm oldtimeout)) (\<lambda>_. retA result))))"
  unfolding ending_def acts_bindA [of "renumber _"]
proof (intro allI impI, elim disjE exE conjE)
  fix s tr y s' x s1 t1 t2
  assume tr: "tr = t1 @ t2" and 1: "acts (renumber pid) s t1 (Inr x) s1"
    and 2: "acts (bindA (sysA RestoreAlarm) (\<lambda>_. bindA (sysA (Alarm oldtimeout)) (\<lambda>_. retA x))) s1 t2 (Inr y) s'"
  from renumber_run [OF 1] obtain h p n e where t1: "t1 = [(SplitComm pid, MpiComm h p n), e]"
    "x = \<lparr>cm_handle = h, cm_pid = p, cm_nprocs = n\<rparr>" by blast
  from 2 have "y = x" "length t2 = 2" by (auto simp: sysA_def acts_bind_bindA acts_bind_callA acts_bind_retA acts_retA)
  with tr t1 show "\<exists>t1 t2. tr = t1 @ t2 \<and> length t2 = 4 \<and> fst (t2 ! 0) = SplitComm pid \<and>
      (\<exists>h p n. snd (t2 ! 0) = MpiComm h p n \<and> y = \<lparr>cm_handle = h, cm_pid = p, cm_nprocs = n\<rparr>)"
    by (intro exI [of _ "[]"] exI [of _ tr]) auto
qed simp

lemma dynamicHook_result:
  assumes "acts (dynamicHook k mx millis seconds serverNode serverPort pid nprocs timeout) v tr (Inr c) v'"
  shows "split_key tr = pid \<and> (\<exists>h p n. split_reply tr = Group h p n \<and> c = \<lparr>cm_handle = h, cm_pid = p, cm_nprocs = n\<rparr>)"
proof -
  have "ending (\<lambda>c t. length t = 4 \<and> fst (t ! 0) = SplitComm pid \<and> (\<exists>h p n. snd (t ! 0) = MpiComm h p n \<and> c = \<lparr>cm_handle = h, cm_pid = p, cm_nprocs = n\<rparr>))
      (dynamicHook k mx millis seconds serverNode serverPort pid nprocs timeout)"
    unfolding dynamicHook_def
    by (rule ending_bindA, rule ending_bindA, rule ending_bindA, rule ending_bindA, rule ending_if, rule ending_throwA,
        rule ending_bindA, rule ending_bindA, rule ending_case_prod, rule ending_case_prod, rule ending_bindA, rule ending_bindA,
        rule renumber_ending)
  from endingD [OF this assms] obtain t1 t2 h p n where "tr = t1 @ t2" "length t2 = 4" "fst (t2 ! 0) = SplitComm pid"
    "snd (t2 ! 0) = MpiComm h p n" "c = \<lparr>cm_handle = h, cm_pid = p, cm_nprocs = n\<rparr>"
    by (elim exE conjE)
  then show ?thesis by (simp add: split_reply_def split_key_def nth_append)
qed

lemma rank_of_permutation:
  assumes "bij_betw \<pi> {..<n} {..<n}" and "i < n"
  shows "split_rank (\<lambda>_. 0) (\<lambda>j. int (\<pi> j)) n i = \<pi> i" and "split_size (\<lambda>_. 0) n i = n"
proof -
  have inj: "inj_on \<pi> {..<n}" and img: "\<pi> ` {..<n} = {..<n}" using assms(1) by (auto simp: bij_betw_def)
  have "\<pi> ` {j. j < n \<and> \<pi> j < \<pi> i} = {..<\<pi> i}"
  proof
    show "{..<\<pi> i} \<subseteq> \<pi> ` {j. j < n \<and> \<pi> j < \<pi> i}"
    proof
      fix q assume q: "q \<in> {..<\<pi> i}"
      have "\<pi> i < n" using img assms(2) by auto
      then have "q \<in> \<pi> ` {..<n}" using q img by auto
      then show "q \<in> \<pi> ` {j. j < n \<and> \<pi> j < \<pi> i}" using q by auto
    qed
  qed auto
  moreover have "inj_on \<pi> {j. j < n \<and> \<pi> j < \<pi> i}" using inj by (auto simp: inj_on_def)
  ultimately have "card {j. j < n \<and> \<pi> j < \<pi> i} = \<pi> i" by (metis card_image card_lessThan)
  moreover have "{j. j < n \<and> ((0 :: int) = 0 \<and> (int (\<pi> j) < int (\<pi> i) \<or> int (\<pi> j) = int (\<pi> i) \<and> j < i))} = {j. j < n \<and> \<pi> j < \<pi> i}"
    using inj assms(2) by (auto simp: inj_on_def)
  ultimately show "split_rank (\<lambda>_. 0) (\<lambda>j. int (\<pi> j)) n i = \<pi> i"
    unfolding split_rank_def length_filter_upt by simp
  show "split_size (\<lambda>_. 0) n i = n" by (simp add: split_size_def)
qed


text \<open>One process alone.\<close>

definition demo_hook :: "(net_call \<times> net_reply) list" where
  "demo_hook =
    [(GetAlarm, Sys 0), (Alarm 0, Sys 0), (SetAlarm, Sys 0), (Alarm 61, Sys 0),
     (GetAddrInfo (Some ''here'') ''7177'', Addresses (Some [Some (Inet [127, 0, 0, 1])])),
     (GetIfAddrs, Addresses (Some [Some OtherFamily, Some (Inet [127, 0, 0, 1])])), (DupSelf, MpiDone),
     (ClockNow, Instant (Some (Time 5 0))), (GetAddrInfo None ''7177'', Addresses (Some [Some (Inet [0, 0, 0, 0])])),
     (Socket (Inet [0, 0, 0, 0]), Sys 3), (SetSockOpt 3, Sys 0), (Bind 3 (Inet [0, 0, 0, 0]), Sys 0), (Listen 3 1, Sys 0),
     (SetNonBlocking 3, Sys 0), (ClockNow, Instant (Some (Time 5 1000))), (Shutdown 3, Sys 0), (Close 3, Sys 0),
     (Write (-1) (int_bytes 1), Sys (-1)), (OpenPort, Bytes [112]), (ClosePort [112], MpiDone),
     (SplitComm 0, MpiComm 9 0 1), (FreeComm, MpiDone), (RestoreAlarm, Sys 0), (Alarm 0, Sys 0)]"

definition demo_hooked :: server where
  "demo_hooked = \<lparr>sv_connections = [-1], sv_success = [True], sv_p = 1\<rparr>"

lemma demo_hook_run:
  "acts (dynamicHook 1 1 (\<lambda>_. 60000) 61 ''here'' ''7177'' 0 1 (Time 60 0)) (server_start 1) demo_hook
     (Inr \<lparr>cm_handle = 9, cm_pid = 0, cm_nprocs = 1\<rparr>) demo_hooked"
  unfolding acts_def by code_simp


end
