(* ===== verification/Machine_Params.thy ===== *)
theory Machine_Params imports Message_Queue Config Time_Double begin

text \<open>
  The measurement of the machine, \<open>src/common/machineparams.cpp\<close>: how long messages of seven sizes take, and the interpolation
  between these sizes.  It is a client of the interface of LPF, whose functions are calls here; so are the allocation of the
  buffers and the clock.  A synchronisation is given the memory that the process has registered and answers what is in it
  afterwards.  Of the two buffers of bytes only the sizes are kept: their contents are never looked at.
\<close>

section \<open>The parameters\<close>

definition BLOCK_SIZES :: "nat list" where
  "BLOCK_SIZES = [1, 8, 128, 1024, 8192, 131072, 1048576]"

definition DATAPOINTS :: nat where
  "DATAPOINTS = 7"

record machine_params =
  mp_set :: bool
  mp_totalProcs :: nat
  mp_blockSize :: "nat list"
  mp_messageGap :: "double list"
  mp_latency :: "double list"

definition MachineParams :: machine_params where
  "MachineParams = \<lparr>mp_set = False, mp_totalProcs = 0, mp_blockSize = BLOCK_SIZES,
     mp_messageGap = replicate DATAPOINTS (Fin 0), mp_latency = replicate DATAPOINTS (Fin 0)\<rparr>"

text \<open>\<open>std::upper_bound\<close>: the index of the first element that is larger.\<close>

definition upper_bound :: "nat list \<Rightarrow> nat \<Rightarrow> nat" where
  "upper_bound xs x = length (takeWhile (\<lambda>y. y \<le> x) xs)"

definition interpolate :: "nat list \<Rightarrow> double list \<Rightarrow> nat \<Rightarrow> fault + double" where
  "interpolate bs ys blockSize =
     (let i = upper_bound bs blockSize in
      bindE (vec_at ys (if i > 0 then i - 1 else i)) (\<lambda>y1.
      bindE (vec_at ys (if i < DATAPOINTS then i else i - 1)) (\<lambda>y2.
      bindE (vec_at bs (sub64 i 1)) (\<lambda>b1.
      bindE (vec_at bs i) (\<lambda>b2.
      let b1 = d_of_int (int b1); b2 = d_of_int (int b2); b = d_of_int (int blockSize) in
      Inr (d_add y1 (d_div (d_mul (d_sub y2 y1) (d_sub b b1)) (d_sub b2 b1))))))))"

definition getLatency :: "machine_params \<Rightarrow> nat \<Rightarrow> fault + double" where
  "getLatency m blockSize = interpolate (mp_blockSize m) (mp_latency m) blockSize"

definition getMessageGap :: "machine_params \<Rightarrow> nat \<Rightarrow> fault + double" where
  "getMessageGap m blockSize = interpolate (mp_blockSize m) (mp_messageGap m) blockSize"

section \<open>The calls\<close>

datatype condition = Continue | Stop | Error

datatype buffer = AllStatus | AllTimings | ReadBuffer | WriteBuffer

text \<open>A transfer names slot and offset at home, or the process, slot and offset away, in the order of the code, and a size.\<close>

datatype lpf_call =
    ResizeRegister nat | ResizeQueue nat
  | LpfSync "condition list" "double list"
  | RegisterGlobal buffer nat | Deregister nat
  | LpfPut nat nat nat nat nat nat | LpfGet nat nat nat nat nat nat
  | Grow buffer nat | Now

datatype lpf_reply =
    Rc err_t | NewSlot err_t nat | Synced err_t "condition list" "double list" | Grown bool | Clocked "time option"

record bench =
  bn_readBuffer :: nat
  bn_writeBuffer :: nat
  bn_allStatus :: "condition list"
  bn_allTimings :: "double list"
  bn_latency :: double
  bn_messageGap :: double
  bn_machine :: machine_params

type_synonym 'a probing = "(lpf_call, lpf_reply, bench, 'a) act"

definition rc_of :: "lpf_reply \<Rightarrow> err_t" where
  "rc_of r = (case r of Rc e \<Rightarrow> e | _ \<Rightarrow> LPF_ERR_FATAL)"

text \<open>\<open>ASSERT( LPF_SUCCESS == rc )\<close> after a call.\<close>

definition expectA :: "lpf_call \<Rightarrow> unit probing" where
  "expectA q = bindA (callA q) (\<lambda>r. assertA (rc_of r = LPF_SUCCESS))"

definition registerA :: "buffer \<Rightarrow> nat \<Rightarrow> nat probing" where
  "registerA b n = bindA (callA (RegisterGlobal b n)) (\<lambda>r. case r of
     NewSlot e s \<Rightarrow> bindA (assertA (e = LPF_SUCCESS)) (\<lambda>_. retA s)
   | _ \<Rightarrow> throwA AssertionFailed)"

definition syncA :: "err_t probing" where
  "syncA = bindA getA (\<lambda>v. bindA (callA (LpfSync (bn_allStatus v) (bn_allTimings v))) (\<lambda>r. case r of
     Synced e st ti \<Rightarrow> bindA (modA (\<lambda>v. v\<lparr>bn_allStatus := st, bn_allTimings := ti\<rparr>)) (\<lambda>_. retA e)
   | _ \<Rightarrow> retA LPF_ERR_FATAL))"

definition clockA :: "time probing" where
  "clockA = bindA (callA Now) (\<lambda>r. case r of
     Clocked (Some t) \<Rightarrow> retA t | _ \<Rightarrow> throwA (ErrorThrown ''Unable to query high-precision system clock''))"

definition secondsA :: "double \<Rightarrow> time probing" where
  "secondsA d = liftA (\<lambda>_. case fromSeconds d of None \<Rightarrow> Inl Unrepresentable | Some t \<Rightarrow> Inr t)"

definition growA :: "buffer \<Rightarrow> nat \<Rightarrow> bool probing" where
  "growA b n = bindA (callA (Grow b n)) (\<lambda>r. retA (r = Grown True))"

section \<open>The exchange of the conditions\<close>

primrec summarize :: "condition list \<Rightarrow> nat list \<Rightarrow> condition \<Rightarrow> fault + condition" where
  "summarize allC [] result = Inr result"
| "summarize allC (p # ps) result =
     bindE (vec_at allC p) (\<lambda>c.
     if result \<noteq> Error \<and> c = Stop then summarize allC ps Stop
     else if c = Error then Inr Error
     else summarize allC ps result)"

text \<open>A condition takes four bytes.\<close>

definition broadcast_condition :: "nat \<Rightarrow> nat \<Rightarrow> nat \<Rightarrow> unit probing" where
  "broadcast_condition pid nprocs allCSlot =
     forA [0..<nprocs] (\<lambda>p.
       if p \<noteq> pid then expectA (LpfPut allCSlot (4 * pid) p allCSlot (4 * pid) 4) else retA ())"

definition allgather :: "nat \<Rightarrow> nat \<Rightarrow> nat \<Rightarrow> condition probing" where
  "allgather pid nprocs allCSlot =
     bindA syncA (\<lambda>rc.
     if rc \<noteq> LPF_SUCCESS then retA Error
     else bindA (broadcast_condition pid nprocs allCSlot) (\<lambda>_.
          bindA syncA (\<lambda>rc.
          if rc \<noteq> LPF_SUCCESS then retA Error
          else bindA (liftA (\<lambda>v. summarize (bn_allStatus v) [0..<nprocs] Continue)) (\<lambda>result.
               bindA syncA (\<lambda>rc. retA (if rc \<noteq> LPF_SUCCESS then Error else result))))))"

definition send_one :: "nat \<Rightarrow> nat \<Rightarrow> int \<Rightarrow> nat \<Rightarrow> nat \<Rightarrow> nat \<Rightarrow> nat \<Rightarrow> nat \<Rightarrow> unit probing" where
  "send_one pid nprocs mode blockSize readSlot writeSlot m p =
     (let i = add64 (mul64 m nprocs) p;
          j = add64 (mul64 m nprocs) pid in
      if mode = 0 \<or> mode = 1 \<and> m mod 2 = 0
      then expectA (LpfPut readSlot (mul64 i blockSize) p writeSlot (mul64 j blockSize) blockSize)
      else expectA (LpfGet p readSlot (mul64 i blockSize) writeSlot (mul64 j blockSize) blockSize))"

definition sendMsgs :: "nat \<Rightarrow> nat \<Rightarrow> nat \<Rightarrow> int \<Rightarrow> nat \<Rightarrow> nat \<Rightarrow> nat \<Rightarrow> unit probing" where
  "sendMsgs pid nprocs nMsgs mode blockSize readSlot writeSlot =
     forA [0..<nMsgs] (\<lambda>m. forA [0..<nprocs] (send_one pid nprocs mode blockSize readSlot writeSlot m))"

section \<open>The measurement of one size\<close>

definition preferredSamples :: nat where "preferredSamples = 100"
definition minSamples :: nat where "minSamples = 10"
definition maxRange :: nat where "maxRange = 60"
definition minRange :: nat where "minRange = 3"

text \<open>The tables for the conditions and for the four timings of every process.\<close>

definition allocate_tables :: "nat \<Rightarrow> bool probing" where
  "allocate_tables nprocs =
     bindA (growA AllStatus nprocs) (\<lambda>ok.
     if \<not> ok then retA False
     else bindA (modA (\<lambda>v. v\<lparr>bn_allStatus := replicate nprocs Continue\<rparr>)) (\<lambda>_.
          bindA (growA AllTimings (mul64 4 nprocs)) (\<lambda>ok.
          if \<not> ok then retA False
          else bindA (modA (\<lambda>v. v\<lparr>bn_allTimings := replicate (mul64 4 nprocs) DBL_MAX\<rparr>)) (\<lambda>_. retA True))))"

definition grow_buffers :: "nat \<Rightarrow> bool probing" where
  "grow_buffers n =
     bindA (growA ReadBuffer n) (\<lambda>ok.
     if \<not> ok then retA False
     else bindA (modA (\<lambda>v. v\<lparr>bn_readBuffer := n\<rparr>)) (\<lambda>_.
          bindA (growA WriteBuffer n) (\<lambda>ok.
          if \<not> ok then retA False
          else bindA (modA (\<lambda>v. v\<lparr>bn_writeBuffer := n\<rparr>)) (\<lambda>_. retA True))))"

definition set_condition :: "nat \<Rightarrow> condition \<Rightarrow> unit probing" where
  "set_condition pid c = stateA (\<lambda>v. bindE (vec_set (bn_allStatus v) pid c) (\<lambda>st. Inr ((), v\<lparr>bn_allStatus := st\<rparr>)))"

text \<open>The clock is read a second time only when it matters.\<close>

definition range_condition :: "nat \<Rightarrow> err_t \<Rightarrow> time \<Rightarrow> time \<Rightarrow> condition probing" where
  "range_condition rng rc softDeadline hardDeadline =
     bindA clockA (\<lambda>now.
     if time_lessThan hardDeadline now then retA Error
     else bindA (if rng > minRange then bindA clockA (\<lambda>now. retA (time_lessThan softDeadline now)) else retA False) (\<lambda>late.
          retA (if late then Stop
            else if rc = LPF_ERR_OUT_OF_MEMORY then Stop
            else if rc = LPF_SUCCESS then Continue
            else Error)))"

definition LPF_PROBE_ERR_TIMEOUT :: err_t where
  "LPF_PROBE_ERR_TIMEOUT = -1"

text \<open>
  The first half of a round of the exploration: whether the queue and the buffers can be made large enough, and in time, for
  \<open>2 ^ rng\<close> messages to every process.
\<close>

definition try_range ::
  "nat \<Rightarrow> nat \<Rightarrow> nat \<Rightarrow> nat \<Rightarrow> double \<Rightarrow> double \<Rightarrow> time \<Rightarrow> time \<Rightarrow> nat \<Rightarrow> condition probing" where
  "try_range pid nprocs blockSize rng softMaxSeconds hardMaxSeconds startTime commTime statusSlot =
     bindA (modA (\<lambda>v. v\<lparr>bn_allStatus := replicate nprocs Continue @ drop nprocs (bn_allStatus v)\<rparr>)) (\<lambda>_.
     bindA (callA (ResizeQueue (mul64 nprocs (add64 1 (2 ^ rng))))) (\<lambda>r.
     bindA (grow_buffers (add64 (mul64 (mul64 blockSize nprocs) (2 ^ rng)) 8)) (\<lambda>ok.
     bindA (secondsA (d_div softMaxSeconds (d_of_int (int preferredSamples)))) (\<lambda>soft.
     bindA (secondsA (d_sub hardMaxSeconds (d_mul (toSeconds commTime) (d_of_int (int minSamples))))) (\<lambda>hard.
     bindA (range_condition rng (if ok then rc_of r else LPF_ERR_OUT_OF_MEMORY)
              (time_plus startTime soft) (time_plus startTime hard)) (\<lambda>c.
     bindA (set_condition pid c) (\<lambda>_.
     allgather pid nprocs statusSlot)))))))"

text \<open>The two buffers, as they are, become slots.  The second half of a round measures the time that the messages take.\<close>

definition register_buffers :: "(nat \<times> nat) probing" where
  "register_buffers =
     bindA getA (\<lambda>v.
     bindA (registerA ReadBuffer (bn_readBuffer v)) (\<lambda>readSlot.
     bindA (registerA WriteBuffer (bn_writeBuffer v)) (\<lambda>writeSlot. retA (readSlot, writeSlot))))"

definition time_range :: "nat \<Rightarrow> nat \<Rightarrow> nat \<Rightarrow> nat \<Rightarrow> (err_t + time) probing" where
  "time_range pid nprocs blockSize rng =
     bindA register_buffers (\<lambda>(readSlot, writeSlot).
     bindA syncA (\<lambda>rc.
     if rc \<noteq> LPF_SUCCESS then retA (Inl LPF_ERR_FATAL)
     else bindA clockA (\<lambda>t0.
          bindA (sendMsgs pid nprocs (2 ^ rng) 0 blockSize readSlot writeSlot) (\<lambda>_.
          bindA syncA (\<lambda>rc.
          if rc \<noteq> LPF_SUCCESS then retA (Inl LPF_ERR_FATAL)
          else bindA clockA (\<lambda>t1.
               bindA (expectA (Deregister readSlot)) (\<lambda>_.
               bindA (expectA (Deregister writeSlot)) (\<lambda>_.
               retA (Inr (time_minus t1 t0))))))))))"

text \<open>The loop; \<open>k\<close> is the number of rounds that are left, \<open>maxRange - rng\<close>.\<close>

primrec explore ::
  "nat \<Rightarrow> nat \<Rightarrow> nat \<Rightarrow> nat \<Rightarrow> double \<Rightarrow> double \<Rightarrow> time \<Rightarrow> nat \<Rightarrow> nat \<Rightarrow> nat \<Rightarrow> time \<Rightarrow> (err_t + nat) probing" where
  "explore 0 pid nprocs blockSize soft hard startTime statusSlot timingsSlot rng commTime = retA (Inr rng)"
| "explore (Suc k) pid nprocs blockSize soft hard startTime statusSlot timingsSlot rng commTime =
     bindA (try_range pid nprocs blockSize rng soft hard startTime commTime statusSlot) (\<lambda>loopExit.
     if loopExit = Stop then retA (Inr rng)
     else if loopExit = Error
     then bindA (expectA (Deregister timingsSlot)) (\<lambda>_.
          bindA (expectA (Deregister statusSlot)) (\<lambda>_. retA (Inl LPF_PROBE_ERR_TIMEOUT)))
     else bindA (time_range pid nprocs blockSize rng) (\<lambda>t. case t of
            Inl rc \<Rightarrow> retA (Inl rc)
          | Inr commTime \<Rightarrow> explore k pid nprocs blockSize soft hard startTime statusSlot timingsSlot (rng + 1) commTime))"

text \<open>The initial data are doubles, one after the other from the start of the buffer.\<close>

definition fill_buffer :: "nat \<Rightarrow> fault + unit" where
  "fill_buffer n = (if n mod 8 = 0 then Inr () else Inl OutOfBounds)"

definition sample_condition :: "nat \<Rightarrow> nat \<Rightarrow> time \<Rightarrow> double \<Rightarrow> double \<Rightarrow> condition probing" where
  "sample_condition j i startTime softMaxSeconds hardMaxSeconds =
     bindA (secondsA (d_add (toSeconds startTime) hardMaxSeconds)) (\<lambda>hardDeadline.
     bindA (secondsA (d_add (toSeconds startTime) softMaxSeconds)) (\<lambda>softDeadline.
     bindA clockA (\<lambda>now.
     retA (if time_lessThan hardDeadline now then Error
       else if j \<ge> 3 \<and> i > minSamples \<and> time_lessThan softDeadline now then Stop
       else Continue))))"

definition keep_timing :: "nat \<Rightarrow> double \<Rightarrow> unit probing" where
  "keep_timing n seconds =
     stateA (\<lambda>v.
     bindE (vec_at (bn_allTimings v) n) (\<lambda>t.
     bindE (vec_set (bn_allTimings v) n (d_min t seconds)) (\<lambda>ti. Inr ((), v\<lparr>bn_allTimings := ti\<rparr>))))"

text \<open>One timing; \<open>None\<close> when a synchronisation has failed.\<close>

definition take_sample :: "nat \<Rightarrow> nat \<Rightarrow> nat \<Rightarrow> nat \<Rightarrow> nat \<Rightarrow> nat \<Rightarrow> time option probing" where
  "take_sample pid nprocs blockSize readSlot writeSlot nMsgs =
     bindA syncA (\<lambda>rc.
     if rc \<noteq> LPF_SUCCESS then retA None
     else bindA clockA (\<lambda>t0.
          bindA (sendMsgs pid nprocs nMsgs 0 blockSize readSlot writeSlot) (\<lambda>_.
          bindA syncA (\<lambda>rc.
          if rc \<noteq> LPF_SUCCESS then retA None
          else bindA clockA (\<lambda>t1. retA (Some (time_minus t1 t0)))))))"

primrec sample_loop ::
  "nat \<Rightarrow> nat \<Rightarrow> nat \<Rightarrow> nat \<Rightarrow> double \<Rightarrow> double \<Rightarrow> time \<Rightarrow> nat \<Rightarrow> nat \<Rightarrow> nat \<Rightarrow> nat \<Rightarrow> nat \<Rightarrow> nat \<Rightarrow> nat \<Rightarrow> err_t option probing" where
  "sample_loop 0 pid nprocs blockSize soft hard startTime statusSlot timingsSlot readSlot writeSlot j nMsgs i = retA None"
| "sample_loop (Suc k) pid nprocs blockSize soft hard startTime statusSlot timingsSlot readSlot writeSlot j nMsgs i =
     bindA (take_sample pid nprocs blockSize readSlot writeSlot nMsgs) (\<lambda>t. case t of
       None \<Rightarrow> retA (Some LPF_ERR_FATAL)
     | Some t \<Rightarrow>
         bindA (keep_timing (j + 4 * pid) (toSeconds t)) (\<lambda>_.
         bindA (sample_condition j i startTime soft hard) (\<lambda>c.
         bindA (set_condition pid c) (\<lambda>_.
         bindA (allgather pid nprocs statusSlot) (\<lambda>loopExit.
         if loopExit = Error
         then bindA (forA [readSlot, writeSlot, timingsSlot, statusSlot] (\<lambda>s. expectA (Deregister s))) (\<lambda>_.
              retA (Some LPF_PROBE_ERR_TIMEOUT))
         else if loopExit = Stop then retA None
         else sample_loop k pid nprocs blockSize soft hard startTime statusSlot timingsSlot readSlot writeSlot j nMsgs (i + 1))))))"

primrec sample_all ::
  "(nat \<times> nat) list \<Rightarrow> nat \<Rightarrow> nat \<Rightarrow> nat \<Rightarrow> double \<Rightarrow> double \<Rightarrow> time \<Rightarrow> nat \<Rightarrow> nat \<Rightarrow> nat \<Rightarrow> nat \<Rightarrow> err_t option probing" where
  "sample_all [] pid nprocs blockSize soft hard startTime statusSlot timingsSlot readSlot writeSlot = retA None"
| "sample_all (x # xs) pid nprocs blockSize soft hard startTime statusSlot timingsSlot readSlot writeSlot =
     bindA (sample_loop preferredSamples pid nprocs blockSize soft hard startTime statusSlot timingsSlot readSlot writeSlot (fst x) (snd x) 0)
       (\<lambda>rc. case rc of
         Some rc \<Rightarrow> retA (Some rc)
       | None \<Rightarrow> sample_all xs pid nprocs blockSize soft hard startTime statusSlot timingsSlot readSlot writeSlot)"

text \<open>Four doubles take 32 bytes.\<close>

definition send_timings :: "nat \<Rightarrow> nat \<Rightarrow> nat \<Rightarrow> unit probing" where
  "send_timings pid nprocs timingsSlot =
     forA [0..<nprocs] (\<lambda>p.
       if p \<noteq> pid then expectA (LpfPut timingsSlot (pid * 32) p timingsSlot (pid * 32) 32) else retA ())"

primrec best_from :: "double list \<Rightarrow> nat \<Rightarrow> nat list \<Rightarrow> double \<Rightarrow> fault + double" where
  "best_from ti d [] best = Inr best"
| "best_from ti d (p # ps) best =
     bindE (vec_at ti (d + p * 4)) (\<lambda>t. best_from ti d ps (if d_less t best then t else best))"

definition best_timing :: "double list \<Rightarrow> nat \<Rightarrow> nat \<Rightarrow> fault + double" where
  "best_timing ti nprocs d = bindE (vec_at ti d) (best_from ti d [1..<nprocs])"

text \<open>The two parameters, from the best four timings; \<open>n\<close> is the number of messages of the last one.\<close>

definition estimate :: "nat \<Rightarrow> nat \<Rightarrow> double \<Rightarrow> double \<Rightarrow> double \<Rightarrow> double \<Rightarrow> double \<times> double" where
  "estimate n AllToAllSize t0 t1 t2 t3 =
     (let A = d_of_int (int AllToAllSize);
          highHgap = d_div (d_div (d_sub t3 t2) (d_of_int (int (sub64 n 2)))) A;
          lowHgap = d_div (d_div (d_sub t2 t1) (d_of_int (int (sub64 2 1)))) A;
          latencyUncapped = d_sub t1 (d_mul (d_mul lowHgap (d_of_int 1)) A) in
      (d_max t0 (d_min t1 latencyUncapped), d_max DBL_MIN highHgap))"

definition conclude :: "nat \<Rightarrow> nat \<Rightarrow> nat \<Rightarrow> unit probing" where
  "conclude nprocs blockSize n =
     stateA (\<lambda>v.
     bindE (best_timing (bn_allTimings v) nprocs 0) (\<lambda>t0.
     bindE (best_timing (bn_allTimings v) nprocs 1) (\<lambda>t1.
     bindE (best_timing (bn_allTimings v) nprocs 2) (\<lambda>t2.
     bindE (best_timing (bn_allTimings v) nprocs 3) (\<lambda>t3.
     let (l, g) = estimate n (mul64 blockSize nprocs) t0 t1 t2 t3 in
     Inr ((), v\<lparr>bn_latency := l, bn_messageGap := g\<rparr>))))))"

text \<open>All the measurements, when the exploration has ended in \<open>rng\<close>.\<close>

definition measure_range :: "nat \<Rightarrow> nat \<Rightarrow> nat \<Rightarrow> double \<Rightarrow> double \<Rightarrow> time \<Rightarrow> nat \<Rightarrow> nat \<Rightarrow> nat \<Rightarrow> err_t probing" where
  "measure_range pid nprocs blockSize soft hard startTime statusSlot timingsSlot rng =
     bindA register_buffers (\<lambda>(readSlot, writeSlot).
     bindA (liftA (\<lambda>v. fill_buffer (bn_readBuffer v))) (\<lambda>_.
     let n = max 4 (2 ^ (rng - 1)) in
     bindA (sample_all (enumerate 0 [0, 1, 2, n]) pid nprocs blockSize soft hard startTime statusSlot timingsSlot readSlot writeSlot) (\<lambda>r.
     case r of
       Some rc \<Rightarrow> retA rc
     | None \<Rightarrow>
         bindA (expectA (Deregister readSlot)) (\<lambda>_.
         bindA (expectA (Deregister writeSlot)) (\<lambda>_.
         bindA (send_timings pid nprocs timingsSlot) (\<lambda>_.
         bindA syncA (\<lambda>rc.
         if rc \<noteq> LPF_SUCCESS then retA LPF_ERR_FATAL
         else bindA (conclude nprocs blockSize n) (\<lambda>_.
              bindA (expectA (Deregister timingsSlot)) (\<lambda>_.
              bindA (expectA (Deregister statusSlot)) (\<lambda>_. retA LPF_SUCCESS))))))))))"

definition findMachineParams :: "nat \<Rightarrow> nat \<Rightarrow> nat \<Rightarrow> double \<Rightarrow> double \<Rightarrow> err_t probing" where
  "findMachineParams pid nprocs blockSize softMaxSeconds hardMaxSeconds =
     bindA (allocate_tables nprocs) (\<lambda>ok.
     if \<not> ok then retA LPF_ERR_FATAL
     else bindA (callA (ResizeRegister 4)) (\<lambda>r.
     if rc_of r \<noteq> LPF_SUCCESS then retA LPF_ERR_FATAL
     else bindA syncA (\<lambda>rc.
     if rc \<noteq> LPF_SUCCESS then retA LPF_ERR_FATAL
     else bindA (registerA AllStatus (4 * nprocs)) (\<lambda>statusSlot.
     bindA (registerA AllTimings (8 * mul64 4 nprocs)) (\<lambda>timingsSlot.
     bindA clockA (\<lambda>startTime.
     bindA (secondsA (Fin 0)) (\<lambda>commTime.
     bindA (explore (maxRange - minRange) pid nprocs blockSize softMaxSeconds hardMaxSeconds startTime statusSlot timingsSlot minRange commTime)
       (\<lambda>r. case r of
         Inl rc \<Rightarrow> retA rc
       | Inr rng \<Rightarrow> measure_range pid nprocs blockSize softMaxSeconds hardMaxSeconds startTime statusSlot timingsSlot rng))))))))"

section \<open>The measurement of all sizes\<close>

text \<open>The time for every size, and what is left of the whole time before it.\<close>

definition budgets :: "double \<Rightarrow> double list" where
  "budgets maxSeconds =
     List.map (\<lambda>b. d_add (d_mul (to_double (1 / 100)) maxSeconds)
       (d_mul (d_div (d_mul (to_double (99 / 100)) maxSeconds) (d_of_int (int (sum_list BLOCK_SIZES)))) (d_of_int (int b)))) BLOCK_SIZES"

primrec deadlines :: "double \<Rightarrow> double list \<Rightarrow> double list" where
  "deadlines d [] = []"
| "deadlines d (b # bs) = d # deadlines (d_sub d b) bs"

definition store_params :: "nat \<Rightarrow> unit probing" where
  "store_params i = stateA (\<lambda>v.
     bindE (vec_set (mp_messageGap (bn_machine v)) i (bn_messageGap v)) (\<lambda>gs.
     bindE (vec_set (mp_latency (bn_machine v)) i (bn_latency v)) (\<lambda>ls.
     Inr ((), v\<lparr>bn_machine := (bn_machine v)\<lparr>mp_messageGap := gs, mp_latency := ls\<rparr>\<rparr>))))"

primrec probe_sizes :: "(double \<times> double) list \<Rightarrow> nat \<Rightarrow> nat \<Rightarrow> nat \<Rightarrow> unit probing" where
  "probe_sizes [] pid nprocs i = retA ()"
| "probe_sizes (t # ts) pid nprocs i =
     bindA (liftA (\<lambda>v. vec_at (mp_blockSize (bn_machine v)) i)) (\<lambda>blockSize.
     bindA (findMachineParams pid nprocs blockSize (fst t) (snd t)) (\<lambda>rc.
     bindA (store_params i) (\<lambda>_.
     if rc \<noteq> LPF_SUCCESS then forA [i + 1..<DATAPOINTS] store_params
     else probe_sizes ts pid nprocs (i + 1))))"

text \<open>\<open>impl\<close> is the name of the engine that the library is built for, \<open>parse\<close> the extraction of a number from a text.\<close>

definition max_seconds :: "(string \<Rightarrow> double option) \<Rightarrow> environment \<Rightarrow> string \<Rightarrow> fault + double" where
  "max_seconds parse env impl = (if getEngine env = impl then getMaxSecondsForProbe parse (Fin 1) env else Inr (Fin 0))"

definition probe :: "(string \<Rightarrow> double option) \<Rightarrow> environment \<Rightarrow> string \<Rightarrow> nat \<Rightarrow> nat \<Rightarrow> unit probing" where
  "probe parse env impl pid nprocs =
     bindA (modA (\<lambda>v. v\<lparr>bn_machine := MachineParams\<rparr>)) (\<lambda>_.
     bindA (liftA (\<lambda>_. max_seconds parse env impl)) (\<lambda>maxSeconds.
     bindA (modA (\<lambda>v. v\<lparr>bn_machine := MachineParams\<lparr>mp_set := True, mp_totalProcs := nprocs\<rparr>\<rparr>)) (\<lambda>_.
     if d_less (Fin 0) maxSeconds
     then bindA (modA (\<lambda>v. v\<lparr>bn_readBuffer := 0, bn_writeBuffer := 0, bn_latency := Inf False, bn_messageGap := Inf False\<rparr>)) (\<lambda>_.
          probe_sizes (zip (budgets maxSeconds) (deadlines maxSeconds (budgets maxSeconds))) pid nprocs 0)
     else retA ())))"

definition hookProbe :: "(string \<Rightarrow> double option) \<Rightarrow> environment \<Rightarrow> string \<Rightarrow> nat \<Rightarrow> nat \<Rightarrow> machine_params probing" where
  "hookProbe parse env impl pid nprocs =
     bindA (probe parse env impl pid nprocs) (\<lambda>_. bindA getA (\<lambda>v. retA (bn_machine v)))"

section \<open>The functions that \<open>lpf_probe\<close> hands out\<close>

text \<open>They look neither at the number of processes nor at the attribute; \<open>m\<close> is the object \<open>machineParams()\<close>.\<close>

definition interface_messageGap :: "machine_params \<Rightarrow> nat \<Rightarrow> nat \<Rightarrow> 'attr \<Rightarrow> fault + double" where
  "interface_messageGap m p min_msg_size attr = getMessageGap m min_msg_size"

definition interface_latency :: "machine_params \<Rightarrow> nat \<Rightarrow> nat \<Rightarrow> 'attr \<Rightarrow> fault + double" where
  "interface_latency m p min_msg_size attr = getLatency m min_msg_size"

end
