(* ===== verification/Machine_Results.thy ===== *)
theory Machine_Results imports Machine_Params begin

text \<open>
  What the measurement of the machine does: the processes agree on the condition of every round, the messages stay within the
  buffers unless the very first round fails, the interpolation is exact at the measured sizes, typed between them and out of
  bounds outside of them, and a measurement leaves well-formed parameters, which are no numbers when it could not start.
\<close>

section \<open>All processes have the same condition\<close>

definition worst :: "condition list \<Rightarrow> condition" where
  "worst cs = (if Error \<in> set cs then Error else if Stop \<in> set cs then Stop else Continue)"

lemma summarize_worst:
  "set ps \<subseteq> {..<length cs} \<Longrightarrow> result \<noteq> Error \<Longrightarrow> summarize cs ps result = Inr (worst (result # List.map (\<lambda>p. cs ! p) ps))"
proof (induction ps arbitrary: result)
  case (Cons p ps)
  then have "vec_at cs p = Inr (cs ! p)" by (simp add: vec_at_def)
  with Cons show ?case by (cases "cs ! p"; cases result) (auto simp: worst_def)
next
  case Nil
  then show ?case by (cases result) (simp_all add: worst_def)
qed

text \<open>
  A trace divides into supersteps: the calls since the last synchronisation, and what the synchronisation was given and has
  answered.
\<close>

fun supersteps :: "lpf_call list \<Rightarrow> (lpf_call \<times> lpf_reply) list \<Rightarrow> (lpf_call list \<times> condition list \<times> lpf_reply) list" where
  "supersteps acc [] = []"
| "supersteps acc ((LpfSync st ti, r) # tr) = (rev acc, st, r) # supersteps [] tr"
| "supersteps acc ((q, r) # tr) = supersteps (q # acc) tr"

definition sync_code :: "lpf_reply \<Rightarrow> err_t" where
  "sync_code r = (case r of Synced e st ti \<Rightarrow> e | _ \<Rightarrow> LPF_ERR_FATAL)"

text \<open>
  What \<open>lpf_sync\<close> promises when it succeeds, for the slot of the conditions: an element of the memory of a process is
  that of a process that has put its element there in this superstep, or it has not changed.
\<close>

definition delivered :: "nat \<Rightarrow> nat \<Rightarrow> (nat \<Rightarrow> lpf_call list \<times> condition list \<times> lpf_reply) \<Rightarrow> nat \<Rightarrow> bool" where
  "delivered n slot s i \<longleftrightarrow>
     (case snd (snd (s i)) of
        Synced e st ti \<Rightarrow>
          e = LPF_SUCCESS \<longrightarrow> length st = length (fst (snd (s i))) \<and>
          (\<forall>p < length st.
             let W = filter (\<lambda>j. LpfPut slot (4 * p) i slot (4 * p) 4 \<in> set (fst (s j))) [0..<n] in
             if W = [] then st ! p = fst (snd (s i)) ! p else \<exists>j \<in> set W. st ! p = fst (snd (s j)) ! p)
      | _ \<Rightarrow> True)"

text \<open>Every superstep of \<open>n\<close> processes is delivered, and has the same result for all of them.\<close>

definition bsp_ok :: "nat \<Rightarrow> nat \<Rightarrow> (nat \<Rightarrow> (lpf_call list \<times> condition list \<times> lpf_reply) list) \<Rightarrow> bool" where
  "bsp_ok n slot ss \<longleftrightarrow>
     (\<forall>k < length (ss 0). \<forall>i < n. delivered n slot (\<lambda>i. ss i ! k) i \<and>
        sync_code (snd (snd (ss i ! k))) = sync_code (snd (snd (ss 0 ! k))))"

definition is_sync :: "lpf_call \<Rightarrow> bool" where
  "is_sync q = (case q of LpfSync _ _ \<Rightarrow> True | _ \<Rightarrow> False)"

lemma supersteps_calls:
  "\<forall>e \<in> set t. \<not> is_sync (fst e) \<Longrightarrow>
   supersteps acc (t @ (LpfSync st ti, r) # tr) = (rev acc @ List.map fst t, st, r) # supersteps [] tr"
proof (induction t arbitrary: acc)
  case (Cons e t)
  obtain q rep where e: "e = (q, rep)" by (cases e)
  with Cons.prems have "supersteps acc ((q, rep) # t @ (LpfSync st ti, r) # tr) = supersteps (q # acc) (t @ (LpfSync st ti, r) # tr)"
    by (cases q) (simp_all add: is_sync_def)
  with Cons e show ?case by simp
qed simp

definition synced :: "lpf_reply \<Rightarrow> bench \<Rightarrow> bench" where
  "synced r v = (case r of Synced e st ti \<Rightarrow> v\<lparr>bn_allStatus := st, bn_allTimings := ti\<rparr> | _ \<Rightarrow> v)"

lemma acts_bind_syncA:
  "acts (bindA syncA f) v tr r v' \<longleftrightarrow>
     (\<exists>rep tr'. tr = (LpfSync (bn_allStatus v) (bn_allTimings v), rep) # tr' \<and> acts (f (sync_code rep)) (synced rep v) tr' r v')"
proof -
  have "acts (bindA (case rep of Synced e st ti \<Rightarrow> bindA (modA (\<lambda>v. v\<lparr>bn_allStatus := st, bn_allTimings := ti\<rparr>)) (\<lambda>_. retA e)
     | _ \<Rightarrow> retA LPF_ERR_FATAL) f) v t r v' \<longleftrightarrow> acts (f (sync_code rep)) (synced rep v) t r v'" for rep t
    by (cases rep) (simp_all add: sync_code_def synced_def act_simps)
  then show ?thesis by (simp add: syncA_def act_simps)
qed

lemma acts_expectA:
  "acts (expectA q) v tr r v' \<longleftrightarrow> (\<exists>rep. tr = [(q, rep)] \<and> v' = v \<and> r = (if rc_of rep = LPF_SUCCESS then Inr () else Inl AssertionFailed))"
  by (auto simp: expectA_def act_simps)

lemma acts_bind_expectA:
  "acts (bindA (expectA q) f) v tr (Inr x) v' \<longleftrightarrow> (\<exists>rep tr'. tr = (q, rep) # tr' \<and> rc_of rep = LPF_SUCCESS \<and> acts (f ()) v tr' (Inr x) v')"
  by (auto simp: expectA_def act_simps)

lemma acts_broadcast_condition:
  assumes "acts (broadcast_condition pid n slot) v tr (Inr u) v'"
  shows "v' = v \<and> List.map fst tr = List.map (\<lambda>p. LpfPut slot (4 * pid) p slot (4 * pid) 4) (filter (\<lambda>p. p \<noteq> pid) [0..<n])"
proof -
  have "v' = v \<and> List.map fst tr = List.map (\<lambda>p. LpfPut slot (4 * pid) p slot (4 * pid) 4) (filter (\<lambda>p. p \<noteq> pid) ps)"
    if "acts (forA ps (\<lambda>p. if p \<noteq> pid then expectA (LpfPut slot (4 * pid) p slot (4 * pid) 4) else retA ())) v tr (Inr u) v'" for ps tr
    using that
  proof (induction ps arbitrary: tr)
    case (Cons p ps)
    then show ?case by (cases "p = pid") (auto simp: act_simps acts_bind_expectA)
  qed (simp add: act_simps)
  then show ?thesis using assms unfolding broadcast_condition_def by blast
qed

text \<open>The run of one process, by the number of synchronisations that it comes to.\<close>

lemma allgather_run:
  assumes "acts (allgather pid n slot) v tr (Inr c) v'"
  obtains (first) r1 where "supersteps [] tr = [([], bn_allStatus v, r1)]" and "sync_code r1 \<noteq> LPF_SUCCESS" and "c = Error"
  | (second) r1 r2 puts where "supersteps [] tr = [([], bn_allStatus v, r1), (puts, bn_allStatus (synced r1 v), r2)]"
      and "sync_code r1 = LPF_SUCCESS" and "sync_code r2 \<noteq> LPF_SUCCESS" and "c = Error"
  | (third) r1 r2 r3 puts st where "supersteps [] tr = [([], bn_allStatus v, r1), (puts, bn_allStatus (synced r1 v), r2), ([], st, r3)]"
      and "sync_code r1 = LPF_SUCCESS" and "sync_code r2 = LPF_SUCCESS"
      and "puts = List.map (\<lambda>p. LpfPut slot (4 * pid) p slot (4 * pid) 4) (filter (\<lambda>p. p \<noteq> pid) [0..<n])"
      and "if sync_code r3 = LPF_SUCCESS then summarize (bn_allStatus (synced r2 (synced r1 v))) [0..<n] Continue = Inr c else c = Error"
proof -
  from assms obtain r1 t1 where t1: "tr = (LpfSync (bn_allStatus v) (bn_allTimings v), r1) # t1"
    and 1: "acts (if sync_code r1 \<noteq> LPF_SUCCESS then retA Error
          else bindA (broadcast_condition pid n slot) (\<lambda>_.
          bindA syncA (\<lambda>rc.
          if rc \<noteq> LPF_SUCCESS then retA Error
          else bindA (liftA (\<lambda>v. summarize (bn_allStatus v) [0..<n] Continue)) (\<lambda>result.
               bindA syncA (\<lambda>rc. retA (if rc \<noteq> LPF_SUCCESS then Error else result)))))) (synced r1 v) t1 (Inr c) v'"
    unfolding allgather_def acts_bind_syncA by blast
  show thesis
  proof (cases "sync_code r1 = LPF_SUCCESS")
    case False
    with 1 t1 show ?thesis by (intro first [of r1]) (simp_all add: act_simps)
  next
    case True
    with 1 have "acts (bindA (broadcast_condition pid n slot) (\<lambda>_.
          bindA syncA (\<lambda>rc.
          if rc \<noteq> LPF_SUCCESS then retA Error
          else bindA (liftA (\<lambda>v. summarize (bn_allStatus v) [0..<n] Continue)) (\<lambda>result.
               bindA syncA (\<lambda>rc. retA (if rc \<noteq> LPF_SUCCESS then Error else result)))))) (synced r1 v) t1 (Inr c) v'"
      by simp
    then obtain t2 t3 v2 u where t2: "t1 = t2 @ t3" and b: "acts (broadcast_condition pid n slot) (synced r1 v) t2 (Inr u) v2"
      and 2: "acts (bindA syncA (\<lambda>rc.
          if rc \<noteq> LPF_SUCCESS then retA Error
          else bindA (liftA (\<lambda>v. summarize (bn_allStatus v) [0..<n] Continue)) (\<lambda>result.
               bindA syncA (\<lambda>rc. retA (if rc \<noteq> LPF_SUCCESS then Error else result))))) v2 t3 (Inr c) v'"
      unfolding acts_bindA [of "broadcast_condition pid n slot"] by blast
    from acts_broadcast_condition [OF b] have v2: "v2 = synced r1 v"
      and p: "List.map fst t2 = List.map (\<lambda>p. LpfPut slot (4 * pid) p slot (4 * pid) 4) (filter (\<lambda>p. p \<noteq> pid) [0..<n])" by blast+
    have "\<not> is_sync q" if "q \<in> set (List.map fst t2)" for q using that unfolding p by (auto simp: is_sync_def)
    then have ns: "\<forall>e \<in> set t2. \<not> is_sync (fst e)" by simp
    from 2 obtain r2 t4 where t4: "t3 = (LpfSync (bn_allStatus v2) (bn_allTimings v2), r2) # t4"
      and 3: "acts (if sync_code r2 \<noteq> LPF_SUCCESS then retA Error
          else bindA (liftA (\<lambda>v. summarize (bn_allStatus v) [0..<n] Continue)) (\<lambda>result.
               bindA syncA (\<lambda>rc. retA (if rc \<noteq> LPF_SUCCESS then Error else result)))) (synced r2 v2) t4 (Inr c) v'"
      unfolding acts_bind_syncA by blast
    have ss: "supersteps [] tr = ([], bn_allStatus v, r1) # (List.map fst t2, bn_allStatus (synced r1 v), r2) # supersteps [] t4"
      using ns by (simp add: t1 t2 t4 v2 supersteps_calls)
    show ?thesis
    proof (cases "sync_code r2 = LPF_SUCCESS")
      case False
      with 3 ss True show ?thesis by (intro second [of r1 _ r2]) (simp_all add: act_simps)
    next
      case s2: True
      with 3 obtain result r3 where "summarize (bn_allStatus (synced r2 v2)) [0..<n] Continue = Inr result"
        "t4 = [(LpfSync (bn_allStatus (synced r2 v2)) (bn_allTimings (synced r2 v2)), r3)]"
        "c = (if sync_code r3 \<noteq> LPF_SUCCESS then Error else result)"
        by (auto simp: act_simps acts_bind_syncA split: sum.splits)
      with ss True s2 p v2 show ?thesis by (intro third [of r1 _ r2 _ r3]) simp_all
    qed
  qed
qed

lemma delivered_nothing:
  assumes "\<forall>j < n. fst (s j) = []" and "delivered n slot s i" and "sync_code (snd (snd (s i))) = LPF_SUCCESS"
  shows "\<exists>ti. snd (snd (s i)) = Synced LPF_SUCCESS (fst (snd (s i))) ti"
proof (cases "snd (snd (s i))")
  case (Synced e st ti)
  have "filter (\<lambda>j. LpfPut slot (4 * p) i slot (4 * p) 4 \<in> set (fst (s j))) [0..<n] = []" for p
    using assms(1) by (simp add: filter_empty_conv)
  then have "length st = length (fst (snd (s i))) \<and> (\<forall>p < length st. st ! p = fst (snd (s i)) ! p)"
    using assms(2,3) Synced by (simp add: delivered_def sync_code_def)
  then show ?thesis using Synced assms(3) by (auto simp: sync_code_def list_eq_iff_nth_eq)
qed (use assms(3) in \<open>simp_all add: sync_code_def LPF_SUCCESS_def LPF_ERR_FATAL_def\<close>)

lemma delivered_conditions:
  assumes puts: "\<And>j. j < n \<Longrightarrow> fst (s j) = List.map (\<lambda>p. LpfPut slot (4 * j) p slot (4 * j) 4) (filter (\<lambda>p. p \<noteq> j) [0..<n])"
    and "length (fst (snd (s i))) = n" and "delivered n slot s i" and "sync_code (snd (snd (s i))) = LPF_SUCCESS" and "i < n"
  shows "\<exists>ti. snd (snd (s i)) = Synced LPF_SUCCESS (List.map (\<lambda>j. fst (snd (s j)) ! j) [0..<n]) ti"
proof (cases "snd (snd (s i))")
  case (Synced e st ti)
  have W: "filter (\<lambda>j. LpfPut slot (4 * p) i slot (4 * p) 4 \<in> set (fst (s j))) [0..<n] = (if p = i then [] else [p])" if "p < n" for p
  proof -
    have "filter (\<lambda>j. LpfPut slot (4 * p) i slot (4 * p) 4 \<in> set (fst (s j))) [0..<n] = filter (\<lambda>j. j = p \<and> p \<noteq> i) [0..<n]"
      using puts assms(5) by (intro filter_cong) auto
    also have "\<dots> = (if p = i then [] else [p])"
      using that by (induction n) auto
    finally show ?thesis .
  qed
  have "length st = n \<and> (\<forall>p < n. st ! p = fst (snd (s p)) ! p)"
    using assms(2,3,4) Synced W by (auto simp: delivered_def sync_code_def Let_def split: if_splits)
  then show ?thesis using Synced assms(4) by (auto simp: sync_code_def list_eq_iff_nth_eq)
qed (use assms(4) in \<open>simp_all add: sync_code_def LPF_SUCCESS_def LPF_ERR_FATAL_def\<close>)

lemma all_success_length:
  assumes "acts (allgather pid n slot) v tr (Inr c) v'"
    and "\<forall>x \<in> set (supersteps [] tr). sync_code (snd (snd x)) = LPF_SUCCESS"
  shows "length (supersteps [] tr) = 3"
  by (rule allgather_run [OF assms(1)]) (use assms(2) in simp_all)


text \<open>Two processes, of which the second has not enough memory.\<close>

definition demo_bench :: "condition list \<Rightarrow> bench" where
  "demo_bench st = \<lparr>bn_readBuffer = 0, bn_writeBuffer = 0, bn_allStatus = st, bn_allTimings = [], bn_latency = Inf False,
     bn_messageGap = Inf False, bn_machine = MachineParams\<rparr>"

definition demo_gather :: "nat \<Rightarrow> (lpf_call \<times> lpf_reply) list" where
  "demo_gather i =
     (let own = [Continue, if i = 0 then Continue else Stop]; all = [Continue, Stop] in
      [(LpfSync own [], Synced 0 own []), (LpfPut 5 (4 * i) (1 - i) 5 (4 * i) 4, Rc 0), (LpfSync own [], Synced 0 all []),
       (LpfSync all [], Synced 0 all [])])"

lemma demo_gather_run:
  assumes "i < 2"
  shows "acts (allgather i 2 5) (demo_bench [Continue, if i = 0 then Continue else Stop]) (demo_gather i) (Inr Stop)
    (demo_bench [Continue, Stop])"
proof -
  have "i = 0 \<or> i = 1" using assms by auto
  then show ?thesis
    by (elim disjE)
      (simp_all add: allgather_def acts_bind_syncA broadcast_condition_def acts_bind_expectA act_simps demo_gather_def demo_bench_def
        Let_def synced_def sync_code_def LPF_SUCCESS_def rc_of_def upt_rec vec_at_def)
qed


section \<open>The messages and the buffers\<close>

text \<open>A transfer that stays within two slots of the given size.\<close>

definition inside :: "nat \<Rightarrow> lpf_call \<Rightarrow> bool" where
  "inside sz q = (case q of
     LpfPut _ srcOffset _ _ dstOffset n \<Rightarrow> srcOffset + n \<le> sz \<and> dstOffset + n \<le> sz
   | LpfGet _ _ srcOffset _ dstOffset n \<Rightarrow> srcOffset + n \<le> sz \<and> dstOffset + n \<le> sz
   | _ \<Rightarrow> False)"

lemma inside_mono: "inside sz q \<Longrightarrow> sz \<le> sz' \<Longrightarrow> inside sz' q"
  by (cases q) (auto simp: inside_def)

lemma message_offset:
  assumes "m < k" and "(p :: nat) < n" and "k * n * bs \<le> SIZE_MAX" and "0 < bs"
  shows "mul64 (add64 (mul64 m n) p) bs = (m * n + p) * bs" and "(m * n + p) * bs + bs \<le> k * n * bs"
proof -
  have "m * n + p + 1 \<le> Suc m * n" using assms(2) by simp
  also have "\<dots> \<le> k * n" using assms(1) by (intro mult_le_mono1) simp
  finally have i: "m * n + p + 1 \<le> k * n" .
  then have "(m * n + p + 1) * bs \<le> k * n * bs" by (rule mult_le_mono1)
  then show b: "(m * n + p) * bs + bs \<le> k * n * bs" by (simp add: algebra_simps)
  have "k * n \<le> k * n * bs" using assms(4) by simp
  with i assms(3) have "m * n + p \<le> SIZE_MAX" "m * n \<le> SIZE_MAX" by linarith+
  moreover have "(m * n + p) * bs \<le> SIZE_MAX" using b assms(3) by linarith
  ultimately show "mul64 (add64 (mul64 m n) p) bs = (m * n + p) * bs" by (simp add: mul64_plain add64_plain)
qed

lemma forA_calls:
  assumes "\<And>i. i \<in> set is \<Longrightarrow> calls P (f i)"
  shows "calls P (forA is f)"
  using assms by (induction "is") (auto intro: calls_rules)

lemma sendMsgs_inside:
  assumes "pid < n" and "k * n * bs \<le> sz" and "sz \<le> SIZE_MAX" and "0 < bs"
  shows "calls (inside sz) (sendMsgs pid n k mode bs r w)"
proof -
  have le: "k * n * bs \<le> SIZE_MAX" using assms(2,3) by simp
  have "calls (inside sz) (send_one pid n mode bs r w m p)" if "m < k" "p < n" for m p
    using message_offset [OF that(1) that(2) le assms(4)] message_offset [OF that(1) assms(1) le assms(4)] assms(2)
    unfolding send_one_def Let_def expectA_def by (intro calls_rules) (simp_all add: inside_def)
  then show ?thesis unfolding sendMsgs_def by (intro forA_calls) simp
qed

section \<open>The exploration keeps the buffers large enough\<close>

text \<open>No other process writes to the element of this one in the table of the conditions.\<close>

definition own_kept :: "nat \<Rightarrow> (lpf_call \<times> lpf_reply) list \<Rightarrow> bool" where
  "own_kept pid tr \<longleftrightarrow>
     list_all (\<lambda>(q, r). case q of
       LpfSync st0 _ \<Rightarrow> (case r of Synced _ st _ \<Rightarrow> length st = length st0 \<and> (pid < length st0 \<longrightarrow> st ! pid = st0 ! pid) | _ \<Rightarrow> True)
     | _ \<Rightarrow> True) tr"

lemma own_kept_append: "own_kept pid (t1 @ t2) \<longleftrightarrow> own_kept pid t1 \<and> own_kept pid t2"
  by (simp add: own_kept_def)

lemma supersteps_in: "(c, st, r) \<in> set (supersteps acc tr) \<Longrightarrow> \<exists>ti. (LpfSync st ti, r) \<in> set tr"
  by (induction acc tr rule: supersteps.induct) auto

lemma own_keptD:
  assumes "own_kept pid tr" and "(c, bn_allStatus v, r) \<in> set (supersteps [] tr)" and "pid < length (bn_allStatus v)"
  shows "bn_allStatus (synced r v) ! pid = bn_allStatus v ! pid \<and> length (bn_allStatus (synced r v)) = length (bn_allStatus v)"
proof -
  obtain ti where "(LpfSync (bn_allStatus v) ti, r) \<in> set tr" using supersteps_in [OF assms(2)] by blast
  then show ?thesis using assms(1,3) by (cases r) (auto simp: own_kept_def list_all_iff synced_def)
qed

lemma worst_Continue: "worst cs = Continue \<longleftrightarrow> (\<forall>c \<in> set cs. c = Continue)"
  unfolding worst_def by (metis condition.distinct(1,3) condition.exhaust)

lemma allgather_continue:
  assumes "acts (allgather pid n slot) v tr (Inr Continue) v'" and "own_kept pid tr" and "pid < n" and "n \<le> length (bn_allStatus v)"
  shows "bn_allStatus v ! pid = Continue"
proof (rule allgather_run [OF assms(1)])
  fix r1 r2 r3 puts st
  let ?v1 = "synced r1 v"
  let ?v2 = "synced r2 ?v1"
  assume ss: "supersteps [] tr = [([], bn_allStatus v, r1), (puts, bn_allStatus ?v1, r2), ([], st, r3)]"
    and "if sync_code r3 = LPF_SUCCESS then summarize (bn_allStatus ?v2) [0..<n] Continue = Inr Continue else Continue = Error"
  then have sm: "summarize (bn_allStatus ?v2) [0..<n] Continue = Inr Continue" by (auto split: if_splits)
  have 1: "bn_allStatus ?v1 ! pid = bn_allStatus v ! pid" "n \<le> length (bn_allStatus ?v1)"
    using own_keptD [OF assms(2), of "[]" v r1] ss assms(3,4) by auto
  have 2: "bn_allStatus ?v2 ! pid = bn_allStatus ?v1 ! pid" "n \<le> length (bn_allStatus ?v2)"
    using own_keptD [OF assms(2), of puts ?v1 r2] ss assms(3) 1 by auto
  from sm have "worst (Continue # List.map (\<lambda>p. bn_allStatus ?v2 ! p) [0..<n]) = Continue"
    using 2(2) by (subst (asm) summarize_worst) auto
  then have "bn_allStatus ?v2 ! pid = Continue" using assms(3) by (simp add: worst_Continue)
  then show ?thesis using 1 2 by simp
qed simp_all

text \<open>Only \<open>grow_buffers\<close> changes the sizes of the buffers.\<close>

abbreviation buffers :: "(nat \<Rightarrow> nat \<Rightarrow> bool) \<Rightarrow> bench \<Rightarrow> bool" where
  "buffers Q v \<equiv> Q (bn_readBuffer v) (bn_writeBuffer v)"

text \<open>A property that does not depend on the memory that is exchanged.\<close>

definition stable :: "(bench \<Rightarrow> bool) \<Rightarrow> bool" where
  "stable P \<longleftrightarrow> (\<forall>v st ti. P v \<longrightarrow> P (v\<lparr>bn_allStatus := st, bn_allTimings := ti\<rparr>))"

lemma stableD: "stable P \<Longrightarrow> P v \<Longrightarrow> P (v\<lparr>bn_allStatus := st\<rparr>)" "stable P \<Longrightarrow> P v \<Longrightarrow> P (v\<lparr>bn_allTimings := ti\<rparr>)"
proof -
  have "v\<lparr>bn_allStatus := st\<rparr> = v\<lparr>bn_allStatus := st, bn_allTimings := bn_allTimings v\<rparr>"
    "v\<lparr>bn_allTimings := ti\<rparr> = v\<lparr>bn_allStatus := bn_allStatus v, bn_allTimings := ti\<rparr>" by simp_all
  then show "stable P \<Longrightarrow> P v \<Longrightarrow> P (v\<lparr>bn_allStatus := st\<rparr>)" "stable P \<Longrightarrow> P v \<Longrightarrow> P (v\<lparr>bn_allTimings := ti\<rparr>)"
    unfolding stable_def by metis+
qed

lemma stable_buffers: "stable (buffers Q)"
  by (simp add: stable_def)

lemma keeps_case_lpf_reply [keeps_rules]:
  "keeps P (f1 :: 'a probing) \<Longrightarrow> (\<And>e s. keeps P (f2 e s)) \<Longrightarrow> (\<And>e st ti. keeps P (f3 e st ti)) \<Longrightarrow> (\<And>t. keeps P (f5 t)) \<Longrightarrow>
   keeps P (case r of Rc e \<Rightarrow> f1 | NewSlot e s \<Rightarrow> f2 e s | Synced e st ti \<Rightarrow> f3 e st ti | Grown b \<Rightarrow> f1 | Clocked t \<Rightarrow> f5 t)"
  by (cases r) simp_all

lemma keeps_case_option [keeps_rules]:
  "keeps P f \<Longrightarrow> (\<And>x. keeps P (g x)) \<Longrightarrow> keeps P (case z of None \<Rightarrow> f | Some x \<Rightarrow> g x)"
  by (cases z) simp_all

lemma keeps_case_prod [keeps_rules]: "(\<And>x y. keeps P (f x y)) \<Longrightarrow> keeps P (case z of (x, y) \<Rightarrow> f x y)"
  by (cases z) simp

lemma keeps_syncA [keeps_rules]: "stable P \<Longrightarrow> keeps P syncA"
  unfolding syncA_def by (intro keeps_rules) (auto simp: stable_def)

lemma keeps_expectA [keeps_rules]: "keeps P (expectA q)"
  unfolding expectA_def by (intro keeps_rules)

lemma keeps_registerA [keeps_rules]: "keeps P (registerA b n)"
  unfolding registerA_def by (intro keeps_rules)

lemma keeps_clockA [keeps_rules]: "keeps P clockA"
  unfolding clockA_def by (intro keeps_rules)

lemma keeps_secondsA [keeps_rules]: "keeps P (secondsA d)"
  unfolding secondsA_def by (intro keeps_rules)

lemma keeps_growA [keeps_rules]: "keeps P (growA b n)"
  unfolding growA_def by (intro keeps_rules)

lemma keeps_broadcast_condition [keeps_rules]: "keeps P (broadcast_condition pid n slot)"
  unfolding broadcast_condition_def by (intro keeps_rules)

lemma keeps_sendMsgs [keeps_rules]: "keeps P (sendMsgs pid n k mode bs r w)"
  unfolding sendMsgs_def send_one_def Let_def by (intro keeps_rules)

lemma keeps_allgather [keeps_rules]: "stable P \<Longrightarrow> keeps P (allgather pid n slot)"
  unfolding allgather_def by (intro keeps_rules)

lemma keeps_range_condition [keeps_rules]: "keeps P (range_condition rng rc soft hard)"
  unfolding range_condition_def by (intro keeps_rules)

lemma keeps_set_condition [keeps_rules]: "stable P \<Longrightarrow> keeps P (set_condition pid c)"
  unfolding set_condition_def by (intro keeps_rules) (auto simp: bindE_simps stableD)

lemma keeps_register_buffers [keeps_rules]: "keeps P register_buffers"
  unfolding register_buffers_def by (intro keeps_rules)

lemma keeps_time_range [keeps_rules]: "stable P \<Longrightarrow> keeps P (time_range pid n bs rng)"
  unfolding time_range_def by (intro keeps_rules)

lemma grow_buffers_run:
  assumes "acts (grow_buffers n) v tr (Inr ok) v'"
  shows "bn_allStatus v' = bn_allStatus v \<and> bn_readBuffer v' \<in> {bn_readBuffer v, n} \<and> bn_writeBuffer v' \<in> {bn_writeBuffer v, n} \<and>
    (ok \<longrightarrow> bn_readBuffer v' = n \<and> bn_writeBuffer v' = n) \<and>
    (\<exists>rep t. tr = (Grow ReadBuffer n, rep) # t \<and> (rep \<noteq> Grown True \<longrightarrow> \<not> ok \<and> v' = v \<and> t = []))"
  using assms by (auto simp: grow_buffers_def growA_def act_simps split: if_splits)

definition buffer_size :: "nat \<Rightarrow> nat \<Rightarrow> nat \<Rightarrow> nat" where
  "buffer_size bs n rng = add64 (mul64 (mul64 bs n) (2 ^ rng)) 8"

lemma acts_bind_clockA:
  "acts (bindA clockA f) v tr (Inr x) v' \<longleftrightarrow> (\<exists>t tr'. tr = (Now, Clocked (Some t)) # tr' \<and> acts (f t) v tr' (Inr x) v')"
proof -
  have "acts (bindA (case rep of Clocked (Some t) \<Rightarrow> retA t | _ \<Rightarrow> throwA (ErrorThrown ''Unable to query high-precision system clock'')) f) v t (Inr x) v' \<longleftrightarrow>
      (\<exists>y. rep = Clocked (Some y) \<and> acts (f y) v t (Inr x) v')" for rep t
    by (auto simp: act_simps split: lpf_reply.split option.split)
  then show ?thesis by (auto simp: clockA_def act_simps)
qed

lemma range_condition_continue:
  assumes "acts (range_condition rng rc soft hard) v tr (Inr Continue) v'"
  shows "rc = LPF_SUCCESS"
  using assms by (auto simp: range_condition_def acts_bind_clockA act_simps split: if_splits)

text \<open>The run of the first half of a round, after the attempt to make the buffers larger.\<close>

lemma try_range_run:
  assumes "acts (try_range pid n bs rng soft hard startTime ct slot) v tr (Inr c) v'"
  obtains rep t1 t2 t3 ok v1 own v2 where "tr = (ResizeQueue (mul64 n (add64 1 (2 ^ rng))), rep) # t1 @ t2 @ t3"
    and "acts (grow_buffers (buffer_size bs n rng)) (v\<lparr>bn_allStatus := replicate n Continue @ drop n (bn_allStatus v)\<rparr>) t1 (Inr ok) v1"
    and "own = Continue \<Longrightarrow> ok \<and> rc_of rep = LPF_SUCCESS" and "pid < length (bn_allStatus v1)"
    and "v2 = v1\<lparr>bn_allStatus := (bn_allStatus v1)[pid := own]\<rparr>" and "acts (allgather pid n slot) v2 t3 (Inr c) v'"
proof -
  let ?v = "v\<lparr>bn_allStatus := replicate n Continue @ drop n (bn_allStatus v)\<rparr>"
  let ?rest = "\<lambda>rep ok. bindA (secondsA (d_div soft (d_of_int (int preferredSamples)))) (\<lambda>s.
     bindA (secondsA (d_sub hard (d_mul (toSeconds ct) (d_of_int (int minSamples))))) (\<lambda>h.
     bindA (range_condition rng (if ok then rc_of rep else LPF_ERR_OUT_OF_MEMORY) (time_plus startTime s) (time_plus startTime h)) (\<lambda>c.
     bindA (set_condition pid c) (\<lambda>_. allgather pid n slot))))"
  from assms obtain rep t where tr: "tr = (ResizeQueue (mul64 n (add64 1 (2 ^ rng))), rep) # t"
    and 1: "acts (bindA (grow_buffers (buffer_size bs n rng)) (?rest rep)) ?v t (Inr c) v'"
    unfolding try_range_def buffer_size_def by (auto simp: act_simps)
  from 1 obtain t1 t' ok v1 where t: "t = t1 @ t'" and g: "acts (grow_buffers (buffer_size bs n rng)) ?v t1 (Inr ok) v1"
    and 2: "acts (?rest rep ok) v1 t' (Inr c) v'"
    unfolding acts_bindA [of "grow_buffers _"] by blast
  from 2 obtain s h where 3: "acts (bindA (range_condition rng (if ok then rc_of rep else LPF_ERR_OUT_OF_MEMORY) (time_plus startTime s) (time_plus startTime h)) (\<lambda>c.
     bindA (set_condition pid c) (\<lambda>_. allgather pid n slot))) v1 t' (Inr c) v'"
    by (auto simp: secondsA_def act_simps split: option.splits)
  then obtain t2 t3 own v1' where t': "t' = t2 @ t3"
    and rc: "acts (range_condition rng (if ok then rc_of rep else LPF_ERR_OUT_OF_MEMORY) (time_plus startTime s) (time_plus startTime h)) v1 t2 (Inr own) v1'"
    and 4: "acts (bindA (set_condition pid own) (\<lambda>_. allgather pid n slot)) v1' t3 (Inr c) v'"
    unfolding acts_bindA [of "range_condition _ _ _ _"] by blast
  have v1': "v1' = v1" using keepsD [OF keeps_range_condition [where P = "\<lambda>x. x = v1"] rc] by simp
  have "ok \<and> rc_of rep = LPF_SUCCESS" if "own = Continue"
    using rc that by (auto dest!: range_condition_continue simp: LPF_SUCCESS_def LPF_ERR_OUT_OF_MEMORY_def split: if_splits)
  moreover from 4 have "pid < length (bn_allStatus v1)" "acts (allgather pid n slot) (v1\<lparr>bn_allStatus := (bn_allStatus v1)[pid := own]\<rparr>) t3 (Inr c) v'"
    unfolding v1' by (auto simp: set_condition_def act_simps vec_set_def bindE_def split: if_splits)
  ultimately show ?thesis using tr t t' g by (intro that) auto
qed

lemma try_range_buffers:
  assumes "acts (try_range pid n bs rng soft hard s0 ct slot) v tr (Inr c) v'"
  shows "bn_readBuffer v' \<in> {bn_readBuffer v, buffer_size bs n rng} \<and> bn_writeBuffer v' \<in> {bn_writeBuffer v, buffer_size bs n rng} \<and>
    (c = Continue \<longrightarrow> own_kept pid tr \<longrightarrow> pid < n \<longrightarrow>
      bn_readBuffer v' = buffer_size bs n rng \<and> bn_writeBuffer v' = buffer_size bs n rng) \<and>
    (snd (tr ! 1) \<noteq> Grown True \<longrightarrow> bn_readBuffer v' = bn_readBuffer v)"
proof (rule try_range_run [OF assms])
  fix rep t1 t2 t3 ok v1 own v2
  assume tr: "tr = (ResizeQueue (mul64 n (add64 1 (2 ^ rng))), rep) # t1 @ t2 @ t3"
    and g: "acts (grow_buffers (buffer_size bs n rng)) (v\<lparr>bn_allStatus := replicate n Continue @ drop n (bn_allStatus v)\<rparr>) t1 (Inr ok) v1"
    and own: "own = Continue \<Longrightarrow> ok \<and> rc_of rep = LPF_SUCCESS" and p: "pid < length (bn_allStatus v1)"
    and v2: "v2 = v1\<lparr>bn_allStatus := (bn_allStatus v1)[pid := own]\<rparr>" and a: "acts (allgather pid n slot) v2 t3 (Inr c) v'"
  have "keeps (buffers (\<lambda>x y. x = bn_readBuffer v1 \<and> y = bn_writeBuffer v1)) (allgather pid n slot)" by (rule keeps_allgather [OF stable_buffers])
  from keepsD [OF this a] have same: "bn_readBuffer v' = bn_readBuffer v1 \<and> bn_writeBuffer v' = bn_writeBuffer v1"
    by (simp add: v2)
  note grown = grow_buffers_run [OF g]
  have "ok" if "c = Continue" "own_kept pid tr" "pid < n"
  proof -
    have "own_kept pid t3" using that(2) by (simp add: tr own_kept_def)
    moreover have "n \<le> length (bn_allStatus v2)" using grown by (simp add: v2)
    ultimately have "bn_allStatus v2 ! pid = Continue" using allgather_continue a that(1,3) by blast
    then show ?thesis using own p by (simp add: v2)
  qed
  moreover have "bn_readBuffer v' = bn_readBuffer v" if "snd (tr ! 1) \<noteq> Grown True"
    using grown that same by (auto simp: tr)
  ultimately show ?thesis using grown same by auto
qed

lemma acts_first_Inr:
  "acts (bindA m f) s tr (Inr y) s' \<Longrightarrow> \<exists>x s1 t1 t2. tr = t1 @ t2 \<and> acts m s t1 (Inr x) s1 \<and> acts (f x) s1 t2 (Inr y) s'"
  unfolding acts_bindA by simp

lemma explore_step:
  assumes "acts (explore (Suc k) pid n bs soft hard s0 ss ts rng ct) v tr (Inr (Inr r)) v'"
  obtains (stop) "acts (try_range pid n bs rng soft hard s0 ct ss) v tr (Inr Stop) v'" and "r = rng"
  | (next_round) v1 v2 t1 t2 t3 ct' where "tr = t1 @ t2 @ t3" and "acts (try_range pid n bs rng soft hard s0 ct ss) v t1 (Inr Continue) v1"
      and "acts (time_range pid n bs rng) v1 t2 (Inr (Inr ct')) v2"
      and "acts (explore k pid n bs soft hard s0 ss ts (rng + 1) ct') v2 t3 (Inr (Inr r)) v'"
proof -
  from acts_first_Inr [OF assms [unfolded explore.simps]] obtain c v1 t1 t2 where tr: "tr = t1 @ t2"
    and 1: "acts (try_range pid n bs rng soft hard s0 ct ss) v t1 (Inr c) v1"
    and 2: "acts (if c = Stop then retA (Inr rng) else if c = Error
       then bindA (expectA (Deregister ts)) (\<lambda>_. bindA (expectA (Deregister ss)) (\<lambda>_. retA (Inl LPF_PROBE_ERR_TIMEOUT)))
       else bindA (time_range pid n bs rng) (\<lambda>t. case t of Inl rc \<Rightarrow> retA (Inl rc)
         | Inr ct \<Rightarrow> explore k pid n bs soft hard s0 ss ts (rng + 1) ct)) v1 t2 (Inr (Inr r)) v'" by blast
  show ?thesis
  proof (cases c)
    case Continue
    with 2 have "acts (bindA (time_range pid n bs rng) (\<lambda>t. case t of Inl rc \<Rightarrow> retA (Inl rc)
         | Inr ct \<Rightarrow> explore k pid n bs soft hard s0 ss ts (rng + 1) ct)) v1 t2 (Inr (Inr r)) v'"
      by (simp only: condition.distinct if_False)
    from acts_first_Inr [OF this] obtain t v2 t3 t4 where "t2 = t3 @ t4" "acts (time_range pid n bs rng) v1 t3 (Inr t) v2"
      and "acts (case t of Inl rc \<Rightarrow> retA (Inl rc) | Inr ct \<Rightarrow> explore k pid n bs soft hard s0 ss ts (rng + 1) ct) v2 t4 (Inr (Inr r)) v'" by blast
    then show ?thesis using tr 1 Continue by (cases t) (auto simp: acts_retA intro: next_round)
  next
    case Stop
    then show ?thesis using tr 1 2 by (intro stop) (auto simp: acts_retA)
  next
    case Error
    then show ?thesis using 2 by (simp add: acts_bind_expectA acts_retA)
  qed
qed

lemma acts_then: "acts m s t1 (Inr x) s1 \<Longrightarrow> acts (f x) s1 t2 r s' \<Longrightarrow> acts (bindA m f) s (t1 @ t2) r s'"
  unfolding acts_bindA by blast

lemma explore_stop:
  assumes "acts (try_range pid n bs rng soft hard s0 ct ss) v tr (Inr Stop) v'"
  shows "acts (explore (Suc k) pid n bs soft hard s0 ss ts rng ct) v tr (Inr (Inr rng)) v'"
proof -
  have "acts (explore (Suc k) pid n bs soft hard s0 ss ts rng ct) v (tr @ []) (Inr (Inr rng)) v'"
    unfolding explore.simps by (rule acts_then [OF assms]) (simp add: acts_retA)
  then show ?thesis by simp
qed

lemma explore_next:
  assumes "acts (try_range pid n bs rng soft hard s0 ct ss) v t1 (Inr Continue) v1"
    and "acts (time_range pid n bs rng) v1 t2 (Inr (Inr ct')) v2"
    and "acts (explore k pid n bs soft hard s0 ss ts (rng + 1) ct') v2 t3 r v'"
  shows "acts (explore (Suc k) pid n bs soft hard s0 ss ts rng ct) v (t1 @ t2 @ t3) r v'"
  unfolding explore.simps
  by (rule acts_then [OF assms(1)], simp only: condition.distinct if_False, rule acts_then [OF assms(2)]) (simp only: sum.case assms(3))

lemma explore_le:
  "acts (explore k pid n bs soft hard s0 ss ts rng ct) v tr (Inr (Inr r)) v' \<Longrightarrow> rng \<le> r"
proof (induction k arbitrary: rng ct v tr)
  case (Suc k)
  from Suc.prems show ?case by (rule explore_step) (auto dest: Suc.IH)
qed (simp add: acts_retA)

lemma buffer_size_plain:
  assumes "bs * n * 2 ^ r + 8 \<le> SIZE_MAX" and "rng \<le> r"
  shows "buffer_size bs n rng = bs * n * 2 ^ rng + 8"
proof -
  have "bs * n * 2 ^ rng \<le> bs * n * 2 ^ r" using assms(2) by (intro mult_le_mono2 power_increasing) auto
  moreover have "bs * n \<le> bs * n * 2 ^ rng" by simp
  ultimately have "bs * n \<le> SIZE_MAX" "bs * n * 2 ^ rng + 8 \<le> SIZE_MAX" using assms(1) by linarith+
  then show ?thesis by (simp add: buffer_size_def mul64_plain add64_plain)
qed

lemma explore_buffers:
  assumes "acts (explore k pid n bs soft hard s0 ss ts rng ct) v tr (Inr (Inr r)) v'" and "own_kept pid tr" and "pid < n"
    and "bs * n * 2 ^ r + 8 \<le> SIZE_MAX"
    and "minRange < rng \<longrightarrow> buffer_size bs n (rng - 1) \<le> min (bn_readBuffer v) (bn_writeBuffer v)" and "minRange < r"
    and "minRange \<le> rng"
  shows "buffer_size bs n (r - 1) \<le> min (bn_readBuffer v') (bn_writeBuffer v')"
  using assms(1,2,5,7)
proof (induction k arbitrary: rng ct v tr)
  case 0
  then show ?case using assms(6) by (simp add: acts_retA)
next
  case (Suc k)
  have le: "rng \<le> r" using explore_le [OF Suc.prems(1)] .
  have size: "buffer_size bs n (rng - 1) \<le> buffer_size bs n rng"
    using buffer_size_plain [OF assms(4) le] buffer_size_plain [OF assms(4), of "rng - 1"] le
    by (simp add: power_increasing)
  from Suc.prems(1) show ?case
  proof (rule explore_step)
    assume "acts (try_range pid n bs rng soft hard s0 ct ss) v tr (Inr Stop) v'" and r: "r = rng"
    with try_range_buffers [OF this(1)] show ?thesis using Suc.prems(3) assms(6) size by auto
  next
    fix v1 v2 t1 t2 t3 ct'
    assume tr: "tr = t1 @ t2 @ t3" and 1: "acts (try_range pid n bs rng soft hard s0 ct ss) v t1 (Inr Continue) v1"
      and 2: "acts (time_range pid n bs rng) v1 t2 (Inr (Inr ct')) v2"
      and 3: "acts (explore k pid n bs soft hard s0 ss ts (rng + 1) ct') v2 t3 (Inr (Inr r)) v'"
    have ok: "own_kept pid t1" "own_kept pid t3" using Suc.prems(2) by (simp_all add: tr own_kept_append)
    have "bn_readBuffer v1 = buffer_size bs n rng \<and> bn_writeBuffer v1 = buffer_size bs n rng"
      using try_range_buffers [OF 1] ok(1) assms(3) by blast
    moreover have "keeps (buffers (\<lambda>x y. x = bn_readBuffer v1 \<and> y = bn_writeBuffer v1)) (time_range pid n bs rng)" by (rule keeps_time_range [OF stable_buffers])
    from keepsD [OF this 2] have "bn_readBuffer v2 = bn_readBuffer v1 \<and> bn_writeBuffer v2 = bn_writeBuffer v1" by simp
    ultimately show ?thesis using Suc.IH [OF 3 ok(2)] Suc.prems(4) by simp
  qed
qed


text \<open>One process that has the memory for eight messages of one byte, but not for sixteen.\<close>

definition demo_round :: "condition \<Rightarrow> (lpf_call \<times> lpf_reply) list" where
  "demo_round c = [(LpfSync [c] [], Synced 0 [c] []), (LpfSync [c] [], Synced 0 [c] []), (LpfSync [c] [], Synced 0 [c] [])]"

definition demo_explore :: "(lpf_call \<times> lpf_reply) list" where
  "demo_explore =
     [(ResizeQueue 9, Rc 0), (Grow ReadBuffer 16, Grown True), (Grow WriteBuffer 16, Grown True), (Now, Clocked (Some (Time 7 0)))]
     @ demo_round Continue
     @ [(RegisterGlobal ReadBuffer 16, NewSlot 0 3), (RegisterGlobal WriteBuffer 16, NewSlot 0 4),
        (LpfSync [Continue] [], Synced 0 [Continue] []), (Now, Clocked (Some (Time 8 0)))]
     @ List.map (\<lambda>m. (LpfPut 3 m 0 4 m 1, Rc 0)) [0..<8]
     @ [(LpfSync [Continue] [], Synced 0 [Continue] []), (Now, Clocked (Some (Time 8 0))), (Deregister 3, Rc 0), (Deregister 4, Rc 0),
        (ResizeQueue 17, Rc 0), (Grow ReadBuffer 24, Grown False), (Now, Clocked (Some (Time 8 0))), (Now, Clocked (Some (Time 8 0)))]
     @ demo_round Stop"

lemma demo_times:
  "toSeconds (Time 0 0) = Fin 0" "d_of_int 10 = Fin 10" "d_of_int 100 = Fin 100" "to_double 1000 = Fin 1000"
  "fromSeconds (Fin 0) = Some (Time 0 0)" "fromSeconds (Fin 1000) = Some (Time 1000 0)"
  using toSeconds_whole [of 0] d_of_int_exact [of 10] d_of_int_exact [of 100] d_of_int_exact [of 1000]
    fromSeconds_whole [of 0] fromSeconds_whole [of 1000]
  by (simp_all add: d_of_int_def)

lemmas demo_run = acts_bind_syncA acts_bind_expectA acts_expectA acts_bind_clockA act_simps allgather_def broadcast_condition_def
  register_buffers_def registerA_def sendMsgs_def send_one_def grow_buffers_def growA_def secondsA_def range_condition_def
  set_condition_def demo_times synced_def sync_code_def rc_of_def LPF_SUCCESS_def LPF_ERR_OUT_OF_MEMORY_def Let_def d_sub_def
  preferredSamples_def minSamples_def minRange_def vec_set_def vec_at_def bindE_def time_plus_def time_lessThan_def time_minus_def
  upt_rec add64_def mul64_def

lemma demo_try_range:
  "acts (try_range 0 1 1 3 (Fin 0) (Fin 1000) (Time 7 0) (Time 0 0) 5) (demo_bench [Continue])
     ([(ResizeQueue 9, Rc 0), (Grow ReadBuffer 16, Grown True), (Grow WriteBuffer 16, Grown True), (Now, Clocked (Some (Time 7 0)))] @ demo_round Continue)
     (Inr Continue) (demo_bench [Continue]\<lparr>bn_readBuffer := 16, bn_writeBuffer := 16\<rparr>)"
  by (simp add: try_range_def demo_round_def demo_bench_def demo_run)

lemma demo_time_range:
  "acts (time_range 0 1 1 3) (demo_bench [Continue]\<lparr>bn_readBuffer := 16, bn_writeBuffer := 16\<rparr>)
     ([(RegisterGlobal ReadBuffer 16, NewSlot 0 3), (RegisterGlobal WriteBuffer 16, NewSlot 0 4),
        (LpfSync [Continue] [], Synced 0 [Continue] []), (Now, Clocked (Some (Time 8 0)))]
     @ List.map (\<lambda>m. (LpfPut 3 m 0 4 m 1, Rc 0)) [0..<8]
     @ [(LpfSync [Continue] [], Synced 0 [Continue] []), (Now, Clocked (Some (Time 8 0))), (Deregister 3, Rc 0), (Deregister 4, Rc 0)])
     (Inr (Inr (Time 0 0))) (demo_bench [Continue]\<lparr>bn_readBuffer := 16, bn_writeBuffer := 16\<rparr>)"
  by (simp add: time_range_def demo_bench_def demo_run)

lemma demo_try_again:
  "acts (try_range 0 1 1 4 (Fin 0) (Fin 1000) (Time 7 0) (Time 0 0) 5) (demo_bench [Continue]\<lparr>bn_readBuffer := 16, bn_writeBuffer := 16\<rparr>)
     ([(ResizeQueue 17, Rc 0), (Grow ReadBuffer 24, Grown False), (Now, Clocked (Some (Time 8 0))), (Now, Clocked (Some (Time 8 0)))] @ demo_round Stop)
     (Inr Stop) (demo_bench [Stop]\<lparr>bn_readBuffer := 16, bn_writeBuffer := 16\<rparr>)"
  by (simp add: try_range_def demo_round_def demo_bench_def demo_run)

lemma demo_explore_run:
  "acts (explore (Suc (Suc 0)) 0 1 1 (Fin 0) (Fin 1000) (Time 7 0) 5 6 3 (Time 0 0)) (demo_bench [Continue]) demo_explore
     (Inr (Inr 4)) (demo_bench [Stop]\<lparr>bn_readBuffer := 16, bn_writeBuffer := 16\<rparr>)"
proof -
  have "acts (explore (Suc 0) 0 1 1 (Fin 0) (Fin 1000) (Time 7 0) 5 6 (3 + 1) (Time 0 0)) (demo_bench [Continue]\<lparr>bn_readBuffer := 16, bn_writeBuffer := 16\<rparr>)
      ([(ResizeQueue 17, Rc 0), (Grow ReadBuffer 24, Grown False), (Now, Clocked (Some (Time 8 0))), (Now, Clocked (Some (Time 8 0)))] @ demo_round Stop)
      (Inr (Inr 4)) (demo_bench [Stop]\<lparr>bn_readBuffer := 16, bn_writeBuffer := 16\<rparr>)"
    using explore_stop [OF demo_try_again, where k = 0 and ts = 6] by (simp del: explore.simps)
  from explore_next [OF demo_try_range demo_time_range this] show ?thesis
    by (simp only: demo_explore_def append_assoc append.simps)
qed


text \<open>The last message of a bundle.\<close>

lemma forA_last:
  assumes "acts (forA (is @ [i]) f) v tr (Inr u) v'"
  shows "\<exists>v1 t1 t2. tr = t1 @ t2 \<and> acts (f i) v1 t2 (Inr ()) v'"
  using assms
proof (induction "is" arbitrary: v tr)
  case Nil
  then have "acts (f i) v tr (Inr ()) v'" by (auto simp: acts_bindA acts_retA)
  then show ?case by (metis append_Nil)
next
  case (Cons j js)
  then have "acts (bindA (f j) (\<lambda>_. forA (js @ [i]) f)) v tr (Inr u) v'" by simp
  then obtain v1 t1 t2 where "tr = t1 @ t2" and "acts (forA (js @ [i]) f) v1 t2 (Inr u) v'"
    by (auto simp: acts_bindA)
  with Cons.IH [of v1 t2] show ?case by (metis append.assoc)
qed

lemma sendMsgs_last:
  assumes "acts (sendMsgs pid (Suc n) (Suc k) 0 bs r w) v tr (Inr u) v'"
  shows "\<exists>e \<in> set tr. fst e = LpfPut r (mul64 (add64 (mul64 k (Suc n)) n) bs) n w (mul64 (add64 (mul64 k (Suc n)) pid) bs) bs"
proof -
  have "acts (forA ([0..<k] @ [k]) (\<lambda>m. forA [0..<Suc n] (send_one pid (Suc n) 0 bs r w m))) v tr (Inr u) v'"
    using assms by (simp add: sendMsgs_def)
  from forA_last [OF this] obtain v1 t1 t2 where 1: "tr = t1 @ t2" "acts (forA [0..<Suc n] (send_one pid (Suc n) 0 bs r w k)) v1 t2 (Inr ()) v'"
    by blast
  then have "acts (forA ([0..<n] @ [n]) (send_one pid (Suc n) 0 bs r w k)) v1 t2 (Inr ()) v'" by simp
  from forA_last [OF this] obtain v2 t3 t4 where "t2 = t3 @ t4" "acts (send_one pid (Suc n) 0 bs r w k n) v2 t4 (Inr ()) v'"
    by blast
  then show ?thesis using 1(1) by (auto simp: send_one_def Let_def acts_expectA)
qed

text \<open>
  When there is not enough memory for the first round of the exploration, the measurements are made nevertheless, with four
  messages, and with the buffers of a smaller size: the last message reads behind the end of the registered memory.
\<close>

theorem first_range_overrun:
  assumes "acts (try_range pid n bs minRange soft hard s0 ct ss) v tr (Inr Stop) v'" and "snd (tr ! 1) \<noteq> Grown True"
    and "bn_readBuffer v < 4 * n * bs" and "0 < n" and "0 < bs" and "4 * n * bs \<le> SIZE_MAX"
    and "acts (sendMsgs pid n (max 4 (2 ^ (minRange - 1))) 0 bs r w) v' tr' (Inr u) v''"
  shows "acts (explore (Suc k) pid n bs soft hard s0 ss ts minRange ct) v tr (Inr (Inr minRange)) v' \<and>
    bn_readBuffer v' = bn_readBuffer v \<and> (\<exists>e \<in> set tr'. \<not> inside (bn_readBuffer v') (fst e))"
proof -
  have same: "bn_readBuffer v' = bn_readBuffer v" using try_range_buffers [OF assms(1)] assms(2) by blast
  obtain m where n: "n = Suc m" using assms(4) by (cases n) auto
  have four: "max 4 (2 ^ (minRange - 1)) = Suc 3" by (simp add: minRange_def)
  obtain e where e: "e \<in> set tr'"
    "fst e = LpfPut r (mul64 (add64 (mul64 3 n) m) bs) m w (mul64 (add64 (mul64 3 n) pid) bs) bs"
    using sendMsgs_last [OF assms(7) [unfolded four n]] n by blast
  have "mul64 (add64 (mul64 3 n) m) bs = (3 * n + m) * bs"
    using message_offset(1) [of 3 4 m n bs] assms(5,6) n by simp
  moreover have "(3 * n + m) * bs + bs = 4 * n * bs" by (simp add: n algebra_simps)
  ultimately have "\<not> inside (bn_readBuffer v) (fst e)" using assms(3) e(2) by (simp add: inside_def)
  with e(1) have "\<exists>e \<in> set tr'. \<not> inside (bn_readBuffer v') (fst e)" unfolding same by blast
  with same explore_stop [OF assms(1)] show ?thesis by blast
qed

lemma demo_first_range:
  "acts (try_range 0 1 1 minRange (Fin 0) (Fin 1000) (Time 7 0) (Time 0 0) 5) (demo_bench [Continue])
     ([(ResizeQueue 9, Rc 0), (Grow ReadBuffer 16, Grown False), (Now, Clocked (Some (Time 7 0)))] @ demo_round Stop)
     (Inr Stop) (demo_bench [Stop])"
  by (simp add: try_range_def demo_round_def demo_bench_def demo_run)

theorem first_range_overrun_witness:
  "\<exists>e \<in> {(LpfPut 3 0 0 4 0 1, Rc 0), (LpfPut 3 1 0 4 1 1, Rc 0), (LpfPut 3 2 0 4 2 1, Rc 0), (LpfPut 3 3 0 4 3 1, Rc 0)}. \<not> inside 0 (fst e)"
proof -
  have "acts (sendMsgs 0 1 (max 4 (2 ^ (minRange - 1))) 0 1 3 4) (demo_bench [Stop])
      [(LpfPut 3 0 0 4 0 1, Rc 0), (LpfPut 3 1 0 4 1 1, Rc 0), (LpfPut 3 2 0 4 2 1, Rc 0), (LpfPut 3 3 0 4 3 1, Rc 0)] (Inr ()) (demo_bench [Stop])"
    by (simp add: demo_run)
  then show ?thesis
    using first_range_overrun [OF demo_first_range, of 3 4 "[(LpfPut 3 0 0 4 0 1, Rc 0), (LpfPut 3 1 0 4 1 1, Rc 0), (LpfPut 3 2 0 4 2 1, Rc 0), (LpfPut 3 3 0 4 3 1, Rc 0)]" "()" "demo_bench [Stop]" 1 6]
    by (simp add: demo_bench_def SIZE_MAX_def)
qed

section \<open>The interpolation\<close>

text \<open>What the two functions can rely on: seven sizes and seven values of type \<open>double\<close>.\<close>

definition machine_ok :: "machine_params \<Rightarrow> bool" where
  "machine_ok m \<longleftrightarrow> mp_blockSize m = BLOCK_SIZES \<and>
     length (mp_latency m) = DATAPOINTS \<and> list_all double_ok (mp_latency m) \<and>
     length (mp_messageGap m) = DATAPOINTS \<and> list_all double_ok (mp_messageGap m)"

lemma upper_bound_range:
  "upper_bound BLOCK_SIZES b \<le> DATAPOINTS" "upper_bound BLOCK_SIZES b = 0 \<longleftrightarrow> b = 0" "upper_bound BLOCK_SIZES b = DATAPOINTS \<longleftrightarrow> 1048576 \<le> b"
  by (auto simp: upper_bound_def BLOCK_SIZES_def DATAPOINTS_def)

lemma interpolate_inside:
  assumes "length ys = DATAPOINTS" and "0 < b" and "b < 1048576"
  shows "interpolate BLOCK_SIZES ys b =
    (let i = upper_bound BLOCK_SIZES b in
     Inr (d_add (ys ! (i - 1)) (d_div (d_mul (d_sub (ys ! i) (ys ! (i - 1))) (d_sub (d_of_int (int b)) (d_of_int (int (BLOCK_SIZES ! (i - 1))))))
       (d_sub (d_of_int (int (BLOCK_SIZES ! i))) (d_of_int (int (BLOCK_SIZES ! (i - 1))))))))"
proof -
  let ?i = "upper_bound BLOCK_SIZES b"
  have i: "0 < ?i" "?i < DATAPOINTS" using upper_bound_range [of b] assms(2,3) by auto
  have len: "length BLOCK_SIZES = DATAPOINTS" by (simp add: BLOCK_SIZES_def DATAPOINTS_def)
  have "sub64 ?i 1 = ?i - 1" using i by (intro sub64_plain) (auto simp: DATAPOINTS_def SIZE_MAX_def)
  then show ?thesis using i assms(1) len by (simp add: interpolate_def Let_def vec_at_def)
qed

lemma interpolate_outside:
  assumes "length ys = DATAPOINTS" and "b = 0 \<or> 1048576 \<le> b"
  shows "interpolate BLOCK_SIZES ys b = Inl OutOfBounds"
proof -
  have len: "length BLOCK_SIZES = 7" by (simp add: BLOCK_SIZES_def)
  from assms(2) show ?thesis
  proof
    assume "b = 0"
    then have "upper_bound BLOCK_SIZES b = 0" by (simp add: upper_bound_range)
    then show ?thesis using assms(1) len by (simp add: interpolate_def vec_at_def sub64_def DATAPOINTS_def)
  next
    assume "1048576 \<le> b"
    then have "upper_bound BLOCK_SIZES b = 7" using upper_bound_range [of b] by (simp add: DATAPOINTS_def)
    then show ?thesis using assms(1) len by (simp add: interpolate_def vec_at_def sub64_def DATAPOINTS_def)
  qed
qed


lemma MachineParams_ok: "machine_ok MachineParams"
  by (simp add: machine_ok_def MachineParams_def DATAPOINTS_def list_all_iff)


text \<open>
  C17: For a message of no bytes, and from a megabyte on, both functions read the table of the sizes outside of its bounds.
\<close>

theorem parameters_outside:
  assumes "machine_ok m" and "b = 0 \<or> 1048576 \<le> b"
  shows "interface_latency m p b attr = Inl OutOfBounds \<and> interface_messageGap m p b attr = Inl OutOfBounds"
  using assms interpolate_outside
  by (simp add: machine_ok_def getLatency_def getMessageGap_def interface_latency_def interface_messageGap_def)

theorem parameters_outside_witness:
  "interface_latency MachineParams 4 0 () = Inl OutOfBounds \<and> interface_messageGap MachineParams 4 0 () = Inl OutOfBounds"
  by (rule parameters_outside [OF MachineParams_ok]) simp



section \<open>The measurement of all sizes\<close>

text \<open>The parameters that a measurement leaves behind, whatever happens in it.\<close>

definition machine_shape :: "nat \<Rightarrow> machine_params \<Rightarrow> bool" where
  "machine_shape nprocs m \<longleftrightarrow> mp_set m \<and> mp_totalProcs m = nprocs \<and> mp_blockSize m = BLOCK_SIZES \<and>
     length (mp_latency m) = DATAPOINTS \<and> length (mp_messageGap m) = DATAPOINTS"

text \<open>Everything but \<open>store_params\<close> leaves the parameters alone.\<close>

abbreviation machine :: "(machine_params \<Rightarrow> bool) \<Rightarrow> bench \<Rightarrow> bool" where
  "machine Q v \<equiv> Q (bn_machine v)"

lemma stable_machine [keeps_rules]: "stable (machine Q)"
  by (simp add: stable_def)

lemma keeps_grow_buffers [keeps_rules]: "keeps (machine Q) (grow_buffers n)"
  unfolding grow_buffers_def by (intro keeps_rules) simp_all

lemma keeps_allocate_tables [keeps_rules]: "keeps (machine Q) (allocate_tables n)"
  unfolding allocate_tables_def by (intro keeps_rules) simp_all

lemma keeps_try_range [keeps_rules]: "keeps (machine Q) (try_range pid n bs rng soft hard s0 ct slot)"
  unfolding try_range_def by (intro keeps_rules) simp_all

lemma keeps_explore [keeps_rules]: "keeps (machine Q) (explore k pid n bs soft hard s0 ss ts rng ct)"
proof (induction k arbitrary: rng ct)
  case (Suc k)
  then show ?case unfolding explore.simps
    by (intro keeps_rules) (auto intro!: keeps_rules split: sum.split)
qed (simp add: keeps_rules)

lemma keeps_take_sample [keeps_rules]: "keeps (machine Q) (take_sample pid n bs r w k)"
  unfolding take_sample_def by (intro keeps_rules)

lemma keeps_keep_timing [keeps_rules]: "keeps (machine Q) (keep_timing i t)"
  unfolding keep_timing_def by (intro keeps_rules) (auto simp: bindE_simps)

lemma keeps_sample_condition [keeps_rules]: "keeps (machine Q) (sample_condition j i s0 soft hard)"
  unfolding sample_condition_def by (intro keeps_rules)

lemma keeps_sample_loop [keeps_rules]: "keeps (machine Q) (sample_loop k pid n bs soft hard s0 ss ts r w j m i)"
proof (induction k arbitrary: i)
  case (Suc k)
  show ?case unfolding sample_loop.simps by (intro keeps_rules Suc)
qed (simp add: keeps_rules)

lemma keeps_sample_all [keeps_rules]: "keeps (machine Q) (sample_all xs pid n bs soft hard s0 ss ts r w)"
  by (induction xs) (auto intro!: keeps_rules)

lemma keeps_conclude [keeps_rules]: "keeps (machine Q) (conclude n bs k)"
  unfolding conclude_def by (intro keeps_rules) (auto simp: bindE_simps case_prod_beta)

lemma keeps_send_timings [keeps_rules]: "keeps (machine Q) (send_timings pid n ts)"
  unfolding send_timings_def by (intro keeps_rules)

lemma keeps_measure_range [keeps_rules]: "keeps (machine Q) (measure_range pid n bs soft hard s0 ss ts rng)"
  unfolding measure_range_def Let_def by (intro keeps_rules)

lemma keeps_findMachineParams [keeps_rules]: "keeps (machine Q) (findMachineParams pid n bs soft hard)"
  unfolding findMachineParams_def by (intro keeps_rules) (auto intro!: keeps_rules split: sum.split)

lemma keeps_store_params [keeps_rules]: "keeps (machine (machine_shape n)) (store_params i)"
  unfolding store_params_def by (intro keeps_rules) (auto simp: bindE_simps machine_shape_def vec_set_def split: if_splits)

lemma keeps_probe_sizes: "keeps (machine (machine_shape n)) (probe_sizes ts pid n' i)"
  by (induction ts arbitrary: i) (auto intro!: keeps_rules)

text \<open>
  A measurement that comes to its end, however little it could measure, leaves parameters that are marked as set and that
  have the seven sizes with a value each, so that an interpolation between them is never out of bounds.
\<close>

theorem probe_shape:
  assumes "acts (hookProbe parse env impl pid nprocs) v tr (Inr m) v'"
  shows "machine_shape nprocs m"
proof -
  have shape: "machine_shape nprocs (MachineParams\<lparr>mp_set := True, mp_totalProcs := nprocs\<rparr>)"
    by (simp add: machine_shape_def MachineParams_def)
  have "machine_shape nprocs (bn_machine v')" if "acts (probe_sizes ts pid nprocs 0) v1 tr (Inr u) v'"
    "bn_machine v1 = MachineParams\<lparr>mp_set := True, mp_totalProcs := nprocs\<rparr>" for ts v1 u
    using keepsD [OF keeps_probe_sizes that(1)] that(2) shape by simp
  then show ?thesis using assms shape
    by (auto simp: hookProbe_def probe_def act_simps acts_bindA [of "probe_sizes _ _ _ _"] split: sum.splits if_splits)
qed

text \<open>
  When the tables for the very first size cannot be allocated, all the parameters are infinite, and the interpolation between
  two infinite values is not a number: \<open>lpf_probe\<close> then promises a latency of NaN.
\<close>

theorem failed_probe_nan:
  assumes "max_seconds parse env impl = Inr d" and "d_less (Fin 0) d"
  shows "\<exists>m v'. acts (hookProbe parse env impl pid nprocs) v [(Grow AllStatus nprocs, Grown False)] (Inr m) v' \<and>
    (\<forall>b \<in> {1..<1048576}. getLatency m b = Inr NaN \<and> getMessageGap m b = Inr NaN)"
proof -
  let ?inf = "replicate DATAPOINTS (Inf False)"
  let ?m = "\<lparr>mp_set = True, mp_totalProcs = nprocs, mp_blockSize = BLOCK_SIZES, mp_messageGap = ?inf, mp_latency = ?inf\<rparr>"
  have nan: "interpolate BLOCK_SIZES ?inf b = Inr NaN" if "b \<in> {1..<1048576}" for b
  proof -
    have "upper_bound BLOCK_SIZES b < DATAPOINTS" using upper_bound_range [of b] that by auto
    then show ?thesis using that by (simp add: interpolate_inside Let_def d_sub_def)
  qed
  have seven: "replicate 7 y = [y, y, y, y, y, y, y]" for y :: double by (simp add: eval_nat_numeral)
  obtain t ts where z: "zip (budgets d) (deadlines d (budgets d)) = t # ts" by (simp add: budgets_def BLOCK_SIZES_def)
  have "\<exists>v'. acts (hookProbe parse env impl pid nprocs) v [(Grow AllStatus nprocs, Grown False)] (Inr ?m) v'"
    using assms
    by (simp add: hookProbe_def probe_def act_simps z findMachineParams_def allocate_tables_def growA_def MachineParams_def
        BLOCK_SIZES_def vec_at_def vec_set_def store_params_def DATAPOINTS_def LPF_SUCCESS_def LPF_ERR_FATAL_def upt_rec bindE_def seven)
  then show ?thesis using nan by (intro exI [of _ ?m]) (auto simp: getLatency_def getMessageGap_def)
qed

theorem failed_probe_nan_witness:
  "\<exists>m v'. acts (hookProbe (\<lambda>_. None) (\<lambda>_. None) '''' 0 4) (demo_bench []) [(Grow AllStatus 4, Grown False)] (Inr m) v' \<and>
    (\<forall>b \<in> {1..<1048576}. getLatency m b = Inr NaN \<and> getMessageGap m b = Inr NaN)"
  by (rule failed_probe_nan [of _ _ _ "Fin 1"]) (simp_all add: max_seconds_def getEngine_def getMaxSecondsForProbe_def)

theorem probe_shape_witness:
  "machine_shape 4 (MachineParams\<lparr>mp_set := True, mp_totalProcs := 4\<rparr>)"
proof -
  have "acts (hookProbe (\<lambda>_. None) (\<lambda>_. None) ''mpimsg'' 0 4) (demo_bench []) [] (Inr (MachineParams\<lparr>mp_set := True, mp_totalProcs := 4\<rparr>))
    (demo_bench []\<lparr>bn_machine := MachineParams\<lparr>mp_set := True, mp_totalProcs := 4\<rparr>\<rparr>)"
    by (simp add: hookProbe_def probe_def max_seconds_def getEngine_def act_simps)
  then show ?thesis by (rule probe_shape)
qed

end
