(* ===== verification/Mpi_Lib.thy ===== *)
theory Mpi_Lib imports Interaction Memreg Sparse_Set begin

text \<open>
  The rest of \<open>src/MPI/mpilib.cpp\<close>: the life of a communicator and of the library object, the wrappers of the collective
  operations of MPI, and the windows with \<open>put\<close> and \<open>get\<close>, which only the engine \<open>mpirma\<close> uses.  Here the calls are those
  of MPI itself, any of which may fail.  The template of \<open>src/MPI/communication.hpp\<close> that scales the arguments of a total
  exchange is here as well.
\<close>

section \<open>Calls\<close>

datatype reduction = Lor | Land | Sum | Max | MaxUnsigned

datatype mpi_op =
    Initialized | Finalized | InitThread | QueryThread | MpiFinalize | MpiAbort int | ExitProcess
  | DupComm nat | RankComm nat | SizeComm nat | FreeComm nat
  | BcastBytes int int nat | AlltoallBytes int nat | AlltoallvBytes "int list" "int list" "int list" "int list" nat
  | AllgatherBytes bool int nat | AllreduceOne reduction int nat | AllreduceMany "int list" nat | IallreduceMany "int list" nat
  | BarrierComm nat | IbarrierComm nat | TestRequest nat | BcastSlot int nat
  | WinCreate nat nat nat | WinModel nat | WinFree nat | WinFence nat
  | PutBytes nat nat int nat int | GetBytes nat nat int nat int

datatype mpi_answer = Failed | Done | Value int | Values "int list" | Handle nat

type_synonym ('s, 'a) mpi_act = "(mpi_op, mpi_answer, 's, 'a) act"

definition Exception_mpi :: "string \<Rightarrow> fault" where
  "Exception_mpi what = ErrorThrown what"

text \<open>A call whose failure becomes an exception, and one whose failure is only written to the log.\<close>

definition checkA :: "string \<Rightarrow> mpi_op \<Rightarrow> ('s, mpi_answer) mpi_act" where
  "checkA what q = bindA (callA q) (\<lambda>r. if r = Failed then throwA (Exception_mpi what) else retA r)"

definition logA :: "mpi_op \<Rightarrow> ('s, unit) mpi_act" where
  "logA q = bindA (callA q) (\<lambda>_. retA ())"

definition value_of :: "mpi_answer \<Rightarrow> int" where
  "value_of r = (case r of Value n \<Rightarrow> n | _ \<Rightarrow> 0)"

definition handle_of :: "mpi_answer \<Rightarrow> nat" where
  "handle_of r = (case r of Handle h \<Rightarrow> h | _ \<Rightarrow> 0)"

text \<open>The conversion of a \<open>size_t\<close> to an \<open>int\<close> parameter.\<close>

definition to_int :: "nat \<Rightarrow> int" where
  "to_int n = (int n + 2147483648) mod 4294967296 - 2147483648"

text \<open>The conversion of an \<open>int\<close> to a \<open>size_t\<close> parameter.\<close>

definition to_size :: "int \<Rightarrow> nat" where
  "to_size i = nat (i mod 18446744073709551616)"

definition int_limit :: nat where
  "int_limit = 2147483647"

section \<open>Communicators\<close>

text \<open>
  A communicator object: its handle, rank and size, and the windows made from it.  Window zero stands for the null handle; the
  buffers of the messages are in another theory.
\<close>

record comm_impl =
  ci_comm :: nat
  ci_pid :: int
  ci_nprocs :: int
  ci_maxMpiMsgSize :: nat
  ci_windows :: "nat memreg"
  ci_usedWindows :: sparse

definition MPI_COMM_SELF :: nat where "MPI_COMM_SELF = 1"
definition MPI_COMM_WORLD :: nat where "MPI_COMM_WORLD = 2"
definition MPI_WIN_NULL :: nat where "MPI_WIN_NULL = 0"

text \<open>\<open>Impl( comm )\<close>, and \<open>Impl()\<close> with the communicator of the process alone; \<open>ok\<close> says which allocations succeed, and
  \<open>maxMsg\<close> is the configured \<open>LPF_MPI_MAX_MSG_SIZE\<close>.\<close>

definition impl_dup :: "(nat \<Rightarrow> bool) \<Rightarrow> nat \<Rightarrow> nat \<Rightarrow> ('s, comm_impl) mpi_act" where
  "impl_dup ok maxMsg h =
     (case sparse_new ok 0 0 of
        (d, Some e) \<Rightarrow> throwA e
      | (d, None) \<Rightarrow>
          bindA (checkA ''Copying MPI communicator failed'' (DupComm h)) (\<lambda>c.
          bindA (checkA ''Unable to get PID from MPI'' (RankComm (handle_of c))) (\<lambda>p.
          bindA (checkA ''Unable to get number of processes from MPI'' (SizeComm (handle_of c))) (\<lambda>n.
          retA \<lparr>ci_comm = handle_of c, ci_pid = value_of p, ci_nprocs = value_of n, ci_maxMpiMsgSize = maxMsg,
            ci_windows = memreg_empty, ci_usedWindows = d\<rparr>))))"

definition impl_self :: "(nat \<Rightarrow> bool) \<Rightarrow> nat \<Rightarrow> ('s, comm_impl) mpi_act" where
  "impl_self ok maxMsg = impl_dup ok maxMsg MPI_COMM_SELF"

definition free_window :: "comm_impl \<Rightarrow> int \<Rightarrow> ('s, unit) mpi_act" where
  "free_window c i =
     bindA (liftA (\<lambda>_. memreg_lookup (ci_windows c) (nat i))) (\<lambda>w.
     bindA (assertA (w \<noteq> MPI_WIN_NULL)) (\<lambda>_. logA (WinFree w)))"

definition impl_destroy :: "comm_impl \<Rightarrow> ('s, unit) mpi_act" where
  "impl_destroy c =
     bindA (callA Finalized) (\<lambda>r.
     if value_of r = 0
     then bindA (forA (sparse_iterate (ci_usedWindows c)) (free_window c)) (\<lambda>_. logA (FreeComm (ci_comm c)))
     else retA ())"

definition comm_nprocs :: "comm_impl \<Rightarrow> ('s, int) mpi_act" where
  "comm_nprocs c = bindA (checkA ''Could not determine size of MPI communicator'' (SizeComm (ci_comm c))) (\<lambda>r. retA (value_of r))"

definition comm_pid :: "comm_impl \<Rightarrow> ('s, int) mpi_act" where
  "comm_pid c = bindA (checkA ''Could not determine rank in MPI communicator'' (RankComm (ci_comm c))) (\<lambda>r. retA (value_of r))"

section \<open>Collective operations\<close>

definition comm_broadcast :: "comm_impl \<Rightarrow> nat \<Rightarrow> int \<Rightarrow> ('s, unit) mpi_act" where
  "comm_broadcast c sz root =
     (if sz > int_limit then throwA (Exception_mpi ''Broadcast size is too large'')
      else bindA (checkA ''Broadcasting value failed'' (BcastBytes (int sz) root (ci_comm c))) (\<lambda>_. retA ()))"

definition comm_allToAll :: "comm_impl \<Rightarrow> int \<Rightarrow> ('s, unit) mpi_act" where
  "comm_allToAll c elementSize = bindA (checkA ''All-to-all failed'' (AlltoallBytes elementSize (ci_comm c))) (\<lambda>_. retA ())"

definition comm_allToAllv :: "comm_impl \<Rightarrow> int list \<Rightarrow> int list \<Rightarrow> int list \<Rightarrow> int list \<Rightarrow> ('s, unit) mpi_act" where
  "comm_allToAllv c sendOffsets sendCounts recvOffsets recvCounts =
     bindA (checkA ''All-to-all-v failed'' (AlltoallvBytes sendCounts sendOffsets recvCounts recvOffsets (ci_comm c))) (\<lambda>_. retA ())"

definition comm_allgather :: "comm_impl \<Rightarrow> nat \<Rightarrow> ('s, unit) mpi_act" where
  "comm_allgather c xSize = bindA (checkA ''Allgather failed'' (AllgatherBytes False (to_int xSize) (ci_comm c))) (\<lambda>_. retA ())"

definition comm_allgather_inplace :: "comm_impl \<Rightarrow> nat \<Rightarrow> ('s, unit) mpi_act" where
  "comm_allgather_inplace c xSize = bindA (checkA ''Allgather failed'' (AllgatherBytes True (to_int xSize) (ci_comm c))) (\<lambda>_. retA ())"

definition allreduceOr :: "comm_impl \<Rightarrow> bool \<Rightarrow> ('s, bool) mpi_act" where
  "allreduceOr c x =
     bindA (checkA ''Could not compute global 'or' with MPI_Allreduce'' (AllreduceOne Lor (if x then 1 else 0) (ci_comm c)))
       (\<lambda>r. retA (value_of r \<noteq> 0))"

definition allreduceAnd :: "comm_impl \<Rightarrow> bool \<Rightarrow> ('s, bool) mpi_act" where
  "allreduceAnd c x =
     bindA (checkA ''Could not compute global 'and' with MPI_Allreduce'' (AllreduceOne Land (if x then 1 else 0) (ci_comm c)))
       (\<lambda>r. retA (value_of r \<noteq> 0))"

definition allreduceSum :: "comm_impl \<Rightarrow> int \<Rightarrow> ('s, int) mpi_act" where
  "allreduceSum c x =
     bindA (checkA ''Could not compute global 'sum' with MPI_Allreduce'' (AllreduceOne Sum x (ci_comm c))) (\<lambda>r. retA (value_of r))"

definition allreduceSum_many :: "comm_impl \<Rightarrow> int list \<Rightarrow> ('s, int list) mpi_act" where
  "allreduceSum_many c xs =
     bindA (checkA ''Could not compute global 'sum' with MPI_Allreduce'' (AllreduceMany xs (ci_comm c)))
       (\<lambda>r. retA (case r of Values ys \<Rightarrow> ys | _ \<Rightarrow> []))"

definition iallreduceSum :: "comm_impl \<Rightarrow> int list \<Rightarrow> ('s, nat) mpi_act" where
  "iallreduceSum c xs =
     bindA (checkA ''Could not compute global 'sum' with MPI_Allreduce'' (IallreduceMany xs (ci_comm c))) (\<lambda>r. retA (handle_of r))"

definition allreduceMax :: "comm_impl \<Rightarrow> int \<Rightarrow> ('s, int) mpi_act" where
  "allreduceMax c x =
     bindA (checkA ''Could not compute global 'max' with MPI_Allreduce'' (AllreduceOne Max x (ci_comm c))) (\<lambda>r. retA (value_of r))"

definition allreduceMax_unsigned :: "comm_impl \<Rightarrow> nat \<Rightarrow> ('s, nat) mpi_act" where
  "allreduceMax_unsigned c x =
     bindA (checkA ''Could not compute global 'max' with MPI_Allreduce'' (AllreduceOne MaxUnsigned (int x) (ci_comm c)))
       (\<lambda>r. retA (nat (value_of r)))"

definition comm_barrier :: "comm_impl \<Rightarrow> ('s, unit) mpi_act" where
  "comm_barrier c = bindA (checkA ''MPI barrier failed'' (BarrierComm (ci_comm c))) (\<lambda>_. retA ())"

definition comm_ibarrier :: "comm_impl \<Rightarrow> ('s, nat) mpi_act" where
  "comm_ibarrier c = bindA (checkA ''MPI ibarrier failed'' (IbarrierComm (ci_comm c))) (\<lambda>r. retA (handle_of r))"

text \<open>\<open>test\<close> does not look at the result of the call.\<close>

definition comm_test :: "nat \<Rightarrow> ('s, bool) mpi_act" where
  "comm_test request = bindA (callA (TestRequest request)) (\<lambda>r. retA (value_of r \<noteq> 0))"

text \<open>
  The templates of \<open>communication.hpp\<close> turn counts of elements into counts of bytes and back.  The product is computed in
  \<open>size_t\<close>, because \<open>sizeof\<close> is, and stored in an \<open>int\<close>; a negative count becomes a large \<open>size_t\<close>.
\<close>

definition scale :: "nat \<Rightarrow> int \<Rightarrow> int" where
  "scale sz x = to_int (to_size x * sz mod 18446744073709551616)"

definition unscale :: "nat \<Rightarrow> int \<Rightarrow> int" where
  "unscale sz x = to_int (to_size x div sz)"

definition scale_first :: "(int \<Rightarrow> int) \<Rightarrow> nat \<Rightarrow> int list \<Rightarrow> int list" where
  "scale_first f n xs = map f (take n xs) @ drop n xs"

definition allToAll_typed ::
  "nat \<Rightarrow> comm_impl \<Rightarrow> int list \<Rightarrow> int list \<Rightarrow> int list \<Rightarrow> int list \<Rightarrow>
    ('s, int list \<times> int list \<times> int list \<times> int list) mpi_act" where
  "allToAll_typed sz c sendOffsets sendCounts recvOffsets recvCounts =
     bindA (comm_nprocs c) (\<lambda>nprocs.
     if nat nprocs \<le> length sendOffsets \<and> nat nprocs \<le> length sendCounts \<and>
        nat nprocs \<le> length recvOffsets \<and> nat nprocs \<le> length recvCounts
     then let up = scale_first (scale sz) (nat nprocs); down = scale_first (unscale sz) (nat nprocs) in
       bindA (comm_allToAllv c (up sendOffsets) (up sendCounts) (up recvOffsets) (up recvCounts)) (\<lambda>_.
       retA (down (up sendOffsets), down (up sendCounts), down (up recvOffsets), down (up recvCounts)))
     else throwA OutOfBounds)"

section \<open>Windows\<close>

text \<open>
  These members are compiled for the engine \<open>mpirma\<close> only.  \<open>limit\<close> is the number of windows that the MPI implementation is
  known to handle, \<open>ok\<close> says which allocations succeed and \<open>mx\<close> is the largest vector of windows.
\<close>

type_synonym 'a window_act = "(comm_impl, 'a) mpi_act"

definition zoom_windows :: "(mpi_op, mpi_answer, nat memreg, 'a) act \<Rightarrow> 'a window_act" where
  "zoom_windows = zoomA ci_windows (\<lambda>w c. c\<lparr>ci_windows := w\<rparr>)"

definition zoom_used :: "(mpi_op, mpi_answer, sparse, 'a) act \<Rightarrow> 'a window_act" where
  "zoom_used = zoomA ci_usedWindows (\<lambda>u c. c\<lparr>ci_usedWindows := u\<rparr>)"

definition reserveWindows :: "(nat \<Rightarrow> bool) \<Rightarrow> (nat \<Rightarrow> bool) \<Rightarrow> nat \<Rightarrow> int option \<Rightarrow> int \<Rightarrow> unit window_act" where
  "reserveWindows okw oku mx limit maxNumber =
     (if limit \<noteq> None \<and> maxNumber \<ge> the limit then throwA BadAlloc
      else bindA (zoom_windows (outcomeA (\<lambda>w. memreg_reserve okw mx MPI_WIN_NULL w (to_size maxNumber) MPI_WIN_NULL))) (\<lambda>_.
        bindA getA (\<lambda>c.
        zoom_used (outcomeA (\<lambda>u. sparse_resize oku u (int (memreg_capacity (ci_windows c))))))))"

definition store_window :: "nat \<Rightarrow> int window_act" where
  "store_window newWindow =
     bindA (zoom_windows (stateA (\<lambda>r. memreg_add r newWindow))) (\<lambda>i.
     bindA (zoom_used (stateA (\<lambda>u. bindE (sparse_insert u (int i)) (\<lambda>u'. Inr ((), u'))))) (\<lambda>_. retA (to_int i)))"

definition createWindow :: "nat \<Rightarrow> nat \<Rightarrow> int window_act" where
  "createWindow base sz =
     bindA getA (\<lambda>c.
     bindA (checkA ''Cannot create MPI Window'' (WinCreate base sz (ci_comm c))) (\<lambda>w.
     bindA (checkA ''Cannot query MPI Window attributes'' (WinModel (handle_of w))) (\<lambda>u.
     if value_of u = 0 then throwA (Exception_mpi ''MPI implementation does not support overlapping windows'')
     else store_window (handle_of w))))"

definition freeWindow :: "int \<Rightarrow> unit window_act" where
  "freeWindow i =
     bindA (liftA (\<lambda>c. memreg_lookup (ci_windows c) (to_size i))) (\<lambda>w.
     bindA (checkA ''Cannot free MPI Window'' (WinFree w)) (\<lambda>_.
     bindA (zoom_windows (stateA (\<lambda>r. bindE (memreg_remove r (to_size i)) (\<lambda>r'. Inr ((), r'))))) (\<lambda>_.
     zoom_used (stateA (\<lambda>u. bindE (sparse_erase u (int (to_size i))) (\<lambda>u'. Inr ((), u')))))))"

definition fence :: "int \<Rightarrow> unit window_act" where
  "fence memslot =
     bindA getA (\<lambda>c.
     bindA (liftA (\<lambda>c. memreg_lookup (ci_windows c) (to_size memslot))) (\<lambda>w.
     bindA (assertA (w \<noteq> MPI_WIN_NULL)) (\<lambda>_.
     bindA (callA (BcastSlot memslot (ci_comm c))) (\<lambda>r.
     bindA (assertA ((case r of Value n \<Rightarrow> n | _ \<Rightarrow> memslot) = memslot)) (\<lambda>_.
     bindA (checkA ''Cannot fence MPI Window'' (WinFence w)) (\<lambda>_. retA ()))))))"

definition fenceAll :: "unit window_act" where
  "fenceAll = bindA getA (\<lambda>c. forA (sparse_iterate (ci_usedWindows c)) (\<lambda>i. fence (to_int (nat i))))"

text \<open>
  \<open>put\<close> and \<open>get\<close> split a transfer into blocks.  The arguments of the calls are the addresses and the length of a block.  The loop takes a bound on
  its rounds, since it never ends when the configured maximum is zero.
\<close>

primrec window_put_blocks :: "nat \<Rightarrow> nat \<Rightarrow> int \<Rightarrow> int \<Rightarrow> nat \<Rightarrow> nat \<Rightarrow> nat \<Rightarrow> unit window_act" where
  "window_put_blocks 0 src pid slot dst sz offset = throwA OutOfFuel"
| "window_put_blocks (Suc n) src pid slot dst sz offset =
     bindA getA (\<lambda>c.
     if offset < sz then
       bindA (liftA (\<lambda>c. memreg_lookup (ci_windows c) (to_size slot))) (\<lambda>w.
       bindA (checkA ''MPI Put failed'' (PutBytes w (add64 src offset) pid (add64 dst offset)
                (to_int (min (ci_maxMpiMsgSize c) (sz - offset))))) (\<lambda>_.
       window_put_blocks n src pid slot dst sz (add64 offset (min (ci_maxMpiMsgSize c) sz))))
     else retA ())"

definition window_put :: "nat \<Rightarrow> nat \<Rightarrow> int \<Rightarrow> int \<Rightarrow> nat \<Rightarrow> nat \<Rightarrow> unit window_act" where
  "window_put rounds src dstPid dstSlot dstOffset sz = window_put_blocks rounds src dstPid dstSlot dstOffset sz 0"

primrec window_get_blocks :: "nat \<Rightarrow> int \<Rightarrow> int \<Rightarrow> nat \<Rightarrow> nat \<Rightarrow> nat \<Rightarrow> nat \<Rightarrow> unit window_act" where
  "window_get_blocks 0 pid slot src dst sz offset = throwA OutOfFuel"
| "window_get_blocks (Suc n) pid slot src dst sz offset =
     bindA getA (\<lambda>c.
     if offset < sz then
       bindA (liftA (\<lambda>c. memreg_lookup (ci_windows c) (to_size slot))) (\<lambda>w.
       bindA (checkA ''MPI Get failed'' (GetBytes w (add64 dst offset) pid (add64 src offset)
                (to_int (min (ci_maxMpiMsgSize c) (sz - offset))))) (\<lambda>_.
       window_get_blocks n pid slot src dst sz (add64 offset (min (ci_maxMpiMsgSize c) sz))))
     else retA ())"

definition window_get :: "nat \<Rightarrow> int \<Rightarrow> int \<Rightarrow> nat \<Rightarrow> nat \<Rightarrow> nat \<Rightarrow> unit window_act" where
  "window_get rounds srcPid srcSlot srcOffset dst sz = window_get_blocks rounds srcPid srcSlot srcOffset dst sz 0"

section \<open>The library object\<close>

text \<open>
  The shared pointers to the communicators of the world and of the process are options: they are reset to null, which destroys
  the object, since no copy is made of them before.  Thread levels are ordered as in MPI; the level that MPI provides is the
  answer of the call.  \<open>auto\<close> is the global \<open>LPF_MPI_AUTO_INITIALIZE\<close>.
\<close>

definition MPI_THREAD_FUNNELED :: int where
  "MPI_THREAD_FUNNELED = 1"

record mpi_lib =
  ml_world :: "comm_impl option"
  ml_self :: "comm_impl option"
  ml_mpiInitialized :: bool
  ml_selfInitialized :: bool
  ml_fatalFailure :: bool
  ml_supportsThreads :: bool

definition lib_new :: "bool \<Rightarrow> (nat \<Rightarrow> bool) \<Rightarrow> nat \<Rightarrow> ('s, mpi_lib) mpi_act" where
  "lib_new auto ok maxMsg =
     bindA (checkA ''Could not determine whether MPI was already initialized'' Initialized) (\<lambda>i.
     let initialized = (value_of i \<noteq> 0) in
     if \<not> initialized \<and> \<not> auto then throwA (Exception_mpi ''The application did not call MPI_Init()'')
     else bindA (if \<not> initialized then checkA ''Initialization MPI failed'' InitThread
                 else checkA ''MPI thread support query failed'' QueryThread) (\<lambda>provided.
          bindA (impl_dup ok maxMsg MPI_COMM_SELF) (\<lambda>self.
          retA \<lparr>ml_world = None, ml_self = Some self, ml_mpiInitialized = initialized,
            ml_selfInitialized = \<not> initialized, ml_fatalFailure = False,
            ml_supportsThreads = (value_of provided \<ge> MPI_THREAD_FUNNELED)\<rparr>)))"

definition setFatalMode :: "(mpi_lib, unit) mpi_act" where
  "setFatalMode = modA (\<lambda>l. l\<lparr>ml_fatalFailure := True\<rparr>)"

definition total_nprocs :: "('s, int) mpi_act" where
  "total_nprocs =
     bindA (checkA ''Cannot determine number of MPI processes'' (SizeComm MPI_COMM_WORLD)) (\<lambda>r. retA (value_of r))"

definition lib_world :: "(nat \<Rightarrow> bool) \<Rightarrow> nat \<Rightarrow> (mpi_lib, comm_impl) mpi_act" where
  "lib_world ok maxMsg =
     bindA getA (\<lambda>l. case ml_world l of
       Some c \<Rightarrow> retA c
     | None \<Rightarrow> bindA (impl_dup ok maxMsg MPI_COMM_WORLD) (\<lambda>c.
         bindA (modA (\<lambda>l. l\<lparr>ml_world := Some c\<rparr>)) (\<lambda>_. retA c)))"

definition reset_comm :: "comm_impl option \<Rightarrow> ('s, unit) mpi_act" where
  "reset_comm c = (case c of None \<Rightarrow> retA () | Some i \<Rightarrow> impl_destroy i)"

text \<open>The result says whether the destructor returns: after a fatal failure it ends the process.\<close>

definition lib_destroy :: "(mpi_lib, bool) mpi_act" where
  "lib_destroy =
     bindA getA (\<lambda>l.
     if ml_fatalFailure l then bindA (callA ExitProcess) (\<lambda>_. retA False)
     else bindA (reset_comm (ml_world l)) (\<lambda>_.
          bindA (modA (\<lambda>l. l\<lparr>ml_world := None\<rparr>)) (\<lambda>_.
          bindA (reset_comm (ml_self l)) (\<lambda>_.
          bindA (modA (\<lambda>l. l\<lparr>ml_self := None\<rparr>)) (\<lambda>_.
          bindA (callA Finalized) (\<lambda>r.
          bindA (if ml_selfInitialized l \<and> value_of r = 0 then logA MpiFinalize else retA ()) (\<lambda>_. retA True)))))))"

definition lib_abort :: "('s, unit) mpi_act" where
  "lib_abort = logA (MpiAbort 134)"

section \<open>Running the wrappers\<close>

lemma acts_checkA [act_simps]:
  "acts (bindA (checkA what q) f) s tr r s' \<longleftrightarrow>
     (\<exists>a tr'. tr = (q, a) # tr' \<and>
       (if a = Failed then tr' = [] \<and> r = Inl (Exception_mpi what) \<and> s' = s else acts (f a) s tr' r s'))"
  by (auto simp: checkA_def act_simps split: if_splits)

lemma acts_logA [act_simps]:
  "acts (bindA (logA q) f) s tr r s' \<longleftrightarrow> (\<exists>a tr'. tr = (q, a) # tr' \<and> acts (f ()) s tr' r s')"
  by (auto simp: logA_def act_simps)

lemma acts_logA_last [act_simps]: "acts (logA q) s tr r s' \<longleftrightarrow> (\<exists>a. tr = [(q, a)] \<and> r = Inr () \<and> s' = s)"
  by (auto simp: logA_def act_simps)

lemma acts_zoom_state [act_simps]:
  "acts (bindA (zoomA part back (stateA g)) f) t tr r t' \<longleftrightarrow>
     (case g (part t) of Inl e \<Rightarrow> tr = [] \<and> r = Inl e \<and> t' = back (part t) t
      | Inr (x, s1) \<Rightarrow> acts (f x) (back s1 t) tr r t')"
  by (cases "g (part t)") (auto simp: acts_bindA act_simps)

lemma acts_zoom_outcome [act_simps]:
  "acts (bindA (zoomA part back (outcomeA g)) f) t tr r t' \<longleftrightarrow>
     (case snd (g (part t)) of Some e \<Rightarrow> tr = [] \<and> r = Inl e \<and> t' = back (fst (g (part t))) t
      | None \<Rightarrow> acts (f ()) (back (fst (g (part t))) t) tr r t')"
  by (cases "snd (g (part t))") (auto simp: acts_bindA act_simps)

section \<open>The windows of a communicator\<close>

definition windows_inv :: "comm_impl \<Rightarrow> bool" where
  "windows_inv c \<longleftrightarrow> memreg_inv (ci_windows c) \<and> sparse_inv (ci_usedWindows c) \<and> sp_min (ci_usedWindows c) = 0 \<and>
     sp_max (ci_usedWindows c) = int (memreg_capacity (ci_windows c)) \<and>
     sparse_set (ci_usedWindows c) = int ` memreg_live (ci_windows c) \<and>
     (\<forall>i \<in> memreg_live (ci_windows c). m_slots (ci_windows c) ! i \<noteq> MPI_WIN_NULL)"

lemma windows_inv_new:
  assumes "acts (impl_dup ok m h) s tr (Inr c) s'"
  shows "windows_inv c"
proof -
  obtain d where d: "sparse_new ok 0 0 = (d, None)" and c: "ci_usedWindows c = d" "ci_windows c = memreg_empty"
    using assms by (auto simp: impl_dup_def act_simps split: prod.splits option.splits if_splits)
  show ?thesis using sparse_reset_spec [OF d [unfolded sparse_new_def]]
    by (simp add: windows_inv_def c memreg_inv_empty) (simp add: memreg_capacity_def memreg_empty_def)
qed

lemma store_window_inv:
  assumes inv: "windows_inv c" and room: "memreg_room (ci_windows c)" and h: "h \<noteq> MPI_WIN_NULL"
    and run: "acts (store_window h) c tr r c'"
  shows "windows_inv c'"
proof -
  let ?w = "ci_windows c" and ?u = "ci_usedWindows c"
  note i = inv [unfolded windows_inv_def]
  obtain w where w: "memreg_add ?w h = Inr (memreg_next ?w, w)" using memreg_add_ok [of ?w h] i room by simp
  note a = memreg_add_inv_live [OF _ room w]
  have lt: "memreg_next ?w < memreg_capacity ?w" using memreg_next_less [of ?w] room i by (simp add: memreg_capacity_def)
  obtain u where u: "sparse_insert ?u (int (memreg_next ?w)) = Inr u" "sparse_inv u"
      "sparse_set u = insert (int (memreg_next ?w)) (sparse_set ?u)" "sp_min u = sp_min ?u" "sp_max u = sp_max ?u"
    using sparse_insert_spec [of ?u "int (memreg_next ?w)"] i lt by auto
  have "c' = c\<lparr>ci_windows := w, ci_usedWindows := u\<rparr>"
    using run by (simp add: store_window_def act_simps zoom_windows_def zoom_used_def w u)
  then show ?thesis using i u a h lt by (auto simp: windows_inv_def memreg_capacity_def nth_list_update)
qed

lemma createWindow_inv:
  assumes inv: "windows_inv c" and room: "memreg_room (ci_windows c)"
    and run: "acts (createWindow b sz) c tr r c'"
    and handles: "\<forall>a. (WinCreate b sz (ci_comm c), a) \<in> set tr \<longrightarrow> a = Failed \<or> handle_of a \<noteq> MPI_WIN_NULL"
  shows "windows_inv c'"
proof -
  have "c' = c \<or> (\<exists>h t. h \<noteq> MPI_WIN_NULL \<and> acts (store_window h) c t r c')"
    using run handles by (auto simp: createWindow_def act_simps split: if_splits)
  then show ?thesis using inv store_window_inv [OF inv room] by blast
qed

lemma freeWindow_inv:
  assumes inv: "windows_inv c" and live: "j \<in> memreg_live (ci_windows c)" and run: "acts (freeWindow (int j)) c tr r c'"
  shows "windows_inv c'"
proof -
  let ?w = "ci_windows c" and ?u = "ci_usedWindows c"
  note i = inv [unfolded windows_inv_def]
  have lt: "j < length (m_slots ?w)" by (rule memreg_live_less) (use i live in auto)
  moreover have "length (m_slots ?w) < SIZE_MAX" using memreg_bounds i by blast
  ultimately have j: "to_size (int j) = j" by (simp add: to_size_def SIZE_MAX_def)
  obtain w where rm: "memreg_remove ?w j = Inr w" using memreg_remove_ok [of ?w j] i live by auto
  note a = memreg_remove_inv_live [OF _ live rm]
  obtain u where u: "sparse_erase ?u (int j) = Inr u" "sparse_inv u"
      "sparse_set u = sparse_set ?u - {int j}" "sp_min u = sp_min ?u" "sp_max u = sp_max ?u"
    using sparse_erase_spec [of ?u "int j"] i lt by (auto simp: memreg_capacity_def)
  have "c' = c \<or> c' = c\<lparr>ci_windows := w, ci_usedWindows := u\<rparr>"
    using run lt by (auto simp: freeWindow_def act_simps zoom_windows_def zoom_used_def j rm u memreg_lookup_ok split: if_splits)
  moreover have "windows_inv (c\<lparr>ci_windows := w, ci_usedWindows := u\<rparr>)"
    using i u a by (auto simp: windows_inv_def memreg_capacity_def)
  ultimately show ?thesis using inv by blast
qed

lemma reserveWindows_inv:
  assumes inv: "windows_inv c" and grow: "int (memreg_capacity (ci_windows c)) < n" "n < 2147483648"
    and run: "acts (reserveWindows okw oku mx limit n) c tr (Inr ()) c'"
  shows "windows_inv c' \<and> memreg_capacity (ci_windows c') = nat n"
proof -
  let ?w = "ci_windows c" and ?u = "ci_usedWindows c"
  note i = inv [unfolded windows_inv_def]
  have n: "to_size n = nat n" using grow by (simp add: to_size_def)
  obtain w where w: "memreg_reserve okw mx MPI_WIN_NULL ?w (nat n) MPI_WIN_NULL = (w, None)"
    and c1: "acts (zoom_used (outcomeA (\<lambda>u. sparse_resize oku u (int (memreg_capacity w))))) (c\<lparr>ci_windows := w\<rparr>) tr (Inr ()) c'"
    using run that [of "fst (memreg_reserve okw mx MPI_WIN_NULL ?w (nat n) MPI_WIN_NULL)"]
    by (auto simp: reserveWindows_def zoom_windows_def act_simps n prod_eq_iff split: if_splits option.splits)
  have wi: "memreg_inv w" and wl: "memreg_live w = memreg_live ?w"
    and slots: "\<forall>s \<in> memreg_live ?w. m_slots w ! s = m_slots ?w ! s"
    using memreg_reserve_inv [OF _ w] memreg_reserve_frame [OF w] memreg_reserve_slots [OF _ w] i by auto
  have cap: "memreg_capacity w = nat n"
    using w grow by (cases rule: memreg_reserve_cases) (auto simp: memreg_capacity_def vec_resize_def)
  obtain u where u: "sparse_resize oku ?u n = (u, None)" and c': "c' = c\<lparr>ci_windows := w, ci_usedWindows := u\<rparr>"
    using c1 grow cap by (auto simp: zoom_used_def act_simps split: option.splits) (metis prod.collapse)
  have ex: "sparse_extend oku ?u n = (u, None)" using u grow i by (simp add: sparse_resize_def)
  show ?thesis using sparse_extend_spec [OF _ ex] i wi wl slots cap grow
    by (simp add: c' windows_inv_def)
qed

text \<open>
  The states of a communicator between the calls of its users: windows are made while there is room, freed when they exist, and more of them are
  reserved.  MPI does not answer the null handle for a new window.
\<close>

inductive window_state :: "comm_impl \<Rightarrow> bool" where
  start: "acts (impl_dup ok m h) () tr (Inr c) () \<Longrightarrow> window_state c"
| create: "window_state c \<Longrightarrow> memreg_room (ci_windows c) \<Longrightarrow> acts (createWindow b sz) c tr r c' \<Longrightarrow>
    (\<forall>a. (WinCreate b sz (ci_comm c), a) \<in> set tr \<longrightarrow> a = Failed \<or> handle_of a \<noteq> MPI_WIN_NULL) \<Longrightarrow> window_state c'"
| free: "window_state c \<Longrightarrow> j \<in> memreg_live (ci_windows c) \<Longrightarrow> acts (freeWindow (int j)) c tr r c' \<Longrightarrow> window_state c'"
| reserve: "window_state c \<Longrightarrow> int (memreg_capacity (ci_windows c)) < n \<Longrightarrow> n < 2147483648 \<Longrightarrow>
    acts (reserveWindows okw oku mx limit n) c tr (Inr ()) c' \<Longrightarrow> window_state c'"

lemma window_state_inv: "window_state c \<Longrightarrow> windows_inv c"
proof (induction rule: window_state.induct)
  case start then show ?case by (rule windows_inv_new)
next
  case create then show ?case by (blast intro: createWindow_inv)
next
  case free then show ?case by (blast intro: freeWindow_inv)
next
  case reserve then show ?case by (blast dest: reserveWindows_inv)
qed

lemma acts_free_window:
  "nat i < length (m_slots (ci_windows c)) \<Longrightarrow> m_slots (ci_windows c) ! nat i \<noteq> MPI_WIN_NULL \<Longrightarrow>
   acts (bindA (free_window c i) f) s tr r s' \<longleftrightarrow>
     (\<exists>a tr'. tr = (WinFree (m_slots (ci_windows c) ! nat i), a) # tr' \<and> acts (f ()) s tr' r s')"
  by (simp add: act_simps free_window_def memreg_lookup_ok)

lemma acts_free_windows:
  assumes "\<forall>i \<in> set is. nat i < length (m_slots (ci_windows c)) \<and> m_slots (ci_windows c) ! nat i \<noteq> MPI_WIN_NULL"
    and "acts (bindA (forA is (free_window c)) f) s tr r s'"
  shows "\<exists>t1 t2. tr = t1 @ t2 \<and> map fst t1 = map (\<lambda>i. WinFree (m_slots (ci_windows c) ! nat i)) is \<and> acts (f ()) s t2 r s'"
  using assms
proof (induction "is" arbitrary: tr)
  case Nil
  then show ?case by (simp add: act_simps)
next
  case (Cons i "is")
  then obtain a tr' where tr: "tr = (WinFree (m_slots (ci_windows c) ! nat i), a) # tr'"
    and t: "acts (bindA (forA is (free_window c)) f) s tr' r s'"
    by (auto simp: act_simps acts_free_window)
  then obtain t1 t2 where "tr' = t1 @ t2" "map fst t1 = map (\<lambda>i. WinFree (m_slots (ci_windows c) ! nat i)) is" "acts (f ()) s t2 r s'"
    using Cons.IH [OF _ t] Cons.prems(1) by auto
  then show ?case using tr by (intro exI [of _ "(WinFree (m_slots (ci_windows c) ! nat i), a) # t1"] exI [of _ t2]) simp
qed

lemma destroy_frees:
  assumes inv: "windows_inv c" and run: "acts (impl_destroy c) s ((Finalized, a) # tr) r s'" and live: "value_of a = 0"
  shows "r = Inr () \<and> (\<exists>ws. distinct ws \<and> set ws = memreg_live (ci_windows c) \<and>
    map fst tr = map (\<lambda>i. WinFree (m_slots (ci_windows c) ! i)) ws @ [FreeComm (ci_comm c)])"
proof -
  let ?w = "ci_windows c" and ?u = "ci_usedWindows c"
  note i = inv [unfolded windows_inv_def]
  have it: "set (sparse_iterate ?u) = int ` memreg_live ?w" "distinct (sparse_iterate ?u)"
    using sparse_iterate_set [of ?u] i by auto
  have ok: "\<forall>i \<in> set (sparse_iterate ?u). nat i < length (m_slots ?w) \<and> m_slots ?w ! nat i \<noteq> MPI_WIN_NULL"
    using it i memreg_live_less [of ?w] by auto
  have "acts (bindA (forA (sparse_iterate ?u) (free_window c)) (\<lambda>_. logA (FreeComm (ci_comm c)))) s tr r s'"
    using run live by (simp add: impl_destroy_def act_simps)
  from acts_free_windows [OF ok this] obtain t1 b where
    t: "tr = t1 @ [(FreeComm (ci_comm c), b)]" "map fst t1 = map (\<lambda>i. WinFree (m_slots ?w ! nat i)) (sparse_iterate ?u)" "r = Inr ()"
    by (auto simp: act_simps)
  have "distinct (map nat (sparse_iterate ?u))" using it by (auto simp: distinct_map inj_on_def)
  moreover have "set (map nat (sparse_iterate ?u)) = memreg_live ?w" using it by (auto simp: image_image)
  ultimately show ?thesis using t by (intro conjI exI [of _ "map nat (sparse_iterate ?u)"]) (auto simp: comp_def)
qed

section \<open>Blocks of a put\<close>

text \<open>The blocks of a transfer from an offset on: each takes up where the last one ends.\<close>

lemma upt_split_at: "i \<le> j \<Longrightarrow> j \<le> k \<Longrightarrow> [i..<k] = [i..<j] @ [j..<k]"
  by (metis le_add_diff_inverse upt_add_eq_append)

definition covers :: "nat \<Rightarrow> (nat \<times> nat) list \<Rightarrow> nat \<Rightarrow> nat \<Rightarrow> bool" where
  "covers mx parts lo hi \<longleftrightarrow>
     concat (map (\<lambda>(k, l). [k..<k + l]) parts) = [lo..<hi] \<and> (\<forall>(k, l) \<in> set parts. 0 < l \<and> l \<le> mx)"

lemma covers_Nil: "hi \<le> lo \<Longrightarrow> covers mx [] lo hi"
  by (simp add: covers_def)

lemma covers_Cons:
  "covers mx parts (lo + l) hi \<Longrightarrow> lo + l \<le> hi \<Longrightarrow> 0 < l \<Longrightarrow> l \<le> mx \<Longrightarrow> covers mx ((lo, l) # parts) lo hi"
  using upt_split_at [of lo "lo + l" hi] by (simp add: covers_def)

lemma window_put_blocks_cover:
  assumes mx: "0 < ci_maxMpiMsgSize c" "ci_maxMpiMsgSize c \<le> int_limit" and sz: "sz + ci_maxMpiMsgSize c < 2 ^ 64"
    and w: "memreg_lookup (ci_windows c) (to_size slot) = Inr w"
    and n: "sz \<le> offset + n * min (ci_maxMpiMsgSize c) sz"
    and run: "acts (window_put_blocks (Suc n) src pid slot dst sz offset) c tr r c'"
    and ok: "\<forall>e \<in> set tr. snd e \<noteq> Failed"
  shows "r = Inr () \<and> (\<exists>parts. covers (ci_maxMpiMsgSize c) parts offset sz \<and>
    map fst tr = map (\<lambda>(k, l). PutBytes w (add64 src k) pid (add64 dst k) (int l)) parts)"
  using n run ok
proof (induction n arbitrary: offset tr)
  case 0
  then show ?case using covers_Nil [of sz offset] by (auto simp: act_simps intro!: exI [of _ "[]"])
next
  case (Suc n)
  let ?m = "ci_maxMpiMsgSize c"
  show ?case
  proof (cases "offset < sz")
    case False
    then show ?thesis using Suc.prems covers_Nil [of sz offset] by (auto simp: act_simps intro!: exI [of _ "[]"])
  next
    case True
    let ?l = "min ?m (sz - offset)"
    have l: "to_int ?l = int ?l" using mx by (simp add: to_int_def int_limit_def)
    obtain a tr' where tr: "tr = (PutBytes w (add64 src offset) pid (add64 dst offset) (int ?l), a) # tr'" "a \<noteq> Failed"
      and t: "acts (window_put_blocks (Suc n) src pid slot dst sz (add64 offset (min ?m sz))) c tr' r c'"
      using Suc.prems(2,3) True w unfolding window_put_blocks.simps(2) [of "Suc n"]
      by (auto simp: act_simps l split: if_splits)
    have adv: "add64 offset (min ?m sz) = offset + min ?m sz" using True sz by (simp add: add64_def)
    have "sz \<le> offset + min ?m sz + n * min ?m sz" using Suc.prems(1) by simp
    from Suc.IH [OF this t [unfolded adv]] Suc.prems(3) tr obtain parts where
      r: "r = Inr ()" and p: "covers ?m parts (offset + min ?m sz) sz"
        "map fst tr' = map (\<lambda>(k, l). PutBytes w (add64 src k) pid (add64 dst k) (int l)) parts" by auto
    have "covers ?m parts (offset + ?l) sz"
    proof (cases "?m \<le> sz - offset")
      case True
      then have "min ?m sz = ?l" by simp
      then show ?thesis using p by simp
    next
      case False
      then have "sz \<le> offset + min ?m sz" "offset + ?l = sz" using True by auto
      then show ?thesis using p by (simp add: covers_def)
    qed
    then have "covers ?m ((offset, ?l) # parts) offset sz" by (rule covers_Cons) (use True mx in auto)
    then show ?thesis using r p tr by (intro conjI exI [of _ "(offset, ?l) # parts"]) auto
  qed
qed

section \<open>Lifetime of the library object\<close>

lemma free_windows_calls: "acts (forA is (free_window c)) s tr r s' \<Longrightarrow> fst ` set tr \<subseteq> range WinFree \<and> s' = s"
proof (induction "is" arbitrary: tr)
  case (Cons i "is")
  have one: "fst ` set t \<subseteq> range WinFree \<and> s1 = s" if "acts (free_window c i) s t q s1" for t q s1
    using that by (auto simp: free_window_def act_simps split: sum.splits if_splits)
  from Cons.prems consider e where "acts (free_window c i) s tr (Inl e) s'"
    | x s1 t1 t2 where "tr = t1 @ t2" "acts (free_window c i) s t1 (Inr x) s1" "acts (forA is (free_window c)) s1 t2 r s'"
    by (auto simp: acts_bindA)
  then show ?case
  proof cases
    case 1 then show ?thesis by (rule one)
  next
    case (2 x s1 t1 t2)
    have "s1 = s" "fst ` set t1 \<subseteq> range WinFree" using one [OF 2(2)] by auto
    moreover have "fst ` set t2 \<subseteq> range WinFree \<and> s' = s" by (rule Cons.IH) (use 2(3) calculation in simp)
    ultimately show ?thesis using 2(1) by (simp add: image_Un)
  qed
qed (simp add: act_simps)

lemma destroy_calls:
  assumes "acts (impl_destroy c) s tr r s'"
  shows "fst ` set tr \<subseteq> insert Finalized (range WinFree \<union> range FreeComm) \<and> s' = s"
proof -
  obtain a tl where tr: "tr = (Finalized, a) # tl" and t: "acts (if value_of a = 0
      then bindA (forA (sparse_iterate (ci_usedWindows c)) (free_window c)) (\<lambda>_. logA (FreeComm (ci_comm c))) else retA ()) s tl r s'"
    using assms by (auto simp: impl_destroy_def acts_bind_callA)
  then consider "value_of a \<noteq> 0" "tl = []" "s' = s"
    | e where "acts (forA (sparse_iterate (ci_usedWindows c)) (free_window c)) s tl (Inl e) s'"
    | t1 b s1 where "tl = t1 @ [(FreeComm (ci_comm c), b)]" "acts (forA (sparse_iterate (ci_usedWindows c)) (free_window c)) s t1 (Inr ()) s1" "s' = s1"
    by (auto simp: acts_bindA acts_logA_last acts_retA split: if_splits)
  then show ?thesis using tr by cases (auto dest!: free_windows_calls)
qed

lemma reset_comm_calls:
  "acts (reset_comm c) s tr r s' \<Longrightarrow> MpiFinalize \<notin> fst ` set tr"
  by (cases c) (auto simp: reset_comm_def act_simps dest!: destroy_calls)

lemma lib_new_initialises:
  "acts (lib_new auto ok m) s tr (Inr l) s' \<Longrightarrow> ml_selfInitialized l \<longleftrightarrow> InitThread \<in> fst ` set tr"
  by (auto simp: lib_new_def impl_dup_def Let_def act_simps split: if_splits prod.splits option.splits)

text \<open>
  C27: The library ends MPI exactly when it has started it: a destructor that returns asks as its last but one call whether MPI has ended
  already, and calls \<open>MPI_Finalize\<close> after that, as the very last call and only there, when MPI has not ended and the constructor
  called \<open>MPI_Init_thread\<close>.
\<close>

theorem lib_balanced:
  assumes "acts (lib_new auto ok m) s tr1 (Inr l) s'" and "acts lib_destroy (l\<lparr>ml_world := w\<rparr>) tr2 (Inr True) l2"
  shows "\<exists>t f tl. tr2 = t @ (Finalized, f) # tl \<and> MpiFinalize \<notin> fst ` set t \<and>
    map fst tl = (if InitThread \<in> fst ` set tr1 \<and> value_of f = 0 then [MpiFinalize] else [])"
proof -
  from assms(2) obtain t1 t2 t3 l1 l3 where tr: "tr2 = t1 @ t2 @ t3"
    and t: "acts (reset_comm w) (l\<lparr>ml_world := w\<rparr>) t1 (Inr ()) l1" "acts (reset_comm (ml_self l)) (l1\<lparr>ml_world := None\<rparr>) t2 (Inr ()) l3"
    and t3: "acts (bindA (callA Finalized) (\<lambda>r. bindA (if ml_selfInitialized l \<and> value_of r = 0 then logA MpiFinalize else retA ())
        (\<lambda>_. retA True))) (l3\<lparr>ml_self := None\<rparr>) t3 (Inr True) l2"
    by (auto simp: lib_destroy_def acts_bind_getA acts_if acts_bind_callA acts_retA acts_bind_modA acts_bindA [of "reset_comm _"] split: if_splits)
  obtain f tl where tl: "t3 = (Finalized, f) # tl" "map fst tl = (if ml_selfInitialized l \<and> value_of f = 0 then [MpiFinalize] else [])"
    using t3 by (auto simp: act_simps split: if_splits)
  have "MpiFinalize \<notin> fst ` set (t1 @ t2)" using reset_comm_calls [OF t(1)] reset_comm_calls [OF t(2)] by (simp add: image_Un)
  then show ?thesis using tr tl lib_new_initialises [OF assms(1)] by (intro exI [of _ "t1 @ t2"] exI [of _ f] exI [of _ tl]) auto
qed

text \<open>A process that never asked for the world, in an application that leaves MPI to the library.\<close>

definition demo_lib :: mpi_lib where
  "demo_lib = \<lparr>ml_world = None, ml_self = Some \<lparr>ci_comm = 3, ci_pid = 0, ci_nprocs = 1, ci_maxMpiMsgSize = 10,
      ci_windows = memreg_empty, ci_usedWindows = fst (sparse_new (\<lambda>_. True) 0 0)\<rparr>,
    ml_mpiInitialized = False, ml_selfInitialized = True, ml_fatalFailure = False, ml_supportsThreads = True\<rparr>"

lemma new_sparse_example: "sparse_new (\<lambda>_. True) 0 0 = (\<lparr>sp_min = 0, sp_max = 0, sp_size = 0, sp_domain = [0], sp_map = [0]\<rparr>, None)"
  by (simp add: sparse_new_def sparse_reset_def sparse_max_size_def resize_ok_def)

theorem lib_balanced_witness:
  "\<exists>t f tl. [(Finalized, Value 0), (FreeComm 3, Done), (Finalized, Value 0), (MpiFinalize, Done)] = t @ (Finalized, f) # tl \<and>
     MpiFinalize \<notin> fst ` set t \<and> map fst tl = (if value_of f = 0 then [MpiFinalize] else [])"
proof -
  have new: "acts (lib_new True (\<lambda>_. True) 10) ()
      [(Initialized, Value 0), (InitThread, Value 1), (DupComm 1, Handle 3), (RankComm 3, Value 0), (SizeComm 3, Value 1)] (Inr demo_lib) ()"
    by (simp add: lib_new_def impl_dup_def new_sparse_example act_simps value_of_def handle_of_def demo_lib_def MPI_THREAD_FUNNELED_def MPI_COMM_SELF_def)
  have "acts lib_destroy (demo_lib\<lparr>ml_world := None\<rparr>)
      [(Finalized, Value 0), (FreeComm 3, Done), (Finalized, Value 0), (MpiFinalize, Done)] (Inr True)
      (demo_lib\<lparr>ml_self := None\<rparr>)"
    by (simp add: lib_destroy_def reset_comm_def impl_destroy_def act_simps new_sparse_example sparse_iterate_def demo_lib_def value_of_def)
  from lib_balanced [OF new this] show ?thesis by simp
qed

section \<open>Scaled exchanges\<close>

lemma scale_exact:
  assumes "0 \<le> x" and "x * int sz \<le> int int_limit" and "0 < sz"
  shows "scale sz x = x * int sz" and "unscale sz (scale sz x) = x"
proof -
  have le: "x \<le> x * int sz" using assms mult_left_mono [of 1 "int sz" x] by simp
  then have x: "to_size x = nat x" using assms by (simp add: to_size_def int_limit_def)
  have n: "nat x * sz = nat (x * int sz)" using assms by (simp add: nat_mult_distrib)
  have b: "nat (x * int sz) < 2147483648" using assms(2) by (simp add: int_limit_def)
  show s: "scale sz x = x * int sz" using b assms by (simp add: scale_def x n to_int_def)
  have "to_size (x * int sz) = nat x * sz" using b le assms unfolding n by (simp add: to_size_def)
  then show "unscale sz (scale sz x) = x" using s le assms by (simp add: unscale_def to_int_def int_limit_def)
qed

lemma scaling_overflows: "scale 8 268435456 = - 2147483648 \<and> unscale 8 (scale 8 268435456) = - 268435456"
  by (simp add: scale_def unscale_def to_int_def to_size_def)

lemma scale_first_exact:
  assumes "\<forall>x \<in> set xs. 0 \<le> x \<and> x * int sz \<le> int int_limit" and "0 < sz" and "n = length xs"
  shows "scale_first (scale sz) n xs = map (\<lambda>x. x * int sz) xs" and "scale_first (unscale sz) n (scale_first (scale sz) n xs) = xs"
proof -
  have "map (unscale sz) (map (scale sz) xs) = xs" using assms by (auto simp: scale_exact(2) intro!: map_idI)
  then show "scale_first (unscale sz) n (scale_first (scale sz) n xs) = xs" using assms by (simp add: scale_first_def)
qed (use assms in \<open>simp add: scale_first_def scale_exact(1)\<close>)

text \<open>
  C31: A total exchange of elements passes MPI the counts and offsets in bytes, as long as these fit an \<open>int\<close>, and gives its caller back
  the counts and offsets in elements that it was called with.
\<close>

theorem typed_exchange_scales:
  assumes "acts (allToAll_typed sz c so sc ro rc) s tr (Inr q) s'" and "0 < sz"
    and "\<forall>x \<in> set so \<union> set sc \<union> set ro \<union> set rc. 0 \<le> x \<and> x * int sz \<le> int int_limit"
    and "(SizeComm (ci_comm c), Value n) \<in> set tr" and "{length so, length sc, length ro, length rc} = {nat n}"
  shows "q = (so, sc, ro, rc) \<and> (\<exists>a. (AlltoallvBytes (map (\<lambda>x. x * int sz) sc) (map (\<lambda>x. x * int sz) so)
    (map (\<lambda>x. x * int sz) rc) (map (\<lambda>x. x * int sz) ro) (ci_comm c), a) \<in> set tr)"
proof -
  have len: "length so = nat n" "length sc = nat n" "length ro = nat n" "length rc = nat n"
    using assms(5) by auto
  have up: "scale_first (scale sz) (nat n) xs = map (\<lambda>x. x * int sz) xs \<and>
      scale_first (unscale sz) (nat n) (map (\<lambda>x. x * int sz) xs) = xs" if "xs \<in> {so, sc, ro, rc}" for xs
  proof -
    have "\<forall>x \<in> set xs. 0 \<le> x \<and> x * int sz \<le> int int_limit" "nat n = length xs" using that assms(3) len by auto
    from scale_first_exact [OF this(1) assms(2) this(2)] show ?thesis by simp
  qed
  show ?thesis using assms(1,4)
    by (auto simp: allToAll_typed_def comm_nprocs_def comm_allToAllv_def act_simps value_of_def Let_def len up split: if_splits)
qed

theorem typed_exchange_scales_witness:
  "\<exists>a. (AlltoallvBytes [8, 16] [0, 8] [24, 8] [0, 24] 5, a) \<in>
     set [(SizeComm 5, Value 2), (AlltoallvBytes [8, 16] [0, 8] [24, 8] [0, 24] 5, Done)]"
proof -
  let ?c = "\<lparr>ci_comm = 5, ci_pid = 0, ci_nprocs = 2, ci_maxMpiMsgSize = 10,
      ci_windows = memreg_empty, ci_usedWindows = sparse_empty\<rparr>"
  let ?tr = "[(SizeComm 5, Value 2), (AlltoallvBytes [8, 16] [0, 8] [24, 8] [0, 24] 5, Done)]"
  have "acts (allToAll_typed 8 ?c [0, 1] [1, 2] [0, 3] [3, 1]) () ?tr (Inr ([0, 1], [1, 2], [0, 3], [3, 1])) ()"
    by (simp add: allToAll_typed_def comm_nprocs_def comm_allToAllv_def act_simps value_of_def Let_def
        scale_first_def scale_def unscale_def to_int_def to_size_def numeral_2_eq_2)
  from typed_exchange_scales [OF this, of 2] show ?thesis by (simp add: int_limit_def)
qed

section \<open>Transfers and windows\<close>

text \<open>
  When MPI accepts the calls, \<open>put\<close> to an existing window copies every byte of the transfer exactly once and in order, in blocks of at most the
  configured size, and it ends: one round more than the size has bytes is always enough.
\<close>

theorem put_covers:
  assumes "acts (window_put (sz + 2) src pid slot dst sz) c tr r c'" and "\<forall>e \<in> set tr. snd e \<noteq> Failed"
    and "0 < ci_maxMpiMsgSize c" and "ci_maxMpiMsgSize c \<le> int_limit" and "sz + ci_maxMpiMsgSize c < 2 ^ 64"
    and "memreg_lookup (ci_windows c) (to_size slot) = Inr w"
  shows "r = Inr () \<and> (\<exists>parts. concat (map (\<lambda>(k, l). [k..<k + l]) parts) = [0..<sz] \<and>
    (\<forall>(k, l) \<in> set parts. 0 < l \<and> l \<le> ci_maxMpiMsgSize c) \<and>
    map fst tr = map (\<lambda>(k, l). PutBytes w (add64 src k) pid (add64 dst k) (int l)) parts)"
proof -
  have n: "sz \<le> 0 + (sz + 1) * min (ci_maxMpiMsgSize c) sz"
  proof (cases "sz = 0")
    case False
    then have "1 \<le> min (ci_maxMpiMsgSize c) sz" using assms(3) by simp
    then have "(sz + 1) * 1 \<le> (sz + 1) * min (ci_maxMpiMsgSize c) sz" by (rule mult_le_mono2)
    then show ?thesis by simp
  qed simp
  have run: "acts (window_put_blocks (Suc (sz + 1)) src pid slot dst sz 0) c tr r c'"
    using assms(1) by (simp only: window_put_def add_Suc_right [symmetric] numeral_2_eq_2 One_nat_def add_2_eq_Suc')
  from window_put_blocks_cover [OF assms(3,4,5,6) n run assms(2)] show ?thesis by (auto simp: covers_def)
qed

definition demo_windows :: comm_impl where
  "demo_windows = \<lparr>ci_comm = 3, ci_pid = 0, ci_nprocs = 2, ci_maxMpiMsgSize = 2,
     ci_windows = \<lparr>m_slots = [9], m_free = [], m_free_capacity = 1, m_minNewSlotNr = 1\<rparr>,
     ci_usedWindows = \<lparr>sp_min = 0, sp_max = 1, sp_size = 1, sp_domain = [0, 1], sp_map = [0, 1]\<rparr>\<rparr>"

theorem put_covers_witness:
  "\<exists>parts. concat (map (\<lambda>(k, l). [k..<k + l]) parts) = [0..<(3 :: nat)] \<and>
    (\<forall>(k, l) \<in> set parts. 0 < l \<and> l \<le> 2) \<and>
    map fst [(PutBytes 9 100 1 40 2, Done), (PutBytes 9 102 1 42 1, Done)]
      = map (\<lambda>(k, l). PutBytes 9 (add64 100 k) 1 (add64 40 k) (int l)) parts"
proof -
  have rounds: "(3 :: nat) + 2 = Suc (Suc (Suc (Suc (Suc 0))))" by simp
  have "acts (window_put (3 + 2) 100 1 0 40 3) demo_windows [(PutBytes 9 100 1 40 2, Done), (PutBytes 9 102 1 42 1, Done)] (Inr ()) demo_windows"
    unfolding window_put_def rounds by (simp add: act_simps demo_windows_def memreg_lookup_def to_size_def to_int_def add64_def)
  from put_covers [OF this, of 9] show ?thesis
    by (simp add: demo_windows_def int_limit_def memreg_lookup_def to_size_def)
qed



end
