(* ===== verification/Startup.thy ===== *)
theory Startup imports Process_Group Mpi_Lib Time_Double "HOL-Library.Sublist" begin

text \<open>
  How a program gets into LPF: the initializer that runs before \<open>main\<close> (\<open>src/MPI/init.cpp\<close>) with its handling of the arguments of the
  program, the root of the run-time (\<open>Interface::initRoot\<close> and \<open>doProbe\<close> of \<open>src/MPI/interface.cpp\<close>), and the functions of
  \<open>src/MPI/core.cpp\<close> that make and end a connection and ask for the machine.  The parts that these functions put together make
  calls of different kinds; here they are parameters, which stand for the definitions of the other theories.
\<close>

section \<open>The arguments of the program\<close>

text \<open>
  The memory of the argument strings: a string lies in a block, of which \<open>ag_cap\<close> is the number of bytes.  \<open>ag_argv\<close> is the array
  \<open>argv\<close>: \<open>argc\<close> pointers and the null pointer.  A string has no character zero.
\<close>

record args =
  ag_text :: "nat \<Rightarrow> string"
  ag_cap :: "nat \<Rightarrow> nat"
  ag_argv :: "nat option list"

definition arg_text :: "args \<Rightarrow> nat option \<Rightarrow> fault + string" where
  "arg_text g p = (case p of None \<Rightarrow> Inl NullDereference | Some b \<Rightarrow> Inr (ag_text g b))"

text \<open>The texts of the first \<open>n\<close> pointers of an array.\<close>

primrec arg_texts :: "args \<Rightarrow> nat option list \<Rightarrow> nat \<Rightarrow> fault + string list" where
  "arg_texts g a 0 = Inr []"
| "arg_texts g a (Suc n) =
     bindE (arg_texts g a n) (\<lambda>ts. bindE (vec_at a n) (\<lambda>p. bindE (arg_text g p) (\<lambda>t. Inr (ts @ [t]))))"

text \<open>\<open>strncpy\<close> fills up with zeros, and writes no zero when the text is not shorter than the length.\<close>

definition strncpy_arg :: "args \<Rightarrow> nat option \<Rightarrow> string \<Rightarrow> nat \<Rightarrow> fault + args" where
  "strncpy_arg g p t n =
     (case p of None \<Rightarrow> Inl NullDereference
      | Some b \<Rightarrow> if ag_cap g b < n then Inl OutOfBounds
          else Inr (g\<lparr>ag_text := (ag_text g)(b := if length t < n then t else take n t @ drop n (ag_text g b))\<rparr>))"

text \<open>The places for the new arguments: an argument that is too long for a place leaves it empty and tries the next one.\<close>

primrec skip_places :: "nat \<Rightarrow> nat list \<Rightarrow> string list \<Rightarrow> string list \<times> nat list" where
  "skip_places sz [] modified = (modified, [])"
| "skip_places sz (l # ls) modified = (if sz > l then skip_places sz ls (modified @ ['''']) else (modified, ls))"

primrec place_args :: "string list \<Rightarrow> nat list \<Rightarrow> string list \<Rightarrow> string list" where
  "place_args [] arglengths modified = modified"
| "place_args (t # ts) arglengths modified =
     (let (m, ls) = skip_places (length t) arglengths modified in place_args ts ls (m @ [t]))"

primrec copy_back :: "nat \<Rightarrow> string list \<Rightarrow> nat list \<Rightarrow> args \<Rightarrow> fault + args" where
  "copy_back 0 modified arglengths g = Inr g"
| "copy_back (Suc n) modified arglengths g =
     bindE (copy_back n modified arglengths g) (\<lambda>g.
     bindE (vec_at (ag_argv g) n) (\<lambda>p. strncpy_arg g p (modified ! n) (arglengths ! n)))"

text \<open>The copy when \<open>MPI_Init\<close> has changed the arguments; the result \<open>None\<close> is the call of \<open>abort\<close>.\<close>

definition restore_args :: "nat \<Rightarrow> nat list \<Rightarrow> nat option list \<Rightarrow> nat \<Rightarrow> args \<Rightarrow> fault + args option" where
  "restore_args argc arglengths new_argv new_argc g =
     bindE (arg_texts g new_argv new_argc) (\<lambda>ts.
     let modified = place_args ts arglengths [] in
     if length modified > argc then Inr None
     else bindE (copy_back argc (modified @ replicate (argc - length modified) '''') arglengths g) (\<lambda>g. Inr (Some g)))"

section \<open>The initializer\<close>

definition engine_is_MPI :: "string option \<Rightarrow> bool" where
  "engine_is_MPI engine =
     (let e = (case engine of None \<Rightarrow> ''<none set>'' | Some e \<Rightarrow> e)
      in e = ''<none set>'' \<or> e = ''mpirma'' \<or> e = ''mpimsg'' \<or> e = ''ibverbs'' \<or> e = ''hybrid'')"

text \<open>
  What \<open>initRoot\<close> does with the arguments: an exception, or the number of arguments that are left, and the array they are in, which is \<open>argv\<close>
  itself when it is \<open>None\<close>.  \<open>argc\<close> counts the pointers of \<open>argv\<close>.
\<close>

type_synonym init_root = "nat \<Rightarrow> args \<Rightarrow> fault + nat \<times> nat option list option \<times> args"

definition mpi_initializer :: "string option \<Rightarrow> bool \<Rightarrow> init_root \<Rightarrow> bool \<Rightarrow> nat \<Rightarrow> args \<Rightarrow> fault + bool \<times> args option" where
  "mpi_initializer engine auto initRoot has_run argc g =
     (if has_run \<or> \<not> engine_is_MPI engine then Inr (has_run, Some g)
      else if \<not> auto then Inr (True, Some g)
      else bindE (ASSERT (argc > 0)) (\<lambda>_.
        bindE (arg_texts g (ag_argv g) argc) (\<lambda>ts.
        let arglengths = map length ts in
        case initRoot argc g of
          Inl e \<Rightarrow> if is_exception e then Inr (True, None) else Inl e
        | Inr (new_argc, new_argv, g) \<Rightarrow>
            bindE (ASSERT (new_argc \<noteq> 0)) (\<lambda>_.
            bindE (ASSERT (new_argc \<le> argc)) (\<lambda>_.
            if new_argc = argc \<and> new_argv = None then Inr (True, Some g)
            else bindE (restore_args argc arglengths (case new_argv of None \<Rightarrow> ag_argv g | Some a \<Rightarrow> a) new_argc g)
              (\<lambda>r. Inr (True, r)))))))"

section \<open>The root\<close>

text \<open>
  \<open>doProbe\<close> only logs that the measurement failed; \<open>initRoot\<close> leads every process but the first into the loop of a waiting process, and
  ends it when it comes out of there.
\<close>

definition doProbe :: "('q, 'r, 's, err_t) act \<Rightarrow> ('q, 'r, 's, unit) act" where
  "doProbe hook_setMachineParams = bindA hook_setMachineParams (\<lambda>rc. retA ())"

definition initRoot ::
  "('q, 'r, 's, unit) act \<Rightarrow> ('q, 'r, 's, 'c) act \<Rightarrow> ('q, 'r, 's, 'c) act \<Rightarrow> ('c \<Rightarrow> ('q, 'r, 's, err_t) act) \<Rightarrow>
   ('c \<Rightarrow> ('q, 'r, 's, 'p) act) \<Rightarrow> ('c \<Rightarrow> 'p \<Rightarrow> ('q, 'r, 's, 'i) act) \<Rightarrow> ('c \<Rightarrow> ('q, 'r, 's, int) act) \<Rightarrow>
   ('q, 'r, 's, 'i option) act" where
  "initRoot lib world self hook_setMachineParams new_process new_interface pid =
     bindA lib (\<lambda>_.
     bindA world (\<lambda>w.
     bindA (doProbe (hook_setMachineParams w)) (\<lambda>_.
     bindA (new_process w) (\<lambda>rootProcess.
     bindA self (\<lambda>c.
     bindA (new_interface c rootProcess) (\<lambda>root.
     bindA (pid w) (\<lambda>p.
     if 0 \<noteq> p then retA None else retA (Some root))))))))"

section \<open>Functions of the C interface\<close>

text \<open>The time limit in milliseconds is turned into a time through a \<open>double\<close>.\<close>

definition tcp_timeout :: "int \<Rightarrow> time option" where
  "tcp_timeout timeout = fromSeconds (d_div (d_of_int timeout) (d_of_int 1000))"

definition lpf_mpi_initialize_over_tcp ::
  "('q, 'r, 's, unit) act \<Rightarrow> (time \<Rightarrow> ('q, 'r, 's, nat) act) \<Rightarrow> (nat \<Rightarrow> ('q, 'r, 's, 'w) act) \<Rightarrow> (nat \<Rightarrow> ('q, 'r, 's, bool) act) \<Rightarrow>
   ('w \<Rightarrow> ('q, 'r, 's, err_t) act) \<Rightarrow> ('q, 'r, 's, unit) act \<Rightarrow> int \<Rightarrow> ('q, 'r, 's, err_t \<times> 'w option) act" where
  "lpf_mpi_initialize_over_tcp lib join new_wcomm free_comm hook_setMachineParams set_fatal timeout =
     catchA
       (bindA lib (\<lambda>_.
        case tcp_timeout timeout of
          None \<Rightarrow> throwA Unrepresentable
        | Some t \<Rightarrow>
            bindA (join t) (\<lambda>comm.
            bindA (new_wcomm comm) (\<lambda>wcomm.
            bindA (free_comm comm) (\<lambda>freed.
            if \<not> freed then retA (LPF_ERR_FATAL, None)
            else bindA (doProbe (hook_setMachineParams wcomm)) (\<lambda>_. retA (LPF_SUCCESS, Some wcomm)))))))
       (\<lambda>e. if e = BadAlloc then retA (LPF_ERR_OUT_OF_MEMORY, None)
            else bindA lib (\<lambda>_. bindA set_fatal (\<lambda>_. retA (LPF_ERR_FATAL, None))))"

text \<open>A communicator of the application is duplicated; an exception leaves the function.\<close>

definition lpf_mpi_initialize_with_mpicomm :: "(nat \<Rightarrow> bool) \<Rightarrow> nat \<Rightarrow> nat \<Rightarrow> ('s, err_t \<times> comm_impl) mpi_act" where
  "lpf_mpi_initialize_with_mpicomm ok maxMsg h =
     bindA (if ok 2 then impl_dup ok maxMsg h else throwA BadAlloc) (\<lambda>c. retA (LPF_SUCCESS, c))"

definition lpf_mpi_finalize :: "comm_impl option \<Rightarrow> ('s, err_t) mpi_act" where
  "lpf_mpi_finalize c = bindA (reset_comm c) (\<lambda>_. retA LPF_SUCCESS)"

text \<open>The machine is an output parameter: \<open>None\<close> leaves it as it was.\<close>

definition lpf_probe :: "nat \<Rightarrow> interface \<times> process \<Rightarrow> err_t \<times> machine_t option" where
  "lpf_probe nprocs s =
     (LPF_SUCCESS, if isAborted (fst s) = 0 then Some (interface_probe nprocs s) else None)"

section \<open>Placing the arguments\<close>

text \<open>An argument fits into a place when it is not longer than what was there.\<close>

definition fits :: "string \<Rightarrow> nat \<Rightarrow> bool" where
  "fits t l \<longleftrightarrow> length t \<le> l"

lemma skip_places_run:
  assumes "list_emb (\<le>) (map length (t # ts)) ls"
  shows "\<exists>ls1 l ls2. ls = ls1 @ l # ls2 \<and> fits t l \<and> list_emb (\<le>) (map length ts) ls2 \<and>
    skip_places (length t) ls m = (m @ replicate (length ls1) [], ls2)"
  using assms
proof (induction ls arbitrary: m rule: list.induct)
  case (Cons l ls)
  show ?case
  proof (cases "fits t l")
    case True
    have "list_emb (\<le>) (map length ts) ls" using Cons.prems
      by (auto dest!: list_emb_ConsD simp: Cons_eq_append_conv intro!: list_emb_append2 list_emb.list_emb_Cons)
    then show ?thesis using True by (intro exI [of _ "[]"] exI [of _ l] exI [of _ ls]) (simp add: fits_def)
  next
    case False
    then have "list_emb (\<le>) (map length (t # ts)) ls" using Cons.prems by (auto simp: fits_def elim: list_emb.cases)
    from Cons.IH [OF this, of "m @ [[]]"] obtain ls1 k ls2 where
      "ls = ls1 @ k # ls2" "fits t k" "list_emb (\<le>) (map length ts) ls2"
      "skip_places (length t) ls (m @ [[]]) = ((m @ [[]]) @ replicate (length ls1) [], ls2)" by blast
    then show ?thesis using False
      by (intro exI [of _ "l # ls1"] exI [of _ k] exI [of _ ls2]) (simp add: fits_def)
  qed
qed simp

lemma place_args_run:
  assumes "list_emb (\<le>) (map length ts) ls"
  shows "\<exists>xs. place_args ts ls m = m @ xs \<and> length xs \<le> length ls \<and> (\<forall>i < length xs. fits (xs ! i) (ls ! i)) \<and>
    filter (\<lambda>t. t \<noteq> []) xs = filter (\<lambda>t. t \<noteq> []) ts"
  using assms
proof (induction ts arbitrary: ls m rule: list.induct)
  case (Cons t ts)
  obtain ls1 l ls2 where ls: "ls = ls1 @ l # ls2" "fits t l" and e: "list_emb (\<le>) (map length ts) ls2"
    and s: "skip_places (length t) ls m = (m @ replicate (length ls1) [], ls2)"
    using skip_places_run [OF Cons.prems] by blast
  obtain xs where xs: "place_args ts ls2 ((m @ replicate (length ls1) []) @ [t]) = ((m @ replicate (length ls1) []) @ [t]) @ xs"
      "length xs \<le> length ls2" "\<forall>i < length xs. fits (xs ! i) (ls2 ! i)" "filter (\<lambda>t. t \<noteq> []) xs = filter (\<lambda>t. t \<noteq> []) ts"
    using Cons.IH [OF e] by blast
  let ?ys = "replicate (length ls1) [] @ t # xs"
  have "fits (?ys ! i) (ls ! i)" if "i < length ?ys" for i
  proof (cases "i < length ls1")
    case False
    then show ?thesis using xs(3) ls that by (cases "i - length ls1") (auto simp: nth_append)
  qed (simp add: nth_append fits_def)
  then show ?case using xs ls s by (intro exI [of _ ?ys]) auto
qed simp

section \<open>Copying the arguments back\<close>

text \<open>The strings of \<open>argv\<close> lie in blocks of their own that are large enough.\<close>

definition args_ok :: "nat \<Rightarrow> args \<Rightarrow> bool" where
  "args_ok argc g \<longleftrightarrow> argc \<le> length (ag_argv g) \<and> None \<notin> set (take argc (ag_argv g)) \<and> distinct (take argc (ag_argv g)) \<and>
     (\<forall>b. Some b \<in> set (take argc (ag_argv g)) \<longrightarrow> length (ag_text g b) < ag_cap g b)"

definition argument :: "args \<Rightarrow> nat \<Rightarrow> string" where
  "argument g i = ag_text g (the (ag_argv g ! i))"

lemma args_ok_nth:
  assumes "args_ok argc g" and "i < argc"
  shows "\<exists>b. ag_argv g ! i = Some b \<and> length (ag_text g b) < ag_cap g b"
proof -
  have "take argc (ag_argv g) ! i \<in> set (take argc (ag_argv g))" using assms by (intro nth_mem) (simp add: args_ok_def)
  then show ?thesis using assms by (cases "ag_argv g ! i") (auto simp: args_ok_def)
qed

lemma args_ok_inj:
  assumes "args_ok argc g" and "i < argc" and "j < argc"
  shows "ag_argv g ! i = ag_argv g ! j \<longleftrightarrow> i = j"
  using assms nth_eq_iff_index_eq [of "take argc (ag_argv g)" i j] by (simp add: args_ok_def)

lemma arg_texts_ok: "args_ok argc g \<Longrightarrow> n \<le> argc \<Longrightarrow> arg_texts g (ag_argv g) n = Inr (map (argument g) [0..<n])"
proof (induction n)
  case (Suc n)
  obtain b where "ag_argv g ! n = Some b" using args_ok_nth [OF Suc.prems(1), of n] Suc.prems(2) by auto
  then show ?case using Suc by (auto simp: args_ok_def arg_text_def argument_def)
qed simp

lemma strncpy_fits:
  assumes "fits t (length (ag_text g b))" and "length (ag_text g b) < ag_cap g b"
  shows "strncpy_arg g (Some b) t (length (ag_text g b)) = Inr (g\<lparr>ag_text := (ag_text g)(b := t)\<rparr>)"
  using assms by (auto simp: strncpy_arg_def fits_def)

lemma copy_back_run:
  assumes ok: "args_ok argc g" and lens: "arglengths = map (\<lambda>i. length (argument g i)) [0..<argc]"
    and ms: "length ms = argc" "\<forall>i < argc. fits (ms ! i) (length (argument g i))" and n: "n \<le> argc"
  shows "\<exists>h. copy_back n ms arglengths g = Inr h \<and> ag_argv h = ag_argv g \<and> ag_cap h = ag_cap g \<and>
    (\<forall>i < argc. argument h i = (if i < n then ms ! i else argument g i))"
  using n
proof (induction n)
  case (Suc n)
  then obtain h where h: "copy_back n ms arglengths g = Inr h" "ag_argv h = ag_argv g" "ag_cap h = ag_cap g"
      "\<forall>i < argc. argument h i = (if i < n then ms ! i else argument g i)" by auto
  obtain b where b: "ag_argv g ! n = Some b" "length (ag_text g b) < ag_cap g b"
    using args_ok_nth [OF ok, of n] Suc.prems by auto
  have same: "ag_text h b = ag_text g b" using h(4) [rule_format, of n] Suc.prems b h(2) by (simp add: argument_def)
  let ?h = "h\<lparr>ag_text := (ag_text h)(b := ms ! n)\<rparr>"
  have "strncpy_arg h (Some b) (ms ! n) (arglengths ! n) = Inr ?h"
    using strncpy_fits [of "ms ! n" h b] ms(2) [rule_format, of n] Suc.prems b h(3) same lens by (simp add: argument_def)
  moreover have "argument ?h i = (if i < Suc n then ms ! i else argument g i)" if i: "i < argc" for i
  proof -
    obtain c where c: "ag_argv g ! i = Some c" using args_ok_nth [OF ok i] by blast
    have "c = b \<longleftrightarrow> i = n" using args_ok_inj [OF ok i, of n] Suc.prems b c by auto
    then show ?thesis using h(4) i b c h(2) by (auto simp: argument_def less_Suc_eq)
  qed
  moreover have "n < length (ag_argv g)" using ok Suc.prems by (simp add: args_ok_def)
  ultimately show ?case using h b by (intro exI [of _ ?h]) simp
qed simp

lemma subseq_fits: "subseq ts us \<Longrightarrow> list_emb (\<le>) (map length ts) (map length us)"
  by (induction rule: list_emb.induct) (auto simp: fits_def)

text \<open>
  C28: When \<open>MPI_Init\<close> takes arguments away and hands the others over in an array of its own, the program finds the others in \<open>argv\<close>, in their order and
  with empty arguments in between, and no write leaves the memory of the arguments.
\<close>

theorem arguments_restored:
  assumes "args_ok argc g" and "arg_texts g new_argv new_argc = Inr ts"
    and "subseq ts (map (argument g) [0..<argc])"
  shows "\<exists>h. restore_args argc (map length (map (argument g) [0..<argc])) new_argv new_argc g = Inr (Some h) \<and>
    filter (\<lambda>t. t \<noteq> []) (map (argument h) [0..<argc]) = filter (\<lambda>t. t \<noteq> []) ts"
proof -
  let ?l = "map (\<lambda>i. length (argument g i)) [0..<argc]"
  have "list_emb (\<le>) (map length ts) ?l" using subseq_fits [OF assms(3)] by (simp add: comp_def)
  from place_args_run [OF this, of "[]"] obtain xs where xs: "place_args ts ?l [] = xs" "length xs \<le> argc" "\<forall>i < length xs. fits (xs ! i) (?l ! i)"
      "filter (\<lambda>t. t \<noteq> []) xs = filter (\<lambda>t. t \<noteq> []) ts" by auto
  let ?ms = "xs @ replicate (argc - length xs) []"
  have "\<forall>i < argc. fits (?ms ! i) (length (argument g i))" using xs(2,3) by (auto simp: nth_append fits_def)
  from copy_back_run [OF assms(1) refl _ this order_refl] xs(2) obtain h where
    h: "copy_back argc ?ms ?l g = Inr h" "\<forall>i < argc. argument h i = ?ms ! i" by auto
  have "map (argument h) [0..<argc] = ?ms" using h(2) xs(2) by (intro nth_equalityI) auto
  then show ?thesis using h(1) xs assms(2) by (intro exI [of _ h]) (simp add: restore_args_def comp_def Let_def)
qed

definition demo_args :: args where
  "demo_args = \<lparr>ag_text = (\<lambda>b. if b = 0 then ''app'' else if b = 1 then ''-mpi'' else ''in''), ag_cap = (\<lambda>b. 8),
     ag_argv = [Some 0, Some 1, Some 2, None]\<rparr>"

theorem arguments_restored_witness:
  "\<exists>h. restore_args 3 [3, 4, 2] [Some 0, Some 2] 2 demo_args = Inr (Some h) \<and>
     filter (\<lambda>t. t \<noteq> []) (map (argument h) [0..<3]) = [''app'', ''in'']"
proof -
  have upt: "[0..<3] = [0, 1, 2 :: nat]" by (simp add: upt_rec)
  have "args_ok 3 demo_args" by (simp add: args_ok_def demo_args_def numeral_3_eq_3)
  moreover have "arg_texts demo_args [Some 0, Some 2] 2 = Inr [''app'', ''in'']"
    by (simp add: demo_args_def arg_text_def numeral_2_eq_2)
  moreover have "subseq [''app'', ''in''] (map (argument demo_args) [0..<3])"
    by (simp add: upt demo_args_def argument_def)
  moreover have "map length (map (argument demo_args) [0..<3]) = [3, 4, 2]"
    by (simp add: upt demo_args_def argument_def)
  ultimately show ?thesis using arguments_restored [of 3 demo_args "[Some 0, Some 2]" 2 "[''app'', ''in'']"] by simp
qed



section \<open>Connecting over TCP\<close>

text \<open>
  Whatever the parts of the set-up do, \<open>lpf_mpi_initialize_over_tcp\<close> hands a communicator to its caller exactly when it answers
  \<open>LPF_SUCCESS\<close>, and no exception leaves it unless the library or the marking of the failure throws again in the handler.
\<close>

theorem over_tcp_outcome:
  assumes "acts (lpf_mpi_initialize_over_tcp lib join new_wcomm free_comm hook_probe set_fatal timeout) s tr r s'"
    and "\<And>s tr e s'. \<not> acts set_fatal s tr (Inl e) s'" and "\<And>s tr e s'. acts lib s tr (Inl e) s' \<Longrightarrow> \<not> is_exception e"
  shows "case r of Inl e \<Rightarrow> \<not> is_exception e | Inr (rc, init) \<Rightarrow> (init \<noteq> None) = (rc = LPF_SUCCESS)"
proof -
  let ?m = "bindA lib (\<lambda>_. case tcp_timeout timeout of None \<Rightarrow> throwA Unrepresentable
      | Some t \<Rightarrow> bindA (join t) (\<lambda>comm. bindA (new_wcomm comm) (\<lambda>wcomm. bindA (free_comm comm) (\<lambda>freed.
          if \<not> freed then retA (LPF_ERR_FATAL, None)
          else bindA (doProbe (hook_probe wcomm)) (\<lambda>_. retA (LPF_SUCCESS, Some wcomm))))))"
  have codes: "LPF_ERR_FATAL \<noteq> LPF_SUCCESS" "LPF_ERR_OUT_OF_MEMORY \<noteq> LPF_SUCCESS"
    by (simp_all add: LPF_ERR_FATAL_def LPF_SUCCESS_def LPF_ERR_OUT_OF_MEMORY_def)
  have body: "(init \<noteq> None) = (rc = LPF_SUCCESS)" if "acts ?m s tr (Inr (rc, init)) s'" for rc init
    using that codes by (auto simp: acts_bindA acts_if acts_retA acts_throwA split: option.splits if_splits)
  from assms(1) consider x where "r = Inr x" "acts ?m s tr (Inr x) s'"
    | e where "r = Inl e" "\<not> is_exception e"
    | e s1 t2 where "is_exception e" "acts (if e = BadAlloc then retA (LPF_ERR_OUT_OF_MEMORY, None)
            else bindA lib (\<lambda>_. bindA set_fatal (\<lambda>_. retA (LPF_ERR_FATAL, None)))) s1 t2 r s'"
    unfolding lpf_mpi_initialize_over_tcp_def acts_catchA by blast
  then show ?thesis
  proof cases
    case (1 x) then show ?thesis using body by (cases x) auto
  next
    case (3 e s1 t2)
    then show ?thesis using codes assms(2,3) by (auto simp: acts_bindA acts_retA split: if_splits)
  qed simp
qed

theorem over_tcp_outcome_witness:
  "case Inr (LPF_ERR_FATAL, None :: nat option) of Inl e \<Rightarrow> \<not> is_exception e | Inr (rc, init) \<Rightarrow> (init \<noteq> None) = (rc = LPF_SUCCESS)"
proof -
  have wait: "tcp_timeout 0 = Some (Time 0 0)"
    by (simp add: tcp_timeout_def d_of_int_exact fromSeconds_whole [of 0, simplified])
  have "acts (lpf_mpi_initialize_over_tcp (retA ()) (\<lambda>_. throwA (ErrorThrown ''refused'')) (\<lambda>_. retA (0 :: nat)) (\<lambda>_. retA True)
      (\<lambda>_. retA LPF_SUCCESS) (modA (\<lambda>n. n + 1)) 0) (0 :: nat) ([] :: (unit \<times> unit) list) (Inr (LPF_ERR_FATAL, None)) 1"
    by (simp add: lpf_mpi_initialize_over_tcp_def wait acts_catchA act_simps)
  from over_tcp_outcome [OF this] show ?thesis by (simp add: act_simps)
qed

end
