(* ===== verification/Rng.thy ===== *)
theory Rng imports Double begin

text \<open>
  The random numbers of \<open>src/common/rng.c\<close>: a linear congruential generator modulo \<open>2 ^ 64\<close>, and the function that gives every process
  of a machine its own part of the sequence.  A \<open>uint64_t\<close> is a \<open>nat\<close>, with the wrap-around written out.
\<close>

section \<open>The generator\<close>

text \<open>A conversion of a \<open>double\<close> to \<open>uint64_t\<close> drops the fraction, and has no value when the result does not fit.\<close>

definition d_to_uint64 :: "double \<Rightarrow> nat option" where
  "d_to_uint64 d = (case d of Fin x \<Rightarrow> if 0 \<le> truncate x \<and> truncate x < 2 ^ 64 then Some (nat (truncate x)) else None | _ \<Rightarrow> None)"

record rng_state =
  rng_multiplier :: nat
  rng_increment :: nat
  rng_value :: nat

definition rng_create :: "nat \<Rightarrow> rng_state" where
  "rng_create seed = \<lparr>rng_multiplier = 6364136223846793005, rng_increment = 1442695040888963407, rng_value = seed\<rparr>"

definition rng_next :: "rng_state \<Rightarrow> nat \<times> rng_state" where
  "rng_next s = (let v = add64 (mul64 (rng_multiplier s) (rng_value s)) (rng_increment s) in (v, s\<lparr>rng_value := v\<rparr>))"

text \<open>The loop of \<open>int_pow\<close> runs \<open>n\<close> times, although the exponent is halved in every round.\<close>

primrec int_pow_loop :: "nat \<Rightarrow> nat \<Rightarrow> nat \<Rightarrow> nat \<Rightarrow> nat" where
  "int_pow_loop 0 y pw m = y"
| "int_pow_loop (Suc n) y pw m = int_pow_loop n (if m mod 2 = 1 then mul64 y pw else y) (mul64 pw pw) (m div 2)"

definition int_pow :: "nat \<Rightarrow> nat \<Rightarrow> nat" where
  "int_pow x n = int_pow_loop n 1 x n"

text \<open>The product of two numbers in two halves, as the code computes it.\<close>

definition mult64 :: "nat \<Rightarrow> nat \<Rightarrow> nat \<times> nat" where
  "mult64 a b =
     (let a_high = a div 4294967296; b_high = b div 4294967296; a_low = a mod 4294967296; b_low = b mod 4294967296;
          x_middle = add64 (mul64 a_low b_high) (mul64 a_high b_low)
      in (add64 (mul64 a_high b_high) (x_middle div 4294967296), add64 (mul64 a_low b_low) (x_middle mod 4294967296)))"

text \<open>The two loops of \<open>div64\<close> correct an estimate one by one; each takes a bound on its rounds.\<close>

primrec div64_down :: "nat \<Rightarrow> nat \<Rightarrow> nat \<Rightarrow> nat \<Rightarrow> nat \<Rightarrow> fault + nat" where
  "div64_down 0 x_high x_low nom estimate = Inl OutOfFuel"
| "div64_down (Suc n) x_high x_low nom estimate =
     (case mult64 nom estimate of (y_high, y_low) \<Rightarrow>
      if y_high \<ge> x_high \<or> y_high = x_high \<and> y_low > x_low then div64_down n x_high x_low nom (sub64 estimate 1) else Inr estimate)"

primrec div64_up :: "nat \<Rightarrow> nat \<Rightarrow> nat \<Rightarrow> nat \<Rightarrow> nat \<Rightarrow> fault + nat" where
  "div64_up 0 x_high x_low nom estimate = Inl OutOfFuel"
| "div64_up (Suc n) x_high x_low nom estimate =
     (case mult64 nom estimate of (y_high, y_low) \<Rightarrow>
      if y_high < x_high \<or> y_high = x_high \<and> y_low \<le> x_low then div64_up n x_high x_low nom (add64 estimate 1) else Inr estimate)"

definition div64 :: "nat \<Rightarrow> nat \<Rightarrow> nat \<Rightarrow> nat \<Rightarrow> fault + nat" where
  "div64 rounds x_high x_low nom =
     (if x_high = 0 then (if nom = 0 then Inl DivisionByZero else Inr (x_low div nom))
      else case d_to_uint64 (d_div (d_add (d_mul (d_of_int (int x_high)) (Fin (2 ^ 64))) (d_of_int (int x_low))) (d_of_int (int nom))) of
        None \<Rightarrow> Inl Unrepresentable
      | Some estimate \<Rightarrow>
          bindE (div64_down rounds x_high x_low nom estimate) (\<lambda>e.
          bindE (case mult64 nom e of (y_high, y_low) \<Rightarrow> ASSERT (y_high \<le> x_high \<or> y_high = x_high \<and> y_low \<le> x_low)) (\<lambda>_.
          bindE (div64_up rounds x_high x_low nom e) (\<lambda>e. Inr (sub64 e 1)))))"

text \<open>A \<open>pid\<close> and an \<open>nprocs\<close> that are negative become large numbers, here they are not.\<close>

definition rng_parallelize :: "nat \<Rightarrow> nat \<Rightarrow> nat \<Rightarrow> rng_state \<Rightarrow> fault + rng_state" where
  "rng_parallelize rounds pid nprocs s =
     (let a = rng_multiplier s; b = sub64 a 1; c = rng_increment s;
          a_nprocs = int_pow a nprocs; a_pid = int_pow a pid
      in case mult64 (sub64 a_pid 1) c of (x_high, x_low) \<Rightarrow>
         bindE (div64 rounds x_high x_low b) (\<lambda>q.
         let v = add64 (mul64 a_pid (rng_value s)) q in
         case mult64 (sub64 a_nprocs 1) c of (x_high, x_low) \<Rightarrow>
         bindE (div64 rounds x_high x_low b) (\<lambda>q.
         Inr \<lparr>rng_multiplier = a_nprocs, rng_increment = q, rng_value = v\<rparr>)))"

section \<open>Powers\<close>

lemma mul64_mod: "mul64 (a mod 18446744073709551616) b = mul64 a b" "mul64 a (b mod 18446744073709551616) = mul64 a b"
  by (simp_all add: mul64_def mod_simps)

lemma int_pow_loop_run:
  assumes "m < 2 ^ n" and "y < 18446744073709551616"
  shows "int_pow_loop n y x m = (y * x ^ m) mod 18446744073709551616"
  using assms
proof (induction n arbitrary: y x m)
  case (Suc n)
  have m: "m div 2 < 2 ^ n" using Suc.prems(1) by simp
  let ?y = "if m mod 2 = 1 then mul64 y x else y"
  have "?y < 18446744073709551616" using Suc.prems(2) by (simp add: mul64_def)
  then have "int_pow_loop (Suc n) y x m = (?y * mul64 x x ^ (m div 2)) mod 18446744073709551616"
    using Suc.IH [OF m] by simp
  also have "\<dots> = (?y * (x * x) ^ (m div 2)) mod 18446744073709551616"
    unfolding mul64_def by (subst mod_mult_right_eq [symmetric]) (simp only: power_mod mod_mult_right_eq)
  also have "(x * x) ^ (m div 2) = x ^ (2 * (m div 2))"
    by (simp add: power_mult power2_eq_square)
  also have "(?y * x ^ (2 * (m div 2))) mod 18446744073709551616 = (y * x ^ m) mod 18446744073709551616"
  proof (cases "even m")
    case True
    then show ?thesis by simp
  next
    case False
    then have m: "m = Suc (2 * (m div 2))" by simp
    have e: "y * x ^ m = y * x * x ^ (2 * (m div 2))" by (subst m) (simp only: power_Suc mult.assoc)
    have "m mod 2 = 1" using False by presburger
    then show ?thesis unfolding e mul64_def by (simp only: if_True simp_thms mod_mult_left_eq)
  qed
  finally show ?case .
qed simp

lemma int_pow_correct: "int_pow x n = x ^ n mod 18446744073709551616"
  unfolding int_pow_def by (subst int_pow_loop_run) (simp_all add: less_exp)

section \<open>The parts of the sequence\<close>

text \<open>The sequence with every \<open>n\<close>-th number, by its multiplier and its increment.\<close>

definition rng_skip :: "nat \<Rightarrow> nat \<Rightarrow> nat \<Rightarrow> nat \<Rightarrow> nat" where
  "rng_skip a c n v = (a ^ n * v + (\<Sum>i < n. c * a ^ i)) mod 18446744073709551616"

lemma lcg_mod: "(a * (x mod m) + c) mod m = (a * x + c) mod (m :: nat)"
  by (rule mod_add_cong) (simp_all add: mod_mult_right_eq)

lemma rng_next_skip:
  "rng_value (((\<lambda>s. snd (rng_next s)) ^^ n) s) =
     (if n = 0 then rng_value s else rng_skip (rng_multiplier s) (rng_increment s) n (rng_value s))"
proof -
  let ?M = "18446744073709551616 :: nat" and ?f = "\<lambda>s. snd (rng_next s)"
  have "rng_multiplier ((?f ^^ n) s) = rng_multiplier s \<and> rng_increment ((?f ^^ n) s) = rng_increment s \<and>
      rng_value ((?f ^^ n) s) mod ?M = rng_skip (rng_multiplier s) (rng_increment s) n (rng_value s) \<and>
      (0 < n \<longrightarrow> rng_value ((?f ^^ n) s) < ?M)"
  proof (induction n)
    case (Suc n)
    let ?v = "rng_value ((?f ^^ n) s)" and ?a = "rng_multiplier s" and ?c = "rng_increment s"
    have ih: "?v mod ?M = (?a ^ n * rng_value s + (\<Sum>i < n. ?c * ?a ^ i)) mod ?M" using Suc by (simp add: rng_skip_def)
    have "rng_value ((?f ^^ Suc n) s) = (?a * ?v + ?c) mod ?M"
      using Suc by (simp add: rng_next_def Let_def add64_def mul64_def mod_add_left_eq)
    also have "\<dots> = (?a * (?v mod ?M) + ?c) mod ?M" by (simp only: lcg_mod)
    also have "\<dots> = (?a * (?a ^ n * rng_value s + (\<Sum>i < n. ?c * ?a ^ i)) + ?c) mod ?M"
      unfolding ih by (simp only: lcg_mod)
    also have "?a * (?a ^ n * rng_value s + (\<Sum>i < n. ?c * ?a ^ i)) + ?c = ?a ^ Suc n * rng_value s + (\<Sum>i < Suc n. ?c * ?a ^ i)"
      by (simp add: algebra_simps sum_distrib_left sum.lessThan_Suc_shift del: sum.lessThan_Suc)
    finally show ?case using Suc by (simp add: rng_next_def Let_def rng_skip_def)
  qed (simp add: rng_skip_def)
  then show ?thesis by (cases "n = 0") auto
qed

section \<open>The division\<close>

text \<open>The rounding of a number that lies between two powers of two.\<close>

lemma leading_eq:
  assumes "2 powi k \<le> x" and "x < 2 powi (k + 1)"
  shows "leading x = k"
proof -
  have pos: "0 < x" using assms(1) by (rule less_le_trans [rotated]) simp
  have "leading x < k + 1" using leading_le [OF pos assms(2)] .
  moreover have "\<not> leading x < k"
  proof
    assume "leading x < k"
    then have "(2 :: rat) powi (leading x + 1) \<le> 2 powi k" by (intro power_int_increasing) auto
    then show False using leading_bounds [OF pos] assms(1) by linarith
  qed
  ultimately show ?thesis by simp
qed

lemma to_double_at:
  assumes "2 ^ (e + 52) \<le> x" and "x < 2 ^ (e + 53)" and "e < 900"
  shows "to_double x = Fin (of_int (nearest_even (x / 2 ^ e)) * 2 ^ e)"
proof -
  have pos: "0 < x" using assms(1) by (rule less_le_trans [rotated]) simp
  have "leading x = int (e + 52)"
    using assms(1,2) by (intro leading_eq) (simp_all add: power_int_def nat_add_distrib algebra_simps)
  then have q: "quantum x = 2 ^ e" using pos by (simp add: quantum_def power_int_def)
  have "\<bar>x / 2 ^ e\<bar> < of_int (2 ^ 53)" using assms(2) pos by (simp add: divide_less_eq power_add)
  from nearest_even_bound [OF this] have "\<bar>of_int (nearest_even (x / 2 ^ e)) * 2 ^ e\<bar> \<le> (2 ^ 53 * 2 ^ e :: rat)"
    by (simp add: abs_mult)
  also have "\<dots> = 2 ^ (53 + e)" by (simp only: power_add)
  also have "\<dots> < 2 ^ 1024" using assms(3) by (intro power_strict_increasing) auto
  finally have "\<bar>rounded x\<bar> < 2 powi 1024" using pos by (simp add: rounded_def q power_int_def)
  then show ?thesis using pos by (simp add: to_double_def rounded_def q Let_def)
qed

lemma to_double_eq:
  assumes "2 ^ (e + 52) \<le> x" and "x < 2 ^ (e + 53)" and "e < 900" and "\<bar>of_int k - x / 2 ^ e\<bar> < 1 / 2"
  shows "to_double x = Fin (of_int k * 2 ^ e)"
proof -
  have "\<bar>of_int (nearest_even (x / 2 ^ e)) - of_int k\<bar> < (1 :: rat)" using nearest_even_error [of "x / 2 ^ e"] assms(4) by linarith
  then have "\<bar>nearest_even (x / 2 ^ e) - k\<bar> < 1" by (simp only: of_int_diff [symmetric] of_int_abs [symmetric] of_int_less_1_iff)
  then have "nearest_even (x / 2 ^ e) = k" by simp
  then show ?thesis using to_double_at [OF assms(1-3)] by simp
qed

lemma div64_down_numeral:
  "div64_down (numeral v) x_high x_low nom estimate =
     (if fst (mult64 nom estimate) \<ge> x_high \<or> fst (mult64 nom estimate) = x_high \<and> snd (mult64 nom estimate) > x_low
      then div64_down (pred_numeral v) x_high x_low nom (sub64 estimate 1) else Inr estimate)"
  by (simp only: numeral_eq_Suc div64_down.simps prod.case_eq_if)

lemma div64_up_numeral:
  "div64_up (numeral v) x_high x_low nom estimate =
     (if fst (mult64 nom estimate) < x_high \<or> fst (mult64 nom estimate) = x_high \<and> snd (mult64 nom estimate) \<le> x_low
      then div64_up (pred_numeral v) x_high x_low nom (add64 estimate 1) else Inr estimate)"
  by (simp only: numeral_eq_Suc div64_up.simps prod.case_eq_if)

lemma mult64_code: "mult64 a b = (let m = (a mod 4294967296 * (b div 4294967296) + a div 4294967296 * (b mod 4294967296)) mod 18446744073709551616 in
   ((a div 4294967296 * (b div 4294967296) + m div 4294967296) mod 18446744073709551616,
    (a mod 4294967296 * (b mod 4294967296) + m mod 4294967296) mod 18446744073709551616))"
  by (simp only: mult64_def Let_def add64_def mul64_def mod_simps)

text \<open>The division that the third power of the multiplier needs.\<close>

lemma demo_estimate:
  "d_div (d_add (d_mul (d_of_int 62087926698960615) (Fin (2 ^ 64))) (d_of_int 16862534490902035662)) (d_of_int 6364136223846793004)
     = Fin 179964735762786304"
proof -
  have "d_of_int 62087926698960615 = Fin 62087926698960616" "d_of_int 16862534490902035662 = Fin 16862534490902036480"
    "d_of_int 6364136223846793004 = Fin 6364136223846793216"
    unfolding d_of_int_def
    using to_double_eq [of 3 62087926698960615 7760990837370077] to_double_eq [of 11 16862534490902035662 8233659419385760]
      to_double_eq [of 10 6364136223846793004 6214976781100384] by simp_all
  moreover have "to_double 1145320093882964787181766018603155456 = Fin 1145320093882964787181766018603155456"
    using to_double_eq [of 67 1145320093882964787181766018603155456 7760990837370077] by simp
  moreover have "to_double 1145320093882964804044300509505191936 = Fin 1145320093882964787181766018603155456"
    using to_double_eq [of 67 1145320093882964804044300509505191936 7760990837370077] by simp
  moreover have "to_double (1145320093882964787181766018603155456 / 6364136223846793216) = Fin 179964735762786304"
    using to_double_eq [of 5 "1145320093882964787181766018603155456 / 6364136223846793216" 5623897992587072] by simp
  ultimately show ?thesis by simp
qed

lemma demo_loops:
  "div64_down 20 62087926698960615 16862534490902035662 6364136223846793004 179964735762786304 = Inr 179964735762786304"
  "div64_up 20 62087926698960615 16862534490902035662 6364136223846793004 179964735762786304 = Inr 179964735762786313"
  "mult64 6364136223846793004 179964735762786304 = (62087926698960612, 1449412214096472524)"
  by (simp_all add: div64_down_numeral div64_up_numeral mult64_code Let_def add64_def)

lemma demo_div64: "div64 20 62087926698960615 16862534490902035662 6364136223846793004 = Inr 179964735762786312"
proof -
  have "d_to_uint64 (Fin 179964735762786304) = Some 179964735762786304" by (simp add: d_to_uint64_def Double.truncate_def)
  then show ?thesis using demo_estimate by (simp add: div64_def demo_loops sub64_def)
qed

lemma demo_power: "int_pow 6364136223846793005 3 = 793875393913628917" "int_pow x 0 = 1"
  by (simp_all add: int_pow_correct)

text \<open>
  C32: The parts that \<open>rng_parallelize\<close> makes of a sequence are not parts of it: whatever the seed, the first of three processes begins
  with the same state, and its next number is not the third number of the sequence.
\<close>

theorem rng_parallelize_leaves:
  "\<exists>s. rng_parallelize 20 0 3 (rng_create seed) = Inr s \<and> rng_value s = seed mod 2 ^ 64 \<and>
    fst (rng_next s) \<noteq> rng_value (((\<lambda>s. snd (rng_next s)) ^^ 3) (rng_create seed))"
proof -
  let ?M = "18446744073709551616 :: nat"
  let ?s = "\<lparr>rng_multiplier = 793875393913628917, rng_increment = 179964735762786312, rng_value = seed mod ?M\<rparr>"
  have "mult64 0 1442695040888963407 = (0, 0)" "mult64 793875393913628916 1442695040888963407 = (62087926698960615, 16862534490902035662)"
    by (simp_all add: mult64_code Let_def)
  then have run: "rng_parallelize 20 0 3 (rng_create seed) = Inr ?s"
    by (simp add: rng_parallelize_def rng_create_def Let_def demo_power demo_div64 sub64_def add64_def mul64_def) (simp add: div64_def)
  have three: "rng_value (((\<lambda>s. snd (rng_next s)) ^^ 3) (rng_create seed)) = rng_skip 6364136223846793005 1442695040888963407 3 seed"
    using rng_next_skip [of 3 "rng_create seed"] by (simp add: rng_create_def)
  also have "\<dots> = (793875393913628917 * seed + 11166244414315200793) mod ?M"
  proof -
    have "(\<Sum>i < 3. 1442695040888963407 * 6364136223846793005 ^ i) mod ?M = 11166244414315200793"
    proof -
      have "(\<Sum>i < 3. f i) = f 0 + f 1 + f 2" for f :: "nat \<Rightarrow> nat" by (simp add: numeral_3_eq_3 numeral_2_eq_2)
      then show ?thesis by simp
    qed
    then have "(\<Sum>i < 3. 1442695040888963407 * 6364136223846793005 ^ i) mod ?M = 11166244414315200793 mod ?M" by simp
    moreover have "6364136223846793005 ^ 3 * seed mod ?M = 793875393913628917 * seed mod ?M"
      by (rule mod_mult_cong) simp_all
    ultimately show ?thesis unfolding rng_skip_def by (rule mod_add_cong [rotated])
  qed
  finally have "rng_value (((\<lambda>s. snd (rng_next s)) ^^ 3) (rng_create seed)) = \<dots>" .
  moreover have "fst (rng_next ?s) = (793875393913628917 * seed + 179964735762786312) mod ?M"
    by (simp add: rng_next_def Let_def add64_def mul64_def mod_simps)
  moreover have "(x + 179964735762786312) mod ?M \<noteq> (x + 11166244414315200793) mod ?M" for x
    unfolding eq_commute [of "(x + 179964735762786312) mod ?M"] using mod_eq_dvd_iff_nat [of "x + 179964735762786312" "x + 11166244414315200793" ?M] by simp
  ultimately show ?thesis using run by (intro exI [of _ ?s]) simp
qed

end
