(* ===== verification/Ipc_Message.thy ===== *)
theory Ipc_Message imports Prelude begin

unbundle bit_operations_syntax

text \<open>
  The message buffers of \<open>src/common/micromsg.hpp\<close> (\<open>MicroMsg\<close>) and \<open>src/MPI/ipcmesg.hpp\<close>
  (\<open>IPCMesg\<close>): unsigned numbers of any width are written in blocks of seven bits, the least
  significant first, with the top bit of a byte set when another one follows; blobs are copied.
  Debug builds of \<open>IPCMesg\<close> (\<open>dbg\<close> true, that is \<open>NDEBUG\<close> not defined) put a textual
  tag in front of every field and check it on reading; the names that \<open>typeid\<close> gives
  to the types are parameters.  \<open>ASSERT\<close> is a fault in both.

  A buffer is the list of the bytes of the memory it lies in; an access outside it is a fault.
\<close>

type_synonym byte = "8 word"

section \<open>Blocks of seven bits\<close>

lemma drop_bit_word_less: "n \<noteq> 0 \<Longrightarrow> unat (drop_bit 7 n) < unat (n :: 'w::len word)"
proof -
  assume n: "n \<noteq> 0"
  have "unat (drop_bit 7 n) = drop_bit 7 (unat n)" by (rule unat_drop_bit_eq)
  moreover have "drop_bit 7 (unat n) < unat n" using n by (simp add: drop_bit_eq_div unat_gt_0)
  ultimately show ?thesis by simp
qed

text \<open>The loop of \<open>write\<close>: the bytes it puts.\<close>

function encode_blocks :: "'w::len word \<Rightarrow> byte list" where
  "encode_blocks number =
     (let c = ucast (number AND 127) :: byte;
          number' = drop_bit 7 number
      in if number' > 0 then (c OR 128) # encode_blocks number' else [c])"
  by pat_completeness auto

termination
  by (relation "measure unat") (auto intro!: drop_bit_word_less)

declare encode_blocks.simps [simp del]

text \<open>The loop of \<open>read\<close> that assembles the number, from the last byte to the first.\<close>

definition decode_blocks :: "byte list \<Rightarrow> 'w::len word" where
  "decode_blocks cs = foldr (\<lambda>c result. push_bit 7 result + ucast (c AND 127)) cs 0"

text \<open>The loop of \<open>read\<close> that looks for the last byte.\<close>

function scan_blocks :: "byte list \<Rightarrow> nat \<Rightarrow> fault + nat" where
  "scan_blocks buf pos =
     (if \<not> pos < length buf then Inl OutOfBounds
      else if buf ! pos AND 128 \<noteq> 0 then scan_blocks buf (pos + 1)
      else Inr (pos + 1))"
  by pat_completeness auto
termination
  by (relation "measure (\<lambda>(buf, pos). length buf - pos)") auto

declare scan_blocks.simps [simp del]

text \<open>Copying bytes into and out of a buffer.\<close>

definition put_bytes :: "byte list \<Rightarrow> nat \<Rightarrow> byte list \<Rightarrow> fault + byte list" where
  "put_bytes buf pos bs =
     (if pos + length bs \<le> length buf then Inr (take pos buf @ bs @ drop (pos + length bs) buf)
      else Inl OutOfBounds)"

definition get_bytes :: "byte list \<Rightarrow> nat \<Rightarrow> nat \<Rightarrow> fault + byte list" where
  "get_bytes buf pos n =
     (if pos + n \<le> length buf then Inr (take n (drop pos buf)) else Inl OutOfBounds)"

subsection \<open>Round trip\<close>

lemma mask_127: "(127 :: 'w::len word) = mask 7"
  by (simp add: mask_eq_exp_minus_1)

lemma low_block: "ucast ((ucast (n AND 127) :: byte) AND 127) = take_bit 7 (n :: 'w::len word)"
  unfolding mask_127 by (rule bit_word_eqI) (auto simp: bit_simps)

lemma low_block_more: "ucast (((ucast (n AND 127) :: byte) OR 128) AND 127) = take_bit 7 (n :: 'w::len word)"
proof -
  have "((ucast (n AND 127) :: byte) OR 128) AND 127 = (ucast (n AND 127) :: byte) AND 127"
  proof -
    have "(128 :: byte) AND 127 = 0" by simp
    then show ?thesis by (simp add: bit.conj_disj_distrib2)
  qed
  then show ?thesis using low_block [of n] by simp
qed

lemma blocks_ident: "push_bit 7 (drop_bit 7 n) + take_bit 7 n = (n :: 'w::len word)"
  by (rule bits_ident)

lemma decode_encode: "decode_blocks (encode_blocks n) = n"
proof (induction n rule: encode_blocks.induct)
  case (1 n)
  let ?c = "ucast (n AND 127) :: byte"
  show ?case
  proof (cases "drop_bit 7 n > 0")
    case True
    then have "encode_blocks n = (?c OR 128) # encode_blocks (drop_bit 7 n)"
      by (simp add: encode_blocks.simps [of n] Let_def)
    moreover have "decode_blocks (encode_blocks (drop_bit 7 n)) = drop_bit 7 n" using 1 True by simp
    ultimately show ?thesis
      using blocks_ident [of n] low_block_more [of n] by (simp add: decode_blocks_def)
  next
    case False
    then have z: "drop_bit 7 n = 0" by (simp add: word_gt_0)
    then have "encode_blocks n = [?c]" by (simp add: encode_blocks.simps [of n] Let_def)
    then show ?thesis using blocks_ident [of n] z low_block [of n] by (simp add: decode_blocks_def)
  qed
qed

section \<open>MicroMsg\<close>

record micro_msg =
  mm_buffer :: "byte list"
  mm_pos :: nat

definition micro_write :: "micro_msg \<Rightarrow> 'w::len word \<Rightarrow> fault + micro_msg" where
  "micro_write m number =
     bindE (put_bytes (mm_buffer m) (mm_pos m) (encode_blocks number)) (\<lambda>b.
     Inr (m\<lparr>mm_buffer := b, mm_pos := mm_pos m + length (encode_blocks number)\<rparr>))"

definition micro_write_bytes :: "micro_msg \<Rightarrow> byte list \<Rightarrow> fault + micro_msg" where
  "micro_write_bytes m bs =
     bindE (put_bytes (mm_buffer m) (mm_pos m) bs) (\<lambda>b.
     Inr (m\<lparr>mm_buffer := b, mm_pos := mm_pos m + length bs\<rparr>))"

definition micro_read :: "micro_msg \<Rightarrow> fault + micro_msg \<times> 'w::len word" where
  "micro_read m =
     bindE (scan_blocks (mm_buffer m) (mm_pos m)) (\<lambda>pos.
     Inr (m\<lparr>mm_pos := pos\<rparr>, decode_blocks (take (pos - mm_pos m) (drop (mm_pos m) (mm_buffer m)))))"

definition micro_read_bytes :: "micro_msg \<Rightarrow> nat \<Rightarrow> fault + micro_msg \<times> byte list" where
  "micro_read_bytes m n =
     bindE (get_bytes (mm_buffer m) (mm_pos m) n) (\<lambda>bs. Inr (m\<lparr>mm_pos := mm_pos m + n\<rparr>, bs))"

text \<open>\<open>access\<close> reads into its argument or writes it.\<close>

definition micro_access :: "micro_msg \<Rightarrow> 'w::len word \<Rightarrow> bool \<Rightarrow> fault + micro_msg \<times> 'w word" where
  "micro_access m x rd = (if rd then micro_read m else bindE (micro_write m x) (\<lambda>m'. Inr (m', x)))"

definition micro_access_bytes :: "micro_msg \<Rightarrow> byte list \<Rightarrow> bool \<Rightarrow> fault + micro_msg \<times> byte list" where
  "micro_access_bytes m bs rd =
     (if rd then micro_read_bytes m (length bs) else bindE (micro_write_bytes m bs) (\<lambda>m'. Inr (m', bs)))"

section \<open>The library functions \<open>IPCMesg\<close> uses in debug builds\<close>

text \<open>Decimal digits: \<open>printf\<close> of \<open>%d\<close>, and \<open>scanf\<close> of it.\<close>

fun print_nat :: "nat \<Rightarrow> byte list" where
  "print_nat n = (if n < 10 then [of_nat (48 + n)] else print_nat (n div 10) @ [of_nat (48 + n mod 10)])"

declare print_nat.simps [simp del]

definition print_int :: "int \<Rightarrow> byte list" where
  "print_int i = (if i < 0 then 45 # print_nat (nat (- i)) else print_nat (nat i))"

definition is_digit :: "byte \<Rightarrow> bool" where
  "is_digit c \<longleftrightarrow> 48 \<le> c \<and> c \<le> 57"

definition digits_value :: "byte list \<Rightarrow> nat" where
  "digits_value ds = foldl (\<lambda>a c. 10 * a + (unat c - 48)) 0 ds"

definition scan_int :: "byte list \<Rightarrow> int option" where
  "scan_int cs =
     (let cs1 = dropWhile (\<lambda>c. c = 32 \<or> 9 \<le> c \<and> c \<le> 13) cs;
          neg = (cs1 \<noteq> [] \<and> hd cs1 = 45);
          cs2 = (if cs1 \<noteq> [] \<and> (hd cs1 = 45 \<or> hd cs1 = 43) then tl cs1 else cs1);
          ds = takeWhile is_digit cs2
      in if ds = [] then None
         else Some (if neg then - int (digits_value ds) else int (digits_value ds)))"

text \<open>\<open>%100[^;]\<close>: at most 100 characters up to a semicolon or the end of the string.\<close>

definition scan_tag :: "byte list \<Rightarrow> byte list" where
  "scan_tag cs = takeWhile (\<lambda>c. c \<noteq> 59 \<and> c \<noteq> 0) (take 100 cs)"

text \<open>\<open>strncmp(a, b, n) == 0\<close> for strings without a zero byte.\<close>

definition strncmp_eq :: "nat \<Rightarrow> byte list \<Rightarrow> byte list \<Rightarrow> bool" where
  "strncmp_eq n a b \<longleftrightarrow> take n (a @ [0]) = take n (b @ [0])"

text \<open>\<open>snprintf\<close> into \<open>cap\<close> bytes at \<open>pos\<close>: truncates, and ends with a zero byte.\<close>

definition put_string :: "byte list \<Rightarrow> nat \<Rightarrow> nat \<Rightarrow> byte list \<Rightarrow> fault + byte list" where
  "put_string buf pos cap str = (if cap = 0 then Inr buf else put_bytes buf pos (take (cap - 1) str @ [0]))"

text \<open>\<open>sscanf\<close> with \<open>"%100[^;];%100[^;];%d;"\<close>: \<open>None\<close> unless all three are converted.\<close>

definition scan_number_tag :: "byte list \<Rightarrow> (byte list \<times> byte list \<times> int) option" where
  "scan_number_tag cs =
     (let e = scan_tag cs; cs1 = drop (length e) cs in
      if e = [] \<or> cs1 = [] \<or> hd cs1 \<noteq> 59 then None
      else let n = scan_tag (tl cs1); cs2 = drop (length n) (tl cs1) in
           if n = [] \<or> cs2 = [] \<or> hd cs2 \<noteq> 59 then None
           else case scan_int (tl cs2) of None \<Rightarrow> None | Some i \<Rightarrow> Some (e, n, i))"

text \<open>\<open>sscanf\<close> with \<open>"%100[^;];%d;;"\<close>.\<close>

definition scan_blob_tag :: "byte list \<Rightarrow> (byte list \<times> int) option" where
  "scan_blob_tag cs =
     (let e = scan_tag cs; cs1 = drop (length e) cs in
      if e = [] \<or> cs1 = [] \<or> hd cs1 \<noteq> 59 then None
      else case scan_int (tl cs1) of None \<Rightarrow> None | Some i \<Rightarrow> Some (e, i))"

section \<open>IPCMesg\<close>

record ipc_mesg =
  ip_buffer :: "byte list"
  ip_size :: nat
  ip_pos :: nat

text \<open>\<open>ASSERT\<close>, by the kind of the build.\<close>

definition check :: "bool \<Rightarrow> bool \<Rightarrow> fault + unit" where
  "check dbg c = (if dbg then ASSERT c else Inr ())"

text \<open>The loops that skip the \<open>n\<close> semicolons of a tag; only debug builds have them.\<close>

function skip_semicolons :: "nat \<Rightarrow> byte list \<Rightarrow> nat \<Rightarrow> nat \<Rightarrow> fault + nat" where
  "skip_semicolons n buf sz pos =
     (if n = 0 then Inr pos
      else if \<not> pos < sz then Inl AssertionFailed
      else if \<not> pos < length buf then Inl OutOfBounds
      else skip_semicolons (if buf ! pos = 59 then n - 1 else n) buf sz (pos + 1))"
  by pat_completeness auto
termination
  by (relation "measure (\<lambda>(n, buf, sz, pos). sz - pos)") auto

declare skip_semicolons.simps [simp del]

text \<open>The constructor; \<open>w\<close> is \<open>sizeof(MsgEnum)\<close>.\<close>

definition ipc_open :: "bool \<Rightarrow> nat \<Rightarrow> byte list \<Rightarrow> nat \<Rightarrow> nat \<Rightarrow> fault + ipc_mesg" where
  "ipc_open dbg w buf sz pos =
     bindE (if dbg then skip_semicolons 1 buf sz pos else Inr pos) (\<lambda>pos.
     bindE (check dbg (pos + w \<le> sz)) (\<lambda>_.
     Inr \<lparr>ip_buffer = buf, ip_size = sz, ip_pos = pos + w\<rparr>))"

text \<open>\<open>t\<close> are the bytes of the value of type \<open>MsgEnum\<close>, \<open>mt\<close> the name of the type.\<close>

definition ipc_writeMsg :: "bool \<Rightarrow> byte list \<Rightarrow> byte list \<Rightarrow> byte list \<Rightarrow> nat \<Rightarrow> fault + ipc_mesg" where
  "ipc_writeMsg dbg mt t buf sz =
     bindE (check dbg (length t \<le> sz)) (\<lambda>_.
     bindE (if dbg then bindE (put_string buf 0 sz (mt @ [59])) (\<lambda>b. Inr (b, length mt + 1)) else Inr (buf, 0))
       (\<lambda>(b, pos).
     bindE (check dbg (pos \<le> sz - length t)) (\<lambda>_.
     bindE (put_bytes b pos t) (\<lambda>b'.
     ipc_open dbg (length t) b' sz 0))))"

definition ipc_readMsg :: "bool \<Rightarrow> nat \<Rightarrow> byte list \<Rightarrow> nat \<Rightarrow> fault + ipc_mesg" where
  "ipc_readMsg dbg w buf sz = ipc_open dbg w buf sz 0"

definition ipc_type :: "bool \<Rightarrow> byte list \<Rightarrow> nat \<Rightarrow> ipc_mesg \<Rightarrow> fault + byte list" where
  "ipc_type dbg mt w m =
     bindE (if dbg then
              bindE (ASSERT (scan_tag (ip_buffer m) \<noteq> [])) (\<lambda>_.
              bindE (ASSERT (strncmp_eq 100 (scan_tag (ip_buffer m)) mt)) (\<lambda>_.
              skip_semicolons 1 (ip_buffer m) (ip_size m) 0))
            else Inr 0) (\<lambda>pos.
     get_bytes (ip_buffer m) pos w)"

text \<open>\<open>send\<close> hands the first \<open>pos\<close> bytes of the buffer to the queue.\<close>

definition ipc_sent :: "ipc_mesg \<Rightarrow> fault + byte list" where
  "ipc_sent m = get_bytes (ip_buffer m) 0 (ip_pos m)"

definition ipc_rewind :: "bool \<Rightarrow> nat \<Rightarrow> ipc_mesg \<Rightarrow> fault + ipc_mesg" where
  "ipc_rewind dbg w m = ipc_open dbg w (ip_buffer m) (ip_size m) 0"

definition ipc_bytesLeft :: "bool \<Rightarrow> ipc_mesg \<Rightarrow> fault + nat" where
  "ipc_bytesLeft dbg m =
     bindE (check dbg (ip_pos m \<le> ip_size m)) (\<lambda>_.
     if ip_pos m = ip_size m then Inr 0
     else bindE (if dbg then skip_semicolons 3 (ip_buffer m) (ip_size m) (ip_pos m) else Inr (ip_pos m)) (\<lambda>pos.
          Inr (ip_size m - pos)))"

text \<open>Writing a tag: \<open>snprintf\<close>, then the new position.\<close>

definition ipc_put_tag :: "ipc_mesg \<Rightarrow> byte list \<Rightarrow> fault + ipc_mesg" where
  "ipc_put_tag m str =
     bindE (put_string (ip_buffer m) (ip_pos m) (ip_size m - ip_pos m) str) (\<lambda>b.
     bindE (ASSERT (ip_pos m + length str \<le> ip_size m)) (\<lambda>_.
     Inr (m\<lparr>ip_buffer := b, ip_pos := ip_pos m + length str\<rparr>)))"

text \<open>The loop of \<open>write\<close> with its assertion before each byte.\<close>

fun ipc_put_blocks :: "bool \<Rightarrow> ipc_mesg \<Rightarrow> byte list \<Rightarrow> fault + ipc_mesg" where
  "ipc_put_blocks dbg m [] = bindE (check dbg (ip_pos m \<le> ip_size m)) (\<lambda>_. Inr m)"
| "ipc_put_blocks dbg m (c # cs) =
     bindE (check dbg (ip_pos m < ip_size m)) (\<lambda>_.
     bindE (vec_set (ip_buffer m) (ip_pos m) c) (\<lambda>b.
     ipc_put_blocks dbg (m\<lparr>ip_buffer := b, ip_pos := ip_pos m + 1\<rparr>) cs))"

definition number_tag :: "byte list \<Rightarrow> byte list \<Rightarrow> int \<Rightarrow> byte list" where
  "number_tag et nt fid = et @ [59] @ nt @ [59] @ print_int fid @ [59]"

definition ipc_write :: "bool \<Rightarrow> byte list \<Rightarrow> byte list \<Rightarrow> ipc_mesg \<Rightarrow> int \<Rightarrow> 'w::len word \<Rightarrow> fault + ipc_mesg" where
  "ipc_write dbg et nt m fid number =
     bindE (if dbg then ipc_put_tag m (number_tag et nt fid) else Inr m) (\<lambda>m1.
     ipc_put_blocks dbg m1 (encode_blocks number))"

text \<open>Booleans travel as \<open>unsigned char\<close>, whose name is \<open>uc\<close>.\<close>

definition ipc_write_bool :: "bool \<Rightarrow> byte list \<Rightarrow> byte list \<Rightarrow> ipc_mesg \<Rightarrow> int \<Rightarrow> bool \<Rightarrow> fault + ipc_mesg" where
  "ipc_write_bool dbg et uc m fid b = ipc_write dbg et uc m fid (if b then 1 else 0 :: byte)"

definition blob_name :: "byte list" where
  "blob_name = [98, 108, 111, 98]"

definition blob_tag :: "int \<Rightarrow> byte list" where
  "blob_tag fid = blob_name @ [59] @ print_int fid @ [59, 59]"

definition ipc_write_blob :: "bool \<Rightarrow> ipc_mesg \<Rightarrow> int \<Rightarrow> byte list \<Rightarrow> fault + ipc_mesg" where
  "ipc_write_blob dbg m fid bs =
     bindE (if dbg then ipc_put_tag m (blob_tag fid) else Inr m) (\<lambda>m1.
     bindE (check dbg (length bs < ip_size m1 - ip_pos m1)) (\<lambda>_.
     bindE (put_bytes (ip_buffer m1) (ip_pos m1) bs) (\<lambda>b.
     bindE (check dbg (ip_pos m1 + length bs \<le> ip_size m1)) (\<lambda>_.
     Inr (m1\<lparr>ip_buffer := b, ip_pos := ip_pos m1 + length bs\<rparr>)))))"

function ipc_scan_blocks :: "bool \<Rightarrow> byte list \<Rightarrow> nat \<Rightarrow> nat \<Rightarrow> fault + nat" where
  "ipc_scan_blocks dbg buf sz pos =
     (if \<not> pos < length buf then Inl OutOfBounds
      else if buf ! pos AND 128 \<noteq> 0
      then if dbg \<and> \<not> pos < sz then Inl AssertionFailed else ipc_scan_blocks dbg buf sz (pos + 1)
      else Inr (pos + 1))"
  by pat_completeness auto
termination
  by (relation "measure (\<lambda>(dbg, buf, sz, pos). length buf - pos)") auto

declare ipc_scan_blocks.simps [simp del]

definition ipc_read :: "bool \<Rightarrow> byte list \<Rightarrow> byte list \<Rightarrow> ipc_mesg \<Rightarrow> int \<Rightarrow> fault + ipc_mesg \<times> 'w::len word" where
  "ipc_read dbg et nt m fid =
     bindE (if dbg then
              (case scan_number_tag (drop (ip_pos m) (ip_buffer m)) of
                 None \<Rightarrow> Inl AssertionFailed
               | Some (e, n, i) \<Rightarrow>
                   bindE (ASSERT (strncmp_eq 100 e et)) (\<lambda>_.
                   bindE (ASSERT (strncmp_eq 100 n nt)) (\<lambda>_.
                   bindE (ASSERT (fid = i)) (\<lambda>_.
                   skip_semicolons 3 (ip_buffer m) (ip_size m) (ip_pos m)))))
            else Inr (ip_pos m)) (\<lambda>start.
     bindE (ipc_scan_blocks dbg (ip_buffer m) (ip_size m) start) (\<lambda>pos.
     Inr (m\<lparr>ip_pos := pos\<rparr>, decode_blocks (take (pos - start) (drop start (ip_buffer m))))))"

definition ipc_read_bool :: "bool \<Rightarrow> byte list \<Rightarrow> byte list \<Rightarrow> ipc_mesg \<Rightarrow> int \<Rightarrow> fault + ipc_mesg \<times> bool" where
  "ipc_read_bool dbg et uc m fid =
     bindE (ipc_read dbg et uc m fid) (\<lambda>(m', x). Inr (m', (x :: byte) \<noteq> 0))"

definition ipc_read_blob :: "bool \<Rightarrow> ipc_mesg \<Rightarrow> int \<Rightarrow> nat \<Rightarrow> fault + ipc_mesg \<times> byte list" where
  "ipc_read_blob dbg m fid n =
     bindE (if dbg then
              (case scan_blob_tag (drop (ip_pos m) (ip_buffer m)) of
                 None \<Rightarrow> Inl AssertionFailed
               | Some (e, i) \<Rightarrow>
                   bindE (ASSERT (e = blob_name)) (\<lambda>_.
                   bindE (ASSERT (fid = i)) (\<lambda>_.
                   skip_semicolons 3 (ip_buffer m) (ip_size m) (ip_pos m))))
            else Inr (ip_pos m)) (\<lambda>start.
     bindE (check dbg (start \<le> ip_size m)) (\<lambda>_.
     bindE (check dbg (n \<le> ip_size m - start)) (\<lambda>_.
     bindE (get_bytes (ip_buffer m) start n) (\<lambda>bs.
     Inr (m\<lparr>ip_pos := start + n\<rparr>, bs)))))"

text \<open>\<open>ipc::newMsg\<close> and \<open>ipc::recvMsg\<close>; \<open>recv\<close> is the queue, which fills the buffer.\<close>

definition ipc_newMsg :: "bool \<Rightarrow> byte list \<Rightarrow> byte list \<Rightarrow> byte list \<Rightarrow> nat \<Rightarrow> fault + ipc_mesg" where
  "ipc_newMsg dbg mt t buf sz = ipc_writeMsg dbg mt t buf sz"

definition ipc_recvMsg ::
  "bool \<Rightarrow> nat \<Rightarrow> (byte list \<Rightarrow> nat \<Rightarrow> byte list \<times> nat) \<Rightarrow> byte list \<Rightarrow> nat \<Rightarrow> fault + ipc_mesg" where
  "ipc_recvMsg dbg w recv buf maxSize =
     (case recv buf maxSize of (buf', actualSize) \<Rightarrow>
        bindE (check dbg (actualSize \<le> maxSize)) (\<lambda>_. ipc_readMsg dbg w buf' actualSize))"

section \<open>Round trips\<close>

subsection \<open>Decimal numbers\<close>

lemma digit_byte:
  assumes "d < 10"
  shows "is_digit (of_nat (48 + d))" and "unat (of_nat (48 + d) :: byte) - 48 = d" and "(of_nat (48 + d) :: byte) \<noteq> 59"
    and "(of_nat (48 + d) :: byte) \<noteq> 45" and "(of_nat (48 + d) :: byte) \<noteq> 43"
proof -
  have u: "unat (of_nat (48 + d) :: byte) = 48 + d" by (subst unat_of_nat) (use assms in simp)
  show "is_digit (of_nat (48 + d))" using u assms by (simp add: is_digit_def word_le_nat_alt)
  show "unat (of_nat (48 + d) :: byte) - 48 = d" using u by simp
  have ne: "unat (of_nat (48 + d) :: byte) \<noteq> unat c" if "unat c < 48 \<or> unat c > 57" for c :: byte
    using that u assms by linarith
  have neq: "(of_nat (48 + d) :: byte) \<noteq> c" if "unat c < 48 \<or> unat c > 57" for c
    using ne [OF that] by metis
  show "(of_nat (48 + d) :: byte) \<noteq> 59" "(of_nat (48 + d) :: byte) \<noteq> 45" "(of_nat (48 + d) :: byte) \<noteq> 43"
    by (rule neq, simp)+
qed

lemma print_nat_digits: "c \<in> set (print_nat n) \<Longrightarrow> is_digit c"
proof (induction n rule: print_nat.induct)
  case (1 n)
  show ?case
  proof (cases "n < 10")
    case True
    then show ?thesis using 1 digit_byte(1) [of n] by (simp add: print_nat.simps [of n])
  next
    case False
    then show ?thesis using 1 digit_byte(1) [of "n mod 10"] by (auto simp: print_nat.simps [of n])
  qed
qed

lemma print_nat_value: "digits_value (print_nat n) = n"
proof (induction n rule: print_nat.induct)
  case (1 n)
  show ?case
  proof (cases "n < 10")
    case True
    then show ?thesis using digit_byte(2) [of n] by (simp add: print_nat.simps [of n] digits_value_def)
  next
    case False
    then have "digits_value (print_nat n) = 10 * (n div 10) + n mod 10"
      using 1 digit_byte(2) [of "n mod 10"] by (simp add: print_nat.simps [of n] digits_value_def)
    then show ?thesis by simp
  qed
qed

lemma print_nat_ne: "print_nat n \<noteq> []"
  by (subst print_nat.simps) simp

lemma is_digit_simps: "\<not> is_digit 59" "\<not> is_digit 45" "\<not> is_digit 43" "\<not> is_digit 32" "\<not> is_digit 0"
  by (simp_all add: is_digit_def)

lemma digit_not_space: "is_digit c \<Longrightarrow> \<not> (c = 32 \<or> 9 \<le> c \<and> c \<le> 13)"
  by (auto simp: is_digit_def word_le_nat_alt)

lemma scan_print_int: "scan_int (print_int i @ 59 # r) = Some i"
proof -
  have tw: "takeWhile is_digit (print_nat n @ 59 # r) = print_nat n" for n
    using print_nat_digits by (subst takeWhile_append2) (auto simp: is_digit_simps)
  obtain h t where ht: "print_nat n = h # t" "is_digit h" if "n = nat \<bar>i\<bar>" for n
    using print_nat_ne [of "nat \<bar>i\<bar>"] print_nat_digits [of _ "nat \<bar>i\<bar>"] by (cases "print_nat (nat \<bar>i\<bar>)") auto
  show ?thesis
  proof (cases "i < 0")
    case True
    then have "print_int i = 45 # print_nat (nat \<bar>i\<bar>)" by (simp add: print_int_def)
    then show ?thesis using True tw [of "nat \<bar>i\<bar>"] print_nat_ne [of "nat \<bar>i\<bar>"] print_nat_value [of "nat \<bar>i\<bar>"]
      by (simp add: scan_int_def)
  next
    case False
    then have p: "print_int i = h # t" using ht [OF refl] by (simp add: print_int_def)
    have "h \<noteq> 45" "h \<noteq> 43" using ht(2) [OF refl] is_digit_simps by metis+
    note dg = ht(2) [OF refl]
    have dw: "dropWhile (\<lambda>c. c = 32 \<or> 9 \<le> c \<and> c \<le> 13) (h # t @ 59 # r) = h # t @ 59 # r"
      by (simp only: dropWhile.simps if_not_P [OF digit_not_space [OF dg]])
    have "takeWhile is_digit (h # t @ 59 # r) = h # t" using tw [of "nat \<bar>i\<bar>"] ht(1) [OF refl] by simp
    moreover have "digits_value (h # t) = nat i"
      using print_nat_value [of "nat \<bar>i\<bar>"] ht(1) [OF refl] False by simp
    ultimately show ?thesis
      using False \<open>h \<noteq> 45\<close> \<open>h \<noteq> 43\<close> unfolding scan_int_def p append_Cons dw Let_def by simp
  qed
qed

lemma print_int_no_semicolon: "59 \<notin> set (print_int i)"
  using print_nat_digits is_digit_simps by (auto simp: print_int_def)

subsection \<open>Blocks in a buffer\<close>

lemma top_bit_clear: "(ucast (n AND 127) :: byte) AND 128 = 0" for n :: "'w::len word"
proof -
  have c: "(ucast (n AND 127) :: byte) = take_bit 7 (ucast n)"
    unfolding mask_127 by (rule bit_word_eqI) (auto simp: bit_simps dest: bit_imp_le_length)
  have "take_bit 7 (x :: byte) AND 128 = x AND (mask 7 AND 128)" for x
    by (simp only: take_bit_eq_mask and.assoc)
  then show ?thesis unfolding c by (simp add: mask_eq_exp_minus_1)
qed

lemma top_bit_set: "(c OR 128) AND 128 = (128 :: byte)"
  by (rule word_ao_absorbs)

lemma encode_shape:
  "\<exists>xs c. encode_blocks n = xs @ [c] \<and> (\<forall>x \<in> set xs. x AND 128 \<noteq> 0) \<and> c AND 128 = 0"
proof (induction n rule: encode_blocks.induct)
  case (1 n)
  let ?c = "ucast (n AND 127) :: byte"
  show ?case
  proof (cases "drop_bit 7 n > 0")
    case True
    then obtain xs c where x: "encode_blocks (drop_bit 7 n) = xs @ [c]" "\<forall>x \<in> set xs. x AND 128 \<noteq> 0" "c AND 128 = 0"
      using 1 by blast
    have "(?c OR 128) AND 128 \<noteq> 0" unfolding top_bit_set by simp
    then have "encode_blocks n = ((?c OR 128) # xs) @ [c] \<and> (\<forall>x \<in> set ((?c OR 128) # xs). x AND 128 \<noteq> 0) \<and> c AND 128 = 0"
      using x True by (simp add: encode_blocks.simps [of n] Let_def)
    then show ?thesis by blast
  next
    case False
    have "?c AND 128 = 0" by (rule top_bit_clear)
    then have "encode_blocks n = [] @ [?c] \<and> ?c AND 128 = 0"
      using False by (simp add: encode_blocks.simps [of n] Let_def)
    then show ?thesis by (metis empty_iff empty_set)
  qed
qed

lemma encode_nonempty [simp]: "encode_blocks n \<noteq> []" "0 < length (encode_blocks n)"
  using encode_shape [of n] by auto

lemma drop_eq_ConsD:
  assumes "drop pos buf = x # ys"
  shows "pos < length buf" and "buf ! pos = x" and "drop (Suc pos) buf = ys"
proof -
  show l: "pos < length buf" using assms by (metis drop_eq_Nil list.distinct(1) not_less)
  show "buf ! pos = x" using assms by (rule nth_via_drop)
  show "drop (Suc pos) buf = ys" using Cons_nth_drop_Suc [OF l] assms by simp
qed

lemma scan_blocks_run:
  assumes "drop pos buf = xs @ c # r" and "\<forall>x \<in> set xs. x AND 128 \<noteq> 0" and "c AND 128 = 0"
  shows "scan_blocks buf pos = Inr (pos + length xs + 1)"
    and "dbg \<Longrightarrow> pos + length xs < sz \<Longrightarrow> ipc_scan_blocks dbg buf sz pos = Inr (pos + length xs + 1)"
    and "\<not> dbg \<Longrightarrow> ipc_scan_blocks dbg buf sz pos = Inr (pos + length xs + 1)"
  using assms
proof (induction xs arbitrary: pos)
  case Nil
  {
    case 1
    then have "pos < length buf" "buf ! pos = c" using drop_eq_ConsD [of pos buf c r] by simp_all
    then show ?case using 1 by (simp add: scan_blocks.simps [of buf pos])
  next
    case 2
    then have "pos < length buf" "buf ! pos = c" using drop_eq_ConsD [of pos buf c r] by simp_all
    then show ?case using 2 by (simp add: ipc_scan_blocks.simps [of _ buf _ pos])
  next
    case 3
    then have "pos < length buf" "buf ! pos = c" using drop_eq_ConsD [of pos buf c r] by simp_all
    then show ?case using 3 by (simp add: ipc_scan_blocks.simps [of _ buf _ pos])
  }
next
  case (Cons x xs)
  have step: "pos < length buf" "buf ! pos = x" "drop (pos + 1) buf = xs @ c # r" if "drop pos buf = (x # xs) @ c # r" for pos
    using drop_eq_ConsD [of pos buf x "xs @ c # r"] that by simp_all
  {
    case 1
    have d: "drop pos buf = (x # xs) @ c # r" using 1 by simp
    show ?case using 1 step [OF d] Cons.IH(1) [of "pos + 1"] by (simp add: scan_blocks.simps [of buf pos])
  next
    case 2
    have d: "drop pos buf = (x # xs) @ c # r" using 2 by simp
    show ?case using 2 step [OF d] Cons.IH(2) [of "pos + 1"] by (simp add: ipc_scan_blocks.simps [of _ buf _ pos])
  next
    case 3
    have d: "drop pos buf = (x # xs) @ c # r" using 3 by simp
    show ?case using 3 step [OF d] Cons.IH(3) [of "pos + 1"] by (simp add: ipc_scan_blocks.simps [of _ buf _ pos])
  }
qed

lemma skip_semicolons_run:
  assumes "drop pos buf = xs @ 59 # r" and "59 \<notin> set xs" and "pos + length xs < sz"
  shows "skip_semicolons (Suc n) buf sz pos = skip_semicolons n buf sz (pos + length xs + 1)"
  using assms
proof (induction xs arbitrary: pos)
  case Nil
  note d = drop_eq_ConsD [of pos buf 59 r]
  show ?case using Nil d by (simp add: skip_semicolons.simps [of "Suc n" buf sz pos])
next
  case (Cons x xs)
  have "drop pos buf = x # xs @ 59 # r" using Cons.prems by simp
  note d = drop_eq_ConsD [OF this]
  show ?case using Cons.prems Cons.IH [of "pos + 1"] d
    by (simp add: skip_semicolons.simps [of "Suc n" buf sz pos])
qed

lemma skip_semicolons_0: "skip_semicolons 0 buf sz pos = Inr pos"
  by (simp add: skip_semicolons.simps)

text \<open>Names that fit the \<open>%100[^;]\<close> of the reader.\<close>

definition good_name :: "byte list \<Rightarrow> bool" where
  "good_name nm \<longleftrightarrow> nm \<noteq> [] \<and> length nm \<le> 100 \<and> 59 \<notin> set nm \<and> 0 \<notin> set nm"

lemma scan_tag_name: "good_name nm \<Longrightarrow> scan_tag (nm @ 59 # r) = nm"
proof -
  assume g: "good_name nm"
  have "takeWhile (\<lambda>c. c \<noteq> 59 \<and> c \<noteq> 0) (nm @ ys) = nm" if "ys = [] \<or> hd ys = 59" for ys
  proof -
    have "takeWhile (\<lambda>c. c \<noteq> 59 \<and> c \<noteq> 0) (nm @ ys) = nm @ takeWhile (\<lambda>c. c \<noteq> 59 \<and> c \<noteq> 0) ys"
      using g by (intro takeWhile_append2) (auto simp: good_name_def)
    then show ?thesis using that by (cases ys) auto
  qed
  moreover have "take 100 (nm @ 59 # r) = nm @ take (100 - length nm) (59 # r)" using g by (simp add: good_name_def)
  moreover have "take (100 - length nm) (59 # r) = [] \<or> hd (take (100 - length nm) (59 # r)) = 59"
    by (cases "100 - length nm") auto
  ultimately show ?thesis by (simp add: scan_tag_def)
qed

subsection \<open>Writing\<close>

lemma put_bytes_spec:
  assumes "pos + length bs \<le> length buf"
  shows "\<exists>b. put_bytes buf pos bs = Inr b \<and> length b = length buf \<and> take (pos + length bs) b = take pos buf @ bs"
  using assms by (simp add: put_bytes_def)

lemma ipc_put_blocks_spec:
  assumes "ip_pos m + length cs \<le> ip_size m" and "ip_size m \<le> length (ip_buffer m)"
  shows "\<exists>b. ipc_put_blocks dbg m cs = Inr (m\<lparr>ip_buffer := b, ip_pos := ip_pos m + length cs\<rparr>) \<and>
     length b = length (ip_buffer m) \<and> take (ip_pos m + length cs) b = take (ip_pos m) (ip_buffer m) @ cs"
  using assms
proof (induction cs arbitrary: m)
  case Nil
  then show ?case by (intro exI [of _ "ip_buffer m"]) (simp add: check_def)
next
  case (Cons c cs)
  let ?m = "m\<lparr>ip_buffer := (ip_buffer m)[ip_pos m := c], ip_pos := ip_pos m + 1\<rparr>"
  have "ipc_put_blocks dbg m (c # cs) = ipc_put_blocks dbg ?m cs"
    using Cons.prems by (simp add: check_def)
  moreover have "take (Suc (ip_pos m)) ((ip_buffer m)[ip_pos m := c]) = take (ip_pos m) (ip_buffer m) @ [c]"
    using Cons.prems by (simp add: take_Suc_conv_app_nth)
  ultimately show ?case using Cons.IH [of ?m] Cons.prems by auto
qed

lemma ipc_put_blocks_overrun:
  assumes "ip_size m < ip_pos m + length cs" and "ip_pos m \<le> ip_size m" and "ip_size m \<le> length (ip_buffer m)"
  shows "ipc_put_blocks True m cs = Inl AssertionFailed"
  using assms by (induction cs arbitrary: m) (auto simp: check_def ASSERT_def)

lemma ipc_put_tag_spec:
  assumes "ip_pos m + length str < ip_size m" and "ip_size m \<le> length (ip_buffer m)"
  shows "\<exists>b. ipc_put_tag m str = Inr (m\<lparr>ip_buffer := b, ip_pos := ip_pos m + length str\<rparr>) \<and>
     length b = length (ip_buffer m) \<and> take (ip_pos m + length str) b = take (ip_pos m) (ip_buffer m) @ str"
proof -
  let ?cap = "ip_size m - ip_pos m"
  have "take (?cap - 1) str = str" using assms by simp
  moreover obtain b where b: "put_bytes (ip_buffer m) (ip_pos m) (str @ [0]) = Inr b" "length b = length (ip_buffer m)"
    "take (ip_pos m + length (str @ [0])) b = take (ip_pos m) (ip_buffer m) @ str @ [0]"
    using put_bytes_spec [of "ip_pos m" "str @ [0]" "ip_buffer m"] assms by auto
  moreover have "take (ip_pos m + length str) b = take (ip_pos m + length str) (take (ip_pos m + length (str @ [0])) b)"
    by simp
  then have "take (ip_pos m + length str) b = take (ip_pos m) (ip_buffer m) @ str"
    unfolding b(3) using assms by simp
  ultimately show ?thesis using assms by (intro exI [of _ b]) (simp add: ipc_put_tag_def put_string_def)
qed

text \<open>What a field looks like in the buffer.\<close>

definition enc_number :: "bool \<Rightarrow> byte list \<Rightarrow> byte list \<Rightarrow> int \<Rightarrow> 'w::len word \<Rightarrow> byte list" where
  "enc_number dbg et nt fid n = (if dbg then number_tag et nt fid else []) @ encode_blocks n"

definition enc_blob :: "bool \<Rightarrow> int \<Rightarrow> byte list \<Rightarrow> byte list" where
  "enc_blob dbg fid bs = (if dbg then blob_tag fid else []) @ bs"

lemma ipc_write_spec:
  assumes "ip_pos m + length (enc_number dbg et nt fid n) \<le> ip_size m" and "ip_size m \<le> length (ip_buffer m)"
  shows "\<exists>b. ipc_write dbg et nt m fid n =
       Inr (m\<lparr>ip_buffer := b, ip_pos := ip_pos m + length (enc_number dbg et nt fid n)\<rparr>) \<and>
     length b = length (ip_buffer m) \<and>
     take (ip_pos m + length (enc_number dbg et nt fid n)) b = take (ip_pos m) (ip_buffer m) @ enc_number dbg et nt fid n"
proof (cases dbg)
  case True
  let ?t = "number_tag et nt fid"
  have l: "ip_pos m + length ?t + length (encode_blocks n) \<le> ip_size m" using assms(1) True by (simp add: enc_number_def)
  have "ip_pos m + length ?t < ip_size m" using l encode_nonempty(2) [of n] by linarith
  then obtain b where b: "ipc_put_tag m ?t = Inr (m\<lparr>ip_buffer := b, ip_pos := ip_pos m + length ?t\<rparr>)"
    "length b = length (ip_buffer m)" "take (ip_pos m + length ?t) b = take (ip_pos m) (ip_buffer m) @ ?t"
    using ipc_put_tag_spec [OF _ assms(2)] by blast
  let ?m1 = "m\<lparr>ip_buffer := b, ip_pos := ip_pos m + length ?t\<rparr>"
  obtain b' where "ipc_put_blocks dbg ?m1 (encode_blocks n) =
      Inr (?m1\<lparr>ip_buffer := b', ip_pos := ip_pos ?m1 + length (encode_blocks n)\<rparr>)"
    "length b' = length b" "take (ip_pos ?m1 + length (encode_blocks n)) b' = take (ip_pos ?m1) b @ encode_blocks n"
    using ipc_put_blocks_spec [of ?m1 "encode_blocks n" dbg] l b(2) assms(2) by auto
  then show ?thesis using True b by (auto simp: ipc_write_def enc_number_def add.assoc)
next
  case False
  then show ?thesis using ipc_put_blocks_spec [of m "encode_blocks n" dbg] assms
    by (auto simp: ipc_write_def enc_number_def)
qed

lemma ipc_write_blob_spec:
  assumes "ip_pos m + length (enc_blob dbg fid bs) < ip_size m" and "ip_size m \<le> length (ip_buffer m)"
  shows "\<exists>b. ipc_write_blob dbg m fid bs =
       Inr (m\<lparr>ip_buffer := b, ip_pos := ip_pos m + length (enc_blob dbg fid bs)\<rparr>) \<and>
     length b = length (ip_buffer m) \<and>
     take (ip_pos m + length (enc_blob dbg fid bs)) b = take (ip_pos m) (ip_buffer m) @ enc_blob dbg fid bs"
proof -
  let ?t = "if dbg then blob_tag fid else []"
  have l: "ip_pos m + length ?t + length bs < ip_size m" using assms(1) by (simp add: enc_blob_def)
  obtain b where b: "(if dbg then ipc_put_tag m (blob_tag fid) else Inr m) =
      Inr (m\<lparr>ip_buffer := b, ip_pos := ip_pos m + length ?t\<rparr>)"
    "length b = length (ip_buffer m)" "take (ip_pos m + length ?t) b = take (ip_pos m) (ip_buffer m) @ ?t"
  proof (cases dbg)
    case True
    then show ?thesis using that ipc_put_tag_spec [of m "blob_tag fid"] l assms(2) by auto
  next
    case False
    then show ?thesis using that [of "ip_buffer m"] by simp
  qed
  let ?m1 = "m\<lparr>ip_buffer := b, ip_pos := ip_pos m + length ?t\<rparr>"
  obtain b' where b': "put_bytes b (ip_pos ?m1) bs = Inr b'" "length b' = length b"
    "take (ip_pos ?m1 + length bs) b' = take (ip_pos ?m1) b @ bs"
    using put_bytes_spec [of "ip_pos ?m1" bs b] l b(2) assms(2) by auto
  have "ipc_write_blob dbg m fid bs = Inr (?m1\<lparr>ip_buffer := b', ip_pos := ip_pos ?m1 + length bs\<rparr>)"
    unfolding ipc_write_blob_def b(1) bindE_Inr using l b' by (cases dbg) (simp_all add: check_def)
  moreover have "take (ip_pos m + length (enc_blob dbg fid bs)) b' = take (ip_pos m) (ip_buffer m) @ enc_blob dbg fid bs"
    using b' b by (simp add: enc_blob_def add.assoc)
  ultimately show ?thesis using b b' by (auto simp: enc_blob_def add.assoc)
qed

subsection \<open>Reading\<close>

lemma ipc_scan_encoded:
  assumes d: "drop pos buf = encode_blocks n @ r" and len: "pos + length (encode_blocks n) \<le> sz"
  shows "ipc_scan_blocks dbg buf sz pos = Inr (pos + length (encode_blocks n))"
    and "scan_blocks buf pos = Inr (pos + length (encode_blocks n))"
    and "take (length (encode_blocks n)) (drop pos buf) = encode_blocks n"
proof -
  obtain xs c where e: "encode_blocks n = xs @ [c]" "\<forall>x \<in> set xs. x AND 128 \<noteq> 0" "c AND 128 = 0"
    using encode_shape by blast
  have d': "drop pos buf = xs @ c # r" using d e(1) by simp
  note run = scan_blocks_run [OF d' e(2,3)]
  show "ipc_scan_blocks dbg buf sz pos = Inr (pos + length (encode_blocks n))"
    using run(2) [of dbg sz] run(3) [of dbg sz] len e(1) by (cases dbg) auto
  show "scan_blocks buf pos = Inr (pos + length (encode_blocks n))" using run(1) e(1) by simp
  show "take (length (encode_blocks n)) (drop pos buf) = encode_blocks n" using d by simp
qed

lemma drop_append_part: "drop pos buf = xs @ ys \<Longrightarrow> drop (pos + length xs) buf = ys"
  by (metis add.commute append_eq_conv_conj drop_drop)

lemma scan_number_tag_ok:
  assumes "good_name et" and "good_name nt"
  shows "scan_number_tag (number_tag et nt fid @ r) = Some (et, nt, fid)"
proof -
  have "et \<noteq> []" "nt \<noteq> []" using assms by (simp_all add: good_name_def)
  then show ?thesis
    using scan_tag_name [OF assms(1), of "nt @ 59 # print_int fid @ 59 # r"]
      scan_tag_name [OF assms(2), of "print_int fid @ 59 # r"] scan_print_int [of fid r]
    by (simp add: scan_number_tag_def number_tag_def Let_def)
qed

lemma skip_number_tag:
  assumes d: "drop pos buf = number_tag et nt fid @ r" and g: "good_name et" "good_name nt"
    and len: "pos + length (number_tag et nt fid) \<le> sz"
  shows "skip_semicolons 3 buf sz pos = Inr (pos + length (number_tag et nt fid))"
proof -
  let ?p1 = "pos + length et + 1" and ?p2 = "pos + length et + 1 + length nt + 1"
  have d0: "drop pos buf = et @ 59 # (nt @ 59 # (print_int fid @ 59 # r))" using d by (simp add: number_tag_def)
  have d1: "drop ?p1 buf = nt @ 59 # (print_int fid @ 59 # r)"
    using drop_append_part [of pos buf "et @ [59]"] d0 by simp
  have d2: "drop ?p2 buf = print_int fid @ 59 # r"
    using drop_append_part [of ?p1 buf "nt @ [59]"] d1 by (simp add: add.assoc)
  have l: "pos + length et + length nt + length (print_int fid) + 3 \<le> sz" using len by (simp add: number_tag_def)
  have n: "59 \<notin> set et" "59 \<notin> set nt" using g by (simp_all add: good_name_def)
  show ?thesis
    using skip_semicolons_run [OF d0 n(1), of sz 2] skip_semicolons_run [OF d1 n(2), of sz 1]
      skip_semicolons_run [OF d2 print_int_no_semicolon, of sz 0] l skip_semicolons_0
    by (simp add: number_tag_def numeral_3_eq_3 numeral_2_eq_2)
qed

lemma ipc_read_spec:
  assumes d: "drop (ip_pos m) (ip_buffer m) = enc_number dbg et nt fid n @ r" and g: "good_name et" "good_name nt"
    and len: "ip_pos m + length (enc_number dbg et nt fid n) \<le> ip_size m"
  shows "ipc_read dbg et nt m fid = Inr (m\<lparr>ip_pos := ip_pos m + length (enc_number dbg et nt fid n)\<rparr>, n)"
proof (cases dbg)
  case True
  let ?t = "number_tag et nt fid"
  have d0: "drop (ip_pos m) (ip_buffer m) = ?t @ (encode_blocks n @ r)" using d True by (simp add: enc_number_def)
  have d1: "drop (ip_pos m + length ?t) (ip_buffer m) = encode_blocks n @ r" by (rule drop_append_part [OF d0])
  have l: "ip_pos m + length ?t + length (encode_blocks n) \<le> ip_size m" using len True by (simp add: enc_number_def)
  have sk: "skip_semicolons 3 (ip_buffer m) (ip_size m) (ip_pos m) = Inr (ip_pos m + length ?t)"
    by (rule skip_number_tag [OF d0 g]) (use l in simp)
  note sc = ipc_scan_encoded [OF d1 l]
  show ?thesis
    using True sk sc scan_number_tag_ok [OF g] d0 decode_encode [of n]
    by (simp add: ipc_read_def strncmp_eq_def enc_number_def add.assoc)
next
  case False
  have d1: "drop (ip_pos m) (ip_buffer m) = encode_blocks n @ r" using d False by (simp add: enc_number_def)
  have l: "ip_pos m + length (encode_blocks n) \<le> ip_size m" using len False by (simp add: enc_number_def)
  show ?thesis using False ipc_scan_encoded [OF d1 l] decode_encode [of n] by (simp add: ipc_read_def enc_number_def)
qed

lemma blob_name_good: "good_name blob_name"
  by (simp add: good_name_def blob_name_def)

lemma ipc_read_blob_spec:
  assumes d: "drop (ip_pos m) (ip_buffer m) = enc_blob dbg fid bs @ r"
    and len: "ip_pos m + length (enc_blob dbg fid bs) \<le> ip_size m" and phys: "ip_size m \<le> length (ip_buffer m)"
  shows "ipc_read_blob dbg m fid (length bs) = Inr (m\<lparr>ip_pos := ip_pos m + length (enc_blob dbg fid bs)\<rparr>, bs)"
proof -
  let ?t = "if dbg then blob_tag fid else []"
  have d0: "drop (ip_pos m) (ip_buffer m) = ?t @ (bs @ r)" using d by (simp add: enc_blob_def)
  have d1: "drop (ip_pos m + length ?t) (ip_buffer m) = bs @ r" by (rule drop_append_part [OF d0])
  have l: "ip_pos m + length ?t + length bs \<le> ip_size m" using len by (simp add: enc_blob_def)
  have lb: "ip_pos m + length ?t + length bs \<le> length (ip_buffer m)" using l phys by simp
  have get: "get_bytes (ip_buffer m) (ip_pos m + length ?t) (length bs) = Inr bs" using lb d1 by (simp add: get_bytes_def)
  show ?thesis
  proof (cases dbg)
    case True
    let ?p1 = "ip_pos m + length blob_name + 1" and ?p2 = "ip_pos m + length blob_name + 1 + length (print_int fid) + 1"
    have e0: "drop (ip_pos m) (ip_buffer m) = blob_name @ 59 # (print_int fid @ 59 # ([] @ 59 # (bs @ r)))"
      using d0 True by (simp add: blob_tag_def)
    have e1: "drop ?p1 (ip_buffer m) = print_int fid @ 59 # ([] @ 59 # (bs @ r))"
      using drop_append_part [of "ip_pos m" "ip_buffer m" "blob_name @ [59]"] e0 by simp
    have e2: "drop ?p2 (ip_buffer m) = [] @ 59 # (bs @ r)"
      using drop_append_part [of ?p1 "ip_buffer m" "print_int fid @ [59]"] e1 by (simp add: add.assoc)
    have n: "59 \<notin> set blob_name" using blob_name_good by (simp add: good_name_def)
    have lt: "length (blob_tag fid) = length blob_name + length (print_int fid) + 3" by (simp add: blob_tag_def)
    have sk: "skip_semicolons 3 (ip_buffer m) (ip_size m) (ip_pos m) = Inr (ip_pos m + length (blob_tag fid))"
      using skip_semicolons_run [OF e0 n, of "ip_size m" 2] skip_semicolons_run [OF e1 print_int_no_semicolon, of "ip_size m" 1]
        skip_semicolons_run [OF e2, of "ip_size m" 0] l True lt skip_semicolons_0
      by (simp add: numeral_3_eq_3 numeral_2_eq_2)
    have "scan_blob_tag (drop (ip_pos m) (ip_buffer m)) = Some (blob_name, fid)"
      using scan_tag_name [OF blob_name_good] scan_print_int blob_name_good
      unfolding e0 by (simp add: scan_blob_tag_def good_name_def)
    then show ?thesis using True sk get l by (simp add: ipc_read_blob_def check_def enc_blob_def add.assoc)
  next
    case False
    then show ?thesis using get l by (simp add: ipc_read_blob_def check_def enc_blob_def)
  qed
qed

subsection \<open>Whole messages\<close>

text \<open>A message as the list of the calls that write it; booleans, numbers of 64 bits, and blobs.\<close>

datatype field =
    NumberField int "64 word"
  | BoolField int bool
  | BlobField int "byte list"

fun write_field :: "bool \<Rightarrow> byte list \<Rightarrow> byte list \<Rightarrow> byte list \<Rightarrow> ipc_mesg \<Rightarrow> field \<Rightarrow> fault + ipc_mesg" where
  "write_field dbg et nt uc m (NumberField i n) = ipc_write dbg et nt m i n"
| "write_field dbg et nt uc m (BoolField i b) = ipc_write_bool dbg et uc m i b"
| "write_field dbg et nt uc m (BlobField i bs) = ipc_write_blob dbg m i bs"

fun read_field :: "bool \<Rightarrow> byte list \<Rightarrow> byte list \<Rightarrow> byte list \<Rightarrow> ipc_mesg \<Rightarrow> field \<Rightarrow> fault + ipc_mesg \<times> field" where
  "read_field dbg et nt uc m (NumberField i n) = bindE (ipc_read dbg et nt m i) (\<lambda>(m', x). Inr (m', NumberField i x))"
| "read_field dbg et nt uc m (BoolField i b) = bindE (ipc_read_bool dbg et uc m i) (\<lambda>(m', x). Inr (m', BoolField i x))"
| "read_field dbg et nt uc m (BlobField i bs) = bindE (ipc_read_blob dbg m i (length bs)) (\<lambda>(m', x). Inr (m', BlobField i x))"

fun write_fields :: "bool \<Rightarrow> byte list \<Rightarrow> byte list \<Rightarrow> byte list \<Rightarrow> ipc_mesg \<Rightarrow> field list \<Rightarrow> fault + ipc_mesg" where
  "write_fields dbg et nt uc m [] = Inr m"
| "write_fields dbg et nt uc m (f # fs) =
     bindE (write_field dbg et nt uc m f) (\<lambda>m'. write_fields dbg et nt uc m' fs)"

text \<open>Reading takes the identifiers and the blob sizes from the list, not the values.\<close>

fun read_fields :: "bool \<Rightarrow> byte list \<Rightarrow> byte list \<Rightarrow> byte list \<Rightarrow> ipc_mesg \<Rightarrow> field list \<Rightarrow> fault + ipc_mesg \<times> field list" where
  "read_fields dbg et nt uc m [] = Inr (m, [])"
| "read_fields dbg et nt uc m (f # fs) =
     bindE (read_field dbg et nt uc m f) (\<lambda>(m', x).
     bindE (read_fields dbg et nt uc m' fs) (\<lambda>(m'', xs). Inr (m'', x # xs)))"

fun enc_field :: "bool \<Rightarrow> byte list \<Rightarrow> byte list \<Rightarrow> byte list \<Rightarrow> field \<Rightarrow> byte list" where
  "enc_field dbg et nt uc (NumberField i n) = enc_number dbg et nt i n"
| "enc_field dbg et nt uc (BoolField i b) = enc_number dbg et uc i (if b then 1 else 0 :: byte)"
| "enc_field dbg et nt uc (BlobField i bs) = enc_blob dbg i bs"

definition enc_fields :: "bool \<Rightarrow> byte list \<Rightarrow> byte list \<Rightarrow> byte list \<Rightarrow> field list \<Rightarrow> byte list" where
  "enc_fields dbg et nt uc fs = concat (map (enc_field dbg et nt uc) fs)"

definition enc_header :: "bool \<Rightarrow> byte list \<Rightarrow> byte list \<Rightarrow> byte list" where
  "enc_header dbg mt t = (if dbg then mt @ [59] else []) @ t"

lemma write_field_spec:
  assumes "ip_pos m + length (enc_field dbg et nt uc f) < ip_size m" and "ip_size m \<le> length (ip_buffer m)"
  shows "\<exists>b. write_field dbg et nt uc m f = Inr (m\<lparr>ip_buffer := b, ip_pos := ip_pos m + length (enc_field dbg et nt uc f)\<rparr>) \<and>
     length b = length (ip_buffer m) \<and>
     take (ip_pos m + length (enc_field dbg et nt uc f)) b = take (ip_pos m) (ip_buffer m) @ enc_field dbg et nt uc f"
  using assms
proof (cases f)
  case (NumberField i n)
  then show ?thesis using assms ipc_write_spec [of m dbg et nt i n] by simp
next
  case (BoolField i b)
  then show ?thesis using assms ipc_write_spec [of m dbg et uc i "if b then 1 else 0 :: byte"] by (simp add: ipc_write_bool_def)
next
  case (BlobField i bs)
  then show ?thesis using assms ipc_write_blob_spec [of m dbg i bs] by simp
qed

lemma write_fields_spec:
  assumes "ip_pos m + length (enc_fields dbg et nt uc fs) < ip_size m" and "ip_size m \<le> length (ip_buffer m)"
  shows "\<exists>b. write_fields dbg et nt uc m fs = Inr (m\<lparr>ip_buffer := b, ip_pos := ip_pos m + length (enc_fields dbg et nt uc fs)\<rparr>) \<and>
     length b = length (ip_buffer m) \<and>
     take (ip_pos m + length (enc_fields dbg et nt uc fs)) b = take (ip_pos m) (ip_buffer m) @ enc_fields dbg et nt uc fs"
  using assms
proof (induction fs arbitrary: m)
  case Nil
  show ?case by (rule exI [of _ "ip_buffer m"]) (simp add: enc_fields_def)
next
  case (Cons f fs)
  let ?e = "enc_field dbg et nt uc f" and ?es = "enc_fields dbg et nt uc fs"
  have s: "enc_fields dbg et nt uc (f # fs) = ?e @ ?es" by (simp add: enc_fields_def)
  obtain b where b: "write_field dbg et nt uc m f = Inr (m\<lparr>ip_buffer := b, ip_pos := ip_pos m + length ?e\<rparr>)"
    "length b = length (ip_buffer m)" "take (ip_pos m + length ?e) b = take (ip_pos m) (ip_buffer m) @ ?e"
    using write_field_spec [of m dbg et nt uc f] Cons.prems s by auto
  let ?m = "m\<lparr>ip_buffer := b, ip_pos := ip_pos m + length ?e\<rparr>"
  obtain b' where b': "write_fields dbg et nt uc ?m fs = Inr (?m\<lparr>ip_buffer := b', ip_pos := ip_pos ?m + length ?es\<rparr>)"
    "length b' = length b" "take (ip_pos ?m + length ?es) b' = take (ip_pos ?m) b @ ?es"
    using Cons.IH [of ?m] Cons.prems s b(2) by auto
  show ?case using b b' unfolding s by (intro exI [of _ b']) (simp add: add.assoc)
qed

lemma read_field_spec:
  assumes "drop (ip_pos m) (ip_buffer m) = enc_field dbg et nt uc f @ r"
    and "good_name et" and "good_name nt" and "good_name uc"
    and "ip_pos m + length (enc_field dbg et nt uc f) \<le> ip_size m" and "ip_size m \<le> length (ip_buffer m)"
  shows "read_field dbg et nt uc m f = Inr (m\<lparr>ip_pos := ip_pos m + length (enc_field dbg et nt uc f)\<rparr>, f)"
proof (cases f)
  case (NumberField i n)
  then show ?thesis using assms ipc_read_spec [of m dbg et nt i n r] by simp
next
  case (BoolField i b)
  then show ?thesis using assms ipc_read_spec [of m dbg et uc i "if b then 1 else 0 :: byte" r]
    by (cases b) (simp_all add: ipc_read_bool_def)
next
  case (BlobField i bs)
  then show ?thesis using assms ipc_read_blob_spec [of m dbg i bs r] by simp
qed

lemma read_fields_spec:
  assumes "drop (ip_pos m) (ip_buffer m) = enc_fields dbg et nt uc fs @ r"
    and "good_name et" and "good_name nt" and "good_name uc"
    and "ip_pos m + length (enc_fields dbg et nt uc fs) \<le> ip_size m" and "ip_size m \<le> length (ip_buffer m)"
  shows "read_fields dbg et nt uc m fs = Inr (m\<lparr>ip_pos := ip_pos m + length (enc_fields dbg et nt uc fs)\<rparr>, fs)"
  using assms
proof (induction fs arbitrary: m)
  case (Cons f fs)
  let ?e = "enc_field dbg et nt uc f" and ?es = "enc_fields dbg et nt uc fs"
  have s: "enc_fields dbg et nt uc (f # fs) = ?e @ ?es" by (simp add: enc_fields_def)
  have d: "drop (ip_pos m) (ip_buffer m) = ?e @ (?es @ r)" using Cons.prems(1) s by simp
  let ?m = "m\<lparr>ip_pos := ip_pos m + length ?e\<rparr>"
  have "read_field dbg et nt uc m f = Inr (?m, f)" using read_field_spec [OF d] Cons.prems s by simp
  moreover have "read_fields dbg et nt uc ?m fs = Inr (?m\<lparr>ip_pos := ip_pos ?m + length ?es\<rparr>, fs)"
    using Cons.IH [of ?m] Cons.prems s drop_append_part [OF d] by simp
  ultimately show ?case unfolding s by (simp add: add.assoc)
qed (simp add: enc_fields_def)

lemma ipc_open_header:
  assumes "take (length (enc_header dbg mt t)) buf = enc_header dbg mt t" and "good_name mt"
    and "length (enc_header dbg mt t) \<le> sz"
  shows "ipc_open dbg (length t) buf sz 0 = Inr \<lparr>ip_buffer = buf, ip_size = sz, ip_pos = length (enc_header dbg mt t)\<rparr>"
proof (cases dbg)
  case True
  have "drop 0 buf = enc_header dbg mt t @ drop (length (enc_header dbg mt t)) buf"
    using assms(1) by (metis append_take_drop_id drop0)
  then have d: "drop 0 buf = mt @ 59 # (t @ drop (length (enc_header dbg mt t)) buf)" using True by (simp add: enc_header_def)
  have n: "59 \<notin> set mt" using assms(2) by (simp add: good_name_def)
  have "skip_semicolons 1 buf sz 0 = Inr (length mt + 1)"
    using skip_semicolons_run [OF d n, of sz 0] assms(3) True skip_semicolons_0 by (simp add: enc_header_def)
  then show ?thesis using True assms(3) by (simp add: ipc_open_def check_def enc_header_def)
next
  case False
  then show ?thesis using assms(3) by (simp add: ipc_open_def check_def enc_header_def)
qed

lemma ipc_newMsg_spec:
  assumes "good_name mt" and "length (enc_header dbg mt t) < sz" and "sz \<le> length buf"
  shows "\<exists>b. ipc_newMsg dbg mt t buf sz = Inr \<lparr>ip_buffer = b, ip_size = sz, ip_pos = length (enc_header dbg mt t)\<rparr> \<and>
     length b = length buf \<and> take (length (enc_header dbg mt t)) b = enc_header dbg mt t"
proof -
  let ?h = "if dbg then mt @ [59] else []"
  have h: "enc_header dbg mt t = ?h @ t" by (simp add: enc_header_def)
  obtain b where b: "(if dbg then bindE (put_string buf 0 sz (mt @ [59])) (\<lambda>b. Inr (b, length mt + 1)) else Inr (buf, 0)) = Inr (b, length ?h)"
    "length b = length buf" "take (length ?h) b = ?h"
  proof (cases dbg)
    case True
    then have l: "length mt + 1 < sz" using assms(2) by (simp add: enc_header_def)
    obtain b where p: "put_bytes buf 0 (mt @ [59, 0]) = Inr b" "length b = length buf" "take (length (mt @ [59, 0])) b = mt @ [59, 0]"
      using put_bytes_spec [of 0 "mt @ [59, 0]" buf] l assms(3) by auto
    have "take (length mt + 1) b = take (length mt + 1) (take (length (mt @ [59, 0])) b)" by simp
    then have "take (length mt + 1) b = mt @ [59]" unfolding p(3) by simp
    moreover have "put_string buf 0 sz (mt @ [59]) = Inr b" using p(1) l by (simp add: put_string_def)
    ultimately show ?thesis using that [of b] True p(2) by simp
  qed (use that [of buf] in simp)
  obtain b' where b': "put_bytes b (length ?h) t = Inr b'" "length b' = length b" "take (length ?h + length t) b' = take (length ?h) b @ t"
    using put_bytes_spec [of "length ?h" t b] b(2) assms(2,3) h by auto
  have tk: "take (length (enc_header dbg mt t)) b' = enc_header dbg mt t" using b'(3) b(3) h by simp
  have op: "ipc_open dbg (length t) b' sz 0 = Inr \<lparr>ip_buffer = b', ip_size = sz, ip_pos = length (enc_header dbg mt t)\<rparr>"
    by (rule ipc_open_header [OF tk assms(1)]) (use assms(2) in simp)
  have c: "check dbg (length t \<le> sz) = Inr ()" "check dbg (length ?h \<le> sz - length t) = Inr ()"
    using assms(2) h by (auto simp: check_def)
  have "ipc_newMsg dbg mt t buf sz = Inr \<lparr>ip_buffer = b', ip_size = sz, ip_pos = length (enc_header dbg mt t)\<rparr>"
    unfolding ipc_newMsg_def ipc_writeMsg_def c(1) bindE_Inr b(1) prod.case c(2) b'(1) op ..
  then show ?thesis using tk b' b(2) by auto
qed

lemma ipc_type_spec:
  assumes "take (length (enc_header dbg mt t)) buf = enc_header dbg mt t" and "good_name mt"
    and "length (enc_header dbg mt t) \<le> sz" and "sz \<le> length buf"
  shows "ipc_type dbg mt (length t) \<lparr>ip_buffer = buf, ip_size = sz, ip_pos = p\<rparr> = Inr t"
proof (cases dbg)
  case True
  have "drop 0 buf = enc_header dbg mt t @ drop (length (enc_header dbg mt t)) buf"
    using assms(1) by (metis append_take_drop_id drop0)
  then have d: "drop 0 buf = mt @ 59 # (t @ drop (length (enc_header dbg mt t)) buf)" using True by (simp add: enc_header_def)
  have n: "59 \<notin> set mt" using assms(2) by (simp add: good_name_def)
  have l: "length mt + 1 + length t \<le> sz" using assms(3) True by (simp add: enc_header_def)
  have "skip_semicolons 1 buf sz 0 = Inr (length mt + 1)"
    using skip_semicolons_run [OF d n, of sz 0] l skip_semicolons_0 by simp
  moreover have "scan_tag (drop 0 buf) = mt" unfolding d by (rule scan_tag_name [OF assms(2)])
  then have "scan_tag buf = mt" by simp
  moreover have "drop (length mt + 1) buf = t @ drop (length (enc_header dbg mt t)) buf"
  proof -
    have "drop (0 + length (mt @ [59])) buf = t @ drop (length (enc_header dbg mt t)) buf"
      by (rule drop_append_part) (simp only: d append_assoc append.simps)
    then show ?thesis by simp
  qed
  moreover have "mt \<noteq> []" using assms(2) by (simp add: good_name_def)
  ultimately show ?thesis using True l assms(4) by (simp add: ipc_type_def get_bytes_def strncmp_eq_def)
next
  case False
  then show ?thesis using assms(1,3,4) by (simp add: ipc_type_def get_bytes_def enc_header_def)
qed

section \<open>Properties\<close>

text \<open>
  C39: A message survives its journey, in release and in debug builds: when it fits the buffer of
  the sender, creating it and writing its fields succeeds, the receiver opens what \<open>send\<close> hands
  to the queue, finds the type and, reading the same fields in the same order, the values that were
  written, and no bytes are left.
\<close>

theorem ipc_message_roundtrip:
  assumes "good_name mt" and "good_name et" and "good_name nt" and "good_name uc"
    and "length (enc_header dbg mt t @ enc_fields dbg et nt uc fs) < sz" and "sz \<le> length buf"
    and "sz \<le> maxSize"
    and "\<And>msg b. length msg \<le> maxSize \<Longrightarrow> snd (recv msg b maxSize) = length msg \<and> take (length msg) (fst (recv msg b maxSize)) = msg"
  shows "\<exists>m0 m1 msg r0 r1. ipc_newMsg dbg mt t buf sz = Inr m0 \<and> write_fields dbg et nt uc m0 fs = Inr m1 \<and>
     ipc_sent m1 = Inr msg \<and> ipc_recvMsg dbg (length t) (recv msg) rbuf maxSize = Inr r0 \<and>
     ipc_type dbg mt (length t) r0 = Inr t \<and> read_fields dbg et nt uc r0 fs = Inr (r1, fs) \<and>
     ipc_bytesLeft dbg r1 = Inr 0"
proof -
  let ?h = "enc_header dbg mt t" and ?f = "enc_fields dbg et nt uc fs"
  obtain b where b: "ipc_newMsg dbg mt t buf sz = Inr \<lparr>ip_buffer = b, ip_size = sz, ip_pos = length ?h\<rparr>" (is "_ = Inr ?m0")
    "length b = length buf" "take (length ?h) b = ?h"
    using ipc_newMsg_spec [OF assms(1) _ assms(6), of dbg t] assms(5) by auto
  obtain b' where b': "write_fields dbg et nt uc ?m0 fs = Inr \<lparr>ip_buffer = b', ip_size = sz, ip_pos = length ?h + length ?f\<rparr>" (is "_ = Inr ?m1")
    "length b' = length b" "take (length ?h + length ?f) b' = take (length ?h) b @ ?f"
    using write_fields_spec [of ?m0 dbg et nt uc fs] assms(5,6) b(2) by auto
  let ?msg = "?h @ ?f"
  have sent: "ipc_sent ?m1 = Inr ?msg" using b' b assms(5,6) by (simp add: ipc_sent_def get_bytes_def)
  obtain rb where rv: "recv ?msg rbuf maxSize = (rb, length ?msg)" "take (length ?msg) rb = ?msg"
    using assms(8) [of ?msg rbuf] assms(5,7) by (cases "recv ?msg rbuf maxSize") auto
  have rl: "length ?msg \<le> length rb" using arg_cong [OF rv(2), of length] by simp
  have th: "take (length ?h) rb = ?h"
    using arg_cong [OF rv(2), of "take (length ?h)"] by simp
  let ?r0 = "\<lparr>ip_buffer = rb, ip_size = length ?msg, ip_pos = length ?h\<rparr>"
  have "ipc_recvMsg dbg (length t) (recv ?msg) rbuf maxSize = Inr ?r0"
  proof -
    have c: "check dbg (length ?msg \<le> maxSize) = Inr ()" using assms(5,7) by (auto simp: check_def)
    have o: "ipc_open dbg (length t) rb (length ?msg) 0 = Inr ?r0" by (rule ipc_open_header [OF th assms(1)]) simp
    show ?thesis unfolding ipc_recvMsg_def rv(1) prod.case c bindE_Inr ipc_readMsg_def o ..
  qed
  moreover have "ipc_type dbg mt (length t) ?r0 = Inr t"
    by (rule ipc_type_spec [OF th assms(1) _ rl]) simp
  moreover have "drop (length ?h) rb = ?f @ drop (length ?msg) rb"
    using rv(2) by (metis append_assoc append_eq_conv_conj append_take_drop_id)
  then have "read_fields dbg et nt uc ?r0 fs = Inr (?r0\<lparr>ip_pos := length ?msg\<rparr>, fs)"
    using read_fields_spec [of ?r0 dbg et nt uc fs "drop (length ?msg) rb"] assms(2-4) rl by simp
  moreover have "ipc_bytesLeft dbg (?r0\<lparr>ip_pos := length ?msg\<rparr>) = Inr 0" by (simp add: ipc_bytesLeft_def check_def)
  ultimately show ?thesis using b(1) b'(1) sent by blast
qed

theorem ipc_message_roundtrip_witness:
  "\<exists>m0 m1 msg r0 r1. ipc_newMsg True [69] [1, 0, 0, 0] (replicate 200 0) 200 = Inr m0 \<and>
     write_fields True [73] [109] [104] m0 [NumberField 3 1000, BoolField 4 True, BlobField 5 [1, 2]] = Inr m1 \<and>
     ipc_sent m1 = Inr msg \<and> ipc_recvMsg True (length [1, 0, 0, 0 :: byte]) (\<lambda>b n. (msg, length msg)) [] 200 = Inr r0 \<and>
     ipc_type True [69] (length [1, 0, 0, 0 :: byte]) r0 = Inr [1, 0, 0, 0] \<and>
     read_fields True [73] [109] [104] r0 [NumberField 3 1000, BoolField 4 True, BlobField 5 [1, 2]]
       = Inr (r1, [NumberField 3 1000, BoolField 4 True, BlobField 5 [1, 2]]) \<and> ipc_bytesLeft True r1 = Inr 0"
proof -
  have e: "encode_blocks (1000 :: 64 word) = [232, 7]"
    by (simp add: encode_blocks.simps [of "1000 :: 64 word"] encode_blocks.simps [of "7 :: 64 word"])
  have e1: "encode_blocks (1 :: byte) = [1]" by (simp add: encode_blocks.simps)
  have "length (enc_header True [69] [1, 0, 0, 0] @
      enc_fields True [73] [109] [104] [NumberField 3 1000, BoolField 4 True, BlobField 5 [1, 2]]) < 200"
    by (simp add: enc_header_def enc_fields_def enc_number_def enc_blob_def number_tag_def blob_tag_def blob_name_def e e1
        print_int_def print_nat.simps)
  from ipc_message_roundtrip [OF _ _ _ _ this, of "replicate 200 0" 200 "\<lambda>msg b n. (msg, length msg)" "[]"]
  show ?thesis by (rule meta_mp) (simp_all add: good_name_def)
qed

text \<open>
  \<open>MicroMsg\<close>: reading at the position where a number of any width was written gives the
  number back and stops at the same place, whatever bytes follow.
\<close>

theorem micro_roundtrip:
  fixes n :: "'w::len word"
  assumes "micro_write m n = Inr m'"
  shows "micro_read (m'\<lparr>mm_pos := mm_pos m\<rparr>) = Inr (m', n)"
proof -
  let ?e = "encode_blocks n"
  obtain b where b: "put_bytes (mm_buffer m) (mm_pos m) ?e = Inr b" and m': "m' = m\<lparr>mm_buffer := b, mm_pos := mm_pos m + length ?e\<rparr>"
    using assms by (auto simp: micro_write_def bindE_simps)
  have l: "mm_pos m + length ?e \<le> length (mm_buffer m)" using b by (simp add: put_bytes_def split: if_splits)
  then have "drop (mm_pos m) b = ?e @ drop (mm_pos m + length ?e) (mm_buffer m)"
    using b by (auto simp: put_bytes_def)
  note s = ipc_scan_encoded [OF this, of "mm_pos m + length ?e"]
  show ?thesis using s(2,3) by (simp add: micro_read_def m' decode_encode)
qed

theorem micro_roundtrip_witness:
  "\<exists>m'. micro_write \<lparr>mm_buffer = [9, 9, 9, 9], mm_pos = 1\<rparr> (300 :: 16 word) = Inr m' \<and>
     micro_read (m'\<lparr>mm_pos := 1\<rparr>) = Inr (m', 300 :: 16 word)"
proof -
  let ?m = "\<lparr>mm_buffer = [9, 9, 9, 9], mm_pos = 1\<rparr>"
  have e: "encode_blocks (300 :: 16 word) = [172, 2]"
    by (simp add: encode_blocks.simps [of "300 :: 16 word"] encode_blocks.simps [of "2 :: 16 word"])
  have "micro_write ?m (300 :: 16 word) = Inr (?m\<lparr>mm_buffer := [9, 172, 2, 9], mm_pos := 3\<rparr>)"
    by (simp add: micro_write_def e put_bytes_def)
  from micro_roundtrip [OF this] this show ?thesis by simp
qed

lemma encode_length_le: "unat n < 2 ^ (7 * Suc k) \<Longrightarrow> length (encode_blocks n) \<le> Suc k" for n :: "'w::len word"
proof (induction k arbitrary: n)
  case 0
  have "unat (drop_bit 7 n) = drop_bit 7 (unat n)" by (rule unat_drop_bit_eq)
  then have "unat (drop_bit 7 n) = 0" using 0 by (simp add: drop_bit_eq_div)
  then have "\<not> drop_bit 7 n > 0" by (simp add: unat_eq_0)
  then show ?case by (simp add: encode_blocks.simps [of n] Let_def)
next
  case (Suc k)
  have "unat (drop_bit 7 n) = drop_bit 7 (unat n)" by (rule unat_drop_bit_eq)
  moreover have "unat n div 128 < 2 ^ (7 * Suc k)"
    using Suc.prems by (intro less_mult_imp_div_less) (simp add: power_add mult.commute)
  ultimately have "unat (drop_bit 7 n) < 2 ^ (7 * Suc k)" by (simp add: drop_bit_eq_div)
  from Suc.IH [OF this] show ?case by (simp add: encode_blocks.simps [of n] Let_def)
qed

text \<open>
  A number below \<open>2 ^ (7 * k)\<close> takes at most \<open>k\<close> bytes, so no number of \<open>w\<close> bits takes
  more than \<open>(w + 6) div 7\<close>: ten for a \<open>size_t\<close>.
\<close>

theorem encode_length_bound:
  "length (encode_blocks (n :: 'w::len word)) \<le> (LENGTH('w) + 6) div 7"
proof -
  let ?k = "(LENGTH('w) + 6) div 7"
  have k: "0 < ?k" "LENGTH('w) \<le> 7 * ?k" using len_gt_0 [where 'a = 'w] by presburger+
  have "unat n < 2 ^ LENGTH('w)" by simp
  also have "(2 :: nat) ^ LENGTH('w) \<le> 2 ^ (7 * ?k)" using k(2) by (rule power_increasing) simp
  finally show ?thesis using encode_length_le [of n "?k - 1"] k(1) by simp
qed

lemma ipc_put_tag_total:
  assumes "ip_pos m \<le> ip_size m" and "ip_size m \<le> length (ip_buffer m)"
  shows "\<exists>b. length b = length (ip_buffer m) \<and> ipc_put_tag m str =
    (if ip_pos m + length str \<le> ip_size m then Inr (m\<lparr>ip_buffer := b, ip_pos := ip_pos m + length str\<rparr>)
     else Inl AssertionFailed)"
proof (cases "ip_size m - ip_pos m = 0")
  case True
  show ?thesis by (rule exI [of _ "ip_buffer m"]) (use True assms in \<open>auto simp: ipc_put_tag_def put_string_def\<close>)
next
  case False
  let ?s = "take (ip_size m - ip_pos m - 1) str @ [0]"
  obtain b where "put_bytes (ip_buffer m) (ip_pos m) ?s = Inr b" "length b = length (ip_buffer m)"
  proof -
    have "length ?s \<le> ip_size m - ip_pos m" using False by simp
    then have "ip_pos m + length ?s \<le> length (ip_buffer m)" using assms False by linarith
    then show ?thesis using that put_bytes_spec by blast
  qed
  then show ?thesis using False by (intro exI [of _ b]) (auto simp: ipc_put_tag_def put_string_def)
qed

lemma ipc_put_blocks_release:
  "ip_pos m + length cs \<le> length (ip_buffer m) \<Longrightarrow>
   \<exists>b. ipc_put_blocks False m cs = Inr (m\<lparr>ip_buffer := b, ip_pos := ip_pos m + length cs\<rparr>)"
proof (induction cs arbitrary: m)
  case Nil
  show ?case by (rule exI [of _ "ip_buffer m"]) (simp add: check_def)
next
  case (Cons c cs)
  then show ?case
    using Cons.IH [of "m\<lparr>ip_buffer := (ip_buffer m)[ip_pos m := c], ip_pos := ip_pos m + 1\<rparr>"]
    by (simp add: check_def)
qed

text \<open>
  A number that does not fit between the position and the size of the message: a debug build
  stops at an assertion; a release build writes it all the same and leaves the
  position behind the end of the message.
\<close>

theorem ipc_write_overflow:
  assumes "ip_pos m \<le> ip_size m" and "ip_size m \<le> length (ip_buffer m)"
    and "ip_size m < ip_pos m + length (enc_number dbg et nt fid n)"
  shows "(dbg \<longrightarrow> ipc_write dbg et nt m fid n = Inl AssertionFailed) \<and>
    (\<not> dbg \<and> ip_pos m + length (encode_blocks n) \<le> length (ip_buffer m) \<longrightarrow>
       (\<exists>m'. ipc_write dbg et nt m fid n = Inr m' \<and> ip_size m' < ip_pos m'))"
proof (cases dbg)
  case True
  let ?t = "number_tag et nt fid"
  obtain b where b: "length b = length (ip_buffer m)" "ipc_put_tag m ?t =
    (if ip_pos m + length ?t \<le> ip_size m then Inr (m\<lparr>ip_buffer := b, ip_pos := ip_pos m + length ?t\<rparr>)
     else Inl AssertionFailed)"
    using ipc_put_tag_total [OF assms(1,2)] by blast
  have "ipc_put_blocks True (m\<lparr>ip_buffer := b, ip_pos := ip_pos m + length ?t\<rparr>) (encode_blocks n) = Inl AssertionFailed"
    if "ip_pos m + length ?t \<le> ip_size m"
    using assms that b(1) True by (intro ipc_put_blocks_overrun) (auto simp: enc_number_def)
  then show ?thesis using True b(2) by (simp add: ipc_write_def)
next
  case False
  then show ?thesis
    using ipc_put_blocks_release [of m "encode_blocks n"] assms(3) by (auto simp: ipc_write_def enc_number_def)
qed

theorem ipc_write_overflow_witness:
  "ipc_write True [73] [109] \<lparr>ip_buffer = replicate 20 0, ip_size = 4, ip_pos = 0\<rparr> 3 (5 :: 16 word) = Inl AssertionFailed"
  using ipc_write_overflow [of "\<lparr>ip_buffer = replicate 20 0, ip_size = 4, ip_pos = 0\<rparr>" True "[73]" "[109]" 3 "5 :: 16 word"]
  by (simp add: enc_number_def number_tag_def)

text \<open>
  A blob that fills the message to its last byte is refused by the assertion of a debug build
  (it wants the size to be strictly less than the space left), although reading such a blob is allowed
  and a release build writes it.
\<close>

theorem ipc_blob_exact_fit:
  assumes "ip_size m \<le> length (ip_buffer m)" and "ip_pos m + length (enc_blob dbg fid bs) = ip_size m"
  shows "(dbg \<longrightarrow> ipc_write_blob dbg m fid bs = Inl AssertionFailed) \<and>
    (\<not> dbg \<longrightarrow> (\<exists>m'. ipc_write_blob dbg m fid bs = Inr m' \<and> ip_pos m' = ip_size m \<and>
       ipc_read_blob dbg (m'\<lparr>ip_pos := ip_pos m\<rparr>) fid (length bs) = Inr (m', bs)))"
proof (cases dbg)
  case True
  obtain b where b: "length b = length (ip_buffer m)" "ipc_put_tag m (blob_tag fid) =
    (if ip_pos m + length (blob_tag fid) \<le> ip_size m then Inr (m\<lparr>ip_buffer := b, ip_pos := ip_pos m + length (blob_tag fid)\<rparr>)
     else Inl AssertionFailed)"
    using ipc_put_tag_total [of m "blob_tag fid"] assms True by (auto simp: enc_blob_def)
  then show ?thesis using True assms(2) by (auto simp: ipc_write_blob_def check_def enc_blob_def)
next
  case False
  let ?b = "take (ip_pos m) (ip_buffer m) @ bs @ drop (ip_pos m + length bs) (ip_buffer m)"
  let ?m = "m\<lparr>ip_buffer := ?b, ip_pos := ip_pos m + length bs\<rparr>"
  have w: "ipc_write_blob dbg m fid bs = Inr ?m" using False assms
    by (simp add: ipc_write_blob_def check_def put_bytes_def enc_blob_def)
  have "drop (ip_pos m) ?b = bs @ drop (ip_pos m + length bs) (ip_buffer m)" using assms by simp
  then have "ipc_read_blob dbg (?m\<lparr>ip_pos := ip_pos m\<rparr>) fid (length bs) = Inr (?m, bs)"
    using ipc_read_blob_spec [of "?m\<lparr>ip_pos := ip_pos m\<rparr>" dbg fid bs "drop (ip_pos m + length bs) (ip_buffer m)"] assms False
    by (simp add: enc_blob_def)
  then show ?thesis using w False assms(2) by (simp add: enc_blob_def)
qed

theorem ipc_blob_exact_fit_witness:
  "ipc_write_blob True \<lparr>ip_buffer = replicate 10 0, ip_size = 10, ip_pos = 0\<rparr> 5 [1, 2] = Inl AssertionFailed"
  using ipc_blob_exact_fit [of "\<lparr>ip_buffer = replicate 10 0, ip_size = 10, ip_pos = 0\<rparr>" True 5 "[1, 2]"]
  by (simp add: enc_blob_def blob_tag_def blob_name_def print_int_def print_nat.simps)

end
