(* ===== verification/Spec2Isabelle.thy ===== *)
theory Spec2Isabelle imports Process_Group Mpi_Exchange Dynamic_Hook Machine_Results Startup Rng Ipc_Message begin

text \<open>
  A model of the LPF library (Lightweight Parallel Foundations, with the engine \<open>ibverbs\<close> for tasks), the C++ code under \<open>src/src\<close>.
  An LPF program is a section: a function that all processes of a machine run together.  It registers memory, moves data by one-sided
  transfers between registered areas, and separates supersteps by \<open>sync\<close>.

  \<^bold>\<open>The parts and how they interact.\<close>  A call of the C interface (\<open>MPI/core.cpp\<close>) goes to the run-time of the process (\<open>Interface\<close>), from there to
  the message queue (\<open>MessageQueue\<close>), which translates slots by the registration table (\<open>MemoryTable\<close>) and passes transfers to the
  engine (\<open>IBVerbs\<close>).  The engine posts work requests to the device and is driven by a polling task.  A section is started by
  \<open>Process::hook\<close> on processes that exist, or by \<open>Process::exec\<close> on processes that wait in a loop.  Processes come from MPI, or they find each
  other over TCP (\<open>dynamicHook\<close>).  Before \<open>main\<close>, an initializer measures the machine and makes the root.  Underneath are
  containers (slot registers, sparse sets, message sorting), buffers, clocks and configuration.

  \<^bold>\<open>How code becomes definitions.\<close>
  \<^item> A class is a record, an operation a definition with the name of the member function; the fields keep their names where Isabelle
    allows it.  A C++ operation that calls nothing outside returns \<open>fault + result\<close> (\<open>Prelude\<close>): a false assertion, an access outside of
    a vector and a dereferenced null pointer are faults, and so are exceptions, which are the only faults that a handler catches.
  \<^item> An operation that calls the outside (MPI, the verbs, the tasking runtime, the operating system, the allocator of another component)
    is an \<open>act\<close> (\<open>Interaction\<close>): a tree of calls, where every answer is possible.  \<open>acts m s tr r s'\<close> says that a run of \<open>m\<close> from the state \<open>s\<close>
    makes the calls \<open>tr\<close> with the answers recorded there, returns or throws \<open>r\<close>, and leaves \<open>s'\<close>.  What the documentation promises of a call
    is a hypothesis on the trace; \<open>External\<close> holds the one for the collective calls, \<open>collectives_ok\<close>: the traces of all processes together,
    when they make the same kinds of calls in the same order, have the answers that MPI defines.
  \<^item> A statement about several processes takes one state, one trace and one result for each, and never an order of their steps.
  \<^item> Allocations are answered by a parameter \<open>ok\<close>, which says for every allocation of a call whether it succeeds.
  \<^item> A \<open>size_t\<close> is a \<open>nat\<close> whose wrap-around is written out (\<open>add64\<close>, \<open>mul64\<close>, \<open>sub64\<close>) wherever the code can overflow; numbers of fixed width that
    the code takes apart by bits are words; a \<open>double\<close> is a rational number with the rounding of the IEEE format (\<open>Double\<close>).

  \<^bold>\<open>Theories.\<close>
  \<^item> \<open>Memreg\<close>: \<open>common/memreg.hpp\<close>, the allocation of slots.  The interface of a slot register is the locale \<open>slot_register\<close>, which both
    classes interpret, one of them twice.  Lemmas: the invariant, freshness, what a look-up finds, and that the same calls give the same
    slots on all processes (\<open>memreg_slots_consistent\<close>).
  \<^item> \<open>Sparse_Set\<close>: \<open>common/sparseset.hpp\<close>, a set kept as a permutation; the locale \<open>dirty_list\<close> is what its users rely on.  The
    operations refine those of mathematical sets.
  \<^item> \<open>Message_Sort\<close>: \<open>MPI/messagesort.{hpp,cpp}\<close>, the sorting of overlapping writes by grains of memory.
  \<^item> \<open>Ipc_Message\<close>: \<open>common/micromsg.hpp\<close> and \<open>MPI/ipcmesg.hpp\<close>, numbers and blobs in buffers, with the tags of debug builds.
  \<^item> \<open>Time\<close>, \<open>Double\<close>, \<open>Time_Double\<close>: \<open>common/time.{hpp,cpp}\<close>, exact arithmetic first, then what it computes in \<open>double\<close>.
  \<^item> \<open>Config\<close>: \<open>common/config.cpp\<close>, the getters with the extraction of numbers from a string stream.
  \<^item> \<open>Rng\<close>: \<open>common/rng.c\<close>, random numbers, and why the division of the sequence among processes is wrong.
  \<^item> \<open>Machine_Params\<close>, \<open>Machine_Results\<close>: \<open>common/machineparams.{hpp,cpp}\<close>, the measurement of the machine as a client of the interface, and
    \<open>Interface::messageGap\<close> and \<open>latency\<close>.  The first theory has the definitions, the second agreement, bounds, typing and exactness.
  \<^item> \<open>Ibverbs\<close>, \<open>Ibverbs_Rma\<close>, \<open>Ibverbs_Progress\<close>: \<open>MPI/ibverbs.{hpp,cpp}\<close>; the state with queue pairs and registration, the
    transfers, and the polling engine with \<open>sync\<close>.  The engine refines a state machine with three phases
    (\<open>processSyncRequest_refines\<close>), counts every completion once, and a superstep waits for exactly the messages that were sent to it.
  \<^item> \<open>Memory_Table\<close>: \<open>MPI/memorytable.{hpp,cpp}\<close>; every live slot that is not waiting for a synchronisation has its registration, and a
    synchronisation exchanges the registrations of all processes.
  \<^item> \<open>Message_Queue\<close>, \<open>Interface\<close>: \<open>MPI/mesgqueue.{hpp,cpp}\<close>, \<open>MPI/interface.{hpp,cpp}\<close> and the operations of a section in \<open>MPI/core.cpp\<close>.
  \<^item> \<open>Communication\<close>: what \<open>MPI/communication.hpp\<close> and \<open>MPI/trysync.hpp\<close> build from collective calls.
  \<^item> \<open>Process\<close>, \<open>Process_Exec\<close>, \<open>Process_Group\<close>: \<open>MPI/process.{hpp,cpp}\<close> and \<open>MPI/symbol.{hpp,cpp}\<close>; running a section with its two handlers, symbols and
    their broadcast, and starting a section on waiting processes.  Lemmas: all processes of a section agree on its outcome
    (\<open>hook_agreement\<close>), the new machine has the requested processes under their own numbers (\<open>exec_groups_ranks\<close>), and a waiting
    process is a server that runs one section for every command (\<open>slave_serves\<close>).
  \<^item> \<open>Mpi_Messages\<close>, \<open>Mpi_Exchange\<close>, \<open>Mpi_Lib\<close>: \<open>MPI/mpilib.{hpp,cpp}\<close>; point-to-point messages in parts, the sparse total exchange, and the
    life of communicators, windows and of the library object.
  \<^item> \<open>Dynamic_Hook\<close>: \<open>MPI/dynamichook.cpp\<close>, how processes join over TCP.
  \<^item> \<open>Startup\<close>: \<open>MPI/init.cpp\<close>, \<open>Interface::initRoot\<close>, and the functions of \<open>MPI/core.cpp\<close> that connect.

  \<^bold>\<open>Bounds.\<close>  A loop that the code does not bound itself takes a number of rounds and answers \<open>OutOfFuel\<close> when these are used up.
  \<^item> \<open>iwaitall\<close>: every round receives a part or finds none, so that a bound above the number of both is enough (\<open>iwaitall_ends\<close>).
  \<^item> \<open>window_put\<close> needs no more rounds than the transfer has bytes, and one for the test (\<open>put_covers\<close>); with a maximal message size of zero
    it would not stop, which the configuration does not exclude.
  \<^item> \<open>slave_loop\<close> and \<open>process_new\<close> count the commands that a waiting process gets, \<open>accept_loop\<close>, \<open>connect_loop\<close> and \<open>open_sockets\<close> the
    attempts before the time is over, \<open>nbx_loop\<close> the rounds of polling: how many there are is decided outside, and the statements
    hold for every bound.
  \<^item> \<open>div64\<close> corrects an estimate one by one; twenty rounds are enough for the division that is computed here.
  \<^item> \<open>doProgress\<close> is a loop for ever in the code; a number of its iterations is modelled, each with at most sixteen polls.

  \<^bold>\<open>Not modelled.\<close>
  \<^item> The log, stack traces and texts of \<open>strerror\<close> (\<open>common/log.cpp\<close>, \<open>common/stack.cpp\<close>): output only.
  \<^item> \<open>MPI/mpirpc.c\<close>: its headers are not in the repository.  \<open>imp/core.c\<close>: a stub for one process.  The prose of \<open>include/lpf/core.h\<close>.
  \<^item> In \<open>dynamicHook\<close> the jump out of the function when the alarm goes off; in \<open>Symbol\<close> the destructor, which closes the shared object
    with the last copy; in \<open>initRoot\<close> and in the connection over TCP the parts they put together, which are parameters there because their calls
    are of different kinds, and definitions in their own theories.
  \<^item> What the device, MPI and the tasking runtime do with a call: that two engines together move the bytes of a transfer is a property of
    the device; what is proved is which requests are posted and how completions are counted.
  \<^item> Examples, tests, build files, launchers (\<open>lpfrun\<close>) and documents.
\<close>

end
